(* ===== verification/Prelude.thy ===== *)
theory Prelude
  imports Main "HOL-Library.Sublist" "HOL-Library.Word"
begin

text \<open>
  Shared vocabulary of the development.

  A C string is a list of characters without the terminating NUL; a byte buffer is a list of
  characters that may contain NUL.  A pointer into a string is modelled by the suffix it points
  to (or, where the code looks behind the pointer, by the pair of what lies before and after it).
  The theory holds the functions of the C library that several components use (strchr, strstr,
  strtok, strncmp as a prefix test, decimal and octal formatting), the line structure that the
  pointer walks of the sources induce on a text, the outcome type of code that may exit the
  process or run into undefined behaviour, and the lemmas about them that the components share.
\<close>

named_theorems cstr "facts about C strings used as rewrite rules by the component proofs"
named_theorems fs_simps "facts about the file-system operations"

type_synonym cstr = string
type_synonym bytes = "char list"

abbreviation NUL :: char where "NUL \<equiv> CHR 0x00"
abbreviation NL :: char where "NL \<equiv> CHR 0x0A"
abbreviation SP :: char where "SP \<equiv> CHR 0x20"
abbreviation SLASH :: char where "SLASH \<equiv> CHR 0x2F"

section \<open>Outcomes of code that may not return\<close>

text \<open>
  \<open>Returns x\<close>: the C function returned.  \<open>Exits n\<close>: it called exit (or one of the
  \<open>_and_die\<close> helpers) with status \<open>n\<close>.  \<open>Undefined\<close>: it ran into undefined behaviour of C (a
  write outside an object); nothing is claimed about what happens next.
\<close>

datatype 'a outcome = Returns 'a | Exits int | Undefined

fun returned :: "'a outcome \<Rightarrow> bool" where
  "returned (Returns _) = True"
| "returned _ = False"

section \<open>String functions of the C library\<close>

definition char_at :: "cstr \<Rightarrow> nat \<Rightarrow> char" where
  "char_at s n = (if n < length s then s ! n else NUL)"

text \<open>\<open>strchr\<close> gives the suffix at the first occurrence, \<open>strchrnul\<close> the end when there is none.\<close>

definition strchr :: "cstr \<Rightarrow> char \<Rightarrow> cstr option" where
  "strchr s c = (case dropWhile (\<lambda>x. x \<noteq> c) s of [] \<Rightarrow> None | t \<Rightarrow> Some t)"

definition strchrnul :: "cstr \<Rightarrow> char \<Rightarrow> cstr" where
  "strchrnul s c = dropWhile (\<lambda>x. x \<noteq> c) s"

text \<open>
  \<open>strstr\<close> as the split of the haystack at the first occurrence: what lies before the returned
  pointer, and the suffix it points to.
\<close>

fun strstr :: "cstr \<Rightarrow> cstr \<Rightarrow> (cstr \<times> cstr) option" where
  "strstr [] needle = (if needle = [] then Some ([], []) else None)"
| "strstr (c # cs) needle =
     (if prefix needle (c # cs) then Some ([], c # cs)
      else map_option (\<lambda>(p, q). (c # p, q)) (strstr cs needle))"

text \<open>\<open>strncpy\<close> of at most \<open>n\<close> characters into a buffer with a NUL behind it.\<close>

definition strncpy_str :: "nat \<Rightarrow> bytes \<Rightarrow> cstr" where
  "strncpy_str n s = takeWhile (\<lambda>x. x \<noteq> NUL) (take n s)"

text \<open>The pieces that a loop over \<open>strtok(s, "\n")\<close> hands out: the maximal runs without newline.\<close>

lemma dropWhile_Cons_hd: "dropWhile P s = x # t \<Longrightarrow> \<not> P x"
  by (induction s) (auto split: if_splits)

function strtok_lines :: "cstr \<Rightarrow> cstr list" where
  "strtok_lines s =
     (case dropWhile (\<lambda>x. x = NL) s of
        [] \<Rightarrow> []
      | t \<Rightarrow> takeWhile (\<lambda>x. x \<noteq> NL) t # strtok_lines (dropWhile (\<lambda>x. x \<noteq> NL) t))"
  by pat_completeness auto
termination
proof (relation "measure (\<lambda>s. length s)", goal_cases)
  case (2 s x21 x22)
  from dropWhile_Cons_hd [OF 2] have "x21 \<noteq> NL" by simp
  then have "length (dropWhile (\<lambda>x. x \<noteq> NL) (x21 # x22)) < length (x21 # x22)"
    by (simp add: le_imp_less_Suc length_dropWhile_le)
  also have "\<dots> \<le> length s" using length_dropWhile_le [of "\<lambda>x. x = NL" s] 2 by simp
  finally show ?case by simp
qed simp

declare strtok_lines.simps [simp del]

section \<open>Lines of a text\<close>

text \<open>
  The sources walk a text with \<open>p = strchr(p, '\n'); if (p) p++;\<close> and stop at NULL or at the
  terminating NUL.  \<open>next_line\<close> is one such step and \<open>lines_of\<close> the list of the lines visited.
\<close>

definition next_line :: "cstr \<Rightarrow> cstr" where
  "next_line p = (case strchr p NL of None \<Rightarrow> [] | Some q \<Rightarrow> tl q)"

definition first_line :: "cstr \<Rightarrow> cstr" where
  "first_line p = takeWhile (\<lambda>x. x \<noteq> NL) p"

lemma next_line_eq: "next_line p = tl (dropWhile (\<lambda>x. x \<noteq> NL) p)"
  by (cases "dropWhile (\<lambda>x. x \<noteq> NL) p") (simp_all add: next_line_def strchr_def del: dropWhile_eq_Nil_conv)

lemma length_next_line: "p \<noteq> [] \<Longrightarrow> length (next_line p) < length p"
proof -
  assume "p \<noteq> []"
  have "length (tl (dropWhile (\<lambda>x. x \<noteq> NL) p)) \<le> length p - 1"
    using length_dropWhile_le [of "\<lambda>x. x \<noteq> NL" p] by (simp add: diff_le_mono)
  also have "\<dots> < length p" using \<open>p \<noteq> []\<close> by simp
  finally show ?thesis by (simp add: next_line_eq)
qed

function lines_of :: "cstr \<Rightarrow> cstr list" where
  "lines_of p = (if p = [] then [] else first_line p # lines_of (next_line p))"
  by pat_completeness auto
termination
  by (relation "measure length") (auto simp: length_next_line)

declare lines_of.simps [simp del]

section \<open>Numbers as text\<close>

definition digit_char :: "nat \<Rightarrow> char" where
  "digit_char n = (char_of (48 + n) :: char)"

fun dec_of_nat :: "nat \<Rightarrow> cstr" where
  "dec_of_nat n = (if n < 10 then [digit_char n] else dec_of_nat (n div 10) @ [digit_char (n mod 10)])"

declare dec_of_nat.simps [simp del]

text \<open>\<open>%d\<close> and \<open>%lld\<close> of printf.\<close>

definition dec_of_int :: "int \<Rightarrow> cstr" where
  "dec_of_int i = (if i < 0 then CHR ''-'' # dec_of_nat (nat (- i)) else dec_of_nat (nat i))"

text \<open>The \<open>k\<close> low digits of a number in some base, each as the character at an offset.\<close>

fun low_chars :: "nat \<Rightarrow> nat \<Rightarrow> nat \<Rightarrow> nat \<Rightarrow> cstr" where
  "low_chars base c0 0 v = []"
| "low_chars base c0 (Suc k) v = low_chars base c0 k (v div base) @ [char_of (c0 + v mod base)]"

text \<open>Character classes of the C locale.\<close>

definition ch :: "char \<Rightarrow> nat" where
  "ch c = of_char c"

definition isdigit :: "char \<Rightarrow> bool" where
  "isdigit c \<longleftrightarrow> 48 \<le> ch c \<and> ch c \<le> 57"

definition isupper :: "char \<Rightarrow> bool" where
  "isupper c \<longleftrightarrow> 65 \<le> ch c \<and> ch c \<le> 90"

definition islower :: "char \<Rightarrow> bool" where
  "islower c \<longleftrightarrow> 97 \<le> ch c \<and> ch c \<le> 122"

definition isalpha :: "char \<Rightarrow> bool" where
  "isalpha c \<longleftrightarrow> isupper c \<or> islower c"

definition isalnum :: "char \<Rightarrow> bool" where
  "isalnum c \<longleftrightarrow> isalpha c \<or> isdigit c"

section \<open>Lemmas on strings\<close>

lemma strstr_Some_append: "strstr h n = Some (p, q) \<Longrightarrow> h = p @ q \<and> prefix n q"
  by (induction h n arbitrary: p rule: strstr.induct) (auto split: if_splits)

lemma strstr_None_iff: "strstr h n = None \<longleftrightarrow> \<not> sublist n h"
proof (induction h n rule: strstr.induct)
  case (1 n)
  show ?case by (cases n) simp_all
next
  case (2 c cs n)
  show ?case
  proof (cases "prefix n (c # cs)")
    case True
    then have "sublist n (c # cs)" by (simp add: sublist_Cons_right)
    with True show ?thesis by simp
  next
    case False
    with 2 show ?thesis by (simp add: sublist_Cons_right)
  qed
qed

lemma strstr_first:
  assumes "strstr h n = Some (p, q)" and "h = p' @ q'" and "prefix n q'"
  shows "length p \<le> length p'"
  using assms
proof (induction h n arbitrary: p p' rule: strstr.induct)
  case (1 n)
  from "1.prems"(1) have "p = []" by (simp split: if_splits)
  then show ?case by simp
next
  case (2 c cs n)
  show ?case
  proof (cases "prefix n (c # cs)")
    case True
    with "2.prems"(1) show ?thesis by simp
  next
    case False
    with "2.prems"(1) obtain p1 where p1: "p = c # p1" "strstr cs n = Some (p1, q)" by auto
    from False "2.prems" obtain p2 where p2: "p' = c # p2" "cs = p2 @ q'" by (cases p') auto
    from "2.IH" [OF False p1(2) p2(2) "2.prems"(3)] p1 p2 show ?thesis by simp
  qed
qed

text \<open>A split of the haystack at an occurrence that no earlier one precedes is what strstr finds.\<close>

lemma strstr_Some_iff:
  "strstr h n = Some (p, q) \<longleftrightarrow>
     h = p @ q \<and> prefix n q \<and> (\<forall>p' q'. h = p' @ q' \<longrightarrow> prefix n q' \<longrightarrow> length p \<le> length p')"
  (is "?L = ?R")
proof
  assume L: ?L
  from strstr_Some_append [OF L] strstr_first [OF L] show ?R by blast
next
  assume R: ?R
  then have "sublist n h" by (auto simp: sublist_def prefix_def)
  then obtain p0 q0 where s: "strstr h n = Some (p0, q0)"
    using strstr_None_iff by fastforce
  from strstr_Some_append [OF s] have s': "h = p0 @ q0" "prefix n q0" by auto
  from R have h: "h = p @ q" "prefix n q" by auto
  from strstr_first [OF s h] have "length p0 \<le> length p" .
  moreover from R s' have "length p \<le> length p0" by blast
  moreover from s' h have "p0 @ q0 = p @ q" by simp
  ultimately show ?L using s by simp
qed

lemma strstr_self [simp]: "strstr (n @ s) n = Some ([], n @ s)"
  by (simp add: strstr_Some_iff)

lemma char_at_append_len [simp]: "char_at (a @ b) (length a) = char_at b 0"
  by (simp add: char_at_def nth_append)

lemma char_at_Cons_0 [simp]: "char_at (c # s) 0 = c"
  by (simp add: char_at_def)

lemma char_at_Nil [simp]: "char_at [] n = NUL"
  by (simp add: char_at_def)

lemma char_at_Cons_Suc [simp]: "char_at (c # s) (Suc n) = char_at s n"
  by (simp add: char_at_def)

section \<open>Lemmas on lines\<close>

lemma lines_of_Nil [simp]: "lines_of [] = []"
  by (subst lines_of.simps) simp

lemma takeWhile_no_NL [simp]: "NL \<notin> set l \<Longrightarrow> takeWhile (\<lambda>x. x \<noteq> NL) (l @ NL # r) = l"
  by (induction l) auto

lemma dropWhile_no_NL [simp]: "NL \<notin> set l \<Longrightarrow> dropWhile (\<lambda>x. x \<noteq> NL) (l @ NL # r) = NL # r"
  by (induction l) auto

lemma first_line_append [simp]: "NL \<notin> set l \<Longrightarrow> first_line (l @ NL # r) = l"
  by (simp add: first_line_def)

lemma next_line_append [simp]: "NL \<notin> set l \<Longrightarrow> next_line (l @ NL # r) = r"
  by (simp add: next_line_eq)

lemma lines_of_append: "NL \<notin> set l \<Longrightarrow> lines_of (l @ NL # r) = l # lines_of r"
  by (subst lines_of.simps) simp

lemma lines_of_last: "NL \<notin> set l \<Longrightarrow> lines_of l = (if l = [] then [] else [l])"
proof -
  assume a: "NL \<notin> set l"
  then have t: "takeWhile (\<lambda>x. x \<noteq> NL) l = l" and d: "dropWhile (\<lambda>x. x \<noteq> NL) l = []"
    by (auto simp: takeWhile_eq_all_conv dropWhile_eq_Nil_conv)
  show ?thesis
    by (subst lines_of.simps) (simp add: first_line_def next_line_eq t d)
qed

lemma lines_of_no_NL: "l \<in> set (lines_of s) \<Longrightarrow> NL \<notin> set l"
proof (induction s rule: lines_of.induct)
  case (1 p)
  then show ?case
    by (subst (asm) (2) lines_of.simps)
      (auto simp: first_line_def split: if_splits dest: set_takeWhileD)
qed

text \<open>Texts as sequences of newline-terminated lines.\<close>

definition unlines :: "cstr list \<Rightarrow> cstr" where
  "unlines ls = concat (map (\<lambda>l. l @ [NL]) ls)"

lemma unlines_Nil [simp]: "unlines [] = []"
  and unlines_Cons [simp]: "unlines (l # ls) = l @ NL # unlines ls"
  and unlines_append [simp]: "unlines (ls @ ls') = unlines ls @ unlines ls'"
  by (simp_all add: unlines_def)

lemma lines_of_unlines: "\<forall>l\<in>set ls. NL \<notin> set l \<Longrightarrow> lines_of (unlines ls) = ls"
  by (induction ls) (simp_all add: lines_of_append)

lemma strtok_lines_Nil [simp]: "strtok_lines [] = []"
  by (subst strtok_lines.simps) simp

lemma strtok_lines_NL [simp]: "strtok_lines (NL # s) = strtok_lines s"
  by (subst (1 2) strtok_lines.simps) simp

lemma strtok_lines_append:
  assumes "NL \<notin> set l" and "l \<noteq> []"
  shows "strtok_lines (l @ NL # r) = l # strtok_lines r"
proof -
  obtain c l' where l: "l = c # l'" using assms(2) by (cases l) auto
  with assms(1) have "c \<noteq> NL" by auto
  then have "dropWhile (\<lambda>x. x = NL) (l @ NL # r) = l @ NL # r" using l by simp
  then have "strtok_lines (l @ NL # r) =
      takeWhile (\<lambda>x. x \<noteq> NL) (l @ NL # r) # strtok_lines (dropWhile (\<lambda>x. x \<noteq> NL) (l @ NL # r))"
    using l by (subst strtok_lines.simps) simp
  with assms(1) show ?thesis by simp
qed

lemma strtok_lines_unlines:
  "\<forall>l\<in>set ls. NL \<notin> set l \<Longrightarrow> strtok_lines (unlines ls) = filter (\<lambda>l. l \<noteq> []) ls"
proof (induction ls)
  case (Cons l ls)
  then show ?case by (cases "l = []") (simp_all add: strtok_lines_append)
qed simp

lemma strtok_lines_no_NL: "l \<in> set (strtok_lines s) \<Longrightarrow> l \<noteq> [] \<and> NL \<notin> set l"
proof (induction s rule: strtok_lines.induct)
  case (1 s)
  show ?case
  proof (cases "dropWhile (\<lambda>x. x = NL) s")
    case Nil
    with 1 show ?thesis by (simp add: strtok_lines.simps [of s])
  next
    case (Cons c t)
    from dropWhile_Cons_hd [OF Cons] have "c \<noteq> NL" by simp
    with Cons 1 show ?thesis
      by (auto simp: strtok_lines.simps [of s] dest: set_takeWhileD)
  qed
qed

section \<open>Searching for a text that ends a line\<close>

lemma prefix_line:
  "NL \<notin> set n \<Longrightarrow> NL \<notin> set l \<Longrightarrow> prefix (n @ NL # m) (l @ NL # r) \<longleftrightarrow> n = l \<and> prefix m r"
proof (induction n arbitrary: l)
  case Nil
  then show ?case by (cases l) auto
next
  case (Cons c n)
  then show ?case by (cases l) auto
qed

lemma not_prefix_no_NL: "NL \<notin> set r \<Longrightarrow> \<not> prefix (n @ NL # m) r"
  by (auto simp: prefix_def)

text \<open>
  A probe that contains a newline meets the first line of a text only where its part before the
  newline is a suffix of that line.
\<close>

lemma strstr_line:
  assumes "NL \<notin> set n" and "n \<noteq> []" and "NL \<notin> set l"
  shows "strstr (l @ NL # r) (n @ NL # m) =
    (if suffix n l \<and> prefix m r then Some (take (length l - length n) l, n @ NL # r)
     else map_option (\<lambda>(p, q). (l @ NL # p, q)) (strstr r (n @ NL # m)))"
  using assms
proof (induction l)
  case Nil
  then have "\<not> prefix (n @ NL # m) (NL # r)"
    using prefix_line [of n "[]" m r] by simp
  with Nil show ?case by (auto simp: case_prod_beta split: option.split)
next
  case (Cons c l)
  have p: "prefix (n @ NL # m) (c # l @ NL # r) \<longleftrightarrow> n = c # l \<and> prefix m r"
    using Cons.prems prefix_line [of n "c # l" m r] by simp
  have IH: "strstr (l @ NL # r) (n @ NL # m) =
    (if suffix n l \<and> prefix m r then Some (take (length l - length n) l, n @ NL # r)
     else map_option (\<lambda>(p, q). (l @ NL # p, q)) (strstr r (n @ NL # m)))"
    using Cons by simp
  show ?case
  proof (cases "n = c # l")
    case True
    then have "\<not> suffix n l" by (auto dest: suffix_length_le)
    with True p IH show ?thesis
      by (cases "strstr r (n @ NL # m)") auto
  next
    case False
    then have "suffix n (c # l) \<longleftrightarrow> suffix n l" by (simp add: suffix_Cons)
    moreover have "suffix n l \<Longrightarrow> Suc (length l) - length n = Suc (length l - length n)"
      by (simp add: Suc_diff_le suffix_length_le)
    ultimately show ?thesis using False p IH
      by (cases "strstr r (n @ NL # m)") auto
  qed
qed

lemma strstr_no_NL: "NL \<notin> set r \<Longrightarrow> strstr r (n @ NL # m) = None"
  by (auto simp: strstr_None_iff sublist_def)

text \<open>Searching for a whole line, in a text none of whose lines has it as a proper suffix.\<close>

lemma strstr_unlines_none:
  assumes "NL \<notin> set n" and "n \<noteq> []"
    and "\<forall>l\<in>set ls. NL \<notin> set l \<and> \<not> suffix n l"
  shows "strstr (unlines ls @ r) (n @ NL # m) =
    map_option (\<lambda>(p, q). (unlines ls @ p, q)) (strstr r (n @ NL # m))"
  using assms(3)
proof (induction ls)
  case Nil
  show ?case by (cases "strstr r (n @ NL # m)") auto
next
  case (Cons l ls)
  then show ?case
    by (cases "strstr r (n @ NL # m)") (auto simp: strstr_line [OF assms(1,2)])
qed

section \<open>Lemmas on decimal numerals\<close>

lemma length_low_chars [simp]: "length (low_chars b c0 k v) = k"
  by (induction k arbitrary: v) auto

lemma dec_of_nat_nonempty [simp]: "dec_of_nat n \<noteq> []"
  by (subst dec_of_nat.simps) simp

lemma isdigit_digit_char: "n < 10 \<Longrightarrow> isdigit (digit_char n)"
  by (simp add: isdigit_def digit_char_def ch_def)

lemma dec_of_nat_digits: "c \<in> set (dec_of_nat n) \<Longrightarrow> isdigit c"
proof (induction n rule: dec_of_nat.induct)
  case (1 n)
  then show ?case
    by (cases "n < 10") (auto simp: dec_of_nat.simps [of n] isdigit_digit_char)
qed

end
