(* ===== verification/Host_FS.thy ===== *)
theory Host_FS
  imports Prelude
begin

text \<open>
  The file system and the process-wide state the guest code works on, and the libbb wrappers over
  it (\<open>libbb/make_directory.c\<close>, \<open>libbb/xfuncs_printf.c\<close>, \<open>libbb/read_printf.c\<close>).

  The file system is a symbolic-link-free tree of regular files and directories, addressed by the
  list of the path's components; it has no permissions (the guest's chmod and umask do nothing).
  The world also collects what was written to standard output and the diagnostics that
  \<open>bb_error_msg\<close> and \<open>bb_perror_msg\<close> printed (without the applet's name and the strerror text).
  Running out of memory or of disk space is not modelled: \<open>xmalloc\<close> and \<open>write\<close> succeed.
\<close>

datatype node = RegFile bytes | Directory

record world =
  fs :: "cstr list \<Rightarrow> node option"
  cwd :: "cstr list"
  out :: cstr
  diags :: "cstr list"

section \<open>Path resolution\<close>

fun split_on :: "char \<Rightarrow> cstr \<Rightarrow> cstr list" where
  "split_on d [] = [[]]"
| "split_on d (c # cs) =
     (if c = d then [] # split_on d cs
      else (case split_on d cs of [] \<Rightarrow> [[c]] | x # xs \<Rightarrow> (c # x) # xs))"

definition step_comp :: "cstr \<Rightarrow> cstr list \<Rightarrow> cstr list" where
  "step_comp c acc =
     (if c = [] \<or> c = ''.'' then acc else if c = ''..'' then butlast acc else acc @ [c])"

definition resolve :: "world \<Rightarrow> cstr \<Rightarrow> cstr list" where
  "resolve w p = fold step_comp (split_on SLASH p) (if char_at p 0 = SLASH then [] else cwd w)"

section \<open>Operations of the C library\<close>

text \<open>Opening for reading and reading to the end; a directory cannot be read.\<close>

definition read_file :: "world \<Rightarrow> cstr \<Rightarrow> bytes option" where
  "read_file w p = (case fs w (resolve w p) of Some (RegFile b) \<Rightarrow> Some b | _ \<Rightarrow> None)"

definition exists_node :: "world \<Rightarrow> cstr \<Rightarrow> bool" where
  "exists_node w p \<longleftrightarrow> fs w (resolve w p) \<noteq> None"

definition is_dir :: "world \<Rightarrow> cstr \<Rightarrow> bool" where
  "is_dir w p \<longleftrightarrow> fs w (resolve w p) = Some Directory"

text \<open>
  \<open>open(p, O_WRONLY | O_CREAT, ...)\<close> succeeds when the parent is a directory and the path itself
  names no directory (a trailing slash asks for one).
\<close>

definition can_create :: "world \<Rightarrow> cstr \<Rightarrow> bool" where
  "can_create w p \<longleftrightarrow>
     (let c = resolve w p in
        p \<noteq> [] \<and> last p \<noteq> SLASH \<and> c \<noteq> [] \<and> fs w (butlast c) = Some Directory \<and> fs w c \<noteq> Some Directory)"

definition put_file :: "world \<Rightarrow> cstr \<Rightarrow> bytes \<Rightarrow> world" where
  "put_file w p b = w\<lparr>fs := (fs w)(resolve w p \<mapsto> RegFile b)\<rparr>"

text \<open>\<open>O_APPEND\<close>: an existing file is extended, a missing one created.\<close>

definition append_node :: "world \<Rightarrow> cstr \<Rightarrow> bytes \<Rightarrow> world" where
  "append_node w p b =
     put_file w p (case read_file w p of Some b0 \<Rightarrow> b0 @ b | None \<Rightarrow> b)"

definition unlink_file :: "world \<Rightarrow> cstr \<Rightarrow> world" where
  "unlink_file w p =
     (case fs w (resolve w p) of
        Some (RegFile _) \<Rightarrow> w\<lparr>fs := (fs w)(resolve w p := None)\<rparr>
      | _ \<Rightarrow> w)"

text \<open>\<open>mkdir\<close>: the error is EEXIST when the path exists, ENOENT or ENOTDIR for a bad parent.\<close>

datatype mkdir_result = MkdirOk world | MkdirExists | MkdirNoParent

definition mkdir_node :: "world \<Rightarrow> cstr \<Rightarrow> mkdir_result" where
  "mkdir_node w p =
     (let c = resolve w p in
        if fs w c \<noteq> None then MkdirExists
        else if c \<noteq> [] \<and> fs w (butlast c) = Some Directory
        then MkdirOk (w\<lparr>fs := (fs w)(c \<mapsto> Directory)\<rparr>)
        else MkdirNoParent)"

text \<open>\<open>dirname\<close> of POSIX.\<close>

definition dirname :: "cstr \<Rightarrow> cstr" where
  "dirname p =
     (let q = rev (dropWhile (\<lambda>c. c = SLASH) (rev p)) in
        if q = [] then (if p = [] then ''.'' else ''/'')
        else let d = rev (dropWhile (\<lambda>c. c \<noteq> SLASH) (rev q)) in
          if d = [] then ''.''
          else let e = rev (dropWhile (\<lambda>c. c = SLASH) (rev d)) in if e = [] then ''/'' else e)"

definition print_out :: "cstr \<Rightarrow> world \<Rightarrow> world" where
  "print_out s w = w\<lparr>out := out w @ s\<rparr>"

definition diag :: "cstr \<Rightarrow> world \<Rightarrow> world" where
  "diag s w = w\<lparr>diags := diags w @ [s]\<rparr>"

definition quoted :: "cstr \<Rightarrow> cstr" where
  "quoted p = [CHR 0x27] @ p @ [CHR 0x27]"

section \<open>libbb: making directories\<close>

text \<open>
  The loop of \<open>bb_make_directory\<close> cuts the path behind each run of slashes that is followed by
  another component, makes the directory named by what lies before the cut, and finally makes
  the whole path.  \<open>mkdir_points\<close> lists the strings handed to mkdir, in order.
\<close>

function mkdir_points :: "cstr \<Rightarrow> cstr \<Rightarrow> cstr list" where
  "mkdir_points pre s =
     (let a = takeWhile (\<lambda>c. c \<noteq> SLASH) s;
          b = dropWhile (\<lambda>c. c \<noteq> SLASH) s;
          sl = takeWhile (\<lambda>c. c = SLASH) b;
          r = dropWhile (\<lambda>c. c = SLASH) b
      in if r = [] then [pre @ s] else (pre @ a @ sl) # mkdir_points (pre @ a @ sl) r)"
  by pat_completeness auto
termination
proof (relation "measure (\<lambda>(pre, s). length s)", goal_cases)
  case (2 pre s a b sl r)
  from 2(4,5) have "b \<noteq> []" by (cases b) simp_all
  then obtain c b' where b: "b = c # b'" by (cases b) auto
  then have "c = SLASH" using 2(2) dropWhile_Cons_hd [of "\<lambda>c. c \<noteq> SLASH" s c b'] by simp
  then have "length r \<le> length b'" using 2(4) b length_dropWhile_le [of _ b'] by simp
  also have "\<dots> < length b" using b by simp
  also have "\<dots> \<le> length s" using 2(2) length_dropWhile_le by simp
  finally show ?case by simp
qed simp

declare mkdir_points.simps [simp del]

fun mkdir_each :: "bool \<Rightarrow> cstr list \<Rightarrow> world \<Rightarrow> int \<times> world" where
  "mkdir_each recur [] w = (0, w)"
| "mkdir_each recur (p # ps) w =
     (case mkdir_node w p of
        MkdirOk w' \<Rightarrow> mkdir_each recur ps w'
      | MkdirExists \<Rightarrow>
          (if recur \<and> is_dir w p then mkdir_each recur ps w
           else (-1, diag (''can't create directory '' @ quoted p) w))
      | MkdirNoParent \<Rightarrow> (-1, diag (''can't create directory '' @ quoted p) w))"

text \<open>\<open>bb_make_directory(path, -1, flags)\<close>; \<open>recur\<close> is the flag FILEUTILS_RECUR.\<close>

definition bb_make_directory :: "cstr \<Rightarrow> bool \<Rightarrow> world \<Rightarrow> int \<times> world" where
  "bb_make_directory path recur w =
     (if path = ''/'' then (0, w)
      else if path = ''.'' then (0, w)
      else mkdir_each recur (if recur then mkdir_points [] path else [path]) w)"

section \<open>libbb: opening and writing, or dying\<close>

text \<open>
  \<open>fd = xopen3(path, O_WRONLY | O_CREAT | O_TRUNC, mode); xwrite(fd, data, n); close(fd)\<close>.
\<close>

definition xwrite_file :: "cstr \<Rightarrow> bytes \<Rightarrow> world \<Rightarrow> unit outcome \<times> world" where
  "xwrite_file path data w =
     (if can_create w path then (Returns (), put_file w path data)
      else (Exits 1, diag (''can't open '' @ quoted path) w))"

text \<open>The same with O_APPEND in place of O_TRUNC.\<close>

definition xappend_file :: "cstr \<Rightarrow> bytes \<Rightarrow> world \<Rightarrow> unit outcome \<times> world" where
  "xappend_file path data w =
     (if can_create w path then (Returns (), append_node w path data)
      else (Exits 1, diag (''can't open '' @ quoted path) w))"

section \<open>Lemmas\<close>

lemma fs_world_simps [simp]:
  "fs (print_out s w) = fs w" "cwd (print_out s w) = cwd w"
  "fs (diag s w) = fs w" "cwd (diag s w) = cwd w"
  "resolve (print_out s w) p = resolve w p" "resolve (diag s w) p = resolve w p"
  "read_file (print_out s w) p = read_file w p" "read_file (diag s w) p = read_file w p"
  by (simp_all add: print_out_def diag_def resolve_def read_file_def)

lemma resolve_put [simp]: "resolve (put_file w p b) q = resolve w q"
  by (simp add: resolve_def put_file_def)

lemma fs_put_file: "fs (put_file w p b) = (fs w)(resolve w p \<mapsto> RegFile b)"
  by (simp add: put_file_def)

lemma read_put_file:
  "read_file (put_file w p b) q = (if resolve w q = resolve w p then Some b else read_file w q)"
  by (simp add: read_file_def fs_put_file)

lemma cwd_put_file [simp]: "cwd (put_file w p b) = cwd w"
  by (simp add: put_file_def)

lemma resolve_append [simp]: "resolve (append_node w p b) q = resolve w q"
  by (simp add: append_node_def)

lemma read_append_node:
  "read_file (append_node w p b) q =
     (if resolve w q = resolve w p
      then Some ((case read_file w p of Some b0 \<Rightarrow> b0 | None \<Rightarrow> []) @ b) else read_file w q)"
  by (simp add: append_node_def read_put_file split: option.split)

lemma resolve_unlink [simp]: "resolve (unlink_file w p) q = resolve w q"
  by (simp add: resolve_def unlink_file_def split: option.split node.split)

lemma fs_unlink_file:
  "fs (unlink_file w p) q =
     (if q = resolve w p \<and> fs w q \<noteq> Some Directory then None else fs w q)"
  by (cases "fs w (resolve w p)"; cases "the (fs w (resolve w p))") (simp_all add: unlink_file_def)

lemma read_unlink_file:
  "read_file (unlink_file w p) q = (if resolve w q = resolve w p then None else read_file w q)"
  by (simp add: read_file_def fs_unlink_file)

lemma is_dir_unlink [simp]: "is_dir (unlink_file w p) q = is_dir w q"
  by (auto simp: is_dir_def fs_unlink_file)

section \<open>Absolute paths from components\<close>

definition path_str :: "cstr list \<Rightarrow> cstr" where
  "path_str cs = concat (map (\<lambda>c. SLASH # c) cs)"

definition clean_comp :: "cstr \<Rightarrow> bool" where
  "clean_comp c \<longleftrightarrow> c \<noteq> [] \<and> SLASH \<notin> set c \<and> c \<noteq> ''.'' \<and> c \<noteq> ''..''"

lemma path_str_simps [simp]:
  "path_str [] = []" "path_str (c # cs) = SLASH # c @ path_str cs"
  "path_str (cs @ ds) = path_str cs @ path_str ds"
  by (simp_all add: path_str_def)

lemma split_on_append: "d \<notin> set a \<Longrightarrow> split_on d (a @ d # b) = a # split_on d b"
  by (induction a) auto

lemma split_on_none: "d \<notin> set a \<Longrightarrow> split_on d a = [a]"
  by (induction a) auto

lemma split_on_path: "SLASH \<notin> set c \<Longrightarrow> \<forall>c\<in>set cs. SLASH \<notin> set c \<Longrightarrow> split_on SLASH (c @ path_str cs) = c # cs"
proof (induction cs arbitrary: c)
  case Nil
  then show ?case by (simp add: split_on_none)
next
  case (Cons c' cs)
  then show ?case by (simp add: split_on_append)
qed

lemma split_on_path_slash:
  "SLASH \<notin> set c \<Longrightarrow> \<forall>c\<in>set cs. SLASH \<notin> set c \<Longrightarrow>
   split_on SLASH (c @ path_str cs @ [SLASH]) = c # cs @ [[]]"
proof (induction cs arbitrary: c)
  case Nil
  then show ?case by (simp add: split_on_append)
next
  case (Cons c' cs)
  then show ?case by (simp add: split_on_append)
qed

lemma fold_step_comp: "\<forall>c\<in>set cs. clean_comp c \<Longrightarrow> fold step_comp cs acc = acc @ cs"
  by (induction cs arbitrary: acc) (simp_all add: step_comp_def clean_comp_def)

lemma step_comp_Nil [simp]: "step_comp [] acc = acc"
  by (simp add: step_comp_def)

lemma resolve_path_str:
  assumes "\<forall>c\<in>set cs. clean_comp c" and "cs \<noteq> []"
  shows "resolve w (path_str cs) = cs"
proof -
  have "\<forall>c\<in>set cs. SLASH \<notin> set c" using assms(1) by (simp add: clean_comp_def)
  then have "split_on SLASH (path_str cs) = [] # cs" using split_on_path [of "[]" cs] by simp
  moreover have "char_at (path_str cs) 0 = SLASH" using assms(2) by (cases cs) auto
  ultimately show ?thesis using fold_step_comp [OF assms(1)] by (simp add: resolve_def)
qed

lemma resolve_path_str_slash:
  assumes "\<forall>c\<in>set cs. clean_comp c"
  shows "resolve w (path_str cs @ [SLASH]) = cs"
proof -
  have "\<forall>c\<in>set cs. SLASH \<notin> set c" using assms(1) by (simp add: clean_comp_def)
  then have "split_on SLASH (path_str cs @ [SLASH]) = [] # cs @ [[]]"
    using split_on_path_slash [of "[]" cs] by simp
  moreover have "char_at (path_str cs @ [SLASH]) 0 = SLASH" by (cases cs) auto
  ultimately show ?thesis using fold_step_comp [OF assms(1)] by (simp add: resolve_def)
qed

lemma dropWhile_until: "d \<notin> set a \<Longrightarrow> dropWhile (\<lambda>c. c \<noteq> d) (a @ d # b) = d # b"
  by (induction a) auto

lemma takeWhile_until: "d \<notin> set a \<Longrightarrow> takeWhile (\<lambda>c. c \<noteq> d) (a @ d # b) = a"
  by (induction a) auto

lemma strip_slash_rev:
  "clean_comp c \<Longrightarrow> dropWhile (\<lambda>c. c = SLASH) (rev c @ s) = rev c @ s"
  by (cases c rule: rev_cases) (auto simp: clean_comp_def)

lemma dirname_path_str:
  assumes "\<forall>c\<in>set cs. clean_comp c" and "clean_comp c"
  shows "dirname (path_str (cs @ [c])) = (if cs = [] then ''/'' else path_str cs)"
proof -
  have c: "SLASH \<notin> set (rev c)" using assms(2) by (simp add: clean_comp_def)
  have r: "rev (path_str (cs @ [c])) = rev c @ SLASH # rev (path_str cs)" by simp
  have q: "rev (dropWhile (\<lambda>c. c = SLASH) (rev (path_str (cs @ [c])))) = path_str (cs @ [c])"
    unfolding r strip_slash_rev [OF assms(2)] by simp
  have d: "rev (dropWhile (\<lambda>c. c \<noteq> SLASH) (rev (path_str (cs @ [c])))) = path_str cs @ [SLASH]"
    unfolding r dropWhile_until [OF c] by simp
  have e: "rev (dropWhile (\<lambda>c. c = SLASH) (rev (path_str cs @ [SLASH]))) = path_str cs"
  proof (cases cs rule: rev_cases)
    case (snoc ds x)
    with assms(1) strip_slash_rev [of x "SLASH # rev (path_str ds)"] show ?thesis by simp
  qed simp
  have ne: "path_str (cs @ [c]) \<noteq> []" "path_str cs @ [SLASH] \<noteq> []" by simp_all
  have n: "path_str cs = [] \<longleftrightarrow> cs = []" by (cases cs) auto
  show ?thesis unfolding dirname_def Let_def q d e using ne n by simp
qed

section \<open>bb_make_directory makes every missing ancestor\<close>

lemma mkdir_points_last:
  "SLASH \<notin> set c \<Longrightarrow> mkdir_points pre c = [pre @ c]"
proof -
  assume "SLASH \<notin> set c"
  then have "dropWhile (\<lambda>c. c \<noteq> SLASH) c = []" by (auto simp: dropWhile_eq_Nil_conv)
  then show ?thesis by (subst mkdir_points.simps) (simp del: dropWhile_eq_Nil_conv)
qed

lemma mkdir_points_step:
  assumes "SLASH \<notin> set a" and "clean_comp c"
  shows "mkdir_points pre (a @ SLASH # c @ s) = (pre @ a @ [SLASH]) # mkdir_points (pre @ a @ [SLASH]) (c @ s)"
proof -
  have "dropWhile (\<lambda>c. c = SLASH) (c @ s) = c @ s" "takeWhile (\<lambda>c. c = SLASH) (c @ s) = []" "c \<noteq> []"
    using assms(2) by (cases c; auto simp: clean_comp_def)+
  then show ?thesis
    by (subst mkdir_points.simps)
      (simp add: dropWhile_until takeWhile_until assms(1) Let_def del: dropWhile_eq_Nil_conv)
qed

text \<open>The file system with all prefixes of a path as directories.\<close>

definition with_dirs :: "(cstr list \<Rightarrow> node option) \<Rightarrow> cstr list \<Rightarrow> cstr list \<Rightarrow> cstr list \<Rightarrow> node option" where
  "with_dirs f ds cs q = (if \<exists>k\<le>length cs. q = ds @ take k cs then Some Directory else f q)"

lemma with_dirs_step:
  assumes "f ds = Some Directory"
  shows "with_dirs (f(ds @ [c] \<mapsto> Directory)) (ds @ [c]) cs = with_dirs f ds (c # cs)"
proof
  fix q
  have "(\<exists>k\<le>length (c # cs). q = ds @ take k (c # cs)) \<longleftrightarrow>
      q = ds \<or> (\<exists>k\<le>length cs. q = (ds @ [c]) @ take k cs)"
  proof
    assume "\<exists>k\<le>length (c # cs). q = ds @ take k (c # cs)"
    then obtain k where "k \<le> length (c # cs)" "q = ds @ take k (c # cs)" by blast
    then show "q = ds \<or> (\<exists>k\<le>length cs. q = (ds @ [c]) @ take k cs)" by (cases k) auto
  next
    assume "q = ds \<or> (\<exists>k\<le>length cs. q = (ds @ [c]) @ take k cs)"
    then show "\<exists>k\<le>length (c # cs). q = ds @ take k (c # cs)"
    proof
      assume "\<exists>k\<le>length cs. q = (ds @ [c]) @ take k cs"
      then obtain k where "k \<le> length cs" "q = (ds @ [c]) @ take k cs" by blast
      then show ?thesis by (intro exI [of _ "Suc k"]) simp
    qed (auto intro: exI [of _ 0])
  qed
  moreover have "q = ds @ [c] \<Longrightarrow> \<exists>k\<le>length cs. q = (ds @ [c]) @ take k cs"
    by (auto intro: exI [of _ 0])
  ultimately show "with_dirs (f(ds @ [c] \<mapsto> Directory)) (ds @ [c]) cs q = with_dirs f ds (c # cs) q"
    using assms by (auto simp: with_dirs_def)
qed

lemma mkdir_node_step:
  assumes "resolve w p = ds @ [c]" and "fs w ds = Some Directory"
    and "fs w (ds @ [c]) = None \<or> fs w (ds @ [c]) = Some Directory"
  shows "mkdir_each True (p # ps) w = mkdir_each True ps (w\<lparr>fs := (fs w)(ds @ [c] \<mapsto> Directory)\<rparr>)"
proof (cases "fs w (ds @ [c])")
  case None
  then show ?thesis using assms by (simp add: mkdir_node_def)
next
  case (Some n)
  then have "(fs w)(ds @ [c] \<mapsto> Directory) = fs w" using assms(3) by (intro ext) simp
  then show ?thesis using assms Some by (simp add: mkdir_node_def is_dir_def)
qed

lemma mkdir_each_path:
  assumes "\<forall>c\<in>set ds. clean_comp c" and "clean_comp c" and "\<forall>c\<in>set cs. clean_comp c"
    and "fs w ds = Some Directory"
    and "\<And>k. 0 < k \<Longrightarrow> k \<le> length (c # cs) \<Longrightarrow>
          fs w (ds @ take k (c # cs)) = None \<or> fs w (ds @ take k (c # cs)) = Some Directory"
  shows "mkdir_each True (mkdir_points (path_str ds @ [SLASH]) (c @ path_str cs)) w =
    (0, w\<lparr>fs := with_dirs (fs w) ds (c # cs)\<rparr>)"
  using assms
proof (induction cs arbitrary: ds c w)
  case Nil
  have r: "resolve w ((path_str ds @ [SLASH]) @ c) = ds @ [c]"
    using Nil.prems(1,2) resolve_path_str [of "ds @ [c]" w] by simp
  have o: "fs w (ds @ [c]) = None \<or> fs w (ds @ [c]) = Some Directory"
    using Nil.prems(5) [of 1] by simp
  have m: "mkdir_points (path_str ds @ [SLASH]) (c @ path_str []) = [(path_str ds @ [SLASH]) @ c]"
    using Nil.prems(2) mkdir_points_last by (simp add: clean_comp_def)
  have w: "with_dirs (fs w) ds [c] = (fs w)(ds @ [c] \<mapsto> Directory)"
    using Nil.prems(4) by (intro ext) (auto simp: with_dirs_def le_Suc_eq)
  show ?case
    unfolding m w mkdir_node_step [OF r Nil.prems(4) o, of "[]"] mkdir_each.simps(1) ..
next
  case (Cons c' cs)
  let ?w = "w\<lparr>fs := (fs w)(ds @ [c] \<mapsto> Directory)\<rparr>"
  have sl: "SLASH \<notin> set c" and c': "clean_comp c'" using Cons.prems(2,3) by (simp_all add: clean_comp_def)
  have r: "resolve w ((path_str ds @ [SLASH]) @ c @ [SLASH]) = ds @ [c]"
    using Cons.prems(1,2) resolve_path_str_slash [of "ds @ [c]" w] by simp
  have o: "fs w (ds @ [c]) = None \<or> fs w (ds @ [c]) = Some Directory"
    using Cons.prems(5) [of 1] by simp
  have "mkdir_each True (mkdir_points (path_str ds @ [SLASH]) (c @ path_str (c' # cs))) w =
      mkdir_each True (mkdir_points (path_str (ds @ [c]) @ [SLASH]) (c' @ path_str cs)) ?w"
    using mkdir_points_step [OF sl c', of "path_str ds @ [SLASH]" "path_str cs"]
      mkdir_node_step [OF r Cons.prems(4) o] by simp
  also have "\<dots> = (0, ?w\<lparr>fs := with_dirs (fs ?w) (ds @ [c]) (c' # cs)\<rparr>)"
  proof (rule Cons.IH)
    fix k assume "0 < k" "k \<le> length (c' # cs)"
    then show "fs ?w ((ds @ [c]) @ take k (c' # cs)) = None \<or> fs ?w ((ds @ [c]) @ take k (c' # cs)) = Some Directory"
      using Cons.prems(5) [of "Suc k"] by simp
  qed (use Cons.prems in auto)
  also have "\<dots> = (0, w\<lparr>fs := with_dirs (fs w) ds (c # c' # cs)\<rparr>)"
    using with_dirs_step [of "fs w" ds c "c' # cs"] Cons.prems(4) by simp
  finally show ?case by simp
qed

definition mkdir_ok :: "world \<Rightarrow> cstr list \<Rightarrow> bool" where
  "mkdir_ok w cs \<longleftrightarrow> fs w [] = Some Directory \<and>
     (\<forall>k\<le>length cs. fs w (take k cs) = None \<or> fs w (take k cs) = Some Directory)"

lemma make_directory_ok:
  assumes "\<forall>c\<in>set cs. clean_comp c" and "cs \<noteq> []" and "mkdir_ok w cs"
  shows "bb_make_directory (path_str cs) True w = (0, w\<lparr>fs := with_dirs (fs w) [] cs\<rparr>)"
proof -
  obtain c cs' where cs: "cs = c # cs'" using assms(2) by (cases cs) auto
  have c: "clean_comp c" "\<forall>c\<in>set cs'. clean_comp c" using assms(1) cs by auto
  then have ne: "c \<noteq> []" by (simp add: clean_comp_def)
  have root: "fs w [] = Some Directory" using assms(3) by (simp add: mkdir_ok_def)
  have r: "resolve w [SLASH] = []" using resolve_path_str_slash [of "[]" w] by simp
  have "mkdir_points [] (path_str cs) = [SLASH] # mkdir_points [SLASH] (c @ path_str cs')"
    using mkdir_points_step [of "[]" c "[]" "path_str cs'"] c(1) cs by simp
  moreover have "mkdir_each True ([SLASH] # ps) w = mkdir_each True ps w" for ps
    using root r by (simp add: mkdir_node_def is_dir_def)
  moreover have "mkdir_each True (mkdir_points (path_str [] @ [SLASH]) (c @ path_str cs')) w =
      (0, w\<lparr>fs := with_dirs (fs w) [] (c # cs')\<rparr>)"
    using c root assms(3) cs by (intro mkdir_each_path) (auto simp: mkdir_ok_def simp del: take_Suc_Cons)
  ultimately show ?thesis using ne cs by (simp add: bb_make_directory_def del: mkdir_each.simps)
qed

text \<open>C23: bb_make_directory in its recursive mode, on an absolute path whose existing ancestors are
  all directories, succeeds without a diagnostic, makes every missing ancestor and the path
  itself a directory, and changes nothing else.\<close>

theorem bb_make_directory_creates:
  assumes "\<forall>c\<in>set cs. clean_comp c" and "cs \<noteq> []" and "mkdir_ok w cs"
  shows "bb_make_directory (path_str cs) True w = (0, w\<lparr>fs := with_dirs (fs w) [] cs\<rparr>)"
  using assms by (rule make_directory_ok)

definition empty_world :: world where
  "empty_world = \<lparr>fs = [[] \<mapsto> Directory], cwd = [], out = [], diags = []\<rparr>"

theorem bb_make_directory_creates_witness:
  "bb_make_directory (path_str [''usr'', ''lib'']) True empty_world =
     (0, empty_world\<lparr>fs := with_dirs (fs empty_world) [] [''usr'', ''lib'']\<rparr>)"
  by (rule bb_make_directory_creates)
    (auto simp: clean_comp_def mkdir_ok_def empty_world_def)

end
