(* ===== verification/Apk_Text.thy ===== *)
theory Apk_Text
  imports Host_FS
begin

text \<open>
  The text scanners of \<open>guest/busybox/upstream/miscutils/apk.c\<close>: \<open>in_lines\<close> (world file),
  \<open>index_ver\<close> (package index), \<open>db_ver\<close> (installed database), \<open>pi_get\<close> (.PKGINFO) and \<open>oct\<close>.
  The first, second and fourth are the same walk over the lines of a text with another test and
  another result; the locale \<open>line_walk\<close> states what such a walk computes and is interpreted on
  each of the three.
\<close>

section \<open>Definitions\<close>

function in_lines :: "cstr \<Rightarrow> cstr \<Rightarrow> bool" where
  "in_lines p name =
     (if p = [] then False
      else if prefix name p \<and> (char_at p (length name) = NL \<or> char_at p (length name) = NUL
               \<or> char_at p (length name) = SP) then True
      else in_lines (next_line p) name)"
  by pat_completeness auto
termination
  by (relation "measure (\<lambda>(p, name). length p)") (auto simp: length_next_line)

function index_ver :: "cstr \<Rightarrow> cstr \<Rightarrow> cstr option" where
  "index_ver p name =
     (if p = [] then None
      else if prefix name p \<and> char_at p (length name) = SP
      then Some (takeWhile (\<lambda>e. e \<noteq> SP \<and> e \<noteq> NL) (drop (length name + 1) p))
      else index_ver (next_line p) name)"
  by pat_completeness auto
termination
  by (relation "measure (\<lambda>(p, name). length p)") (auto simp: length_next_line)

definition db_ver :: "cstr \<Rightarrow> cstr \<Rightarrow> cstr option" where
  "db_ver db name =
     (let probe = ''P:'' @ name @ [NL] @ ''V:'' in
        case strstr db probe of
          None \<Rightarrow> None
        | Some (_, st) \<Rightarrow> Some (takeWhile (\<lambda>x. x \<noteq> NL) (drop (length probe) st)))"

text \<open>
  \<open>pi_get\<close>: the value starts three characters behind the key (blank, equals sign, blank).  When
  the text ends right behind the equals sign, \<open>p + n + 3\<close> lies one past the terminating NUL; the
  model reads the empty string there.
\<close>

function pi_find :: "cstr \<Rightarrow> cstr \<Rightarrow> cstr option" where
  "pi_find p key =
     (if p = [] then None
      else if prefix key p \<and> char_at p (length key) = SP \<and> char_at p (length key + 1) = CHR ''=''
      then Some (takeWhile (\<lambda>x. x \<noteq> NL) (drop (length key + 3) p))
      else pi_find (next_line p) key)"
  by pat_completeness auto
termination
  by (relation "measure (\<lambda>(p, key). length p)") (auto simp: length_next_line)

definition pi_get :: "cstr \<Rightarrow> cstr \<Rightarrow> cstr" where
  "pi_get pi key = (case pi_find pi key of Some v \<Rightarrow> v | None \<Rightarrow> ''?'')"

declare in_lines.simps [simp del] index_ver.simps [simp del] pi_find.simps [simp del]

text \<open>\<open>oct\<close>: the characters up to a NUL, at most \<open>len\<close> of them; others than octal digits are skipped.\<close>

fun oct_loop :: "32 word \<Rightarrow> bytes \<Rightarrow> 32 word" where
  "oct_loop v [] = v"
| "oct_loop v (c # cs) =
     (if c = NUL then v
      else oct_loop (if 48 \<le> ch c \<and> ch c \<le> 55 then v * 8 + of_nat (ch c - 48) else v) cs)"

definition oct :: "bytes \<Rightarrow> nat \<Rightarrow> 32 word" where
  "oct p len = oct_loop 0 (take len p)"

section \<open>What a walk over lines computes\<close>

locale line_walk =
  fixes walk :: "cstr \<Rightarrow> 'a option"
    and test :: "cstr \<Rightarrow> bool"
    and res :: "cstr \<Rightarrow> 'a"
  assumes walk_unfold:
    "walk p = (if p = [] then None else if test p then Some (res p) else walk (next_line p))"
begin

lemma walk_Nil: "walk [] = None"
  by (subst walk_unfold) simp

lemma walk_hit: "p \<noteq> [] \<Longrightarrow> test p \<Longrightarrow> walk p = Some (res p)"
  by (subst walk_unfold) simp

lemma walk_miss: "p \<noteq> [] \<Longrightarrow> \<not> test p \<Longrightarrow> walk p = walk (next_line p)"
  by (subst walk_unfold) simp

text \<open>Skipping a block of complete lines none of which passes the test.\<close>

lemma walk_skip:
  assumes "\<forall>l\<in>set ls. NL \<notin> set l" and "\<And>l r. l \<in> set ls \<Longrightarrow> \<not> test (l @ NL # r)"
  shows "walk (unlines ls @ s) = walk s"
  using assms
proof (induction ls)
  case (Cons l ls)
  have "walk (l @ NL # unlines ls @ s) = walk (next_line (l @ NL # unlines ls @ s))"
    using Cons.prems(2) by (intro walk_miss) auto
  also have "\<dots> = walk (unlines ls @ s)" using Cons.prems(1) by simp
  also have "\<dots> = walk s" using Cons by simp
  finally show ?case by simp
qed simp

lemma walk_first:
  assumes "\<forall>l\<in>set ls. NL \<notin> set l" and "\<And>l r. l \<in> set ls \<Longrightarrow> \<not> test (l @ NL # r)"
    and "s \<noteq> []" and "test s"
  shows "walk (unlines ls @ s) = Some (res s)"
  using walk_skip [OF assms(1,2)] walk_hit [OF assms(3,4)] by simp

lemma walk_none:
  assumes "\<forall>l\<in>set ls. NL \<notin> set l" and "\<And>l r. l \<in> set ls \<Longrightarrow> \<not> test (l @ NL # r)"
  shows "walk (unlines ls) = None"
  using walk_skip [OF assms, of "[]"] walk_Nil by simp

end

definition in_lines_test :: "cstr \<Rightarrow> cstr \<Rightarrow> bool" where
  "in_lines_test name p \<longleftrightarrow> prefix name p \<and>
     (char_at p (length name) = NL \<or> char_at p (length name) = NUL \<or> char_at p (length name) = SP)"

definition word_test :: "cstr \<Rightarrow> cstr \<Rightarrow> bool" where
  "word_test name p \<longleftrightarrow> prefix name p \<and> char_at p (length name) = SP"

definition key_test :: "cstr \<Rightarrow> cstr \<Rightarrow> bool" where
  "key_test key p \<longleftrightarrow> word_test key p \<and> char_at p (length key + 1) = CHR ''=''"

interpretation world_walk: line_walk
  "\<lambda>p. if in_lines p name then Some () else None" "in_lines_test name" "\<lambda>_. ()" for name
proof
  fix p
  show "(if in_lines p name then Some () else None) =
    (if p = [] then None else if in_lines_test name p then Some ()
     else (if in_lines (next_line p) name then Some () else None))"
    by (subst in_lines.simps) (auto simp: in_lines_test_def)
qed

interpretation index_walk: line_walk
  "\<lambda>p. index_ver p name" "word_test name"
  "\<lambda>p. takeWhile (\<lambda>e. e \<noteq> SP \<and> e \<noteq> NL) (drop (length name + 1) p)" for name
proof
  fix p
  show "index_ver p name = (if p = [] then None else if word_test name p
      then Some (takeWhile (\<lambda>e. e \<noteq> SP \<and> e \<noteq> NL) (drop (length name + 1) p))
      else index_ver (next_line p) name)"
    by (subst index_ver.simps) (simp add: word_test_def)
qed

interpretation pkginfo_walk: line_walk
  "\<lambda>p. pi_find p key" "key_test key"
  "\<lambda>p. takeWhile (\<lambda>x. x \<noteq> NL) (drop (length key + 3) p)" for key
proof
  fix p
  show "pi_find p key = (if p = [] then None else if key_test key p
      then Some (takeWhile (\<lambda>x. x \<noteq> NL) (drop (length key + 3) p))
      else pi_find (next_line p) key)"
    by (subst pi_find.simps) (simp add: key_test_def word_test_def)
qed

section \<open>The world file\<close>

lemma in_lines_test_first_line:
  assumes "NL \<notin> set name" and "NUL \<notin> set p"
  shows "in_lines_test name p \<longleftrightarrow> first_line p = name \<or> prefix (name @ [SP]) (first_line p)"
proof (cases "prefix name p")
  case False
  moreover have "prefix (first_line p) p"
    by (metis first_line_def takeWhile_dropWhile_id prefixI)
  ultimately show ?thesis
    using prefix_order.trans [of name "name @ [SP]" "first_line p"]
      prefix_order.trans [of name "first_line p" p] by (auto simp: in_lines_test_def)
next
  case True
  then obtain s where p: "p = name @ s" by (auto simp: prefix_def)
  then have f: "first_line p = name @ first_line s"
    using assms(1) by (auto simp: first_line_def takeWhile_append)
  show ?thesis
  proof (cases s)
    case Nil
    then show ?thesis using p f by (simp add: in_lines_test_def first_line_def char_at_def)
  next
    case (Cons c s')
    moreover from assms(2) p Cons have "c \<noteq> NUL" by auto
    ultimately show ?thesis using p f
      by (auto simp: in_lines_test_def first_line_def)
  qed
qed

lemma set_next_line: "set (next_line p) \<subseteq> set p"
proof -
  have tl: "set (tl xs) \<subseteq> set xs" for xs :: cstr by (cases xs) auto
  note tl [of "dropWhile (\<lambda>x. x \<noteq> NL) p"]
  also have "set (dropWhile (\<lambda>x. x \<noteq> NL) p) \<subseteq> set p" by (meson set_dropWhileD subsetI)
  finally show ?thesis by (simp add: next_line_eq)
qed

lemma in_lines_iff:
  assumes "NL \<notin> set name"
  shows "NUL \<notin> set h \<Longrightarrow>
    in_lines h name \<longleftrightarrow> (\<exists>l\<in>set (lines_of h). l = name \<or> prefix (name @ [SP]) l)"
proof (induction h rule: lines_of.induct)
  case (1 p)
  show ?case
  proof (cases "p = []")
    case True
    then show ?thesis by (simp add: in_lines.simps)
  next
    case False
    from "1.prems" set_next_line have n: "NUL \<notin> set (next_line p)" by blast
    have "in_lines p name \<longleftrightarrow> in_lines_test name p \<or> in_lines (next_line p) name"
      using False by (subst in_lines.simps) (auto simp: in_lines_test_def)
    also have "\<dots> \<longleftrightarrow> (\<exists>l\<in>set (first_line p # lines_of (next_line p)). l = name \<or> prefix (name @ [SP]) l)"
      using "1.IH" [OF False n] in_lines_test_first_line [OF assms "1.prems"] by auto
    finally show ?thesis using False by (simp add: lines_of.simps [of p])
  qed
qed

section \<open>The index and .PKGINFO\<close>

lemma word_test_word:
  "SP \<notin> set n \<Longrightarrow> SP \<notin> set k \<Longrightarrow> word_test n (k @ SP # r) \<longleftrightarrow> n = k"
proof (induction n arbitrary: k)
  case Nil
  then show ?case by (cases k) (auto simp: word_test_def)
next
  case (Cons c n)
  then show ?case by (cases k) (auto simp: word_test_def)
qed

text \<open>Index lines are \<open>name ver rest\<close>, where the rest is empty or starts with a blank.\<close>

type_synonym index_entry = "cstr \<times> cstr \<times> cstr"

fun index_line :: "index_entry \<Rightarrow> cstr" where
  "index_line (n, v, r) = n @ [SP] @ v @ r"

fun wf_entry :: "index_entry \<Rightarrow> bool" where
  "wf_entry (n, v, r) \<longleftrightarrow>
     SP \<notin> set n \<and> NL \<notin> set n \<and> SP \<notin> set v \<and> NL \<notin> set v \<and> NL \<notin> set r \<and> (r = [] \<or> hd r = SP)"

lemma takeWhile_word:
  "SP \<notin> set v \<Longrightarrow> NL \<notin> set v \<Longrightarrow> c = SP \<or> c = NL \<Longrightarrow>
   takeWhile (\<lambda>e. e \<noteq> SP \<and> e \<noteq> NL) (v @ c # t) = v"
  by (induction v) auto

lemma index_ver_entries:
  assumes "SP \<notin> set name" and "\<forall>e\<in>set es. wf_entry e"
  shows "index_ver (unlines (map index_line es)) name =
    map_option (\<lambda>e. fst (snd e)) (find (\<lambda>e. fst e = name) es)"
  using assms(2)
proof (induction es)
  case Nil
  show ?case by (simp add: index_ver.simps)
next
  case (Cons e es)
  obtain n v r where e: "e = (n, v, r)" by (cases e)
  with Cons.prems have wf: "SP \<notin> set n" "NL \<notin> set n" "SP \<notin> set v" "NL \<notin> set v" "NL \<notin> set r"
    "r = [] \<or> hd r = SP" by auto
  let ?s = "index_line e @ NL # unlines (map index_line es)"
  have t: "word_test name ?s \<longleftrightarrow> name = n"
    using e wf(1) assms(1) by (simp add: word_test_word)
  have ne: "?s \<noteq> []" by simp
  show ?case
  proof (cases "name = n")
    case True
    have "takeWhile (\<lambda>x. x \<noteq> SP \<and> x \<noteq> NL) (v @ r @ NL # unlines (map index_line es)) = v"
      using wf(6) takeWhile_word [OF wf(3,4)] by (cases r) auto
    with True show ?thesis using index_walk.walk_hit [OF ne, of name] t e by simp
  next
    case False
    have "next_line ?s = unlines (map index_line es)"
      using e wf by (intro next_line_append) auto
    with False index_walk.walk_miss [OF ne, of name] t e Cons show ?thesis by simp
  qed
qed

text \<open>.PKGINFO lines are \<open>key = value\<close>.\<close>

fun info_entry :: "cstr \<times> cstr \<Rightarrow> cstr" where
  "info_entry (k, v) = k @ '' = '' @ v"

lemma pi_get_entries:
  assumes "SP \<notin> set key" and "\<forall>(k, v)\<in>set es. SP \<notin> set k \<and> NL \<notin> set k \<and> NL \<notin> set v"
  shows "pi_get (unlines (map info_entry es)) key =
    (case map_of es key of Some v \<Rightarrow> v | None \<Rightarrow> ''?'')"
proof -
  have "pi_find (unlines (map info_entry es)) key = map_of es key"
    using assms(2)
  proof (induction es)
    case Nil
    show ?case by (simp add: pi_find.simps)
  next
    case (Cons e es)
    obtain k v where e: "e = (k, v)" by (cases e)
    with Cons.prems have wf: "SP \<notin> set k" "NL \<notin> set k" "NL \<notin> set v" by auto
    let ?s = "info_entry e @ NL # unlines (map info_entry es)"
    have t: "key_test key ?s \<longleftrightarrow> key = k"
      using e wf(1) assms(1) by (auto simp: key_test_def word_test_word char_at_def nth_append)
    have ne: "?s \<noteq> []" by simp
    show ?case
    proof (cases "key = k")
      case True
      with t e wf(3) pkginfo_walk.walk_hit [OF ne, of key] show ?thesis by simp
    next
      case False
      have "next_line ?s = unlines (map info_entry es)"
        using e wf by (intro next_line_append) auto
      with False pkginfo_walk.walk_miss [OF ne, of key] t e Cons show ?thesis by simp
    qed
  qed
  then show ?thesis by (simp add: pi_get_def)
qed

end
