(* ===== verification/Apk_Tar.thy ===== *)
theory Apk_Tar
  imports Apk_Text
begin

text \<open>
  The ustar extraction of \<open>miscutils/apk.c\<close> (\<open>tar_extract\<close>).

  The archive is read through a descriptor, so what is left to read is modelled by the suffix of
  the file's bytes behind the read position.  Should an entry name the archive itself, O_TRUNC
  replaces its bytes by that entry's data, which is shorter than the position already reached, so
  nothing is left to read.  \<open>xmalloc(size + 1)\<close> wraps to a request of no bytes for the size
  \<open>2^32 - 1\<close>; reading any data byte into it is a write outside the object (\<open>Undefined\<close>).
\<close>

section \<open>Definitions\<close>

text \<open>The 512-byte header: name at 0 (100 bytes), size at 124 (12 octal digits), type at 156.\<close>

definition hdr_name :: "bytes \<Rightarrow> cstr" where
  "hdr_name hdr = strncpy_str 100 hdr"

definition hdr_size :: "bytes \<Rightarrow> 32 word" where
  "hdr_size hdr = oct (drop 124 hdr) 12"

definition hdr_pad :: "32 word \<Rightarrow> nat" where
  "hdr_pad sz = (512 - unat sz mod 512) mod 512"

text \<open>Making the parent directory and writing one regular file below the root.\<close>

definition extract_file :: "cstr \<Rightarrow> bytes \<Rightarrow> world \<Rightarrow> unit outcome \<times> world" where
  "extract_file apath data w =
     xwrite_file apath data (snd (bb_make_directory (dirname apath) True w))"

function tar_loop :: "cstr list \<Rightarrow> bytes \<Rightarrow> cstr \<Rightarrow> bytes option \<Rightarrow> world
    \<Rightarrow> (cstr \<times> bytes option) outcome \<times> world" where
  "tar_loop self b files pkginfo w =
     (if length b < 512 \<or> b ! 0 = NUL then (Returns (files, pkginfo), w)
      else
        let hdr = take 512 b; rest = drop 512 b;
            sz = hdr_size hdr; name = hdr_name hdr;
            data = take (unat sz) rest;
            after = drop (hdr_pad sz) (drop (unat sz) rest)
        in if sz = -1 \<and> rest \<noteq> [] then (Undefined, w)
           else if length data < unat sz then (Exits 1, diag ''truncated tar'' w)
           else if hdr ! 156 \<noteq> CHR ''0'' \<and> hdr ! 156 \<noteq> NUL then tar_loop self after files pkginfo w
           else if name = ''.PKGINFO'' then tar_loop self after files (Some data) w
           else
             let apath = SLASH # name in
             case extract_file apath data w of
               (Returns _, w') \<Rightarrow>
                 tar_loop self (if resolve w apath = self then [] else after)
                   (files @ ''F:'' @ apath @ [NL]) pkginfo w'
             | (Exits n, w') \<Rightarrow> (Exits n, w')
             | (Undefined, w') \<Rightarrow> (Undefined, w'))"
  by pat_completeness auto
termination
  by (relation "measure (\<lambda>(self, b, files, pkginfo, w). length b)") auto

declare tar_loop.simps [simp del]

text \<open>
  \<open>tar_extract(tarpath, &pkginfo)\<close>.  A directory can be opened but not read; anything else that is
  missing makes xopen die.
\<close>

definition tar_extract :: "cstr \<Rightarrow> world \<Rightarrow> (cstr \<times> bytes option) outcome \<times> world" where
  "tar_extract tarpath w =
     (case fs w (resolve w tarpath) of
        Some (RegFile b) \<Rightarrow> tar_loop (resolve w tarpath) b [] None w
      | Some Directory \<Rightarrow> (Returns ([], None), w)
      | None \<Rightarrow> (Exits 1, diag (''can't open '' @ quoted tarpath) w))"

section \<open>Packed archives\<close>

text \<open>
  The archives \<open>tools/pack_pkg.py\<close> writes are sequences of regular-file entries.  The fields the
  extractor does not look at (mode, owner, time and checksum, and everything behind the type) are
  left open.
\<close>

record tar_entry =
  te_name :: cstr
  te_data :: bytes
  te_mode :: bytes   \<comment> \<open>mode, uid and gid: 24 bytes\<close>
  te_time :: bytes   \<comment> \<open>mtime and checksum: 20 bytes\<close>
  te_rest :: bytes   \<comment> \<open>behind the type flag: 355 bytes\<close>

definition ustar_header :: "tar_entry \<Rightarrow> bytes" where
  "ustar_header e = te_name e @ replicate (100 - length (te_name e)) NUL @ te_mode e
     @ low_chars 8 48 11 (length (te_data e)) @ [NUL] @ te_time e @ [CHR ''0''] @ te_rest e"

definition ustar_entry :: "tar_entry \<Rightarrow> bytes" where
  "ustar_entry e = ustar_header e @ te_data e
     @ replicate ((512 - length (te_data e) mod 512) mod 512) NUL"

definition wf_tar_entry :: "tar_entry \<Rightarrow> bool" where
  "wf_tar_entry e \<longleftrightarrow> te_name e \<noteq> [] \<and> length (te_name e) \<le> 100 \<and> NUL \<notin> set (te_name e)
     \<and> length (te_data e) < 2 ^ 32 - 1
     \<and> length (te_mode e) = 24 \<and> length (te_time e) = 20 \<and> length (te_rest e) = 355"

lemma oct_loop_digits:
  "oct_loop v (low_chars 8 48 k n @ s) = oct_loop (v * 8 ^ k + of_nat (n mod 8 ^ k)) s"
proof (induction k arbitrary: n v s)
  case (Suc k)
  have "ch (char_of (48 + n mod 8)) = 48 + n mod 8" by (simp add: ch_def)
  moreover have "(char_of (48 + n mod 8) :: char) \<noteq> NUL"
  proof
    assume "(char_of (48 + n mod 8) :: char) = NUL"
    then have "ch (char_of (48 + n mod 8)) = ch NUL" by (rule arg_cong)
    then show False by (simp add: ch_def)
  qed
  moreover have "n mod 8 \<le> 7" using pos_mod_bound [of 8 "int n"] by presburger
  moreover have "n mod 8 ^ Suc k = n div 8 mod 8 ^ k * 8 + n mod 8"
    by (simp add: mod_mult2_eq)
  ultimately show ?case by (simp add: Suc algebra_simps)
qed simp

lemma hdr_size_header:
  assumes "wf_tar_entry e"
  shows "hdr_size (ustar_header e @ r) = of_nat (length (te_data e))"
proof -
  note wf = assms [unfolded wf_tar_entry_def]
  have "drop 124 (ustar_header e @ r) = low_chars 8 48 11 (length (te_data e)) @ NUL # te_time e @ [CHR ''0''] @ te_rest e @ r"
    using wf by (simp add: ustar_header_def)
  then have "oct (drop 124 (ustar_header e @ r)) 12 =
      oct_loop 0 (low_chars 8 48 11 (length (te_data e)) @ [NUL])"
    by (simp add: oct_def)
  also have "\<dots> = of_nat (length (te_data e) mod 8 ^ 11)" by (simp add: oct_loop_digits)
  also have "length (te_data e) mod 8 ^ 11 = length (te_data e)" using wf by simp
  finally show ?thesis by (simp add: hdr_size_def)
qed

lemma header_fields:
  assumes "wf_tar_entry e"
  shows "length (ustar_header e) = 512" and "hdr_name (ustar_header e) = te_name e"
    and "ustar_header e ! 156 = CHR ''0''" and "ustar_header e ! 0 \<noteq> NUL"
proof -
  note wf = assms [unfolded wf_tar_entry_def]
  show "length (ustar_header e) = 512" using wf by (simp add: ustar_header_def)
  have "take 100 (ustar_header e) = te_name e @ replicate (100 - length (te_name e)) NUL"
    using wf by (simp add: ustar_header_def)
  moreover have "takeWhile (\<lambda>x. x \<noteq> NUL) (te_name e @ replicate k NUL) = te_name e" for k
    using wf by (cases k) (auto simp: takeWhile_append)
  ultimately show "hdr_name (ustar_header e) = te_name e"
    by (simp add: hdr_name_def strncpy_str_def)
  let ?a = "te_name e @ replicate (100 - length (te_name e)) NUL @ te_mode e
     @ low_chars 8 48 11 (length (te_data e)) @ [NUL] @ te_time e"
  have "length ?a = 156" using wf by simp
  moreover have "ustar_header e = ?a @ CHR ''0'' # te_rest e" by (simp add: ustar_header_def)
  ultimately show "ustar_header e ! 156 = CHR ''0''" by (metis nth_append_length)
  show "ustar_header e ! 0 \<noteq> NUL"
    using wf by (cases "te_name e") (auto simp: ustar_header_def)
qed

text \<open>What the extraction means for a list of entries.\<close>

fun extract_entries :: "tar_entry list \<Rightarrow> cstr \<Rightarrow> bytes option \<Rightarrow> world
    \<Rightarrow> (cstr \<times> bytes option) outcome \<times> world" where
  "extract_entries [] files pi w = (Returns (files, pi), w)"
| "extract_entries (e # es) files pi w =
     (if te_name e = ''.PKGINFO'' then extract_entries es files (Some (te_data e)) w
      else case extract_file (SLASH # te_name e) (te_data e) w of
             (Returns _, w') \<Rightarrow>
               extract_entries es (files @ ''F:'' @ (SLASH # te_name e) @ [NL]) pi w'
           | (Exits n, w') \<Rightarrow> (Exits n, w')
           | (Undefined, w') \<Rightarrow> (Undefined, w'))"

lemma resolve_abs: "resolve w (SLASH # s) = resolve w' (SLASH # s)"
  by (simp add: resolve_def)

lemma tar_loop_step:
  assumes "\<not> (length b < 512 \<or> b ! 0 = NUL)" and "take 512 b = hdr" and "drop 512 b = data @ r1"
    and "hdr_size hdr = sz" and "unat sz = length data" and "sz \<noteq> -1"
    and "hdr ! 156 = CHR ''0''" and "hdr_name hdr = name" and "drop (hdr_pad sz) r1 = r"
  shows "tar_loop self b files pi w =
    (if name = ''.PKGINFO'' then tar_loop self r files (Some data) w
     else case extract_file (SLASH # name) data w of
            (Returns _, w') \<Rightarrow> tar_loop self (if resolve w (SLASH # name) = self then [] else r)
               (files @ ''F:'' @ (SLASH # name) @ [NL]) pi w'
          | (Exits n, w') \<Rightarrow> (Exits n, w')
          | (Undefined, w') \<Rightarrow> (Undefined, w'))"
proof -
  have d: "take (unat sz) (data @ r1) = data" "drop (unat sz) (data @ r1) = r1"
    using assms(5) by simp_all
  show ?thesis
    unfolding tar_loop.simps [of self b files pi w] Let_def assms(2,3,4,8) d assms(9)
    using assms(1,5,6,7) by simp
qed

lemma tar_loop_entry:
  assumes "wf_tar_entry e"
  shows "tar_loop self (ustar_entry e @ r) files pi w =
    (if te_name e = ''.PKGINFO'' then tar_loop self r files (Some (te_data e)) w
     else case extract_file (SLASH # te_name e) (te_data e) w of
            (Returns _, w') \<Rightarrow> tar_loop self (if resolve w (SLASH # te_name e) = self then [] else r)
               (files @ ''F:'' @ (SLASH # te_name e) @ [NL]) pi w'
          | (Exits n, w') \<Rightarrow> (Exits n, w')
          | (Undefined, w') \<Rightarrow> (Undefined, w'))"
proof -
  let ?n = "length (te_data e)"
  have n: "?n < 2 ^ 32 - 1" using assms by (simp add: wf_tar_entry_def)
  define b where "b = ustar_entry e @ r"
  have b: "b = ustar_header e @ te_data e @ replicate ((512 - ?n mod 512) mod 512) NUL @ r"
    by (simp add: b_def ustar_entry_def)
  have len: "length (ustar_header e) = 512" using header_fields(1) [OF assms] .
  have t: "take 512 b = ustar_header e" "drop 512 b = te_data e @ replicate ((512 - ?n mod 512) mod 512) NUL @ r"
    using len b by simp_all
  have b0: "\<not> (length b < 512 \<or> b ! 0 = NUL)"
    using len header_fields(4) [OF assms] b by (simp add: nth_append)
  have sz: "hdr_size (take 512 b) = of_nat ?n"
    using hdr_size_header [OF assms, of "[]"] t(1) by simp
  have u: "unat (of_nat ?n :: 32 word) = ?n" using n by (simp add: unat_of_nat)
  have m1: "(of_nat ?n :: 32 word) \<noteq> -1"
  proof
    assume "(of_nat ?n :: 32 word) = -1"
    then have "(of_nat (?n + 1) :: 32 word) = 0" by simp
    then have "2 ^ 32 dvd ?n + 1" by (simp only: word_of_nat_eq_0_iff) simp
    then show False using n dvd_imp_le [of "2 ^ 32" "?n + 1"] by simp
  qed
  have name: "hdr_name (take 512 b) = te_name e" "take 512 b ! 156 = CHR ''0''"
    using header_fields(2,3) [OF assms] t(1) by simp_all
  have pad: "drop (hdr_pad (of_nat ?n)) (replicate ((512 - ?n mod 512) mod 512) NUL @ r) = r"
    using u by (simp add: hdr_pad_def)
  show ?thesis
    unfolding b_def [symmetric] by (rule tar_loop_step [OF b0 refl t(2) sz u m1 name(2) name(1) pad])
qed

lemma tar_loop_end: "length t < 512 \<or> t ! 0 = NUL \<Longrightarrow> tar_loop self t files pi w = (Returns (files, pi), w)"
  by (subst tar_loop.simps) simp

lemma tar_loop_archive:
  assumes "\<forall>e\<in>set es. wf_tar_entry e \<and> resolve w0 (SLASH # te_name e) \<noteq> self"
    and "length t < 512 \<or> t ! 0 = NUL"
  shows "tar_loop self (concat (map ustar_entry es) @ t) files pi w = extract_entries es files pi w"
  using assms(1)
proof (induction es arbitrary: files pi w)
  case Nil
  then show ?case using tar_loop_end [OF assms(2)] by simp
next
  case (Cons e es)
  then have "wf_tar_entry e" "resolve w (SLASH # te_name e) \<noteq> self"
    using resolve_abs [of w _ w0] by auto
  with Cons show ?case
    by (simp add: tar_loop_entry split: outcome.split prod.split)
qed

section \<open>Extraction installs every file\<close>

lemma with_dirs_Nil: "f [] = Some Directory \<Longrightarrow> with_dirs f [] [] = f"
  by (intro ext) (auto simp: with_dirs_def)

lemma extract_file_ok:
  assumes "\<forall>c\<in>set (cs @ [c]). clean_comp c" and "mkdir_ok w cs" and "fs w (cs @ [c]) \<noteq> Some Directory"
  shows "extract_file (path_str (cs @ [c])) data w =
    (Returns (), w\<lparr>fs := (with_dirs (fs w) [] cs)(cs @ [c] \<mapsto> RegFile data)\<rparr>)"
proof -
  let ?w = "w\<lparr>fs := with_dirs (fs w) [] cs\<rparr>"
  have cl: "\<forall>c\<in>set cs. clean_comp c" "clean_comp c" using assms(1) by auto
  have mk: "snd (bb_make_directory (dirname (path_str (cs @ [c]))) True w) = ?w"
  proof (cases "cs = []")
    case True
    then show ?thesis using dirname_path_str [OF cl] assms(2)
      by (simp add: bb_make_directory_def mkdir_ok_def with_dirs_Nil)
  next
    case False
    then show ?thesis
      using dirname_path_str [OF cl] make_directory_ok [OF cl(1) False assms(2)] by simp
  qed
  have r: "resolve w' (path_str (cs @ [c])) = cs @ [c]" for w'
    using resolve_path_str [OF assms(1)] by simp
  have "with_dirs (fs w) [] cs (cs @ [c]) \<noteq> Some Directory"
    using assms(3) by (auto simp: with_dirs_def dest!: arg_cong [where f = length])
  moreover have "with_dirs (fs w) [] cs cs = Some Directory"
    by (auto simp: with_dirs_def intro: exI [of _ "length cs"])
  moreover have "last (path_str (cs @ [c])) \<noteq> SLASH"
    using cl(2) by (cases c rule: rev_cases) (auto simp: clean_comp_def)
  ultimately have "can_create ?w (path_str (cs @ [c]))"
    using r by (simp add: can_create_def Let_def)
  moreover have "put_file ?w (path_str (cs @ [c])) data =
      w\<lparr>fs := (with_dirs (fs w) [] cs)(cs @ [c] \<mapsto> RegFile data)\<rparr>"
    unfolding put_file_def r by simp
  ultimately show ?thesis
    unfolding extract_file_def mk by (simp add: xwrite_file_def)
qed

text \<open>
  A package layout: paths as component lists, with their data.  It fits a file system when no path
  lies below another one, no ancestor is a regular file and no path is a directory already.
\<close>

type_synonym layout = "(cstr list \<times> bytes) list"

definition layout_fits :: "world \<Rightarrow> cstr list set \<Rightarrow> bool" where
  "layout_fits w P \<longleftrightarrow>
     (\<forall>p\<in>P. p \<noteq> [] \<and> (\<forall>c\<in>set p. clean_comp c) \<and> mkdir_ok w (butlast p) \<and> fs w p \<noteq> Some Directory)
     \<and> (\<forall>p\<in>P. \<forall>q\<in>P. \<not> strict_prefix p q)"

lemma strict_prefix_butlast: "q \<noteq> [] \<Longrightarrow> strict_prefix (butlast q) q"
  by (simp add: strict_prefix_def prefixeq_butlast)
    (metis append_butlast_last_id append_self_conv list.simps(3))

lemma with_dirs_cases:
  "with_dirs f [] cs q = f q \<or> (prefix q cs \<and> with_dirs f [] cs q = Some Directory)"
  by (auto simp: with_dirs_def take_is_prefix)

lemma layout_fits_step:
  assumes "layout_fits w P" and "p \<in> P"
  shows "layout_fits (w\<lparr>fs := (with_dirs (fs w) [] (butlast p))(p \<mapsto> RegFile d)\<rparr>) P"
    (is "layout_fits ?w P")
proof -
  have P: "\<And>q. q \<in> P \<Longrightarrow> q \<noteq> [] \<and> (\<forall>c\<in>set q. clean_comp c) \<and> mkdir_ok w (butlast q) \<and> fs w q \<noteq> Some Directory"
    and sp: "\<And>q q'. q \<in> P \<Longrightarrow> q' \<in> P \<Longrightarrow> \<not> strict_prefix q q'"
    using assms(1) by (auto simp: layout_fits_def)
  have below: "\<not> prefix q (butlast p)" if "q \<in> P" for q
  proof
    assume "prefix q (butlast p)"
    moreover have "strict_prefix (butlast p) p"
      using P [OF assms(2)] strict_prefix_butlast by blast
    ultimately show False using sp [OF that assms(2)] prefix_order.le_less_trans by blast
  qed
  have node: "fs ?w q = None \<or> fs ?w q = Some Directory"
    if "fs w q = None \<or> fs w q = Some Directory" and "q \<noteq> p" for q
    using that with_dirs_cases [of "fs w" "butlast p" q] by auto
  have dir: "with_dirs f [] cs [] = Some Directory" for f cs
    by (auto simp: with_dirs_def intro: exI [of _ 0])
  have mk: "mkdir_ok ?w (butlast q)" if q: "q \<in> P" for q
  proof -
    have "take k (butlast q) \<noteq> p" for k
    proof
      assume "take k (butlast q) = p"
      then have "prefix p (butlast q)" using take_is_prefix by metis
      moreover have "strict_prefix (butlast q) q" using P [OF q] strict_prefix_butlast by blast
      ultimately show False using sp [OF assms(2) q] prefix_order.le_less_trans by blast
    qed
    moreover have "p \<noteq> []" using P [OF assms(2)] by simp
    moreover have "mkdir_ok w (butlast q)" using P [OF q] by simp
    ultimately show ?thesis using node unfolding mkdir_ok_def by (simp add: dir)
  qed
  have "fs ?w q \<noteq> Some Directory" if q: "q \<in> P" for q
    using with_dirs_cases [of "fs w" "butlast p" q] below [OF q] P [OF q] by auto
  with mk P sp show ?thesis unfolding layout_fits_def by blast
qed

definition te_path :: "tar_entry \<Rightarrow> cstr list" where
  "te_path e = split_on SLASH (te_name e)"

definition regular_entries :: "tar_entry list \<Rightarrow> tar_entry list" where
  "regular_entries es = filter (\<lambda>e. te_name e \<noteq> ''.PKGINFO'') es"

definition file_lines :: "tar_entry list \<Rightarrow> cstr" where
  "file_lines es = unlines (map (\<lambda>e. ''F:'' @ SLASH # te_name e) (regular_entries es))"

definition info_data :: "tar_entry list \<Rightarrow> bytes option \<Rightarrow> bytes option" where
  "info_data es pi = fold (\<lambda>e a. if te_name e = ''.PKGINFO'' then Some (te_data e) else a) es pi"

lemma path_str_split: "path_str (split_on SLASH n) = SLASH # n"
proof (induction n)
  case (Cons c n)
  then show ?case by (cases "split_on SLASH n") auto
qed simp

lemma extract_entries_installs:
  assumes "layout_fits w P" and "te_path ` set (regular_entries es) \<subseteq> P"
    and "distinct (map te_path (regular_entries es))"
  shows "\<exists>w'. extract_entries es files pi w = (Returns (files @ file_lines es, info_data es pi), w') \<and>
    (\<forall>e\<in>set (regular_entries es). fs w' (te_path e) = Some (RegFile (te_data e))) \<and>
    (\<forall>q. (\<forall>e\<in>set (regular_entries es). \<not> prefix q (te_path e)) \<longrightarrow> fs w' q = fs w q) \<and>
    (\<forall>q. fs w q = Some Directory \<longrightarrow> fs w' q = Some Directory)"
  using assms
proof (induction es arbitrary: files pi w)
  case Nil
  then show ?case by (simp add: file_lines_def info_data_def regular_entries_def)
next
  case (Cons e es)
  show ?case
  proof (cases "te_name e = ''.PKGINFO''")
    case True
    then have "regular_entries (e # es) = regular_entries es" by (simp add: regular_entries_def)
    moreover from this have "file_lines (e # es) = file_lines es" by (simp add: file_lines_def)
    ultimately show ?thesis
      using Cons True by (simp add: info_data_def)
  next
    case False
    let ?p = "te_path e"
    let ?w = "w\<lparr>fs := (with_dirs (fs w) [] (butlast ?p))(?p \<mapsto> RegFile (te_data e))\<rparr>"
    have reg: "regular_entries (e # es) = e # regular_entries es" using False by (simp add: regular_entries_def)
    have p: "?p \<in> P" using Cons.prems(2) reg by auto
    with Cons.prems(1) have ok: "?p \<noteq> []" "\<forall>c\<in>set ?p. clean_comp c" "mkdir_ok w (butlast ?p)" "fs w ?p \<noteq> Some Directory"
      by (auto simp: layout_fits_def)
    obtain cs c where cs: "?p = cs @ [c]" using ok(1) by (cases ?p rule: rev_cases) auto
    have ex: "extract_file (SLASH # te_name e) (te_data e) w = (Returns (), ?w)"
      using extract_file_ok [of cs c w "te_data e"] ok cs path_str_split [of "te_name e"]
      by (simp add: te_path_def)
    have fits: "layout_fits ?w P" using layout_fits_step [OF Cons.prems(1) p] .
    from Cons.IH [OF fits, of "files @ ''F:'' @ (SLASH # te_name e) @ [NL]" pi] Cons.prems(2,3) reg
    obtain w' where w': "extract_entries es (files @ ''F:'' @ (SLASH # te_name e) @ [NL]) pi ?w =
        (Returns ((files @ ''F:'' @ (SLASH # te_name e) @ [NL]) @ file_lines es, info_data es pi), w')"
      and files: "\<forall>e\<in>set (regular_entries es). fs w' (te_path e) = Some (RegFile (te_data e))"
      and frame: "\<forall>q. (\<forall>e\<in>set (regular_entries es). \<not> prefix q (te_path e)) \<longrightarrow> fs w' q = fs ?w q"
      and dirs: "\<forall>q. fs ?w q = Some Directory \<longrightarrow> fs w' q = Some Directory"
      by auto
    have "fs ?w q = Some Directory" if "fs w q = Some Directory" for q
      using that ok(4) with_dirs_cases [of "fs w" "butlast ?p" q] by auto
    with dirs have "\<forall>q. fs w q = Some Directory \<longrightarrow> fs w' q = Some Directory" by blast
    moreover
    have "fs w' ?p = fs ?w ?p"
    proof -
      have "\<not> prefix ?p (te_path e')" if e': "e' \<in> set (regular_entries es)" for e'
      proof -
        from e' have "te_path e' \<in> te_path ` set (regular_entries es)" by (rule imageI)
        then have "te_path e' \<in> P" "te_path e' \<noteq> ?p" using Cons.prems(2,3) reg by auto
        moreover from this have "\<not> strict_prefix ?p (te_path e')"
          using Cons.prems(1) p unfolding layout_fits_def by blast
        ultimately show ?thesis unfolding strict_prefix_def by metis
      qed
      then show ?thesis using frame by blast
    qed
    moreover have "fs w' q = fs w q" if q: "\<forall>e\<in>set (regular_entries (e # es)). \<not> prefix q (te_path e)" for q
    proof -
      have "q \<noteq> ?p" "\<not> prefix q ?p" using q reg by auto
      moreover from this have "\<not> prefix q (butlast ?p)" using prefixeq_butlast prefix_order.trans by blast
      ultimately have "fs ?w q = fs w q" using with_dirs_cases [of "fs w" "butlast ?p" q] by auto
      then show ?thesis using frame q reg by simp
    qed
    moreover have "file_lines (e # es) = ''F:'' @ (SLASH # te_name e) @ [NL] @ file_lines es"
      using reg by (simp add: file_lines_def)
    ultimately show ?thesis
      using w' files ex False reg by (simp add: info_data_def)
  qed
qed

definition TAR_END :: bytes where
  "TAR_END = replicate 1024 NUL"

lemma tar_extract_ok:
  assumes "\<forall>e\<in>set es. wf_tar_entry e" and "layout_fits w (te_path ` set (regular_entries es))"
    and "distinct (map te_path (regular_entries es))"
    and "\<forall>e\<in>set es. resolve w (SLASH # te_name e) \<noteq> resolve w tarpath"
    and "fs w (resolve w tarpath) = Some (RegFile (concat (map ustar_entry es) @ TAR_END))"
  shows "\<exists>w'. tar_extract tarpath w = (Returns (file_lines es, info_data es None), w') \<and>
    (\<forall>e\<in>set (regular_entries es). fs w' (te_path e) = Some (RegFile (te_data e))) \<and>
    (\<forall>q. (\<forall>e\<in>set (regular_entries es). \<not> prefix q (te_path e)) \<longrightarrow> fs w' q = fs w q) \<and>
    (\<forall>q. fs w q = Some Directory \<longrightarrow> fs w' q = Some Directory)"
proof -
  have "tar_extract tarpath w = extract_entries es [] None w"
    using assms(1,4,5) tar_loop_archive [of es w "resolve w tarpath" TAR_END "[]" None w]
    by (simp add: tar_extract_def TAR_END_def)
  with extract_entries_installs [OF assms(2) order.refl assms(3), of "[]" None] show ?thesis by simp
qed

text \<open>Unpacking a packed archive whose layout fits the file system succeeds, leaves every file
  with exactly its packed bytes under the root, lists each of them in an F: line, hands back the
  .PKGINFO bytes, changes no path that is neither a packed file nor an ancestor of one, and
  keeps every directory.\<close>

theorem tar_extract_installs:
  assumes "\<forall>e\<in>set es. wf_tar_entry e" and "layout_fits w (te_path ` set (regular_entries es))"
    and "distinct (map te_path (regular_entries es))"
    and "\<forall>e\<in>set es. resolve w (SLASH # te_name e) \<noteq> resolve w tarpath"
    and "fs w (resolve w tarpath) = Some (RegFile (concat (map ustar_entry es) @ TAR_END))"
  shows "\<exists>w'. tar_extract tarpath w = (Returns (file_lines es, info_data es None), w') \<and>
    (\<forall>e\<in>set (regular_entries es). fs w' (te_path e) = Some (RegFile (te_data e))) \<and>
    (\<forall>q. (\<forall>e\<in>set (regular_entries es). \<not> prefix q (te_path e)) \<longrightarrow> fs w' q = fs w q) \<and>
    (\<forall>q. fs w q = Some Directory \<longrightarrow> fs w' q = Some Directory)"
  using assms by (rule tar_extract_ok)

definition demo_entry :: tar_entry where
  "demo_entry = \<lparr>te_name = ''bin/hi'', te_data = ''x'', te_mode = replicate 24 NUL,
     te_time = replicate 20 NUL, te_rest = replicate 355 NUL\<rparr>"

definition demo_tar_world :: world where
  "demo_tar_world =
     empty_world\<lparr>fs := (fs empty_world)([''t''] \<mapsto> RegFile (ustar_entry demo_entry @ TAR_END))\<rparr>"

lemma demo_path: "te_path demo_entry = [''bin'', ''hi'']" "resolve w ''/bin/hi'' = [''bin'', ''hi'']"
  "resolve w ''/t'' = [''t'']"
  by (simp_all add: te_path_def demo_entry_def resolve_def step_comp_def)

theorem tar_extract_installs_witness:
  "\<exists>w'. tar_extract ''/t'' demo_tar_world = (Returns (file_lines [demo_entry], None), w') \<and>
     fs w' [''bin'', ''hi''] = Some (RegFile ''x'')"
proof -
  have reg: "regular_entries [demo_entry] = [demo_entry]"
    by (simp add: regular_entries_def demo_entry_def)
  have wf: "wf_tar_entry demo_entry" by (simp add: wf_tar_entry_def demo_entry_def)
  have fits: "layout_fits demo_tar_world {[''bin'', ''hi'']}"
    by (auto simp: layout_fits_def mkdir_ok_def clean_comp_def demo_tar_world_def empty_world_def le_Suc_eq)
  have abs: "SLASH # te_name demo_entry = ''/bin/hi''" by (simp add: demo_entry_def)
  have tar: "fs demo_tar_world (resolve demo_tar_world ''/t'') =
      Some (RegFile (concat (map ustar_entry [demo_entry]) @ TAR_END))"
    by (simp add: demo_path demo_tar_world_def)
  from tar_extract_installs [of "[demo_entry]" demo_tar_world "''/t''"] reg wf fits tar
  obtain w' where "tar_extract ''/t'' demo_tar_world = (Returns (file_lines [demo_entry], info_data [demo_entry] None), w')"
    and "fs w' [''bin'', ''hi''] = Some (RegFile (te_data demo_entry))"
    by (auto simp: demo_path abs)
  then show ?thesis by (simp add: info_data_def demo_entry_def)
qed

end
