(* ===== verification/Apk_Db.thy ===== *)
theory Apk_Db
  imports Apk_Text
begin

text \<open>
  The text of the installed database and of the world file of \<open>miscutils/apk.c\<close>: the stanza that
  \<open>install_tar_file\<close> writes, and the parts of \<open>do_del\<close> that find a stanza, find its end and drop a
  name from the world file.  The abstract view of the database is a list of packages; the lemmas
  show that the text searches of the code are lookups in that list, for packages none of whose
  fields contains a newline or the text \<open>P:\<close>.
\<close>

section \<open>Definitions\<close>

definition stanza_text :: "cstr \<Rightarrow> cstr \<Rightarrow> cstr \<Rightarrow> cstr \<Rightarrow> cstr" where
  "stanza_text name ver desc files =
     ''P:'' @ name @ [NL] @ ''V:'' @ ver @ [NL] @ ''T:'' @ desc @ [NL] @ files @ [NL]"

text \<open>From the start of a stanza to just behind the next blank line, or to the end of the text.\<close>

definition stanza_split :: "cstr \<Rightarrow> cstr \<times> cstr" where
  "stanza_split st =
     (case strstr st [NL, NL] of None \<Rightarrow> (st, []) | Some (p, q) \<Rightarrow> (p @ [NL, NL], drop 2 q))"

text \<open>
  Dropping a name from the world file: only the first occurrence of the line's text is looked at,
  and it counts only when it starts a line.
\<close>

definition drop_world_line :: "cstr \<Rightarrow> cstr \<Rightarrow> cstr option" where
  "drop_world_line w name =
     (case strstr w (name @ [NL]) of
        None \<Rightarrow> None
      | Some (pre, hit) \<Rightarrow>
          if pre = [] \<or> last pre = NL then Some (pre @ drop (length name + 1) hit) else None)"

section \<open>The abstract database\<close>

record pkg =
  pk_name :: cstr
  pk_ver :: cstr
  pk_desc :: cstr
  pk_files :: "cstr list"

definition pkg_lines :: "pkg \<Rightarrow> cstr list" where
  "pkg_lines p = (''P:'' @ pk_name p) # (''V:'' @ pk_ver p) # (''T:'' @ pk_desc p)
     # map (\<lambda>f. ''F:'' @ f) (pk_files p)"

definition pkg_text :: "pkg \<Rightarrow> cstr" where
  "pkg_text p = unlines (pkg_lines p @ [[]])"

definition db_text :: "pkg list \<Rightarrow> cstr" where
  "db_text ps = concat (map pkg_text ps)"

definition clean_field :: "cstr \<Rightarrow> bool" where
  "clean_field s \<longleftrightarrow> NL \<notin> set s \<and> NUL \<notin> set s \<and> \<not> sublist ''P:'' s"

definition wf_pkg :: "pkg \<Rightarrow> bool" where
  "wf_pkg p \<longleftrightarrow> clean_field (pk_name p) \<and> clean_field (pk_ver p) \<and> clean_field (pk_desc p)
     \<and> (\<forall>f\<in>set (pk_files p). clean_field f)"

lemma db_text_simps [simp]:
  "db_text [] = []" "db_text (p # ps) = pkg_text p @ db_text ps" "db_text (ps @ qs) = db_text ps @ db_text qs"
  by (simp_all add: db_text_def)

lemma stanza_text_pkg:
  "stanza_text (pk_name p) (pk_ver p) (pk_desc p) (unlines (map (\<lambda>f. ''F:'' @ f) (pk_files p))) = pkg_text p"
  by (simp add: stanza_text_def pkg_text_def pkg_lines_def)

section \<open>Finding a stanza\<close>

lemma clean_line_no_probe:
  assumes "clean_field s" and "a \<noteq> CHR ''P''"
  shows "\<not> suffix (''P:'' @ n) (a # CHR '':'' # s)"
proof
  assume "suffix (''P:'' @ n) (a # CHR '':'' # s)"
  then have "sublist ''P:'' (a # CHR '':'' # s)"
    by (metis append_assoc sublist_def suffix_def)
  then show False using assms by (auto simp: clean_field_def sublist_Cons_right)
qed

lemma name_line_no_probe:
  assumes "clean_field s" and "s \<noteq> n"
  shows "\<not> suffix (''P:'' @ n) (''P:'' @ s)"
proof
  assume "suffix (''P:'' @ n) (''P:'' @ s)"
  with assms(2) have "suffix (''P:'' @ n) (CHR '':'' # s)" by (simp add: suffix_Cons)
  then have "sublist ''P:'' (CHR '':'' # s)"
    by (metis append_assoc sublist_def suffix_def)
  then show False using assms(1) by (auto simp: clean_field_def sublist_Cons_right)
qed

lemma pkg_lines_no_probe:
  assumes "wf_pkg p" and "pk_name p \<noteq> n" and "l \<in> set (pkg_lines p @ [[]])"
  shows "NL \<notin> set l \<and> \<not> suffix (''P:'' @ n) l"
proof -
  note clean = assms(1) [unfolded wf_pkg_def]
  from assms(3) consider "l = ''P:'' @ pk_name p" | "l = ''V:'' @ pk_ver p" | "l = ''T:'' @ pk_desc p"
    | f where "f \<in> set (pk_files p)" and "l = ''F:'' @ f" | "l = []"
    by (auto simp: pkg_lines_def)
  then show ?thesis
  proof cases
    case 1
    then show ?thesis using clean name_line_no_probe [of "pk_name p" n] assms(2) by (simp add: clean_field_def)
  next
    case 2
    then show ?thesis using clean clean_line_no_probe [of "pk_ver p" _ n] by (simp add: clean_field_def)
  next
    case 3
    then show ?thesis using clean clean_line_no_probe [of "pk_desc p" _ n] by (simp add: clean_field_def)
  next
    case (4 f)
    then show ?thesis using clean clean_line_no_probe [of f _ n] by (simp add: clean_field_def)
  qed simp
qed

lemma find_stanza_skip:
  assumes "\<forall>p\<in>set ps. wf_pkg p \<and> pk_name p \<noteq> n" and "NL \<notin> set n"
  shows "strstr (db_text ps @ r) (''P:'' @ n @ NL # m) =
    map_option (\<lambda>(p, q). (db_text ps @ p, q)) (strstr r (''P:'' @ n @ NL # m))"
  using assms(1)
proof (induction ps)
  case Nil
  show ?case by (cases "strstr r (''P:'' @ n @ NL # m)") auto
next
  case (Cons p ps)
  have "strstr (unlines (pkg_lines p @ [[]]) @ s) ((''P:'' @ n) @ NL # m) =
    map_option (\<lambda>(a, b). (unlines (pkg_lines p @ [[]]) @ a, b)) (strstr s ((''P:'' @ n) @ NL # m))" for s
    using Cons.prems assms(2) pkg_lines_no_probe [of p n]
    by (intro strstr_unlines_none) auto
  with Cons show ?case
    by (cases "strstr r (''P:'' @ n @ NL # m)") (auto simp: pkg_text_def)
qed

lemma find_stanza_none:
  assumes "\<forall>p\<in>set ps. wf_pkg p \<and> pk_name p \<noteq> n" and "NL \<notin> set n"
  shows "strstr (db_text ps) (''P:'' @ n @ NL # m) = None"
  using find_stanza_skip [OF assms, of "[]" m] by simp

lemma find_stanza_some:
  assumes "\<forall>p\<in>set ps. wf_pkg p \<and> pk_name p \<noteq> pk_name q" and "wf_pkg q"
    and "prefix m ''V:''"
  shows "strstr (db_text (ps @ q # qs)) (''P:'' @ pk_name q @ NL # m) =
    Some (db_text ps, pkg_text q @ db_text qs)"
proof -
  have n: "NL \<notin> set (pk_name q)" using assms(2) by (simp add: wf_pkg_def clean_field_def)
  obtain m' where m: "''V:'' = m @ m'" using assms(3) by (auto simp: prefix_def)
  have "pkg_text q = ''P:'' @ pk_name q @ NL # ''V:'' @ pk_ver q @ NL
      # unlines ((''T:'' @ pk_desc q) # map (\<lambda>f. ''F:'' @ f) (pk_files q) @ [[]])"
    by (simp add: pkg_text_def pkg_lines_def)
  then have "\<exists>r. pkg_text q @ db_text qs = (''P:'' @ pk_name q @ NL # m) @ r"
    using m by (metis append_assoc append_Cons)
  then have "strstr (pkg_text q @ db_text qs) (''P:'' @ pk_name q @ NL # m) = Some ([], pkg_text q @ db_text qs)"
    using strstr_self by metis
  then show ?thesis using find_stanza_skip [OF assms(1) n] by simp
qed

section \<open>The end of a stanza\<close>

lemma strstr_blank_line:
  "NL \<notin> set l \<Longrightarrow> strstr (l @ NL # x) [NL, NL] =
    (if prefix [NL] x then Some (l, NL # x) else map_option (\<lambda>(p, q). (l @ NL # p, q)) (strstr x [NL, NL]))"
proof (induction l)
  case Nil
  show ?case by (cases "strstr x [NL, NL]") auto
next
  case (Cons c l)
  then show ?case by (cases "strstr x [NL, NL]") auto
qed

lemma strstr_stanza_end:
  assumes "ls \<noteq> []" and "\<forall>l\<in>set ls. l \<noteq> [] \<and> NL \<notin> set l"
  shows "\<exists>p. strstr (unlines ls @ NL # r) [NL, NL] = Some (p, NL # NL # r) \<and> p @ [NL] = unlines ls"
  using assms
proof (induction ls)
  case (Cons l ls)
  show ?case
  proof (cases ls)
    case Nil
    then show ?thesis using Cons.prems by (simp add: strstr_blank_line)
  next
    case (Cons l' ls')
    with Cons.prems have "\<not> prefix [NL] (unlines ls @ NL # r)" by (cases l') auto
    with Cons.IH Cons.prems Cons show ?thesis by (fastforce simp: strstr_blank_line)
  qed
qed simp

lemma pkg_lines_nonempty:
  "wf_pkg p \<Longrightarrow> l \<in> set (pkg_lines p) \<Longrightarrow> l \<noteq> [] \<and> NL \<notin> set l"
  by (auto simp: pkg_lines_def wf_pkg_def clean_field_def)

lemma stanza_split_pkg:
  assumes "wf_pkg p"
  shows "stanza_split (pkg_text p @ r) = (pkg_text p, r)"
proof -
  have "pkg_lines p \<noteq> []" by (simp add: pkg_lines_def)
  from strstr_stanza_end [OF this, of r] pkg_lines_nonempty [OF assms]
  obtain q where q: "strstr (unlines (pkg_lines p) @ NL # r) [NL, NL] = Some (q, NL # NL # r)"
    and e: "q @ [NL] = unlines (pkg_lines p)" by blast
  from e have "q @ [NL, NL] = pkg_text p"
    by (metis append.assoc append_Cons append_Nil pkg_text_def unlines_Cons unlines_Nil unlines_append)
  with q show ?thesis by (simp add: stanza_split_def pkg_text_def)
qed

section \<open>The world file\<close>

lemma drop_world_line_unlines:
  assumes "n \<noteq> []" and "NL \<notin> set n" and "\<forall>a\<in>set xs. NL \<notin> set a \<and> \<not> suffix n a"
  shows "drop_world_line (unlines (xs @ n # ys)) n = Some (unlines (xs @ ys))"
proof -
  have "strstr (n @ NL # unlines ys) (n @ [NL]) = Some ([], n @ NL # unlines ys)"
    using strstr_self [of "n @ [NL]" "unlines ys"] by simp
  then have "strstr (unlines (xs @ n # ys)) (n @ [NL]) = Some (unlines xs, n @ NL # unlines ys)"
    using strstr_unlines_none [OF assms(2,1,3), of "n @ NL # unlines ys" "[]"] by simp
  moreover have "unlines xs = [] \<or> last (unlines xs) = NL"
    by (cases xs rule: rev_cases) simp_all
  ultimately show ?thesis by (simp add: drop_world_line_def)
qed

lemma drop_world_line_suffix:
  assumes "a \<noteq> []" and "NL \<notin> set (a @ n)" and "n \<noteq> []"
  shows "drop_world_line (unlines ((a @ n) # ls)) n = None"
proof -
  have "strstr ((a @ n) @ NL # unlines ls) (n @ [NL]) = Some (a, n @ NL # unlines ls)"
    using assms strstr_line [of n "a @ n" "unlines ls" "[]"] by (simp add: suffix_def)
  moreover have "last a \<noteq> NL" using assms(1,2) by (metis UnCI last_in_set set_append)
  ultimately show ?thesis using assms(1) by (simp add: drop_world_line_def)
qed

section \<open>A file that holds the database\<close>

text \<open>
  What the package commands rely on from the file that holds the database: a text without NUL
  that was saved is what is loaded next.  The lemmas say how appending a stanza and cutting one out
  act on the list of packages the file represents.
\<close>

locale text_file =
  fixes load :: "'s \<Rightarrow> cstr"
    and save :: "cstr \<Rightarrow> 's \<Rightarrow> 's"
  assumes load_save: "NUL \<notin> set t \<Longrightarrow> load (save t s) = t"
begin

definition represents :: "'s \<Rightarrow> pkg list \<Rightarrow> bool" where
  "represents s ps \<longleftrightarrow> load s = db_text ps \<and> (\<forall>p\<in>set ps. wf_pkg p)"

lemma NUL_pkg_text: "wf_pkg p \<Longrightarrow> NUL \<notin> set (pkg_text p)"
  by (auto simp: pkg_text_def pkg_lines_def unlines_def wf_pkg_def clean_field_def)

lemma NUL_db_text: "\<forall>p\<in>set ps. wf_pkg p \<Longrightarrow> NUL \<notin> set (db_text ps)"
  using NUL_pkg_text by (auto simp: db_text_def)

lemma register_represents:
  "represents s ps \<Longrightarrow> wf_pkg p \<Longrightarrow> represents (save (load s @ pkg_text p) s) (ps @ [p])"
  using NUL_db_text [of "ps @ [p]"] by (simp add: represents_def load_save)

lemma remove_represents:
  assumes "represents s (ps @ q # qs)" and "\<forall>p\<in>set ps. pk_name p \<noteq> pk_name q"
  shows "\<exists>pre st. strstr (load s) (''P:'' @ pk_name q @ [NL]) = Some (pre, st) \<and>
    stanza_split st = (pkg_text q, db_text qs) \<and> pre = db_text ps \<and>
    represents (save (pre @ snd (stanza_split st)) s') (ps @ qs)"
proof -
  have wf: "\<forall>p\<in>set (ps @ q # qs). wf_pkg p" and l: "load s = db_text (ps @ q # qs)"
    using assms(1) by (auto simp: represents_def)
  have "strstr (load s) (''P:'' @ pk_name q @ [NL]) = Some (db_text ps, pkg_text q @ db_text qs)"
    using find_stanza_some [of ps q "[]" qs] wf assms(2) l by simp
  moreover have "represents (save (db_text ps @ db_text qs) s') (ps @ qs)"
    using NUL_db_text [of "ps @ qs"] wf by (simp add: represents_def load_save)
  ultimately show ?thesis using stanza_split_pkg [of q "db_text qs"] wf by simp
qed

lemma installed_iff:
  assumes "represents s ps" and "NL \<notin> set n"
  shows "strstr (load s) (''P:'' @ n @ [NL]) \<noteq> None \<longleftrightarrow> n \<in> pk_name ` set ps"
proof (cases "n \<in> pk_name ` set ps")
  case False
  then have "\<forall>p\<in>set ps. wf_pkg p \<and> pk_name p \<noteq> n" using assms(1) by (auto simp: represents_def)
  from find_stanza_none [OF this assms(2), of "[]"] False assms(1) show ?thesis
    by (simp add: represents_def)
next
  case True
  then obtain q where "q \<in> set ps" "pk_name q = n" by auto
  then obtain as q bs where sp: "ps = as @ q # bs" "pk_name q = n" "\<forall>p\<in>set as. pk_name p \<noteq> n"
    using split_list_first_prop [of ps "\<lambda>p. pk_name p = n"] by blast
  with remove_represents [of s as q bs s] assms(1) True show ?thesis by fastforce
qed

end

lemma db_ver_db_text:
  assumes "\<forall>p\<in>set ps. wf_pkg p" and "NL \<notin> set n"
  shows "db_ver (db_text ps) n = map_option pk_ver (find (\<lambda>p. pk_name p = n) ps)"
proof (cases "find (\<lambda>p. pk_name p = n) ps")
  case None
  then have "\<forall>p\<in>set ps. wf_pkg p \<and> pk_name p \<noteq> n" using assms(1) by (auto simp: find_None_iff)
  from find_stanza_none [OF this assms(2), of "''V:''"] None show ?thesis
    by (simp add: db_ver_def)
next
  case (Some q)
  then have "q \<in> set ps" "pk_name q = n" by (auto simp: find_Some_iff)
  then obtain as q' bs where sp: "ps = as @ q' # bs" "pk_name q' = n" "\<forall>p\<in>set as. pk_name p \<noteq> n"
    using split_list_first_prop [of ps "\<lambda>p. pk_name p = n"] by blast
  then have "find (\<lambda>p. pk_name p = n) as = None" by (auto simp: find_None_iff)
  then have q: "find (\<lambda>p. pk_name p = n) ps = Some q'" using sp by (induction as arbitrary: ps) auto
  have wf: "wf_pkg q'" using assms(1) sp by simp
  have "strstr (db_text ps) (''P:'' @ n @ NL # ''V:'') = Some (db_text as, pkg_text q' @ db_text bs)"
    using find_stanza_some [of as q' "''V:''" bs] assms(1) sp by simp
  moreover have "takeWhile (\<lambda>x. x \<noteq> NL) (pk_ver q' @ NL # t) = pk_ver q'" for t
    using wf by (simp add: wf_pkg_def clean_field_def)
  ultimately show ?thesis using q sp(2) by (simp add: db_ver_def pkg_text_def pkg_lines_def)
qed

end
