(* ===== verification/Wasi_Compat.thy ===== *)
theory Wasi_Compat
  imports Host_FS
begin

text \<open>
  \<open>guest/busybox/wasi-compat/wasi-compat.c\<close>: the shims that stand in for the parts of POSIX that
  wasi-libc lacks.  The functions the page implements (the imports of module \<open>env\<close>) and the
  wasi-libc functions they are wrapped around are fields of the record \<open>osd_host\<close>, which the
  definitions take as an argument; the static variables of the file are the record \<open>osd_state\<close>.
\<close>

unbundle bit_operations_syntax

type_synonym u32 = "32 word"

section \<open>The host's side\<close>

record osd_host =
  host_spawn :: "cstr \<Rightarrow> bytes \<Rightarrow> bytes \<Rightarrow> int"  \<comment> \<open>__osd_spawn: path, flat argv, flat environment\<close>
  host_dup :: "int \<Rightarrow> int \<Rightarrow> int"                \<comment> \<open>__osd_dup\<close>
  host_dup2 :: "int \<Rightarrow> int \<Rightarrow> int"               \<comment> \<open>__osd_dup2\<close>
  real_fcntl :: "int \<Rightarrow> int \<Rightarrow> int \<Rightarrow> int"       \<comment> \<open>__real_fcntl of wasi-libc\<close>
  host_pkg_index :: "int \<Rightarrow> int \<Rightarrow> int \<times> bytes"   \<comment> \<open>__osd_pkg_index: buffer size, force\<close>
  host_pkg_fetch :: "world \<Rightarrow> cstr \<Rightarrow> cstr \<Rightarrow> int \<times> world"  \<comment> \<open>__osd_pkg_fetch: name, destination\<close>

text \<open>errno values used by the file (numbers of wasi-libc).\<close>

datatype errno = EOK | EINTR | ECHILD | ENOSYS | EPERM | ENOMEM | EHOST int

section \<open>Static state\<close>

record termios =
  c_iflag :: u32
  c_oflag :: u32
  c_cflag :: u32
  c_lflag :: u32
  c_vmin :: "8 word"
  c_vtime :: "8 word"

record osd_state =
  osd_tty_lflag :: u32
  tty_raw_calls :: "bool list"   \<comment> \<open>arguments of the __osd_tty_mode calls so far, latest last\<close>
  mkstemp_seq :: u32
  mktemp_seq :: u32

abbreviation ISIG :: u32 where "ISIG \<equiv> 0x1"
abbreviation ICANON :: u32 where "ICANON \<equiv> 0x2"
abbreviation ECHO :: u32 where "ECHO \<equiv> 0x8"
abbreviation ECHONL :: u32 where "ECHONL \<equiv> 0x40"
abbreviation IEXTEN :: u32 where "IEXTEN \<equiv> 0x8000"
abbreviation OPOST :: u32 where "OPOST \<equiv> 0x1"
abbreviation CSIZE :: u32 where "CSIZE \<equiv> 0x30"
abbreviation CS8 :: u32 where "CS8 \<equiv> 0x30"
abbreviation PARENB :: u32 where "PARENB \<equiv> 0x100"
text \<open>IGNBRK, BRKINT, PARMRK, ISTRIP, INLCR, IGNCR, ICRNL and IXON together.\<close>
abbreviation RAW_IFLAGS :: u32 where
  "RAW_IFLAGS \<equiv> 0x1 OR 0x2 OR 0x8 OR 0x20 OR 0x40 OR 0x80 OR 0x100 OR 0x400"

definition osd_init :: osd_state where
  "osd_init = \<lparr>osd_tty_lflag = ICANON OR ECHO, tty_raw_calls = [], mkstemp_seq = 0, mktemp_seq = 0\<rparr>"

section \<open>Terminal modes\<close>

definition tcgetattr :: "osd_state \<Rightarrow> termios" where
  "tcgetattr s = \<lparr>c_iflag = 0, c_oflag = 0, c_cflag = 0, c_lflag = osd_tty_lflag s, c_vmin = 1, c_vtime = 0\<rparr>"

definition tcsetattr :: "int \<Rightarrow> termios \<Rightarrow> osd_state \<Rightarrow> osd_state" where
  "tcsetattr fd t s =
     (if 0 \<le> fd \<and> fd \<le> 2
      then s\<lparr>osd_tty_lflag := c_lflag t, tty_raw_calls := tty_raw_calls s @ [c_lflag t AND ICANON = 0]\<rparr>
      else s)"

definition cfmakeraw :: "termios \<Rightarrow> termios" where
  "cfmakeraw t = t\<lparr>
     c_iflag := c_iflag t AND NOT RAW_IFLAGS,
     c_oflag := c_oflag t AND NOT OPOST,
     c_lflag := c_lflag t AND NOT (ECHO OR ECHONL OR ICANON OR ISIG OR IEXTEN),
     c_cflag := (c_cflag t AND NOT (CSIZE OR PARENB)) OR CS8,
     c_vmin := 1,
     c_vtime := 0\<rparr>"

text \<open>What the page's line discipline currently does: the last mode it was told, cooked at start.\<close>

definition page_raw :: "osd_state \<Rightarrow> bool" where
  "page_raw s = (tty_raw_calls s \<noteq> [] \<and> last (tty_raw_calls s))"

text \<open>One program-visible terminal operation.\<close>

datatype tty_op = TcSet int termios | TcGet

fun tty_step :: "tty_op \<Rightarrow> osd_state \<Rightarrow> osd_state" where
  "tty_step (TcSet fd t) s = tcsetattr fd t s"
| "tty_step TcGet s = s"

section \<open>Users, groups and ids\<close>

definition getuid :: u32 where "getuid = 1000"

definition getpwnam_found :: "cstr option \<Rightarrow> bool" where
  "getpwnam_found n \<longleftrightarrow> (case n of Some nm \<Rightarrow> nm = ''user'' | None \<Rightarrow> False)"

definition getpwuid_found :: "u32 \<Rightarrow> bool" where
  "getpwuid_found u \<longleftrightarrow> u = 1000"

definition setuid :: "u32 \<Rightarrow> int \<times> errno" where
  "setuid u = (if u = 1000 then (0, EOK) else (-1, EPERM))"

definition setreuid :: "u32 \<Rightarrow> u32 \<Rightarrow> int \<times> errno" where
  "setreuid r e =
     (if (r = -1 \<or> r = 1000) \<and> (e = -1 \<or> e = 1000) then (0, EOK) else (-1, EPERM))"

section \<open>File descriptors\<close>

definition F_DUPFD :: int where "F_DUPFD = 0"
definition F_DUPFD_CLOEXEC :: int where "F_DUPFD_CLOEXEC = 1030"

definition dup2 :: "osd_host \<Rightarrow> int \<Rightarrow> int \<Rightarrow> int" where
  "dup2 h old new = host_dup2 h old new"

definition dup :: "osd_host \<Rightarrow> int \<Rightarrow> int" where
  "dup h fd = host_dup h fd 0"

definition wrap_fcntl :: "osd_host \<Rightarrow> int \<Rightarrow> int \<Rightarrow> int \<Rightarrow> int" where
  "wrap_fcntl h fd cmd arg =
     (if cmd = F_DUPFD \<or> cmd = F_DUPFD_CLOEXEC then host_dup h fd arg else real_fcntl h fd cmd arg)"

section \<open>Temporary files\<close>

text \<open>
  \<open>tmpl[n-1-i] = '0' + (v % 10); v /= 10\<close> for \<open>i\<close> from 0 to 5: the last six characters of the
  template become the six low decimal digits of the counter.
\<close>

definition fill_template :: "nat \<Rightarrow> nat \<Rightarrow> cstr \<Rightarrow> nat \<Rightarrow> cstr" where
  "fill_template base c0 tmpl v =
     (if 6 \<le> length tmpl then take (length tmpl - 6) tmpl @ low_chars base c0 6 v else tmpl)"

text \<open>
  mkstemp: the counter is only advanced when the template is long enough.  The result is the name
  written back to the caller and, when the exclusive open succeeded, the world with the new file.
\<close>

definition mkstemp :: "cstr \<Rightarrow> osd_state \<Rightarrow> world \<Rightarrow> (cstr \<times> bool) \<times> osd_state \<times> world" where
  "mkstemp tmpl s w =
     (let s' = (if 6 \<le> length tmpl then s\<lparr>mkstemp_seq := mkstemp_seq s + 1\<rparr> else s);
          name = fill_template 10 48 tmpl (unat (mkstemp_seq s'))
      in if exists_node w name \<or> \<not> can_create w name then ((name, False), s', w)
         else ((name, True), s', put_file w name []))"

definition tmpfile :: "osd_state \<Rightarrow> world \<Rightarrow> bool \<times> osd_state \<times> world" where
  "tmpfile s w =
     (let ((name, ok), s', w') = mkstemp ''/tmp/tmpfXXXXXX'' s w
      in if ok then (True, s', unlink_file w' name) else (False, s', w'))"

text \<open>mktemp mixes the clock's nanoseconds with a multiplicative hash of its counter.\<close>

definition mktemp :: "u32 \<Rightarrow> cstr \<Rightarrow> osd_state \<Rightarrow> cstr \<times> osd_state" where
  "mktemp nsec tmpl s =
     (let s' = s\<lparr>mktemp_seq := mktemp_seq s + 1\<rparr>;
          v = nsec XOR (mktemp_seq s' * 2654435761)
      in (fill_template 26 97 tmpl (unat v), s'))"

section \<open>Spawning\<close>

definition osd_flatten :: "cstr list \<Rightarrow> bytes" where
  "osd_flatten xs = concat (map (\<lambda>x. x @ [NUL]) xs)"

text \<open>
  A relative path is made absolute when the working directory fits the 900-byte buffer and the
  result the 1024-byte one; otherwise it is passed on as it is.
\<close>

definition osd_abs_path :: "cstr \<Rightarrow> cstr \<Rightarrow> cstr" where
  "osd_abs_path dir path =
     (if char_at path 0 \<noteq> SLASH \<and> length dir < 900 \<and> length dir + length path + 2 < 1024
      then dir @ [SLASH] @ path else path)"

definition osd_spawn :: "osd_host \<Rightarrow> cstr \<Rightarrow> cstr \<Rightarrow> cstr list \<Rightarrow> cstr list \<Rightarrow> int \<times> errno" where
  "osd_spawn h dir path argv envp =
     (let st = host_spawn h (osd_abs_path dir path) (osd_flatten argv) (osd_flatten envp)
      in if st < 0 then (-1, EHOST (- st)) else (st, EOK))"

text \<open>How the page takes a flat buffer apart again: at every NUL.\<close>

fun unflatten_aux :: "cstr \<Rightarrow> bytes \<Rightarrow> cstr list" where
  "unflatten_aux acc [] = []"
| "unflatten_aux acc (c # cs) =
     (if c = NUL then rev acc # unflatten_aux [] cs else unflatten_aux (c # acc) cs)"

definition osd_unflatten :: "bytes \<Rightarrow> cstr list" where
  "osd_unflatten b = unflatten_aux [] b"

section \<open>Package bridges, process calls\<close>

definition osd_pkg_index :: "osd_host \<Rightarrow> int \<Rightarrow> int \<Rightarrow> (int \<times> bytes) \<times> errno" where
  "osd_pkg_index h len force =
     (let (n, b) = host_pkg_index h len force
      in if n < 0 then ((-1, b), EHOST (- n)) else ((n, b), EOK))"

definition osd_pkg_fetch :: "osd_host \<Rightarrow> cstr \<Rightarrow> cstr \<Rightarrow> world \<Rightarrow> (int \<times> errno) \<times> world" where
  "osd_pkg_fetch h name dest w =
     (let (r, w') = host_pkg_fetch h w name dest
      in if r < 0 then ((-1, EHOST (- r)), w') else ((0, EOK), w'))"

definition osd_cwd_init :: "cstr option \<Rightarrow> (cstr \<Rightarrow> world \<Rightarrow> world) \<Rightarrow> world \<Rightarrow> world" where
  "osd_cwd_init pwd chdir w =
     (case pwd of Some p \<Rightarrow> if char_at p 0 = SLASH then chdir p w else w | None \<Rightarrow> w)"

definition system_cmd :: "cstr option \<Rightarrow> int \<times> errno" where
  "system_cmd cmd = (case cmd of None \<Rightarrow> (0, EOK) | Some _ \<Rightarrow> (-1, ENOSYS))"

section \<open>Flat argument vectors\<close>

lemma unflatten_aux_append:
  "NUL \<notin> set x \<Longrightarrow> unflatten_aux acc (x @ NUL # r) = (rev acc @ x) # unflatten_aux [] r"
  by (induction x arbitrary: acc) auto

text \<open>An argument vector survives its passage to the page: splitting the flat buffer at the
  NULs gives the strings back, empty ones included, in order.\<close>

theorem osd_flatten_roundtrip:
  assumes "\<forall>x\<in>set xs. NUL \<notin> set x"
  shows "osd_unflatten (osd_flatten xs) = xs"
  using assms
  by (induction xs) (simp_all add: osd_unflatten_def osd_flatten_def unflatten_aux_append)

theorem osd_flatten_roundtrip_witness:
  "osd_unflatten (osd_flatten [''ls'', [], ''-l'']) = [''ls'', [], ''-l'']"
  by (rule osd_flatten_roundtrip) simp

section \<open>Temporary names\<close>

lemma low_chars_inj:
  assumes b: "0 < b" and c: "c0 + b \<le> 256"
  shows "low_chars b c0 k v = low_chars b c0 k v' \<longleftrightarrow> v mod b ^ k = v' mod b ^ k"
proof (induction k arbitrary: v v')
  case (Suc k)
  have inj: "(char_of (c0 + v mod b) :: char) = char_of (c0 + v' mod b) \<longleftrightarrow> v mod b = v' mod b"
  proof -
    have "c0 + v mod b < 256" "c0 + v' mod b < 256"
      using c mod_less_divisor [OF b, of v] mod_less_divisor [OF b, of v'] by linarith+
    then show ?thesis by simp
  qed
  have split: "x mod b ^ Suc k = b * (x div b mod b ^ k) + x mod b" for x
    by (simp add: mod_mult2_eq)
  have "v mod b ^ Suc k = v' mod b ^ Suc k \<longleftrightarrow>
      v div b mod b ^ k = v' div b mod b ^ k \<and> v mod b = v' mod b"
  proof
    assume "v mod b ^ Suc k = v' mod b ^ Suc k"
    then have e: "b * (v div b mod b ^ k) + v mod b = b * (v' div b mod b ^ k) + v' mod b"
      by (simp only: split)
    from arg_cong [OF e, of "\<lambda>n. n mod b"] have "v mod b = v' mod b" by simp
    with e b show "v div b mod b ^ k = v' div b mod b ^ k \<and> v mod b = v' mod b" by simp
  qed (simp only: split)
  then show ?case using Suc inj by auto
qed simp

text \<open>The name minted by mkstemp determines the counter up to its six low digits, so a million
  consecutive calls with one template never mint the same name twice.\<close>

theorem mkstemp_names_distinct:
  assumes "6 \<le> length tmpl" and "v < 10 ^ 6" and "v' < 10 ^ 6" and "v \<noteq> v'"
  shows "fill_template 10 48 tmpl v \<noteq> fill_template 10 48 tmpl v'"
  using assms low_chars_inj [of 10 48 6 v v'] by (simp add: fill_template_def)

theorem mkstemp_names_distinct_witness:
  "fill_template 10 48 ''/tmp/aXXXXXX'' 7 \<noteq> fill_template 10 48 ''/tmp/aXXXXXX'' 10"
  by (rule mkstemp_names_distinct) simp_all

text \<open>Tmpfile leaves no trace in the file system: whether or not it could open its temporary
  file, every path names the same node afterwards as before.\<close>

theorem tmpfile_no_trace:
  "fs (snd (snd (tmpfile s w))) = fs w"
proof -
  obtain name ok s' w' where m: "mkstemp ''/tmp/tmpfXXXXXX'' s w = ((name, ok), s', w')"
    by (metis prod.exhaust_sel)
  show ?thesis
  proof (cases ok)
    case False
    with m show ?thesis
      by (auto simp: tmpfile_def mkstemp_def Let_def split: if_splits)
  next
    case True
    with m have w': "w' = put_file w name []" and none: "fs w (resolve w name) = None"
      by (auto simp: mkstemp_def Let_def exists_node_def split: if_splits)
    then show ?thesis using m True
      by (auto simp: tmpfile_def fs_unlink_file fs_put_file)
  qed
qed

section \<open>Terminal modes: the program and the page agree\<close>

definition tty_inv :: "osd_state \<Rightarrow> bool" where
  "tty_inv s \<longleftrightarrow> (page_raw s \<longleftrightarrow> osd_tty_lflag s AND ICANON = 0)"

lemma tty_inv_init: "tty_inv osd_init"
  by (simp add: tty_inv_def osd_init_def page_raw_def)

lemma tty_inv_step: "tty_inv s \<Longrightarrow> tty_inv (tty_step op s)"
  by (cases op) (simp_all add: tty_inv_def tcsetattr_def page_raw_def)

lemma tty_inv_run: "tty_inv s \<Longrightarrow> tty_inv (fold tty_step ops s)"
  by (induction ops arbitrary: s) (simp_all add: tty_inv_step)

text \<open>C24: after any sequence of terminal calls on any descriptors, the mode tcgetattr reports is the
  mode the page's line discipline is in: raw exactly when ICANON is clear.\<close>

theorem tty_mode_agrees:
  "page_raw (fold tty_step ops osd_init) \<longleftrightarrow>
     c_lflag (tcgetattr (fold tty_step ops osd_init)) AND ICANON = 0"
  using tty_inv_run [OF tty_inv_init, of ops] by (simp add: tty_inv_def tcgetattr_def)

lemma cfmakeraw_canon: "c_lflag (cfmakeraw t) AND ICANON = 0"
  by (simp add: cfmakeraw_def and.assoc)

text \<open>The get, cfmakeraw, set idiom puts the page into raw mode, and setting the saved
  attributes again restores exactly the mode the session started from.\<close>

theorem raw_session_restores:
  assumes "fd = 0 \<or> fd = 1 \<or> fd = 2" and "s = fold tty_step ops osd_init"
  shows "page_raw (tcsetattr fd (cfmakeraw (tcgetattr s)) s) \<and>
    osd_tty_lflag (tcsetattr fd (tcgetattr s) (tcsetattr fd (cfmakeraw (tcgetattr s)) s)) = osd_tty_lflag s \<and>
    page_raw (tcsetattr fd (tcgetattr s) (tcsetattr fd (cfmakeraw (tcgetattr s)) s)) = page_raw s"
proof -
  have "tty_inv s" using assms(2) tty_inv_run [OF tty_inv_init] by simp
  with assms(1) show ?thesis
    by (auto simp: tcsetattr_def page_raw_def tcgetattr_def cfmakeraw_canon tty_inv_def)
qed

theorem raw_session_restores_witness:
  "page_raw (tcsetattr 0 (cfmakeraw (tcgetattr osd_init)) osd_init)"
  using raw_session_restores [of 0 osd_init "[]"] by simp

end
