(* ===== verification/Apk.thy ===== *)
theory Apk
  imports Apk_Tar Apk_Db Wasi_Compat
begin

text \<open>
  The apk applet, \<open>guest/busybox/upstream/miscutils/apk.c\<close>: installation, removal, upgrade and
  the command dispatch, over the world of \<open>Host_FS\<close> and the package bridges of \<open>Wasi_Compat\<close>.
\<close>

unbundle bit_operations_syntax

section \<open>Definitions\<close>

abbreviation WORLD :: cstr where "WORLD \<equiv> ''/etc/apk/world''"
abbreviation DB :: cstr where "DB \<equiv> ''/lib/apk/db/installed''"
abbreviation TARTMP :: cstr where "TARTMP \<equiv> ''/tmp/.apk.tar''"

text \<open>Code after the read treats the buffer as a C string, which ends at the first NUL.\<close>

definition read_file_or_empty :: "cstr \<Rightarrow> world \<Rightarrow> cstr" where
  "read_file_or_empty path w =
     (case read_file w path of Some b \<Rightarrow> takeWhile (\<lambda>x. x \<noteq> NUL) b | None \<Rightarrow> [])"

definition get_index :: "osd_host \<Rightarrow> int \<Rightarrow> world \<Rightarrow> cstr outcome \<times> world" where
  "get_index h force w =
     (let ((n, b), _) = osd_pkg_index h 65535 force
      in if n < 0 then (Exits 1, diag ''index unavailable'' w)
         else if n > 65535 then (Undefined, w)
         else (Returns (takeWhile (\<lambda>x. x \<noteq> NUL) (take (nat n) b)), w))"

definition append_file :: "cstr \<Rightarrow> cstr \<Rightarrow> world \<Rightarrow> unit outcome \<times> world" where
  "append_file path text w =
     (if can_create w path then (Returns (), append_node w path text)
      else xappend_file path text (snd (bb_make_directory (dirname path) True w)))"

definition write_file :: "cstr \<Rightarrow> cstr \<Rightarrow> world \<Rightarrow> unit outcome \<times> world" where
  "write_file path text w =
     xwrite_file path text (snd (bb_make_directory (dirname path) True w))"

text \<open>Sequencing: what follows runs only when the call returned.\<close>

definition andthen :: "'a outcome \<times> world \<Rightarrow> ('a \<Rightarrow> world \<Rightarrow> 'b outcome \<times> world) \<Rightarrow> 'b outcome \<times> world" where
  "andthen r k =
     (case r of (Returns x, w) \<Rightarrow> k x w | (Exits n, w) \<Rightarrow> (Exits n, w) | (Undefined, w) \<Rightarrow> (Undefined, w))"

definition install_tar_file :: "cstr \<Rightarrow> bool \<Rightarrow> world \<Rightarrow> int outcome \<times> world" where
  "install_tar_file name record_world w =
     andthen (tar_extract TARTMP w) (\<lambda>(files, pkginfo) w1.
       let w2 = unlink_file w1 TARTMP;
           pi = (case pkginfo of None \<Rightarrow> [] | Some b \<Rightarrow> takeWhile (\<lambda>x. x \<noteq> NUL) b);
           stanza = stanza_text name (pi_get pi ''pkgver'') (pi_get pi ''pkgdesc'') files
       in andthen (append_file DB stanza w2) (\<lambda>_ w3.
            andthen
              (if record_world \<and> \<not> in_lines (read_file_or_empty WORLD w3) name
               then append_file WORLD (name @ [NL]) w3 else (Returns (), w3))
              (\<lambda>_ w4. (Returns 0, print_out (''OK: '' @ name @ '' installed'' @ [NL]) w4))))"

definition do_add :: "osd_host \<Rightarrow> cstr \<Rightarrow> bool \<Rightarrow> world \<Rightarrow> int outcome \<times> world" where
  "do_add h name record_world w =
     (if strstr (read_file_or_empty DB w) (''P:'' @ name @ [NL]) \<noteq> None
      then (Returns 0, print_out (name @ '': already installed'' @ [NL]) w)
      else
        let w1 = print_out (''(1/1) Installing '' @ name @ ''...'' @ [NL]) w;
            ((r, _), w2) = osd_pkg_fetch h name TARTMP w1
        in if r \<noteq> 0 then (Returns 1, diag (name @ '': fetch failed'') w2)
           else install_tar_file name record_world w2)"

text \<open>The loop of \<open>do_del\<close> over the lines of the stanza, unlinking what its F: lines name.\<close>

function unlink_stanza :: "cstr \<Rightarrow> world \<Rightarrow> world" where
  "unlink_stanza p w =
     (if p = [] then w
      else unlink_stanza (next_line p)
             (if prefix ''F:'' p then unlink_file w (drop 2 (first_line p)) else w))"
  by pat_completeness auto
termination
  by (relation "measure (\<lambda>(p, w). length p)") (auto simp: length_next_line)

declare unlink_stanza.simps [simp del]

definition do_del :: "cstr \<Rightarrow> world \<Rightarrow> int outcome \<times> world" where
  "do_del name w =
     (case strstr (read_file_or_empty DB w) (''P:'' @ name @ [NL]) of
        None \<Rightarrow> (Returns 1, diag (name @ '': not installed'') w)
      | Some (pre, st) \<Rightarrow>
          let (stanza, rest) = stanza_split st;
              w1 = unlink_stanza stanza w
          in andthen (write_file DB (pre @ rest) w1) (\<lambda>_ w2.
               andthen
                 (case drop_world_line (read_file_or_empty WORLD w2) name of
                    Some t \<Rightarrow> write_file WORLD t w2
                  | None \<Rightarrow> (Returns (), w2))
                 (\<lambda>_ w3. (Returns 0, print_out (''OK: '' @ name @ '' removed'' @ [NL]) w3))))"

section \<open>The command dispatch\<close>

text \<open>\<open>rc |= f(arg)\<close> over the remaining arguments.\<close>

fun rc_loop :: "(cstr \<Rightarrow> world \<Rightarrow> int outcome \<times> world) \<Rightarrow> cstr list \<Rightarrow> int \<Rightarrow> world
    \<Rightarrow> int outcome \<times> world" where
  "rc_loop f [] rc w = (Returns rc, w)"
| "rc_loop f (a # as) rc w =
     andthen (f a w) (\<lambda>r w'. rc_loop f as (rc OR r) w')"

definition show_usage :: "world \<Rightarrow> int outcome \<times> world" where
  "show_usage w = (Exits 1, w)"

definition list_name :: "cstr \<Rightarrow> cstr" where
  "list_name line = takeWhile (\<lambda>c. c \<noteq> SP) (take 63 line)"

fun list_lines :: "cstr \<Rightarrow> cstr option \<Rightarrow> cstr list \<Rightarrow> world \<Rightarrow> world" where
  "list_lines db flt [] w = w"
| "list_lines db flt (line # ls) w =
     list_lines db flt ls
       (if (case flt of None \<Rightarrow> True | Some f \<Rightarrow> strstr line f \<noteq> None)
        then print_out (line @ (if strstr db (''P:'' @ list_name line @ [NL]) \<noteq> None
                                then '' [installed]'' else []) @ [NL]) w
        else w)"

definition info_line :: "cstr \<Rightarrow> cstr list \<Rightarrow> cstr option" where
  "info_line name ls =
     find (\<lambda>line. prefix name line \<and> char_at line (length name) = SP) ls"

text \<open>One world line of \<open>apk upgrade\<close>: the state threaded is the return code and the count.\<close>

definition upgrade_one :: "osd_host \<Rightarrow> cstr \<Rightarrow> cstr \<Rightarrow> cstr \<Rightarrow> int \<times> nat \<Rightarrow> world
    \<Rightarrow> (int \<times> nat) outcome \<times> world" where
  "upgrade_one h ix db line rn w =
     (case (index_ver ix line, db_ver db line) of
        (Some iv, Some dv) \<Rightarrow>
          if char_at iv 0 \<noteq> CHR ''?'' \<and> iv \<noteq> dv
          then
            let w1 = print_out (''(1/1) Upgrading '' @ line @ [SP] @ dv @ '' -> '' @ iv @ ''...'' @ [NL]) w;
                ((r, _), w2) = osd_pkg_fetch h line TARTMP w1
            in if r \<noteq> 0
               then (Returns (1, snd rn), diag (line @ '': fetch failed (old version kept)'') w2)
               else andthen (do_del line w2) (\<lambda>_ w3.
                      andthen (install_tar_file line True w3) (\<lambda>r w4.
                        (Returns (fst rn OR r, Suc (snd rn)), w4)))
          else (Returns rn, w)
      | _ \<Rightarrow> (Returns rn, w))"

fun upgrade_loop :: "osd_host \<Rightarrow> cstr \<Rightarrow> cstr \<Rightarrow> cstr list \<Rightarrow> int \<times> nat \<Rightarrow> world
    \<Rightarrow> (int \<times> nat) outcome \<times> world" where
  "upgrade_loop h ix db [] rn w = (Returns rn, w)"
| "upgrade_loop h ix db (line # ls) rn w =
     andthen (upgrade_one h ix db line rn w) (\<lambda>rn' w'. upgrade_loop h ix db ls rn' w')"

definition apk_update :: "osd_host \<Rightarrow> world \<Rightarrow> int outcome \<times> world" where
  "apk_update h w =
     andthen (get_index h 1 w) (\<lambda>ix w1.
       (Returns 0, print_out (''OK: '' @ dec_of_nat (count_list ix NL) @ '' packages available'' @ [NL]) w1))"

definition apk_list :: "osd_host \<Rightarrow> cstr option \<Rightarrow> world \<Rightarrow> int outcome \<times> world" where
  "apk_list h flt w =
     andthen (get_index h 0 w) (\<lambda>ix w1.
       (Returns 0, list_lines (read_file_or_empty DB w1) flt (strtok_lines ix) w1))"

definition apk_info :: "osd_host \<Rightarrow> cstr \<Rightarrow> world \<Rightarrow> int outcome \<times> world" where
  "apk_info h name w =
     andthen (get_index h 0 w) (\<lambda>ix w1.
       case info_line name (strtok_lines ix) of
         Some line \<Rightarrow> (Returns 0, print_out (line @ [NL]) w1)
       | None \<Rightarrow> (Returns 1, diag (name @ '': no such package'') w1))"

definition apk_add :: "osd_host \<Rightarrow> cstr list \<Rightarrow> world \<Rightarrow> int outcome \<times> world" where
  "apk_add h args w =
     (let (world, names) =
        (case args of a # as \<Rightarrow> if a = ''--no-world'' then (False, as) else (True, args) | [] \<Rightarrow> (True, []))
      in if names = [] then show_usage w else rc_loop (\<lambda>n. do_add h n world) names 0 w)"

definition apk_del :: "cstr list \<Rightarrow> world \<Rightarrow> int outcome \<times> world" where
  "apk_del args w = (if args = [] then show_usage w else rc_loop do_del args 0 w)"

definition apk_upgrade :: "osd_host \<Rightarrow> world \<Rightarrow> int outcome \<times> world" where
  "apk_upgrade h w =
     andthen (get_index h 1 w) (\<lambda>ix w1.
       andthen (upgrade_loop h ix (read_file_or_empty DB w1)
                  (strtok_lines (read_file_or_empty WORLD w1)) (0, 0) w1) (\<lambda>(rc, nup) w2.
         (Returns rc, print_out (''OK: '' @ dec_of_nat nup @ '' package(s) upgraded'' @ [NL]) w2)))"

definition apk_sync_world :: "osd_host \<Rightarrow> world \<Rightarrow> int outcome \<times> world" where
  "apk_sync_world h w =
     (let w1 = unlink_file w DB
      in rc_loop (\<lambda>n. do_add h n False) (strtok_lines (read_file_or_empty WORLD w1)) 0 w1)"

text \<open>\<open>apk_main\<close>; \<open>args\<close> is argv without the program name.\<close>

definition apk_main :: "osd_host \<Rightarrow> cstr list \<Rightarrow> world \<Rightarrow> int outcome \<times> world" where
  "apk_main h args w =
     (case args of
        [] \<Rightarrow> show_usage w
      | cmd # rest \<Rightarrow>
          if cmd = ''update'' then apk_update h w
          else if cmd = ''list'' \<or> cmd = ''search'' then
            apk_list h (case rest of [] \<Rightarrow> None | f # _ \<Rightarrow> Some f) w
          else if cmd = ''info'' then
            (case rest of [] \<Rightarrow> show_usage w | n # _ \<Rightarrow> apk_info h n w)
          else if cmd = ''add'' then apk_add h rest w
          else if cmd = ''del'' then apk_del rest w
          else if cmd = ''upgrade'' then apk_upgrade h w
          else if cmd = ''sync-world'' then apk_sync_world h w
          else show_usage w)"

section \<open>The two files and their directories\<close>

abbreviation DBP :: "cstr list" where "DBP \<equiv> [''lib'', ''apk'', ''db'', ''installed'']"
abbreviation WORLDP :: "cstr list" where "WORLDP \<equiv> [''etc'', ''apk'', ''world'']"
abbreviation TARP :: "cstr list" where "TARP \<equiv> [''tmp'', ''.apk.tar'']"

lemma resolve_apk [simp]: "resolve w DB = DBP" "resolve w WORLD = WORLDP" "resolve w TARTMP = TARP"
  by (simp_all add: resolve_def step_comp_def)

definition apk_dirs :: "world \<Rightarrow> bool" where
  "apk_dirs w \<longleftrightarrow> fs w [] = Some Directory \<and> fs w [''lib''] = Some Directory
     \<and> fs w [''lib'', ''apk''] = Some Directory \<and> fs w [''lib'', ''apk'', ''db''] = Some Directory
     \<and> fs w [''etc''] = Some Directory \<and> fs w [''etc'', ''apk''] = Some Directory
     \<and> fs w DBP \<noteq> Some Directory \<and> fs w WORLDP \<noteq> Some Directory"

lemma can_create_apk:
  "apk_dirs w \<Longrightarrow> can_create w DB" "apk_dirs w \<Longrightarrow> can_create w WORLD"
  by (simp_all add: can_create_def apk_dirs_def)

lemma mkdir_present:
  assumes "\<forall>c\<in>set cs. clean_comp c" and "cs \<noteq> []" and "\<forall>k\<le>length cs. fs w (take k cs) = Some Directory"
  shows "snd (bb_make_directory (path_str cs) True w) = w"
proof -
  have "with_dirs (fs w) [] cs = fs w" using assms(3) by (intro ext) (auto simp: with_dirs_def)
  moreover have "mkdir_ok w cs" using assms(3) by (auto simp: mkdir_ok_def dest: spec [of _ 0])
  ultimately show ?thesis using make_directory_ok [OF assms(1,2)] by simp
qed

lemma dirname_apk: "dirname DB = path_str [''lib'', ''apk'', ''db'']" "dirname WORLD = path_str [''etc'', ''apk'']"
  by (simp_all add: dirname_def)

lemma mkdir_apk:
  assumes "apk_dirs w"
  shows "snd (bb_make_directory (dirname DB) True w) = w" "snd (bb_make_directory (dirname WORLD) True w) = w"
proof -
  note dirs = assms [unfolded apk_dirs_def]
  show "snd (bb_make_directory (dirname DB) True w) = w"
    unfolding dirname_apk using dirs
    by (intro mkdir_present) (auto simp: clean_comp_def le_Suc_eq numeral_3_eq_3)
  show "snd (bb_make_directory (dirname WORLD) True w) = w"
    unfolding dirname_apk using dirs
    by (intro mkdir_present) (auto simp: clean_comp_def le_Suc_eq numeral_2_eq_2)
qed

lemma write_file_apk:
  assumes "apk_dirs w"
  shows "write_file DB t w = (Returns (), put_file w DB t)" "write_file WORLD t w = (Returns (), put_file w WORLD t)"
  using can_create_apk [OF assms] mkdir_apk [OF assms] by (simp_all add: write_file_def xwrite_file_def)

lemma append_file_apk:
  assumes "apk_dirs w"
  shows "append_file DB t w = (Returns (), append_node w DB t)"
    "append_file WORLD t w = (Returns (), append_node w WORLD t)"
  using can_create_apk [OF assms] by (simp_all add: append_file_def)

lemma apk_dirs_put:
  assumes "apk_dirs w"
  shows "apk_dirs (put_file w DB t)" "apk_dirs (put_file w WORLD t)"
    "apk_dirs (append_node w DB t)" "apk_dirs (append_node w WORLD t)"
  using assms by (simp_all add: apk_dirs_def fs_put_file append_node_def)

lemma apk_dirs_unlink: "apk_dirs w \<Longrightarrow> apk_dirs (unlink_file w p)"
  by (simp add: apk_dirs_def fs_unlink_file)

lemma apk_dirs_out [simp]: "apk_dirs (print_out s w) = apk_dirs w" "apk_dirs (diag s w) = apk_dirs w"
  by (simp_all add: apk_dirs_def)

interpretation db_file: text_file "read_file_or_empty DB" "\<lambda>t w. put_file w DB t"
  by unfold_locales (auto simp: read_file_or_empty_def read_put_file takeWhile_eq_all_conv)

interpretation world_file: text_file "read_file_or_empty WORLD" "\<lambda>t w. put_file w WORLD t"
  by unfold_locales (auto simp: read_file_or_empty_def read_put_file takeWhile_eq_all_conv)

section \<open>Removing a package\<close>

lemma unlink_stanza_Nil [simp]: "unlink_stanza [] w = w"
  by (subst unlink_stanza.simps) simp

lemma unlink_stanza_lines:
  "\<forall>l\<in>set ls. NL \<notin> set l \<Longrightarrow> unlink_stanza (unlines ls) w =
    fold (\<lambda>l w. if prefix ''F:'' l then unlink_file w (drop 2 l) else w) ls w"
proof (induction ls arbitrary: w)
  case (Cons l ls)
  have "prefix ''F:'' (l @ NL # r) \<longleftrightarrow> prefix ''F:'' l" for r
    by (cases l; cases "tl l") auto
  then show ?case using Cons by (subst unlink_stanza.simps) simp
qed simp

definition unlink_all :: "cstr list \<Rightarrow> world \<Rightarrow> world" where
  "unlink_all files w = fold (\<lambda>f w. unlink_file w f) files w"

lemma fold_unlink_files:
  "fold (\<lambda>l w. if prefix ''F:'' l then unlink_file w (drop 2 l) else w) (map (\<lambda>f. ''F:'' @ f) files) w =
    unlink_all files w"
  by (induction files arbitrary: w) (simp_all add: unlink_all_def)

lemma unlink_stanza_pkg:
  assumes "wf_pkg p"
  shows "unlink_stanza (pkg_text p) w = unlink_all (pk_files p) w"
proof -
  have "\<forall>l\<in>set (pkg_lines p @ [[]]). NL \<notin> set l" using pkg_lines_nonempty [OF assms] by auto
  from unlink_stanza_lines [OF this, of w] fold_unlink_files [of "pk_files p" w] show ?thesis
    by (simp add: pkg_text_def pkg_lines_def)
qed

lemma resolve_unlink_all [simp]: "resolve (unlink_all files w) p = resolve w p"
  by (induction files arbitrary: w) (simp_all add: unlink_all_def)

lemma fs_unlink_all:
  "fs (unlink_all files w) q = (if q \<in> resolve w ` set files \<and> fs w q \<noteq> Some Directory then None else fs w q)"
proof (induction files arbitrary: w)
  case (Cons f files)
  then show ?case by (simp add: unlink_all_def fs_unlink_file)
qed (simp add: unlink_all_def)

lemma apk_dirs_unlink_all: "apk_dirs w \<Longrightarrow> apk_dirs (unlink_all files w)"
  by (simp add: apk_dirs_def fs_unlink_all)

lemma read_unlink_all:
  "resolve w p \<notin> resolve w ` set files \<Longrightarrow> read_file (unlink_all files w) p = read_file w p"
  by (simp add: read_file_def fs_unlink_all)

lemma read_or_empty_cong: "read_file w p = read_file w' p \<Longrightarrow> read_file_or_empty p w = read_file_or_empty p w'"
  by (simp add: read_file_or_empty_def)

text \<open>The world after the database part of \<open>do_del\<close>, before the world file is looked at.\<close>

lemma do_del_db:
  assumes "apk_dirs w" and "db_file.represents w (ps @ q # qs)"
    and "\<forall>p\<in>set ps. pk_name p \<noteq> pk_name q"
    and "DBP \<notin> resolve w ` set (pk_files q)" and "WORLDP \<notin> resolve w ` set (pk_files q)"
  shows "\<exists>w2. do_del (pk_name q) w =
      andthen (case drop_world_line (read_file_or_empty WORLD w) (pk_name q) of
                 Some t \<Rightarrow> write_file WORLD t w2 | None \<Rightarrow> (Returns (), w2))
        (\<lambda>_ w3. (Returns 0, print_out (''OK: '' @ pk_name q @ '' removed'' @ [NL]) w3))
    \<and> apk_dirs w2 \<and> db_file.represents w2 (ps @ qs) \<and> read_file w2 WORLD = read_file w WORLD
    \<and> (\<forall>x. x \<noteq> DBP \<longrightarrow> fs w2 x =
         (if x \<in> resolve w ` set (pk_files q) \<and> fs w x \<noteq> Some Directory then None else fs w x))"
proof -
  have wf: "wf_pkg q" using assms(2) by (simp add: db_file.represents_def)
  let ?w1 = "unlink_all (pk_files q) w"
  let ?w2 = "put_file ?w1 DB (db_text ps @ db_text qs)"
  have d1: "apk_dirs ?w1" using assms(1) by (rule apk_dirs_unlink_all)
  from db_file.remove_represents [OF assms(2,3), of ?w1] obtain st where
    s: "strstr (read_file_or_empty DB w) (''P:'' @ pk_name q @ [NL]) = Some (db_text ps, st)"
    and sp: "stanza_split st = (pkg_text q, db_text qs)"
    and rep: "db_file.represents ?w2 (ps @ qs)" by auto
  have world: "read_file ?w2 WORLD = read_file w WORLD"
    using assms(5) by (simp add: read_put_file read_unlink_all)
  have "do_del (pk_name q) w =
      andthen (case drop_world_line (read_file_or_empty WORLD w) (pk_name q) of
                 Some t \<Rightarrow> write_file WORLD t ?w2 | None \<Rightarrow> (Returns (), ?w2))
        (\<lambda>_ w3. (Returns 0, print_out (''OK: '' @ pk_name q @ '' removed'' @ [NL]) w3))"
    using s sp
    by (simp add: do_del_def andthen_def unlink_stanza_pkg [OF wf] write_file_apk [OF d1]
        read_or_empty_cong [OF world])
  moreover have "apk_dirs ?w2" using d1 by (rule apk_dirs_put)
  moreover have "\<forall>x. x \<noteq> DBP \<longrightarrow> fs ?w2 x =
         (if x \<in> resolve w ` set (pk_files q) \<and> fs w x \<noteq> Some Directory then None else fs w x)"
    by (simp add: fs_put_file fs_unlink_all)
  ultimately show ?thesis using rep world by blast
qed

section \<open>A concrete world\<close>

definition demo_fs :: "(cstr list \<times> bytes) list \<Rightarrow> world" where
  "demo_fs files =
     \<lparr>fs = (\<lambda>q. if q \<in> set [[], [''lib''], [''lib'', ''apk''], [''lib'', ''apk'', ''db''], [''etc''],
                      [''etc'', ''apk''], [''tmp'']]
               then Some Directory else map_option RegFile (map_of files q)),
      cwd = [], out = [], diags = []\<rparr>"

definition demo_pkg :: pkg where
  "demo_pkg = \<lparr>pk_name = ''nano'', pk_ver = ''9.1'', pk_desc = ''editor'', pk_files = [''/bin/nano'']\<rparr>"

lemma demo_pkg_wf: "wf_pkg demo_pkg"
  by (simp add: wf_pkg_def demo_pkg_def clean_field_def sublist_Cons_right)

lemma demo_pkg_files: "resolve w ` set (pk_files demo_pkg) = {[''bin'', ''nano'']}"
  by (simp add: demo_pkg_def resolve_def step_comp_def)

lemma demo_db_nul: "NUL \<notin> set (db_text [demo_pkg])"
  using db_file.NUL_db_text [of "[demo_pkg]"] demo_pkg_wf by simp

definition demo_del_world :: "cstr list \<Rightarrow> world" where
  "demo_del_world ws = demo_fs [(DBP, db_text [demo_pkg]), (WORLDP, unlines ws), ([''bin'', ''nano''], ''x'')]"

lemma demo_del_world_facts:
  "apk_dirs (demo_del_world ws)"
  "read_file_or_empty DB (demo_del_world ws) = db_text [demo_pkg]"
  "read_file (demo_del_world ws) WORLD = Some (unlines ws)"
  "fs (demo_del_world ws) [''bin'', ''nano''] = Some (RegFile ''x'')"
proof -
  show "read_file_or_empty DB (demo_del_world ws) = db_text [demo_pkg]"
    using demo_db_nul by (auto simp: read_file_or_empty_def read_file_def demo_del_world_def demo_fs_def takeWhile_eq_all_conv)
qed (simp_all add: apk_dirs_def demo_del_world_def demo_fs_def read_file_def)

text \<open>C22: apk del of an installed package cuts exactly its stanza out of the database, unlinks
  exactly the files of that stanza, drops its line from a world file in which no earlier line
  ends in the same name, and touches no other path.\<close>

theorem do_del_removes:
  assumes "apk_dirs w" and "read_file_or_empty DB w = db_text (ps @ q # qs)"
    and "\<forall>p\<in>set (ps @ q # qs). wf_pkg p" and "\<forall>p\<in>set ps. pk_name p \<noteq> pk_name q"
    and "DBP \<notin> resolve w ` set (pk_files q)" and "WORLDP \<notin> resolve w ` set (pk_files q)"
    and "read_file w WORLD = Some (unlines (xs @ pk_name q # ys))" and "pk_name q \<noteq> []"
    and "\<forall>x\<in>set (xs @ ys). NL \<notin> set x \<and> NUL \<notin> set x" and "\<forall>x\<in>set xs. \<not> suffix (pk_name q) x"
  shows "\<exists>w'. do_del (pk_name q) w = (Returns 0, w') \<and> read_file_or_empty DB w' = db_text (ps @ qs)
    \<and> read_file w' WORLD = Some (unlines (xs @ ys))
    \<and> (\<forall>x. x \<noteq> DBP \<longrightarrow> x \<noteq> WORLDP \<longrightarrow> fs w' x =
         (if x \<in> resolve w ` set (pk_files q) \<and> fs w x \<noteq> Some Directory then None else fs w x))"
proof -
  have rep: "db_file.represents w (ps @ q # qs)" using assms(2,3) by (simp add: db_file.represents_def)
  have q: "NL \<notin> set (pk_name q)" "NUL \<notin> set (pk_name q)"
    using assms(3) by (auto simp: wf_pkg_def clean_field_def)
  have "NUL \<notin> set (unlines (xs @ pk_name q # ys))" using assms(9) q by (auto simp: unlines_def)
  then have rw: "read_file_or_empty WORLD w = unlines (xs @ pk_name q # ys)"
    using assms(7) by (auto simp: read_file_or_empty_def takeWhile_eq_all_conv)
  have drop: "drop_world_line (unlines (xs @ pk_name q # ys)) (pk_name q) = Some (unlines (xs @ ys))"
    using assms(8,9,10) q by (intro drop_world_line_unlines) auto
  from do_del_db [OF assms(1) rep assms(4,5,6)] obtain w2 where
    d: "do_del (pk_name q) w = andthen (write_file WORLD (unlines (xs @ ys)) w2)
        (\<lambda>_ w3. (Returns 0, print_out (''OK: '' @ pk_name q @ '' removed'' @ [NL]) w3))"
    and w2: "apk_dirs w2" "db_file.represents w2 (ps @ qs)"
    and fr: "\<forall>x. x \<noteq> DBP \<longrightarrow> fs w2 x =
         (if x \<in> resolve w ` set (pk_files q) \<and> fs w x \<noteq> Some Directory then None else fs w x)"
    unfolding rw drop by auto
  let ?w' = "print_out (''OK: '' @ pk_name q @ '' removed'' @ [NL]) (put_file w2 WORLD (unlines (xs @ ys)))"
  have "do_del (pk_name q) w = (Returns 0, ?w')"
    unfolding d write_file_apk [OF w2(1)] by (simp add: andthen_def)
  moreover have "read_file_or_empty DB ?w' = db_text (ps @ qs)"
    using w2(2) by (simp add: db_file.represents_def read_file_or_empty_def read_put_file)
  moreover have "read_file ?w' WORLD = Some (unlines (xs @ ys))" by (simp add: read_put_file)
  moreover have "\<forall>x. x \<noteq> DBP \<longrightarrow> x \<noteq> WORLDP \<longrightarrow> fs ?w' x =
         (if x \<in> resolve w ` set (pk_files q) \<and> fs w x \<noteq> Some Directory then None else fs w x)"
    using fr by (simp add: fs_put_file)
  ultimately show ?thesis by blast
qed

theorem do_del_removes_witness:
  "\<exists>w'. do_del ''nano'' (demo_del_world [''less'', ''nano'']) = (Returns 0, w') \<and>
     read_file_or_empty DB w' = [] \<and> read_file w' WORLD = Some (unlines [''less'']) \<and> fs w' [''bin'', ''nano''] = None"
proof -
  note facts = demo_del_world_facts [of "[''less'', ''nano'']"]
  from do_del_removes [of "demo_del_world [''less'', ''nano'']" "[]" demo_pkg "[]" "[''less'']" "[]"]
    facts demo_pkg_wf demo_pkg_files [of "demo_del_world [''less'', ''nano'']"]
  show ?thesis by (auto simp: demo_pkg_def suffix_def)
qed

text \<open>When the first line of the world file properly ends in the name of the package that is
  deleted, apk del reports success and removes the package, but the package's own line stays in
  the world file, so the next sync-world installs the package again.\<close>

theorem do_del_keeps_world_line:
  assumes "apk_dirs w" and "read_file_or_empty DB w = db_text (ps @ q # qs)"
    and "\<forall>p\<in>set (ps @ q # qs). wf_pkg p" and "\<forall>p\<in>set ps. pk_name p \<noteq> pk_name q"
    and "DBP \<notin> resolve w ` set (pk_files q)" and "WORLDP \<notin> resolve w ` set (pk_files q)"
    and "read_file w WORLD = Some (unlines ((a @ pk_name q) # pk_name q # ys))"
    and "a \<noteq> []" and "pk_name q \<noteq> []" and "NL \<notin> set a" and "NUL \<notin> set a"
    and "\<forall>y\<in>set ys. NL \<notin> set y \<and> NUL \<notin> set y"
  shows "\<exists>w'. do_del (pk_name q) w = (Returns 0, w') \<and> read_file_or_empty DB w' = db_text (ps @ qs)
    \<and> in_lines (read_file_or_empty WORLD w') (pk_name q)
    \<and> pk_name q \<in> set (strtok_lines (read_file_or_empty WORLD w'))"
proof -
  let ?t = "unlines ((a @ pk_name q) # pk_name q # ys)"
  have rep: "db_file.represents w (ps @ q # qs)" using assms(2,3) by (simp add: db_file.represents_def)
  have q: "NL \<notin> set (pk_name q)" "NUL \<notin> set (pk_name q)"
    using assms(3) by (auto simp: wf_pkg_def clean_field_def)
  have nul: "NUL \<notin> set ?t" using assms(11,12) q by (auto simp: unlines_def)
  then have rw: "read_file_or_empty WORLD w = ?t"
    using assms(7) by (auto simp: read_file_or_empty_def takeWhile_eq_all_conv)
  have drop: "drop_world_line ?t (pk_name q) = None"
    using assms(8,9,10) q by (intro drop_world_line_suffix) auto
  from do_del_db [OF assms(1) rep assms(4,5,6)] obtain w2 where
    d: "do_del (pk_name q) w = (Returns 0, print_out (''OK: '' @ pk_name q @ '' removed'' @ [NL]) w2)"
    and w2: "db_file.represents w2 (ps @ qs)" "read_file w2 WORLD = read_file w WORLD"
    unfolding rw drop by (auto simp: andthen_def)
  let ?w' = "print_out (''OK: '' @ pk_name q @ '' removed'' @ [NL]) w2"
  have rw': "read_file_or_empty WORLD ?w' = ?t"
    using w2(2) rw by (simp add: read_file_or_empty_def)
  have nl: "\<forall>l\<in>set ((a @ pk_name q) # pk_name q # ys). NL \<notin> set l" using assms(10,12) q by auto
  have "in_lines (read_file_or_empty WORLD ?w') (pk_name q)"
    unfolding rw' in_lines_iff [OF q(1) nul] lines_of_unlines [OF nl] by auto
  moreover have "pk_name q \<in> set (strtok_lines (read_file_or_empty WORLD ?w'))"
    unfolding rw' strtok_lines_unlines [OF nl] using assms(9) by auto
  moreover have "read_file_or_empty DB ?w' = db_text (ps @ qs)"
    using w2(1) by (simp add: db_file.represents_def read_file_or_empty_def)
  ultimately show ?thesis using d by blast
qed

theorem do_del_keeps_world_line_witness:
  "\<exists>w'. do_del ''nano'' (demo_del_world [''gnano'', ''nano'']) = (Returns 0, w') \<and>
     ''nano'' \<in> set (strtok_lines (read_file_or_empty WORLD w'))"
proof -
  note facts = demo_del_world_facts [of "[''gnano'', ''nano'']"]
  from do_del_keeps_world_line [of "demo_del_world [''gnano'', ''nano'']" "[]" demo_pkg "[]" "''g''" "[]"]
    facts demo_pkg_wf demo_pkg_files [of "demo_del_world [''gnano'', ''nano'']"]
  show ?thesis by (auto simp: demo_pkg_def)
qed

section \<open>Installing a package\<close>

text \<open>The package that an archive and its .PKGINFO fields describe.\<close>

definition archive_pkg :: "cstr \<Rightarrow> (cstr \<times> cstr) list \<Rightarrow> tar_entry list \<Rightarrow> pkg" where
  "archive_pkg name kv es =
     \<lparr>pk_name = name,
      pk_ver = (case map_of kv ''pkgver'' of Some v \<Rightarrow> v | None \<Rightarrow> ''?''),
      pk_desc = (case map_of kv ''pkgdesc'' of Some v \<Rightarrow> v | None \<Rightarrow> ''?''),
      pk_files = map (\<lambda>e. SLASH # te_name e) (regular_entries es)\<rparr>"

definition info_fields :: "(cstr \<times> cstr) list \<Rightarrow> bool" where
  "info_fields kv \<longleftrightarrow> (\<forall>(k, v)\<in>set kv. SP \<notin> set k \<and> NL \<notin> set k \<and> NUL \<notin> set k \<and> NL \<notin> set v \<and> NUL \<notin> set v)"

text \<open>A package archive at TARTMP that fits the file system and stays away from apk's own files.\<close>

definition fetched :: "world \<Rightarrow> tar_entry list \<Rightarrow> bool" where
  "fetched w es \<longleftrightarrow> (\<forall>e\<in>set es. wf_tar_entry e \<and> resolve w (SLASH # te_name e) \<noteq> TARP)
     \<and> layout_fits w (te_path ` set (regular_entries es)) \<and> distinct (map te_path (regular_entries es))
     \<and> (\<forall>e\<in>set (regular_entries es). \<forall>q\<in>{DBP, WORLDP, TARP}. \<not> prefix q (te_path e))
     \<and> fs w TARP = Some (RegFile (concat (map ustar_entry es) @ TAR_END))"

lemma tar_extract_fetched:
  assumes "apk_dirs w" and "fetched w es"
  shows "\<exists>w1. tar_extract TARTMP w = (Returns (file_lines es, info_data es None), w1) \<and> apk_dirs w1
    \<and> read_file w1 DB = read_file w DB \<and> read_file w1 WORLD = read_file w WORLD \<and> fs w1 TARP = fs w TARP
    \<and> (\<forall>e\<in>set (regular_entries es). fs w1 (te_path e) = Some (RegFile (te_data e)))"
proof -
  have f: "\<forall>e\<in>set es. wf_tar_entry e" "layout_fits w (te_path ` set (regular_entries es))"
    "distinct (map te_path (regular_entries es))" "\<forall>e\<in>set es. resolve w (SLASH # te_name e) \<noteq> resolve w TARTMP"
    "fs w (resolve w TARTMP) = Some (RegFile (concat (map ustar_entry es) @ TAR_END))"
    using assms(2) by (auto simp: fetched_def)
  have np: "\<forall>e\<in>set (regular_entries es). \<not> prefix DBP (te_path e)"
    "\<forall>e\<in>set (regular_entries es). \<not> prefix WORLDP (te_path e)"
    "\<forall>e\<in>set (regular_entries es). \<not> prefix TARP (te_path e)"
    using assms(2) by (auto simp: fetched_def)
  from tar_extract_ok [OF f] obtain w1 where
    t: "tar_extract TARTMP w = (Returns (file_lines es, info_data es None), w1)"
    and i: "\<forall>e\<in>set (regular_entries es). fs w1 (te_path e) = Some (RegFile (te_data e))"
    and fr: "\<forall>q. (\<forall>e\<in>set (regular_entries es). \<not> prefix q (te_path e)) \<longrightarrow> fs w1 q = fs w q"
    and dirs: "\<forall>q. fs w q = Some Directory \<longrightarrow> fs w1 q = Some Directory" by blast
  have "fs w1 DBP = fs w DBP" "fs w1 WORLDP = fs w WORLDP" "fs w1 TARP = fs w TARP" using fr np by blast+
  moreover from this have "apk_dirs w1" using assms(1) dirs unfolding apk_dirs_def by simp
  ultimately show ?thesis using t i by (simp add: read_file_def)
qed

lemma install_db_text:
  assumes "info_fields kv" and "info_data es None = Some (unlines (map info_entry kv))"
  shows "(case info_data es None of None \<Rightarrow> [] | Some b \<Rightarrow> takeWhile (\<lambda>x. x \<noteq> NUL) b) = unlines (map info_entry kv)"
    and "stanza_text name (pi_get (unlines (map info_entry kv)) ''pkgver'')
      (pi_get (unlines (map info_entry kv)) ''pkgdesc'') (file_lines es) = pkg_text (archive_pkg name kv es)"
proof -
  have "NUL \<notin> set (info_entry e)" if "e \<in> set kv" for e
    using assms(1) that by (cases e) (auto simp: info_fields_def)
  then have "NUL \<notin> set (unlines (map info_entry kv))"
    by (auto simp: unlines_def)
  then show "(case info_data es None of None \<Rightarrow> [] | Some b \<Rightarrow> takeWhile (\<lambda>x. x \<noteq> NUL) b) = unlines (map info_entry kv)"
    using assms(2) by (auto simp: takeWhile_eq_all_conv)
  have kv: "\<forall>(k, v)\<in>set kv. SP \<notin> set k \<and> NL \<notin> set k \<and> NL \<notin> set v"
    using assms(1) by (auto simp: info_fields_def)
  let ?p = "archive_pkg name kv es"
  have "pi_get (unlines (map info_entry kv)) ''pkgver'' = pk_ver ?p"
    "pi_get (unlines (map info_entry kv)) ''pkgdesc'' = pk_desc ?p"
    using pi_get_entries [OF _ kv] by (simp_all add: archive_pkg_def)
  moreover have "file_lines es = unlines (map (\<lambda>f. ''F:'' @ f) (pk_files ?p))"
    by (simp add: file_lines_def archive_pkg_def comp_def)
  moreover have "name = pk_name ?p" by (simp add: archive_pkg_def)
  ultimately show "stanza_text name (pi_get (unlines (map info_entry kv)) ''pkgver'')
      (pi_get (unlines (map info_entry kv)) ''pkgdesc'') (file_lines es) = pkg_text ?p"
    using stanza_text_pkg [of ?p] by metis
qed

text \<open>The lines of the world file after recording a name: a line that lists the name, with or without a version
  behind a blank, is enough.\<close>

definition world_with :: "cstr \<Rightarrow> cstr list \<Rightarrow> cstr list" where
  "world_with name ws = (if \<exists>x\<in>set ws. x = name \<or> prefix (name @ [SP]) x then ws else ws @ [name])"

lemma install_ok:
  assumes "apk_dirs w" and "fetched w es" and "info_fields kv"
    and "info_data es None = Some (unlines (map info_entry kv))" and "wf_pkg (archive_pkg name kv es)"
    and "read_file w DB = Some (db_text ps)" and "\<forall>p\<in>set ps. wf_pkg p"
    and "read_file w WORLD = Some (unlines ws)" and "\<forall>x\<in>set ws. NL \<notin> set x \<and> NUL \<notin> set x"
  shows "\<exists>w'. install_tar_file name True w = (Returns 0, w')
    \<and> read_file w' DB = Some (db_text (ps @ [archive_pkg name kv es]))
    \<and> read_file w' WORLD = Some (unlines (world_with name ws)) \<and> fs w' TARP = None \<and> apk_dirs w'
    \<and> (\<forall>e\<in>set (regular_entries es). fs w' (te_path e) = Some (RegFile (te_data e)))"
proof -
  let ?p = "archive_pkg name kv es"
  have nm: "NL \<notin> set name" "NUL \<notin> set name"
    using assms(5) by (auto simp: wf_pkg_def clean_field_def archive_pkg_def)
  have own: "te_path e \<noteq> DBP" "te_path e \<noteq> WORLDP" "te_path e \<noteq> TARP" if "e \<in> set (regular_entries es)" for e
    using assms(2) that unfolding fetched_def by auto
  from tar_extract_fetched [OF assms(1,2)] obtain w1 where
    t: "tar_extract TARTMP w = (Returns (file_lines es, info_data es None), w1)" and d1: "apk_dirs w1"
    and r1: "read_file w1 DB = Some (db_text ps)" "read_file w1 WORLD = Some (unlines ws)" "fs w1 TARP = fs w TARP"
    and f1: "\<forall>e\<in>set (regular_entries es). fs w1 (te_path e) = Some (RegFile (te_data e))"
    using assms(6,8) by auto
  let ?w2 = "unlink_file w1 TARTMP"
  let ?w3 = "append_node ?w2 DB (pkg_text ?p)"
  have d2: "apk_dirs ?w2" using d1 by (rule apk_dirs_unlink)
  then have d3: "apk_dirs ?w3" by (rule apk_dirs_put)
  have w3: "read_file ?w3 DB = Some (db_text (ps @ [?p]))" "read_file ?w3 WORLD = Some (unlines ws)"
    using r1 by (simp_all add: read_append_node read_unlink_file)
  have f3: "fs ?w3 q = fs w1 q" if "q \<noteq> DBP" "q \<noteq> TARP" for q
    using that by (simp add: append_node_def fs_put_file fs_unlink_file)
  have t3: "fs ?w3 TARP = None"
    using r1(3) assms(2) by (simp add: append_node_def fs_put_file fs_unlink_file fetched_def)
  have run: "install_tar_file name True w =
      andthen (if in_lines (read_file_or_empty WORLD ?w3) name then (Returns (), ?w3)
               else append_file WORLD (name @ [NL]) ?w3)
        (\<lambda>_ w4. (Returns 0, print_out (''OK: '' @ name @ '' installed'' @ [NL]) w4))"
    unfolding install_tar_file_def t
    by (simp add: andthen_def install_db_text [OF assms(3,4)] append_file_apk [OF d2])
  have nul: "NUL \<notin> set (unlines ws)" using assms(9) by (auto simp: unlines_def)
  then have "read_file_or_empty WORLD ?w3 = unlines ws"
    using w3(2) by (auto simp: read_file_or_empty_def takeWhile_eq_all_conv)
  then have listed: "in_lines (read_file_or_empty WORLD ?w3) name \<longleftrightarrow> (\<exists>x\<in>set ws. x = name \<or> prefix (name @ [SP]) x)"
    using in_lines_iff [OF nm(1) nul] lines_of_unlines [of ws] assms(9) by simp
  show ?thesis
  proof (cases "in_lines (read_file_or_empty WORLD ?w3) name")
    case True
    then have "world_with name ws = ws" using listed by (simp add: world_with_def)
    then show ?thesis
      using True run w3 t3 f1 f3 own d3 by (auto simp: andthen_def)
  next
    case False
    let ?w4 = "append_node ?w3 WORLD (name @ [NL])"
    have "world_with name ws = ws @ [name]" using False listed by (simp add: world_with_def)
    then have "read_file ?w4 WORLD = Some (unlines (world_with name ws))" using w3(2) by (simp add: read_append_node)
    moreover have "read_file ?w4 DB = Some (db_text (ps @ [?p]))" using w3(1) by (simp add: read_append_node)
    moreover have "fs ?w4 q = fs ?w3 q" if "q \<noteq> WORLDP" for q
      using that by (simp add: append_node_def fs_put_file)
    moreover have "apk_dirs ?w4" using d3 by (rule apk_dirs_put)
    moreover have "install_tar_file name True w =
        (Returns 0, print_out (''OK: '' @ name @ '' installed'' @ [NL]) ?w4)"
      unfolding run append_file_apk [OF d3] using False by (simp add: andthen_def)
    ultimately show ?thesis using t3 f1 f3 own
      by (intro exI [of _ "print_out (''OK: '' @ name @ '' installed'' @ [NL]) ?w4"])
        (simp add: read_file_or_empty_def)
  qed
qed

lemma fetched_paths:
  assumes "fetched w es"
  shows "resolve w1 ` set (pk_files (archive_pkg name kv es)) = te_path ` set (regular_entries es)"
proof -
  have "resolve w1 (SLASH # te_name e) = te_path e" if "e \<in> set (regular_entries es)" for e
  proof -
    have "te_path e \<noteq> []" "\<forall>c\<in>set (te_path e). clean_comp c"
      using assms that by (auto simp: fetched_def layout_fits_def)
    then show ?thesis using resolve_path_str [of "te_path e" w1] path_str_split by (simp add: te_path_def)
  qed
  then show ?thesis by (force simp: archive_pkg_def)
qed

text \<open>C21: installing a fetched archive registers the package it describes: the database gains
  exactly its stanza at the end, so that the installed version is the archive's pkgver (when the
  name was not installed before), the world file gains one line with the name exactly when no line
  listed it and is unchanged otherwise, every packed file is in place with its bytes, and the temporary
  archive is gone.\<close>

theorem install_registers:
  assumes "apk_dirs w" and "fetched w es" and "info_fields kv"
    and "info_data es None = Some (unlines (map info_entry kv))" and "wf_pkg (archive_pkg name kv es)"
    and "read_file w DB = Some (db_text ps)" and "\<forall>p\<in>set ps. wf_pkg p \<and> pk_name p \<noteq> name"
    and "read_file w WORLD = Some (unlines ws)" and "\<forall>x\<in>set ws. NL \<notin> set x \<and> NUL \<notin> set x"
  shows "\<exists>w'. install_tar_file name True w = (Returns 0, w')
    \<and> read_file w' DB = Some (db_text (ps @ [archive_pkg name kv es]))
    \<and> db_ver (read_file_or_empty DB w') name = Some (pk_ver (archive_pkg name kv es))
    \<and> in_lines (read_file_or_empty WORLD w') name \<and> read_file w' WORLD = Some (unlines (world_with name ws))
    \<and> fs w' TARP = None
    \<and> (\<forall>e\<in>set (regular_entries es). fs w' (te_path e) = Some (RegFile (te_data e)))"
proof -
  let ?p = "archive_pkg name kv es"
  have wf: "\<forall>p\<in>set (ps @ [?p]). wf_pkg p" using assms(5,7) by auto
  have nm: "NL \<notin> set name" using assms(5) by (auto simp: wf_pkg_def clean_field_def archive_pkg_def)
  have "find (\<lambda>p. pk_name p = name) ps = None" using assms(7) by (auto simp: find_None_iff)
  then have "find (\<lambda>p. pk_name p = name) (ps @ [?p]) = Some ?p"
    by (induction ps) (auto simp: archive_pkg_def split: if_splits)
  then have v: "db_ver (db_text (ps @ [?p])) name = Some (pk_ver ?p)"
    using db_ver_db_text [OF wf nm] by simp
  have e: "read_file_or_empty DB w' = db_text (ps @ [?p])" if "read_file w' DB = Some (db_text (ps @ [?p]))" for w'
    using that db_file.NUL_db_text [OF wf] by (auto simp: read_file_or_empty_def takeWhile_eq_all_conv)
  have x: "\<forall>x\<in>set (world_with name ws). NL \<notin> set x \<and> NUL \<notin> set x"
    using assms(5,9) by (auto simp: world_with_def wf_pkg_def clean_field_def archive_pkg_def)
  then have nul: "NUL \<notin> set (unlines (world_with name ws))" by (auto simp: unlines_def)
  have l: "in_lines (read_file_or_empty WORLD w') name" if "read_file w' WORLD = Some (unlines (world_with name ws))" for w'
  proof -
    have "read_file_or_empty WORLD w' = unlines (world_with name ws)"
      using that nul by (auto simp: read_file_or_empty_def takeWhile_eq_all_conv)
    then show ?thesis using in_lines_iff [OF nm nul] lines_of_unlines [of "world_with name ws"] x by (auto simp: world_with_def)
  qed
  from install_ok [OF assms(1-6) _ assms(8,9)] assms(7) v e l show ?thesis by metis
qed

definition demo_info :: tar_entry where
  "demo_info = demo_entry\<lparr>te_name := ''.PKGINFO'', te_data := unlines (map info_entry [(''pkgver'', ''1.0''), (''pkgdesc'', ''demo'')])\<rparr>"

definition demo_add_world :: world where
  "demo_add_world = demo_fs [(DBP, db_text [demo_pkg]), (WORLDP, unlines [''nano'']),
     (TARP, concat (map ustar_entry [demo_info, demo_entry]) @ TAR_END)]"

abbreviation demo_kv :: "(cstr \<times> cstr) list" where
  "demo_kv \<equiv> [(''pkgver'', ''1.0''), (''pkgdesc'', ''demo'')]"

lemma demo_regular: "regular_entries [demo_info, demo_entry] = [demo_entry]"
  by (simp add: regular_entries_def demo_info_def demo_entry_def)

lemma demo_add_world_facts:
  "apk_dirs demo_add_world" "fetched demo_add_world [demo_info, demo_entry]" "info_fields demo_kv"
  "info_data [demo_info, demo_entry] None = Some (unlines (map info_entry demo_kv))"
  "wf_pkg (archive_pkg ''hi'' demo_kv [demo_info, demo_entry])"
  "read_file demo_add_world DB = Some (db_text [demo_pkg])"
  "read_file demo_add_world WORLD = Some (unlines [''nano''])"
proof -
  show "apk_dirs demo_add_world" by (simp add: apk_dirs_def demo_add_world_def demo_fs_def)
  have "wf_tar_entry demo_info" "wf_tar_entry demo_entry"
    by (simp_all add: wf_tar_entry_def demo_info_def demo_entry_def)
  moreover have "resolve demo_add_world (SLASH # te_name demo_info) \<noteq> TARP"
    "resolve demo_add_world (SLASH # te_name demo_entry) \<noteq> TARP"
    by (simp_all add: demo_info_def demo_entry_def resolve_def step_comp_def)
  moreover have "layout_fits demo_add_world {[''bin'', ''hi'']}"
    by (auto simp: layout_fits_def mkdir_ok_def clean_comp_def demo_add_world_def demo_fs_def le_Suc_eq)
  moreover have "fs demo_add_world TARP = Some (RegFile (concat (map ustar_entry [demo_info, demo_entry]) @ TAR_END))"
    by (simp add: demo_add_world_def demo_fs_def)
  ultimately show "fetched demo_add_world [demo_info, demo_entry]"
    unfolding fetched_def demo_regular by (simp add: demo_path)
  show "info_fields demo_kv" by (simp add: info_fields_def)
  show "info_data [demo_info, demo_entry] None = Some (unlines (map info_entry demo_kv))"
    by (simp add: info_data_def demo_info_def demo_entry_def)
  show "wf_pkg (archive_pkg ''hi'' demo_kv [demo_info, demo_entry])"
    unfolding archive_pkg_def demo_regular
    by (simp add: wf_pkg_def clean_field_def demo_entry_def sublist_Cons_right)
qed (simp_all add: read_file_def demo_add_world_def demo_fs_def)

theorem install_registers_witness:
  "\<exists>w'. install_tar_file ''hi'' True demo_add_world = (Returns 0, w') \<and>
     db_ver (read_file_or_empty DB w') ''hi'' = Some ''1.0'' \<and> read_file w' WORLD = Some (unlines [''nano'', ''hi''])"
proof -
  have "\<forall>p\<in>set [demo_pkg]. wf_pkg p \<and> pk_name p \<noteq> ''hi''" using demo_pkg_wf by (simp add: demo_pkg_def)
  from install_registers [OF demo_add_world_facts(1-6) this demo_add_world_facts(7)]
  show ?thesis by (auto simp: archive_pkg_def world_with_def)
qed

text \<open>C1: adding and then deleting a package is the identity on the package database: the
  database text after the deletion is the one before the installation, and none of the package's
  files is left.\<close>

theorem add_del_roundtrip:
  assumes "apk_dirs w" and "fetched w es" and "info_fields kv"
    and "info_data es None = Some (unlines (map info_entry kv))" and "wf_pkg (archive_pkg name kv es)"
    and "read_file w DB = Some (db_text ps)" and "\<forall>p\<in>set ps. wf_pkg p \<and> pk_name p \<noteq> name"
    and "read_file w WORLD = Some (unlines ws)" and "\<forall>x\<in>set ws. NL \<notin> set x \<and> NUL \<notin> set x"
  shows "\<exists>w1 w2. install_tar_file name True w = (Returns 0, w1) \<and> do_del name w1 = (Returns 0, w2)
    \<and> read_file_or_empty DB w2 = db_text ps
    \<and> (\<forall>e\<in>set (regular_entries es). fs w1 (te_path e) = Some (RegFile (te_data e)) \<and> fs w2 (te_path e) = None)"
proof -
  let ?p = "archive_pkg name kv es"
  have wf: "\<forall>p\<in>set (ps @ [?p]). wf_pkg p" using assms(5,7) by auto
  from install_ok [OF assms(1-6) _ assms(8,9)] assms(7) obtain w1 where
    i: "install_tar_file name True w = (Returns 0, w1)" and db: "read_file w1 DB = Some (db_text (ps @ [?p]))"
    and d1: "apk_dirs w1"
    and f1: "\<forall>e\<in>set (regular_entries es). fs w1 (te_path e) = Some (RegFile (te_data e))" by blast
  have rep: "db_file.represents w1 (ps @ ?p # [])"
    using db wf db_file.NUL_db_text [OF wf]
    by (auto simp: db_file.represents_def read_file_or_empty_def takeWhile_eq_all_conv)
  have paths: "resolve w1 ` set (pk_files ?p) = te_path ` set (regular_entries es)"
    using fetched_paths [OF assms(2)] .
  have own: "DBP \<notin> resolve w1 ` set (pk_files ?p)" "WORLDP \<notin> resolve w1 ` set (pk_files ?p)"
    unfolding paths using assms(2) by (auto simp: fetched_def)
  have nm: "pk_name ?p = name" "\<forall>p\<in>set ps. pk_name p \<noteq> pk_name ?p"
    using assms(7) by (auto simp: archive_pkg_def)
  from do_del_db [OF d1 rep nm(2) own] obtain w2 where
    d: "do_del name w1 = andthen (case drop_world_line (read_file_or_empty WORLD w1) name of
            Some t \<Rightarrow> write_file WORLD t w2 | None \<Rightarrow> (Returns (), w2))
        (\<lambda>_ w3. (Returns 0, print_out (''OK: '' @ name @ '' removed'' @ [NL]) w3))"
    and d2: "apk_dirs w2" and r2: "db_file.represents w2 ps"
    and fr: "\<forall>x. x \<noteq> DBP \<longrightarrow> fs w2 x = (if x \<in> te_path ` set (regular_entries es)
       \<and> fs w1 x \<noteq> Some Directory then None else fs w1 x)"
    unfolding paths nm(1) append_Nil2 by auto
  define w3 where "w3 = (case drop_world_line (read_file_or_empty WORLD w1) name of
      Some t \<Rightarrow> put_file w2 WORLD t | None \<Rightarrow> w2)"
  have "do_del name w1 = (Returns 0, print_out (''OK: '' @ name @ '' removed'' @ [NL]) w3)"
    unfolding d w3_def by (cases "drop_world_line (read_file_or_empty WORLD w1) name")
      (simp_all add: andthen_def write_file_apk [OF d2])
  moreover have "read_file_or_empty DB w3 = db_text ps"
    using r2 unfolding w3_def db_file.represents_def
    by (simp add: read_file_or_empty_def read_put_file split: option.splits)
  moreover have "fs w3 x = fs w2 x" if "x \<noteq> WORLDP" for x
    using that by (simp add: w3_def fs_put_file split: option.split)
  moreover have "te_path e \<noteq> DBP" "te_path e \<noteq> WORLDP" if "e \<in> set (regular_entries es)" for e
    using own imageI [OF that, of te_path] unfolding paths by metis+
  ultimately show ?thesis using i f1 fr
    by (intro exI [of _ w1] exI [of _ "print_out (''OK: '' @ name @ '' removed'' @ [NL]) w3"])
      (auto simp: read_file_or_empty_def)
qed

theorem add_del_roundtrip_witness:
  "\<exists>w1 w2. install_tar_file ''hi'' True demo_add_world = (Returns 0, w1) \<and> do_del ''hi'' w1 = (Returns 0, w2) \<and>
     read_file_or_empty DB w2 = db_text [demo_pkg] \<and> fs w2 [''bin'', ''hi''] = None"
proof -
  have "\<forall>p\<in>set [demo_pkg]. wf_pkg p \<and> pk_name p \<noteq> ''hi''" using demo_pkg_wf by (simp add: demo_pkg_def)
  from add_del_roundtrip [OF demo_add_world_facts(1-6) this demo_add_world_facts(7)]
  show ?thesis unfolding demo_regular by (auto simp: demo_path)
qed

end
