(* ===== verification/Apk_Commands.thy ===== *)
theory Apk_Commands
  imports Apk
begin

text \<open>
  The commands of the apk applet as the shell sees them: return codes, a repository that cannot
  be reached, listing, and adding what is already installed.
\<close>

unbundle bit_operations_syntax

section \<open>Return codes\<close>

definition status_ok :: "int outcome \<times> world \<Rightarrow> bool" where
  "status_ok r \<longleftrightarrow> (\<forall>rc w. r = (Returns rc, w) \<longrightarrow> rc = 0 \<or> rc = 1)"

lemma andthen_Returns:
  "andthen r k = (Returns y, w') \<longleftrightarrow> (\<exists>x w. r = (Returns x, w) \<and> k x w = (Returns y, w'))"
  by (cases r; cases "fst r") (auto simp: andthen_def)

lemma status_install: "status_ok (install_tar_file name rw w)"
  by (auto simp: status_ok_def install_tar_file_def andthen_Returns Let_def case_prod_beta)

lemma status_add: "status_ok (do_add h name rw w)"
  using status_install by (auto simp: status_ok_def do_add_def Let_def split: if_splits prod.splits)

lemma status_del: "status_ok (do_del name w)"
  by (auto simp: status_ok_def do_del_def andthen_Returns Let_def split: option.splits prod.splits)

lemma status_rc_loop:
  assumes "\<And>a w. status_ok (f a w)" and "rc = 0 \<or> rc = 1"
  shows "status_ok (rc_loop f as rc w)"
  using assms(2)
proof (induction as arbitrary: rc w)
  case Nil
  then show ?case by (simp add: status_ok_def)
next
  case (Cons a as)
  show ?case unfolding status_ok_def
  proof (intro allI impI)
    fix r w' assume "rc_loop f (a # as) rc w = (Returns r, w')"
    then obtain x w1 where f: "f a w = (Returns x, w1)" and l: "rc_loop f as (rc OR x) w1 = (Returns r, w')"
      by (auto simp: andthen_Returns)
    have "x = 0 \<or> x = 1" using assms(1) [of a w] f by (simp add: status_ok_def)
    then have "rc OR x = 0 \<or> rc OR x = 1" using Cons.prems by auto
    from Cons.IH [OF this, of w1] l show "r = 0 \<or> r = 1" unfolding status_ok_def by blast
  qed
qed

lemma status_upgrade_loop:
  "upgrade_loop h ix db ls (rc, n) w = (Returns (rc', n'), w') \<Longrightarrow> rc = 0 \<or> rc = 1 \<Longrightarrow> rc' = 0 \<or> rc' = 1"
proof (induction ls arbitrary: rc n w)
  case (Cons l ls)
  then obtain rc1 n1 w1 where u: "upgrade_one h ix db l (rc, n) w = (Returns (rc1, n1), w1)"
    and l: "upgrade_loop h ix db ls (rc1, n1) w1 = (Returns (rc', n'), w')"
    by (auto simp: andthen_Returns)
  from u Cons.prems(2) status_install have "rc1 = 0 \<or> rc1 = 1"
    by (fastforce simp: upgrade_one_def Let_def andthen_Returns status_ok_def
        split: option.splits if_splits prod.splits)
  from Cons.IH [OF l this] show ?case .
qed simp

lemma status_usage: "status_ok (show_usage w)"
  by (simp add: show_usage_def status_ok_def)

lemma status_apk_add: "status_ok (apk_add h as w)"
  unfolding apk_add_def Let_def case_prod_beta
  by (simp add: status_usage status_rc_loop [OF status_add])

lemma status_apk_upgrade: "status_ok (apk_upgrade h w)"
  unfolding status_ok_def
proof (intro allI impI)
  fix r w' assume "apk_upgrade h w = (Returns r, w')"
  then obtain ix w1 rn w2 where
    "upgrade_loop h ix (read_file_or_empty DB w1) (strtok_lines (read_file_or_empty WORLD w1)) (0, 0) w1
       = (Returns rn, w2)" and "r = fst rn"
    by (auto simp: apk_upgrade_def andthen_Returns case_prod_beta)
  then show "r = 0 \<or> r = 1"
    using status_upgrade_loop [of h ix _ _ 0 0 w1 "fst rn" "snd rn" w2] by simp
qed

lemma status_apk_info: "status_ok (apk_info h n w)"
  unfolding status_ok_def apk_info_def andthen_Returns by (auto split: option.splits)

lemma status_commands:
  "status_ok (apk_add h as w)" "status_ok (apk_del as w)" "status_ok (apk_sync_world h w)"
  "status_ok (apk_upgrade h w)" "status_ok (apk_update h w)" "status_ok (apk_list h f w)" "status_ok (apk_info h n w)"
  using status_apk_add status_apk_upgrade status_apk_info
  by (simp_all add: apk_del_def apk_sync_world_def Let_def status_usage status_rc_loop [OF status_add]
      status_rc_loop [OF status_del])
    (auto simp: status_ok_def apk_update_def apk_list_def andthen_Returns)

text \<open>Whenever apk_main returns, for any command line, file system and host behaviour, its
  return value is one of the shell statuses 0 and 1.\<close>

theorem apk_main_status:
  assumes "apk_main h args w = (Returns rc, w')"
  shows "rc = 0 \<or> rc = 1"
proof -
  have "status_ok (apk_main h args w)"
    by (cases args) (simp_all add: apk_main_def status_usage status_commands split: list.splits)
  with assms show ?thesis unfolding status_ok_def by blast
qed

definition demo_dead_host :: osd_host where
  "demo_dead_host = \<lparr>host_spawn = \<lambda>_ _ _. -44, host_dup = \<lambda>_ _. -8, host_dup2 = \<lambda>_ _. -8,
     real_fcntl = \<lambda>_ _ _. -1, host_pkg_index = \<lambda>_ _. (13, ''nano 9.2 100'' @ [NL]),
     host_pkg_fetch = \<lambda>w _ _. (-6, w)\<rparr>"

theorem apk_main_status_witness:
  "\<exists>rc w'. apk_main demo_dead_host [''del'', ''vim''] empty_world = (Returns rc, w') \<and> (rc = 0 \<or> rc = 1)"
proof -
  have "read_file_or_empty DB empty_world = []"
    by (simp add: read_file_or_empty_def read_file_def empty_world_def)
  then have "apk_main demo_dead_host [''del'', ''vim''] empty_world = (Returns 1, diag (''vim: not installed'') empty_world)"
    by (simp add: apk_main_def apk_del_def do_del_def andthen_def)
  from this apk_main_status [OF this] show ?thesis by blast
qed

section \<open>A repository that cannot be reached\<close>

definition needs_upgrade :: "cstr \<Rightarrow> cstr \<Rightarrow> cstr \<Rightarrow> bool" where
  "needs_upgrade ix db line \<longleftrightarrow>
     (\<exists>iv dv. index_ver ix line = Some iv \<and> db_ver db line = Some dv \<and> char_at iv 0 \<noteq> CHR ''?'' \<and> iv \<noteq> dv)"

definition dead_repo :: "osd_host \<Rightarrow> bool" where
  "dead_repo h \<longleftrightarrow> (\<forall>w n d. fst (host_pkg_fetch h w n d) < 0 \<and> fs (snd (host_pkg_fetch h w n d)) = fs w)"

lemma upgrade_one_dead:
  assumes "dead_repo h"
  shows "\<exists>w'. upgrade_one h ix db line (rc, n) w = (Returns (if needs_upgrade ix db line then 1 else rc, n), w')
    \<and> fs w' = fs w"
proof (cases "needs_upgrade ix db line")
  case True
  then obtain iv dv where v: "index_ver ix line = Some iv" "db_ver db line = Some dv"
    "char_at iv 0 \<noteq> CHR ''?''" "iv \<noteq> dv" by (auto simp: needs_upgrade_def)
  let ?w1 = "print_out (''(1/1) Upgrading '' @ line @ [SP] @ dv @ '' -> '' @ iv @ ''...'' @ [NL]) w"
  obtain r w2 where f: "host_pkg_fetch h ?w1 line TARTMP = (r, w2)" by (cases "host_pkg_fetch h ?w1 line TARTMP")
  with assms have "r < 0" "fs w2 = fs ?w1" unfolding dead_repo_def by (metis fst_conv snd_conv)+
  with v f True show ?thesis by (simp add: upgrade_one_def osd_pkg_fetch_def)
next
  case False
  then have "upgrade_one h ix db line (rc, n) w = (Returns (rc, n), w)"
    by (auto simp: upgrade_one_def needs_upgrade_def split: option.splits)
  with False show ?thesis by simp
qed

lemma upgrade_loop_dead:
  assumes "dead_repo h"
  shows "\<exists>w'. upgrade_loop h ix db ls (rc, n) w =
    (Returns (if \<exists>l\<in>set ls. needs_upgrade ix db l then 1 else rc, n), w') \<and> fs w' = fs w"
proof (induction ls arbitrary: rc w)
  case (Cons l ls)
  from upgrade_one_dead [OF assms, of ix db l rc n w] obtain w1 where
    u: "upgrade_one h ix db l (rc, n) w = (Returns (if needs_upgrade ix db l then 1 else rc, n), w1)" "fs w1 = fs w"
    by blast
  from Cons.IH [of "if needs_upgrade ix db l then 1 else rc" w1] u show ?case
    by (auto simp: andthen_def)
qed simp

text \<open>When no package can be fetched, apk upgrade keeps every file of every installed package,
  the database and the world file as they were, and its status says whether an upgrade was
  pending.\<close>

theorem upgrade_dead_repo_keeps:
  assumes "dead_repo h" and "get_index h 1 w = (Returns ix, w)"
  shows "\<exists>w'. apk_upgrade h w =
     (Returns (if \<exists>l\<in>set (strtok_lines (read_file_or_empty WORLD w)).
                   needs_upgrade ix (read_file_or_empty DB w) l then 1 else 0), w') \<and> fs w' = fs w"
proof -
  from upgrade_loop_dead [OF assms(1), of ix "read_file_or_empty DB w" "strtok_lines (read_file_or_empty WORLD w)" 0 0 w]
  obtain w' where "upgrade_loop h ix (read_file_or_empty DB w) (strtok_lines (read_file_or_empty WORLD w)) (0, 0) w =
      (Returns (if \<exists>l\<in>set (strtok_lines (read_file_or_empty WORLD w)).
                   needs_upgrade ix (read_file_or_empty DB w) l then 1 else 0, 0), w')" "fs w' = fs w" by blast
  then show ?thesis using assms(2) by (simp add: apk_upgrade_def andthen_def)
qed

theorem upgrade_dead_repo_keeps_witness:
  "\<exists>rc w'. apk_upgrade demo_dead_host (demo_del_world [''nano'']) = (Returns rc, w') \<and>
     fs w' = fs (demo_del_world [''nano''])"
proof -
  have d: "dead_repo demo_dead_host" by (simp add: dead_repo_def demo_dead_host_def)
  have i: "get_index demo_dead_host 1 (demo_del_world [''nano'']) = (Returns (''nano 9.2 100'' @ [NL]), demo_del_world [''nano''])"
    by (simp add: get_index_def osd_pkg_index_def demo_dead_host_def)
  from upgrade_dead_repo_keeps [OF d i] show ?thesis by blast
qed

section \<open>Listing and adding\<close>

text \<open>Adding a package that is in the database touches neither the file system nor the host
  and returns success.\<close>

theorem do_add_installed:
  assumes "read_file_or_empty DB w = db_text ps" and "\<forall>p\<in>set ps. wf_pkg p"
    and "name \<in> pk_name ` set ps"
  shows "do_add h name rw w = (Returns 0, print_out (name @ '': already installed'' @ [NL]) w)"
proof -
  have rep: "db_file.represents w ps" using assms(1,2) by (simp add: db_file.represents_def)
  have "NL \<notin> set name" using assms(2,3) by (auto simp: wf_pkg_def clean_field_def)
  from db_file.installed_iff [OF rep this] assms(3) show ?thesis by (simp add: do_add_def)
qed

theorem do_add_installed_witness:
  "do_add demo_dead_host ''nano'' True (demo_del_world []) =
     (Returns 0, print_out (''nano: already installed'' @ [NL]) (demo_del_world []))"
  using do_add_installed [of "demo_del_world []" "[demo_pkg]" "''nano''" demo_dead_host True]
    demo_del_world_facts(2) [of "[]"] demo_pkg_wf
  by (simp add: demo_pkg_def)

lemma list_name_index_line:
  "SP \<notin> set n \<Longrightarrow> length n < 64 \<Longrightarrow> list_name (index_line (n, v, r)) = n"
proof -
  assume a: "SP \<notin> set n" "length n < 64"
  have t: "takeWhile (\<lambda>c. c \<noteq> SP) (n @ SP # s) = n" for s using a(1) by (induction n) auto
  show ?thesis
  proof (cases "length n = 63")
    case True
    then have "take 63 (index_line (n, v, r)) = n" by simp
    then show ?thesis using a(1) by (auto simp: list_name_def takeWhile_eq_all_conv)
  next
    case False
    with a(2) have "take 63 (index_line (n, v, r)) = n @ SP # take (62 - length n) (v @ r)"
      by (simp add: take_Cons' Suc_diff_Suc)
    then show ?thesis using t by (simp add: list_name_def)
  qed
qed

lemma list_lines_out:
  "list_lines db flt ls w = print_out (concat (map (\<lambda>line.
     if (case flt of None \<Rightarrow> True | Some f \<Rightarrow> strstr line f \<noteq> None)
     then line @ (if strstr db (''P:'' @ list_name line @ [NL]) \<noteq> None then '' [installed]'' else []) @ [NL]
     else []) ls)) w"
  by (induction ls arbitrary: w) (simp_all add: print_out_def)

text \<open>apk list prints every line of the index, in order, and marks as installed exactly the
  packages of the database, for package names of at most 63 characters.\<close>

theorem apk_list_marks:
  assumes "get_index h 0 w = (Returns (unlines (map index_line es)), w)"
    and "\<forall>e\<in>set es. wf_entry e \<and> length (fst e) < 64"
    and "read_file_or_empty DB w = db_text ps" and "\<forall>p\<in>set ps. wf_pkg p"
  shows "apk_list h None w = (Returns 0, print_out (concat (map (\<lambda>e. index_line e @
     (if fst e \<in> pk_name ` set ps then '' [installed]'' else []) @ [NL]) es)) w)"
proof -
  have rep: "db_file.represents w ps" using assms(3,4) by (simp add: db_file.represents_def)
  have "\<forall>l\<in>set (map index_line es). NL \<notin> set l" using assms(2) by fastforce
  moreover have "filter (\<lambda>l. l \<noteq> []) (map index_line es) = map index_line es"
    by (auto simp: filter_id_conv)
  ultimately have tok: "strtok_lines (unlines (map index_line es)) = map index_line es"
    using strtok_lines_unlines by metis
  have e: "strstr (db_text ps) (''P:'' @ list_name (index_line e) @ [NL]) \<noteq> None \<longleftrightarrow> fst e \<in> pk_name ` set ps"
    if "e \<in> set es" for e
  proof -
    obtain n v r where n: "e = (n, v, r)" by (cases e)
    with assms(2) that have "SP \<notin> set n" "NL \<notin> set n" "length n < 64" by auto
    then show ?thesis using db_file.installed_iff [OF rep, of n] assms(3) n list_name_index_line by simp
  qed
  have "map (\<lambda>e. index_line e @ (if strstr (db_text ps) (''P:'' @ list_name (index_line e) @ [NL]) \<noteq> None
        then '' [installed]'' else []) @ [NL]) es =
      map (\<lambda>e. index_line e @ (if fst e \<in> pk_name ` set ps then '' [installed]'' else []) @ [NL]) es"
    using e by (intro map_cong) simp_all
  then have "concat (map (\<lambda>line. line @ (if strstr (db_text ps) (''P:'' @ list_name line @ [NL]) \<noteq> None
        then '' [installed]'' else []) @ [NL]) (map index_line es)) =
      concat (map (\<lambda>e. index_line e @ (if fst e \<in> pk_name ` set ps then '' [installed]'' else []) @ [NL]) es)"
    unfolding map_map comp_def by (rule arg_cong)
  moreover have "apk_list h None w = (Returns 0, list_lines (db_text ps) None (map index_line es) w)"
    using assms(1,3) by (simp add: apk_list_def andthen_def tok)
  ultimately show ?thesis unfolding list_lines_out option.case if_True by (simp only:)
qed

theorem apk_list_marks_witness:
  "apk_list demo_dead_host None (demo_del_world []) =
     (Returns 0, print_out (''nano 9.2 100 [installed]'' @ [NL]) (demo_del_world []))"
proof -
  have "get_index demo_dead_host 0 (demo_del_world []) =
      (Returns (unlines (map index_line [(''nano'', ''9.2'', '' 100'')])), demo_del_world [])"
    by (simp add: get_index_def osd_pkg_index_def demo_dead_host_def)
  moreover have "\<forall>e\<in>set [(''nano'', ''9.2'', '' 100'')]. wf_entry e \<and> length (fst e) < 64" by simp
  ultimately show ?thesis
    using apk_list_marks [of demo_dead_host "demo_del_world []" "[(''nano'', ''9.2'', '' 100'')]" "[demo_pkg]"]
      demo_del_world_facts(2) [of "[]"] demo_pkg_wf
    by (simp add: demo_pkg_def)
qed

section \<open>Which packages are upgraded\<close>

text \<open>The upgrade test of apk, on the texts of a well-formed index and database, is the
  comparison of the two version fields: a package is fetched exactly when both texts know it, the
  index has a version that is not the unknown one, and the versions differ.\<close>

theorem needs_upgrade_iff:
  assumes "\<forall>e\<in>set es. wf_entry e" and "\<forall>p\<in>set ps. wf_pkg p" and "SP \<notin> set name" and "NL \<notin> set name"
  shows "needs_upgrade (unlines (map index_line es)) (db_text ps) name \<longleftrightarrow>
    (\<exists>e p. find (\<lambda>e. fst e = name) es = Some e \<and> find (\<lambda>p. pk_name p = name) ps = Some p \<and>
       char_at (fst (snd e)) 0 \<noteq> CHR ''?'' \<and> fst (snd e) \<noteq> pk_ver p)"
proof -
  have i: "index_ver (unlines (map index_line es)) name = map_option (\<lambda>e. fst (snd e)) (find (\<lambda>e. fst e = name) es)"
    using index_ver_entries [OF assms(3,1)] .
  have d: "db_ver (db_text ps) name = map_option pk_ver (find (\<lambda>p. pk_name p = name) ps)"
    using db_ver_db_text assms(2,4) by blast
  show ?thesis unfolding needs_upgrade_def i d by (auto simp del: find_Some_iff find_Some_iff2)
qed

theorem needs_upgrade_iff_witness:
  "needs_upgrade (unlines (map index_line [(''nano'', ''9.2'', '' 100'')])) (db_text [demo_pkg]) ''nano''"
proof -
  have "needs_upgrade (unlines (map index_line [(''nano'', ''9.2'', '' 100'')])) (db_text [demo_pkg]) ''nano'' \<longleftrightarrow>
    (\<exists>e p. find (\<lambda>e. fst e = ''nano'') [(''nano'', ''9.2'', '' 100'')] = Some e \<and>
       find (\<lambda>p. pk_name p = ''nano'') [demo_pkg] = Some p \<and>
       char_at (fst (snd e)) 0 \<noteq> CHR ''?'' \<and> fst (snd e) \<noteq> pk_ver p)"
    by (rule needs_upgrade_iff) (use demo_pkg_wf in \<open>simp_all\<close>)
  then show ?thesis by (simp add: demo_pkg_def)
qed

end
