(* ===== verification/Doom_Input.thy ===== *)
theory Doom_Input
  imports Prelude "HOL-Library.Word" "HOL-Library.Multiset"
begin

text \<open>
  The keyboard of the DOOM port, \<open>guest/pkgs/doom/doomgeneric_osmoap.c\<close>: the clock, the table of
  held keys, the ring buffer of press events, the translation of terminal bytes and
  \<open>DG_GetKey\<close>.  The terminal sends no key-up events: a key counts as held for \<open>g_hold_ms\<close> after
  its last byte and its release is synthesised.  The key codes of doomkeys.h are not part of the
  repository and are a parameter; the terminal is the list of the results of successive
  \<open>rd_byte\<close> calls (\<open>None\<close> is the -1 of a timeout or end of input).
\<close>

unbundle bit_operations_syntax

type_synonym u8 = "8 word"
type_synonym ms32 = "32 word"

record doom_keys =
  KEY_UPARROW :: u8
  KEY_DOWNARROW :: u8
  KEY_LEFTARROW :: u8
  KEY_RIGHTARROW :: u8
  KEY_STRAFE_L :: u8
  KEY_STRAFE_R :: u8
  KEY_FIRE :: u8
  KEY_USE :: u8
  KEY_RSHIFT :: u8
  KEY_ENTER :: u8
  KEY_TAB :: u8
  KEY_ESCAPE :: u8

text \<open>\<open>g_held\<close> holds the used part of the array, so its length is \<open>g_nheld\<close>.\<close>

record keyboard =
  g_held :: "(u8 \<times> ms32) list"
  g_evq :: "u8 list"
  g_evh :: nat
  g_evt :: nat
  g_hold_ms :: ms32

abbreviation HELD_MAX :: nat where "HELD_MAX \<equiv> 16"

definition keyboard_init :: keyboard where
  "keyboard_init = \<lparr>g_held = [], g_evq = replicate 64 0, g_evh = 0, g_evt = 0, g_hold_ms = 550\<rparr>"

section \<open>Time\<close>

definition DG_GetTicksMs :: "nat \<Rightarrow> nat \<Rightarrow> ms32" where
  "DG_GetTicksMs tv_sec tv_nsec = of_nat ((tv_sec * 1000 + tv_nsec div 1000000) mod 2 ^ 64)"

definition DG_SleepMs :: "ms32 \<Rightarrow> ms32 \<times> ms32" where
  "DG_SleepMs ms = (ms div 1000, (ms mod 1000) * 1000000)"

section \<open>Keys\<close>

definition ev_push :: "u8 \<Rightarrow> keyboard \<Rightarrow> keyboard" where
  "ev_push k d =
     (let nt = (g_evt d + 1) AND 63
      in if nt \<noteq> g_evh d then d\<lparr>g_evq := (g_evq d)[g_evt d := k], g_evt := nt\<rparr> else d)"

fun touch_held :: "u8 \<Rightarrow> ms32 \<Rightarrow> (u8 \<times> ms32) list \<Rightarrow> (u8 \<times> ms32) list option" where
  "touch_held k now [] = None"
| "touch_held k now ((k', l) # hs) =
     (if k' = k then Some ((k', now) # hs) else map_option (Cons (k', l)) (touch_held k now hs))"

definition key_touch :: "u8 \<Rightarrow> ms32 \<Rightarrow> keyboard \<Rightarrow> keyboard" where
  "key_touch k now d =
     (case touch_held k now (g_held d) of
        Some hs \<Rightarrow> d\<lparr>g_held := hs\<rparr>
      | None \<Rightarrow> if length (g_held d) < HELD_MAX
                then ev_push k (d\<lparr>g_held := g_held d @ [(k, now)]\<rparr>) else d)"

type_synonym tty = "u8 option list"

fun rd_byte :: "tty \<Rightarrow> u8 option \<times> tty" where
  "rd_byte [] = (None, [])"
| "rd_byte (r # t) = (r, t)"

abbreviation asc :: "char \<Rightarrow> u8" where "asc c \<equiv> of_char c"

definition map_key :: "doom_keys \<Rightarrow> u8 \<Rightarrow> u8" where
  "map_key K c =
     (if c = asc (CHR ''w'') \<or> c = asc (CHR ''W'') then KEY_UPARROW K
      else if c = asc (CHR ''s'') \<or> c = asc (CHR ''S'') then KEY_DOWNARROW K
      else if c = asc (CHR ''a'') \<or> c = asc (CHR ''A'') then KEY_STRAFE_L K
      else if c = asc (CHR ''d'') \<or> c = asc (CHR ''D'') then KEY_STRAFE_R K
      else if c = asc (CHR '' '') then KEY_FIRE K
      else if c = asc (CHR ''e'') \<or> c = asc (CHR ''E'') then KEY_USE K
      else if c = asc (CHR ''r'') \<or> c = asc (CHR ''R'') then KEY_RSHIFT K
      else if c = 13 \<or> c = 10 then KEY_ENTER K
      else if c = 9 then KEY_TAB K
      else if (asc (CHR ''1'') \<le> c \<and> c \<le> asc (CHR ''8'')) \<or> c = asc (CHR ''y'') \<or> c = asc (CHR ''n'')
              \<or> c = asc (CHR ''p'') then c
      else 0)"

definition csi_key :: "doom_keys \<Rightarrow> u8 option \<Rightarrow> u8" where
  "csi_key K r =
     (if r = Some (asc (CHR ''A'')) then KEY_UPARROW K
      else if r = Some (asc (CHR ''B'')) then KEY_DOWNARROW K
      else if r = Some (asc (CHR ''C'')) then KEY_RIGHTARROW K
      else if r = Some (asc (CHR ''D'')) then KEY_LEFTARROW K
      else 0)"

text \<open>One turn of the loop of \<open>pump_input\<close> for the byte \<open>c\<close>: the key and the rest of the terminal.\<close>

definition decode_key :: "doom_keys \<Rightarrow> u8 \<Rightarrow> tty \<Rightarrow> u8 \<times> tty" where
  "decode_key K c t =
     (if c = 0x1b then
        (case rd_byte t of
           (None, t1) \<Rightarrow> (KEY_ESCAPE K, t1)
         | (Some c2, t1) \<Rightarrow>
             if c2 = asc (CHR ''['') then (let (r, t2) = rd_byte t1 in (csi_key K r, t2))
             else (map_key K c2, t1))
      else (map_key K c, t))"

lemma length_decode_key: "length (snd (decode_key K c t)) \<le> length t"
proof -
  have r: "length (snd (rd_byte t)) \<le> length t" for t by (cases t) auto
  obtain b t1 where t: "rd_byte t = (b, t1)" by (cases "rd_byte t")
  then show ?thesis using r [of t] r [of t1]
    by (auto simp: decode_key_def split: option.splits prod.splits)
qed

function pump_input :: "doom_keys \<Rightarrow> ms32 \<Rightarrow> tty \<Rightarrow> keyboard \<Rightarrow> unit outcome \<times> tty \<times> keyboard" where
  "pump_input K now [] d = (Returns (), [], d)"
| "pump_input K now (None # t) d = (Returns (), t, d)"
| "pump_input K now (Some c # t) d =
     (if c = 0x03 then (Exits 0, t, d)
      else let (k, t') = decode_key K c t
           in pump_input K now t' (if k \<noteq> 0 then key_touch k now d else d))"
  by pat_completeness auto
termination
proof (relation "measure (\<lambda>(K, now, t, d). length t)", simp)
  fix K :: doom_keys and now :: ms32 and c t d x k t'
  assume "x = decode_key K c t" and "(k, t') = x"
  then show "((K, now, t', if k \<noteq> 0 then key_touch k now d else d), K, now, Some c # t, d)
      \<in> measure (\<lambda>(K, now, t, d). length t)"
    using length_decode_key [of K c t] by simp (metis snd_conv le_imp_less_Suc)
qed

text \<open>\<open>DG_GetKey\<close>: the pop of the ring buffer, the scan for an expired hold, and the whole call.\<close>

definition ev_pop :: "keyboard \<Rightarrow> (u8 \<times> keyboard) option" where
  "ev_pop d =
     (if g_evh d \<noteq> g_evt d
      then Some (g_evq d ! g_evh d, d\<lparr>g_evh := (g_evh d + 1) AND 63\<rparr>) else None)"

definition expired :: "keyboard \<Rightarrow> ms32 \<Rightarrow> u8 \<times> ms32 \<Rightarrow> bool" where
  "expired d now h \<longleftrightarrow> now - snd h > g_hold_ms d"

text \<open>\<open>g_held[i] = g_held[--g_nheld]\<close>.\<close>

definition swap_remove :: "nat \<Rightarrow> 'a list \<Rightarrow> 'a list" where
  "swap_remove i xs = butlast (xs[i := last xs])"

fun first_index :: "('a \<Rightarrow> bool) \<Rightarrow> 'a list \<Rightarrow> nat option" where
  "first_index P [] = None"
| "first_index P (x # xs) = (if P x then Some 0 else map_option Suc (first_index P xs))"

definition next_event :: "ms32 \<Rightarrow> keyboard \<Rightarrow> (bool \<times> u8) option \<times> keyboard" where
  "next_event now d =
     (case ev_pop d of
        Some (k, d') \<Rightarrow> (Some (True, k), d')
      | None \<Rightarrow>
          (case first_index (expired d now) (g_held d) of
             Some i \<Rightarrow> (Some (False, fst (g_held d ! i)), d\<lparr>g_held := swap_remove i (g_held d)\<rparr>)
           | None \<Rightarrow> (None, d)))"

definition DG_GetKey :: "doom_keys \<Rightarrow> ms32 \<Rightarrow> tty \<Rightarrow> keyboard
    \<Rightarrow> (bool \<times> u8) option outcome \<times> tty \<times> keyboard" where
  "DG_GetKey K now t d =
     (case pump_input K now t d of
        (Returns _, t', d') \<Rightarrow> (let (e, d'') = next_event now d' in (Returns e, t', d''))
      | (Exits n, t', d') \<Rightarrow> (Exits n, t', d')
      | (Undefined, t', d') \<Rightarrow> (Undefined, t', d'))"

section \<open>The ring buffer as a bounded queue\<close>

text \<open>The contract of a queue with room for \<open>room\<close> elements.\<close>

locale bounded_queue =
  fixes qinv :: "'s \<Rightarrow> bool" and content :: "'s \<Rightarrow> 'a list"
    and push :: "'a \<Rightarrow> 's \<Rightarrow> 's" and pop :: "'s \<Rightarrow> ('a \<times> 's) option" and room :: nat
  assumes push_inv: "qinv s \<Longrightarrow> qinv (push k s)"
    and push_content: "qinv s \<Longrightarrow> length (content s) < room \<Longrightarrow> content (push k s) = content s @ [k]"
    and pop_empty: "qinv s \<Longrightarrow> pop s = None \<longleftrightarrow> content s = []"
    and pop_content: "qinv s \<Longrightarrow> pop s = Some (k, s') \<Longrightarrow> qinv s' \<and> content s = k # content s'"
begin

lemma push_all:
  "qinv s \<Longrightarrow> length (content s) + length ks \<le> room \<Longrightarrow>
    qinv (fold push ks s) \<and> content (fold push ks s) = content s @ ks"
  by (induction ks arbitrary: s) (auto simp: push_inv push_content)

lemma pop_hd:
  assumes "qinv s" and "content s = k # ks"
  shows "\<exists>s'. pop s = Some (k, s') \<and> qinv s' \<and> content s' = ks"
proof -
  from assms pop_empty obtain k' s' where p: "pop s = Some (k', s')" by (cases "pop s") auto
  with pop_content [OF assms(1) p] assms(2) show ?thesis by auto
qed

end

lemma and_63: "(n :: nat) AND 63 = n mod 64"
proof -
  have "n AND 63 = take_bit 6 n" by (simp add: take_bit_eq_mask mask_eq_exp_minus_1)
  then show ?thesis by (simp add: take_bit_eq_mod)
qed

definition ring_inv :: "keyboard \<Rightarrow> bool" where
  "ring_inv d \<longleftrightarrow> length (g_evq d) = 64 \<and> g_evh d < 64 \<and> g_evt d < 64"

definition ring_length :: "keyboard \<Rightarrow> nat" where
  "ring_length d = (g_evt d + 64 - g_evh d) mod 64"

definition ring_content :: "keyboard \<Rightarrow> u8 list" where
  "ring_content d = map (\<lambda>i. g_evq d ! ((g_evh d + i) mod 64)) [0..<ring_length d]"

lemma length_ring_content [simp]: "length (ring_content d) = ring_length d"
  by (simp add: ring_content_def)

text \<open>Positions modulo 64 as case distinctions, so that linear arithmetic decides the rest.\<close>

lemma ring_dist:
  assumes "h < 64" and "t < (64 :: nat)"
  shows "(t + 64 - h) mod 64 = (if h \<le> t then t - h else t + 64 - h)"
proof (cases "h \<le> t")
  case True
  then have "t + 64 - h = (t - h) + 64" by linarith
  then have "(t + 64 - h) mod 64 = (t - h) mod 64" by (simp only: mod_add_self2)
  also have "\<dots> = t - h" using assms(2) by (intro mod_less) linarith
  finally show ?thesis using True by simp
next
  case False
  then show ?thesis using assms by (simp only: if_False) (intro mod_less, linarith)
qed

lemma ring_add:
  assumes "h < 64" and "i < (64 :: nat)"
  shows "(h + i) mod 64 = (if h + i < 64 then h + i else h + i - 64)"
proof (cases "h + i < 64")
  case False
  then have "(h + i) mod 64 = (h + i - 64) mod 64" using mod_add_self2 [of "h + i - 64" 64] by simp
  also have "\<dots> = h + i - 64" using assms by (intro mod_less) linarith
  finally show ?thesis using False by simp
qed simp

lemma ring_succ: "t < (64 :: nat) \<Longrightarrow> (t + 1) mod 64 = (if t = 63 then 0 else t + 1)"
  by (cases "t = 63") simp_all

lemma ring_positions:
  assumes "h < 64" and "t < (64 :: nat)"
  shows ring_next_neq: "(t + 64 - h) mod 64 < 63 \<Longrightarrow> (t + 1) mod 64 \<noteq> h"
    and ring_length_push: "(t + 64 - h) mod 64 < 63 \<Longrightarrow>
      ((t + 1) mod 64 + 64 - h) mod 64 = Suc ((t + 64 - h) mod 64)"
    and ring_slot: "(h + (t + 64 - h) mod 64) mod 64 = t"
    and ring_slot_neq: "i < (t + 64 - h) mod 64 \<Longrightarrow> (h + i) mod 64 \<noteq> t"
    and ring_length_pop: "h \<noteq> t \<Longrightarrow> (t + 64 - h) mod 64 = Suc ((t + 64 - (h + 1) mod 64) mod 64)"
    and ring_length_0: "(t + 64 - h) mod 64 = 0 \<longleftrightarrow> h = t"
proof -
  note d = ring_dist [OF assms]
  have lt: "(n :: nat) mod 64 < 64" for n by simp
  note dt = ring_dist [OF assms(1) lt [of "t + 1"]] and dh = ring_dist [OF lt [of "h + 1"] assms(2)]
  show "(t + 1) mod 64 \<noteq> h" if "(t + 64 - h) mod 64 < 63"
    using that assms unfolding d ring_succ [OF assms(2)] by (auto split: if_splits)
  show "((t + 1) mod 64 + 64 - h) mod 64 = Suc ((t + 64 - h) mod 64)" if "(t + 64 - h) mod 64 < 63"
    using that assms unfolding dt unfolding d ring_succ [OF assms(2)] by (auto split: if_splits)
  show "(h + (t + 64 - h) mod 64) mod 64 = t"
    using assms unfolding ring_add [OF assms(1) lt [of "t + 64 - h"]] d by (auto split: if_splits)
  show "(t + 64 - h) mod 64 = Suc ((t + 64 - (h + 1) mod 64) mod 64)" if "h \<noteq> t"
    using that assms unfolding dh unfolding d ring_succ [OF assms(1)] by (auto split: if_splits)
  show "(t + 64 - h) mod 64 = 0 \<longleftrightarrow> h = t"
    using assms unfolding d by (auto split: if_splits)
  show "(h + i) mod 64 \<noteq> t" if "i < (t + 64 - h) mod 64"
  proof -
    from that lt [of "t + 64 - h"] have "i < 64" by linarith
    from ring_add [OF assms(1) this] that show ?thesis
      unfolding d using assms by (auto split: if_splits)
  qed
qed

interpretation ring: bounded_queue ring_inv ring_content ev_push ev_pop 63
proof
  fix d :: keyboard and k
  assume inv: "ring_inv d"
  then show "ring_inv (ev_push k d)" by (simp add: ring_inv_def ev_push_def Let_def and_63)
  from inv have r: "length (g_evq d) = 64" "g_evh d < 64" "g_evt d < 64" by (simp_all add: ring_inv_def)
  show "ev_pop d = None \<longleftrightarrow> ring_content d = []"
    using ring_length_0 [OF r(2,3)] by (simp add: ev_pop_def ring_content_def ring_length_def)
  {
    assume room: "length (ring_content d) < 63"
    let ?d = "ev_push k d"
    from ring_next_neq [OF r(2,3)] room have d: "?d = d\<lparr>g_evq := (g_evq d)[g_evt d := k], g_evt := (g_evt d + 1) mod 64\<rparr>"
      by (simp add: ev_push_def and_63 ring_length_def)
    have n: "ring_length ?d = Suc (ring_length d)"
      using ring_length_push [OF r(2,3)] room by (simp add: d ring_length_def)
    show "ring_content ?d = ring_content d @ [k]"
    proof (rule nth_equalityI)
      fix i assume "i < length (ring_content ?d)"
      then have i: "i < Suc (ring_length d)" by (simp add: n)
      show "ring_content ?d ! i = (ring_content d @ [k]) ! i"
      proof (cases "i = ring_length d")
        case True
        then show ?thesis using n r ring_slot [OF r(2,3)]
          by (simp add: ring_content_def nth_append d ring_length_def)
      next
        case False
        with i have "i < ring_length d" by simp
        moreover from this have "(g_evh d + i) mod 64 \<noteq> g_evt d"
          using ring_slot_neq [OF r(2,3)] by (simp add: ring_length_def)
        ultimately show ?thesis using n r by (simp add: ring_content_def nth_append d)
      qed
    qed (simp add: n)
  }
  {
    fix d' assume "ev_pop d = Some (k, d')"
    then have p: "g_evh d \<noteq> g_evt d" "k = g_evq d ! g_evh d" "d' = d\<lparr>g_evh := (g_evh d + 1) mod 64\<rparr>"
      by (auto simp: ev_pop_def and_63 split: if_splits)
    have n: "ring_length d = Suc (ring_length d')"
      using ring_length_pop [OF r(2,3) p(1)] by (simp add: ring_length_def p(3))
    have "ring_content d = k # ring_content d'"
    proof (rule nth_equalityI)
      fix i assume "i < length (ring_content d)"
      then have i: "i < Suc (ring_length d')" by (simp add: n)
      show "ring_content d ! i = (k # ring_content d') ! i"
      proof (cases i)
        case 0
        then show ?thesis using n r p by (simp add: ring_content_def del: upt_Suc)
      next
        case (Suc j)
        have "(g_evh d + Suc j) mod 64 = ((g_evh d + 1) mod 64 + j) mod 64"
          by (metis add.assoc add.commute mod_add_left_eq plus_1_eq_Suc)
        then show ?thesis using Suc i n p by (simp add: ring_content_def del: upt_Suc)
      qed
    qed (simp add: n)
    with r p show "ring_inv d' \<and> ring_content d = k # ring_content d'" by (simp add: ring_inv_def)
  }
qed

section \<open>The table of held keys\<close>

abbreviation held_keys :: "keyboard \<Rightarrow> u8 list" where
  "held_keys d \<equiv> map fst (g_held d)"

lemma touch_held_None: "touch_held k now hs = None \<longleftrightarrow> k \<notin> set (map fst hs)"
proof (induction hs)
  case (Cons h hs)
  then show ?case by (cases h) simp
qed simp

lemma touch_held_Some: "touch_held k now hs = Some hs' \<Longrightarrow> map fst hs' = map fst hs"
  by (induction hs arbitrary: hs') (auto split: if_splits)

lemma map_swap_remove:
  assumes "i < length xs"
  shows "map f (swap_remove i xs) = swap_remove i (map f xs)"
  using assms by (cases xs rule: rev_cases) (auto simp: swap_remove_def map_butlast map_update)

lemma swap_remove_mset:
  assumes "i < length xs"
  shows "mset (swap_remove i xs) = mset xs - {#xs ! i#}"
proof (cases xs rule: rev_cases)
  case (snoc ys z)
  show ?thesis
  proof (cases "i = length ys")
    case True
    then show ?thesis using snoc by (simp add: swap_remove_def)
  next
    case False
    with assms snoc have i: "i < length ys" by simp
    then have "swap_remove i xs = ys[i := z]" using snoc by (simp add: swap_remove_def list_update_append)
    then show ?thesis using snoc i by (simp add: mset_update nth_append)
  qed
qed (use assms in simp)

lemma swap_remove_distinct:
  assumes "i < length xs" and "distinct xs"
  shows "distinct (swap_remove i xs)" and "set (swap_remove i xs) = set xs - {xs ! i}"
proof -
  have "mset (swap_remove i xs) = mset (remove1 (xs ! i) xs)"
    using swap_remove_mset [OF assms(1)] by simp
  then show "distinct (swap_remove i xs)" "set (swap_remove i xs) = set xs - {xs ! i}"
    using assms(2) by (metis mset_eq_imp_distinct_iff distinct_remove1, metis mset_eq_setD set_remove1_eq)
qed

lemma length_swap_remove: "i < length xs \<Longrightarrow> length (swap_remove i xs) = length xs - 1"
  by (simp add: swap_remove_def)

lemma first_index_Some: "first_index P xs = Some i \<Longrightarrow> i < length xs \<and> P (xs ! i)"
  by (induction xs arbitrary: i) (auto split: if_splits)

lemma first_index_None: "first_index P xs = None \<longleftrightarrow> (\<forall>x\<in>set xs. \<not> P x)"
  by (induction xs) auto

section \<open>The keyboard invariant\<close>

definition kb_inv :: "keyboard \<Rightarrow> bool" where
  "kb_inv d \<longleftrightarrow> ring_inv d \<and> distinct (held_keys d) \<and> length (g_held d) \<le> HELD_MAX
     \<and> distinct (ring_content d) \<and> set (ring_content d) \<subseteq> set (held_keys d)"

text \<open>The keys the engine has been told are down: held, with the press event delivered.\<close>

definition keys_down :: "keyboard \<Rightarrow> u8 set" where
  "keys_down d = set (held_keys d) - set (ring_content d)"

text \<open>The keyboard behind \<open>DG_Init\<close>, which may set another hold time.\<close>

abbreviation keyboard_start :: "ms32 \<Rightarrow> keyboard" where
  "keyboard_start hold \<equiv> keyboard_init\<lparr>g_hold_ms := hold\<rparr>"

lemma kb_inv_init: "kb_inv (keyboard_start hold)" "keys_down (keyboard_start hold) = {}"
  by (simp_all add: kb_inv_def keys_down_def keyboard_init_def ring_inv_def ring_content_def ring_length_def)

lemma ring_only:
  "g_evq d' = g_evq d \<Longrightarrow> g_evh d' = g_evh d \<Longrightarrow> g_evt d' = g_evt d \<Longrightarrow>
    ring_content d' = ring_content d \<and> ring_inv d' = ring_inv d"
  by (simp add: ring_content_def ring_length_def ring_inv_def)

lemma ring_held [simp]:
  "ring_content (d\<lparr>g_held := hs\<rparr>) = ring_content d" "ring_inv (d\<lparr>g_held := hs\<rparr>) = ring_inv d"
  using ring_only [of "d\<lparr>g_held := hs\<rparr>" d] by simp_all

lemma held_push [simp]: "g_held (ev_push k d) = g_held d" "g_hold_ms (ev_push k d) = g_hold_ms d"
  by (simp_all add: ev_push_def Let_def)

lemma ring_length_le:
  assumes "kb_inv d"
  shows "ring_length d \<le> length (g_held d)"
proof -
  from assms have "distinct (ring_content d)" "set (ring_content d) \<subseteq> set (held_keys d)"
    by (simp_all add: kb_inv_def)
  then have "length (ring_content d) \<le> card (set (held_keys d))"
    by (metis distinct_card card_mono List.finite_set)
  also have "\<dots> \<le> length (g_held d)" by (metis card_length length_map)
  finally show ?thesis by simp
qed

text \<open>A press that enters the table always enters the ring as well: the ring is never full.\<close>

lemma key_touch_new:
  assumes "kb_inv d" and "k \<notin> set (held_keys d)" and "length (g_held d) < HELD_MAX"
  shows "ring_content (key_touch k now d) = ring_content d @ [k]"
    and "g_held (key_touch k now d) = g_held d @ [(k, now)]"
    and "ring_inv (key_touch k now d)"
proof -
  let ?d = "d\<lparr>g_held := g_held d @ [(k, now)]\<rparr>"
  have t: "key_touch k now d = ev_push k ?d"
    using assms(2,3) touch_held_None [of k now "g_held d"] by (simp add: key_touch_def)
  have r: "ring_inv ?d" "length (ring_content ?d) < 63"
    using assms(1,3) ring_length_le [OF assms(1)] by (simp_all add: kb_inv_def)
  from ring.push_content [OF r] ring.push_inv [OF r(1)] show
    "ring_content (key_touch k now d) = ring_content d @ [k]"
    "g_held (key_touch k now d) = g_held d @ [(k, now)]" "ring_inv (key_touch k now d)"
    unfolding t by simp_all
qed

lemma key_touch_inv:
  assumes "kb_inv d"
  shows "kb_inv (key_touch k now d) \<and> keys_down (key_touch k now d) = keys_down d"
proof (cases "touch_held k now (g_held d)")
  case (Some hs)
  then have "key_touch k now d = d\<lparr>g_held := hs\<rparr>" "map fst hs = held_keys d"
    by (simp_all add: key_touch_def touch_held_Some)
  then show ?thesis using assms by (simp add: kb_inv_def keys_down_def) (metis length_map)
next
  case None
  then have k: "k \<notin> set (held_keys d)" using touch_held_None by blast
  show ?thesis
  proof (cases "length (g_held d) < HELD_MAX")
    case True
    have "k \<notin> set (ring_content d)" using assms k by (auto simp: kb_inv_def)
    then show ?thesis using assms k True key_touch_new [OF assms k True, of now]
      by (auto simp: kb_inv_def keys_down_def)
  next
    case False
    then show ?thesis using None assms by (simp add: key_touch_def)
  qed
qed

lemma pump_input_inv:
  "kb_inv d \<Longrightarrow> kb_inv (snd (snd (pump_input K now t d)))
     \<and> keys_down (snd (snd (pump_input K now t d))) = keys_down d"
proof (induction K now t d rule: pump_input.induct)
  case (3 K now c t d)
  then show ?case using key_touch_inv [OF "3.prems"] by (auto simp: Let_def split: prod.splits)
qed simp_all

text \<open>One event of \<open>DG_GetKey\<close> against an abstract keyboard that only knows which keys are down.\<close>

fun key_step :: "bool \<times> u8 \<Rightarrow> u8 set \<Rightarrow> u8 set option" where
  "key_step (True, k) D = (if k \<in> D then None else Some (insert k D))"
| "key_step (False, k) D = (if k \<in> D then Some (D - {k}) else None)"

fun key_trace :: "(bool \<times> u8) list \<Rightarrow> u8 set \<Rightarrow> u8 set option" where
  "key_trace [] D = Some D"
| "key_trace (e # es) D = (case key_step e D of None \<Rightarrow> None | Some D' \<Rightarrow> key_trace es D')"

lemma next_event_press:
  assumes "kb_inv d" and "ev_pop d = Some (k, d')"
  shows "kb_inv d' \<and> key_step (True, k) (keys_down d) = Some (keys_down d')"
proof -
  from assms(1) have i: "ring_inv d" by (simp add: kb_inv_def)
  have h: "g_held d' = g_held d" using assms(2) by (auto simp: ev_pop_def split: if_splits)
  from ring.pop_content [OF i assms(2)] show ?thesis
    using assms(1) h by (auto simp: kb_inv_def keys_down_def)
qed

lemma next_event_release:
  assumes "kb_inv d" and "ev_pop d = None" and "i < length (g_held d)"
  defines "d' \<equiv> d\<lparr>g_held := swap_remove i (g_held d)\<rparr>"
  shows "kb_inv d' \<and> key_step (False, fst (g_held d ! i)) (keys_down d) = Some (keys_down d')"
proof -
  from assms(1) have r: "ring_inv d" "distinct (held_keys d)" by (simp_all add: kb_inv_def)
  have e: "ring_content d = []" using ring.pop_empty [OF r(1)] assms(2) by simp
  have m: "map fst (swap_remove i (g_held d)) = swap_remove i (held_keys d)"
    using map_swap_remove assms(3) by blast
  have l: "i < length (held_keys d)" using assms(3) by simp
  note sr = swap_remove_distinct [OF l r(2)] length_swap_remove [OF assms(3)]
  have "fst (g_held d ! i) \<in> set (held_keys d)" using assms(3) by simp
  moreover have "held_keys d ! i = fst (g_held d ! i)" using assms(3) by simp
  moreover have "length (swap_remove i (g_held d)) \<le> HELD_MAX"
    using assms(1) sr(3) unfolding kb_inv_def by linarith
  ultimately show ?thesis using r sr(1,2) e m
    by (simp add: d'_def kb_inv_def keys_down_def)
qed

lemma next_event_inv:
  assumes "kb_inv d" and "next_event now d = (e, d')"
  shows "kb_inv d' \<and> (case e of None \<Rightarrow> keys_down d' = keys_down d
                      | Some ev \<Rightarrow> key_step ev (keys_down d) = Some (keys_down d'))"
proof (cases "ev_pop d")
  case (Some r)
  then obtain k d1 where "ev_pop d = Some (k, d1)" by (cases r) auto
  with next_event_press [OF assms(1) this] assms(2) show ?thesis by (auto simp: next_event_def)
next
  case None
  show ?thesis
  proof (cases "first_index (expired d now) (g_held d)")
    case (Some i)
    with first_index_Some [OF Some] next_event_release [OF assms(1) None] None assms(2) show ?thesis
      by (auto simp: next_event_def)
  qed (use None assms in \<open>auto simp: next_event_def\<close>)
qed

section \<open>Sequences of calls\<close>

text \<open>
  The events of successive \<open>DG_GetKey\<close> calls at the times \<open>ns\<close>; the run ends early when the
  process exits.
\<close>

fun get_keys :: "doom_keys \<Rightarrow> ms32 list \<Rightarrow> tty \<Rightarrow> keyboard \<Rightarrow> (bool \<times> u8) list \<times> keyboard" where
  "get_keys K [] t d = ([], d)"
| "get_keys K (now # ns) t d =
     (case DG_GetKey K now t d of
        (Returns e, t', d') \<Rightarrow>
          (let (es, d'') = get_keys K ns t' d'
           in ((case e of None \<Rightarrow> es | Some ev \<Rightarrow> ev # es), d''))
      | (_, _, d') \<Rightarrow> ([], d'))"

lemma DG_GetKey_cases:
  assumes "kb_inv d"
  obtains (event) e t' d' where "DG_GetKey K now t d = (Returns e, t', d')" "kb_inv d'"
      "case e of None \<Rightarrow> keys_down d' = keys_down d | Some ev \<Rightarrow> key_step ev (keys_down d) = Some (keys_down d')"
  | (quit) r t' d' where "DG_GetKey K now t d = (r, t', d')" "\<not> returned r" "kb_inv d'" "keys_down d' = keys_down d"
proof -
  obtain r t' d1 where p: "pump_input K now t d = (r, t', d1)" by (cases "pump_input K now t d") auto
  obtain e d2 where n: "next_event now d1 = (e, d2)" by (cases "next_event now d1")
  from pump_input_inv [OF assms, of K now t] p have i: "kb_inv d1" "keys_down d1 = keys_down d" by auto
  show thesis
  proof (cases r)
    case (Returns u)
    then have "DG_GetKey K now t d = (Returns e, t', d2)" using p n by (simp add: DG_GetKey_def)
    with next_event_inv [OF i(1) n] i(2) event show ?thesis by (cases e) auto
  qed (use p i quit in \<open>auto simp: DG_GetKey_def\<close>)
qed

lemma get_keys_trace:
  "kb_inv d \<Longrightarrow> get_keys K ns t d = (es, d') \<Longrightarrow> kb_inv d' \<and> key_trace es (keys_down d) = Some (keys_down d')"
proof (induction ns arbitrary: t d es)
  case (Cons now ns)
  from Cons.prems(1) show ?case
  proof (cases rule: DG_GetKey_cases [where K = K and now = now and t = t])
    case (event e t1 d1)
    obtain es1 d2 where g: "get_keys K ns t1 d1 = (es1, d2)" by (cases "get_keys K ns t1 d1")
    with Cons.prems(2) event(1) have d2: "d2 = d'" and es: "es = (case e of None \<Rightarrow> es1 | Some ev \<Rightarrow> ev # es1)" by auto
    from Cons.IH [OF event(2) g [unfolded d2]] event(3) es show ?thesis by (cases e) auto
  next
    case (quit r t1 d1)
    with Cons.prems(2) show ?thesis by (cases r) auto
  qed
qed simp

text \<open>C29: for any times, any hold time and any terminal input, the events DG_GetKey reports are those of a keyboard:
  a key is pressed only while it is up and released only while it is down, and the keys left down
  are the held keys whose press has been delivered.\<close>

theorem key_events_alternate:
  "key_trace (fst (get_keys K ns t (keyboard_start hold))) {} = Some (keys_down (snd (get_keys K ns t (keyboard_start hold))))"
  using get_keys_trace [OF kb_inv_init(1), of K ns t hold] kb_inv_init(2) [of hold]
  by (cases "get_keys K ns t (keyboard_start hold)") simp

lemma kb_inv_reached: "kb_inv (snd (get_keys K ns t (keyboard_start hold)))"
  using get_keys_trace [OF kb_inv_init(1), of K ns t hold] by (cases "get_keys K ns t (keyboard_start hold)") simp

text \<open>In every state the calls can reach, a key that is not held and finds room in the table is
  queued behind the presses already pending; the ring buffer never drops a press.\<close>

theorem press_never_dropped:
  assumes "d = snd (get_keys K ns t (keyboard_start hold))"
    and "k \<notin> set (held_keys d)" and "length (g_held d) < HELD_MAX"
  shows "ring_content (key_touch k now d) = ring_content d @ [k]"
  using key_touch_new(1) [OF kb_inv_reached] assms by simp

definition demo_keys :: doom_keys where
  "demo_keys = \<lparr>KEY_UPARROW = 173, KEY_DOWNARROW = 175, KEY_LEFTARROW = 172, KEY_RIGHTARROW = 174,
     KEY_STRAFE_L = 160, KEY_STRAFE_R = 161, KEY_FIRE = 163, KEY_USE = 162, KEY_RSHIFT = 182,
     KEY_ENTER = 13, KEY_TAB = 9, KEY_ESCAPE = 27\<rparr>"

theorem press_never_dropped_witness:
  "ring_content (key_touch 119 7 (keyboard_start 550)) = [119]"
proof -
  have "ring_content (keyboard_start 550) = []" "g_held (keyboard_start 550) = []"
    by (simp_all add: keyboard_init_def ring_content_def ring_length_def)
  then show ?thesis using press_never_dropped [of "keyboard_start 550" demo_keys "[]" "[]" 550 119 7] by simp
qed

section \<open>Every key comes up again\<close>

text \<open>The time that has passed since \<open>l\<close> on the millisecond clock, which wraps.\<close>

definition elapsed :: "ms32 \<Rightarrow> ms32 \<Rightarrow> nat" where
  "elapsed now l = nat ((uint now - uint l) mod 2 ^ 32)"

lemma expired_elapsed: "expired d now h \<longleftrightarrow> unat (g_hold_ms d) < elapsed now (snd h)"
proof -
  have "uint (now - snd h) = (uint now - uint (snd h)) mod 2 ^ 32" by (simp add: uint_word_ariths)
  then have "unat (now - snd h) = elapsed now (snd h)" by (metis elapsed_def nat_uint_eq)
  then show ?thesis by (simp add: expired_def word_less_nat_alt)
qed

lemma get_keys_silent: "next_event now d = (Some e, d') \<Longrightarrow>
    get_keys K (now # ns) [] d = (case get_keys K ns [] d' of (es, d'') \<Rightarrow> (e # es, d''))"
  by (simp add: DG_GetKey_def split: prod.split)

lemma ev_pop_silent:
  assumes "kb_inv d" and "ev_pop d = Some (k, d1)"
  shows "g_held d1 = g_held d" "g_hold_ms d1 = g_hold_ms d" "ring_content d = k # ring_content d1" "kb_inv d1"
  using assms ring.pop_content [OF _ assms(2)] next_event_press [OF assms]
  by (auto simp: ev_pop_def kb_inv_def split: if_splits)

lemma get_keys_drain:
  "kb_inv d \<Longrightarrow> \<forall>h\<in>set (g_held d). expired d now h \<Longrightarrow> ring_length d + length (g_held d) = n \<Longrightarrow>
    \<exists>rs d'. get_keys K (replicate n now) [] d = (map (Pair True) (ring_content d) @ map (Pair False) rs, d') \<and>
      mset rs = mset (held_keys d) \<and> g_held d' = [] \<and> ring_content d' = []"
proof (induction n arbitrary: d)
  case 0
  then have "ring_content d = []" "g_held d = []" using length_ring_content [of d] by (simp_all flip: length_0_conv)
  then show ?case by (intro exI [of _ "[]"] exI [of _ d]) simp
next
  case (Suc n)
  have q: "ring_inv d" using Suc.prems(1) by (simp add: kb_inv_def)
  show ?case
  proof (cases "ev_pop d")
    case (Some x)
    then obtain k d1 where p: "ev_pop d = Some (k, d1)" by (cases x) auto
    note d1 = ev_pop_silent [OF Suc.prems(1) p]
    have "ring_length d = Suc (ring_length d1)" using d1(3) by (metis length_Cons length_ring_content)
    then obtain rs d' where "get_keys K (replicate n now) [] d1 = (map (Pair True) (ring_content d1) @ map (Pair False) rs, d')"
      "mset rs = mset (held_keys d)" "g_held d' = []" "ring_content d' = []"
      using Suc.IH [OF d1(4)] Suc.prems(2,3) d1(1,2) by (auto simp: expired_def)
    then show ?thesis using get_keys_silent [of now d "(True, k)" d1 K "replicate n now"] p d1(3) by (auto simp: next_event_def)
  next
    case None
    then have c: "ring_content d = []" using ring.pop_empty [OF q] by simp
    then have "g_held d \<noteq> []" using Suc.prems(3) length_ring_content [of d] by auto
    then obtain i where f: "first_index (expired d now) (g_held d) = Some i"
      using Suc.prems(2) first_index_None [of "expired d now" "g_held d"] hd_in_set [of "g_held d"] by fastforce
    then have i: "i < length (g_held d)" using first_index_Some by blast
    let ?d = "d\<lparr>g_held := swap_remove i (g_held d)\<rparr>"
    have n: "next_event now d = (Some (False, fst (g_held d ! i)), ?d)" using None f by (simp add: next_event_def)
    have m: "mset (g_held d) = add_mset (g_held d ! i) (mset (swap_remove i (g_held d)))"
      using swap_remove_mset [OF i] i by simp
    then have "set (swap_remove i (g_held d)) \<subseteq> set (g_held d)" by (metis set_mset_mset set_mset_add_mset_insert subset_insertI)
    moreover have "ring_length ?d = ring_length d" by (simp add: ring_length_def)
    ultimately have "\<forall>h\<in>set (g_held ?d). expired ?d now h" "ring_length ?d + length (g_held ?d) = n"
      using Suc.prems(2,3) length_swap_remove [OF i] i by (auto simp: expired_def)
    then obtain rs d' where "get_keys K (replicate n now) [] ?d = (map (Pair False) rs, d')"
      "mset rs = mset (map fst (swap_remove i (g_held d)))" "g_held d' = []" "ring_content d' = []"
      using Suc.IH [of ?d] next_event_release [OF Suc.prems(1) None i] c by auto
    moreover have "mset (held_keys d) = add_mset (fst (g_held d ! i)) (mset (map fst (swap_remove i (g_held d))))"
      using m by simp
    ultimately show ?thesis using get_keys_silent [OF n, of K "replicate n now"] c
      by (intro exI [of _ "fst (g_held d ! i) # rs"] exI [of _ d']) simp
  qed
qed

text \<open>C30: when the terminal is silent and more than the hold time has passed for every held key, one call per
  pending press and per held key reports the pending presses, in their order, and then the release of each
  held key, exactly once, and leaves no key down: the game never sees a stuck key.\<close>

theorem silent_keys_released:
  assumes "d = snd (get_keys K ns t (keyboard_start hold))"
    and "\<forall>(k, l)\<in>set (g_held d). unat (g_hold_ms d) < elapsed now l"
  shows "\<exists>rs d'. get_keys K (replicate (length (ring_content d) + length (g_held d)) now) [] d =
      (map (Pair True) (ring_content d) @ map (Pair False) rs, d') \<and>
    mset rs = mset (held_keys d) \<and> g_held d' = [] \<and> ring_content d' = []"
proof -
  have "\<forall>h\<in>set (g_held d). expired d now h" using assms(2) by (auto simp: expired_elapsed)
  from get_keys_drain [OF _ this refl, of K] show ?thesis using kb_inv_reached assms(1) by simp
qed

theorem silent_keys_released_witness:
  "g_held (snd (get_keys demo_keys [100] [Some 119, Some 101] (keyboard_start 300))) = [(173, 100), (162, 100)] \<and>
   (\<exists>rs. fst (get_keys demo_keys [500, 500, 500] [] (snd (get_keys demo_keys [100] [Some 119, Some 101] (keyboard_start 300)))) =
      (True, 162) # map (Pair False) rs \<and> mset rs = {#173, 162#})"
proof -
  define d where "d = snd (get_keys demo_keys [100] [Some 119, Some 101] (keyboard_start 300))"
  have e: "g_held d = [(173, 100), (162, 100)]" "ring_content d = [162]" "g_hold_ms d = 300" unfolding d_def by code_simp+
  then have "\<forall>(k, l)\<in>set (g_held d). unat (g_hold_ms d) < elapsed 500 l" by (simp add: elapsed_def)
  from silent_keys_released [OF d_def this]
  obtain rs d' where "get_keys demo_keys [500, 500, 500] [] d = ((True, 162) # map (Pair False) rs, d')" "mset rs = {#173, 162#}"
    using e by (auto simp: numeral_eq_Suc simp del: get_keys.simps)
  then show ?thesis unfolding d_def [symmetric] using e(1) by (intro conjI exI [of _ rs]) simp_all
qed

text \<open>The release test is exact although the millisecond clock wraps after 49 days: as long as
  less than 2^32 ms have passed since the last byte of a key, the key is released exactly when
  more than the hold time has passed.\<close>

theorem hold_time_exact:
  assumes "t0 \<le> t" and "t - t0 < 2 ^ 32"
  shows "expired d (of_nat t) (k, of_nat t0) \<longleftrightarrow> unat (g_hold_ms d) < t - t0"
proof -
  have "(of_nat t :: ms32) - of_nat t0 = of_nat (t - t0)" using assms(1) by (simp add: of_nat_diff)
  moreover have "unat (of_nat (t - t0) :: ms32) = t - t0" using assms(2) by (simp add: unat_of_nat)
  ultimately show ?thesis by (simp add: expired_def word_less_nat_alt)
qed

theorem hold_time_exact_witness:
  "expired keyboard_init (of_nat (2 ^ 32 + 600)) (65, of_nat (2 ^ 32 - 1))"
  using hold_time_exact [of "2 ^ 32 - 1" "2 ^ 32 + 600" keyboard_init 65] by (simp add: keyboard_init_def)

end
