(* ===== verification/Libbb_Text.thy ===== *)
theory Libbb_Text
  imports Prelude "HOL-Library.Word"
begin

text \<open>
  Small text routines of libbb that several components call: \<open>skip_whitespace\<close>,
  \<open>skip_non_whitespace\<close> (\<open>libbb/skip_whitespace.c\<close>), \<open>endofname\<close> (\<open>libbb/endofname.c\<close>), and the
  functions \<open>strtoull\<close> (base 0), \<open>strcmp\<close> and \<open>atoi\<close> of the C library.
\<close>

section \<open>Definitions\<close>

definition isspace :: "char \<Rightarrow> bool" where
  "isspace c \<longleftrightarrow> c = SP \<or> (9 \<le> ch c \<and> ch c \<le> 13)"

definition skip_whitespace :: "cstr \<Rightarrow> cstr" where
  "skip_whitespace s = dropWhile isspace s"

definition skip_non_whitespace :: "cstr \<Rightarrow> cstr" where
  "skip_non_whitespace s = dropWhile (\<lambda>c. \<not> isspace c) s"

definition is_name :: "char \<Rightarrow> bool" where
  "is_name c \<longleftrightarrow> c = CHR ''_'' \<or> isalpha c"

definition is_in_name :: "char \<Rightarrow> bool" where
  "is_in_name c \<longleftrightarrow> c = CHR ''_'' \<or> isalnum c"

text \<open>The name at the start of the text (empty when there is none) and what follows it.\<close>

fun endofname :: "cstr \<Rightarrow> cstr \<times> cstr" where
  "endofname [] = ([], [])"
| "endofname (c # s) =
     (if is_name c then (c # takeWhile is_in_name s, dropWhile is_in_name s) else ([], c # s))"

text \<open>A text that is one name.\<close>

definition var_name :: "cstr \<Rightarrow> bool" where
  "var_name v \<longleftrightarrow> v \<noteq> [] \<and> is_name (hd v) \<and> (\<forall>c\<in>set (tl v). is_in_name c)"

definition digit_val :: "char \<Rightarrow> nat" where
  "digit_val c =
     (if isdigit c then ch c - 48 else if islower c then ch c - 87 else if isupper c then ch c - 55 else 99)"

fun parse_digits :: "nat \<Rightarrow> int \<Rightarrow> cstr \<Rightarrow> int \<times> cstr" where
  "parse_digits base v [] = (v, [])"
| "parse_digits base v (c # s) =
     (if digit_val c < base then parse_digits base (v * int base + int (digit_val c)) s else (v, c # s))"

text \<open>
  \<open>strtoull(s, \<dots>, 0)\<close> for a text that starts with a digit: the value (unbounded; a value of \<open>2\<^sup>6\<^sup>4\<close>
  or more is the ERANGE case) and the rest.
\<close>

definition strtoull0 :: "cstr \<Rightarrow> int \<times> cstr" where
  "strtoull0 s =
     (if char_at s 0 = CHR ''0'' then
        (if (char_at s 1 = CHR ''x'' \<or> char_at s 1 = CHR ''X'') \<and> digit_val (char_at s 2) < 16
         then parse_digits 16 0 (drop 2 s) else parse_digits 8 0 s)
      else parse_digits 10 0 s)"

text \<open>Only the sign of \<open>strcmp\<close> is specified; the characters compare as unsigned bytes.\<close>

fun strcmp :: "cstr \<Rightarrow> cstr \<Rightarrow> int" where
  "strcmp [] [] = 0"
| "strcmp [] (b # bs) = - 1"
| "strcmp (a # as) [] = 1"
| "strcmp (a # as) (b # bs) = (if a = b then strcmp as bs else if ch a < ch b then - 1 else 1)"

text \<open>\<open>atoi\<close>: blanks, a sign, digits; a value outside int is undefined behaviour, which the callers check.\<close>

definition atoi :: "cstr \<Rightarrow> int" where
  "atoi s =
     (let t = skip_whitespace s;
          neg = (char_at t 0 = CHR ''-'');
          u = (if neg \<or> char_at t 0 = CHR ''+'' then drop 1 t else t);
          v = fst (parse_digits 10 0 u)
      in if neg then - v else v)"

section \<open>Lemmas\<close>

lemma strcmp_self [simp]: "strcmp x x = 0"
  by (induction x) auto

lemma strcmp_eq_0: "strcmp x y = 0 \<longleftrightarrow> x = y"
  by (induction x y rule: strcmp.induct) auto

lemma strcmp_swap: "strcmp y x = - strcmp x y"
  by (induction x y rule: strcmp.induct) (auto simp: ch_def)

lemma strcmp_trans: "strcmp x y \<le> 0 \<Longrightarrow> strcmp y z \<le> 0 \<Longrightarrow> strcmp x z \<le> 0"
proof (induction x y arbitrary: z rule: strcmp.induct)
  case (4 a as b bs)
  then show ?case by (cases z) (auto split: if_splits)
next
  case (1)
  then show ?case by simp
next
  case (2 b bs)
  then show ?case by (cases z) auto
next
  case (3 a as)
  then show ?case by simp
qed

lemma length_skip_whitespace: "length (skip_whitespace s) \<le> length s"
  by (simp add: skip_whitespace_def length_dropWhile_le)

lemma skip_whitespace_idem [simp]: "skip_whitespace (skip_whitespace s) = skip_whitespace s"
  by (simp add: skip_whitespace_def)

lemma skip_whitespace_Cons [simp]:
  "skip_whitespace (c # s) = (if isspace c then skip_whitespace s else c # s)"
  "skip_whitespace [] = []"
  by (simp_all add: skip_whitespace_def)

lemma endofname_append: "endofname s = (n, r) \<Longrightarrow> s = n @ r"
  by (cases s) (auto split: if_splits)

lemma endofname_empty: "fst (endofname s) = [] \<longleftrightarrow> s = [] \<or> \<not> is_name (hd s)"
  by (cases s) auto

lemma parse_digits_rest: "length (snd (parse_digits base v s)) \<le> length s"
  by (induction base v s rule: parse_digits.induct) auto

lemma digit_val_isdigit: "isdigit c \<Longrightarrow> digit_val c < 10"
  by (auto simp: digit_val_def isdigit_def)

lemma digit_val_digit_char: "n < 10 \<Longrightarrow> digit_val (digit_char n) = n"
  by (simp add: digit_val_def isdigit_digit_char) (simp add: digit_char_def ch_def)

lemma strtoull0_rest:
  assumes "isdigit (hd s)" and "s \<noteq> []"
  shows "length (snd (strtoull0 s)) < length s"
proof -
  obtain c t where s: "s = c # t" using assms(2) by (cases s) auto
  have c: "digit_val c < 10" using digit_val_isdigit assms(1) s by simp
  have "digit_val (CHR ''0'') < 8" by code_simp
  then show ?thesis
    using s c parse_digits_rest [of 16 0 "drop 2 s"] parse_digits_rest [of 8 "int (digit_val c)" t]
      parse_digits_rest [of 10 "int (digit_val c)" t]
    by (cases t) (auto simp: strtoull0_def char_at_def)
qed

lemma parse_digits_dec:
  "parse_digits 10 v (dec_of_nat n @ r) = parse_digits 10 (v * 10 ^ length (dec_of_nat n) + int n) r"
proof (induction n arbitrary: v r rule: dec_of_nat.induct)
  case (1 n)
  show ?case
  proof (cases "n < 10")
    case True
    then show ?thesis by (simp add: dec_of_nat.simps [of n] digit_val_digit_char)
  next
    case False
    have "n mod 10 < 10" by simp
    then have d: "digit_val (digit_char (n mod 10)) = n mod 10" by (rule digit_val_digit_char)
    have "int n = int (n div 10 * 10 + n mod 10)" by simp
    then have "int n = int (n div 10) * 10 + int (n mod 10)" by (simp only: of_nat_add of_nat_mult of_nat_numeral)
    then show ?thesis using False 1 [OF False] d
      by (simp add: dec_of_nat.simps [of n] algebra_simps)
  qed
qed

end
