(* ===== verification/Doom_Video.thy ===== *)
theory Doom_Video
  imports Doom_Input Wasi_Compat Libbb_Text
begin

text \<open>
  The screen of the DOOM port, \<open>guest/pkgs/doom/doomgeneric_osmoap.c\<close>: terminal set-up, the sample
  rectangles, the box average and the half-block renderer.  A frame is emitted as a sequence of
  terminal commands; \<open>render_bytes\<close> is their encoding and \<open>term_run\<close> the meaning a terminal gives
  them, against which the colour compression of \<open>DG_DrawFrame\<close> is proved.
\<close>

unbundle bit_operations_syntax

abbreviation ESC :: char where "ESC \<equiv> CHR 0x1B"
abbreviation RESX :: nat where "RESX \<equiv> 320"
abbreviation RESY :: nat where "RESY \<equiv> 200"

section \<open>Set-up\<close>

record screen =
  g_cols :: int
  g_rows :: int
  g_xe :: "nat list"
  g_ye :: "nat list"
  g_out_size :: nat
  g_last_ms :: ms32
  g_throttle_ms :: ms32

fun atoi_digits :: "int \<Rightarrow> cstr \<Rightarrow> int" where
  "atoi_digits v (c # s) = (if isdigit c then atoi_digits (10 * v + int (ch c - 48)) s else v)"
| "atoi_digits v [] = v"

text \<open>\<open>atoi\<close> of the C library; the value is only defined when it fits an int.\<close>

definition atoi :: "cstr \<Rightarrow> int" where
  "atoi s = (case skip_whitespace s of
       c # r \<Rightarrow> if c = CHR ''-'' then - atoi_digits 0 r else if c = CHR ''+'' then atoi_digits 0 r
                else atoi_digits 0 (c # r)
     | [] \<Rightarrow> 0)"

definition env_above :: "(cstr \<Rightarrow> cstr option) \<Rightarrow> cstr \<Rightarrow> int \<Rightarrow> int \<Rightarrow> int" where
  "env_above getenv var least dflt =
     (case getenv var of Some e \<Rightarrow> if atoi e > least then atoi e else dflt | None \<Rightarrow> dflt)"

definition edges :: "nat \<Rightarrow> nat \<Rightarrow> nat list" where
  "edges res n = map (\<lambda>i. i * res div n) [0..<n + 1]"

text \<open>\<open>size_t\<close> has 32 bits on wasm32.\<close>

definition out_size :: "int \<Rightarrow> int \<Rightarrow> nat" where
  "out_size cols rows = nat ((cols * rows * 48 + rows * 8 + 64) mod 2 ^ 32)"

text \<open>
  \<open>DG_Init\<close>: a terminal so large that the int products of the edge tables overflow is undefined
  behaviour in C.  The state of the terminal driver is that of \<open>Wasi_Compat\<close>; the second component
  is what is written to the terminal.
\<close>

definition DG_Init :: "(cstr \<Rightarrow> cstr option) \<Rightarrow> keyboard \<Rightarrow> osd_state \<Rightarrow>
    (screen \<times> keyboard \<times> osd_state \<times> bytes) outcome" where
  "DG_Init getenv kb st =
     (let cols = env_above getenv ''COLUMNS'' 19 80;
          rows = env_above getenv ''LINES'' 9 24;
          throttle = env_above getenv ''DOOM_FPS_MS'' 0 90;
          hold = env_above getenv ''DOOM_HOLD_MS'' 0 (uint (g_hold_ms kb));
          t = cfmakeraw (tcgetattr st);
          t' = t\<lparr>c_lflag := c_lflag t AND NOT (ICANON OR ECHO OR ISIG)\<rparr>
      in if cols * int RESX < 2 ^ 31 \<and> rows * 2 * int RESY < 2 ^ 31
         then Returns (\<lparr>g_cols = cols, g_rows = rows, g_xe = edges RESX (nat cols),
                  g_ye = edges RESY (nat (rows * 2)), g_out_size = out_size cols rows,
                  g_last_ms = 0, g_throttle_ms = of_int throttle\<rparr>,
                kb\<lparr>g_hold_ms := of_int hold\<rparr>, tcsetattr 0 t' st,
                ESC # ''[?1049h'' @ [ESC] @ ''[?25l'' @ [ESC] @ ''[2J'')
         else Undefined)"

definition screen_restore :: bytes where
  "screen_restore = ESC # ''[0m'' @ [ESC] @ ''[?25h'' @ [ESC] @ ''[?1049l''"

section \<open>Sampling\<close>

type_synonym pixels = "32 word list"

definition channel :: "nat \<Rightarrow> 32 word \<Rightarrow> 32 word" where
  "channel s p = drop_bit s p AND 255"

text \<open>The pixels of a rectangle in the order of the two loops.\<close>

definition rect :: "pixels \<Rightarrow> nat \<Rightarrow> nat \<Rightarrow> nat \<Rightarrow> nat \<Rightarrow> 32 word list" where
  "rect buf x0 x1 y0 y1 = concat (map (\<lambda>y. map (\<lambda>x. buf ! (y * RESX + x)) [x0..<x1]) [y0..<y1])"

definition sum_channel :: "nat \<Rightarrow> 32 word list \<Rightarrow> 32 word" where
  "sum_channel s ps = fold (\<lambda>p r. r + channel s p) ps 0"

definition avg_block :: "pixels \<Rightarrow> nat \<Rightarrow> nat \<Rightarrow> nat \<Rightarrow> nat \<Rightarrow> 32 word" where
  "avg_block buf x0 x1 y0 y1 =
     (let ps = rect buf x0 x1 y0 y1; n = of_nat (length ps)
      in if ps = [] then 0
         else (push_bit 16 (sum_channel 16 ps div n) OR push_bit 8 (sum_channel 8 ps div n))
              OR (sum_channel 0 ps div n))"

section \<open>The renderer\<close>

datatype tcmd = Home | Sgr "32 word" "32 word" | HalfBlock | CrLf

definition rgb_text :: "32 word \<Rightarrow> cstr" where
  "rgb_text p = dec_of_nat (unat (channel 16 p)) @ '';'' @ dec_of_nat (unat (channel 8 p)) @ '';''
     @ dec_of_nat (unat (channel 0 p))"

fun render_bytes :: "tcmd \<Rightarrow> bytes" where
  "render_bytes Home = ESC # ''[H''"
| "render_bytes (Sgr fg bg) = ESC # ''[38;2;'' @ rgb_text fg @ '';48;2;'' @ rgb_text bg @ ''m''"
| "render_bytes HalfBlock = [CHR 0xE2, CHR 0x96, CHR 0x80]"
| "render_bytes CrLf = [CHR 0x0D, NL]"

text \<open>One cell: \<open>prev\<close> is None for the initial -1 of \<open>prev_fg\<close> and \<open>prev_bg\<close>, which no colour equals.\<close>

type_synonym prev = "(32 word \<times> 32 word) option"

definition draw_cell :: "32 word \<times> 32 word \<Rightarrow> prev \<Rightarrow> tcmd list \<times> prev" where
  "draw_cell px prev =
     (if prev \<noteq> Some px then ([Sgr (fst px) (snd px), HalfBlock], Some px) else ([HalfBlock], prev))"

fun draw_row :: "(32 word \<times> 32 word) list \<Rightarrow> prev \<Rightarrow> tcmd list \<times> prev" where
  "draw_row [] prev = ([], prev)"
| "draw_row (px # pxs) prev =
     (let (cs, p1) = draw_cell px prev; (rest, p2) = draw_row pxs p1 in (cs @ rest, p2))"

fun draw_rows :: "(32 word \<times> 32 word) list list \<Rightarrow> prev \<Rightarrow> tcmd list" where
  "draw_rows [] prev = []"
| "draw_rows [row] prev = fst (draw_row row prev)"
| "draw_rows (row # rows) prev = (let (cs, p) = draw_row row prev in cs @ CrLf # draw_rows rows p)"

text \<open>The colours of the cell in row \<open>r\<close> and column \<open>c\<close>.\<close>

definition cell_px :: "screen \<Rightarrow> pixels \<Rightarrow> nat \<Rightarrow> nat \<Rightarrow> 32 word \<times> 32 word" where
  "cell_px s buf r c =
     (avg_block buf (g_xe s ! c) (g_xe s ! (c + 1)) (g_ye s ! (2 * r)) (g_ye s ! (2 * r + 1)),
      avg_block buf (g_xe s ! c) (g_xe s ! (c + 1)) (g_ye s ! (2 * r + 1)) (g_ye s ! (2 * r + 2)))"

definition frame_cells :: "screen \<Rightarrow> pixels \<Rightarrow> (32 word \<times> 32 word) list list" where
  "frame_cells s buf = map (\<lambda>r. map (cell_px s buf r) [0..<nat (g_cols s)]) [0..<nat (g_rows s)]"

definition frame_cmds :: "screen \<Rightarrow> pixels \<Rightarrow> tcmd list" where
  "frame_cmds s buf = Home # draw_rows (frame_cells s buf) None"

text \<open>\<open>DG_DrawFrame\<close> with the clock at \<open>now\<close>: the bytes written, None when the frame is throttled.\<close>

definition DG_DrawFrame :: "ms32 \<Rightarrow> pixels \<Rightarrow> screen \<Rightarrow> bytes option \<times> screen" where
  "DG_DrawFrame now buf s =
     (if now - g_last_ms s < g_throttle_ms s then (None, s)
      else (Some (concat (map render_bytes (frame_cmds s buf))), s\<lparr>g_last_ms := now\<rparr>))"

text \<open>
  \<open>DG_SetWindowTitle\<close>: \<open>snprintf\<close> returns the length of the whole text, also when the buffer of 128
  bytes holds only its first 127 characters and a NUL; \<open>write\<close> then reads that many bytes.
\<close>

definition DG_SetWindowTitle :: "cstr \<Rightarrow> bytes outcome" where
  "DG_SetWindowTitle title =
     (let text = ESC # '']0;'' @ title @ [CHR 0x07]; n = length text;
          buf = take 127 text @ [NUL]
      in if n \<le> 128 then Returns (take n buf) else Undefined)"

section \<open>Every source pixel is sampled once\<close>

lemma edges_nth: "i \<le> n \<Longrightarrow> edges res n ! i = i * res div n"
  by (simp add: edges_def nth_append del: upt_Suc)

lemma edges_mono: "i \<le> j \<Longrightarrow> j \<le> n \<Longrightarrow> edges res n ! i \<le> edges res n ! j"
  by (simp add: edges_nth div_le_mono)

text \<open>The edge tables cut the 320 columns (and the 200 rows) into consecutive intervals: every
  source coordinate lies in exactly one of the n sample intervals, whatever the terminal size.\<close>

theorem edges_partition:
  assumes "0 < n" and "x < res"
  shows "\<exists>!i. i < n \<and> edges res n ! i \<le> x \<and> x < edges res n ! (i + 1)"
proof (rule ex_ex1I)
  let ?P = "\<lambda>i. x < edges res n ! i"
  have top: "?P n" using assms by (simp add: edges_nth)
  let ?j = "LEAST i. ?P i"
  have j: "?P ?j" "?j \<le> n" using top LeastI [of ?P n] Least_le [of ?P n] by blast+
  have "?j \<noteq> 0" using j(1) edges_nth [of 0 n res] by (intro notI) simp
  then obtain i where i: "?j = Suc i" by (cases ?j) auto
  then have "\<not> ?P i" using not_less_Least [of i ?P] by simp
  with i j show "\<exists>i. i < n \<and> edges res n ! i \<le> x \<and> x < edges res n ! (i + 1)"
    by (intro exI [of _ i]) auto
next
  fix i j
  assume i: "i < n \<and> edges res n ! i \<le> x \<and> x < edges res n ! (i + 1)"
    and j: "j < n \<and> edges res n ! j \<le> x \<and> x < edges res n ! (j + 1)"
  show "i = j"
  proof (rule linorder_cases [of i j])
    assume "i < j"
    with edges_mono [of "i + 1" j n res] i j show ?thesis by auto
  next
    assume "j < i"
    with edges_mono [of "j + 1" i n res] i j show ?thesis by auto
  qed
qed

theorem edges_partition_witness:
  "\<exists>!i. i < 80 \<and> edges RESX 80 ! i \<le> 319 \<and> 319 < edges RESX 80 ! (i + 1)"
  by (rule edges_partition) simp_all

section \<open>The box average is exact\<close>

lemma channel_take_bit: "channel s p = take_bit 8 (drop_bit s p)"
  by (simp add: channel_def take_bit_eq_mask mask_eq_exp_minus_1)

lemma unat_channel: "unat (channel s p) \<le> 255"
proof -
  have "unat (channel s p) = take_bit 8 (unat (drop_bit s p))" by (simp add: channel_take_bit unsigned_take_bit_eq)
  also have "\<dots> < 2 ^ 8" by (rule take_bit_nat_less_exp)
  finally show ?thesis by simp
qed

lemma fold_channel:
  "unat r + 255 * length ps < 2 ^ 32 \<Longrightarrow>
    unat (fold (\<lambda>p r. r + channel s p) ps r) = unat r + sum_list (map (\<lambda>p. unat (channel s p)) ps)"
proof (induction ps arbitrary: r)
  case (Cons p ps)
  have c: "unat (channel s p) \<le> 255" by (rule unat_channel)
  have "unat (r + channel s p) = unat r + unat (channel s p)"
    using Cons.prems c by (intro unat_add_lem [THEN iffD1]) simp
  then show ?case using Cons.IH [of "r + channel s p"] Cons.prems c by simp
qed simp

lemma pack_channels:
  fixes a b c :: "32 word"
  assumes "take_bit 8 a = a" "take_bit 8 b = b" "take_bit 8 c = c"
  defines "w \<equiv> (push_bit 16 a OR push_bit 8 b) OR c"
  shows "channel 16 w = a" "channel 8 w = b" "channel 0 w = c"
proof -
  have small: "bit a i \<Longrightarrow> i < 8" "bit b i \<Longrightarrow> i < 8" "bit c i \<Longrightarrow> i < 8" for i
    using assms(1-3) by (metis bit_take_bit_iff)+
  show "channel 16 w = a" unfolding w_def channel_take_bit
    by (rule bit_word_eqI) (auto simp: bit_simps dest: small)
  show "channel 8 w = b" unfolding w_def channel_take_bit
    by (rule bit_word_eqI) (auto simp: bit_simps dest: small)
  show "channel 0 w = c" unfolding w_def channel_take_bit
    by (rule bit_word_eqI) (auto simp: bit_simps dest: small)
qed

lemma avg_small:
  assumes "ps \<noteq> []" and "length ps \<le> RESX * RESY"
  shows "unat (sum_channel s ps div of_nat (length ps)) = sum_list (map (\<lambda>p. unat (channel s p)) ps) div length ps"
    and "take_bit 8 (sum_channel s ps div of_nat (length ps)) = sum_channel s ps div of_nat (length ps)"
proof -
  let ?q = "sum_channel s ps div of_nat (length ps)" and ?n = "length ps"
  have u: "unat (sum_channel s ps) = sum_list (map (\<lambda>p. unat (channel s p)) ps)"
    using fold_channel [of 0 ps s] assms(2) by (simp add: sum_channel_def)
  moreover have "unat (of_nat ?n :: 32 word) = ?n" using assms(2) by (simp add: unat_of_nat)
  ultimately show q: "unat ?q = sum_list (map (\<lambda>p. unat (channel s p)) ps) div ?n" by (simp add: unat_div)
  have "sum_list (map (\<lambda>p. unat (channel s p)) ps) \<le> sum_list (map (\<lambda>p. 255) ps)"
    using unat_channel by (intro sum_list_mono)
  also have "\<dots> = 255 * ?n" by (simp add: sum_list_triv)
  finally have "unat ?q \<le> 255 * ?n div ?n" unfolding q by (rule div_le_mono)
  then have "unat ?q < 2 ^ 8" using assms(1) by simp
  then show "take_bit 8 ?q = ?q" by (metis take_bit_nat_eq_self_iff unsigned_take_bit_eq word_unat_eq_iff)
qed

text \<open>For every sample rectangle inside the 320x200 screen the three colour channels of
  avg_block are the exact averages of the channels of its pixels: neither the sums nor the packing
  into one word lose a bit.\<close>

theorem avg_block_exact:
  assumes "x0 < x1" and "x1 \<le> RESX" and "y0 < y1" and "y1 \<le> RESY" and "s \<in> {0, 8, 16}"
  shows "unat (channel s (avg_block buf x0 x1 y0 y1)) =
    sum_list (map (\<lambda>p. unat (channel s p)) (rect buf x0 x1 y0 y1)) div ((x1 - x0) * (y1 - y0))"
proof -
  let ?ps = "rect buf x0 x1 y0 y1"
  have len: "length ?ps = (x1 - x0) * (y1 - y0)"
    by (simp add: rect_def length_concat comp_def sum_list_triv)
  have "(x1 - x0) * (y1 - y0) \<le> RESX * RESY" using assms by (intro mult_le_mono) linarith+
  with len have le: "length ?ps \<le> RESX * RESY" by simp
  have ne: "?ps \<noteq> []" using len assms by (metis length_0_conv mult_is_0 zero_less_diff less_numeral_extra(3))
  note small = avg_small [OF ne le]
  from assms(5) have "s = 16 \<or> s = 8 \<or> s = 0" by auto
  then have "channel s (avg_block buf x0 x1 y0 y1) = sum_channel s ?ps div of_nat (length ?ps)"
    using pack_channels [OF small(2) small(2) small(2), of 16 8 0] ne by (auto simp: avg_block_def Let_def)
  with small(1) [of s] len show ?thesis by simp
qed

theorem avg_block_exact_witness:
  "unat (channel 16 (avg_block (replicate 64000 0x640000) 0 4 0 2)) =
     sum_list (map (\<lambda>p. unat (channel 16 p)) (rect (replicate 64000 0x640000) 0 4 0 2)) div ((4 - 0) * (2 - 0))"
  by (rule avg_block_exact) simp_all

section \<open>The colour compression\<close>

text \<open>What a terminal shows: rows of cells with their colours; \<open>cur\<close> are the current colours.\<close>

fun term_rows :: "32 word \<times> 32 word \<Rightarrow> (32 word \<times> 32 word) list \<Rightarrow> tcmd list
    \<Rightarrow> (32 word \<times> 32 word) list list" where
  "term_rows cur line [] = [line]"
| "term_rows cur line (Home # cs) = term_rows cur [] cs"
| "term_rows cur line (Sgr fg bg # cs) = term_rows (fg, bg) line cs"
| "term_rows cur line (HalfBlock # cs) = term_rows cur (line @ [cur]) cs"
| "term_rows cur line (CrLf # cs) = line # term_rows cur [] cs"

lemma term_row:
  "prev = None \<or> prev = Some cur \<Longrightarrow> draw_row pxs prev = (cs, prev') \<Longrightarrow>
    \<exists>cur'. (prev' = None \<or> prev' = Some cur') \<and>
      (\<forall>line rest. term_rows cur line (cs @ rest) = term_rows cur' (line @ pxs) rest)"
proof (induction pxs arbitrary: prev cur cs)
  case Nil
  then show ?case by (intro exI [of _ cur]) auto
next
  case (Cons px pxs)
  obtain c1 p1 where c: "draw_cell px prev = (c1, p1)" by (cases "draw_cell px prev")
  obtain c2 where r: "draw_row pxs p1 = (c2, prev')" and cs: "cs = c1 @ c2"
    using Cons.prems(2) c by (cases "draw_row pxs p1") auto
  from c Cons.prems(1) have p: "p1 = Some px" "\<And>line rest. term_rows cur line (c1 @ rest) = term_rows px (line @ [px]) rest"
    by (auto simp: draw_cell_def split: if_splits)
  from Cons.IH [of p1 px, OF _ r] p(1) obtain cur' where i: "prev' = None \<or> prev' = Some cur'"
    "\<forall>line rest. term_rows px line (c2 @ rest) = term_rows cur' (line @ pxs) rest" by blast
  with p(2) cs show ?case by (intro exI [of _ cur']) simp
qed

lemma term_draw_rows:
  "prev = None \<or> prev = Some cur \<Longrightarrow> rows \<noteq> [] \<Longrightarrow> term_rows cur [] (draw_rows rows prev) = rows"
proof (induction rows prev arbitrary: cur rule: draw_rows.induct)
  case (2 row prev)
  obtain cs p where d: "draw_row row prev = (cs, p)" by (cases "draw_row row prev")
  from term_row [OF "2.prems"(1) d] obtain cur' where
    "\<forall>line rest. term_rows cur line (cs @ rest) = term_rows cur' (line @ row) rest" by blast
  from this [rule_format, of "[]" "[]"] d show ?case by simp
next
  case (3 row r rows prev)
  obtain cs p where d: "draw_row row prev = (cs, p)" by (cases "draw_row row prev")
  from term_row [OF "3.prems"(1) d] obtain cur' where c: "p = None \<or> p = Some cur'"
    "\<forall>line rest. term_rows cur line (cs @ rest) = term_rows cur' (line @ row) rest" by blast
  from "3.IH" [OF d [symmetric] refl c(1)] c(2) d show ?case by simp
qed simp


definition demo_screen :: screen where
  "demo_screen = \<lparr>g_cols = 2, g_rows = 1, g_xe = edges RESX 2, g_ye = edges RESY 2,
     g_out_size = out_size 2 1, g_last_ms = 0, g_throttle_ms = 90\<rparr>"


section \<open>The frame buffer is large enough\<close>

lemma length_dec_255:
  assumes "n \<le> 255"
  shows "length (dec_of_nat n) \<le> 3"
proof -
  have "n < 10 \<or> (10 \<le> n \<and> n < 100) \<or> (100 \<le> n \<and> n < 1000)" using assms by auto
  then show ?thesis by (auto simp: dec_of_nat.simps [of n] dec_of_nat.simps [of "n div 10"] dec_of_nat.simps [of "n div 10 div 10"])
qed

lemma length_rgb_text: "length (rgb_text p) \<le> 11"
  using length_dec_255 [OF unat_channel, of 16 p] length_dec_255 [OF unat_channel, of 8 p]
    length_dec_255 [OF unat_channel, of 0 p] by (simp add: rgb_text_def)

lemma length_sgr: "length (render_bytes (Sgr fg bg)) \<le> 36"
  using length_rgb_text [of fg] length_rgb_text [of bg] by simp

abbreviation cmds_length :: "tcmd list \<Rightarrow> nat" where
  "cmds_length cs \<equiv> length (concat (map render_bytes cs))"

lemma length_draw_row: "cmds_length (fst (draw_row pxs prev)) \<le> 39 * length pxs"
proof (induction pxs arbitrary: prev)
  case (Cons px pxs)
  obtain cs p where c: "draw_cell px prev = (cs, p)" by (cases "draw_cell px prev")
  have "cmds_length cs \<le> 39" using c length_sgr [of "fst px" "snd px"]
    by (auto simp: draw_cell_def simp del: render_bytes.simps(2) split: if_splits)
  with Cons.IH [of p] c show ?case by (auto split: prod.splits)
qed simp

lemma length_draw_rows:
  "\<forall>row\<in>set rows. length row = m \<Longrightarrow> cmds_length (draw_rows rows prev) \<le> (39 * m + 2) * length rows"
proof (induction rows prev rule: draw_rows.induct)
  case (2 row prev)
  then show ?case using length_draw_row [of row prev] by simp
next
  case (3 row r rows prev)
  obtain cs p where d: "draw_row row prev = (cs, p)" by (cases "draw_row row prev")
  from "3.IH" [OF d [symmetric] refl] "3.prems"
  have "cmds_length (draw_rows (r # rows) p) \<le> (39 * m + 2) * length (r # rows)" by simp
  then show ?case using length_draw_row [of row prev] d "3.prems" by (simp add: algebra_simps)
qed simp

text \<open>C32: a frame never overruns the buffer that DG_Init allocates for it, for every terminal whose
  buffer size does not wrap around in the 32-bit size_t.\<close>

theorem frame_fits_buffer:
  assumes "DG_Init getenv kb st = Returns (s, kb', st', init)"
    and "g_cols s * g_rows s * 48 + g_rows s * 8 + 64 < 2 ^ 32"
    and "DG_DrawFrame now buf s = (Some bs, s')"
  shows "length bs \<le> g_out_size s"
proof -
  let ?c = "nat (g_cols s)" and ?r = "nat (g_rows s)"
  have size_s: "g_out_size s = out_size (g_cols s) (g_rows s)" and pos: "g_cols s > 0" "g_rows s > 0"
    using assms(1) by (auto simp: DG_Init_def Let_def env_above_def split: if_splits option.splits)
  have "int (?c * ?r * 48 + ?r * 8 + 64) = g_cols s * g_rows s * 48 + g_rows s * 8 + 64"
    using pos by (simp add: algebra_simps)
  then have out: "g_out_size s = ?c * ?r * 48 + ?r * 8 + 64"
    using assms(2) pos unfolding size_s out_size_def by (metis mod_pos_pos_trivial nat_int of_nat_0_le_iff)
  have "bs = concat (map render_bytes (frame_cmds s buf))"
    using assms(3) by (auto simp: DG_DrawFrame_def split: if_splits)
  then have "length bs = 3 + cmds_length (draw_rows (frame_cells s buf) None)" by (simp add: frame_cmds_def)
  also have "\<dots> \<le> 3 + (39 * ?c + 2) * ?r"
    using length_draw_rows [of "frame_cells s buf" ?c None] by (simp add: frame_cells_def)
  also have "\<dots> \<le> g_out_size s" unfolding out by (simp add: algebra_simps)
  finally show ?thesis .
qed

definition demo_env :: "cstr \<Rightarrow> cstr option" where
  "demo_env v = (if v = ''COLUMNS'' then Some ''100'' else None)"

theorem frame_fits_buffer_witness:
  "\<exists>s kb' st' init bs s'. DG_Init demo_env keyboard_init osd_init = Returns (s, kb', st', init) \<and> g_cols s = 100 \<and>
     DG_DrawFrame 1000 (replicate 64000 0) s = (Some bs, s') \<and> length bs \<le> g_out_size s"
proof -
  have a: "atoi ''100'' = 100" by code_simp
  obtain s kb' st' init where i: "DG_Init demo_env keyboard_init osd_init = Returns (s, kb', st', init)"
    and s: "g_cols s = 100" "g_rows s = 24" "g_last_ms s = 0" "g_throttle_ms s = 90"
    by (simp add: DG_Init_def Let_def env_above_def demo_env_def a)
  obtain bs s' where d: "DG_DrawFrame 1000 (replicate 64000 0) s = (Some bs, s')"
    using s by (simp add: DG_DrawFrame_def)
  from frame_fits_buffer [OF i _ d] s have "length bs \<le> g_out_size s" by simp
  with i s d show ?thesis by blast
qed

section \<open>Terminal mode and title\<close>

text \<open>After DG_Init returns, the page's line discipline is in raw mode, whatever the mode was
  before.\<close>

theorem DG_Init_raw:
  assumes "DG_Init getenv kb st = Returns (s, kb', st', init)"
  shows "page_raw st' \<and> c_lflag (tcgetattr st') AND (ICANON OR ECHO) = 0"
proof -
  have c: "(x AND - 12) AND 2 = 0" "(x AND - 12) AND 10 = 0" for x :: u32 by (simp_all add: and.assoc)
  show ?thesis using assms
    by (auto simp: DG_Init_def Let_def tcsetattr_def tcgetattr_def page_raw_def c split: if_splits)
qed

theorem DG_Init_raw_witness:
  "\<exists>r. DG_Init demo_env keyboard_init osd_init = Returns r \<and> page_raw (fst (snd (snd r)))"
proof -
  have a: "atoi ''100'' = 100" by code_simp
  obtain s kb' st' init where i: "DG_Init demo_env keyboard_init osd_init = Returns (s, kb', st', init)"
    by (simp add: DG_Init_def Let_def env_above_def demo_env_def a)
  from DG_Init_raw [OF i] i show ?thesis by simp
qed

text \<open>A title of at most 122 characters is written to the terminal exactly; with 124 characters
  or more the write reads behind the 128-byte buffer.\<close>

theorem window_title_bounds:
  "DG_SetWindowTitle title =
     (if length title \<le> 122 then Returns (ESC # '']0;'' @ title @ [CHR 0x07])
      else if length title = 123 then Returns (ESC # '']0;'' @ title @ [NUL])
      else Undefined)"
  by (auto simp: DG_SetWindowTitle_def Let_def)

end
