(* ===== verification/Ash_Vars.thy ===== *)
theory Ash_Vars
  imports Libbb_Text
begin

text \<open>
  The variables of the shell, \<open>shell/ash.c\<close>: the hash table of variables with their flags, set and unset,
  the list of exported variables, and the local variables of functions.  The configuration is that of
  the build (no RANDOM, MAIL, GETOPTS and bash variables), so PATH is the only variable with a callback.

  A flag word is the set of its bits.  A variable structure is identified by the name it is stored
  under, which never changes; the two texts that live in static buffers (LINENO and FUNCNAME) are
  constructors of their own because the code recognises them by their address.  Allocation is not
  modelled.
\<close>

section \<open>Data\<close>

datatype vflag = VEXPORT | VREADONLY | VSTRFIXED | VTEXTFIXED | VSTACK | VUNSET | VNOFUNC | VNOSET | VNOSAVE

datatype vtext = Text cstr | LinenoVar | FuncnameVar

record var =
  v_flags :: "vflag set"
  v_text :: vtext
  v_func :: bool   \<comment> \<open>the callback changepath\<close>

text \<open>A saved variable; \<open>lv_vp\<close> is None for the saved options \<open>$-\<close>.\<close>

record localvar =
  lv_vp :: "cstr option"
  lv_flags :: "vflag set"
  lv_text :: vtext
  lv_opts :: "bool list"

record ash_vars =
  vartab :: "var list list"
  aflag :: bool
  exitstatus :: int
  lineno :: int
  funcname :: "cstr option"
  linenobuf :: cstr                \<comment> \<open>what stands behind LINENO= in linenovar\<close>
  funcnamebuf :: cstr              \<comment> \<open>what stands behind FUNCNAME= in funcnamevar\<close>
  changepath_calls :: "cstr list"  \<comment> \<open>arguments of the callback so far\<close>
  localvar_stack :: "localvar list list"
  optlist :: "bool list"

datatype ash_error = ReadOnly cstr | BadName cstr | NotInFunction

text \<open>An error is raised by longjmp out of the operation; the state is what it had become by then.\<close>

type_synonym 'a raising = "(ash_error \<times> ash_vars) + 'a"

abbreviation VTABSIZE :: nat where "VTABSIZE \<equiv> 39"
abbreviation EQ :: char where "EQ \<equiv> CHR ''=''"

text \<open>\<open>ash_msg_and_raise_error\<close> overwrites the status, also the 1 that setvareq stores just before it.\<close>

definition raise_error :: "ash_vars \<Rightarrow> ash_vars" where
  "raise_error st = st\<lparr>exitstatus := 2\<rparr>"

section \<open>Names\<close>

definition var_end :: "cstr \<Rightarrow> cstr" where
  "var_end s = (case strchr s EQ of None \<Rightarrow> [] | Some t \<Rightarrow> tl t)"

definition vname :: "cstr \<Rightarrow> cstr" where
  "vname s = takeWhile (\<lambda>c. c \<noteq> EQ \<and> c \<noteq> NUL) s"

definition eq_as_nul :: "char \<Rightarrow> int" where
  "eq_as_nul c = (if c = EQ then 0 else int (ch c))"

function varcmp :: "cstr \<Rightarrow> cstr \<Rightarrow> int" where
  "varcmp p q =
     (if char_at p 0 = char_at q 0 then
        (if char_at p 0 = NUL \<or> char_at p 0 = EQ then 0 else varcmp (tl p) (tl q))
      else eq_as_nul (char_at p 0) - eq_as_nul (char_at q 0))"
  by pat_completeness auto
termination
proof (relation "measure (\<lambda>(p, q). length p)", goal_cases)
  case (2 p q)
  then show ?case by (cases p) auto
qed simp

declare varcmp.simps [simp del]

definition hashvar :: "cstr \<Rightarrow> nat" where
  "hashvar p = (16 * ch (char_at p 0) + sum_list (map ch (vname p))) mod 2 ^ 32 mod VTABSIZE"

definition text_of :: "ash_vars \<Rightarrow> vtext \<Rightarrow> cstr" where
  "text_of st t = (case t of Text s \<Rightarrow> s | LinenoVar \<Rightarrow> ''LINENO='' @ linenobuf st | FuncnameVar \<Rightarrow> ''FUNCNAME='' @ funcnamebuf st)"

section \<open>The table\<close>

definition matches :: "ash_vars \<Rightarrow> cstr \<Rightarrow> var \<Rightarrow> bool" where
  "matches st name v \<longleftrightarrow> varcmp (text_of st (v_text v)) name = 0"

definition findvar :: "ash_vars \<Rightarrow> cstr \<Rightarrow> var option" where
  "findvar st name = find (matches st name) (vartab st ! hashvar name)"

text \<open>Writing through the pointer that the search returns: change, unlink or append the structure.\<close>

fun upd_first :: "('a \<Rightarrow> bool) \<Rightarrow> ('a \<Rightarrow> 'a) \<Rightarrow> 'a list \<Rightarrow> 'a list" where
  "upd_first P f [] = []"
| "upd_first P f (x # xs) = (if P x then f x # xs else x # upd_first P f xs)"

fun del_first :: "('a \<Rightarrow> bool) \<Rightarrow> 'a list \<Rightarrow> 'a list" where
  "del_first P [] = []"
| "del_first P (x # xs) = (if P x then xs else x # del_first P xs)"

definition on_bucket :: "cstr \<Rightarrow> (var list \<Rightarrow> var list) \<Rightarrow> ash_vars \<Rightarrow> ash_vars" where
  "on_bucket name f st = st\<lparr>vartab := (vartab st)[hashvar name := f (vartab st ! hashvar name)]\<rparr>"

definition change_var :: "cstr \<Rightarrow> (var \<Rightarrow> var) \<Rightarrow> ash_vars \<Rightarrow> ash_vars" where
  "change_var name f st = on_bucket name (upd_first (matches st name) f) st"

definition unlink_var :: "cstr \<Rightarrow> ash_vars \<Rightarrow> ash_vars" where
  "unlink_var name st = on_bucket name (del_first (matches st name)) st"

definition append_var :: "cstr \<Rightarrow> var \<Rightarrow> ash_vars \<Rightarrow> ash_vars" where
  "append_var name v st = on_bucket name (\<lambda>b. b @ [v]) st"

text \<open>The built-in variables of the build, linked in at the head of their lists.\<close>

definition varinit :: "var list" where
  "varinit =
     [\<lparr>v_flags = {VSTRFIXED, VTEXTFIXED}, v_text = Text (''IFS='' @ [SP, CHR 0x09, NL]), v_func = False\<rparr>,
      \<lparr>v_flags = {VSTRFIXED, VTEXTFIXED}, v_text = Text ''PATH=/sbin:/usr/sbin:/bin:/usr/bin'', v_func = True\<rparr>,
      \<lparr>v_flags = {VSTRFIXED, VTEXTFIXED}, v_text = Text ''PS1=$ '', v_func = False\<rparr>,
      \<lparr>v_flags = {VSTRFIXED, VTEXTFIXED}, v_text = Text ''PS2=> '', v_func = False\<rparr>,
      \<lparr>v_flags = {VSTRFIXED, VTEXTFIXED}, v_text = Text ''PS4=+ '', v_func = False\<rparr>,
      \<lparr>v_flags = {VSTRFIXED, VTEXTFIXED}, v_text = LinenoVar, v_func = False\<rparr>,
      \<lparr>v_flags = {VSTRFIXED, VTEXTFIXED}, v_text = FuncnameVar, v_func = False\<rparr>,
      \<lparr>v_flags = {VSTRFIXED, VTEXTFIXED, VUNSET}, v_text = Text ''HISTFILE'', v_func = False\<rparr>]"

definition ash_empty :: ash_vars where
  "ash_empty = \<lparr>vartab = replicate VTABSIZE [], aflag = False, exitstatus = 0, lineno = 0, funcname = None,
     linenobuf = [], funcnamebuf = [], changepath_calls = [], localvar_stack = [], optlist = []\<rparr>"

definition initvar :: "ash_vars \<Rightarrow> ash_vars" where
  "initvar st = fold (\<lambda>v s. on_bucket (text_of s (v_text v)) (\<lambda>b. v # b) s) varinit st"

text \<open>\<open>lookupvar\<close>: the value, and the state with the static buffer brought up to date.\<close>

definition lookup_var :: "cstr \<Rightarrow> ash_vars \<Rightarrow> cstr option \<times> ash_vars" where
  "lookup_var name st =
     (case findvar st name of
        None \<Rightarrow> (None, st)
      | Some v \<Rightarrow>
          if VUNSET \<in> v_flags v then (None, st)
          else let st1 = (case v_text v of
                            LinenoVar \<Rightarrow> st\<lparr>linenobuf := dec_of_int (lineno st)\<rparr>
                          | FuncnameVar \<Rightarrow> st\<lparr>funcnamebuf := take 64 (case funcname st of None \<Rightarrow> [] | Some f \<Rightarrow> f)\<rparr>
                          | Text s \<Rightarrow> st)
               in (Some (var_end (text_of st1 (v_text v))), st1))"

definition setvareq :: "cstr \<Rightarrow> vflag set \<Rightarrow> ash_vars \<Rightarrow> ash_vars raising" where
  "setvareq s fl0 st =
     (let fl = fl0 \<union> (if aflag st then {VEXPORT} else {})
      in case findvar st s of
           Some vp \<Rightarrow>
             if VREADONLY \<in> v_flags vp then Inl (ReadOnly (vname (text_of st (v_text vp))), raise_error st)
             else if VNOSET \<in> fl then Inr st
             else (let st1 = (if v_func vp \<and> VNOFUNC \<notin> fl
                              then st\<lparr>changepath_calls := changepath_calls st @ [var_end s]\<rparr> else st)
                   in if (fl \<inter> {VEXPORT, VREADONLY, VSTRFIXED, VUNSET}) \<union> (v_flags vp \<inter> {VSTRFIXED}) = {VUNSET}
                      then Inr (unlink_var s st1)
                      else Inr (change_var s (\<lambda>v. v\<lparr>v_text := Text s,
                             v_flags := fl \<union> (v_flags v - {VTEXTFIXED, VSTACK, VNOSAVE, VUNSET})\<rparr>) st1))
         | None \<Rightarrow>
             if VNOSET \<in> fl then Inr st
             else if fl \<inter> {VEXPORT, VREADONLY, VSTRFIXED, VUNSET} = {VUNSET} then Inr st
             else Inr (append_var s \<lparr>v_flags = fl, v_text = Text s, v_func = False\<rparr> st))"

definition set_var :: "cstr \<Rightarrow> cstr option \<Rightarrow> vflag set \<Rightarrow> ash_vars \<Rightarrow> ash_vars raising" where
  "set_var name val fl st =
     (let (nm, q) = endofname name; p = strchrnul q EQ; namelen = length name - length p
      in if namelen = 0 \<or> p \<noteq> q then Inl (BadName (take namelen name), raise_error st)
         else setvareq (nm @ (case val of None \<Rightarrow> [] | Some v \<Rightarrow> EQ # v))
                (fl \<union> (if val = None then {VUNSET} else {}) \<union> {VNOSAVE}) st)"

definition setvar0 :: "cstr \<Rightarrow> cstr \<Rightarrow> ash_vars \<Rightarrow> ash_vars raising" where
  "setvar0 name val st = set_var name (Some val) {} st"

definition unsetvar :: "cstr \<Rightarrow> ash_vars \<Rightarrow> ash_vars raising" where
  "unsetvar name st = set_var name None {} st"

text \<open>\<open>lp\<close> holds the assignments in front of the command that is about to run.\<close>

definition listvars :: "vflag set \<Rightarrow> vflag set \<Rightarrow> cstr list \<Rightarrow> ash_vars \<Rightarrow> cstr list" where
  "listvars on off lp st =
     filter (\<lambda>t. t \<notin> set lp)
       (map (\<lambda>v. text_of st (v_text v)) (filter (\<lambda>v. v_flags v \<inter> (on \<union> off) = on) (concat (vartab st)))) @ lp"

definition exportcmd_one :: "vflag \<Rightarrow> vflag set \<Rightarrow> cstr \<Rightarrow> ash_vars \<Rightarrow> ash_vars raising" where
  "exportcmd_one flag flag_off name st =
     (case strchr name EQ of
        Some t \<Rightarrow> set_var name (Some (tl t)) ({flag} - flag_off) st
      | None \<Rightarrow>
          (case findvar st name of
             Some vp \<Rightarrow> Inr (change_var name (\<lambda>v. v\<lparr>v_flags := insert flag (v_flags v) - flag_off\<rparr>) st)
           | None \<Rightarrow> set_var name None ({flag} - flag_off) st))"

section \<open>Local variables\<close>

definition pushlocalvars :: "ash_vars \<Rightarrow> ash_vars" where
  "pushlocalvars st = st\<lparr>localvar_stack := [] # localvar_stack st\<rparr>"

definition push_local :: "localvar \<Rightarrow> ash_vars \<Rightarrow> ash_vars" where
  "push_local lv st = st\<lparr>localvar_stack := (lv # hd (localvar_stack st)) # tl (localvar_stack st)\<rparr>"

definition mklocal :: "cstr \<Rightarrow> vflag set \<Rightarrow> ash_vars \<Rightarrow> ash_vars raising" where
  "mklocal name fl st =
     (if list_ex (\<lambda>lv. case lv_vp lv of None \<Rightarrow> False | Some n \<Rightarrow> varcmp n name = 0) (hd (localvar_stack st)) then
        (if EQ \<in> set name then setvareq name {} st else Inr st)
      else if name = ''-'' then
        Inr (push_local \<lparr>lv_vp = None, lv_flags = {}, lv_text = Text [], lv_opts = optlist st\<rparr> st)
      else case findvar st name of
        None \<Rightarrow>
          (case (if EQ \<in> set name then setvareq name ({VSTRFIXED} \<union> fl) st else set_var name None ({VSTRFIXED} \<union> fl) st) of
             Inl e \<Rightarrow> Inl e
           | Inr st1 \<Rightarrow> Inr (push_local \<lparr>lv_vp = Some (vname name), lv_flags = {VUNSET}, lv_text = Text [], lv_opts = []\<rparr> st1))
      | Some vp \<Rightarrow>
          (let st1 = change_var name (\<lambda>v. v\<lparr>v_flags := v_flags v \<union> {VSTRFIXED, VTEXTFIXED}\<rparr>) st
           in case (if EQ \<in> set name then setvareq name fl st1 else unsetvar name st1) of
                Inl e \<Rightarrow> Inl e
              | Inr st2 \<Rightarrow>
                  Inr (push_local \<lparr>lv_vp = Some (vname name), lv_flags = v_flags vp, lv_text = v_text vp, lv_opts = []\<rparr> st2)))"

text \<open>One saved variable of \<open>poplocalvars(0)\<close>.\<close>

definition pop_one :: "localvar \<Rightarrow> ash_vars \<Rightarrow> ash_vars raising" where
  "pop_one lv st =
     (case lv_vp lv of
        None \<Rightarrow> Inr (st\<lparr>optlist := lv_opts lv\<rparr>)
      | Some n \<Rightarrow>
          (case findvar st n of
             None \<Rightarrow> Inr st
           | Some vp \<Rightarrow>
               if lv_flags lv = {VUNSET} then
                 unsetvar (text_of st (v_text vp)) (change_var n (\<lambda>v. v\<lparr>v_flags := v_flags v - {VSTRFIXED, VREADONLY}\<rparr>) st)
               else
                 (let st1 = (if v_func vp
                             then st\<lparr>changepath_calls := changepath_calls st @ [var_end (text_of st (lv_text lv))]\<rparr> else st)
                  in Inr (change_var n (\<lambda>v. v\<lparr>v_flags := lv_flags lv, v_text := lv_text lv\<rparr>) st1))))"

fun pop_all :: "localvar list \<Rightarrow> ash_vars \<Rightarrow> ash_vars raising" where
  "pop_all [] st = Inr st"
| "pop_all (lv # lvs) st = (case pop_one lv st of Inl e \<Rightarrow> Inl e | Inr st1 \<Rightarrow> pop_all lvs st1)"

definition poplocalvars :: "ash_vars \<Rightarrow> ash_vars raising" where
  "poplocalvars st =
     pop_all (hd (localvar_stack st)) (st\<lparr>localvar_stack := tl (localvar_stack st)\<rparr>)"

fun localcmd_args :: "cstr list \<Rightarrow> ash_vars \<Rightarrow> ash_vars raising" where
  "localcmd_args [] st = Inr st"
| "localcmd_args (a # as) st = (case mklocal a {} st of Inl e \<Rightarrow> Inl e | Inr st1 \<Rightarrow> localcmd_args as st1)"

definition localcmd :: "cstr list \<Rightarrow> ash_vars \<Rightarrow> ash_vars raising" where
  "localcmd args st = (if localvar_stack st = [] then Inl (NotInFunction, raise_error st) else localcmd_args args st)"

section \<open>Names select variables\<close>

definition vkey :: "vtext \<Rightarrow> cstr" where
  "vkey t = (case t of Text s \<Rightarrow> vname s | LinenoVar \<Rightarrow> ''LINENO'' | FuncnameVar \<Rightarrow> ''FUNCNAME'')"

lemma vname_Cons: "vname (c # s) = (if c = EQ \<or> c = NUL then [] else c # vname s)" "vname [] = []"
  by (simp_all add: vname_def)

lemma ch_0: "ch c = 0 \<longleftrightarrow> c = NUL"
  using of_char_eq_iff [of c NUL, where 'a = nat] by (simp add: ch_def)

lemma ch_inject: "ch c = ch d \<longleftrightarrow> c = d"
  by (simp add: ch_def)

lemma eq_as_nul_0: "eq_as_nul c = 0 \<longleftrightarrow> c = EQ \<or> c = NUL"
  by (auto simp: eq_as_nul_def ch_0)

lemma eq_as_nul_eq: "eq_as_nul c = eq_as_nul d \<Longrightarrow> c \<noteq> d \<Longrightarrow> (c = EQ \<or> c = NUL) \<and> (d = EQ \<or> d = NUL)"
  by (auto simp: eq_as_nul_def ch_0 ch_inject split: if_splits)

lemma vname_hd: "vname s = [] \<longleftrightarrow> char_at s 0 = EQ \<or> char_at s 0 = NUL"
  by (cases s) (auto simp: vname_Cons)

lemma varcmp_0: "varcmp p q = 0 \<longleftrightarrow> vname p = vname q"
proof (induction p q rule: varcmp.induct)
  case (1 p q)
  show ?case
  proof (cases "char_at p 0 = char_at q 0")
    case True
    show ?thesis
    proof (cases "char_at p 0 = NUL \<or> char_at p 0 = EQ")
      case stop: True
      then have "vname p = []" "vname q = []" using True by (auto simp: vname_hd)
      then show ?thesis using True stop by (subst varcmp.simps) simp
    next
      case False
      then obtain c ps qs where "p = c # ps" "q = c # qs" using True by (cases p; cases q) auto
      then show ?thesis using 1 [OF True False] False by (subst varcmp.simps) (simp add: vname_Cons)
    qed
  next
    case False
    have "eq_as_nul (char_at p 0) - eq_as_nul (char_at q 0) = 0 \<longleftrightarrow> vname p = [] \<and> vname q = []"
    proof
      assume "eq_as_nul (char_at p 0) - eq_as_nul (char_at q 0) = 0"
      then show "vname p = [] \<and> vname q = []" using eq_as_nul_eq [of "char_at p 0" "char_at q 0"] False by (auto simp: vname_hd)
    next
      assume "vname p = [] \<and> vname q = []"
      then show "eq_as_nul (char_at p 0) - eq_as_nul (char_at q 0) = 0"
        using eq_as_nul_0 [of "char_at p 0"] eq_as_nul_0 [of "char_at q 0"] by (auto simp: vname_hd)
    qed
    moreover have "vname p = vname q \<Longrightarrow> vname p = []"
      using False by (cases p; cases q) (auto simp: vname_Cons split: if_splits)
    ultimately show ?thesis using False by (subst varcmp.simps) auto
  qed
qed

lemma vname_text_of: "vname (text_of st t) = vkey t"
  by (cases t) (simp_all add: text_of_def vkey_def vname_Cons)

lemma matches_iff: "matches st name v \<longleftrightarrow> vkey (v_text v) = vname name"
  by (simp add: matches_def varcmp_0 vname_text_of)

lemma var_name_vname: "var_name n \<Longrightarrow> vname n = n" "var_name n \<Longrightarrow> vname (n @ EQ # v) = n"
proof -
  assume n: "var_name n"
  have c: "is_in_name c \<Longrightarrow> c \<noteq> EQ \<and> c \<noteq> NUL" "is_name c \<Longrightarrow> c \<noteq> EQ \<and> c \<noteq> NUL" for c
    by (auto simp: is_in_name_def is_name_def isalnum_def isalpha_def isdigit_def isupper_def islower_def ch_def)
  have a: "\<forall>c\<in>set n. c \<noteq> EQ \<and> c \<noteq> NUL" using n c by (cases n) (auto simp: var_name_def)
  then show "vname n = n" "vname (n @ EQ # v) = n" by (auto simp: vname_def takeWhile_append takeWhile_eq_all_conv)
qed

declare varcmp_0 [code_unfold]

lemma hashvar_vname: "vname p \<noteq> [] \<Longrightarrow> hashvar (vname p) = hashvar p"
  by (cases p) (auto simp: hashvar_def vname_Cons, auto simp: vname_def)

lemma hashvar_code [code]:
  "hashvar p = nat ((16 * of_char (char_at p 0) + sum_list (map of_char (vname p))) mod 4294967296 mod (39 :: int))"
proof -
  have s: "int (sum_list (map ch cs)) = sum_list (map of_char cs)" for cs by (induction cs) (simp_all add: ch_def of_nat_of_char)
  have "int (hashvar p) = (16 * int (ch (char_at p 0)) + int (sum_list (map ch (vname p)))) mod 4294967296 mod 39"
    by (simp add: hashvar_def zmod_int)
  then have "int (hashvar p) = (16 * of_char (char_at p 0) + sum_list (map of_char (vname p))) mod 4294967296 mod 39"
    by (simp add: s ch_def of_nat_of_char)
  then show ?thesis by linarith
qed

lemma hashvar_bound: "hashvar p < VTABSIZE"
  by (simp add: hashvar_def)

section \<open>The table as a map\<close>

text \<open>Searching a list by key after a change, a removal or an insertion at the end.\<close>

lemma find_upd_first:
  assumes "\<And>v. k v = n \<Longrightarrow> k (f v) = n"
  shows "find (\<lambda>v. k v = m) (upd_first (\<lambda>v. k v = n) f b) =
    (if m = n then map_option f (find (\<lambda>v. k v = n) b) else find (\<lambda>v. k v = m) b)"
  using assms by (induction b) auto

lemma map_upd_first:
  assumes "\<And>v. k v = n \<Longrightarrow> k (f v) = n"
  shows "map k (upd_first (\<lambda>v. k v = n) f b) = map k b"
  using assms by (induction b) auto

lemma find_del_first:
  assumes "distinct (map k b)"
  shows "find (\<lambda>v. k v = m) (del_first (\<lambda>v. k v = n) b) = (if m = n then None else find (\<lambda>v. k v = m) b)"
  using assms by (induction b) (auto simp: find_None_iff image_iff)

lemma map_del_first: "set (map k (del_first P b)) \<subseteq> set (map k b)" "distinct (map k b) \<Longrightarrow> distinct (map k (del_first P b))"
proof -
  show s: "set (map k (del_first P b)) \<subseteq> set (map k b)" for b by (induction b) auto
  show "distinct (map k b) \<Longrightarrow> distinct (map k (del_first P b))" using s by (induction b) auto
qed

lemma find_append_end:
  assumes "find (\<lambda>x. k x = n) b = None" and "k v = n"
  shows "find (\<lambda>x. k x = m) (b @ [v]) = (if m = n then Some v else find (\<lambda>x. k x = m) b)"
  using assms by (induction b) auto

abbreviation key :: "var \<Rightarrow> cstr" where "key v \<equiv> vkey (v_text v)"

definition vars_ok :: "ash_vars \<Rightarrow> bool" where
  "vars_ok st \<longleftrightarrow> length (vartab st) = VTABSIZE \<and>
     (\<forall>i<VTABSIZE. distinct (map key (vartab st ! i)) \<and> (\<forall>n\<in>set (map key (vartab st ! i)). var_name n \<and> hashvar n = i))"

lemma findvar_find: "findvar st name = find (\<lambda>v. key v = vname name) (vartab st ! hashvar name)"
  by (simp add: findvar_def matches_iff [abs_def])

lemma findvar_vname: "vname s = n \<Longrightarrow> var_name n \<Longrightarrow> findvar st s = findvar st n"
  using hashvar_vname [of s] var_name_vname(1) [of n] by (auto simp: findvar_find var_name_def)

lemma on_bucket_facts:
  assumes "vars_ok st" and "var_name n"
    and "\<And>m. find (\<lambda>v. key v = m) (g (vartab st ! hashvar n)) = F m (find (\<lambda>v. key v = m) (vartab st ! hashvar n))"
    and "\<And>m x. m \<noteq> n \<Longrightarrow> F m x = x"
    and "distinct (map key (g (vartab st ! hashvar n)))"
    and "set (map key (g (vartab st ! hashvar n))) \<subseteq> insert n (set (map key (vartab st ! hashvar n)))"
  shows "vars_ok (on_bucket n g st)" and "var_name m \<Longrightarrow> findvar (on_bucket n g st) m = F m (findvar st m)"
proof -
  have len: "length (vartab st) = VTABSIZE" using assms(1) by (simp add: vars_ok_def)
  then show "vars_ok (on_bucket n g st)"
    using assms(1,2,5,6) hashvar_bound [of n] by (auto simp: vars_ok_def on_bucket_def nth_list_update)
  show "findvar (on_bucket n g st) m = F m (findvar st m)" if "var_name m"
    using assms(3,4) len hashvar_bound [of n] var_name_vname(1) [OF that]
    by (cases "m = n") (auto simp: findvar_find on_bucket_def nth_list_update)
qed

lemma bucket_distinct: "vars_ok st \<Longrightarrow> distinct (map key (vartab st ! hashvar n))"
  using hashvar_bound [of n] by (simp add: vars_ok_def)

lemma on_bucket_vname: "vname s = n \<Longrightarrow> var_name n \<Longrightarrow> on_bucket s g st = on_bucket n g st"
  using hashvar_vname [of s] by (auto simp: on_bucket_def var_name_def)

text \<open>\<open>s\<close> is a name or an assignment, \<open>n\<close> its name.\<close>

lemma change_var_facts:
  assumes "vars_ok st" and "vname s = n" and "var_name n" and "\<And>v. key v = n \<Longrightarrow> key (f v) = n"
  shows "vars_ok (change_var s f st)"
    and "var_name m \<Longrightarrow> findvar (change_var s f st) m = (if m = n then map_option f (findvar st n) else findvar st m)"
proof -
  let ?g = "upd_first (matches st s) f"
  have g: "?g = upd_first (\<lambda>v. key v = n) f" using assms(2) by (simp add: matches_iff [abs_def])
  have c: "change_var s f st = on_bucket n ?g st" using on_bucket_vname [OF assms(2,3)] by (simp add: change_var_def)
  note f = on_bucket_facts [OF assms(1,3), where g = ?g and F = "\<lambda>m x. if m = n then map_option f x else x"]
  have find: "find (\<lambda>v. key v = m) (?g (vartab st ! hashvar n)) =
      (if m = n then map_option f (find (\<lambda>v. key v = m) (vartab st ! hashvar n)) else find (\<lambda>v. key v = m) (vartab st ! hashvar n))" for m
    unfolding g using find_upd_first [of key n f m] assms(4) by simp
  have m: "map key (?g (vartab st ! hashvar n)) = map key (vartab st ! hashvar n)"
    unfolding g using map_upd_first [of key n f] assms(4) by simp
  have d: "distinct (map key (?g (vartab st ! hashvar n)))"
    "set (map key (?g (vartab st ! hashvar n))) \<subseteq> insert n (set (map key (vartab st ! hashvar n)))"
    unfolding m using bucket_distinct [OF assms(1), of n] by auto
  show "vars_ok (change_var s f st)" unfolding c by (rule f(1) [OF find _ d]) simp
  show "findvar (change_var s f st) m = (if m = n then map_option f (findvar st n) else findvar st m)" if "var_name m"
    unfolding c using f(2) [OF find _ d that] by simp
qed

lemma unlink_var_facts:
  assumes "vars_ok st" and "vname s = n" and "var_name n"
  shows "vars_ok (unlink_var s st)"
    and "var_name m \<Longrightarrow> findvar (unlink_var s st) m = (if m = n then None else findvar st m)"
proof -
  let ?g = "del_first (matches st s)"
  have g: "?g = del_first (\<lambda>v. key v = n)" using assms(2) by (simp add: matches_iff [abs_def])
  have c: "unlink_var s st = on_bucket n ?g st" using on_bucket_vname [OF assms(2,3)] by (simp add: unlink_var_def)
  note d = bucket_distinct [OF assms(1), of n]
  note f = on_bucket_facts [OF assms(1,3), where g = ?g and F = "\<lambda>m x. if m = n then None else x"]
  have find: "find (\<lambda>v. key v = m) (?g (vartab st ! hashvar n)) =
      (if m = n then None else find (\<lambda>v. key v = m) (vartab st ! hashvar n))" for m
    unfolding g by (rule find_del_first [OF d])
  have e: "distinct (map key (?g (vartab st ! hashvar n)))"
    "set (map key (?g (vartab st ! hashvar n))) \<subseteq> insert n (set (map key (vartab st ! hashvar n)))"
    using map_del_first(2) [OF d] map_del_first(1) [where k = key and b = "vartab st ! hashvar n"] by blast+
  show "vars_ok (unlink_var s st)" unfolding c by (rule f(1) [OF find _ e]) simp
  show "findvar (unlink_var s st) m = (if m = n then None else findvar st m)" if "var_name m"
    unfolding c using f(2) [OF find _ e that] by simp
qed

lemma append_var_facts:
  assumes "vars_ok st" and "vname s = n" and "var_name n" and "findvar st n = None" and "key v = n"
  shows "vars_ok (append_var s v st)"
    and "var_name m \<Longrightarrow> findvar (append_var s v st) m = (if m = n then Some v else findvar st m)"
proof -
  let ?g = "\<lambda>b. b @ [v]"
  have c: "append_var s v st = on_bucket n ?g st" using on_bucket_vname [OF assms(2,3)] by (simp add: append_var_def)
  note d = bucket_distinct [OF assms(1), of n]
  have none: "find (\<lambda>v. key v = n) (vartab st ! hashvar n) = None"
    using assms(4) var_name_vname(1) [OF assms(3)] by (simp add: findvar_find)
  note f = on_bucket_facts [OF assms(1,3), where g = ?g and F = "\<lambda>m x. if m = n then Some v else x"]
  have find: "find (\<lambda>v. key v = m) (?g (vartab st ! hashvar n)) =
      (if m = n then Some v else find (\<lambda>v. key v = m) (vartab st ! hashvar n))" for m
    by (rule find_append_end [OF none assms(5)])
  have e: "distinct (map key (?g (vartab st ! hashvar n)))"
    "set (map key (?g (vartab st ! hashvar n))) \<subseteq> insert n (set (map key (vartab st ! hashvar n)))"
    using d none assms(5) by (auto simp: find_None_iff)
  show "vars_ok (append_var s v st)" unfolding c by (rule f(1) [OF find _ e]) simp
  show "findvar (append_var s v st) m = (if m = n then Some v else findvar st m)" if "var_name m"
    unfolding c using f(2) [OF find _ e that] by simp
qed

lemma findvar_key: "findvar st n = Some v \<Longrightarrow> var_name n \<Longrightarrow> key v = n"
  using var_name_vname(1) [of n] by (auto simp: findvar_find find_Some_iff)

section \<open>Setting a variable\<close>

text \<open>What an assignment does to the entry of its variable.\<close>

definition entry_after :: "vflag set \<Rightarrow> cstr \<Rightarrow> var option \<Rightarrow> var option" where
  "entry_after fl s old =
     (if VNOSET \<in> fl then old
      else case old of
        Some vp \<Rightarrow>
          if (fl \<inter> {VEXPORT, VREADONLY, VSTRFIXED, VUNSET}) \<union> (v_flags vp \<inter> {VSTRFIXED}) = {VUNSET} then None
          else Some (vp\<lparr>v_text := Text s, v_flags := fl \<union> (v_flags vp - {VTEXTFIXED, VSTACK, VNOSAVE, VUNSET})\<rparr>)
      | None \<Rightarrow>
          if fl \<inter> {VEXPORT, VREADONLY, VSTRFIXED, VUNSET} = {VUNSET} then None
          else Some \<lparr>v_flags = fl, v_text = Text s, v_func = False\<rparr>)"

definition same_env :: "ash_vars \<Rightarrow> ash_vars \<Rightarrow> bool" where
  "same_env st st' \<longleftrightarrow> aflag st' = aflag st \<and> lineno st' = lineno st \<and> funcname st' = funcname st \<and>
     linenobuf st' = linenobuf st \<and> funcnamebuf st' = funcnamebuf st \<and> localvar_stack st' = localvar_stack st"

lemma same_env_trans: "same_env a b \<Longrightarrow> same_env b c \<Longrightarrow> same_env a c"
  by (simp add: same_env_def)

lemma same_env_ops [simp]:
  "same_env st (change_var s f st)" "same_env st (unlink_var s st)" "same_env st (append_var s v st)"
  "same_env st (st\<lparr>changepath_calls := c\<rparr>)"
  by (simp_all add: same_env_def change_var_def unlink_var_def append_var_def on_bucket_def)

lemma calls_irrelevant [simp]:
  "vars_ok (st\<lparr>changepath_calls := c\<rparr>) = vars_ok st" "findvar (st\<lparr>changepath_calls := c\<rparr>) = findvar st"
  by (simp_all add: vars_ok_def findvar_find fun_eq_iff)

text \<open>
  \<open>updates st n e st'\<close>: the operation kept the table well formed, made \<open>e\<close> the entry of \<open>n\<close> and left every
  other variable and the rest of the state alone.
\<close>

definition updates :: "ash_vars \<Rightarrow> cstr \<Rightarrow> var option \<Rightarrow> ash_vars \<Rightarrow> bool" where
  "updates st n e st' \<longleftrightarrow> vars_ok st' \<and> same_env st st' \<and>
     (\<forall>m. var_name m \<longrightarrow> findvar st' m = (if m = n then e else findvar st m))"

lemma updates_same: "vars_ok st \<Longrightarrow> updates st n (findvar st n) st"
  by (simp add: updates_def same_env_def)

lemma updates_calls: "updates (st\<lparr>changepath_calls := c\<rparr>) n e st' \<longleftrightarrow> updates st n e st'"
  by (simp add: updates_def same_env_def)

lemma updates_change:
  "vars_ok st \<Longrightarrow> vname s = n \<Longrightarrow> var_name n \<Longrightarrow> (\<And>v. key v = n \<Longrightarrow> key (f v) = n) \<Longrightarrow>
   updates st n (map_option f (findvar st n)) (change_var s f st)"
  using change_var_facts [of st s n f] by (simp add: updates_def)

lemma updates_unlink: "vars_ok st \<Longrightarrow> vname s = n \<Longrightarrow> var_name n \<Longrightarrow> updates st n None (unlink_var s st)"
  using unlink_var_facts [of st s n] by (simp add: updates_def)

lemma updates_append:
  "vars_ok st \<Longrightarrow> vname s = n \<Longrightarrow> var_name n \<Longrightarrow> findvar st n = None \<Longrightarrow> key v = n \<Longrightarrow>
   updates st n (Some v) (append_var s v st)"
  using append_var_facts [of st s n v] by (simp add: updates_def)

lemma setvareq_updates:
  assumes "vars_ok st" and "vname s = n" and "var_name n" and "setvareq s fl st = Inr st'"
  shows "updates st n (entry_after (fl \<union> (if aflag st then {VEXPORT} else {})) s (findvar st n)) st'"
proof -
  let ?fl = "fl \<union> (if aflag st then {VEXPORT} else {})"
  have fs: "findvar st s = findvar st n" by (rule findvar_vname [OF assms(2,3)])
  have k: "key (v\<lparr>v_text := Text s, v_flags := x\<rparr>) = n" for v x using assms(2) by (simp add: vkey_def)
  show ?thesis
  proof (cases "findvar st n")
    case None
    then show ?thesis
      using assms(4) fs updates_same [OF assms(1), of n] updates_append [OF assms(1-3) None, of "\<lparr>v_flags = ?fl, v_text = Text s, v_func = False\<rparr>"] k
      by (auto simp: setvareq_def entry_after_def Let_def vkey_def assms(2) split: if_splits)
  next
    case (Some vp)
    let ?st1 = "if v_func vp \<and> VNOFUNC \<notin> ?fl then st\<lparr>changepath_calls := changepath_calls st @ [var_end s]\<rparr> else st"
    let ?f = "\<lambda>v. v\<lparr>v_text := Text s, v_flags := ?fl \<union> (v_flags v - {VTEXTFIXED, VSTACK, VNOSAVE, VUNSET})\<rparr>"
    have ok1: "vars_ok ?st1" "findvar ?st1 = findvar st" using assms(1) by auto
    have u: "updates st n e x \<longleftrightarrow> updates ?st1 n e x" for e x by (simp add: updates_calls)
    have a: "updates st n (Some (?f vp)) (change_var s ?f ?st1)"
      unfolding u using updates_change [OF ok1(1) assms(2,3), of ?f] k Some ok1(2) by simp
    have b: "updates st n None (unlink_var s ?st1)" unfolding u by (rule updates_unlink [OF ok1(1) assms(2,3)])
    show ?thesis
    proof (cases "VNOSET \<in> ?fl")
      case True
      then show ?thesis using assms(4) fs Some updates_same [OF assms(1), of n]
        by (simp add: setvareq_def entry_after_def Let_def split: if_splits)
    next
      case False
      then show ?thesis using assms(4) fs Some a b
        by (simp add: setvareq_def entry_after_def Let_def split: if_splits)
    qed
  qed
qed

lemma set_var_setvareq:
  assumes "set_var name val fl st = Inr st'"
  shows "var_name (vname name) \<and> setvareq (vname name @ (case val of None \<Rightarrow> [] | Some v \<Rightarrow> EQ # v))
     (fl \<union> (if val = None then {VUNSET} else {}) \<union> {VNOSAVE}) st = Inr st'"
proof -
  obtain nm q where e: "endofname name = (nm, q)" by force
  note ap = endofname_append [OF e]
  have r: "strchrnul q EQ = q" "nm \<noteq> []"
    using assms e ap by (auto simp: set_var_def Let_def split: if_splits)
  have nn: "var_name nm" using e r(2) by (cases name) (auto simp: var_name_def split: if_splits dest: set_takeWhileD)
  have "q = [] \<or> hd q = EQ" using r(1) dropWhile_Cons_hd [of "\<lambda>x. x \<noteq> EQ" q] by (cases q) (simp_all only: strchrnul_def list.sel, blast+)
  then have "vname name = nm" using ap var_name_vname [OF nn] by (cases q) auto
  then show ?thesis using assms e nn by (auto simp: set_var_def Let_def split: if_splits option.splits)
qed

lemma set_var_name:
  assumes "var_name n"
  shows "set_var n val fl st = setvareq (n @ (case val of None \<Rightarrow> [] | Some v \<Rightarrow> EQ # v))
     (fl \<union> (if val = None then {VUNSET} else {}) \<union> {VNOSAVE}) st"
proof -
  have "endofname n = (n, [])"
    using assms by (cases n) (auto simp: var_name_def takeWhile_eq_all_conv dropWhile_eq_Nil_conv)
  moreover have "length n \<noteq> 0" using assms by (auto simp: var_name_def)
  ultimately show ?thesis by (simp add: set_var_def strchrnul_def)
qed

section \<open>Values\<close>

definition text_value :: "ash_vars \<Rightarrow> vtext \<Rightarrow> cstr" where
  "text_value st t = (case t of Text s \<Rightarrow> var_end s | LinenoVar \<Rightarrow> dec_of_int (lineno st)
     | FuncnameVar \<Rightarrow> take 64 (case funcname st of None \<Rightarrow> [] | Some f \<Rightarrow> f))"

definition entry_value :: "ash_vars \<Rightarrow> var option \<Rightarrow> cstr option" where
  "entry_value st e =
     (case e of None \<Rightarrow> None | Some v \<Rightarrow> if VUNSET \<in> v_flags v then None else Some (text_value st (v_text v)))"

definition var_value :: "ash_vars \<Rightarrow> cstr \<Rightarrow> cstr option" where
  "var_value st n = fst (lookup_var n st)"

lemma var_value_entry: "var_value st n = entry_value st (findvar st n)"
  by (auto simp: var_value_def lookup_var_def entry_value_def text_value_def text_of_def var_end_def strchr_def
      split: option.splits vtext.splits)

lemma entry_value_env: "same_env st st' \<Longrightarrow> entry_value st' e = entry_value st e"
  by (simp add: entry_value_def text_value_def same_env_def split: option.splits vtext.splits)

lemma entry_value_lines: "lineno a = lineno b \<Longrightarrow> funcname a = funcname b \<Longrightarrow> entry_value a e = entry_value b e"
  by (simp add: entry_value_def text_value_def split: option.splits vtext.splits)

lemma updates_value:
  "updates st n e st' \<Longrightarrow> var_name m \<Longrightarrow> var_value st' m = (if m = n then entry_value st e else var_value st m)"
  using entry_value_env [of st st'] by (auto simp: var_value_entry updates_def)

lemma var_end_assignment: "var_name n \<Longrightarrow> var_end (n @ EQ # v) = v"
proof -
  assume "var_name n"
  then have "vname n = n" by (rule var_name_vname)
  then have "EQ \<notin> set n" unfolding vname_def by (metis (mono_tags, lifting) set_takeWhileD)
  then have "dropWhile (\<lambda>x. x \<noteq> EQ) (n @ EQ # v) = EQ # v" by (induction n) auto
  then show "var_end (n @ EQ # v) = v" by (simp add: var_end_def strchr_def)
qed

text \<open>Flags that a command may give to a variable.\<close>

definition user_flags :: "vflag set \<Rightarrow> bool" where
  "user_flags fl \<longleftrightarrow> fl \<subseteq> {VEXPORT, VREADONLY, VSTRFIXED}"

lemma entry_after_value:
  assumes "var_name n" and "fl \<inter> {VNOSET, VUNSET} = {}"
  shows "entry_value st (entry_after (fl \<union> {VNOSAVE}) (n @ EQ # v) old) = Some v"
    and "entry_value st (entry_after (fl \<union> {VUNSET, VNOSAVE}) n old) = None"
  using assms var_end_assignment [OF assms(1)]
  by (auto simp: entry_after_def entry_value_def text_value_def split: option.splits)

lemma set_var_updates:
  assumes "vars_ok st" and "var_name n" and "fl \<inter> {VNOSET, VUNSET} = {}" and "set_var n val fl st = Inr st'"
  shows "\<exists>e. updates st n e st' \<and> entry_value st e = val"
proof -
  let ?s = "n @ (case val of None \<Rightarrow> [] | Some v \<Rightarrow> EQ # v)"
  let ?fl = "fl \<union> (if val = None then {VUNSET} else {}) \<union> {VNOSAVE}"
  let ?a = "if aflag st then {VEXPORT} else {}"
  have n: "vname ?s = n" using var_name_vname [OF assms(2)] by (cases val) auto
  have "setvareq ?s ?fl st = Inr st'" using assms(4) unfolding set_var_name [OF assms(2)] .
  then have "updates st n (entry_after (?fl \<union> ?a) ?s (findvar st n)) st'"
    by (rule setvareq_updates [OF assms(1) n assms(2)])
  moreover have "entry_value st (entry_after (?fl \<union> ?a) ?s (findvar st n)) = val"
  proof (cases val)
    case None
    have "?fl \<union> ?a = (fl \<union> ?a) \<union> {VUNSET, VNOSAVE}" using None by auto
    then show ?thesis using entry_after_value(2) [OF assms(2), of "fl \<union> ?a"] assms(3) None by auto
  next
    case (Some v)
    have "?fl \<union> ?a = (fl \<union> ?a) \<union> {VNOSAVE}" using Some by auto
    then show ?thesis using entry_after_value(1) [OF assms(2), of "fl \<union> ?a"] assms(3) Some by auto
  qed
  ultimately show ?thesis by blast
qed

definition readonly_var :: "ash_vars \<Rightarrow> cstr \<Rightarrow> bool" where
  "readonly_var st n \<longleftrightarrow> (case findvar st n of None \<Rightarrow> False | Some v \<Rightarrow> VREADONLY \<in> v_flags v)"

lemma set_var_raises:
  assumes "var_name n"
  shows "(\<exists>e. set_var n val fl st = Inl e) \<longleftrightarrow> readonly_var st n"
proof -
  have "vname (n @ (case val of None \<Rightarrow> [] | Some v \<Rightarrow> EQ # v)) = n"
    using var_name_vname [OF assms] by (cases val) auto
  then have "findvar st (n @ (case val of None \<Rightarrow> [] | Some v \<Rightarrow> EQ # v)) = findvar st n"
    using findvar_vname assms by blast
  then show ?thesis using set_var_name [OF assms, of val fl st]
    by (auto simp: setvareq_def readonly_var_def Let_def split: option.splits)
qed

text \<open>C10: the hash table of variables implements a map from names to values: setting (or, with no value,
  unsetting) a variable changes the value of that variable and of no other and keeps the table well
  formed; the only assignment that is refused is one to a read-only variable.\<close>

theorem set_var_refines:
  assumes "vars_ok st" and "var_name n" and "user_flags fl"
  shows "case set_var n val fl st of
      Inl _ \<Rightarrow> readonly_var st n
    | Inr st' \<Rightarrow> \<not> readonly_var st n \<and> vars_ok st' \<and>
        (\<forall>m. var_name m \<longrightarrow> var_value st' m = (if m = n then val else var_value st m))"
proof (cases "set_var n val fl st")
  case (Inl e)
  then show ?thesis using set_var_raises [OF assms(2), of val fl st] by auto
next
  case (Inr st')
  have "\<not> readonly_var st n" using set_var_raises [OF assms(2), of val fl st] Inr by auto
  moreover obtain e where e: "updates st n e st'" "entry_value st e = val"
    using set_var_updates [OF assms(1,2) _ Inr] assms(3) by (auto simp: user_flags_def)
  ultimately show ?thesis using Inr updates_value [OF e(1)] e by (auto simp: updates_def)
qed

section \<open>The initial table\<close>

lemma prepend_var_facts:
  assumes "vars_ok st" and "vname s = n" and "var_name n" and "findvar st n = None" and "key v = n"
  shows "vars_ok (on_bucket s (\<lambda>b. v # b) st)"
    and "var_name m \<Longrightarrow> findvar (on_bucket s (\<lambda>b. v # b) st) m = (if m = n then Some v else findvar st m)"
proof -
  let ?g = "\<lambda>b. v # b"
  have none: "find (\<lambda>v. key v = n) (vartab st ! hashvar n) = None"
    using assms(4) var_name_vname(1) [OF assms(3)] by (simp add: findvar_find)
  note f = on_bucket_facts [OF assms(1,3), where g = ?g and F = "\<lambda>m x. if m = n then Some v else x"]
  have find: "find (\<lambda>v. key v = m) (?g (vartab st ! hashvar n)) =
      (if m = n then Some v else find (\<lambda>v. key v = m) (vartab st ! hashvar n))" for m
    using assms(5) by auto
  have e: "distinct (map key (?g (vartab st ! hashvar n)))"
    "set (map key (?g (vartab st ! hashvar n))) \<subseteq> insert n (set (map key (vartab st ! hashvar n)))"
    using bucket_distinct [OF assms(1), of n] none assms(5) by (auto simp: find_None_iff)
  show "vars_ok (on_bucket s ?g st)" unfolding on_bucket_vname [OF assms(2,3)] by (rule f(1) [OF find _ e]) simp
  show "findvar (on_bucket s ?g st) m = (if m = n then Some v else findvar st m)" if "var_name m"
    unfolding on_bucket_vname [OF assms(2,3)] using f(2) [OF find _ e that] by simp
qed

lemma prepend_all_facts:
  assumes "vars_ok st" and "distinct (map key vs)" and "\<forall>v\<in>set vs. var_name (key v) \<and> findvar st (key v) = None"
  shows "vars_ok (fold (\<lambda>v s. on_bucket (text_of s (v_text v)) (\<lambda>b. v # b) s) vs st) \<and>
    (\<forall>m. var_name m \<longrightarrow> findvar (fold (\<lambda>v s. on_bucket (text_of s (v_text v)) (\<lambda>b. v # b) s) vs st) m =
       (case find (\<lambda>v. key v = m) vs of None \<Rightarrow> findvar st m | Some v \<Rightarrow> Some v))"
  using assms
proof (induction vs arbitrary: st)
  case (Cons v vs)
  let ?st = "on_bucket (text_of st (v_text v)) (\<lambda>b. v # b) st"
  have n: "vname (text_of st (v_text v)) = key v" by (rule vname_text_of)
  note p = prepend_var_facts [OF Cons.prems(1) n, of v]
  have st: "vars_ok ?st" "\<And>m. var_name m \<Longrightarrow> findvar ?st m = (if m = key v then Some v else findvar st m)"
    using p Cons.prems by simp_all
  have none: "find (\<lambda>u. key u = key v) vs = None" using Cons.prems(2) by (auto simp: find_None_iff image_iff)
  have "\<forall>u\<in>set vs. var_name (key u) \<and> findvar ?st (key u) = None"
  proof
    fix u assume u: "u \<in> set vs"
    then have "key u \<noteq> key v" using Cons.prems(2) by (auto simp: image_iff)
    then show "var_name (key u) \<and> findvar ?st (key u) = None" using Cons.prems(3) u st(2) by simp
  qed
  with Cons.IH [OF st(1)] Cons.prems(2)
  have IH: "vars_ok (fold (\<lambda>v s. on_bucket (text_of s (v_text v)) (\<lambda>b. v # b) s) vs ?st)"
    "\<And>m. var_name m \<Longrightarrow> findvar (fold (\<lambda>v s. on_bucket (text_of s (v_text v)) (\<lambda>b. v # b) s) vs ?st) m =
       (case find (\<lambda>v. key v = m) vs of None \<Rightarrow> findvar ?st m | Some v \<Rightarrow> Some v)" by simp_all
  show ?case
  proof (intro conjI allI impI)
    fix m assume m: "var_name m"
    show "findvar (fold (\<lambda>v s. on_bucket (text_of s (v_text v)) (\<lambda>b. v # b) s) (v # vs) st) m =
       (case find (\<lambda>v. key v = m) (v # vs) of None \<Rightarrow> findvar st m | Some v \<Rightarrow> Some v)"
      using IH(2) [OF m] st(2) [OF m] none by (cases "m = key v") (auto split: option.splits)
  qed (use IH(1) in simp)
qed simp

lemma vars_ok_empty: "vars_ok ash_empty" "findvar ash_empty n = None"
  using hashvar_bound [of n] by (simp_all add: vars_ok_def ash_empty_def findvar_find)

lemma varinit_keys: "map key varinit = [''IFS'', ''PATH'', ''PS1'', ''PS2'', ''PS4'', ''LINENO'', ''FUNCNAME'', ''HISTFILE'']"
  by code_simp

lemma init_facts:
  "vars_ok (initvar ash_empty)" "var_name m \<Longrightarrow> findvar (initvar ash_empty) m = find (\<lambda>v. key v = m) varinit"
proof -
  have "list_all var_name [''IFS'', ''PATH'', ''PS1'', ''PS2'', ''PS4'', ''LINENO'', ''FUNCNAME'', ''HISTFILE'']" by code_simp
  then have "\<forall>n\<in>set (map key varinit). var_name n" unfolding varinit_keys list_all_iff .
  then have k: "\<forall>v\<in>set varinit. var_name (key v) \<and> findvar ash_empty (key v) = None" using vars_ok_empty(2) by simp
  have d: "distinct (map key varinit)" unfolding varinit_keys by simp
  note p = prepend_all_facts [OF vars_ok_empty(1) d k]
  show "vars_ok (initvar ash_empty)" using p by (simp add: initvar_def)
  show "findvar (initvar ash_empty) m = find (\<lambda>v. key v = m) varinit" if "var_name m"
    using p that vars_ok_empty(2) by (auto simp: initvar_def split: option.splits)
qed

theorem set_var_refines_witness:
  "case set_var ''x'' (Some ''5'') {} (initvar ash_empty) of
     Inl _ \<Rightarrow> False
   | Inr st' \<Rightarrow> var_value st' ''x'' = Some ''5'' \<and> var_value st' ''PS1'' = Some ''$ ''"
proof -
  have n: "var_name ''x''" "var_name ''PS1''" by code_simp+
  have f: "find (\<lambda>v. key v = ''x'') varinit = None" "map_option (\<lambda>v. (v_flags v, v_text v)) (find (\<lambda>v. key v = ''PS1'') varinit)
      = Some ({VSTRFIXED, VTEXTFIXED}, Text ''PS1=$ '')" by code_simp+
  have r: "\<not> readonly_var (initvar ash_empty) ''x''" using init_facts(2) [OF n(1)] f by (simp add: readonly_var_def)
  have e: "var_end ''PS1=$ '' = ''$ ''" by code_simp
  obtain v where "find (\<lambda>v. key v = ''PS1'') varinit = Some v" and v: "v_flags v = {VSTRFIXED, VTEXTFIXED}" "v_text v = Text ''PS1=$ ''"
    using f(2) by (cases "find (\<lambda>v. key v = ''PS1'') varinit") simp_all
  then have "findvar (initvar ash_empty) ''PS1'' = Some v" using init_facts(2) [OF n(2)] by simp
  then have p: "var_value (initvar ash_empty) ''PS1'' = Some ''$ ''"
    using v e by (simp add: var_value_entry entry_value_def text_value_def)
  have u: "user_flags {}" by (simp add: user_flags_def)
  from set_var_refines [OF init_facts(1) n(1) u, of "Some ''5''"] r n p show ?thesis by (auto split: sum.splits)
qed

end
