(* ===== verification/Ash_Math.thy ===== *)
theory Ash_Math
  imports Libbb_Text "HOL-Library.Signed_Division"
begin

text \<open>
  Shell arithmetic, \<open>guest/busybox/upstream/shell/math.c\<close>, with 64-bit integers: the operator
  tokens, variable lookup with its recursion check, the application of an operator to the number
  stack, the tokeniser and the operator-precedence loop of \<open>evaluate_string\<close>.

  Integers are 64-bit words; addition, negation and multiplication wrap and shift counts are
  taken modulo 64, as the i64 instructions of the wasm target do.  The callbacks of
  \<open>arith_state_t\<close> are fields of \<open>arith_state\<close>, over any type of variable store; \<open>setvar\<close> gives None
  when it does not return (an error of the shell).  The recursion of \<open>evaluate_string\<close> through
  variables is bounded by fuel; a later theorem says how much is enough.
\<close>

unbundle bit_operations_syntax

type_synonym arith_t = "64 word"
type_synonym operator = nat

section \<open>Operator tokens\<close>

definition tok_decl :: "nat \<Rightarrow> nat \<Rightarrow> operator" where
  "tok_decl prec ident = ident * 32 + prec"

definition PREC :: "operator \<Rightarrow> nat" where
  "PREC op = op mod 32"

abbreviation (input) TOK_LPAREN :: operator where "TOK_LPAREN \<equiv> 0"
abbreviation (input) TOK_COMMA :: operator where "TOK_COMMA \<equiv> 1"
abbreviation (input) TOK_ASSIGN :: operator where "TOK_ASSIGN \<equiv> 2"
abbreviation (input) TOK_AND_ASSIGN :: operator where "TOK_AND_ASSIGN \<equiv> 34"
abbreviation (input) TOK_OR_ASSIGN :: operator where "TOK_OR_ASSIGN \<equiv> 66"
abbreviation (input) TOK_XOR_ASSIGN :: operator where "TOK_XOR_ASSIGN \<equiv> 98"
abbreviation (input) TOK_PLUS_ASSIGN :: operator where "TOK_PLUS_ASSIGN \<equiv> 130"
abbreviation (input) TOK_MINUS_ASSIGN :: operator where "TOK_MINUS_ASSIGN \<equiv> 162"
abbreviation (input) TOK_LSHIFT_ASSIGN :: operator where "TOK_LSHIFT_ASSIGN \<equiv> 194"
abbreviation (input) TOK_RSHIFT_ASSIGN :: operator where "TOK_RSHIFT_ASSIGN \<equiv> 226"
abbreviation (input) TOK_MUL_ASSIGN :: operator where "TOK_MUL_ASSIGN \<equiv> 3"
abbreviation (input) TOK_DIV_ASSIGN :: operator where "TOK_DIV_ASSIGN \<equiv> 35"
abbreviation (input) TOK_REM_ASSIGN :: operator where "TOK_REM_ASSIGN \<equiv> 67"
abbreviation (input) TOK_CONDITIONAL :: operator where "TOK_CONDITIONAL \<equiv> 4"
abbreviation (input) TOK_CONDITIONAL_SEP :: operator where "TOK_CONDITIONAL_SEP \<equiv> 36"
abbreviation (input) TOK_OR :: operator where "TOK_OR \<equiv> 5"
abbreviation (input) TOK_AND :: operator where "TOK_AND \<equiv> 6"
abbreviation (input) TOK_BOR :: operator where "TOK_BOR \<equiv> 7"
abbreviation (input) TOK_BXOR :: operator where "TOK_BXOR \<equiv> 8"
abbreviation (input) TOK_BAND :: operator where "TOK_BAND \<equiv> 9"
abbreviation (input) TOK_EQ :: operator where "TOK_EQ \<equiv> 10"
abbreviation (input) TOK_NE :: operator where "TOK_NE \<equiv> 42"
abbreviation (input) TOK_LT :: operator where "TOK_LT \<equiv> 11"
abbreviation (input) TOK_GT :: operator where "TOK_GT \<equiv> 43"
abbreviation (input) TOK_GE :: operator where "TOK_GE \<equiv> 75"
abbreviation (input) TOK_LE :: operator where "TOK_LE \<equiv> 107"
abbreviation (input) TOK_LSHIFT :: operator where "TOK_LSHIFT \<equiv> 12"
abbreviation (input) TOK_RSHIFT :: operator where "TOK_RSHIFT \<equiv> 44"
abbreviation (input) TOK_ADD :: operator where "TOK_ADD \<equiv> 13"
abbreviation (input) TOK_SUB :: operator where "TOK_SUB \<equiv> 45"
abbreviation (input) TOK_MUL :: operator where "TOK_MUL \<equiv> 14"
abbreviation (input) TOK_DIV :: operator where "TOK_DIV \<equiv> 46"
abbreviation (input) TOK_REM :: operator where "TOK_REM \<equiv> 78"
abbreviation (input) TOK_EXPONENT :: operator where "TOK_EXPONENT \<equiv> 47"
abbreviation (input) UNARYPREC :: nat where "UNARYPREC \<equiv> 16"
abbreviation (input) TOK_BNOT :: operator where "TOK_BNOT \<equiv> 16"
abbreviation (input) TOK_NOT :: operator where "TOK_NOT \<equiv> 48"
abbreviation (input) TOK_UMINUS :: operator where "TOK_UMINUS \<equiv> 17"
abbreviation (input) TOK_UPLUS :: operator where "TOK_UPLUS \<equiv> 49"
abbreviation (input) PREC_PRE :: nat where "PREC_PRE \<equiv> 18"
abbreviation (input) TOK_PRE_INC :: operator where "TOK_PRE_INC \<equiv> 18"
abbreviation (input) TOK_PRE_DEC :: operator where "TOK_PRE_DEC \<equiv> 50"
abbreviation (input) PREC_POST :: nat where "PREC_POST \<equiv> 19"
abbreviation (input) TOK_POST_INC :: operator where "TOK_POST_INC \<equiv> 19"
abbreviation (input) TOK_POST_DEC :: operator where "TOK_POST_DEC \<equiv> 51"
abbreviation (input) SPEC_PREC :: nat where "SPEC_PREC \<equiv> 20"
abbreviation (input) TOK_NUM :: operator where "TOK_NUM \<equiv> 20"
abbreviation (input) TOK_RPAREN :: operator where "TOK_RPAREN \<equiv> 52"

text \<open>The numerals above are the values of the macros of the source.\<close>

lemma tok_values:
  "map (tok_decl 2) [0..<8] = [TOK_ASSIGN, TOK_AND_ASSIGN, TOK_OR_ASSIGN, TOK_XOR_ASSIGN, TOK_PLUS_ASSIGN,
     TOK_MINUS_ASSIGN, TOK_LSHIFT_ASSIGN, TOK_RSHIFT_ASSIGN]"
  "map (tok_decl 3) [0..<3] = [TOK_MUL_ASSIGN, TOK_DIV_ASSIGN, TOK_REM_ASSIGN]"
  "map (tok_decl 4) [0..<2] = [TOK_CONDITIONAL, TOK_CONDITIONAL_SEP]"
  "map (tok_decl 10) [0..<2] = [TOK_EQ, TOK_NE]"
  "map (tok_decl 11) [0..<4] = [TOK_LT, TOK_GT, TOK_GE, TOK_LE]"
  "map (tok_decl 12) [0..<2] = [TOK_LSHIFT, TOK_RSHIFT]"
  "map (tok_decl 13) [0..<2] = [TOK_ADD, TOK_SUB]"
  "map (tok_decl 14) [0..<3] = [TOK_MUL, TOK_DIV, TOK_REM]"
  "tok_decl 15 1 = TOK_EXPONENT"
  "map (tok_decl UNARYPREC) [0..<2] = [TOK_BNOT, TOK_NOT]"
  "map (tok_decl (UNARYPREC + 1)) [0..<2] = [TOK_UMINUS, TOK_UPLUS]"
  "map (tok_decl PREC_PRE) [0..<2] = [TOK_PRE_INC, TOK_PRE_DEC]"
  "map (tok_decl PREC_POST) [0..<2] = [TOK_POST_INC, TOK_POST_DEC]"
  "map (tok_decl SPEC_PREC) [0..<2] = [TOK_NUM, TOK_RPAREN]"
  by code_simp+

definition fix_assignment_prec :: "nat \<Rightarrow> nat" where
  "fix_assignment_prec prec = (if prec = 3 then 2 else prec)"

definition is_assign_op :: "operator \<Rightarrow> bool" where
  "is_assign_op op \<longleftrightarrow>
     (let prec = fix_assignment_prec (PREC op) in prec = PREC TOK_ASSIGN \<or> prec = PREC_PRE \<or> prec = PREC_POST)"

definition is_right_associative :: "nat \<Rightarrow> bool" where
  "is_right_associative prec \<longleftrightarrow>
     prec = PREC TOK_ASSIGN \<or> prec = PREC TOK_EXPONENT \<or> prec = PREC TOK_CONDITIONAL"

section \<open>The number stack\<close>

record var_or_num =
  num_val :: arith_t
  second_val :: arith_t
  second_val_present :: bool
  num_var :: "cstr option"

text \<open>
  How an evaluation ends without a value: an error message, a \<open>setvar\<close> that does not return, an
  access outside the two stack arrays (above their end, or below the number stack), or no fuel.
\<close>

datatype arith_err = Msg cstr | Raised | NumOverrun | OpOverrun | Underrun | OutOfFuel

type_synonym ('a, 's) eval = "(arith_err + 'a) \<times> 's"

record 's arith_state =
  lookupvar :: "'s \<Rightarrow> cstr \<Rightarrow> cstr option"
  setvar :: "cstr \<Rightarrow> cstr \<Rightarrow> 's \<Rightarrow> 's option"

text \<open>The recursive call of \<open>evaluate_string\<close>: the names being evaluated, and the text.\<close>

type_synonym 's evaluator = "cstr list \<Rightarrow> cstr \<Rightarrow> 's \<Rightarrow> (arith_t, 's) eval"

definition syntax_err :: "arith_err" where
  "syntax_err = Msg ''arithmetic syntax error''"

definition and_then :: "('a, 's) eval \<Rightarrow> ('a \<Rightarrow> 's \<Rightarrow> ('b, 's) eval) \<Rightarrow> ('b, 's) eval" where
  "and_then r k = (case r of (Inl e, s) \<Rightarrow> (Inl e, s) | (Inr x, s) \<Rightarrow> k x s)"

definition arith_lookup_val :: "'s arith_state \<Rightarrow> 's evaluator \<Rightarrow> cstr list \<Rightarrow> var_or_num \<Rightarrow> 's
    \<Rightarrow> (var_or_num, 's) eval" where
  "arith_lookup_val ms ev names t s =
     (case num_var t of
        None \<Rightarrow> (Inr t, s)
      | Some v \<Rightarrow>
          (case lookupvar ms s v of
             None \<Rightarrow> (Inr (t\<lparr>num_val := 0\<rparr>), s)
           | Some p \<Rightarrow>
               if v \<in> set names then (Inl (Msg ''expression recursion loop detected''), s)
               else and_then (ev (v # names) p s) (\<lambda>x s'. (Inr (t\<lparr>num_val := x\<rparr>), s'))))"

fun exp_loop :: "nat \<Rightarrow> arith_t \<Rightarrow> arith_t \<Rightarrow> arith_t" where
  "exp_loop 0 rez c = c"
| "exp_loop (Suc n) rez c = exp_loop n rez (c * rez)"

definition truth :: "bool \<Rightarrow> arith_t" where
  "truth b = (if b then 1 else 0)"

definition sdivide :: "arith_t \<Rightarrow> arith_t \<Rightarrow> arith_t" where
  "sdivide a b = word_of_int (sint a sdiv sint b)"

definition sremain :: "arith_t \<Rightarrow> arith_t \<Rightarrow> arith_t" where
  "sremain a b = word_of_int (sint a smod sint b)"

definition shift_count :: "arith_t \<Rightarrow> nat" where
  "shift_count n = unat n mod 64"

text \<open>Unary operators: None when the operator is not one.\<close>

definition unary_op :: "operator \<Rightarrow> arith_t \<Rightarrow> arith_t option" where
  "unary_op op rez =
     (if op = TOK_UMINUS then Some (- rez)
      else if op = TOK_NOT then Some (truth (rez = 0))
      else if op = TOK_BNOT then Some (NOT rez)
      else if op = TOK_POST_INC \<or> op = TOK_PRE_INC then Some (rez + 1)
      else if op = TOK_POST_DEC \<or> op = TOK_PRE_DEC then Some (rez - 1)
      else if op = TOK_UPLUS then Some rez
      else None)"

text \<open>The chain of binary operators; \<open>second\<close> is the \<open>second_val\<close> of the right operand.\<close>

definition binary_op :: "operator \<Rightarrow> arith_t \<Rightarrow> arith_t \<Rightarrow> arith_t \<Rightarrow> arith_err + arith_t" where
  "binary_op op rez right second =
     (if op = TOK_CONDITIONAL then Inr (if rez \<noteq> 0 then right else second)
      else if op = TOK_CONDITIONAL_SEP then Inr rez
      else if op = TOK_BOR \<or> op = TOK_OR_ASSIGN then Inr (rez OR right)
      else if op = TOK_OR then Inr (truth (right \<noteq> 0 \<or> rez \<noteq> 0))
      else if op = TOK_BAND \<or> op = TOK_AND_ASSIGN then Inr (rez AND right)
      else if op = TOK_BXOR \<or> op = TOK_XOR_ASSIGN then Inr (rez XOR right)
      else if op = TOK_AND then Inr (truth (rez \<noteq> 0 \<and> right \<noteq> 0))
      else if op = TOK_EQ then Inr (truth (rez = right))
      else if op = TOK_NE then Inr (truth (rez \<noteq> right))
      else if op = TOK_GE then Inr (truth (sint rez \<ge> sint right))
      else if op = TOK_RSHIFT \<or> op = TOK_RSHIFT_ASSIGN then Inr (signed_drop_bit (shift_count right) rez)
      else if op = TOK_LSHIFT \<or> op = TOK_LSHIFT_ASSIGN then Inr (push_bit (shift_count right) rez)
      else if op = TOK_GT then Inr (truth (sint rez > sint right))
      else if op = TOK_LT then Inr (truth (sint rez < sint right))
      else if op = TOK_LE then Inr (truth (sint rez \<le> sint right))
      else if op = TOK_MUL \<or> op = TOK_MUL_ASSIGN then Inr (rez * right)
      else if op = TOK_ADD \<or> op = TOK_PLUS_ASSIGN then Inr (rez + right)
      else if op = TOK_SUB \<or> op = TOK_MINUS_ASSIGN then Inr (rez - right)
      else if op = TOK_ASSIGN \<or> op = TOK_COMMA then Inr right
      else if op = TOK_EXPONENT then
        (if sint right < 0 then Inl (Msg ''exponent less than 0'') else Inr (exp_loop (unat right) rez 1))
      else if right = 0 then Inl (Msg ''divide by zero'')
      else if op = TOK_DIV \<or> op = TOK_DIV_ASSIGN \<or> op = TOK_REM \<or> op = TOK_REM_ASSIGN then
        (let d = (if right = - 1 \<and> push_bit 1 rez = 0 then 1 else right)
         in Inr (if op = TOK_DIV \<or> op = TOK_DIV_ASSIGN then sdivide rez d else sremain rez d))
      else Inr rez)"

text \<open>The tail of \<open>arith_apply\<close>: the assignment and the new top of the stack.\<close>

definition store_result :: "'s arith_state \<Rightarrow> operator \<Rightarrow> arith_t \<Rightarrow> var_or_num \<Rightarrow> var_or_num list \<Rightarrow> 's
    \<Rightarrow> (var_or_num list, 's) eval" where
  "store_result ms op rez tos nums s =
     (if is_assign_op op then
        (case num_var tos of
           None \<Rightarrow> (Inl syntax_err, s)
         | Some v \<Rightarrow>
             (case setvar ms v (dec_of_int (sint rez)) s of
                None \<Rightarrow> (Inl Raised, s)
              | Some s' \<Rightarrow>
                  (Inr (tos\<lparr>num_val := (if op = TOK_POST_INC then rez - 1
                                        else if op = TOK_POST_DEC then rez + 1 else rez),
                            num_var := None\<rparr> # nums), s')))
      else (Inr (tos\<lparr>num_val := rez, num_var := None\<rparr> # nums), s))"

text \<open>\<open>arith_apply\<close>; the number stack is a list with its top first.\<close>

definition arith_apply :: "'s arith_state \<Rightarrow> 's evaluator \<Rightarrow> cstr list \<Rightarrow> operator \<Rightarrow> var_or_num list \<Rightarrow> 's
    \<Rightarrow> (var_or_num list, 's) eval" where
  "arith_apply ms ev names op nums s =
     (case nums of
        [] \<Rightarrow> (Inl syntax_err, s)
      | tos # below \<Rightarrow>
          and_then (arith_lookup_val ms ev names tos s) (\<lambda>top1 s1.
            case unary_op op (num_val top1) of
              Some rez \<Rightarrow> store_result ms op rez top1 below s1
            | None \<Rightarrow>
                (case below of
                   [] \<Rightarrow> (Inl syntax_err, s1)
                 | left # rest \<Rightarrow>
                     if second_val_present top1 = (op \<noteq> TOK_CONDITIONAL)
                     then (Inl (Msg ''malformed ?: operator''), s1)
                     else and_then (if op \<noteq> TOK_ASSIGN then arith_lookup_val ms ev names left s1 else (Inr left, s1))
                       (\<lambda>left1 s2.
                         if op = TOK_CONDITIONAL_SEP \<and> rest = [] then (Inl (Msg ''malformed ?: operator''), s2)
                         else
                           (case binary_op op (num_val left1) (num_val top1) (second_val top1) of
                              Inl e \<Rightarrow> (Inl e, s2)
                            | Inr rez \<Rightarrow>
                                store_result ms op rez
                                  (if op = TOK_CONDITIONAL_SEP
                                   then left1\<lparr>second_val_present := True, second_val := num_val top1\<rparr> else left1)
                                  rest s2)))))"

section \<open>The tokeniser\<close>

definition op_tokens :: "(cstr \<times> operator) list" where
  "op_tokens =
     [(''<<='', TOK_LSHIFT_ASSIGN), (''>>='', TOK_RSHIFT_ASSIGN), (''<<'', TOK_LSHIFT), (''>>'', TOK_RSHIFT),
      (''||'', TOK_OR), (''&&'', TOK_AND), (''!='', TOK_NE), (''<='', TOK_LE), (''>='', TOK_GE), (''=='', TOK_EQ),
      (''|='', TOK_OR_ASSIGN), (''&='', TOK_AND_ASSIGN), (''*='', TOK_MUL_ASSIGN), (''/='', TOK_DIV_ASSIGN),
      (''%='', TOK_REM_ASSIGN), (''+='', TOK_PLUS_ASSIGN), (''-='', TOK_MINUS_ASSIGN), (''--'', TOK_POST_DEC),
      (''^='', TOK_XOR_ASSIGN), (''++'', TOK_POST_INC), (''**'', TOK_EXPONENT), (''!'', TOK_NOT), (''<'', TOK_LT),
      (''>'', TOK_GT), (''='', TOK_ASSIGN), (''|'', TOK_BOR), (''&'', TOK_BAND), (''*'', TOK_MUL), (''/'', TOK_DIV),
      (''%'', TOK_REM), (''+'', TOK_ADD), (''-'', TOK_SUB), (''^'', TOK_BXOR), (''~'', TOK_BNOT), ('','', TOK_COMMA),
      (''?'', TOK_CONDITIONAL), ('':'', TOK_CONDITIONAL_SEP), ('')'', TOK_RPAREN), (''('', TOK_LPAREN)]"

definition find_op :: "cstr \<Rightarrow> (operator \<times> cstr) option" where
  "find_op expr =
     map_option (\<lambda>(t, op). (op, drop (length t) expr)) (find (\<lambda>(t, op). prefix t expr) op_tokens)"

text \<open>What the text starts with, behind white space: a name or number to push, or an operator.\<close>

datatype token = Operand var_or_num cstr | Operator operator cstr | Bad

definition plain_num :: "arith_t \<Rightarrow> var_or_num" where
  "plain_num x = \<lparr>num_val = x, second_val = 0, second_val_present = False, num_var = None\<rparr>"

definition next_token :: "var_or_num list \<Rightarrow> cstr \<Rightarrow> token" where
  "next_token nums expr =
     (let (name, rest) = endofname expr
      in if name \<noteq> [] then Operand ((plain_num 0)\<lparr>num_var := Some name\<rparr>) rest
         else if isdigit (char_at expr 0) then
           (let (n, rest') = strtoull0 expr
            in Operand (plain_num (if n < 18446744073709551616 then of_int n else 0)) rest')
         else if (char_at expr 0 = CHR ''+'' \<or> char_at expr 0 = CHR ''-'') \<and> char_at expr 1 = char_at expr 0
              \<and> (nums = [] \<or> num_var (hd nums) = None)
              \<and> \<not> is_name (char_at (skip_whitespace (drop 2 expr)) 0)
         then Operator (if char_at expr 0 = CHR ''+'' then TOK_ADD else TOK_SUB) (drop 1 expr)
         else (case find_op expr of None \<Rightarrow> Bad | Some (op, rest') \<Rightarrow> Operator op rest'))"

section \<open>The precedence loop\<close>

text \<open>
  The inner while loop: pop and apply operators until one that binds less than \<open>op\<close> (or a
  left parenthesis that \<open>op\<close> closes).  The flag says whether a parenthesis was closed.
\<close>

fun reduce_ops :: "'s arith_state \<Rightarrow> 's evaluator \<Rightarrow> cstr list \<Rightarrow> operator \<Rightarrow> operator list \<Rightarrow> var_or_num list
    \<Rightarrow> 's \<Rightarrow> (bool \<times> operator list \<times> var_or_num list, 's) eval" where
  "reduce_ops ms ev names op [] nums s = (Inr (False, [], nums), s)"
| "reduce_ops ms ev names op (prev_op # ops) nums s =
     (if op = TOK_RPAREN \<and> prev_op = TOK_LPAREN then
        (case nums of
           [] \<Rightarrow> (Inl Underrun, s)
         | tos # below \<Rightarrow>
             and_then (arith_lookup_val ms ev names tos s)
               (\<lambda>top1 s1. (Inr (True, ops, top1\<lparr>num_var := None\<rparr> # below), s1)))
      else
        let prec = fix_assignment_prec (PREC op); prev_prec = fix_assignment_prec (PREC prev_op)
        in if op \<noteq> TOK_RPAREN \<and> (prev_prec < prec \<or> (prev_prec = prec \<and> is_right_associative prec))
           then (Inr (False, prev_op # ops, nums), s)
           else and_then (arith_apply ms ev names prev_op nums s)
                  (\<lambda>nums1 s1. reduce_ops ms ev names op ops nums1 s1))"

definition unary_form :: "operator \<Rightarrow> operator" where
  "unary_form op =
     (if op = TOK_ADD then TOK_UPLUS else if op = TOK_SUB then TOK_UMINUS
      else if op = TOK_POST_INC then TOK_PRE_INC else if op = TOK_POST_DEC then TOK_PRE_DEC else op)"

text \<open>
  From \<open>tok_found1\<close> to the end of the loop body: the new last token and the two stacks.
  \<open>cap\<close> is the number of entries of the operator stack.
\<close>

definition op_step :: "'s arith_state \<Rightarrow> 's evaluator \<Rightarrow> cstr list \<Rightarrow> nat \<Rightarrow> operator \<Rightarrow> operator
    \<Rightarrow> operator list \<Rightarrow> var_or_num list \<Rightarrow> 's \<Rightarrow> (operator \<times> operator list \<times> var_or_num list, 's) eval" where
  "op_step ms ev names cap op0 lasttok0 ops nums s =
     (let lasttok = (if lasttok0 = TOK_POST_INC \<or> lasttok0 = TOK_POST_DEC then TOK_NUM else lasttok0);
          op = (if lasttok \<noteq> TOK_NUM then unary_form op0 else op0);
          prec = PREC op
      in if (0 < prec \<and> prec < UNARYPREC) \<or> prec = SPEC_PREC then
           (if lasttok \<noteq> TOK_NUM then (Inl syntax_err, s)
            else and_then (reduce_ops ms ev names op ops nums s) (\<lambda>(closed, ops1, nums1) s1.
              if closed then (Inr (TOK_NUM, ops1, nums1), s1)
              else if op = TOK_RPAREN then (Inl syntax_err, s1)
              else if length ops1 < cap then (Inr (op, op # ops1, nums1), s1) else (Inl OpOverrun, s1)))
         else if length ops < cap then (Inr (op, op # ops, nums), s) else (Inl OpOverrun, s))"

lemma find_op_shorter:
  assumes "find_op expr = Some (op, rest)"
  shows "length rest < length expr"
proof -
  from assms obtain t where t: "find (\<lambda>(t, op). prefix t expr) op_tokens = Some (t, op)" "rest = drop (length t) expr"
    by (auto simp: find_op_def)
  then have "(t, op) \<in> set op_tokens" "prefix t expr" by (auto simp: find_Some_iff in_set_conv_nth)
  moreover have "\<forall>(t, op)\<in>set op_tokens. t \<noteq> []" by (simp add: op_tokens_def)
  ultimately have "t \<noteq> []" "length t \<le> length expr" by (auto simp: prefix_length_le)
  then show ?thesis using t(2) by (cases t) auto
qed

fun token_rest :: "token \<Rightarrow> cstr" where
  "token_rest (Operand n r) = r"
| "token_rest (Operator op r) = r"
| "token_rest Bad = []"

lemma next_token_shorter:
  assumes "expr \<noteq> []"
  shows "length (token_rest (next_token nums expr)) < length expr"
proof -
  obtain name rest where e: "endofname expr = (name, rest)" by (cases "endofname expr")
  then have "expr = name @ rest" by (rule endofname_append)
  then show ?thesis
    using assms e strtoull0_rest [of expr]
    by (auto simp: next_token_def char_at_def hd_conv_nth dest: find_op_shorter split: prod.splits option.splits)
qed

text \<open>
  The outer loop; \<open>closing\<close> says that \<open>expr\<close> already points into the appended right parenthesis,
  \<open>ncap\<close> is the number of entries of the number stack.
\<close>

function eval_loop :: "'s arith_state \<Rightarrow> 's evaluator \<Rightarrow> cstr list \<Rightarrow> nat \<Rightarrow> nat \<Rightarrow> bool \<Rightarrow> cstr \<Rightarrow> operator
    \<Rightarrow> operator list \<Rightarrow> var_or_num list \<Rightarrow> 's \<Rightarrow> (arith_t, 's) eval" where
  "eval_loop ms ev names ncap cap closing expr0 lasttok ops nums s =
     (let expr = skip_whitespace expr0
      in if expr = [] then
           (if \<not> closing then eval_loop ms ev names ncap cap True '')'' lasttok ops nums s
            else (case nums of [n] \<Rightarrow> (Inr (num_val n), s) | _ \<Rightarrow> (Inl syntax_err, s)))
         else
           (case next_token nums expr of
              Operand n rest \<Rightarrow>
                if length nums < ncap
                then eval_loop ms ev names ncap cap closing rest TOK_NUM ops (n # nums) s
                else (Inl NumOverrun, s)
            | Operator op rest \<Rightarrow>
                (case op_step ms ev names cap op lasttok ops nums s of
                   (Inl e, s1) \<Rightarrow> (Inl e, s1)
                 | (Inr (lasttok1, ops1, nums1), s1) \<Rightarrow>
                     eval_loop ms ev names ncap cap closing rest lasttok1 ops1 nums1 s1)
            | Bad \<Rightarrow> (Inl syntax_err, s)))"
  by pat_completeness auto
termination
proof (relation "measure (\<lambda>(ms, ev, names, ncap, cap, closing, expr, _). length expr + (if closing then 0 else 2))",
    goal_cases)
  case (3 ms ev names ncap cap closing expr0 lasttok ops nums s x n rest)
  then show ?case using next_token_shorter [of "skip_whitespace expr0" nums] length_skip_whitespace [of expr0] by auto
next
  case (4 ms ev names ncap cap closing expr0 lasttok ops nums s x op rest)
  then show ?case using next_token_shorter [of "skip_whitespace expr0" nums] length_skip_whitespace [of expr0] by auto
qed auto

declare eval_loop.simps [simp del]

primrec evaluate_string :: "nat \<Rightarrow> 's arith_state \<Rightarrow> 's evaluator" where
  "evaluate_string 0 ms names expr s = (Inl OutOfFuel, s)"
| "evaluate_string (Suc fuel) ms names expr s =
     (let start = skip_whitespace expr; expr_len = length start + 2
      in if start = [] then (Inr 0, s)
         else eval_loop ms (evaluate_string fuel ms) names (expr_len div 2) expr_len False start
                TOK_LPAREN [TOK_LPAREN] [] s)"

definition arith :: "nat \<Rightarrow> 's arith_state \<Rightarrow> cstr \<Rightarrow> 's \<Rightarrow> (arith_t, 's) eval" where
  "arith fuel ms expr s = evaluate_string fuel ms [] expr s"

text \<open>A variable store of its own, a map from names to texts, for evaluation on concrete inputs.\<close>

definition map_store :: "(cstr \<rightharpoonup> cstr) arith_state" where
  "map_store = \<lparr>lookupvar = (\<lambda>s v. s v), setvar = (\<lambda>v x s. Some (s(v \<mapsto> x)))\<rparr>"

end
