(* ===== verification/Ash_Math_Safe.thy ===== *)
theory Ash_Math_Safe
  imports Ash_Math
begin

text \<open>
  Safety and termination of shell arithmetic.  A small Hoare-style calculus (\<open>res_ok\<close>) follows the
  structure of \<open>evaluate_string\<close>: what the stacks look like after each part, which errors can come
  out of it, and what it does to the variable store.  It is used twice: to show that the operator
  stack is never overrun and the number stack never read below its bottom, and to show how much
  fuel the recursion through variables needs.
\<close>

section \<open>Results and their composition\<close>

fun res_ok :: "(arith_err \<Rightarrow> bool) \<Rightarrow> ('s \<Rightarrow> bool) \<Rightarrow> ('a \<Rightarrow> bool) \<Rightarrow> ('a, 's) eval \<Rightarrow> bool" where
  "res_ok ok I P (Inl e, s) \<longleftrightarrow> I s \<and> ok e"
| "res_ok ok I P (Inr x, s) \<longleftrightarrow> I s \<and> P x"

lemma and_then_ok:
  "res_ok ok I P r \<Longrightarrow> (\<And>x s. P x \<Longrightarrow> I s \<Longrightarrow> res_ok ok I Q (k x s)) \<Longrightarrow> res_ok ok I Q (and_then r k)"
  by (cases r; cases "fst r") (auto simp: and_then_def)

lemma res_ok_mono: "res_ok ok I P r \<Longrightarrow> (\<And>x. P x \<Longrightarrow> Q x) \<Longrightarrow> res_ok ok I Q r"
  by (cases r; cases "fst r") auto

text \<open>
  What the parts of one evaluation may rely on: harmless errors, a store predicate \<open>I\<close> kept by the
  assignments of arithmetic, and a recursive evaluator that keeps \<open>I\<close> and has only \<open>ok\<close> errors.
  \<open>N\<close> holds for the names that the text can contain; the evaluator is called for them only.
\<close>

definition contract :: "'s arith_state \<Rightarrow> 's evaluator \<Rightarrow> cstr list \<Rightarrow> (arith_err \<Rightarrow> bool) \<Rightarrow> ('s \<Rightarrow> bool)
    \<Rightarrow> (cstr \<Rightarrow> bool) \<Rightarrow> bool" where
  "contract ms ev names ok I N \<longleftrightarrow>
     (\<forall>m. ok (Msg m)) \<and> ok Raised \<and> ok NumOverrun
     \<and> (\<forall>v i s s'. N v \<longrightarrow> I s \<longrightarrow> setvar ms v (dec_of_int i) s = Some s' \<longrightarrow> I s')
     \<and> (\<forall>v p s. N v \<longrightarrow> I s \<longrightarrow> lookupvar ms s v = Some p \<longrightarrow> v \<notin> set names \<longrightarrow>
          res_ok ok I (\<lambda>_. True) (ev (v # names) p s))"

definition nums_ok :: "(cstr \<Rightarrow> bool) \<Rightarrow> var_or_num list \<Rightarrow> bool" where
  "nums_ok N nums \<longleftrightarrow> (\<forall>n\<in>set nums. \<forall>v. num_var n = Some v \<longrightarrow> N v)"

lemma nums_ok_simps [simp]: "nums_ok N []" "nums_ok N (n # ns) \<longleftrightarrow> (\<forall>v. num_var n = Some v \<longrightarrow> N v) \<and> nums_ok N ns"
  by (auto simp: nums_ok_def)

section \<open>The parts of the evaluator\<close>

lemma lookup_ok:
  assumes "contract ms ev names ok I N" and "I s" and "\<forall>v. num_var t = Some v \<longrightarrow> N v"
  shows "res_ok ok I (\<lambda>t'. num_var t' = num_var t) (arith_lookup_val ms ev names t s)"
proof (cases "num_var t")
  case None
  then show ?thesis using assms(2) by (simp add: arith_lookup_val_def)
next
  case (Some v)
  show ?thesis
  proof (cases "lookupvar ms s v")
    case None
    then show ?thesis using assms(2) Some by (simp add: arith_lookup_val_def)
  next
    case p: (Some p)
    then have "v \<notin> set names \<Longrightarrow> res_ok ok I (\<lambda>_. True) (ev (v # names) p s)"
      using assms Some by (simp add: contract_def)
    then have "v \<notin> set names \<Longrightarrow> res_ok ok I (\<lambda>t'. num_var t' = num_var t)
        (and_then (ev (v # names) p s) (\<lambda>x s'. (Inr (t\<lparr>num_val := x\<rparr>), s')))"
      by (rule and_then_ok) auto
    then show ?thesis using assms(1,2) Some p by (simp add: arith_lookup_val_def contract_def)
  qed
qed

lemma store_ok:
  assumes "contract ms ev names ok I N" and "I s" and "nums_ok N nums" and "\<forall>v. num_var tos = Some v \<longrightarrow> N v"
  shows "res_ok ok I (\<lambda>ns. ns \<noteq> [] \<and> nums_ok N ns) (store_result ms op rez tos nums s)"
proof -
  have e: "ok (Msg m)" "ok Raised" for m using assms(1) by (simp_all add: contract_def)
  have set: "I s'" if "num_var tos = Some v" "setvar ms v (dec_of_int i) s = Some s'" for v i s'
  proof -
    have "N v" using assms(4) that(1) by simp
    then show ?thesis using assms(1,2) that(2) unfolding contract_def by blast
  qed
  show ?thesis using assms(2-4) e set by (auto simp: store_result_def syntax_err_def split: option.splits)
qed

lemma apply_ok:
  assumes "contract ms ev names ok I N" and "I s" and "nums_ok N nums"
  shows "res_ok ok I (\<lambda>ns. ns \<noteq> [] \<and> nums_ok N ns) (arith_apply ms ev names op nums s)"
proof -
  have msg: "ok (Msg m)" for m using assms(1) by (simp add: contract_def)
  have bin: "ok e" if "binary_op op l r x = Inl e" for l r x e
    using that msg by (auto simp: binary_op_def Let_def split: if_splits)
  show ?thesis
  proof (cases nums)
    case Nil
    then show ?thesis using assms msg by (simp add: arith_apply_def syntax_err_def)
  next
    case (Cons t below)
    have left: "res_ok ok I (\<lambda>t'. num_var t' = num_var l) (if op \<noteq> TOK_ASSIGN then arith_lookup_val ms ev names l s1 else (Inr l, s1))"
      if "below = l # rest" "I s1" for l rest s1
      using lookup_ok [OF assms(1) that(2), of l] assms(3) Cons that by auto
    have "res_ok ok I (\<lambda>t'. num_var t' = num_var t) (arith_lookup_val ms ev names t s)"
      using lookup_ok [OF assms(1,2)] assms(3) Cons by simp
    then show ?thesis unfolding arith_apply_def Cons list.case
    proof (rule and_then_ok, goal_cases)
      case (1 t1 s1)
      show ?case
      proof (cases "unary_op op (num_val t1)")
        case None
        show ?thesis
        proof (cases below)
          case Nil
          then show ?thesis using None 1 msg by (simp add: syntax_err_def)
        next
          case b: (Cons l rest)
          have r: "nums_ok N rest" "\<forall>v. num_var l = Some v \<longrightarrow> N v" using assms(3) Cons b by simp_all
          have "res_ok ok I (\<lambda>ns. ns \<noteq> [] \<and> nums_ok N ns) (and_then
              (if op \<noteq> TOK_ASSIGN then arith_lookup_val ms ev names l s1 else (Inr l, s1)) (\<lambda>left1 s2.
                if op = TOK_CONDITIONAL_SEP \<and> rest = [] then (Inl (Msg ''malformed ?: operator''), s2)
                else case binary_op op (num_val left1) (num_val t1) (second_val t1) of Inl e \<Rightarrow> (Inl e, s2)
                  | Inr rez \<Rightarrow> store_result ms op rez (if op = TOK_CONDITIONAL_SEP
                      then left1\<lparr>second_val_present := True, second_val := num_val t1\<rparr> else left1) rest s2))"
            by (rule and_then_ok [OF left [OF b 1(2)]])
              (use msg bin store_ok [OF assms(1) _ r(1)] r(2) in \<open>auto split: sum.splits\<close>)
          then show ?thesis using None b 1(2) msg by simp
        qed
      next
        case (Some rez)
        then show ?thesis using store_ok [OF assms(1) 1(2)] 1(1) assms(3) Cons by simp
      qed
    qed
  qed
qed

lemma reduce_ok:
  assumes "contract ms ev names ok I N"
  shows "I s \<Longrightarrow> nums_ok N nums \<Longrightarrow> nums \<noteq> [] \<Longrightarrow>
    res_ok ok I (\<lambda>(closed, ops', ns). ns \<noteq> [] \<and> nums_ok N ns \<and> length ops' \<le> length ops)
      (reduce_ops ms ev names op ops nums s)"
proof (induction ops arbitrary: nums s)
  case (Cons prev_op ops)
  obtain t below where t: "nums = t # below" using Cons.prems(3) by (cases nums) auto
  have close: "res_ok ok I (\<lambda>(closed, ops', ns). ns \<noteq> [] \<and> nums_ok N ns \<and> length ops' \<le> length (prev_op # ops))
      (and_then (arith_lookup_val ms ev names t s) (\<lambda>t1 s1. (Inr (True, ops, t1\<lparr>num_var := None\<rparr> # below), s1)))"
    using lookup_ok [OF assms Cons.prems(1), of t] Cons.prems t by (auto intro!: and_then_ok)
  have rec: "res_ok ok I (\<lambda>(closed, ops', ns). ns \<noteq> [] \<and> nums_ok N ns \<and> length ops' \<le> length (prev_op # ops))
      (and_then (arith_apply ms ev names prev_op nums s) (\<lambda>nums1 s1. reduce_ops ms ev names op ops nums1 s1))"
    by (rule and_then_ok [OF apply_ok [OF assms Cons.prems(1,2)]])
      (auto intro!: res_ok_mono [OF Cons.IH])
  show ?case
  proof (cases "op = TOK_RPAREN \<and> prev_op = TOK_LPAREN")
    case True
    then show ?thesis using close t by simp
  next
    case False
    show ?thesis
    proof (cases "op \<noteq> TOK_RPAREN \<and> (fix_assignment_prec (PREC prev_op) < fix_assignment_prec (PREC op) \<or>
        (fix_assignment_prec (PREC prev_op) = fix_assignment_prec (PREC op) \<and>
         is_right_associative (fix_assignment_prec (PREC op))))")
      case True
      with False have "reduce_ops ms ev names op (prev_op # ops) nums s = (Inr (False, prev_op # ops, nums), s)"
        by (simp add: Let_def)
      then show ?thesis using Cons.prems by simp
    next
      case no: False
      with False have "reduce_ops ms ev names op (prev_op # ops) nums s =
          and_then (arith_apply ms ev names prev_op nums s) (\<lambda>nums1 s1. reduce_ops ms ev names op ops nums1 s1)"
        unfolding reduce_ops.simps Let_def by presburger
      then show ?thesis using rec by simp
    qed
  qed
qed simp

text \<open>The last token was an operand, possibly with a postfix operator.\<close>

definition after_operand :: "operator \<Rightarrow> bool" where
  "after_operand l \<longleftrightarrow> l = TOK_NUM \<or> l = TOK_POST_INC \<or> l = TOK_POST_DEC"

lemma op_step_ok:
  assumes "contract ms ev names ok I N" and "I s" and "nums_ok N nums"
    and "after_operand lasttok \<longrightarrow> nums \<noteq> []" and "length ops < cap"
  shows "res_ok ok I (\<lambda>(l, ops', ns). (after_operand l \<longrightarrow> ns \<noteq> []) \<and> nums_ok N ns \<and> length ops' \<le> Suc (length ops))
    (op_step ms ev names cap op0 lasttok ops nums s)"
proof -
  define last where "last = (if lasttok = TOK_POST_INC \<or> lasttok = TOK_POST_DEC then TOK_NUM else lasttok)"
  define op where "op = (if last \<noteq> TOK_NUM then unary_form op0 else op0)"
  have msg: "ok syntax_err" using assms(1) by (simp add: contract_def syntax_err_def)
  have last: "last = TOK_NUM \<Longrightarrow> nums \<noteq> []" using assms(4) by (auto simp: last_def after_operand_def split: if_splits)
  have step: "op_step ms ev names cap op0 lasttok ops nums s =
      (if (0 < PREC op \<and> PREC op < UNARYPREC) \<or> PREC op = SPEC_PREC then
         (if last \<noteq> TOK_NUM then (Inl syntax_err, s)
          else and_then (reduce_ops ms ev names op ops nums s) (\<lambda>(closed, ops1, nums1) s1.
            if closed then (Inr (TOK_NUM, ops1, nums1), s1)
            else if op = TOK_RPAREN then (Inl syntax_err, s1)
            else if length ops1 < cap then (Inr (op, op # ops1, nums1), s1) else (Inl OpOverrun, s1)))
       else if length ops < cap then (Inr (op, op # ops, nums), s) else (Inl OpOverrun, s))"
    unfolding op_step_def Let_def op_def last_def by (rule refl)
  show ?thesis
  proof (cases "(0 < PREC op \<and> PREC op < UNARYPREC) \<or> PREC op = SPEC_PREC")
    case True
    show ?thesis
    proof (cases "last = TOK_NUM")
      case False
      then show ?thesis using True assms(2) msg by (simp add: step)
    next
      case num: True
      have "res_ok ok I (\<lambda>(l, ops', ns). (after_operand l \<longrightarrow> ns \<noteq> []) \<and> nums_ok N ns \<and> length ops' \<le> Suc (length ops))
        (and_then (reduce_ops ms ev names op ops nums s) (\<lambda>(closed, ops1, nums1) s1.
            if closed then (Inr (TOK_NUM, ops1, nums1), s1)
            else if op = TOK_RPAREN then (Inl syntax_err, s1)
            else if length ops1 < cap then (Inr (op, op # ops1, nums1), s1) else (Inl OpOverrun, s1)))"
        by (rule and_then_ok [OF reduce_ok [OF assms(1,2,3) last [OF num]]]) (use msg assms(5) in auto)
      then show ?thesis using True num by (simp add: step)
    qed
  next
    case False
    have "after_operand op \<longrightarrow> nums \<noteq> []"
      using False last by (auto simp: after_operand_def op_def PREC_def unary_form_def split: if_splits)
    moreover have "op_step ms ev names cap op0 lasttok ops nums s = (Inr (op, op # ops, nums), s)"
      unfolding step by (simp only: False if_False assms(5) if_True)
    ultimately show ?thesis using assms(2,3) by simp
  qed
qed

section \<open>The outer loop\<close>

definition has_name :: "cstr \<Rightarrow> bool" where
  "has_name p \<longleftrightarrow> (\<exists>c\<in>set p. is_name c)"

lemma strtoull0_set: "set (snd (strtoull0 s)) \<subseteq> set s"
proof -
  have p: "set (snd (parse_digits b v t)) \<subseteq> set t" for b v t
    by (induction b v t rule: parse_digits.induct) auto
  from p [of 16 0 "drop 2 s"] p [of 8 0 s] p [of 10 0 s] set_drop_subset [of 2 s] show ?thesis
    by (auto simp: strtoull0_def)
qed

lemma endofname_var_name: "endofname s = (name, r) \<Longrightarrow> name \<noteq> [] \<Longrightarrow> var_name name"
  by (cases s) (auto simp: var_name_def split: if_splits dest: set_takeWhileD)

lemma next_token_names:
  assumes "next_token nums expr = Operand n rest"
  shows "(\<forall>v. num_var n = Some v \<longrightarrow> has_name expr \<and> var_name v) \<and> set rest \<subseteq> set expr"
proof -
  obtain name r where e: "endofname expr = (name, r)" by (cases "endofname expr")
  have "expr = name @ r" using endofname_append [OF e] .
  moreover have "name \<noteq> [] \<Longrightarrow> has_name expr" using e by (cases expr) (auto simp: has_name_def split: if_splits)
  moreover have "name \<noteq> [] \<Longrightarrow> var_name name" by (rule endofname_var_name [OF e])
  ultimately show ?thesis using assms e strtoull0_set [of expr]
    by (auto simp: next_token_def plain_num_def split: if_splits prod.splits option.splits)
qed

lemma next_token_op_set:
  assumes "next_token nums expr = Operator op rest"
  shows "set rest \<subseteq> set expr"
  using assms set_drop_subset [of _ expr]
  by (auto simp: next_token_def find_op_def split: if_splits prod.splits option.splits)

lemma set_skip_whitespace: "set (skip_whitespace s) \<subseteq> set s"
  by (auto simp: skip_whitespace_def dest: set_dropWhileD)

lemma loop_ok:
  assumes "contract ms ev names ok I N"
  shows "I s \<Longrightarrow> nums_ok N nums \<Longrightarrow> (after_operand lasttok \<longrightarrow> nums \<noteq> []) \<Longrightarrow>
    length ops + length expr + (if closing then 0 else 1) \<le> cap \<Longrightarrow> (has_name expr \<longrightarrow> (\<forall>v. var_name v \<longrightarrow> N v)) \<Longrightarrow>
    res_ok ok I (\<lambda>_. True) (eval_loop ms ev names ncap cap closing expr lasttok ops nums s)"
proof (induction "length expr + (if closing then 0 else 2)" arbitrary: closing expr lasttok ops nums s
    rule: less_induct)
  case less
  let ?e = "skip_whitespace expr"
  have msg: "ok syntax_err" "ok NumOverrun" using assms by (simp_all add: contract_def syntax_err_def)
  have len: "length ?e \<le> length expr" by (rule length_skip_whitespace)
  have hn: "has_name ?e \<longrightarrow> (\<forall>v. var_name v \<longrightarrow> N v)" using less.prems(5) set_skip_whitespace [of expr] by (auto simp: has_name_def)
  show ?case
  proof (cases "?e = []")
    case True
    show ?thesis
    proof (cases closing)
      case False
      have "\<not> has_name '')''" by (simp add: has_name_def is_name_def isalpha_def isupper_def islower_def ch_def)
      then have "res_ok ok I (\<lambda>_. True) (eval_loop ms ev names ncap cap True '')'' lasttok ops nums s)"
        using less.prems False by (intro less.hyps) auto
      then show ?thesis using True False by (subst eval_loop.simps) simp
    next
      case c: True
      have "eval_loop ms ev names ncap cap closing expr lasttok ops nums s =
          (case nums of [n] \<Rightarrow> (Inr (num_val n), s) | _ \<Rightarrow> (Inl syntax_err, s))"
        using True c by (subst eval_loop.simps) simp
      then show ?thesis using less.prems(1) msg by (auto split: list.splits)
    qed
  next
    case ne: False
    note shorter = next_token_shorter [OF ne, of nums]
    show ?thesis
    proof (cases "next_token nums ?e")
      case (Operand n rest)
      note nm = next_token_names [OF Operand]
      have "res_ok ok I (\<lambda>_. True) (eval_loop ms ev names ncap cap closing rest TOK_NUM ops (n # nums) s)"
      proof (rule less.hyps)
        show "length rest + (if closing then 0 else 2) < length expr + (if closing then 0 else 2)"
          using shorter len Operand by simp
        show "length ops + length rest + (if closing then 0 else 1) \<le> cap"
          using less.prems(4) shorter len Operand by simp
        show "has_name rest \<longrightarrow> (\<forall>v. var_name v \<longrightarrow> N v)" "nums_ok N (n # nums)" using hn nm less.prems(2) by (auto simp: has_name_def)
      qed (use less.prems in auto)
      moreover have "eval_loop ms ev names ncap cap closing expr lasttok ops nums s =
          (if length nums < ncap then eval_loop ms ev names ncap cap closing rest TOK_NUM ops (n # nums) s
           else (Inl NumOverrun, s))"
        using ne Operand by (subst eval_loop.simps) simp
      ultimately show ?thesis using msg less.prems(1) by simp
    next
      case (Operator op rest)
      have cap: "length ops < cap" using less.prems(4) shorter len Operator by simp
      have eq: "eval_loop ms ev names ncap cap closing expr lasttok ops nums s =
          and_then (op_step ms ev names cap op lasttok ops nums s) (\<lambda>(lasttok1, ops1, nums1) s1.
            eval_loop ms ev names ncap cap closing rest lasttok1 ops1 nums1 s1)"
        using ne Operator by (subst eval_loop.simps) (auto simp: and_then_def split: sum.splits prod.splits)
      have rest: "has_name rest \<longrightarrow> (\<forall>v. var_name v \<longrightarrow> N v)" using hn next_token_op_set [OF Operator] by (auto simp: has_name_def)
      show ?thesis unfolding eq
      proof (rule and_then_ok [OF op_step_ok [OF assms less.prems(1,2,3) cap]], clarify)
        fix l and ops1 :: "operator list" and ns s1
        assume a: "after_operand l \<longrightarrow> ns \<noteq> []" "nums_ok N ns" "length ops1 \<le> Suc (length ops)" "I s1"
        show "res_ok ok I (\<lambda>_. True) (eval_loop ms ev names ncap cap closing rest l ops1 ns s1)"
          using a less.prems(4) shorter len Operator rest by (intro less.hyps) auto
      qed
    next
      case Bad
      then have "eval_loop ms ev names ncap cap closing expr lasttok ops nums s = (Inl syntax_err, s)"
        using ne by (subst eval_loop.simps) simp
      then show ?thesis using msg less.prems(1) by simp
    qed
  qed
qed

lemma evaluate_ok:
  assumes "contract ms (evaluate_string fuel ms) names ok I N" and "I s" and "has_name expr \<longrightarrow> (\<forall>v. var_name v \<longrightarrow> N v)"
  shows "res_ok ok I (\<lambda>_. True) (evaluate_string (Suc fuel) ms names expr s)"
proof (cases "skip_whitespace expr = []")
  case False
  have "has_name (skip_whitespace expr) \<longrightarrow> (\<forall>v. var_name v \<longrightarrow> N v)"
    using assms(3) set_skip_whitespace [of expr] by (auto simp: has_name_def)
  then have "res_ok ok I (\<lambda>_. True) (eval_loop ms (evaluate_string fuel ms) names
      ((length (skip_whitespace expr) + 2) div 2) (length (skip_whitespace expr) + 2) False
      (skip_whitespace expr) TOK_LPAREN [TOK_LPAREN] [] s)"
    using assms(2) by (intro loop_ok [OF assms(1)]) (auto simp: after_operand_def)
  then show ?thesis using False by (simp add: Let_def)
qed (use assms(2) in simp)

section \<open>The stacks stay inside their arrays\<close>

lemma evaluate_safe:
  "res_ok (\<lambda>e. e \<noteq> OpOverrun \<and> e \<noteq> Underrun) (\<lambda>_. True) (\<lambda>_. True) (evaluate_string fuel ms names expr s)"
proof (induction fuel arbitrary: names expr s)
  case (Suc fuel)
  show ?case by (rule evaluate_ok [where N = "\<lambda>_. True"]) (simp_all add: contract_def Suc)
qed simp

text \<open>C26: whatever the text, the variables and the depth of their recursion, evaluation never pushes
  beyond the operator stack of strlen + 2 entries and never reads below the bottom of the number
  stack (the access numstackptr[-1] of a closing parenthesis included).\<close>

theorem arith_stacks_safe:
  "fst (arith fuel ms expr s) \<noteq> Inl OpOverrun \<and> fst (arith fuel ms expr s) \<noteq> Inl Underrun"
proof -
  obtain r s' where r: "arith fuel ms expr s = (r, s')" by (cases "arith fuel ms expr s")
  with evaluate_safe [of fuel ms "[]" expr s] show ?thesis by (cases r) (auto simp: arith_def)
qed

section \<open>Recursion through variables ends\<close>

lemma is_name_digit: "isdigit c \<Longrightarrow> \<not> is_name c"
  by (auto simp: isdigit_def is_name_def isalpha_def isupper_def islower_def ch_def)

lemma has_name_dec: "\<not> has_name (dec_of_int i)"
proof -
  have "\<not> is_name (CHR ''-'')" by code_simp
  moreover have "\<not> is_name c" if "c \<in> set (dec_of_nat n)" for c n
    using is_name_digit [OF dec_of_nat_digits [OF that]] .
  ultimately show ?thesis by (auto simp: has_name_def dec_of_int_def)
qed

text \<open>The failures that are left when the recursion is bounded: an error message, an exception of an assignment, or
  a write past the number stack.\<close>

definition raised_or_overrun :: "arith_err \<Rightarrow> bool" where
  "raised_or_overrun e \<longleftrightarrow> (\<exists>m. e = Msg m) \<or> e = Raised \<or> e = NumOverrun"

text \<open>The variable store as arithmetic relies on it: a variable reads back what was assigned last.\<close>

locale var_store =
  fixes ms :: "'s arith_state" and ok :: "'s \<Rightarrow> bool"
  assumes lookup_set: "ok s \<Longrightarrow> var_name v \<Longrightarrow> var_name w \<Longrightarrow> setvar ms v x s = Some s' \<Longrightarrow>
      lookupvar ms s' w = (if w = v then Some x else lookupvar ms s w)"
    and ok_set: "ok s \<Longrightarrow> var_name v \<Longrightarrow> setvar ms v x s = Some s' \<Longrightarrow> ok s'"
begin

text \<open>The variables whose value has a name in it, so that evaluating it can recurse.\<close>

definition named :: "'s \<Rightarrow> cstr set" where
  "named s = {v. var_name v \<and> (\<exists>p. lookupvar ms s v = Some p \<and> has_name p)}"

lemma named_set:
  assumes "ok s" and "var_name v" and "setvar ms v (dec_of_int i) s = Some s'"
  shows "named s' \<subseteq> named s"
proof -
  show ?thesis using lookup_set [OF assms(1,2) _ assms(3)] has_name_dec [of i] by (auto simp: named_def split: if_splits)
qed

lemma enough_fuel:
  "finite B \<Longrightarrow> ok s \<Longrightarrow> named s \<subseteq> B \<Longrightarrow> (if has_name expr then card (B - set names) + 2 else 1) \<le> fuel \<Longrightarrow>
    res_ok raised_or_overrun (\<lambda>s'. ok s' \<and> named s' \<subseteq> B) (\<lambda>_. True) (evaluate_string fuel ms names expr s)"
proof (induction fuel arbitrary: names expr s)
  case 0
  then show ?case by (simp split: if_splits)
next
  case (Suc fuel)
  have "contract ms (evaluate_string fuel ms) names raised_or_overrun (\<lambda>s'. ok s' \<and> named s' \<subseteq> B) (\<lambda>v. has_name expr \<and> var_name v)"
    unfolding contract_def
  proof (intro conjI allI impI)
    fix v i and s1 s2 :: 's
    assume "has_name expr \<and> var_name v" and "ok s1 \<and> named s1 \<subseteq> B" and "setvar ms v (dec_of_int i) s1 = Some s2"
    then show "ok s2" "named s2 \<subseteq> B" using ok_set named_set by blast+
  next
    fix v p s1
    assume b: "has_name expr \<and> var_name v" "ok s1 \<and> named s1 \<subseteq> B" and c: "lookupvar ms s1 v = Some p" "v \<notin> set names"
    then have a: "has_name expr" "named s1 \<subseteq> B" "lookupvar ms s1 v = Some p" "v \<notin> set names" "ok s1" "var_name v" by auto
    have "(if has_name p then card (B - set (v # names)) + 2 else 1) \<le> fuel"
    proof (cases "has_name p")
      case True
      then have "v \<in> B - set names" using a by (auto simp: named_def)
      moreover have "B - set (v # names) = (B - set names) - {v}" by auto
      ultimately have "card (B - set (v # names)) < card (B - set names)"
        using Suc.prems(1) by (metis card_Diff1_less finite_Diff)
      then show ?thesis using True a(1) Suc.prems(4) by simp
    qed (use a(1) Suc.prems(4) in simp)
    from Suc.IH [OF Suc.prems(1) a(5,2) this] show "res_ok raised_or_overrun (\<lambda>s'. ok s' \<and> named s' \<subseteq> B) (\<lambda>_. True)
        (evaluate_string fuel ms (v # names) p s1)" .
  qed (simp_all add: raised_or_overrun_def)
  from evaluate_ok [OF this] Suc.prems(2,3) show ?case by simp
qed

lemma arith_terminates:
  assumes "ok s" and "finite (named s)" and "card (named s) + 2 \<le> fuel"
  shows "\<forall>e. fst (arith fuel ms expr s) = Inl e \<longrightarrow> raised_or_overrun e" and "ok (snd (arith fuel ms expr s))"
proof -
  have "res_ok raised_or_overrun (\<lambda>s'. ok s' \<and> named s' \<subseteq> named s) (\<lambda>_. True) (evaluate_string fuel ms [] expr s)"
    using assms by (intro enough_fuel) auto
  then show "\<forall>e. fst (arith fuel ms expr s) = Inl e \<longrightarrow> raised_or_overrun e" "ok (snd (arith fuel ms expr s))"
    by (cases "arith fuel ms expr s"; cases "fst (arith fuel ms expr s)"; auto simp: arith_def)+
qed

end

section \<open>The number stack can be overrun\<close>

lemma eval_loop_operand:
  assumes "next_token nums (skip_whitespace expr) = Operand n rest" and "skip_whitespace expr \<noteq> []"
  shows "eval_loop ms ev names ncap cap closing expr lasttok ops nums s =
    (if length nums < ncap then eval_loop ms ev names ncap cap closing rest TOK_NUM ops (n # nums) s
     else (Inl NumOverrun, s))"
  using assms by (subst eval_loop.simps) simp

text \<open>The comment of evaluate_string that no text has more than strlen/2 + 1 integers is wrong: in
  1a 1a every operand is one character long and directly followed by the next one, so four operands
  are pushed onto a stack of three entries, whatever the variables are.\<close>

theorem numstack_overrun:
  "fst (arith (Suc fuel) ms ''1a 1a'' s) = Inl NumOverrun"
proof -
  let ?a = "(plain_num 0)\<lparr>num_var := Some ''a''\<rparr>" and ?one = "plain_num 1"
  have t: "next_token [] (skip_whitespace ''1a 1a'') = Operand ?one ''a 1a''"
    "next_token [?one] (skip_whitespace ''a 1a'') = Operand ?a '' 1a''"
    "next_token [?a, ?one] (skip_whitespace '' 1a'') = Operand ?one ''a''"
    "next_token [?one, ?a, ?one] (skip_whitespace ''a'') = Operand ?a []"
    by code_simp+
  have w: "skip_whitespace ''1a 1a'' \<noteq> []" "skip_whitespace ''a 1a'' \<noteq> []"
    "skip_whitespace '' 1a'' \<noteq> []" "skip_whitespace ''a'' \<noteq> []" by code_simp+
  have s1: "skip_whitespace ''1a 1a'' = ''1a 1a''" by code_simp
  note step = eval_loop_operand [OF t(1) w(1)] eval_loop_operand [OF t(2) w(2)]
    eval_loop_operand [OF t(3) w(3)] eval_loop_operand [OF t(4) w(4)]
  show ?thesis unfolding arith_def evaluate_string.simps Let_def s1 by (simp add: step)
qed

end
