(* ===== verification/Ash_Math_Expr.thy ===== *)
theory Ash_Math_Expr
  imports Ash_Math_Safe
begin

text \<open>
  Shell arithmetic computes the value of the expression it is given.  Expressions are trees over
  literals, the four unary operators and the twenty binary operators without side effects; they are
  written with as few parentheses as the precedences and associativities of the operators allow.
  \<open>runs\<close> describes what the precedence loop does with such a text in any context: it leaves a pending
  part on the two stacks which every operator that may follow reduces to the value.
\<close>

section \<open>Expressions\<close>

text \<open>The operators, and what the manual of the shell's arithmetic says of each: its text, the level it binds at,
  whether it groups to the right, and its value on 64-bit integers that wrap.  Nothing here refers to the tokens
  and tables of the code.\<close>

datatype uop = UNeg | UPos | UNot | UCompl

datatype bop = BComma | BOrElse | BAndAlso | BOr | BXor | BAnd | BEq | BNe | BLt | BGt | BGe | BLe | BShl | BShr
  | BAdd | BSub | BMul | BDiv | BRem | BPow

datatype aexp = Lit nat | Unop uop aexp | Binop bop aexp aexp

fun uop_text :: "uop \<Rightarrow> cstr" where
  "uop_text UNeg = ''-''" | "uop_text UPos = ''+''" | "uop_text UNot = ''!''" | "uop_text UCompl = ''~''"

fun bop_text :: "bop \<Rightarrow> cstr" where
  "bop_text BComma = '',''" | "bop_text BOrElse = ''||''" | "bop_text BAndAlso = ''&&''"
| "bop_text BOr = ''|''" | "bop_text BXor = ''^''" | "bop_text BAnd = ''&''"
| "bop_text BEq = ''==''" | "bop_text BNe = ''!=''" | "bop_text BLt = ''<''" | "bop_text BGt = ''>''"
| "bop_text BGe = ''>=''" | "bop_text BLe = ''<=''" | "bop_text BShl = ''<<''" | "bop_text BShr = ''>>''"
| "bop_text BAdd = ''+''" | "bop_text BSub = ''-''" | "bop_text BMul = ''*''" | "bop_text BDiv = ''/''"
| "bop_text BRem = ''%''" | "bop_text BPow = ''**''"

text \<open>Assignments and the conditional have the levels 2 to 4, the unary operators 16.\<close>

fun level :: "bop \<Rightarrow> nat" where
  "level BComma = 1" | "level BOrElse = 5" | "level BAndAlso = 6" | "level BOr = 7" | "level BXor = 8" | "level BAnd = 9"
| "level BEq = 10" | "level BNe = 10" | "level BLt = 11" | "level BGt = 11" | "level BGe = 11" | "level BLe = 11"
| "level BShl = 12" | "level BShr = 12" | "level BAdd = 13" | "level BSub = 13" | "level BMul = 14" | "level BDiv = 14"
| "level BRem = 14" | "level BPow = 15"

definition right_assoc :: "bop \<Rightarrow> bool" where
  "right_assoc o' \<longleftrightarrow> o' = BPow"

fun uvalue :: "uop \<Rightarrow> arith_t \<Rightarrow> arith_t" where
  "uvalue UNeg x = word_of_int (- sint x)"
| "uvalue UPos x = x"
| "uvalue UNot x = of_bool (x = 0)"
| "uvalue UCompl x = word_of_int (- sint x - 1)"

fun bvalue :: "bop \<Rightarrow> arith_t \<Rightarrow> arith_t \<Rightarrow> arith_t option" where
  "bvalue BComma x y = Some y"
| "bvalue BOrElse x y = Some (of_bool (x \<noteq> 0 \<or> y \<noteq> 0))"
| "bvalue BAndAlso x y = Some (of_bool (x \<noteq> 0 \<and> y \<noteq> 0))"
| "bvalue BOr x y = Some (x OR y)"
| "bvalue BXor x y = Some (x XOR y)"
| "bvalue BAnd x y = Some (x AND y)"
| "bvalue BEq x y = Some (of_bool (x = y))"
| "bvalue BNe x y = Some (of_bool (x \<noteq> y))"
| "bvalue BLt x y = Some (of_bool (sint x < sint y))"
| "bvalue BGt x y = Some (of_bool (sint x > sint y))"
| "bvalue BGe x y = Some (of_bool (sint x \<ge> sint y))"
| "bvalue BLe x y = Some (of_bool (sint x \<le> sint y))"
| "bvalue BShl x y = Some (word_of_int (sint x * 2 ^ (unat y mod 64)))"
| "bvalue BShr x y = Some (word_of_int (sint x div 2 ^ (unat y mod 64)))"
| "bvalue BAdd x y = Some (word_of_int (sint x + sint y))"
| "bvalue BSub x y = Some (word_of_int (sint x - sint y))"
| "bvalue BMul x y = Some (word_of_int (sint x * sint y))"
| "bvalue BDiv x y = (if y = 0 then None else Some (word_of_int (sint x sdiv sint y)))"
| "bvalue BRem x y = (if y = 0 then None else Some (word_of_int (sint x smod sint y)))"
| "bvalue BPow x y = (if sint y < 0 then None else Some (x ^ nat (sint y)))"

definition in_parens :: "bool \<Rightarrow> cstr \<Rightarrow> cstr" where
  "in_parens b t = (if b then ''( '' @ t @ '') '' else t)"

text \<open>The text of an expression where only operators of level \<open>p\<close> and more may stand bare.\<close>

fun render :: "nat \<Rightarrow> aexp \<Rightarrow> cstr" where
  "render p (Lit n) = dec_of_nat n @ [SP]"
| "render p (Unop u a) = uop_text u @ SP # render 16 a"
| "render p (Binop o' a b) =
     in_parens (level o' < p)
       (render (if right_assoc o' then level o' + 1 else level o') a @ bop_text o' @ SP #
        render (if right_assoc o' then level o' else level o' + 1) b)"

fun aval :: "aexp \<Rightarrow> arith_t option" where
  "aval (Lit n) = Some (of_nat n)"
| "aval (Unop u a) = map_option (uvalue u) (aval a)"
| "aval (Binop o' a b) =
     (case aval a of None \<Rightarrow> None | Some x \<Rightarrow> (case aval b of None \<Rightarrow> None | Some y \<Rightarrow> bvalue o' x y))"

fun wf_aexp :: "aexp \<Rightarrow> bool" where
  "wf_aexp (Lit n) \<longleftrightarrow> n < 18446744073709551616"
| "wf_aexp (Unop u a) \<longleftrightarrow> wf_aexp a"
| "wf_aexp (Binop o' a b) \<longleftrightarrow> wf_aexp a \<and> wf_aexp b"

fun lits :: "aexp \<Rightarrow> nat" where
  "lits (Lit n) = 1"
| "lits (Unop u a) = lits a"
| "lits (Binop o' a b) = lits a + lits b"

section \<open>The operators of the code\<close>

definition bin_ops :: "operator list" where
  "bin_ops = [TOK_COMMA, TOK_OR, TOK_AND, TOK_BOR, TOK_BXOR, TOK_BAND, TOK_EQ, TOK_NE, TOK_LT, TOK_GT, TOK_GE,
     TOK_LE, TOK_LSHIFT, TOK_RSHIFT, TOK_ADD, TOK_SUB, TOK_MUL, TOK_DIV, TOK_REM, TOK_EXPONENT]"

definition un_ops :: "operator list" where
  "un_ops = [TOK_UMINUS, TOK_UPLUS, TOK_NOT, TOK_BNOT]"

definition op_text :: "operator \<Rightarrow> cstr" where
  "op_text op = (case find (\<lambda>(t, o'). o' = op) op_tokens of Some (t, _) \<Rightarrow> t | None \<Rightarrow> [])"

definition un_text :: "operator \<Rightarrow> cstr" where
  "un_text op = (if op = TOK_UMINUS then ''-'' else if op = TOK_UPLUS then ''+'' else if op = TOK_NOT then ''!'' else ''~'')"

definition left_level :: "operator \<Rightarrow> nat" where
  "left_level op = (if is_right_associative (PREC op) then PREC op + 1 else PREC op)"

definition right_level :: "operator \<Rightarrow> nat" where
  "right_level op = (if is_right_associative (PREC op) then PREC op else PREC op + 1)"

fun un_tok :: "uop \<Rightarrow> operator" where
  "un_tok UNeg = TOK_UMINUS" | "un_tok UPos = TOK_UPLUS" | "un_tok UNot = TOK_NOT" | "un_tok UCompl = TOK_BNOT"

fun bin_tok :: "bop \<Rightarrow> operator" where
  "bin_tok BComma = TOK_COMMA" | "bin_tok BOrElse = TOK_OR" | "bin_tok BAndAlso = TOK_AND"
| "bin_tok BOr = TOK_BOR" | "bin_tok BXor = TOK_BXOR" | "bin_tok BAnd = TOK_BAND"
| "bin_tok BEq = TOK_EQ" | "bin_tok BNe = TOK_NE" | "bin_tok BLt = TOK_LT" | "bin_tok BGt = TOK_GT"
| "bin_tok BGe = TOK_GE" | "bin_tok BLe = TOK_LE" | "bin_tok BShl = TOK_LSHIFT" | "bin_tok BShr = TOK_RSHIFT"
| "bin_tok BAdd = TOK_ADD" | "bin_tok BSub = TOK_SUB" | "bin_tok BMul = TOK_MUL" | "bin_tok BDiv = TOK_DIV"
| "bin_tok BRem = TOK_REM" | "bin_tok BPow = TOK_EXPONENT"

lemma un_tok_facts:
  "un_tok u \<in> set un_ops" "un_text (un_tok u) = uop_text u" "unary_op (un_tok u) x = Some (uvalue u x)"
  by (cases u; simp add: un_ops_def un_text_def unary_op_def truth_def word_of_int_minus not_eq_complement)+

lemma bin_tok_facts:
  "bin_tok o' \<in> set bin_ops" "op_text (bin_tok o') = bop_text o'" "PREC (bin_tok o') = level o'"
  "is_right_associative (level o') = right_assoc o'"
  by (cases o'; simp add: bin_ops_def op_text_def op_tokens_def PREC_def is_right_associative_def right_assoc_def)+

lemma bin_tok_levels:
  "left_level (bin_tok o') = (if right_assoc o' then level o' + 1 else level o')"
  "right_level (bin_tok o') = (if right_assoc o' then level o' else level o' + 1)"
  by (simp_all add: left_level_def right_level_def bin_tok_facts)

lemma exp_loop_power: "exp_loop n x c = c * x ^ n"
  by (induction n arbitrary: c) (simp_all add: mult.assoc)

lemma push_bit_1_zero:
  fixes x :: arith_t
  assumes "push_bit 1 x = 0"
  shows "x = 0 \<or> x = 9223372036854775808"
proof -
  have "push_bit 1 x = x + x" unfolding push_bit_eq_mult by simp
  then have "unat (x + x) = 0" using assms by (simp only: unsigned_0)
  then have "unat x = 0 \<or> unat x = 9223372036854775808" unfolding unat_plus_if' by (simp split: if_splits)
  moreover have "unat (9223372036854775808 :: arith_t) = 9223372036854775808" by simp
  ultimately show ?thesis by (metis unsigned_word_eqI unsigned_0)
qed

lemma divide_guard:
  fixes x :: arith_t
  assumes "push_bit 1 x = 0"
  shows "sdivide x 1 = word_of_int (sint x sdiv sint (- 1 :: arith_t))" "sremain x 1 = word_of_int (sint x smod sint (- 1 :: arith_t))"
  using push_bit_1_zero [OF assms] by (auto simp: sdivide_def sremain_def)

lemma shift_values:
  "push_bit n x = word_of_int (sint x * 2 ^ n)" "signed_drop_bit n x = word_of_int (sint x div 2 ^ n)" for x :: arith_t
proof -
  show "push_bit n x = word_of_int (sint x * 2 ^ n)"
    by (simp add: push_bit_eq_mult)
  have "sint (signed_drop_bit n x) = sint x div 2 ^ n" by (simp add: sint_signed_drop_bit_eq drop_bit_eq_div)
  moreover have "of_int (sint (signed_drop_bit n x)) = signed_drop_bit n x" by simp
  ultimately show "signed_drop_bit n x = word_of_int (sint x div 2 ^ n)" by metis
qed

lemma nat_sint: "0 \<le> sint y \<Longrightarrow> nat (sint y) = unat y" for y :: arith_t
proof -
  assume a: "0 \<le> sint y"
  have "sint y < 2 ^ 63" using sint_lt [of y] by simp
  then have "uint y = sint y" using a by (simp add: uint_sint take_bit_eq_mod)
  then show ?thesis by (metis nat_uint_eq)
qed

lemma bin_tok_value: "bvalue o' x y = Some v \<Longrightarrow> binary_op (bin_tok o') x y 0 = Inr v"
proof (cases o')
  case BDiv
  then show "bvalue o' x y = Some v \<Longrightarrow> ?thesis" using divide_guard [of x] by (auto simp: binary_op_def Let_def sdivide_def split: if_splits)
next
  case BRem
  then show "bvalue o' x y = Some v \<Longrightarrow> ?thesis" using divide_guard [of x] by (auto simp: binary_op_def Let_def sremain_def split: if_splits)
qed (auto simp: binary_op_def truth_def shift_count_def shift_values exp_loop_power nat_sint split: if_splits)

section \<open>Tokens\<close>

lemma digit_char_0: "digit_char 0 = CHR ''0''"
  by code_simp

lemma dec_of_nat_hd_0: "hd (dec_of_nat n) = CHR ''0'' \<longleftrightarrow> n = 0"
proof (induction n rule: dec_of_nat.induct)
  case (1 n)
  show ?case
  proof (cases "n < 10")
    case True
    have "digit_char n = CHR ''0'' \<longleftrightarrow> n = 0"
    proof
      assume "digit_char n = CHR ''0''"
      then have "digit_val (digit_char n) = digit_val (CHR ''0'')" by simp
      moreover have "digit_val (CHR ''0'') = 0" by code_simp
      ultimately show "n = 0" using digit_val_digit_char [OF True] by simp
    qed (simp add: digit_char_0)
    then show ?thesis using True by (simp add: dec_of_nat.simps [of n])
  next
    case False
    then have "n div 10 \<noteq> 0" by simp
    then show ?thesis using False 1 by (simp add: dec_of_nat.simps [of n])
  qed
qed

lemma strtoull0_dec:
  assumes "r = [] \<or> 36 \<le> digit_val (hd r)"
  shows "strtoull0 (dec_of_nat n @ r) = (int n, r)"
proof -
  have stop: "parse_digits b v r = (v, r)" if "b \<le> 36" for b v
    using assms that by (cases r) auto
  show ?thesis
  proof (cases "n = 0")
    case True
    have z: "dec_of_nat 0 = ''0''" by (simp add: dec_of_nat.simps digit_char_0)
    have "digit_val (CHR ''x'') = 33" "digit_val (CHR ''X'') = 33" by code_simp+
    then have "char_at r 0 \<noteq> CHR ''x'' \<and> char_at r 0 \<noteq> CHR ''X''"
      using assms by (cases r) auto
    moreover have "digit_val (CHR ''0'') = 0" by code_simp
    ultimately show ?thesis using True stop [of 8 0] by (simp add: z strtoull0_def)
  next
    case False
    then have "char_at (dec_of_nat n @ r) 0 \<noteq> CHR ''0''"
      using dec_of_nat_hd_0 [of n] by (cases "dec_of_nat n") auto
    then show ?thesis using parse_digits_dec [of 0 n r] stop [of 10 "int n"] by (simp add: strtoull0_def)
  qed
qed

lemma next_token_dec:
  assumes "r = [] \<or> 36 \<le> digit_val (hd r)" and "n < 18446744073709551616"
  shows "next_token nums (dec_of_nat n @ r) = Operand (plain_num (of_nat n)) r"
    and "skip_whitespace (dec_of_nat n @ r) = dec_of_nat n @ r"
proof -
  obtain c cs where c: "dec_of_nat n = c # cs" using dec_of_nat_nonempty [of n] by (cases "dec_of_nat n") auto
  then have d: "isdigit c" using dec_of_nat_digits [of c n] by simp
  moreover have "\<not> isspace c" using d by (auto simp: isdigit_def isspace_def ch_def)
  moreover have "int n < 18446744073709551616" using assms(2) by simp
  ultimately show "next_token nums (dec_of_nat n @ r) = Operand (plain_num (of_nat n)) r"
      "skip_whitespace (dec_of_nat n @ r) = dec_of_nat n @ r"
    using strtoull0_dec [OF assms(1), of n] is_name_digit [OF d] c by (simp_all add: next_token_def)
qed

lemma prefix_before_blank: "SP \<notin> set t' \<Longrightarrow> prefix t' (t @ SP # r) \<longleftrightarrow> prefix t' t"
proof (induction t' arbitrary: t)
  case (Cons c t')
  then show ?case by (cases t) auto
qed simp

lemma find_op_blank:
  assumes "find (\<lambda>(t', op). prefix t' t) op_tokens = Some (t, op)"
  shows "find_op (t @ SP # rest) = Some (op, SP # rest)"
proof -
  have "\<forall>(t', op)\<in>set op_tokens. SP \<notin> set t'" by code_simp
  then have "find (\<lambda>(t', op). prefix t' (t @ SP # rest)) op_tokens = find (\<lambda>(t', op). prefix t' t) op_tokens"
    using prefix_before_blank by (intro find_cong) auto
  then show ?thesis using assms by (simp add: find_op_def)
qed

lemma op_texts_found:
  "list_all (\<lambda>op. find (\<lambda>(t', _). prefix t' (op_text op)) op_tokens = Some (op_text op, op)) bin_ops"
  by code_simp

lemma bin_ops_tok:
  assumes "op \<in> set bin_ops"
  shows "next_token nums (op_text op @ SP # rest) = Operator op (SP # rest)"
    and "skip_whitespace (op_text op @ SP # rest) = op_text op @ SP # rest" and "op_text op \<noteq> []"
    and "fix_assignment_prec (PREC op) = PREC op" and "0 < PREC op" and "PREC op < UNARYPREC"
    and "op \<noteq> TOK_RPAREN" and "unary_op op x = None" and "\<not> is_assign_op op" and "op \<noteq> TOK_CONDITIONAL"
    and "op \<noteq> TOK_CONDITIONAL_SEP" and "op \<noteq> TOK_ASSIGN" and "\<not> after_operand op"
proof -
  have t: "op_text op \<in> {'','', ''||'', ''&&'', ''|'', ''^'', ''&'', ''=='', ''!='', ''<'', ''>'', ''>='', ''<='', ''<<'',
      ''>>'', ''+'', ''-'', ''*'', ''/'', ''%'', ''**''}"
    using assms by (auto simp: bin_ops_def op_text_def op_tokens_def)
  have f: "find_op (op_text op @ SP # rest) = Some (op, SP # rest)"
    using find_op_blank [of "op_text op" op] op_texts_found assms by (simp add: list_all_iff)
  obtain c d u where c: "op_text op @ SP # rest = c # d # u" "\<not> is_name c" "\<not> isdigit c" "\<not> isspace c"
    "c = CHR ''+'' \<or> c = CHR ''-'' \<Longrightarrow> d \<noteq> c"
    using t by (auto simp: is_name_def isdigit_def isspace_def isalpha_def isupper_def islower_def ch_def)
  show "next_token nums (op_text op @ SP # rest) = Operator op (SP # rest)"
    using f c unfolding c(1) by (auto simp: next_token_def char_at_def)
  show "skip_whitespace (op_text op @ SP # rest) = op_text op @ SP # rest"
    using c unfolding c(1) by simp
  show "op_text op \<noteq> []" using t by auto
  show "fix_assignment_prec (PREC op) = PREC op" "0 < PREC op" "PREC op < UNARYPREC" "op \<noteq> TOK_RPAREN"
    "unary_op op x = None" "\<not> is_assign_op op" "op \<noteq> TOK_CONDITIONAL" "op \<noteq> TOK_CONDITIONAL_SEP" "op \<noteq> TOK_ASSIGN"
    "\<not> after_operand op"
    using assms by (auto simp: bin_ops_def fix_assignment_prec_def PREC_def unary_op_def is_assign_op_def Let_def
        after_operand_def)
qed

section \<open>What the precedence loop does with an expression\<close>

text \<open>\<open>ctx p ops\<close>: the operator stack lets operators of precedence \<open>p\<close> and more be pushed at once.\<close>

definition ctx :: "nat \<Rightarrow> operator list \<Rightarrow> bool" where
  "ctx p ops \<longleftrightarrow> (p < UNARYPREC \<longrightarrow>
     (\<exists>o' ops'. ops = o' # ops' \<and> (fix_assignment_prec (PREC o') < p \<or>
        (fix_assignment_prec (PREC o') = p \<and> is_right_associative p))))"

text \<open>\<open>follows p q\<close>: the operator \<open>q\<close> may stand behind an expression written at level \<open>p\<close>.\<close>

definition follows :: "nat \<Rightarrow> operator \<Rightarrow> bool" where
  "follows p q \<longleftrightarrow> q = TOK_RPAREN \<or>
     (q \<in> set bin_ops \<and> (PREC q < p \<or> (PREC q = p \<and> \<not> is_right_associative p)))"

definition runs :: "'s arith_state \<Rightarrow> 's evaluator \<Rightarrow> cstr list \<Rightarrow> nat \<Rightarrow> nat \<Rightarrow> nat \<Rightarrow> cstr \<Rightarrow> arith_t \<Rightarrow> nat \<Rightarrow> bool" where
  "runs ms ev names ncap cap p txt v l \<longleftrightarrow>
     (\<forall>ops nums lasttok s. ctx p ops \<longrightarrow> \<not> after_operand lasttok \<longrightarrow> length ops + length txt \<le> cap \<longrightarrow>
        length nums + l \<le> ncap \<longrightarrow>
        (\<exists>pend pn.
           (\<forall>rest. eval_loop ms ev names ncap cap False (txt @ rest) lasttok ops nums s =
                   eval_loop ms ev names ncap cap False rest TOK_NUM (pend @ ops) (pn @ nums) s) \<and>
           (\<forall>q. follows p q \<longrightarrow> reduce_ops ms ev names q (pend @ ops) (pn @ nums) s =
                   reduce_ops ms ev names q ops (plain_num v # nums) s)))"

lemma eval_loop_operator:
  assumes "next_token nums (skip_whitespace expr) = Operator op rest" and "skip_whitespace expr \<noteq> []"
    and "op_step ms ev names cap op lasttok ops nums s = (Inr (l, ops', nums'), s')"
  shows "eval_loop ms ev names ncap cap closing expr lasttok ops nums s =
    eval_loop ms ev names ncap cap closing rest l ops' nums' s'"
  using assms by (subst eval_loop.simps) simp

lemma eval_loop_blank [simp]:
  "eval_loop ms ev names ncap cap closing (SP # rest) lasttok ops nums s =
   eval_loop ms ev names ncap cap closing rest lasttok ops nums s"
proof -
  have "isspace SP" by (simp add: isspace_def)
  then show ?thesis by (subst (1 2) eval_loop.simps) simp
qed

lemma runs_lit:
  assumes "n < 18446744073709551616"
  shows "runs ms ev names ncap cap p (dec_of_nat n @ [SP]) (of_nat n) 1"
  unfolding runs_def
proof (intro allI impI)
  fix ops :: "operator list" and nums :: "var_or_num list" and lasttok s
  assume cap: "length nums + 1 \<le> ncap"
  have sp: "36 \<le> digit_val SP" by code_simp
  have "eval_loop ms ev names ncap cap False ((dec_of_nat n @ [SP]) @ rest) lasttok ops nums s =
      eval_loop ms ev names ncap cap False rest TOK_NUM ops (plain_num (of_nat n) # nums) s" for rest
  proof -
    have t: "next_token nums (skip_whitespace (dec_of_nat n @ SP # rest)) = Operand (plain_num (of_nat n)) (SP # rest)"
      "skip_whitespace (dec_of_nat n @ SP # rest) \<noteq> []"
      using next_token_dec(1) [of "SP # rest" n nums] next_token_dec(2) [of "SP # rest" n] sp assms by simp_all
    from cap show ?thesis by (simp add: eval_loop_operand [OF t])
  qed
  then show "\<exists>pend pn. (\<forall>rest. eval_loop ms ev names ncap cap False ((dec_of_nat n @ [SP]) @ rest) lasttok ops nums s =
        eval_loop ms ev names ncap cap False rest TOK_NUM (pend @ ops) (pn @ nums) s) \<and>
      (\<forall>q. follows p q \<longrightarrow> reduce_ops ms ev names q (pend @ ops) (pn @ nums) s =
        reduce_ops ms ev names q ops (plain_num (of_nat n) # nums) s)"
    by (intro exI [of _ "[]"] exI [of _ "[plain_num (of_nat n)]"]) simp
qed

lemma follows_unary: "p \<le> UNARYPREC \<Longrightarrow> follows p q \<Longrightarrow> follows UNARYPREC q"
  using bin_ops_tok(6) [of q] by (auto simp: follows_def)

lemma un_ops_tok:
  assumes "u \<in> set un_ops"
  shows "\<exists>op0. next_token nums (un_text u @ SP # rest) = Operator op0 (SP # rest) \<and> unary_form op0 = u"
    and "skip_whitespace (un_text u @ SP # rest) = un_text u @ SP # rest" and "un_text u \<noteq> []"
    and "UNARYPREC \<le> PREC u" and "PREC u < PREC_PRE" and "\<not> is_assign_op u" and "\<not> after_operand u"
proof -
  let ?op = "if u = TOK_UMINUS then TOK_SUB else if u = TOK_UPLUS then TOK_ADD else u"
  have "list_all (\<lambda>u. find (\<lambda>(t', _). prefix t' (un_text u)) op_tokens =
      Some (un_text u, if u = TOK_UMINUS then TOK_SUB else if u = TOK_UPLUS then TOK_ADD else u)) un_ops"
    by code_simp
  with find_op_blank [of "un_text u" ?op rest] assms
  have f: "find_op (un_text u @ SP # rest) = Some (?op, SP # rest)" by (simp add: list_all_iff)
  define c where "c = hd (un_text u)"
  have "\<forall>c\<in>set ''-+!~''. \<not> is_name c \<and> \<not> isdigit c \<and> \<not> isspace c \<and> c \<noteq> SP" by code_simp
  then have c: "un_text u = [c]" "\<not> is_name c" "\<not> isdigit c" "\<not> isspace c" "c \<noteq> SP"
    by (auto simp: c_def un_text_def)
  then have "next_token nums (un_text u @ SP # rest) = Operator ?op (SP # rest)"
    using f by (simp add: next_token_def char_at_def)
  moreover have "unary_form ?op = u" using assms by (auto simp: un_ops_def unary_form_def)
  ultimately show "\<exists>op0. next_token nums (un_text u @ SP # rest) = Operator op0 (SP # rest) \<and> unary_form op0 = u"
    by blast
  show "skip_whitespace (un_text u @ SP # rest) = un_text u @ SP # rest" "un_text u \<noteq> []" using c by simp_all
  show "UNARYPREC \<le> PREC u" "PREC u < PREC_PRE" "\<not> is_assign_op u" "\<not> after_operand u"
    using assms by (auto simp: un_ops_def PREC_def is_assign_op_def fix_assignment_prec_def after_operand_def Let_def)
qed

lemma apply_unary:
  assumes "unary_op u x = Some v" and "\<not> is_assign_op u"
  shows "arith_apply ms ev names u (plain_num x # nums) s = (Inr (plain_num v # nums), s)"
  using assms by (simp add: arith_apply_def arith_lookup_val_def and_then_def store_result_def plain_num_def)

text \<open>One turn of the inner loop that applies the operator on the top of the stack.\<close>

lemma reduce_apply:
  assumes "arith_apply ms ev names o' nums s = (Inr nums', s)" and "o' \<noteq> TOK_LPAREN"
    and "q = TOK_RPAREN \<or> fix_assignment_prec (PREC q) < fix_assignment_prec (PREC o') \<or>
      (fix_assignment_prec (PREC q) = fix_assignment_prec (PREC o') \<and> \<not> is_right_associative (fix_assignment_prec (PREC q)))"
  shows "reduce_ops ms ev names q (o' # ops) nums s = reduce_ops ms ev names q ops nums' s"
  using assms by (auto simp: Let_def and_then_def)

lemma runs_un:
  assumes "runs ms ev names ncap cap UNARYPREC t x l" and "u \<in> set un_ops" and "unary_op u x = Some v"
    and "p \<le> UNARYPREC"
  shows "runs ms ev names ncap cap p (un_text u @ SP # t) v l"
  unfolding runs_def
proof (intro allI impI)
  fix ops :: "operator list" and nums :: "var_or_num list" and lasttok s
  assume last: "\<not> after_operand lasttok" and cap: "length ops + length (un_text u @ SP # t) \<le> cap"
    and ncap: "length nums + l \<le> ncap"
  note u = un_ops_tok [OF assms(2)]
  have c: "ctx UNARYPREC (u # ops)" "length (u # ops) + length t \<le> cap" using cap by (simp_all add: ctx_def)
  from assms(1) [unfolded runs_def, rule_format, OF c(1) u(7) c(2) ncap, of s] obtain pend pn where
    ih: "\<And>rest. eval_loop ms ev names ncap cap False (t @ rest) u (u # ops) nums s =
          eval_loop ms ev names ncap cap False rest TOK_NUM (pend @ u # ops) (pn @ nums) s"
      "\<And>q. follows UNARYPREC q \<Longrightarrow> reduce_ops ms ev names q (pend @ u # ops) (pn @ nums) s =
          reduce_ops ms ev names q (u # ops) (plain_num x # nums) s" by blast
  have "eval_loop ms ev names ncap cap False ((un_text u @ SP # t) @ rest) lasttok ops nums s =
      eval_loop ms ev names ncap cap False (t @ rest) u (u # ops) nums s" for rest
  proof -
    from u(1) [of nums "t @ rest"] obtain op0 where
      o: "next_token nums (un_text u @ SP # t @ rest) = Operator op0 (SP # t @ rest)" "unary_form op0 = u" by blast
    have "op_step ms ev names cap op0 lasttok ops nums s = (Inr (u, u # ops, nums), s)"
      using last cap u(4,5) o(2) by (auto simp: op_step_def Let_def after_operand_def)
    from eval_loop_operator [OF _ _ this, of "un_text u @ SP # t @ rest" "SP # t @ rest"] o(1) u(2,3)
    show ?thesis by simp
  qed
  moreover have "reduce_ops ms ev names q (u # ops) (plain_num x # nums) s =
      reduce_ops ms ev names q ops (plain_num v # nums) s" if "follows p q" for q
  proof -
    have "q = TOK_RPAREN \<or> fix_assignment_prec (PREC q) < fix_assignment_prec (PREC u)"
      using that bin_ops_tok(4,6) [of q] u(4) by (auto simp: follows_def fix_assignment_prec_def)
    moreover have "u \<noteq> TOK_LPAREN" using u(4) by (auto simp: PREC_def)
    ultimately show ?thesis by (intro reduce_apply [OF apply_unary [OF assms(3) u(6)]]) auto
  qed
  ultimately show "\<exists>pend pn. (\<forall>rest. eval_loop ms ev names ncap cap False ((un_text u @ SP # t) @ rest) lasttok ops nums s =
        eval_loop ms ev names ncap cap False rest TOK_NUM (pend @ ops) (pn @ nums) s) \<and>
      (\<forall>q. follows p q \<longrightarrow> reduce_ops ms ev names q (pend @ ops) (pn @ nums) s =
        reduce_ops ms ev names q ops (plain_num v # nums) s)"
    using ih follows_unary [OF assms(4)] by (intro exI [of _ "pend @ [u]"] exI [of _ pn]) simp
qed

lemma apply_binary:
  assumes "op \<in> set bin_ops" and "binary_op op x y 0 = Inr v"
  shows "arith_apply ms ev names op (plain_num y # plain_num x # nums) s = (Inr (plain_num v # nums), s)"
  using assms(2) bin_ops_tok(8-12) [OF assms(1)]
  by (simp add: arith_apply_def arith_lookup_val_def and_then_def store_result_def plain_num_def)

lemma ctx_left:
  assumes "ctx p ops" and "p \<le> PREC op" and "op \<in> set bin_ops"
  shows "ctx (left_level op) ops" and "reduce_ops ms ev names op ops nums s = (Inr (False, ops, nums), s)"
proof -
  note b = bin_ops_tok(4-7) [OF assms(3)]
  obtain o' ops' where o: "ops = o' # ops'" "fix_assignment_prec (PREC o') < p \<or>
      (fix_assignment_prec (PREC o') = p \<and> is_right_associative p)"
    using assms(1,2) b(3) by (auto simp: ctx_def)
  have lt: "fix_assignment_prec (PREC o') < PREC op \<or> (fix_assignment_prec (PREC o') = PREC op \<and> is_right_associative (PREC op))"
    using o(2) assms(2) by auto
  then show "ctx (left_level op) ops" using o(1) by (auto simp: ctx_def left_level_def)
  show "reduce_ops ms ev names op ops nums s = (Inr (False, ops, nums), s)"
    using lt o(1) b(1,4) by (auto simp: Let_def)
qed

lemma levels_of_op:
  assumes "op \<in> set bin_ops"
  shows "follows (left_level op) op" and "ctx (right_level op) (op # ops)"
    and "p \<le> PREC op \<Longrightarrow> follows p q \<Longrightarrow> follows (right_level op) q"
    and "p \<le> PREC op \<Longrightarrow> follows p q \<Longrightarrow> q = TOK_RPAREN \<or> fix_assignment_prec (PREC q) < fix_assignment_prec (PREC op) \<or>
      (fix_assignment_prec (PREC q) = fix_assignment_prec (PREC op) \<and> \<not> is_right_associative (fix_assignment_prec (PREC q)))"
proof -
  note b = bin_ops_tok(4) [OF assms]
  show "follows (left_level op) op" using assms by (auto simp: follows_def left_level_def)
  show "ctx (right_level op) (op # ops)" using b by (auto simp: ctx_def right_level_def)
  show "follows (right_level op) q" if "p \<le> PREC op" "follows p q"
    using that by (auto simp: follows_def right_level_def order_le_less)
  show "q = TOK_RPAREN \<or> fix_assignment_prec (PREC q) < fix_assignment_prec (PREC op) \<or>
      (fix_assignment_prec (PREC q) = fix_assignment_prec (PREC op) \<and> \<not> is_right_associative (fix_assignment_prec (PREC q)))"
    if "p \<le> PREC op" "follows p q"
    using that b bin_ops_tok(4) [of q] by (auto simp: follows_def)
qed

text \<open>A binary operator behind a complete left operand: the operand is reduced and the operator pushed.\<close>

lemma op_step_binary:
  assumes "op \<in> set bin_ops" and "reduce_ops ms ev names op ops nums s = (Inr (False, ops1, nums1), s)"
    and "length ops1 < cap"
  shows "op_step ms ev names cap op TOK_NUM ops nums s = (Inr (op, op # ops1, nums1), s)"
  using assms bin_ops_tok(5-7) [OF assms(1)] by (simp add: op_step_def Let_def and_then_def)

lemma runs_bin:
  assumes a: "runs ms ev names ncap cap (left_level op) ta x la" and b: "runs ms ev names ncap cap (right_level op) tb y lb"
    and op: "op \<in> set bin_ops" and v: "binary_op op x y 0 = Inr v" and p: "p \<le> PREC op" and la: "0 < la"
  shows "runs ms ev names ncap cap p (ta @ op_text op @ SP # tb) v (la + lb)"
  unfolding runs_def
proof (intro allI impI)
  fix ops :: "operator list" and nums :: "var_or_num list" and lasttok s
  assume c: "ctx p ops" and last: "\<not> after_operand lasttok"
    and cap: "length ops + length (ta @ op_text op @ SP # tb) \<le> cap" and ncap: "length nums + (la + lb) \<le> ncap"
  note tok = bin_ops_tok [OF op]
  have "length ops + length ta \<le> cap" "length nums + la \<le> ncap" using cap ncap by simp_all
  from a [unfolded runs_def, rule_format, OF ctx_left(1) [OF c p op] last this, of s] obtain pa na where
    A: "\<And>rest. eval_loop ms ev names ncap cap False (ta @ rest) lasttok ops nums s =
          eval_loop ms ev names ncap cap False rest TOK_NUM (pa @ ops) (na @ nums) s"
      "reduce_ops ms ev names op (pa @ ops) (na @ nums) s = reduce_ops ms ev names op ops (plain_num x # nums) s"
    using levels_of_op(1) [OF op] by blast
  have "length (op # ops) + length tb \<le> cap" "length (plain_num x # nums) + lb \<le> ncap"
    using cap ncap la by simp_all
  from b [unfolded runs_def, rule_format, OF levels_of_op(2) [OF op] tok(13) this, of s] obtain pb nb where
    B: "\<And>rest. eval_loop ms ev names ncap cap False (tb @ rest) op (op # ops) (plain_num x # nums) s =
          eval_loop ms ev names ncap cap False rest TOK_NUM (pb @ op # ops) (nb @ plain_num x # nums) s"
      "\<And>q. follows (right_level op) q \<Longrightarrow> reduce_ops ms ev names q (pb @ op # ops) (nb @ plain_num x # nums) s =
          reduce_ops ms ev names q (op # ops) (plain_num y # plain_num x # nums) s" by blast
  have "length ops < cap" using cap tok(3) by (cases "op_text op") auto
  with A(2) have step: "op_step ms ev names cap op TOK_NUM (pa @ ops) (na @ nums) s = (Inr (op, op # ops, plain_num x # nums), s)"
    using ctx_left(2) [OF c p op] by (intro op_step_binary [OF op]) auto
  have "eval_loop ms ev names ncap cap False ((ta @ op_text op @ SP # tb) @ rest) lasttok ops nums s =
      eval_loop ms ev names ncap cap False rest TOK_NUM (pb @ op # ops) (nb @ plain_num x # nums) s" for rest
  proof -
    have "eval_loop ms ev names ncap cap False ((ta @ op_text op @ SP # tb) @ rest) lasttok ops nums s =
        eval_loop ms ev names ncap cap False (op_text op @ SP # tb @ rest) TOK_NUM (pa @ ops) (na @ nums) s"
      using A(1) [of "op_text op @ SP # tb @ rest"] by simp
    also have "\<dots> = eval_loop ms ev names ncap cap False (SP # tb @ rest) op (op # ops) (plain_num x # nums) s"
      using tok(1-3) by (intro eval_loop_operator [OF _ _ step]) simp_all
    finally show ?thesis using B(1) by simp
  qed
  moreover have "reduce_ops ms ev names q (pb @ op # ops) (nb @ plain_num x # nums) s =
      reduce_ops ms ev names q ops (plain_num v # nums) s" if "follows p q" for q
  proof -
    have "op \<noteq> TOK_LPAREN" using tok(5) by (auto simp: PREC_def)
    from reduce_apply [OF apply_binary [OF op v] this levels_of_op(4) [OF op p that]]
    show ?thesis by (rule trans [OF B(2) [OF levels_of_op(3) [OF op p that]]])
  qed
  ultimately show "\<exists>pend pn. (\<forall>rest. eval_loop ms ev names ncap cap False ((ta @ op_text op @ SP # tb) @ rest) lasttok ops nums s =
        eval_loop ms ev names ncap cap False rest TOK_NUM (pend @ ops) (pn @ nums) s) \<and>
      (\<forall>q. follows p q \<longrightarrow> reduce_ops ms ev names q (pend @ ops) (pn @ nums) s =
        reduce_ops ms ev names q ops (plain_num v # nums) s)"
    by (intro exI [of _ "pb @ [op]"] exI [of _ "nb @ [plain_num x]"]) simp
qed

lemma runs_paren:
  assumes t: "runs ms ev names ncap cap 1 t v l"
  shows "runs ms ev names ncap cap p (''( '' @ t @ '') '') v l"
  unfolding runs_def
proof (intro allI impI)
  fix ops :: "operator list" and nums :: "var_or_num list" and lasttok s
  assume cap: "length ops + length (''( '' @ t @ '') '') \<le> cap" and ncap: "length nums + l \<le> ncap"
  have c: "ctx 1 (TOK_LPAREN # ops)" "length (TOK_LPAREN # ops) + length t \<le> cap" "\<not> after_operand TOK_LPAREN"
    using cap by (simp_all add: ctx_def PREC_def fix_assignment_prec_def after_operand_def)
  from t [unfolded runs_def, rule_format, OF c(1,3,2) ncap, of s] obtain pt nt where
    T: "\<And>rest. eval_loop ms ev names ncap cap False (t @ rest) TOK_LPAREN (TOK_LPAREN # ops) nums s =
          eval_loop ms ev names ncap cap False rest TOK_NUM (pt @ TOK_LPAREN # ops) (nt @ nums) s"
      "\<And>q. follows 1 q \<Longrightarrow> reduce_ops ms ev names q (pt @ TOK_LPAREN # ops) (nt @ nums) s =
          reduce_ops ms ev names q (TOK_LPAREN # ops) (plain_num v # nums) s" by blast
  have open_tok: "next_token nums (skip_whitespace (CHR ''('' # SP # r)) = Operator TOK_LPAREN (SP # r)" for nums r
  proof -
    have "find (\<lambda>(t', _). prefix t' ''('') op_tokens = Some (''('', TOK_LPAREN)" by code_simp
    from find_op_blank [OF this] have "find_op (CHR ''('' # SP # r) = Some (TOK_LPAREN, SP # r)" by simp
    moreover have "\<not> is_name (CHR ''('') \<and> \<not> isdigit (CHR ''('') \<and> \<not> isspace (CHR ''('')" by code_simp
    ultimately show ?thesis by (simp add: next_token_def)
  qed
  have close_tok: "next_token nums (skip_whitespace (CHR '')'' # SP # r)) = Operator TOK_RPAREN (SP # r)" for nums r
  proof -
    have "find (\<lambda>(t', _). prefix t' '')'') op_tokens = Some ('')'', TOK_RPAREN)" by code_simp
    from find_op_blank [OF this] have "find_op (CHR '')'' # SP # r) = Some (TOK_RPAREN, SP # r)" by simp
    moreover have "\<not> is_name (CHR '')'') \<and> \<not> isdigit (CHR '')'') \<and> \<not> isspace (CHR '')'')" by code_simp
    ultimately show ?thesis by (simp add: next_token_def)
  qed
  have ne: "skip_whitespace (CHR ''('' # r) \<noteq> []" "skip_whitespace (CHR '')'' # r) \<noteq> []" for r
    by (simp_all add: isspace_def ch_def)
  have o: "op_step ms ev names cap TOK_LPAREN lasttok ops nums s = (Inr (TOK_LPAREN, TOK_LPAREN # ops, nums), s)"
    using cap by (simp add: op_step_def Let_def unary_form_def PREC_def)
  have "reduce_ops ms ev names TOK_RPAREN (pt @ TOK_LPAREN # ops) (nt @ nums) s = (Inr (True, ops, plain_num v # nums), s)"
    using T(2) [of TOK_RPAREN] by (simp add: follows_def arith_lookup_val_def and_then_def plain_num_def)
  then have cl: "op_step ms ev names cap TOK_RPAREN TOK_NUM (pt @ TOK_LPAREN # ops) (nt @ nums) s =
      (Inr (TOK_NUM, ops, plain_num v # nums), s)"
    by (simp add: op_step_def Let_def and_then_def PREC_def)
  have "eval_loop ms ev names ncap cap False ((''( '' @ t @ '') '') @ rest) lasttok ops nums s =
      eval_loop ms ev names ncap cap False rest TOK_NUM ops (plain_num v # nums) s" for rest
    using eval_loop_operator [OF open_tok ne(1) o, of ncap False "t @ '') '' @ rest"] T(1) [of "'') '' @ rest"]
      eval_loop_operator [OF close_tok ne(2) cl, of ncap False rest] by simp
  then show "\<exists>pend pn. (\<forall>rest. eval_loop ms ev names ncap cap False ((''( '' @ t @ '') '') @ rest) lasttok ops nums s =
        eval_loop ms ev names ncap cap False rest TOK_NUM (pend @ ops) (pn @ nums) s) \<and>
      (\<forall>q. follows p q \<longrightarrow> reduce_ops ms ev names q (pend @ ops) (pn @ nums) s =
        reduce_ops ms ev names q ops (plain_num v # nums) s)"
    by (intro exI [of _ "[]"] exI [of _ "[plain_num v]"]) simp
qed

section \<open>Evaluation of whole texts\<close>

lemma lits_pos: "0 < lits e"
  by (induction e) auto

lemma runs_render:
  "wf_aexp e \<Longrightarrow> aval e = Some v \<Longrightarrow> p \<le> UNARYPREC \<Longrightarrow> runs ms ev names ncap cap p (render p e) v (lits e)"
proof (induction e arbitrary: p v)
  case (Lit n)
  then show ?case using runs_lit [of n] by auto
next
  case (Unop u a)
  then obtain x where x: "aval a = Some x" "v = uvalue u x" by auto
  have "runs ms ev names ncap cap p (un_text (un_tok u) @ SP # render UNARYPREC a) v (lits a)"
    by (rule runs_un [OF _ un_tok_facts(1) _ Unop.prems(3)]) (use Unop x in \<open>simp_all add: un_tok_facts(3)\<close>)
  then show ?case by (simp add: un_tok_facts(2))
next
  case (Binop o' a b)
  then obtain x y where x: "aval a = Some x" "aval b = Some y" "bvalue o' x y = Some v"
    by (auto split: option.splits)
  let ?op = "bin_tok o'"
  note op = bin_tok_facts [of o']
  note b = bin_ops_tok(5,6) [OF op(1)]
  have "left_level ?op \<le> UNARYPREC" "right_level ?op \<le> UNARYPREC" using b by (simp_all add: left_level_def right_level_def)
  with Binop.IH(1) [OF _ x(1)] Binop.IH(2) [OF _ x(2)] Binop.prems(1)
  have r: "runs ms ev names ncap cap q (render (left_level ?op) a @ op_text ?op @ SP # render (right_level ?op) b) v (lits a + lits b)"
    if "q \<le> PREC ?op" for q
    by (intro runs_bin [OF _ _ op(1) bin_tok_value [OF x(3)] that lits_pos]) simp_all
  show ?case using r [of p] runs_paren [OF r [of 1]] b(1) by (simp add: in_parens_def op bin_tok_levels)
qed

lemma length_render: "wf_aexp e \<Longrightarrow> 2 * lits e \<le> length (render p e)"
proof (induction e arbitrary: p)
  case (Lit n)
  have "dec_of_nat n \<noteq> []" by simp
  then show ?case by (cases "dec_of_nat n") simp_all
next
  case (Unop u a)
  then have "2 * lits a \<le> length (render 16 a)" by simp
  then show ?case by simp
next
  case (Binop o' a b)
  define l where "l = (if right_assoc o' then level o' + 1 else level o')"
  define r where "r = (if right_assoc o' then level o' else level o' + 1)"
  have "2 * lits a \<le> length (render l a)" "2 * lits b \<le> length (render r b)" using Binop by simp_all
  then show ?case unfolding render.simps l_def [symmetric] r_def [symmetric] by (simp add: in_parens_def)
qed

lemma skip_whitespace_render: "wf_aexp e \<Longrightarrow> skip_whitespace (render p e @ r) = render p e @ r \<and> render p e \<noteq> []"
proof (induction e arbitrary: p r)
  case (Lit n)
  have "36 \<le> digit_val SP" by code_simp
  with Lit next_token_dec(2) [of "SP # r" n] show ?case by simp
next
  case (Unop u a)
  then show ?case using un_ops_tok(2) [OF un_tok_facts(1), of u "render 16 a @ r"] by (simp add: un_tok_facts(2))
next
  case (Binop o' a b)
  have "\<not> isspace (CHR ''('')" by code_simp
  then show ?case using Binop by (auto simp: in_parens_def)
qed

text \<open>The end of the text: the appended parenthesis closes the initial one.\<close>

lemma eval_loop_finish:
  assumes "reduce_ops ms ev names TOK_RPAREN ops nums s = (Inr (True, [], [plain_num v]), s')"
  shows "eval_loop ms ev names ncap cap False [] TOK_NUM ops nums s = (Inr v, s')"
proof -
  have t: "next_token nums (skip_whitespace '')'') = Operator TOK_RPAREN []"
  proof -
    have "find_op '')'' = Some (TOK_RPAREN, [])"
      "\<not> is_name (CHR '')'') \<and> \<not> isdigit (CHR '')'') \<and> \<not> isspace (CHR '')'')" by code_simp+
    then show ?thesis by (simp add: next_token_def)
  qed
  have ne: "skip_whitespace '')'' \<noteq> []" by (simp add: isspace_def ch_def)
  have o: "op_step ms ev names cap TOK_RPAREN TOK_NUM ops nums s = (Inr (TOK_NUM, [], [plain_num v]), s')"
    using assms by (simp add: op_step_def Let_def and_then_def PREC_def)
  have "eval_loop ms ev names ncap cap True [] TOK_NUM [] [plain_num v] s' = (Inr v, s')"
    by (subst eval_loop.simps) (simp add: plain_num_def)
  with eval_loop_operator [OF t ne o, of ncap True] show ?thesis
    by (subst eval_loop.simps) simp
qed

lemma evaluate_render:
  assumes "wf_aexp e" and "aval e = Some v"
  shows "evaluate_string (Suc fuel) ms names (render 1 e) s = (Inr v, s)"
proof -
  let ?t = "render 1 e" and ?ev = "evaluate_string fuel ms"
  have sk: "skip_whitespace ?t = ?t" "?t \<noteq> []" using skip_whitespace_render [OF assms(1), of 1 "[]"] by simp_all
  have "runs ms ?ev names ((length ?t + 2) div 2) (length ?t + 2) 1 ?t v (lits e)"
    by (rule runs_render [OF assms]) simp
  moreover have "ctx 1 [TOK_LPAREN]" "\<not> after_operand TOK_LPAREN" "length [TOK_LPAREN] + length ?t \<le> length ?t + 2"
    "length ([] :: var_or_num list) + lits e \<le> (length ?t + 2) div 2"
    using length_render [OF assms(1), of 1] by (simp_all add: ctx_def PREC_def fix_assignment_prec_def after_operand_def)
  ultimately obtain pt nt where
    T: "\<And>rest. eval_loop ms ?ev names ((length ?t + 2) div 2) (length ?t + 2) False (?t @ rest) TOK_LPAREN [TOK_LPAREN] [] s =
          eval_loop ms ?ev names ((length ?t + 2) div 2) (length ?t + 2) False rest TOK_NUM (pt @ [TOK_LPAREN]) (nt @ []) s"
      "\<And>q. follows 1 q \<Longrightarrow> reduce_ops ms ?ev names q (pt @ [TOK_LPAREN]) (nt @ []) s =
          reduce_ops ms ?ev names q [TOK_LPAREN] [plain_num v] s"
    unfolding runs_def by meson
  have "reduce_ops ms ?ev names TOK_RPAREN (pt @ [TOK_LPAREN]) (nt @ []) s = (Inr (True, [], [plain_num v]), s)"
    using T(2) [of TOK_RPAREN] by (simp add: follows_def arith_lookup_val_def and_then_def plain_num_def)
  from eval_loop_finish [OF this] T(1) [of "[]"] sk show ?thesis by (simp add: Let_def)
qed

text \<open>C25: shell arithmetic computes the value of every expression over literals, the unary operators
  - + ! ~ and the binary operators , || && | ^ & == != < > >= <= << >> + - * / % **, written with
  parentheses only where their precedences and associativities (a table of its own, ** grouping to the
  right) require them, whenever the value, in signed 64-bit arithmetic that wraps, is defined (no division by zero, no negative exponent), and leaves the variables alone.\<close>

theorem arith_computes_value:
  assumes "wf_aexp e" and "aval e = Some v"
  shows "arith (Suc fuel) ms (render 1 e) s = (Inr v, s)"
  unfolding arith_def by (rule evaluate_render [OF assms])

theorem arith_computes_value_witness:
  "arith 1 map_store ''1 - 2 * ( 3 - 4 ) '' Map.empty = (Inr 3, Map.empty)"
proof -
  let ?e = "Binop BSub (Lit 1) (Binop BMul (Lit 2) (Binop BSub (Lit 3) (Lit 4)))"
  have "wf_aexp ?e" by simp
  moreover have "aval ?e = Some 3" by code_simp
  moreover have "render 1 ?e = ''1 - 2 * ( 3 - 4 ) ''" by code_simp
  ultimately show ?thesis using arith_computes_value [of ?e 3 0 map_store Map.empty] by simp
qed

section \<open>Assigned values read back\<close>

lemma evaluate_dec:
  assumes "n < 18446744073709551616"
  shows "evaluate_string (Suc fuel) ms names (dec_of_nat n) s = (Inr (of_nat n), s)"
    and "evaluate_string (Suc fuel) ms names (CHR ''-'' # dec_of_nat n) s = (Inr (- of_nat n), s)"
proof -
  let ?d = "dec_of_nat n" and ?ev = "evaluate_string fuel ms" and ?n = "plain_num (of_nat n)"
  have d: "next_token nums (skip_whitespace ?d) = Operand ?n []" "skip_whitespace ?d = ?d" "?d \<noteq> []" for nums
    using next_token_dec [of "[]" n] assms by simp_all
  have num: "eval_loop ms ?ev names ncap cap False ?d lasttok ops [] s = eval_loop ms ?ev names ncap cap False [] TOK_NUM ops [?n] s"
    if "0 < ncap" for ncap cap lasttok ops
    using d that by (subst eval_loop_operand [OF d(1)]) simp_all
  have "reduce_ops ms ?ev names TOK_RPAREN [TOK_LPAREN] [?n] s = (Inr (True, [], [?n]), s)"
    by (simp add: arith_lookup_val_def and_then_def plain_num_def)
  from eval_loop_finish [OF this] num d show "evaluate_string (Suc fuel) ms names ?d s = (Inr (of_nat n), s)"
    by (simp add: Let_def)
  have neg: "reduce_ops ms ?ev names TOK_RPAREN [TOK_UMINUS, TOK_LPAREN] [?n] s = (Inr (True, [], [plain_num (- of_nat n)]), s)"
    using apply_unary [of TOK_UMINUS "of_nat n" "- of_nat n" ms ?ev names "[]" s]
    by (simp add: unary_op_def is_assign_op_def PREC_def fix_assignment_prec_def Let_def and_then_def
        arith_lookup_val_def plain_num_def)
  obtain c cs where c: "?d = c # cs" "isdigit c"
    using d(3) dec_of_nat_digits [of _ n] by (cases ?d) auto
  then have "c \<noteq> CHR ''-''" "c \<noteq> CHR ''=''" by (auto simp: isdigit_def ch_def)
  then have "find_op (CHR ''-'' # ?d) = Some (TOK_SUB, ?d)" using c by (simp add: find_op_def op_tokens_def)
  moreover have "\<not> is_name (CHR ''-'') \<and> \<not> isdigit (CHR ''-'') \<and> \<not> isspace (CHR ''-'')" by code_simp
  ultimately have t: "next_token [] (skip_whitespace (CHR ''-'' # ?d)) = Operator TOK_SUB ?d"
    "skip_whitespace (CHR ''-'' # ?d) = CHR ''-'' # ?d"
    using c \<open>c \<noteq> CHR ''-''\<close> by (simp_all add: next_token_def)
  have "op_step ms ?ev names (Suc (Suc (Suc (length ?d)))) TOK_SUB TOK_LPAREN [TOK_LPAREN] [] s =
      (Inr (TOK_UMINUS, [TOK_UMINUS, TOK_LPAREN], []), s)"
    by (simp add: op_step_def unary_form_def PREC_def Let_def)
  from eval_loop_operator [OF t(1) _ this, of "Suc (length ?d) div 2 + 1" False] num eval_loop_finish [OF neg] t(2)
  show "evaluate_string (Suc fuel) ms names (CHR ''-'' # ?d) s = (Inr (- of_nat n), s)"
    by (simp add: Let_def)
qed

lemma evaluate_stored: "evaluate_string (Suc fuel) ms names (dec_of_int (sint w)) s = (Inr w, s)" for w :: arith_t
proof -
  have b: "- (2 ^ 63) \<le> sint w" "sint w < 2 ^ 63" using sint_ge [of w] sint_lt [of w] by simp_all
  show ?thesis
  proof (cases "sint w < 0")
    case True
    with b have "nat (- sint w) < 18446744073709551616" by simp
    moreover have "- of_nat (nat (- sint w)) = w" using True by (simp flip: of_int_minus)
    ultimately show ?thesis using evaluate_dec(2) [of "nat (- sint w)" fuel ms names s] True by (simp add: dec_of_int_def)
  next
    case False
    with b have "nat (sint w) < 18446744073709551616" by simp
    moreover have "of_nat (nat (sint w)) = w" using False by simp
    ultimately show ?thesis using evaluate_dec(1) [of "nat (sint w)" fuel ms names s] False by (simp add: dec_of_int_def)
  qed
qed

abbreviation var_num :: "cstr \<Rightarrow> var_or_num" where
  "var_num v \<equiv> (plain_num 0)\<lparr>num_var := Some v\<rparr>"

lemma next_token_var:
  assumes "var_name v" and "r = [] \<or> \<not> is_in_name (hd r)"
  shows "next_token nums (skip_whitespace (v @ r)) = Operand (var_num v) r" and "skip_whitespace (v @ r) = v @ r"
proof -
  obtain c cs where v: "v = c # cs" "is_name c" "\<forall>x\<in>set cs. is_in_name x" using assms(1) by (cases v) (auto simp: var_name_def)
  have "\<not> isspace c" using v(2) by (auto simp: is_name_def isspace_def isalpha_def isupper_def islower_def ch_def)
  then show sk: "skip_whitespace (v @ r) = v @ r" using v(1) by simp
  have "takeWhile is_in_name (cs @ r) = cs" "dropWhile is_in_name (cs @ r) = r"
    using v(3) assms(2) by (cases r; simp add: takeWhile_append dropWhile_append)+
  then show "next_token nums (skip_whitespace (v @ r)) = Operand (var_num v) r"
    unfolding sk using v(1,2) by (simp add: next_token_def)
qed

lemma lookup_stored:
  assumes "lookupvar ms s v = Some (dec_of_int (sint x))" and "v \<notin> set names"
  shows "arith_lookup_val ms (evaluate_string (Suc fuel) ms) names (var_num v) s = (Inr ((var_num v)\<lparr>num_val := x\<rparr>), s)"
  using assms evaluate_stored [of fuel ms "v # names" x s]
  by (simp add: arith_lookup_val_def and_then_def del: evaluate_string.simps)

lemma evaluate_var:
  assumes "var_name v" and "lookupvar ms s v = Some (dec_of_int (sint x))"
  shows "arith (Suc (Suc fuel)) ms v s = (Inr x, s)"
proof -
  note t = next_token_var [OF assms(1), of "[]", simplified]
  have "v \<noteq> []" using assms(1) by (auto simp: var_name_def)
  let ?ev = "evaluate_string (Suc fuel) ms"
  have "reduce_ops ms ?ev [] TOK_RPAREN [TOK_LPAREN] [var_num v] s = (Inr (True, [], [plain_num x]), s)"
    using lookup_stored [OF assms(2), of "[]" fuel] by (simp add: and_then_def plain_num_def del: evaluate_string.simps)
  from eval_loop_finish [OF this] \<open>v \<noteq> []\<close> t show ?thesis
    unfolding arith_def by (simp add: Let_def eval_loop_operand [OF t(1)] evaluate_string.simps(2) [of "Suc fuel"]
        del: evaluate_string.simps)
qed

lemma evaluate_assign:
  assumes "var_name v" and "wf_aexp e" and "aval e = Some x" and "setvar ms v (dec_of_int (sint x)) s = Some s'"
  shows "arith (Suc fuel) ms (v @ '' = '' @ render 3 e) s = (Inr x, s')"
proof -
  let ?R = "render 3 e" and ?ev = "evaluate_string fuel ms" and ?ops = "[TOK_ASSIGN, TOK_LPAREN]"
  define ncap where "ncap = (length (v @ '' = '' @ ?R) + 2) div 2"
  define cap where "cap = length (v @ '' = '' @ ?R) + 2"
  have bounds: "0 < ncap" "length ?ops + length ?R \<le> cap" "length [var_num v] + lits e \<le> ncap"
    using length_render [OF assms(2), of 3] by (simp_all add: ncap_def cap_def)
  have "\<not> is_in_name SP" by code_simp
  then have t: "next_token nums (skip_whitespace (v @ '' = '' @ ?R)) = Operand (var_num v) ('' = '' @ ?R)"
    "skip_whitespace (v @ '' = '' @ ?R) = v @ '' = '' @ ?R" for nums
    using next_token_var [OF assms(1), of "'' = '' @ ?R"] by simp_all
  have eq: "next_token nums (skip_whitespace (CHR ''='' # SP # ?R)) = Operator TOK_ASSIGN (SP # ?R)"
    "skip_whitespace (CHR ''='' # SP # ?R) \<noteq> []" for nums
  proof -
    have "find (\<lambda>(t', _). prefix t' ''='') op_tokens = Some (''='', TOK_ASSIGN)" by code_simp
    from find_op_blank [OF this, of ?R] have "find_op (CHR ''='' # SP # ?R) = Some (TOK_ASSIGN, SP # ?R)" by simp
    moreover have "\<not> is_name (CHR ''='') \<and> \<not> isdigit (CHR ''='') \<and> \<not> isspace (CHR ''='')" by code_simp
    ultimately show "next_token nums (skip_whitespace (CHR ''='' # SP # ?R)) = Operator TOK_ASSIGN (SP # ?R)"
      "skip_whitespace (CHR ''='' # SP # ?R) \<noteq> []" by (simp_all add: next_token_def)
  qed
  have step: "op_step ms ?ev [] cap TOK_ASSIGN TOK_NUM [TOK_LPAREN] [var_num v] s = (Inr (TOK_ASSIGN, ?ops, [var_num v]), s)"
    using bounds by (simp add: op_step_def PREC_def fix_assignment_prec_def and_then_def Let_def)
  have "ctx 3 ?ops" "\<not> after_operand TOK_ASSIGN"
    by (simp_all add: ctx_def PREC_def fix_assignment_prec_def after_operand_def)
  moreover have "runs ms ?ev [] ncap cap 3 ?R x (lits e)" by (rule runs_render [OF assms(2,3)]) simp
  ultimately obtain pt nt where
    T: "\<And>rest. eval_loop ms ?ev [] ncap cap False (?R @ rest) TOK_ASSIGN ?ops [var_num v] s =
          eval_loop ms ?ev [] ncap cap False rest TOK_NUM (pt @ ?ops) (nt @ [var_num v]) s"
      "\<And>q. follows 3 q \<Longrightarrow> reduce_ops ms ?ev [] q (pt @ ?ops) (nt @ [var_num v]) s =
          reduce_ops ms ?ev [] q ?ops [plain_num x, var_num v] s"
    unfolding runs_def using bounds(2,3) by meson
  have "arith_apply ms ?ev [] TOK_ASSIGN [plain_num x, var_num v] s = (Inr [plain_num x], s')"
    using assms(4) by (simp add: arith_apply_def arith_lookup_val_def and_then_def unary_op_def binary_op_def store_result_def
        is_assign_op_def PREC_def fix_assignment_prec_def plain_num_def)
  then have "reduce_ops ms ?ev [] TOK_RPAREN (pt @ ?ops) (nt @ [var_num v]) s = (Inr (True, [], [plain_num x]), s')"
    using T(2) [of TOK_RPAREN] by (simp add: follows_def and_then_def arith_lookup_val_def plain_num_def Let_def)
  from eval_loop_finish [OF this]
  have fin: "eval_loop ms ?ev [] ncap cap False ?R TOK_ASSIGN ?ops [var_num v] s = (Inr x, s')"
    using T(1) [of "[]"] by simp
  have "eval_loop ms ?ev [] ncap cap False (v @ '' = '' @ ?R) TOK_LPAREN [TOK_LPAREN] [] s =
      eval_loop ms ?ev [] ncap cap False (CHR ''='' # SP # ?R) TOK_NUM [TOK_LPAREN] [var_num v] s"
    using bounds(1) t(2) by (subst eval_loop_operand [OF t(1)]) simp_all
  also have "\<dots> = (Inr x, s')" using eval_loop_operator [OF eq step, of ncap False] fin by simp
  finally show ?thesis unfolding arith_def ncap_def cap_def evaluate_string.simps Let_def t(2) by simp
qed

end
