(* ===== verification/Ash_Arith.thy ===== *)
theory Ash_Arith
  imports Ash_Vars Ash_Math_Expr
begin

text \<open>
  Arithmetic on the shell's own variables: \<open>ash_arith\<close> and the builtin \<open>let\<close> of \<open>shell/ash.c\<close>, which
  hand \<open>lookupvar\<close> and \<open>setvar0\<close> to the evaluator of \<open>shell/math.c\<close>.  The table of \<open>Ash_Vars\<close> is shown
  to be a variable store in the sense of \<open>Ash_Math_Safe\<close>, so its results carry over.

  The number of levels given to the evaluator is the number of variables plus two, which is proved
  to be enough.  \<open>lookupvar\<close> also refreshes the static text of LINENO or FUNCNAME; that text is written
  afresh before every use and is left out of the state here.
\<close>

section \<open>Operations\<close>

text \<open>An error message is raised as an exception; a write past the number stack is not an error the code sees, and
  stays apart.\<close>

definition ash_math_state :: "ash_vars arith_state" where
  "ash_math_state =
     \<lparr>lookupvar = (\<lambda>st n. fst (lookup_var n st)),
      setvar = (\<lambda>n v st. case setvar0 n v st of Inl _ \<Rightarrow> None | Inr st' \<Rightarrow> Some st')\<rparr>"

definition arith_levels :: "ash_vars \<Rightarrow> nat" where
  "arith_levels st = length (concat (vartab st)) + 2"

definition ash_arith :: "cstr \<Rightarrow> ash_vars \<Rightarrow> (arith_t, ash_vars) eval" where
  "ash_arith s st =
     (case arith (arith_levels st) ash_math_state s st of
        (Inr x, st1) \<Rightarrow> (Inr x, st1)
      | (Inl NumOverrun, st1) \<Rightarrow> (Inl NumOverrun, st1)
      | (Inl e, st1) \<Rightarrow> (Inl e, raise_error st1))"

fun let_loop :: "cstr list \<Rightarrow> arith_t \<Rightarrow> ash_vars \<Rightarrow> (int, ash_vars) eval" where
  "let_loop [] i st = (Inr (if i = 0 then 1 else 0), st)"
| "let_loop (a # as) i st =
     (case ash_arith a st of (Inl e, st1) \<Rightarrow> (Inl e, st1) | (Inr j, st1) \<Rightarrow> let_loop as j st1)"

definition letcmd :: "cstr list \<Rightarrow> ash_vars \<Rightarrow> (int, ash_vars) eval" where
  "letcmd args st =
     (if args = [] then (Inl (Msg ''expression expected''), raise_error st) else let_loop args 0 st)"

section \<open>The table is a variable store\<close>

lemma setvar0_updates:
  assumes "vars_ok st" and "var_name n" and "setvar0 n v st = Inr st'"
  shows "vars_ok st'" and "var_name m \<Longrightarrow> var_value st' m = (if m = n then Some v else var_value st m)"
proof -
  obtain e where e: "updates st n e st'" "entry_value st e = Some v"
    using set_var_updates [OF assms(1,2)] assms(3) unfolding setvar0_def by blast
  then show "vars_ok st'" by (simp add: updates_def)
  show "var_name m \<Longrightarrow> var_value st' m = (if m = n then Some v else var_value st m)"
    using updates_value [OF e(1)] e(2) by simp
qed

lemma ash_lookup [simp]: "lookupvar ash_math_state st n = var_value st n"
  by (simp add: ash_math_state_def var_value_def)

lemma ash_set: "setvar ash_math_state n v st = Some st' \<longleftrightarrow> setvar0 n v st = Inr st'"
  by (auto simp: ash_math_state_def split: sum.splits)

interpretation ash_store: var_store ash_math_state vars_ok
  by unfold_locales (use setvar0_updates in \<open>auto simp: ash_set\<close>)

text \<open>Only variables of the table can have a value, so at most that many can lead the evaluation on.\<close>

lemma named_bound:
  assumes "vars_ok st"
  shows "finite (ash_store.named st)" and "card (ash_store.named st) \<le> length (concat (vartab st))"
proof -
  let ?K = "set (map key (concat (vartab st)))"
  have "ash_store.named st \<subseteq> ?K"
  proof
    fix n assume "n \<in> ash_store.named st"
    then obtain v where n: "var_name n" "findvar st n = Some v"
      by (auto simp: ash_store.named_def var_value_entry entry_value_def split: option.splits)
    have "hashvar n < length (vartab st)" using assms hashvar_bound [of n] by (simp add: vars_ok_def)
    then have "vartab st ! hashvar n \<in> set (vartab st)" by (rule nth_mem)
    moreover have "v \<in> set (vartab st ! hashvar n)" "key v = n"
      using n var_name_vname(1) [OF n(1)] unfolding findvar_find by (auto simp: find_Some_iff)
    ultimately show "n \<in> ?K" by auto
  qed
  moreover have "card ?K \<le> length (concat (vartab st))" by (metis card_length length_map)
  ultimately show "finite (ash_store.named st)" "card (ash_store.named st) \<le> length (concat (vartab st))"
    by (metis finite_set finite_subset, metis card_mono finite_set order_trans)
qed

lemma ash_arith_ok:
  assumes "vars_ok st"
  shows "\<forall>e. fst (ash_arith s st) = Inl e \<longrightarrow> raised_or_overrun e" and "vars_ok (snd (ash_arith s st))"
proof -
  have r: "vars_ok (raise_error st') = vars_ok st'" for st' by (simp add: vars_ok_def raise_error_def)
  have "card (ash_store.named st) + 2 \<le> arith_levels st" using named_bound(2) [OF assms] by (simp add: arith_levels_def)
  from ash_store.arith_terminates [OF assms named_bound(1) [OF assms] this, of s]
  show "\<forall>e. fst (ash_arith s st) = Inl e \<longrightarrow> raised_or_overrun e" "vars_ok (snd (ash_arith s st))"
    by (auto simp: ash_arith_def r split: prod.splits sum.splits arith_err.splits)
qed

lemma let_loop_ok: "vars_ok st \<Longrightarrow> (\<forall>e. fst (let_loop as i st) = Inl e \<longrightarrow> raised_or_overrun e) \<and> vars_ok (snd (let_loop as i st))"
proof (induction as arbitrary: i st)
  case (Cons a as)
  then show ?case using ash_arith_ok [OF Cons.prems, of a] by (auto split: prod.splits sum.splits)
qed simp

section \<open>Properties\<close>

text \<open>C27: arithmetic on the shell's variables always ends: the recursion through variable values needs
  at most two levels more than there are variables, whatever the expressions, the assignments they
  make on the way and cycles among the variables (which end in an error message).  The builtin let
  returns 0 or 1, raises an error with status 2 (a message of arithmetic or a refused assignment), or
  writes past the number stack of \<open>evaluate_string\<close>, of which nothing is said; unless it does the last, it
  leaves the table well formed.\<close>

theorem letcmd_ends:
  assumes "vars_ok st"
  shows "case letcmd args st of
      (Inl e, st') \<Rightarrow> e = NumOverrun \<or> ((\<exists>m. e = Msg m) \<or> e = Raised) \<and> exitstatus st' = 2 \<and> vars_ok st'
    | (Inr i, st') \<Rightarrow> i \<in> {0, 1} \<and> vars_ok st'"
proof -
  have "\<forall>e st'. let_loop as i st = (Inl e, st') \<longrightarrow> e = NumOverrun \<or> exitstatus st' = 2" for as i st
    by (induction as arbitrary: i st) (auto simp: ash_arith_def raise_error_def split: prod.splits sum.splits arith_err.splits)
  then have e: "\<forall>e st'. let_loop args 0 st = (Inl e, st') \<longrightarrow> e = NumOverrun \<or> exitstatus st' = 2" .
  have "\<forall>j st'. let_loop as i st = (Inr j, st') \<longrightarrow> j = 0 \<or> j = 1" for as i st
    by (induction as arbitrary: i st) (auto split: prod.splits sum.splits)
  then have j: "\<forall>j st'. let_loop args 0 st = (Inr j, st') \<longrightarrow> j = 0 \<or> j = 1" .
  have "vars_ok (raise_error st)" using assms by (simp add: vars_ok_def raise_error_def)
  then show ?thesis using e j let_loop_ok [OF assms, of args 0]
    by (cases "let_loop args 0 st"; cases "fst (let_loop args 0 st)") (auto simp: letcmd_def raise_error_def raised_or_overrun_def)
qed

definition cyclic_table :: ash_vars where
  "cyclic_table =
     (let st = initvar ash_empty; st1 = (case setvar0 ''a'' ''b'' st of Inl _ \<Rightarrow> st | Inr st' \<Rightarrow> st')
      in case setvar0 ''b'' ''a+1'' st1 of Inl _ \<Rightarrow> st1 | Inr st' \<Rightarrow> st')"

theorem letcmd_ends_witness:
  "\<exists>m st'. letcmd [''a''] cyclic_table = (Inl (Msg m), st') \<and> exitstatus st' = 2 \<and> vars_ok st'"
proof -
  have n: "var_name ''a''" "var_name ''b''" by code_simp+
  have set_ok: "vars_ok (case setvar0 m v st of Inl _ \<Rightarrow> st | Inr st' \<Rightarrow> st')" if "vars_ok st" "var_name m" for m v st
    using that setvar0_updates(1) [OF that, of v] by (cases "setvar0 m v st") simp_all
  have ok: "vars_ok cyclic_table" unfolding cyclic_table_def Let_def by (intro set_ok init_facts(1) n)
  have "case fst (letcmd [''a''] cyclic_table) of Inl (Msg m) \<Rightarrow> True | _ \<Rightarrow> False" by code_simp
  with letcmd_ends [OF ok, of "[''a'']"] show ?thesis
    by (cases "letcmd [''a''] cyclic_table"; cases "fst (letcmd [''a''] cyclic_table)") (auto split: arith_err.splits)
qed

text \<open>C28: arithmetic and the variable table agree on every 64-bit value, the most negative one included:
  assigning an expression to a variable that is not read-only stores the decimal text of its value
  and changes no other variable, and evaluating the variable afterwards gives the value back.\<close>

theorem assign_then_read:
  assumes "vars_ok st" and "var_name v" and "\<not> readonly_var st v" and "wf_aexp e" and "aval e = Some x"
  shows "\<exists>st'. ash_arith (v @ '' = '' @ render 3 e) st = (Inr x, st') \<and>
    (\<forall>m. var_name m \<longrightarrow> var_value st' m = (if m = v then Some (dec_of_int (sint x)) else var_value st m)) \<and>
    ash_arith v st' = (Inr x, st')"
proof -
  let ?d = "dec_of_int (sint x)"
  have lv: "arith_levels s = Suc (Suc (length (concat (vartab s))))" for s by (simp add: arith_levels_def)
  obtain st' where s: "setvar0 v ?d st = Inr st'"
    using set_var_raises [OF assms(2), of "Some ?d" "{}" st] assms(3) unfolding setvar0_def
    by (cases "set_var v (Some ?d) {} st") auto
  have a: "ash_arith (v @ '' = '' @ render 3 e) st = (Inr x, st')"
    using evaluate_assign [OF assms(2,4,5), of ash_math_state st st'] s by (simp add: ash_set ash_arith_def lv)
  note u = setvar0_updates(2) [OF assms(1,2) s]
  have "ash_arith v st' = (Inr x, st')"
    using evaluate_var [OF assms(2), of ash_math_state st' x] u [OF assms(2)] by (simp add: ash_arith_def lv)
  with a u show ?thesis by auto
qed

theorem assign_then_read_witness:
  "\<exists>st'. ash_arith ''x = - 9223372036854775808 '' (initvar ash_empty) = (Inr 9223372036854775808, st') \<and>
     ash_arith ''x'' st' = (Inr 9223372036854775808, st')"
proof -
  let ?e = "Unop UNeg (Lit 9223372036854775808)"
  have d: "dec_of_nat 9223372036854775808 = ''9223372036854775808''"
    by (simp add: dec_of_nat.simps digit_char_def) code_simp
  have n: "var_name ''x''" by code_simp
  have "find (\<lambda>v. key v = ''x'') varinit = None" by code_simp
  then have r: "\<not> readonly_var (initvar ash_empty) ''x''" using init_facts(2) [OF n] by (simp add: readonly_var_def)
  have e: "wf_aexp ?e" "aval ?e = Some 9223372036854775808" by simp_all
  have t: "''x'' @ '' = '' @ render 3 ?e = ''x = - 9223372036854775808 ''" by (simp add: d)
  show ?thesis using assign_then_read [OF init_facts(1) n r e] unfolding t by blast
qed

end
