(* ===== verification/Ash_Locals.thy ===== *)
theory Ash_Locals
  imports Ash_Vars
begin

text \<open>
  Function calls and local variables of the shell over the table of \<open>Ash_Vars\<close>: the sequences of
  assignments, local declarations and nested calls that a function body makes, the invariant of the
  saved variables, and the proof that a call gives every local variable its old value back.
\<close>

section \<open>Function bodies\<close>

text \<open>\<open>Call\<close> is a function call as \<open>evalcommand\<close> makes it: pushlocalvars, the body, poplocalvars.\<close>

datatype var_op = Assign cstr "cstr option" "vflag set" | Local cstr "cstr option" | Call "var_op list"

definition assignment :: "cstr \<Rightarrow> cstr option \<Rightarrow> cstr" where
  "assignment n val = n @ (case val of None \<Rightarrow> [] | Some v \<Rightarrow> EQ # v)"

fun run_op :: "var_op \<Rightarrow> ash_vars \<Rightarrow> ash_vars raising" and run_ops :: "var_op list \<Rightarrow> ash_vars \<Rightarrow> ash_vars raising" where
  "run_op (Assign n val fl) st = set_var n val fl st"
| "run_op (Local n val) st = mklocal (assignment n val) {} st"
| "run_op (Call ops) st = (case run_ops ops (pushlocalvars st) of Inl e \<Rightarrow> Inl e | Inr st1 \<Rightarrow> poplocalvars st1)"
| "run_ops [] st = Inr st"
| "run_ops (op # ops) st = (case run_op op st of Inl e \<Rightarrow> Inl e | Inr st1 \<Rightarrow> run_ops ops st1)"

fun op_names :: "var_op \<Rightarrow> cstr set" where
  "op_names (Assign n val fl) = {n}"
| "op_names (Local n val) = {n}"
| "op_names (Call ops) = (\<Union>op\<in>set ops. op_names op)"

fun wf_op :: "var_op \<Rightarrow> bool" where
  "wf_op (Assign n val fl) \<longleftrightarrow> var_name n \<and> user_flags fl"
| "wf_op (Local n val) \<longleftrightarrow> var_name n"
| "wf_op (Call ops) \<longleftrightarrow> list_all wf_op ops"

section \<open>The saved variables\<close>

definition fixed :: "var option \<Rightarrow> bool" where
  "fixed e \<longleftrightarrow> (case e of None \<Rightarrow> False | Some v \<Rightarrow> VSTRFIXED \<in> v_flags v)"

definition frame_names :: "localvar list \<Rightarrow> cstr list" where
  "frame_names f = List.map_filter lv_vp f"

lemma frame_names_simps [simp]:
  "frame_names [] = []"
  "frame_names (lv # f) = (case lv_vp lv of None \<Rightarrow> frame_names f | Some n \<Rightarrow> n # frame_names f)"
  "frame_names (f @ g) = frame_names f @ frame_names g"
  by (simp_all add: frame_names_def List.map_filter_def split: option.splits)

text \<open>
  A saved variable still has its structure, which must not be freed; if an outer call saved it too, its
  saved flags protect the structure as well.
\<close>

definition lv_ok :: "ash_vars \<Rightarrow> cstr set \<Rightarrow> localvar \<Rightarrow> bool" where
  "lv_ok st outer lv \<longleftrightarrow> (case lv_vp lv of None \<Rightarrow> True | Some n \<Rightarrow>
     var_name n \<and> fixed (findvar st n) \<and> (n \<in> outer \<longrightarrow> VSTRFIXED \<in> lv_flags lv) \<and>
     (lv_flags lv \<noteq> {VUNSET} \<longrightarrow> vkey (lv_text lv) = n))"

fun frames_ok :: "ash_vars \<Rightarrow> localvar list list \<Rightarrow> bool" where
  "frames_ok st [] \<longleftrightarrow> True"
| "frames_ok st (f # fs) \<longleftrightarrow>
     distinct (frame_names f) \<and> (\<forall>lv\<in>set f. lv_ok st (set (concat (map frame_names fs))) lv) \<and> frames_ok st fs"

definition locals_ok :: "ash_vars \<Rightarrow> bool" where
  "locals_ok st \<longleftrightarrow> vars_ok st \<and> frames_ok st (localvar_stack st)"

lemma in_frame_names: "n \<in> set (frame_names f) \<longleftrightarrow> (\<exists>lv\<in>set f. lv_vp lv = Some n)"
  by (induction f) (auto split: option.splits)

lemma lv_ok_mono:
  "lv_ok st outer lv \<Longrightarrow> (\<And>n. lv_vp lv = Some n \<Longrightarrow> var_name n \<Longrightarrow> fixed (findvar st n) \<Longrightarrow> fixed (findvar st' n)) \<Longrightarrow> lv_ok st' outer lv"
  by (auto simp: lv_ok_def split: option.splits)

lemma frames_ok_mono:
  assumes "frames_ok st fs" and "\<And>n. n \<in> set (concat (map frame_names fs)) \<Longrightarrow> var_name n \<Longrightarrow> fixed (findvar st n) \<Longrightarrow> fixed (findvar st' n)"
  shows "frames_ok st' fs"
  using assms
proof (induction fs)
  case (Cons f fs)
  have names: "n \<in> set (concat (map frame_names (f # fs)))" if "lv \<in> set f" "lv_vp lv = Some n" for lv n
    using that in_frame_names [of n f] by auto
  have "lv_ok st' (set (concat (map frame_names fs))) lv" if lv: "lv \<in> set f" for lv
  proof (rule lv_ok_mono)
    show "lv_ok st (set (concat (map frame_names fs))) lv" using Cons.prems(1) lv by simp
    show "fixed (findvar st' n)" if "lv_vp lv = Some n" "var_name n" "fixed (findvar st n)" for n
      by (rule Cons.prems(2) [OF names [OF lv that(1)] that(2,3)])
  qed
  moreover have "frames_ok st' fs" by (rule Cons.IH) (use Cons.prems in simp_all)
  ultimately show ?case using Cons.prems(1) by simp
qed simp

lemma frames_ok_names: "frames_ok st fs \<Longrightarrow> n \<in> set (concat (map frame_names fs)) \<Longrightarrow> var_name n \<and> fixed (findvar st n)"
  by (induction fs) (auto simp: in_frame_names lv_ok_def)

lemma updates_locals_ok:
  assumes "locals_ok st" and "updates st n e st'" and "fixed (findvar st n) \<Longrightarrow> fixed e"
  shows "locals_ok st'"
proof -
  have "frames_ok st' (localvar_stack st)"
    by (rule frames_ok_mono [of st]) (use assms in \<open>auto simp: locals_ok_def updates_def\<close>)
  then show ?thesis using assms(2) by (auto simp: locals_ok_def updates_def same_env_def)
qed

lemma updates_trans: "updates st n e st1 \<Longrightarrow> updates st1 n e' st2 \<Longrightarrow> updates st n e' st2"
  by (auto simp: updates_def intro: same_env_trans)

lemma entry_after_fixed: "fixed old \<or> VSTRFIXED \<in> fl \<Longrightarrow> VNOSET \<notin> fl \<Longrightarrow> fixed (entry_after fl s old)"
  by (auto simp: fixed_def entry_after_def split: option.splits)

lemma setvareq_fixed:
  assumes "vars_ok st" and "var_name n" and "vname s = n" and "setvareq s fl st = Inr st'" and "VNOSET \<notin> fl"
  shows "\<exists>e. updates st n e st' \<and> (fixed (findvar st n) \<or> VSTRFIXED \<in> fl \<longrightarrow> fixed e)"
  using setvareq_updates [OF assms(1,3,2,4)] entry_after_fixed [of "findvar st n" "fl \<union> (if aflag st then {VEXPORT} else {})" s] assms(5)
  by auto

lemma set_var_fixed:
  assumes "vars_ok st" and "var_name n" and "set_var n val fl st = Inr st'" and "VNOSET \<notin> fl"
  shows "\<exists>e. updates st n e st' \<and> (fixed (findvar st n) \<or> VSTRFIXED \<in> fl \<longrightarrow> fixed e)"
proof -
  let ?s = "assignment n val"
  have n: "vname ?s = n" using var_name_vname [OF assms(2)] by (cases val) (auto simp: assignment_def)
  have "setvareq ?s (fl \<union> (if val = None then {VUNSET} else {}) \<union> {VNOSAVE}) st = Inr st'"
    using assms(3) unfolding set_var_name [OF assms(2)] assignment_def .
  from setvareq_fixed [OF assms(1,2) n this] assms(4) show ?thesis by (cases "val = None") auto
qed

section \<open>Declaring a local variable\<close>

text \<open>The saved variable that a declaration of \<open>n\<close> pushes.\<close>

definition saves :: "cstr \<Rightarrow> var option \<Rightarrow> localvar \<Rightarrow> bool" where
  "saves n e lv \<longleftrightarrow> lv_vp lv = Some n \<and>
     (case e of None \<Rightarrow> lv_flags lv = {VUNSET} | Some vp \<Rightarrow> lv_flags lv = v_flags vp \<and> lv_text lv = v_text vp)"

lemma assignment_vname: "var_name n \<Longrightarrow> vname (assignment n val) = n"
  using var_name_vname [of n] by (cases val) (auto simp: assignment_def)

lemma assignment_EQ: "var_name n \<Longrightarrow> EQ \<in> set (assignment n val) \<longleftrightarrow> val \<noteq> None"
proof -
  assume "var_name n"
  then have "EQ \<notin> set n" using var_name_vname(1) [of n] unfolding vname_def by (metis (mono_tags, lifting) set_takeWhileD)
  then show "EQ \<in> set (assignment n val) \<longleftrightarrow> val \<noteq> None" by (cases val) (auto simp: assignment_def)
qed

lemma declared_iff:
  assumes "\<forall>m\<in>set (frame_names f). var_name m" and "var_name n"
  shows "list_ex (\<lambda>lv. case lv_vp lv of None \<Rightarrow> False | Some m \<Rightarrow> varcmp m (assignment n val) = 0) f \<longleftrightarrow> n \<in> set (frame_names f)"
  using assms(1) assignment_vname [OF assms(2)] var_name_vname(1)
  by (induction f) (auto simp: varcmp_0 split: option.splits)

lemma mklocal_spec:
  assumes "vars_ok st" and "var_name n" and "\<forall>m\<in>set (frame_names (hd (localvar_stack st))). var_name m"
    and "mklocal (assignment n val) {} st = Inr st'"
  shows "\<exists>e st1. updates st n e st1 \<and>
    (if n \<in> set (frame_names (hd (localvar_stack st))) then st' = st1 \<and> (fixed (findvar st n) \<longrightarrow> fixed e)
     else \<exists>lv. st' = push_local lv st1 \<and> fixed e \<and> saves n (findvar st n) lv)"
proof (cases "n \<in> set (frame_names (hd (localvar_stack st)))")
  case True
  note d = declared_iff [OF assms(3,2), of val]
  have v: "vname (assignment n val) = n" by (rule assignment_vname [OF assms(2)])
  show ?thesis
  proof (cases val)
    case None
    then have "st' = st" using assms(4) True unfolding mklocal_def d assignment_EQ [OF assms(2), of val] by simp
    then show ?thesis using True updates_same [OF assms(1), of n] by auto
  next
    case (Some w)
    then have "setvareq (assignment n val) {} st = Inr st'" using assms(4) True unfolding mklocal_def d assignment_EQ [OF assms(2), of val] by simp
    from setvareq_fixed [OF assms(1,2) v this] True show ?thesis by auto
  qed
next
  case False
  let ?a = "assignment n val"
  have v: "vname ?a = n" by (rule assignment_vname [OF assms(2)])
  have nd: "?a \<noteq> ''-''"
  proof
    assume "?a = ''-''"
    then have "n = ''-''" using v by (simp add: vname_def)
    then show False using assms(2) by (simp add: var_name_def is_name_def isalpha_def isupper_def islower_def ch_def)
  qed
  have f: "findvar st ?a = findvar st n" by (rule findvar_vname [OF v assms(2)])
  have eq: "EQ \<in> set ?a \<longleftrightarrow> val \<noteq> None" by (rule assignment_EQ [OF assms(2)])
  have none: "val = None \<Longrightarrow> ?a = n" by (simp add: assignment_def)
  note d = declared_iff [OF assms(3,2), of val]
  show ?thesis
  proof (cases "findvar st n")
    case None
    then obtain st1 where st1: "(if val \<noteq> None then setvareq ?a {VSTRFIXED} st else set_var n None {VSTRFIXED} st) = Inr st1"
      "st' = push_local \<lparr>lv_vp = Some n, lv_flags = {VUNSET}, lv_text = Text [], lv_opts = []\<rparr> st1"
      using assms(4) False nd none unfolding mklocal_def d f eq v
      by (cases "if val \<noteq> None then setvareq ?a {VSTRFIXED} st else set_var n None {VSTRFIXED} st") (auto split: if_splits)
    have "\<exists>e. updates st n e st1 \<and> fixed e"
      using st1(1) setvareq_fixed [OF assms(1,2) v, of "{VSTRFIXED}" st1] set_var_fixed [OF assms(1,2), of None "{VSTRFIXED}" st1]
      by (cases val) auto
    moreover have "saves n (findvar st n) \<lparr>lv_vp = Some n, lv_flags = {VUNSET}, lv_text = Text [], lv_opts = []\<rparr>"
      using None by (simp add: saves_def)
    ultimately show ?thesis using False st1(2) by auto
  next
    case (Some vp)
    let ?f = "\<lambda>v. v\<lparr>v_flags := v_flags v \<union> {VSTRFIXED, VTEXTFIXED}\<rparr>"
    let ?st1 = "change_var ?a ?f st"
    let ?lv = "\<lparr>lv_vp = Some n, lv_flags = v_flags vp, lv_text = v_text vp, lv_opts = []\<rparr>"
    obtain st2 where st2: "(if val \<noteq> None then setvareq ?a {} ?st1 else set_var n None {} ?st1) = Inr st2" "st' = push_local ?lv st2"
      using Some assms(4) False nd none unfolding mklocal_def d f eq v Let_def unsetvar_def
      by (cases "if val \<noteq> None then setvareq ?a {} ?st1 else set_var n None {} ?st1") (auto split: if_splits)
    have u1: "updates st n (Some (?f vp)) ?st1" using updates_change [OF assms(1) v assms(2), of ?f] Some by simp
    have ok1: "vars_ok ?st1" "fixed (findvar ?st1 n)" using u1 assms(2) by (auto simp: updates_def fixed_def)
    have "\<exists>e. updates ?st1 n e st2 \<and> fixed e"
      using st2(1) ok1(2) setvareq_fixed [OF ok1(1) assms(2) v, of "{}" st2] set_var_fixed [OF ok1(1) assms(2), of None "{}" st2]
      by (cases val) auto
    then obtain e where "updates st n e st2" "fixed e" using updates_trans [OF u1] by blast
    moreover have "saves n (findvar st n) ?lv" using Some by (simp add: saves_def)
    ultimately show ?thesis using False st2(2) by auto
  qed
qed

section \<open>Leaving a function\<close>

definition restored :: "ash_vars \<Rightarrow> localvar \<Rightarrow> var option \<Rightarrow> var option \<Rightarrow> bool" where
  "restored st lv old e \<longleftrightarrow>
     (if lv_flags lv = {VUNSET} then entry_value st e = None
      else \<exists>vp. old = Some vp \<and> e = Some (vp\<lparr>v_flags := lv_flags lv, v_text := lv_text lv\<rparr>))"

lemma pop_one_spec:
  assumes "vars_ok st" and "lv_vp lv = Some n" and "lv_ok st outer lv" and "pop_one lv st = Inr st'"
  shows "\<exists>e. updates st n e st' \<and> restored st lv (findvar st n) e"
proof -
  have n: "var_name n" "fixed (findvar st n)" "lv_flags lv \<noteq> {VUNSET} \<Longrightarrow> vkey (lv_text lv) = n"
    using assms(2,3) by (auto simp: lv_ok_def)
  obtain vp where vp: "findvar st n = Some vp" using n(2) by (auto simp: fixed_def split: option.splits)
  have vn: "vname n = n" by (rule var_name_vname(1) [OF n(1)])
  show ?thesis
  proof (cases "lv_flags lv = {VUNSET}")
    case True
    let ?f = "\<lambda>v. v\<lparr>v_flags := v_flags v - {VSTRFIXED, VREADONLY}\<rparr>"
    let ?st1 = "change_var n ?f st"
    have "set_var (text_of st (v_text vp)) None {} ?st1 = Inr st'"
      using assms(2,4) vp True by (simp add: pop_one_def unsetvar_def)
    from set_var_setvareq [OF this] have s: "setvareq n {VUNSET, VNOSAVE} ?st1 = Inr st'"
      using vname_text_of [of st "v_text vp"] findvar_key [OF vp n(1)] by (simp add: insert_commute)
    have u1: "updates st n (Some (?f vp)) ?st1" using updates_change [OF assms(1) vn n(1), of ?f] vp by simp
    have ok1: "vars_ok ?st1" "same_env st ?st1" using u1 by (auto simp: updates_def)
    let ?a = "if aflag ?st1 then {VEXPORT} else {}"
    have "updates ?st1 n (entry_after ({VUNSET, VNOSAVE} \<union> ?a) n (findvar ?st1 n)) st'"
      by (rule setvareq_updates [OF ok1(1) vn n(1) s])
    moreover have "{VUNSET, VNOSAVE} \<union> ?a = ?a \<union> {VUNSET, VNOSAVE}" by auto
    moreover have "entry_value st (entry_after (?a \<union> {VUNSET, VNOSAVE}) n (findvar ?st1 n)) = None"
      by (rule entry_after_value(2) [OF n(1)]) simp
    ultimately show ?thesis using updates_trans [OF u1] True by (auto simp: restored_def)
  next
    case False
    let ?f = "\<lambda>v. v\<lparr>v_flags := lv_flags lv, v_text := lv_text lv\<rparr>"
    let ?st1 = "if v_func vp then st\<lparr>changepath_calls := changepath_calls st @ [var_end (text_of st (lv_text lv))]\<rparr> else st"
    have "st' = change_var n ?f ?st1" using assms(2,4) vp False by (simp add: pop_one_def Let_def)
    moreover have "updates ?st1 n (map_option ?f (findvar ?st1 n)) (change_var n ?f ?st1)"
      by (rule updates_change [OF _ vn n(1)]) (use assms(1) n(3) [OF False] in auto)
    ultimately have "updates st n (Some (?f vp)) st'" using vp by (auto simp: updates_calls split: if_splits)
    then show ?thesis using False vp by (auto simp: restored_def)
  qed
qed

lemma other_fields [simp]:
  "vars_ok (st\<lparr>optlist := x\<rparr>) = vars_ok st" "findvar (st\<lparr>optlist := x\<rparr>) = findvar st"
  "vars_ok (st\<lparr>localvar_stack := y\<rparr>) = vars_ok st" "findvar (st\<lparr>localvar_stack := y\<rparr>) = findvar st"
  "lv_ok (st\<lparr>localvar_stack := y\<rparr>) = lv_ok st" "lv_ok (st\<lparr>optlist := x\<rparr>) = lv_ok st"
  by (simp_all add: vars_ok_def findvar_find lv_ok_def fun_eq_iff split: option.splits)

lemma restored_env: "same_env st st' \<Longrightarrow> restored st' lv old e = restored st lv old e"
  by (simp add: restored_def entry_value_env)

lemma pop_all_spec:
  "vars_ok st \<Longrightarrow> distinct (frame_names lvs) \<Longrightarrow> \<forall>lv\<in>set lvs. lv_ok st outer lv \<Longrightarrow> pop_all lvs st = Inr st' \<Longrightarrow>
    vars_ok st' \<and> same_env st st' \<and>
    (\<forall>m. var_name m \<longrightarrow> m \<notin> set (frame_names lvs) \<longrightarrow> findvar st' m = findvar st m) \<and>
    (\<forall>lv n. lv \<in> set lvs \<longrightarrow> lv_vp lv = Some n \<longrightarrow> restored st lv (findvar st n) (findvar st' n))"
proof (induction lvs arbitrary: st)
  case Nil
  then show ?case by (simp add: same_env_def)
next
  case (Cons lv lvs)
  obtain st1 where st1: "pop_one lv st = Inr st1" "pop_all lvs st1 = Inr st'" using Cons.prems(4) by (auto split: sum.splits)
  show ?case
  proof (cases "lv_vp lv")
    case None
    then have st1e: "st1 = st\<lparr>optlist := lv_opts lv\<rparr>" using st1(1) by (simp add: pop_one_def)
    have env: "same_env st st1" by (simp add: st1e same_env_def)
    from Cons.IH [of st1] Cons.prems st1(2) None
    have "vars_ok st'" "same_env st1 st'" "\<forall>m. var_name m \<longrightarrow> m \<notin> set (frame_names lvs) \<longrightarrow> findvar st' m = findvar st m"
      "\<forall>lv n. lv \<in> set lvs \<longrightarrow> lv_vp lv = Some n \<longrightarrow> restored st1 lv (findvar st n) (findvar st' n)"
      by (auto simp: st1e)
    then show ?thesis using None same_env_trans [OF env] restored_env [OF env] by auto
  next
    case (Some n)
    have lvok: "lv_ok st outer lv" using Cons.prems(3) by simp
    have nn: "var_name n" using lvok Some by (simp add: lv_ok_def)
    have fresh: "n \<notin> set (frame_names lvs)" "distinct (frame_names lvs)" using Cons.prems(2) Some by auto
    obtain e where e: "updates st n e st1" "restored st lv (findvar st n) e"
      using pop_one_spec [OF Cons.prems(1) Some lvok st1(1)] by blast
    have u: "vars_ok st1" "same_env st st1" "\<And>m. var_name m \<Longrightarrow> findvar st1 m = (if m = n then e else findvar st m)"
      using e(1) by (auto simp: updates_def)
    have ok: "\<forall>lv'\<in>set lvs. lv_ok st1 outer lv'"
    proof
      fix lv' assume l: "lv' \<in> set lvs"
      have "m \<noteq> n" if "lv_vp lv' = Some m" for m using l that fresh(1) in_frame_names [of n lvs] by auto
      moreover have "lv_ok st outer lv'" using Cons.prems(3) l by simp
      ultimately show "lv_ok st1 outer lv'" by (elim lv_ok_mono) (simp add: u(3))
    qed
    note IH = Cons.IH [OF u(1) fresh(2) ok st1(2)]
    have new: "restored st lv' (findvar st m) (findvar st' m)" if l: "lv' \<in> set lvs" and m: "lv_vp lv' = Some m" for lv' m
    proof -
      have "m \<noteq> n" using l m fresh(1) in_frame_names [of n lvs] by auto
      moreover have "lv_ok st outer lv'" using Cons.prems(3) l by simp
      then have "var_name m" using m by (simp add: lv_ok_def)
      moreover have "restored st1 lv' (findvar st1 m) (findvar st' m)" using IH l m by blast
      ultimately show ?thesis using u(3) restored_env [OF u(2)] by simp
    qed
    have "findvar st' n = e" using IH nn fresh(1) u(3) [OF nn] by simp
    then show ?thesis using IH Some e(2) new u same_env_trans [OF u(2)] by auto
  qed
qed

lemma poplocalvars_spec:
  assumes "locals_ok st" and "localvar_stack st = f # fs" and "poplocalvars st = Inr st'"
  shows "locals_ok st'" and "localvar_stack st' = fs" and "lineno st' = lineno st \<and> funcname st' = funcname st"
    and "var_name m \<Longrightarrow> m \<notin> set (frame_names f) \<Longrightarrow> findvar st' m = findvar st m"
    and "lv \<in> set f \<Longrightarrow> lv_vp lv = Some n \<Longrightarrow> restored st lv (findvar st n) (findvar st' n)"
proof -
  let ?st = "st\<lparr>localvar_stack := fs\<rparr>"
  let ?outer = "set (concat (map frame_names fs))"
  have ok: "vars_ok st" "distinct (frame_names f)" "\<forall>lv\<in>set f. lv_ok st ?outer lv" "frames_ok st fs"
    using assms(1,2) by (auto simp: locals_ok_def)
  have "pop_all f ?st = Inr st'" using assms(2,3) by (simp add: poplocalvars_def)
  with pop_all_spec [of ?st f ?outer st'] ok
  have p: "vars_ok st'" "same_env ?st st'" "\<forall>m. var_name m \<longrightarrow> m \<notin> set (frame_names f) \<longrightarrow> findvar st' m = findvar st m"
    "\<forall>lv n. lv \<in> set f \<longrightarrow> lv_vp lv = Some n \<longrightarrow> restored ?st lv (findvar st n) (findvar st' n)" by auto
  have r: "restored ?st = restored st" by (simp add: fun_eq_iff restored_def entry_value_def text_value_def split: option.splits vtext.splits)
  show "localvar_stack st' = fs" "lineno st' = lineno st \<and> funcname st' = funcname st" using p(2) by (auto simp: same_env_def)
  show "findvar st' m = findvar st m" if "var_name m" "m \<notin> set (frame_names f)" using p(3) that by blast
  show "restored st lv (findvar st n) (findvar st' n)" if "lv \<in> set f" "lv_vp lv = Some n" using p(4) that r by simp
  have "frames_ok st' fs"
  proof (rule frames_ok_mono [OF ok(4)])
    fix n assume n: "n \<in> ?outer" "var_name n" "fixed (findvar st n)"
    show "fixed (findvar st' n)"
    proof (cases "n \<in> set (frame_names f)")
      case True
      then obtain lv where lv: "lv \<in> set f" "lv_vp lv = Some n" by (auto simp: in_frame_names)
      then have "lv_ok st ?outer lv" using ok(3) by blast
      then have "VSTRFIXED \<in> lv_flags lv" using lv(2) n(1) by (simp add: lv_ok_def)
      moreover have "restored ?st lv (findvar st n) (findvar st' n)" using p(4) lv by blast
      ultimately show ?thesis by (auto simp: restored_def fixed_def split: if_splits)
    qed (use p(3) n in simp)
  qed
  then show "locals_ok st'" using p(1,2) by (simp add: locals_ok_def same_env_def)
qed

section \<open>Function bodies keep the invariant\<close>

text \<open>
  What a body does within its call: it only adds saved variables to the top frame, for names it
  mentions, and leaves the variables it does not mention alone.
\<close>

definition body_step :: "ash_vars \<Rightarrow> ash_vars \<Rightarrow> cstr set \<Rightarrow> bool" where
  "body_step st st' N \<longleftrightarrow> locals_ok st' \<and> lineno st' = lineno st \<and> funcname st' = funcname st \<and>
     (\<exists>new. localvar_stack st' = (new @ hd (localvar_stack st)) # tl (localvar_stack st) \<and> set (frame_names new) \<subseteq> N) \<and>
     (\<forall>m. var_name m \<longrightarrow> m \<notin> N \<longrightarrow> findvar st' m = findvar st m)"

lemma body_step_refl: "locals_ok st \<Longrightarrow> localvar_stack st \<noteq> [] \<Longrightarrow> body_step st st {}"
  unfolding body_step_def by (auto intro!: exI [of _ "[]"])

lemma body_step_trans:
  assumes "body_step a b M" and "body_step b c N"
  shows "body_step a c (M \<union> N)"
proof -
  obtain f where f: "localvar_stack b = (f @ hd (localvar_stack a)) # tl (localvar_stack a)" "set (frame_names f) \<subseteq> M"
    using assms(1) by (auto simp: body_step_def)
  obtain g where g: "localvar_stack c = (g @ hd (localvar_stack b)) # tl (localvar_stack b)" "set (frame_names g) \<subseteq> N"
    using assms(2) by (auto simp: body_step_def)
  have "localvar_stack c = ((g @ f) @ hd (localvar_stack a)) # tl (localvar_stack a)" "set (frame_names (g @ f)) \<subseteq> M \<union> N"
    using f g by auto
  then show ?thesis using assms unfolding body_step_def by (metis Un_iff)
qed

lemma body_step_stack: "body_step st st' N \<Longrightarrow> localvar_stack st' \<noteq> []"
  by (auto simp: body_step_def)

lemma updates_body_step:
  assumes "locals_ok st" and "localvar_stack st \<noteq> []" and "updates st n e st'" and "fixed (findvar st n) \<longrightarrow> fixed e"
  shows "body_step st st' {n}"
proof -
  have "locals_ok st'" using updates_locals_ok [OF assms(1,3)] assms(4) by blast
  moreover have "localvar_stack st' = ([] @ hd (localvar_stack st)) # tl (localvar_stack st)"
    using assms(2,3) by (simp add: updates_def same_env_def)
  ultimately show ?thesis unfolding body_step_def using assms(3)
    by (auto simp: updates_def same_env_def intro!: exI [of _ "[]"])
qed

lemma push_local_body_step:
  assumes "locals_ok st" and "localvar_stack st \<noteq> []" and "updates st n e st1" and "fixed e" and "var_name n"
    and "saves n (findvar st n) lv" and "n \<notin> set (frame_names (hd (localvar_stack st)))"
  shows "body_step st (push_local lv st1) {n}"
proof -
  obtain f fs where st: "localvar_stack st = f # fs" using assms(2) by (cases "localvar_stack st") auto
  have st1: "localvar_stack st1 = f # fs" using assms(3) st by (simp add: updates_def same_env_def)
  have ok1: "locals_ok st1" using updates_locals_ok [OF assms(1,3)] assms(4) by blast
  have p: "push_local lv st1 = st1\<lparr>localvar_stack := (lv # f) # fs\<rparr>" by (simp add: push_local_def st1)
  have lvn: "lv_vp lv = Some n" using assms(6) by (simp add: saves_def)
  have "lv_ok st1 (set (concat (map frame_names fs))) lv"
  proof -
    have "fixed (findvar st1 n)" using assms(3,4,5) by (simp add: updates_def)
    moreover have "VSTRFIXED \<in> lv_flags lv" if "n \<in> set (concat (map frame_names fs))"
    proof -
      have "frames_ok st fs" using assms(1) st by (simp add: locals_ok_def)
      from frames_ok_names [OF this that] show ?thesis using assms(6) by (auto simp: saves_def fixed_def split: option.splits)
    qed
    moreover have "vkey (lv_text lv) = n" if "lv_flags lv \<noteq> {VUNSET}"
      using assms(6) that findvar_key [of st n] assms(5) by (auto simp: saves_def split: option.splits)
    ultimately show ?thesis using lvn assms(5) by (simp add: lv_ok_def)
  qed
  moreover have "frames_ok (push_local lv st1) gs = frames_ok st1 gs" for gs unfolding p by (induction gs) simp_all
  ultimately have "locals_ok (push_local lv st1)"
    using ok1 st1 lvn assms(7) st by (simp add: locals_ok_def p)
  then show ?thesis using assms(3) st st1 lvn unfolding body_step_def p
    by (auto simp: updates_def same_env_def intro!: exI [of _ "[lv]"])
qed

lemma frame_var_names: "locals_ok st \<Longrightarrow> localvar_stack st \<noteq> [] \<Longrightarrow> \<forall>m\<in>set (frame_names (hd (localvar_stack st))). var_name m"
  using frames_ok_names [of st "localvar_stack st"] by (cases "localvar_stack st") (auto simp: locals_ok_def)

lemma mklocal_body_step:
  assumes "locals_ok st" and "localvar_stack st \<noteq> []" and "var_name n" and "mklocal (assignment n val) {} st = Inr st'"
  shows "body_step st st' {n} \<and>
    (n \<notin> set (frame_names (hd (localvar_stack st))) \<longrightarrow>
      (\<exists>lv. saves n (findvar st n) lv \<and> lv \<in> set (hd (localvar_stack st'))))"
proof -
  have "vars_ok st" using assms(1) by (simp add: locals_ok_def)
  from mklocal_spec [OF this assms(3) frame_var_names [OF assms(1,2)] assms(4)]
  obtain e st1 where e: "updates st n e st1" and c:
    "if n \<in> set (frame_names (hd (localvar_stack st))) then st' = st1 \<and> (fixed (findvar st n) \<longrightarrow> fixed e)
     else \<exists>lv. st' = push_local lv st1 \<and> fixed e \<and> saves n (findvar st n) lv" by blast
  show ?thesis
  proof (cases "n \<in> set (frame_names (hd (localvar_stack st)))")
    case True
    then show ?thesis using updates_body_step [OF assms(1,2) e] c by simp
  next
    case False
    then obtain lv where lv: "st' = push_local lv st1" "fixed e" "saves n (findvar st n) lv" using c by auto
    have "lv \<in> set (hd (localvar_stack st'))" by (simp add: lv(1) push_local_def)
    then show ?thesis using push_local_body_step [OF assms(1,2) e lv(2) assms(3) lv(3) False] lv by blast
  qed
qed

lemma pushlocalvars_ok: "locals_ok st \<Longrightarrow> locals_ok (pushlocalvars st)"
proof -
  have "frames_ok (pushlocalvars st) fs = frames_ok st fs" for fs by (induction fs) (simp_all add: pushlocalvars_def)
  then show "locals_ok st \<Longrightarrow> locals_ok (pushlocalvars st)" by (simp add: locals_ok_def pushlocalvars_def)
qed

lemma call_facts:
  assumes "locals_ok st" and "body_step (pushlocalvars st) st1 N" and "poplocalvars st1 = Inr st'"
  shows "locals_ok st'" and "localvar_stack st' = localvar_stack st" and "lineno st' = lineno st \<and> funcname st' = funcname st"
    and "var_name m \<Longrightarrow> m \<notin> N \<Longrightarrow> findvar st' m = findvar st m"
proof -
  obtain new where new: "localvar_stack st1 = new # localvar_stack st" "set (frame_names new) \<subseteq> N"
    using assms(2) by (auto simp: body_step_def pushlocalvars_def)
  have ok: "locals_ok st1" "lineno st1 = lineno st" "funcname st1 = funcname st"
    "\<And>m. var_name m \<Longrightarrow> m \<notin> N \<Longrightarrow> findvar st1 m = findvar st m"
    using assms(2) by (auto simp: body_step_def pushlocalvars_def)
  note p = poplocalvars_spec [OF ok(1) new(1) assms(3)]
  show "locals_ok st'" "localvar_stack st' = localvar_stack st" "lineno st' = lineno st \<and> funcname st' = funcname st"
    using p(1-3) ok by simp_all
  show "findvar st' m = findvar st m" if "var_name m" "m \<notin> N" using p(4) [OF that(1)] that new(2) ok(4) by auto
qed

lemma run_body_step:
  "run_op op st = Inr st' \<Longrightarrow> wf_op op \<Longrightarrow> locals_ok st \<Longrightarrow> localvar_stack st \<noteq> [] \<Longrightarrow> body_step st st' (op_names op)"
  "run_ops ops st = Inr st' \<Longrightarrow> list_all wf_op ops \<Longrightarrow> locals_ok st \<Longrightarrow> localvar_stack st \<noteq> [] \<Longrightarrow>
    body_step st st' (\<Union>op\<in>set ops. op_names op)"
proof (induction op st and ops st arbitrary: st' and st' rule: run_op_run_ops.induct)
  case (1 n val fl st)
  have v: "vars_ok st" using 1(3) by (simp add: locals_ok_def)
  have "VNOSET \<notin> fl" using 1(2) by (auto simp: user_flags_def)
  then obtain e where "updates st n e st'" "fixed (findvar st n) \<longrightarrow> fixed e"
    using set_var_fixed [OF v, of n val fl st'] 1(1,2) by auto
  then show ?case using updates_body_step [OF 1(3,4)] by simp
next
  case (2 n val st)
  then show ?case using mklocal_body_step [of st n val st'] by simp
next
  case (3 ops st)
  obtain st1 where st1: "run_ops ops (pushlocalvars st) = Inr st1" "poplocalvars st1 = Inr st'"
    using 3(2) by (auto split: sum.splits)
  have "body_step (pushlocalvars st) st1 (\<Union>op\<in>set ops. op_names op)"
    using 3(1) [OF st1(1)] 3(3) pushlocalvars_ok [OF 3(4)] by (simp add: pushlocalvars_def)
  note c = call_facts [OF 3(4) this st1(2)]
  show ?case unfolding body_step_def using c 3(5) by (auto intro!: exI [of _ "[]"])
next
  case (4 st)
  then show ?case using body_step_refl [of st] by simp
next
  case (5 op ops st)
  obtain st1 where st1: "run_op op st = Inr st1" "run_ops ops st1 = Inr st'" using 5(3) by (auto split: sum.splits)
  have a: "body_step st st1 (op_names op)" using 5(1) [OF st1(1)] 5(4-6) by simp
  have b: "body_step st1 st' (\<Union>op\<in>set ops. op_names op)"
    using 5(2) [OF st1] 5(4) a body_step_stack [OF a] by (simp add: body_step_def)
  show ?case using body_step_trans [OF a b] by simp
qed

lemma run_ops_append:
  "run_ops (xs @ ys) st = (case run_ops xs st of Inl e \<Rightarrow> Inl e | Inr st1 \<Rightarrow> run_ops ys st1)"
  by (induction xs arbitrary: st) (auto split: sum.splits)

lemma restored_saved:
  assumes "restored st lv old e'" and "saves n e lv"
  shows "entry_value st e' = entry_value st e"
  using assms by (auto simp: restored_def saves_def entry_value_def split: option.splits if_splits)

text \<open>C20: a function call gives a variable that its body declares local the value back that it had before
  the call, whatever the body, with nested calls, does to it afterwards: assign it, unset it, declare
  it again, or export it.\<close>

theorem call_restores_locals:
  assumes "locals_ok st" and "list_all wf_op (pre @ Local x val # rest)" and "\<forall>op\<in>set pre. x \<notin> op_names op"
    and "run_op (Call (pre @ Local x val # rest)) st = Inr st'"
  shows "var_value st' x = var_value st x \<and> locals_ok st'"
proof -
  have x: "var_name x" using assms(2) by simp
  obtain st1 st2 st3 where r: "run_ops pre (pushlocalvars st) = Inr st1" "mklocal (assignment x val) {} st1 = Inr st2"
    "run_ops rest st2 = Inr st3" "poplocalvars st3 = Inr st'"
    using assms(4) by (auto simp: run_ops_append split: sum.splits)
  have b1: "body_step (pushlocalvars st) st1 (\<Union>op\<in>set pre. op_names op)"
    using run_body_step(2) [OF r(1)] assms(2) pushlocalvars_ok [OF assms(1)] by (simp add: pushlocalvars_def)
  have s1: "locals_ok st1" "localvar_stack st1 \<noteq> []" "x \<notin> set (frame_names (hd (localvar_stack st1)))" "findvar st1 x = findvar st x"
    using b1 body_step_stack [OF b1] assms(3) x by (auto simp: body_step_def pushlocalvars_def)
  obtain lv where b2: "body_step st1 st2 {x}" and lv: "saves x (findvar st x) lv" "lv \<in> set (hd (localvar_stack st2))"
    using mklocal_body_step [OF s1(1,2) x r(2)] s1(3,4) by auto
  have s2: "locals_ok st2" "localvar_stack st2 \<noteq> []" using b2 body_step_stack [OF b2] by (auto simp: body_step_def)
  have b3: "body_step st2 st3 (\<Union>op\<in>set rest. op_names op)" using run_body_step(2) [OF r(3)] assms(2) s2 by simp
  have lv3: "lv \<in> set (hd (localvar_stack st3))" "localvar_stack st3 \<noteq> []" using b3 lv(2) by (auto simp: body_step_def)
  have env: "lineno st3 = lineno st \<and> funcname st3 = funcname st"
    using b1 b2 b3 by (simp add: body_step_def pushlocalvars_def)
  obtain f fs where f: "localvar_stack st3 = f # fs" using lv3(2) by (cases "localvar_stack st3") auto
  have "locals_ok st3" using b3 by (simp add: body_step_def)
  note p = poplocalvars_spec [OF this f r(4)]
  have "restored st3 lv (findvar st3 x) (findvar st' x)" using p(5) [of lv x] lv3(1) f lv(1) by (simp add: saves_def)
  then have "entry_value st3 (findvar st' x) = entry_value st3 (findvar st x)" by (rule restored_saved [OF _ lv(1)])
  then have "var_value st' x = var_value st x"
    using entry_value_lines [of st3 st] entry_value_lines [of st' st] env p(3) by (simp add: var_value_entry)
  then show ?thesis using p(1) by simp
qed

lemma not_isl_Inr: "\<not> isl r \<Longrightarrow> \<exists>x. r = Inr x"
  by (cases r) auto

theorem call_restores_locals_witness:
  "case run_op (Call [Local ''PS1'' (Some ''x''), Assign ''PS1'' None {}, Call [Local ''PS1'' None]]) (initvar ash_empty) of
     Inl _ \<Rightarrow> False
   | Inr st' \<Rightarrow> var_value st' ''PS1'' = var_value (initvar ash_empty) ''PS1''"
proof -
  let ?rest = "[Assign ''PS1'' None {}, Call [Local ''PS1'' None]]"
  have w: "list_all wf_op ([] @ Local ''PS1'' (Some ''x'') # ?rest)" by code_simp
  have "localvar_stack (initvar ash_empty) = []" by code_simp
  then have l: "locals_ok (initvar ash_empty)" using init_facts(1) by (simp add: locals_ok_def)
  have "\<not> isl (run_op (Call ([] @ Local ''PS1'' (Some ''x'') # ?rest)) (initvar ash_empty))" by code_simp
  then obtain st' where r: "run_op (Call ([] @ Local ''PS1'' (Some ''x'') # ?rest)) (initvar ash_empty) = Inr st'"
    using not_isl_Inr by blast
  show ?thesis using call_restores_locals [OF l w _ r] r by simp
qed

text \<open>
  A local declaration with a value does not check its name; leaving the function then raises an error.
\<close>

lemma local_bad_name:
  "case run_op (Call [Local ''1x'' (Some ''5'')]) (initvar ash_empty) of
     Inl (e, _) \<Rightarrow> e = BadName ''1x''
   | Inr _ \<Rightarrow> False"
  by code_simp

end
