(* ===== verification/Ash_Syntax.thy ===== *)
theory Ash_Syntax
  imports Prelude
begin

text \<open>
  Character classes of the shell, \<open>shell/ash.c\<close>: the table of syntax classes, the table-driven \<open>SIT\<close> of
  the configured build and the function of the same name that a build optimised for size uses, and the
  quoting of expanded text by them: \<open>memtodest\<close> marks special characters with \<open>CTLESC\<close>, \<open>rmescapes\<close>
  removes the marks or turns them into the backslashes of a pattern.
\<close>

section \<open>Syntax classes\<close>

datatype syn_class = CWORD | CNL | CBACK | CSQUOTE | CDQUOTE | CENDQUOTE | CBQUOTE | CVAR | CENDVAR | CLP | CRP | CENDFILE | CCTL | CSPCL

datatype syntax_id = BASESYNTAX | DQSYNTAX | SQSYNTAX | ARISYNTAX

abbreviation PEOF :: nat where "PEOF \<equiv> 256"

abbreviation CTLESC :: char where "CTLESC \<equiv> CHR 0x81"
abbreviation CTLQUOTEMARK :: char where "CTLQUOTEMARK \<equiv> CHR 0x88"

definition S_I_T :: "(syn_class \<times> syn_class \<times> syn_class \<times> syn_class) list" where
  "S_I_T =
    [(CSPCL, CWORD, CWORD, CWORD),
     (CNL, CNL, CNL, CNL),
     (CWORD, CCTL, CCTL, CWORD),
     (CDQUOTE, CENDQUOTE, CWORD, CWORD),
     (CVAR, CVAR, CWORD, CVAR),
     (CSQUOTE, CWORD, CENDQUOTE, CWORD),
     (CSPCL, CWORD, CWORD, CLP),
     (CSPCL, CWORD, CWORD, CRP),
     (CBACK, CBACK, CCTL, CBACK),
     (CBQUOTE, CBQUOTE, CWORD, CBQUOTE),
     (CENDVAR, CENDVAR, CWORD, CENDVAR),
     (CENDFILE, CENDFILE, CENDFILE, CENDFILE),
     (CWORD, CWORD, CWORD, CWORD),
     (CCTL, CCTL, CCTL, CCTL)]"

fun column :: "syntax_id \<Rightarrow> 'a \<times> 'a \<times> 'a \<times> 'a \<Rightarrow> 'a" where
  "column BASESYNTAX (a, b, c, d) = a"
| "column DQSYNTAX (a, b, c, d) = b"
| "column SQSYNTAX (a, b, c, d) = c"
| "column ARISYNTAX (a, b, c, d) = d"

text \<open>The table, sixteen characters to a line, and the end of file.\<close>

definition syntax_index_table :: "nat list" where
  "syntax_index_table =
    [12, 12, 12, 12, 12, 12, 12, 12, 12, 0, 1, 12, 12, 12, 12, 12] @
    [12, 12, 12, 12, 12, 12, 12, 12, 12, 12, 12, 12, 12, 12, 12, 12] @
    [0, 2, 3, 12, 4, 12, 0, 5, 6, 7, 2, 12, 12, 2, 12, 12] @
    [12, 12, 12, 12, 12, 12, 12, 12, 12, 12, 2, 0, 0, 2, 0, 2] @
    [12, 12, 12, 12, 12, 12, 12, 12, 12, 12, 12, 12, 12, 12, 12, 12] @
    [12, 12, 12, 12, 12, 12, 12, 12, 12, 12, 12, 2, 8, 2, 12, 12] @
    [9, 12, 12, 12, 12, 12, 12, 12, 12, 12, 12, 12, 12, 12, 12, 12] @
    [12, 12, 12, 12, 12, 12, 12, 12, 12, 12, 12, 12, 0, 10, 2, 12] @
    [12, 13, 13, 13, 13, 13, 13, 13, 13, 12, 12, 12, 12, 12, 12, 12] @
    [12, 12, 12, 12, 12, 12, 12, 12, 12, 12, 12, 12, 12, 12, 12, 12] @
    [12, 12, 12, 12, 12, 12, 12, 12, 12, 12, 12, 12, 12, 12, 12, 12] @
    [12, 12, 12, 12, 12, 12, 12, 12, 12, 12, 12, 12, 12, 12, 12, 12] @
    [12, 12, 12, 12, 12, 12, 12, 12, 12, 12, 12, 12, 12, 12, 12, 12] @
    [12, 12, 12, 12, 12, 12, 12, 12, 12, 12, 12, 12, 12, 12, 12, 12] @
    [12, 12, 12, 12, 12, 12, 12, 12, 12, 12, 12, 12, 12, 12, 12, 12] @
    [12, 12, 12, 12, 12, 12, 12, 12, 12, 12, 12, 12, 12, 12, 12, 12] @ [11]"

definition SIT :: "nat \<Rightarrow> syntax_id \<Rightarrow> syn_class" where
  "SIT c syn = column syn (S_I_T ! (syntax_index_table ! c))"

text \<open>The function of the build optimised for size, with its own table for the special characters.\<close>

definition spec_symbls :: cstr where
  "spec_symbls = [CHR 0x09, NL] @ '' !'' @ [CHR 0x22] @ ''$&'' @ [CHR 0x27] @ ''()*-:;<=>?['' @ [CHR 0x5C] @ '']'' @ [CHR 0x60] @ ''|}~''"

definition spec_index_table :: "nat list" where
  "spec_index_table = [0, 1, 0, 2, 3, 4, 0, 5, 6, 7, 2, 2, 2, 0, 0, 2, 0, 2, 2, 8, 2, 9, 0, 10, 2]"

definition SIT_function :: "nat \<Rightarrow> syntax_id \<Rightarrow> syn_class" where
  "SIT_function c syn =
     (if c = PEOF then CENDFILE
      else if 129 \<le> c \<and> c \<le> 136 then CCTL
      else case map_of (zip spec_symbls spec_index_table) (char_of c) of
             None \<Rightarrow> CWORD
           | Some i \<Rightarrow> column syn (S_I_T ! i))"

lemma table_length: "length syntax_index_table = 257"
  by (simp add: syntax_index_table_def)

definition spec_index :: "char \<Rightarrow> nat" where
  "spec_index c =
     (if c \<in> set [CHR 0x81, CHR 0x82, CHR 0x83, CHR 0x84, CHR 0x85, CHR 0x86, CHR 0x87, CHR 0x88] then 13
      else case map_of (zip spec_symbls spec_index_table) c of None \<Rightarrow> 12 | Some i \<Rightarrow> i)"

lemma table_is_spec_index: "syntax_index_table = map spec_index Enum.enum @ [11]"
  by code_simp

lemma table_nth: "c < 256 \<Longrightarrow> syntax_index_table ! c = spec_index (char_of c)"
  by (simp add: table_is_spec_index enum_char_unfold nth_append)

lemma char_of_eq: "c < 256 \<Longrightarrow> char_of c = x \<longleftrightarrow> c = (of_char x :: nat)"
  by (metis char_of_char mod_less of_char_of)

lemma ctl_range:
  assumes "c < (256::nat)"
  shows "char_of c \<in> set [CHR 0x81, CHR 0x82, CHR 0x83, CHR 0x84, CHR 0x85, CHR 0x86, CHR 0x87, CHR 0x88] \<longleftrightarrow> 129 \<le> c \<and> c \<le> 136"
  by (simp add: char_of_eq [OF assms]) arith

text \<open>The table of 257 syntax classes and the function that replaces it in a build optimised for size
  classify every character and the end of file alike, in all four syntaxes.\<close>

theorem sit_table_is_function:
  assumes "c \<le> PEOF"
  shows "SIT c syn = SIT_function c syn"
proof (cases "c = PEOF")
  case True
  then show ?thesis by (cases syn) (simp_all add: SIT_def SIT_function_def table_is_spec_index S_I_T_def enum_char_unfold nth_append)
next
  case False
  then have c: "c < 256" using assms by simp
  have "SIT c syn = column syn (S_I_T ! spec_index (char_of c))" by (simp only: SIT_def table_nth [OF c])
  also have "\<dots> = SIT_function c syn" unfolding spec_index_def SIT_function_def ctl_range [OF c]
    using False by (cases syn) (auto simp: S_I_T_def split: option.split)
  finally show ?thesis .
qed

theorem sit_table_is_function_witness: "SIT 92 SQSYNTAX = CCTL \<and> SIT 92 SQSYNTAX = SIT_function 92 SQSYNTAX"
  using sit_table_is_function [of 92 SQSYNTAX] by (simp add: SIT_def S_I_T_def syntax_index_table_def)

section \<open>Quoting of expanded text\<close>

text \<open>The flags \<open>QUOTES_ESC\<close>, \<open>EXP_QUOTED\<close> and \<open>EXP_KEEPNUL\<close>.\<close>

record exp_flags =
  quotes_esc :: bool
  exp_quoted :: bool
  keepnul :: bool

abbreviation syntax_of :: "exp_flags \<Rightarrow> syntax_id" where
  "syntax_of fl \<equiv> (if exp_quoted fl then DQSYNTAX else BASESYNTAX)"

definition is_escaped :: "exp_flags \<Rightarrow> char \<Rightarrow> bool" where
  "is_escaped fl c =
     (let n = SIT (of_char c) (syntax_of fl) in quotes_esc fl \<and> (n = CCTL \<or> exp_quoted fl \<and> n = CBACK))"

fun memtodest :: "exp_flags \<Rightarrow> bytes \<Rightarrow> cstr" where
  "memtodest fl [] = []"
| "memtodest fl (c # p) =
     (if c \<noteq> NUL then (if is_escaped fl c then [CTLESC] else []) @ c # memtodest fl p
      else if keepnul fl then c # memtodest fl p else memtodest fl p)"

definition glob_chars :: cstr where
  "glob_chars = [CHR ''*'', CHR ''?'', CHR ''['', CHR 0x5C, CHR '']'', CHR ''-'', CHR ''!'', CHR ''^'']"

text \<open>The loop of \<open>rmescapes\<close> behind the first mark, and the function; a flag asks for the backslashes of a pattern.\<close>

fun rmesc_loop :: "bool \<Rightarrow> bool \<Rightarrow> cstr \<Rightarrow> cstr" where
  "rmesc_loop globbing protect [] = []"
| "rmesc_loop globbing protect (c # p) =
     (if c = CTLQUOTEMARK then rmesc_loop globbing globbing p
      else if c = CHR 0x5C then c # rmesc_loop globbing False p
      else if c = CTLESC then
        (case p of
           [] \<Rightarrow> []
         | d # p' \<Rightarrow> (if protect \<and> d \<in> set glob_chars then [CHR 0x5C] else []) @ d # rmesc_loop globbing globbing p')
      else c # rmesc_loop globbing globbing p)"

definition rmescapes :: "bool \<Rightarrow> cstr \<Rightarrow> cstr" where
  "rmescapes globbing str =
     (let unmarked = (\<lambda>c. c \<noteq> CTLESC \<and> c \<noteq> CTLQUOTEMARK)
      in takeWhile unmarked str @ rmesc_loop globbing globbing (dropWhile unmarked str))"

definition preglob :: "cstr \<Rightarrow> cstr" where
  "preglob pattern = rmescapes True pattern"

lemma sit_special:
  "SIT (of_char CTLESC) BASESYNTAX = CCTL" "SIT (of_char CTLESC) DQSYNTAX = CCTL"
  "SIT (of_char CTLQUOTEMARK) BASESYNTAX = CCTL" "SIT (of_char CTLQUOTEMARK) DQSYNTAX = CCTL"
  "SIT (of_char (CHR 0x5C)) DQSYNTAX = CBACK" "SIT (of_char (CHR ''*'')) DQSYNTAX = CCTL"
  "SIT (of_char (CHR ''?'')) DQSYNTAX = CCTL" "SIT (of_char (CHR ''['')) DQSYNTAX = CCTL"
  by code_simp+

lemma is_escaped_quoted:
  assumes "quotes_esc fl" "exp_quoted fl"
  shows "SIT (of_char c) DQSYNTAX = CCTL \<Longrightarrow> is_escaped fl c" "SIT (of_char c) DQSYNTAX = CBACK \<Longrightarrow> is_escaped fl c"
  unfolding is_escaped_def by (simp_all only: assms if_True Let_def) simp_all

lemma is_escaped_ctl:
  assumes "quotes_esc fl" and "SIT (of_char c) DQSYNTAX = CCTL" "SIT (of_char c) BASESYNTAX = CCTL"
  shows "is_escaped fl c"
  using assms by (auto simp: is_escaped_def Let_def)

lemmas is_escaped_special =
  is_escaped_ctl [OF _ sit_special(2,1)] is_escaped_ctl [OF _ sit_special(4,3)]
  is_escaped_quoted(2) [OF _ _ sit_special(5)] is_escaped_quoted(1) [OF _ _ sit_special(6)]
  is_escaped_quoted(1) [OF _ _ sit_special(7)] is_escaped_quoted(1) [OF _ _ sit_special(8)]

text \<open>What the marks and the quoting of a pattern mean: the text a pattern without unquoted special characters stands for.\<close>

fun literal_text :: "cstr \<Rightarrow> cstr option" where
  "literal_text [] = Some []"
| "literal_text [c] = (if c \<in> {CHR ''*'', CHR ''?'', CHR ''['', CHR 0x5C} then None else Some [c])"
| "literal_text (c # d # p) =
     (if c = CHR 0x5C then map_option (Cons d) (literal_text p)
      else if c \<in> {CHR ''*'', CHR ''?'', CHR ''[''} then None
      else map_option (Cons c) (literal_text (d # p)))"

lemma rmesc_unmarked:
  "\<forall>c \<in> set a. c \<noteq> CTLESC \<and> c \<noteq> CTLQUOTEMARK \<Longrightarrow> rmesc_loop False False (a @ p) = a @ rmesc_loop False False p"
  by (induction a) auto

lemma rmescapes_loop: "rmescapes False s = rmesc_loop False False s"
proof -
  let ?P = "\<lambda>c. c \<noteq> CTLESC \<and> c \<noteq> CTLQUOTEMARK"
  have "\<forall>c \<in> set (takeWhile ?P s). c \<noteq> CTLESC \<and> c \<noteq> CTLQUOTEMARK" by (auto dest: set_takeWhileD)
  from rmesc_unmarked [OF this, of "dropWhile ?P s"] show ?thesis by (simp only: rmescapes_def Let_def takeWhile_dropWhile_id)
qed

lemma unescape_loop:
  assumes "quotes_esc fl" "NUL \<notin> set s \<or> \<not> keepnul fl"
  shows "rmesc_loop False False (memtodest fl s) = filter (\<lambda>c. c \<noteq> NUL) s"
  using assms by (induction s) (auto simp: is_escaped_special)

lemma literal_text_Cons:
  "c \<notin> {CHR ''*'', CHR ''?'', CHR ''['', CHR 0x5C} \<Longrightarrow> literal_text (c # p) = map_option (Cons c) (literal_text p)"
  by (cases p) auto

lemma glob_quoted:
  assumes "quotes_esc fl" "exp_quoted fl" "NUL \<notin> set s" "literal_text (rmesc_loop True True q) = Some r"
  shows "literal_text (rmesc_loop True True (memtodest fl s @ q)) = Some (s @ r)"
  using assms(3,4)
proof (induction s)
  case (Cons c s)
  then have IH: "literal_text (rmesc_loop True True (memtodest fl s @ q)) = Some (s @ r)" and n: "c \<noteq> NUL" by auto
  note esc = is_escaped_special [OF assms(1)]
  show ?case
  proof (cases "is_escaped fl c")
    case True
    then show ?thesis using IH n by (cases "c \<in> set glob_chars") (auto simp: glob_chars_def literal_text_Cons)
  next
    case False
    then have "c \<notin> {CTLESC, CTLQUOTEMARK, CHR ''*'', CHR ''?'', CHR ''['', CHR 0x5C}"
      using esc assms(2) by blast
    then show ?thesis using IH n False by (simp add: literal_text_Cons)
  qed
qed simp

lemma preglob_mark: "preglob (CTLQUOTEMARK # s) = rmesc_loop True True s"
  by (simp add: preglob_def rmescapes_def)

text \<open>C16: quoting.  Text that an expansion put on the stack, whatever characters it has, is given back by the removal
  of the marks; and quoted text that is used as a pattern stands for itself: every special character of
  a pattern comes out behind a backslash, and no other backslash is made.\<close>

theorem quoted_text_is_literal:
  assumes "quotes_esc fl" and "NUL \<notin> set s"
  shows "rmescapes False (memtodest fl s) = s \<and>
    (exp_quoted fl \<longrightarrow> literal_text (preglob (CTLQUOTEMARK # memtodest fl s @ [CTLQUOTEMARK])) = Some s)"
proof
  have "\<forall>c \<in> set s. c \<noteq> NUL" using assms(2) by blast
  then have "filter (\<lambda>c. c \<noteq> NUL) s = s" by (rule filter_True)
  then show "rmescapes False (memtodest fl s) = s"
    unfolding rmescapes_loop using unescape_loop [OF assms(1), of s] assms(2) by argo
  have "literal_text (rmesc_loop True True [CTLQUOTEMARK]) = Some []" by simp
  from glob_quoted [OF assms(1) _ assms(2) this]
  show "exp_quoted fl \<longrightarrow> literal_text (preglob (CTLQUOTEMARK # memtodest fl s @ [CTLQUOTEMARK])) = Some s"
    unfolding preglob_mark append_Nil2 by blast
qed

theorem quoted_text_is_literal_witness:
  "rmescapes False (memtodest \<lparr>quotes_esc = True, exp_quoted = True, keepnul = False\<rparr> [CHR ''a'', CTLESC, CHR ''*'']) = [CHR ''a'', CTLESC, CHR ''*''] \<and>
   literal_text (preglob (CTLQUOTEMARK # memtodest \<lparr>quotes_esc = True, exp_quoted = True, keepnul = False\<rparr> [CHR ''a'', CTLESC, CHR ''*''] @ [CTLQUOTEMARK]))
     = Some [CHR ''a'', CTLESC, CHR ''*'']"
  using quoted_text_is_literal [of "\<lparr>quotes_esc = True, exp_quoted = True, keepnul = False\<rparr>" "[CHR ''a'', CTLESC, CHR ''*'']"] by simp

end
