(* ===== verification/Ash_Expand.thy ===== *)
theory Ash_Expand
  imports Ash_Syntax
begin

text \<open>
  Parts of word expansion, \<open>shell/ash.c\<close>: the regions in which an expanded word is split, the splitting
  into fields by \<open>ifsbreakup\<close>, and the removal of a prefix or suffix by \<open>subevalvar\<close> with \<open>scanleft\<close> and
  \<open>scanright\<close>.  Positions are offsets into the expanded string.  \<open>fnmatch\<close> is a parameter.
\<close>

section \<open>Regions\<close>

record ifsregion =
  begoff :: nat
  endoff :: nat
  nulonly :: bool

definition recordregion :: "nat \<Rightarrow> nat \<Rightarrow> bool \<Rightarrow> ifsregion list \<Rightarrow> ifsregion list" where
  "recordregion start end_pos nul rs = rs @ [\<lparr>begoff = start, endoff = end_pos, nulonly = nul\<rparr>]"

definition removerecordregions :: "nat \<Rightarrow> ifsregion list \<Rightarrow> ifsregion list" where
  "removerecordregions e rs =
     (case rs of
        [] \<Rightarrow> []
      | r # rest \<Rightarrow>
          if endoff r > e then (if begoff r > e then [] else [r\<lparr>endoff := e\<rparr>])
          else let kept = r # takeWhile (\<lambda>x. begoff x < e) rest; l = List.last kept
               in if endoff l > e then butlast kept @ [l\<lparr>endoff := e\<rparr>] else kept)"

section \<open>Fields\<close>

definition defifs :: cstr where
  "defifs = [SP, CHR 0x09, NL]"

text \<open>\<open>strchr(set, c) != NULL\<close>; the terminating NUL counts.\<close>

definition in_str :: "cstr \<Rightarrow> char \<Rightarrow> bool" where
  "in_str s c \<longleftrightarrow> c \<in> set s \<or> c = NUL"

text \<open>The position behind a mark, if there is one.\<close>

definition unmark :: "cstr \<Rightarrow> nat \<Rightarrow> nat" where
  "unmark s p = (if char_at s p = CTLESC then p + 1 else p)"

text \<open>The C string at \<open>start\<close> after the byte at \<open>q\<close> was overwritten by NUL.\<close>

definition field_text :: "cstr \<Rightarrow> nat \<Rightarrow> nat \<Rightarrow> cstr" where
  "field_text s start q = takeWhile (\<lambda>c. c \<noteq> NUL) (drop start (take q s))"

text \<open>The inner loop: separators behind a field up to the end of the region.\<close>

function ifs_skip :: "cstr \<Rightarrow> cstr \<Rightarrow> nat \<Rightarrow> nat \<Rightarrow> bool \<Rightarrow> nat \<times> bool" where
  "ifs_skip s ifs e p ifsspc =
     (if p \<ge> e then (p, ifsspc)
      else let q = p; p1 = unmark s p; c = char_at s p1
           in if \<not> in_str ifs c then (q, ifsspc)
              else if \<not> in_str defifs c then (if ifsspc then ifs_skip s ifs e (p1 + 1) False else (q, ifsspc))
              else ifs_skip s ifs e (p1 + 1) ifsspc)"
  by auto
termination by (relation "measure (\<lambda>(s, ifs, e, p, _). e - p)") (auto simp: unmark_def Let_def)

declare ifs_skip.simps [simp del]

lemma unmark_ge: "p \<le> unmark s p"
  by (simp add: unmark_def)

lemma ifs_skip_mono: "p \<le> fst (ifs_skip s ifs e p spc)"
proof (induction s ifs e p spc rule: ifs_skip.induct)
  case (1 s ifs e p spc)
  show ?case
  proof (cases "p \<ge> e \<or> \<not> in_str ifs (char_at s (unmark s p))")
    case True
    then show ?thesis by (subst ifs_skip.simps) (auto simp: Let_def)
  next
    case False
    then show ?thesis using 1(1) [OF _ refl refl refl] 1(2) [OF _ refl refl refl] unmark_ge [of p s]
      by (subst ifs_skip.simps) (auto simp: Let_def)
  qed
qed

lemma ifs_skip_le: "(p2, spc2) = ifs_skip s ifs e p spc \<Longrightarrow> p \<le> p2"
  by (metis fst_conv ifs_skip_mono)

record ifs_state =
  if_start :: nat
  if_spc :: bool
  if_fields :: "cstr list"

text \<open>The loop over one region.\<close>

function ifs_loop :: "cstr \<Rightarrow> cstr \<Rightarrow> bool \<Rightarrow> bool \<Rightarrow> nat \<Rightarrow> nat \<Rightarrow> ifs_state \<Rightarrow> ifs_state" where
  "ifs_loop s ifs nul afternul e p st =
     (if p \<ge> e then st
      else let q = p; p1 = unmark s p; c = char_at s p1
           in if \<not> in_str ifs c then ifs_loop s ifs nul afternul e (p1 + 1) st
              else let spc = (if afternul \<or> nul then if_spc st else in_str defifs c)
                   in if q = if_start st \<and> spc then
                        ifs_loop s ifs nul afternul e (p1 + 1) (st\<lparr>if_start := p1 + 1, if_spc := spc\<rparr>)
                      else let (p2, spc2) = (if nul then (p1 + 1, spc) else ifs_skip s ifs e (p1 + 1) spc)
                           in ifs_loop s ifs nul afternul e p2
                                \<lparr>if_start = p2, if_spc = spc2, if_fields = if_fields st @ [field_text s (if_start st) q]\<rparr>)"
  by auto
termination
proof (relation "measure (\<lambda>(s, ifs, nul, a, e, p, _). e - p)", goal_cases)
  case (4 s ifs nul afternul e p st q p1 c spc x p2 spc2)
  then have "p1 + 1 \<le> p2"
    by (auto dest: ifs_skip_le split: if_splits)
  moreover have "p \<le> p1" using 4 unmark_ge by simp
  ultimately show ?case using 4 by auto
qed (auto simp: unmark_def)

declare ifs_loop.simps [simp del]

fun ifs_regions :: "cstr \<Rightarrow> cstr \<Rightarrow> ifsregion list \<Rightarrow> bool \<Rightarrow> ifs_state \<Rightarrow> ifs_state" where
  "ifs_regions s realifs [] afternul st = st"
| "ifs_regions s realifs (r # rs) afternul st =
     (let st1 = ifs_loop s (if nulonly r then [] else realifs) (nulonly r) afternul (endoff r) (begoff r) (st\<lparr>if_spc := False\<rparr>)
      in ifs_regions s realifs rs (nulonly r) st1)"

definition ifsbreakup :: "cstr option \<Rightarrow> ifsregion list \<Rightarrow> cstr \<Rightarrow> cstr list" where
  "ifsbreakup ifsval rs s =
     (let realifs = (case ifsval of None \<Rightarrow> defifs | Some i \<Rightarrow> i);
          st = ifs_regions s realifs rs False \<lparr>if_start = 0, if_spc = False, if_fields = []\<rparr>;
          rest = field_text s (if_start st) (length s)
      in if rs \<noteq> [] \<and> nulonly (List.last rs) \<or> char_at s (if_start st) \<noteq> NUL then if_fields st @ [rest] else if_fields st)"

section \<open>Field splitting as specified\<close>

text \<open>
  The specification works on characters that are marked as subject to splitting: white space of \<open>IFS\<close>
  at the start is dropped; a field ends at a separator, and the separator behind it is white space
  around at most one other character of \<open>IFS\<close>.
\<close>

definition is_sep :: "cstr \<Rightarrow> char \<times> bool \<Rightarrow> bool" where
  "is_sep ifs x \<longleftrightarrow> snd x \<and> fst x \<in> set ifs"

definition is_ws :: "cstr \<Rightarrow> char \<times> bool \<Rightarrow> bool" where
  "is_ws ifs x \<longleftrightarrow> is_sep ifs x \<and> fst x \<in> set defifs"

definition after_field :: "cstr \<Rightarrow> (char \<times> bool) list \<Rightarrow> (char \<times> bool) list" where
  "after_field ifs r =
     (case dropWhile (is_ws ifs) r of [] \<Rightarrow> [] | x # r' \<Rightarrow> if is_sep ifs x then r' else x # r')"

lemma after_field_length: "length (after_field ifs r) \<le> length r"
  using length_dropWhile_le [of "is_ws ifs" r] by (auto simp: after_field_def split: list.split)

lemma after_field_shorter:
  assumes "r \<noteq> []" "is_sep ifs (hd r)"
  shows "length (after_field ifs r) < length r"
proof (cases r)
  case (Cons x r')
  then show ?thesis using assms length_dropWhile_le [of "is_ws ifs" r'] by (auto simp: after_field_def split: list.split)
qed (use assms in simp)

function split_fields :: "cstr \<Rightarrow> (char \<times> bool) list \<Rightarrow> cstr list" where
  "split_fields ifs ts =
     (let t = dropWhile (is_ws ifs) ts
      in if t = [] then []
         else map fst (takeWhile (\<lambda>x. \<not> is_sep ifs x) t) # split_fields ifs (after_field ifs (dropWhile (\<lambda>x. \<not> is_sep ifs x) t)))"
  by auto
termination
proof (relation "measure (\<lambda>(ifs, ts). length ts)", goal_cases)
  case (2 ifs ts t)
  let ?d = "dropWhile (\<lambda>x. \<not> is_sep ifs x) t"
  have le: "length t \<le> length ts" using 2 length_dropWhile_le by simp
  show ?case
  proof (cases "?d = []")
    case True
    then show ?thesis using le 2 by (cases ts) (auto simp: after_field_def simp del: dropWhile_eq_Nil_conv)
  next
    case False
    then have "length (after_field ifs ?d) < length ?d" using hd_dropWhile [OF False] by (intro after_field_shorter) simp_all
    then show ?thesis using le length_dropWhile_le [of "\<lambda>x. \<not> is_sep ifs x" t] by simp
  qed
qed simp

declare split_fields.simps [simp del]

lemma split_ws: "is_ws ifs x \<Longrightarrow> split_fields ifs (x # r) = split_fields ifs r"
  by (subst (1 2) split_fields.simps) simp

lemma split_field:
  assumes "\<forall>y \<in> set f. \<not> is_sep ifs y" "is_sep ifs x" "f \<noteq> [] \<or> \<not> is_ws ifs x"
  shows "split_fields ifs (f @ x # r) = map fst f # split_fields ifs (after_field ifs (x # r))"
proof -
  have "dropWhile (is_ws ifs) (f @ x # r) = f @ x # r"
    using assms by (cases f) (auto simp: is_ws_def)
  then show ?thesis using assms(1,2) by (subst split_fields.simps) (simp add: takeWhile_append2 dropWhile_append2)
qed

lemma split_last:
  assumes "\<forall>y \<in> set f. \<not> is_sep ifs y"
  shows "split_fields ifs f = (if f = [] then [] else [map fst f])"
proof -
  have d: "dropWhile (is_ws ifs) f = f" using assms by (cases f) (auto simp: is_ws_def)
  have k: "takeWhile (\<lambda>x. \<not> is_sep ifs x) f = f" "dropWhile (\<lambda>x. \<not> is_sep ifs x) f = []"
    using assms by (auto simp: takeWhile_eq_all_conv)
  have n: "split_fields ifs [] = []" by (subst split_fields.simps) simp
  show ?thesis by (subst split_fields.simps) (simp only: d k Let_def after_field_def dropWhile.simps list.case n split: if_split)
qed

lemma after_ws [simp]: "is_ws ifs x \<Longrightarrow> after_field ifs (x # r) = after_field ifs r"
  by (simp add: after_field_def)

lemma after_sep: "is_sep ifs x \<Longrightarrow> \<not> is_ws ifs x \<Longrightarrow> after_field ifs (x # r) = r"
  by (simp add: after_field_def)

lemma after_none: "r = [] \<or> \<not> is_sep ifs (hd r) \<Longrightarrow> after_field ifs r = r"
  by (cases r) (auto simp: after_field_def is_ws_def)

section \<open>The loops split as specified\<close>

definition tagged :: "(nat \<Rightarrow> bool) \<Rightarrow> cstr \<Rightarrow> (char \<times> bool) list" where
  "tagged tag s = map (\<lambda>i. (s ! i, tag i)) [0..<length s]"

lemma tagged_simps [simp]: "length (tagged tag s) = length s" "i < length s \<Longrightarrow> tagged tag s ! i = (s ! i, tag i)"
  by (simp_all add: tagged_def)

lemma tagged_drop: "p < length s \<Longrightarrow> drop p (tagged tag s) = (s ! p, tag p) # drop (Suc p) (tagged tag s)"
  by (metis Cons_nth_drop_Suc tagged_simps)

definition sep_at :: "cstr \<Rightarrow> (nat \<Rightarrow> bool) \<Rightarrow> cstr \<Rightarrow> nat \<Rightarrow> bool" where
  "sep_at ifs tag s i \<longleftrightarrow> i < length s \<and> tag i \<and> s ! i \<in> set ifs"

text \<open>What a region of the string looks like: inside the string, without marks, all of it subject to splitting, and not continued behind its end.\<close>

definition region_ok :: "(nat \<Rightarrow> bool) \<Rightarrow> cstr \<Rightarrow> nat \<Rightarrow> nat \<Rightarrow> bool" where
  "region_ok tag s b e \<longleftrightarrow> b \<le> e \<and> e \<le> length s \<and> (\<forall>i. b \<le> i \<and> i < e \<longrightarrow> tag i \<and> s ! i \<noteq> CTLESC) \<and> \<not> tag e"

lemma region_char:
  assumes "region_ok tag s b e" "NUL \<notin> set s" "b \<le> p" "p < e"
  shows "unmark s p = p" "char_at s p = s ! p" "s ! p \<noteq> NUL" "p < length s" "tag p"
    and "in_str ifs (s ! p) \<longleftrightarrow> s ! p \<in> set ifs"
proof -
  show p: "p < length s" "tag p" using assms by (auto simp: region_ok_def)
  then show "unmark s p = p" "char_at s p = s ! p" using assms by (auto simp: region_ok_def unmark_def char_at_def)
  show c: "s ! p \<noteq> NUL" using p assms(2) nth_mem by metis
  then show "in_str ifs (s ! p) \<longleftrightarrow> s ! p \<in> set ifs" by (simp add: in_str_def)
qed

lemma region_head:
  assumes "region_ok tag s b e" "NUL \<notin> set s" "b \<le> p" "p < e"
  shows "drop p (tagged tag s) = (s ! p, True) # drop (Suc p) (tagged tag s)"
    and "is_sep ifs (s ! p, True) \<longleftrightarrow> s ! p \<in> set ifs" "is_ws ifs (s ! p, True) \<longleftrightarrow> s ! p \<in> set ifs \<and> s ! p \<in> set defifs"
  using region_char [OF assms] tagged_drop [of p s tag] by (auto simp: is_sep_def is_ws_def)

lemma region_end:
  assumes "region_ok tag s b e"
  shows "drop e (tagged tag s) = [] \<or> \<not> is_sep ifs (hd (drop e (tagged tag s)))"
  using assms by (cases "e < length s") (auto simp: region_ok_def is_sep_def hd_drop_conv_nth)

lemma ifs_skip_split:
  assumes r: "region_ok tag s b e" and n: "NUL \<notin> set s"
  shows "b \<le> p \<Longrightarrow> p \<le> e \<Longrightarrow> fst (ifs_skip s ifs e p spc) \<le> e \<and>
    split_fields ifs (drop (fst (ifs_skip s ifs e p spc)) (tagged tag s))
      = split_fields ifs (if spc then after_field ifs (drop p (tagged tag s)) else drop p (tagged tag s))"
proof (induction "e - p" arbitrary: p spc rule: less_induct)
  case less
  show ?case
  proof (cases "p = e")
    case True
    then show ?thesis using after_none [OF region_end [OF r]] by (subst (1 2) ifs_skip.simps) auto
  next
    case False
    then have p: "b \<le> p" "p < e" using less.prems by auto
    note ch = region_char [OF r n p] and hd = region_head [OF r n p]
    show ?thesis
    proof (cases "s ! p \<in> set ifs")
      case sep: True
      have IH: "fst (ifs_skip s ifs e (p + 1) spc') \<le> e \<and>
          split_fields ifs (drop (fst (ifs_skip s ifs e (p + 1) spc')) (tagged tag s))
            = split_fields ifs (if spc' then after_field ifs (drop (p + 1) (tagged tag s)) else drop (p + 1) (tagged tag s))" for spc'
        using less.hyps [of "p + 1" spc'] p by auto
      show ?thesis
        using p ch sep IH [of True] IH [of False] hd split_ws [of ifs "(s ! p, True)"] after_sep [of ifs "(s ! p, True)"]
        by (subst (1 2) ifs_skip.simps) (auto simp: Let_def)
    next
      case False
      then have "after_field ifs (drop p (tagged tag s)) = drop p (tagged tag s)" by (intro after_none) (simp add: hd)
      then show ?thesis using p ch False by (subst (1 2) ifs_skip.simps) (auto simp: Let_def)
    qed
  qed
qed

text \<open>Between two positions there is no separator.\<close>

definition no_sep :: "cstr \<Rightarrow> (nat \<Rightarrow> bool) \<Rightarrow> cstr \<Rightarrow> nat \<Rightarrow> nat \<Rightarrow> bool" where
  "no_sep ifs tag s a b \<longleftrightarrow> a \<le> b \<and> (\<forall>i. a \<le> i \<and> i < b \<and> i < length s \<longrightarrow> \<not> is_sep ifs (s ! i, tag i))"

lemma no_sep_same [simp]: "no_sep ifs tag s a a"
  by (auto simp: no_sep_def)

lemma no_sepD: "no_sep ifs tag s a b \<Longrightarrow> a \<le> i \<Longrightarrow> i < b \<Longrightarrow> i < length s \<Longrightarrow> \<not> is_sep ifs (s ! i, tag i)"
  by (simp add: no_sep_def)

lemma field_at:
  assumes "no_sep ifs tag s a p" "region_ok tag s b e" "NUL \<notin> set s" "b \<le> p" "p < e" "s ! p \<in> set ifs"
    and "a < p \<or> s ! p \<notin> set defifs"
  shows "split_fields ifs (drop a (tagged tag s))
      = field_text s a p # split_fields ifs (after_field ifs (drop p (tagged tag s)))"
proof -
  let ?f = "drop a (take p (tagged tag s))"
  have pl: "p < length s" using region_char [OF assms(2-5)] by simp
  have ap: "a \<le> p" using assms(1) by (simp add: no_sep_def)
  have cat: "drop a (tagged tag s) = ?f @ (s ! p, True) # drop (Suc p) (tagged tag s)"
  proof -
    have "drop a (tagged tag s) = drop a (take p (tagged tag s) @ drop p (tagged tag s))" by (simp only: append_take_drop_id)
    also have "\<dots> = ?f @ drop p (tagged tag s)" using ap pl by (simp del: append_take_drop_id)
    finally show ?thesis unfolding region_head(1) [OF assms(2-5)] .
  qed
  have ns: "\<forall>y \<in> set ?f. \<not> is_sep ifs y"
  proof
    fix y assume "y \<in> set ?f"
    then obtain i where "i < length ?f" "y = ?f ! i" by (metis in_set_conv_nth)
    then have "a + i < p" "y = (s ! (a + i), tag (a + i))" using pl by auto
    then show "\<not> is_sep ifs y" using no_sepD [OF assms(1), of "a + i"] pl by simp
  qed
  have "map fst ?f = drop a (take p s)" using pl by (intro nth_equalityI) auto
  moreover have "\<forall>c \<in> set (drop a (take p s)). c \<noteq> NUL" using assms(3) by (auto dest!: in_set_dropD in_set_takeD)
  then have "takeWhile (\<lambda>c. c \<noteq> NUL) (drop a (take p s)) = drop a (take p s)" by (simp only: takeWhile_eq_all_conv)
  ultimately have f: "map fst ?f = field_text s a p" unfolding field_text_def by (rule trans [OF _ sym])
  have x: "is_sep ifs (s ! p, True)" "?f \<noteq> [] \<or> \<not> is_ws ifs (s ! p, True)"
    using assms(6,7) pl by (auto simp: is_ws_def is_sep_def)
  show ?thesis unfolding cat split_field [OF ns x] f region_head(1) [OF assms(2-5)] ..
qed

lemma ifs_loop_split:
  assumes r: "region_ok tag s b e" and n: "NUL \<notin> set s"
  shows "b \<le> p \<Longrightarrow> p \<le> e \<Longrightarrow> no_sep ifs tag s (if_start st) p \<Longrightarrow>
    (let st' = ifs_loop s ifs False False e p st
     in if_fields st' @ split_fields ifs (drop (if_start st') (tagged tag s))
          = if_fields st @ split_fields ifs (drop (if_start st) (tagged tag s))
        \<and> no_sep ifs tag s (if_start st') e)"
proof (induction "e - p" arbitrary: p st rule: less_induct)
  case less
  show ?case
  proof (cases "p = e")
    case True
    then show ?thesis using less.prems by (simp add: ifs_loop.simps)
  next
    case False
    then have p: "b \<le> p" "p < e" using less.prems by auto
    note ch = region_char [OF r n p] and hd = region_head [OF r n p]
    have unf: "ifs_loop s ifs False False e p st =
        (if s ! p \<notin> set ifs then ifs_loop s ifs False False e (p + 1) st
         else if p = if_start st \<and> s ! p \<in> set defifs
           then ifs_loop s ifs False False e (p + 1) (st\<lparr>if_start := p + 1, if_spc := True\<rparr>)
         else let (p2, spc2) = ifs_skip s ifs e (p + 1) (s ! p \<in> set defifs)
              in ifs_loop s ifs False False e p2 \<lparr>if_start = p2, if_spc = spc2, if_fields = if_fields st @ [field_text s (if_start st) p]\<rparr>)"
      using p ch by (subst ifs_loop.simps) (auto simp: Let_def)
    consider "s ! p \<notin> set ifs" | "s ! p \<in> set ifs" "p = if_start st" "s ! p \<in> set defifs"
      | "s ! p \<in> set ifs" "if_start st < p \<or> s ! p \<notin> set defifs"
      using less.prems(3) unfolding no_sep_def by fastforce
    then show ?thesis
    proof cases
      case 1
      then have "no_sep ifs tag s (if_start st) (p + 1)"
        using less.prems(3) by (auto simp: no_sep_def is_sep_def less_Suc_eq)
      then show ?thesis using less.hyps [of "p + 1" st] p 1 unf by simp
    next
      case 2
      have "no_sep ifs tag s (p + 1) (p + 1)" by simp
      then show ?thesis using less.hyps [of "p + 1" "st\<lparr>if_start := p + 1, if_spc := True\<rparr>"] p 2 unf hd split_ws [of ifs "(s ! p, True)"]
        by simp
    next
      case 3
      obtain p2 spc2 where sk: "ifs_skip s ifs e (p + 1) (s ! p \<in> set defifs) = (p2, spc2)" by fastforce
      have le: "p + 1 \<le> p2" using ifs_skip_le [OF sk [symmetric]] .
      have af: "after_field ifs (drop p (tagged tag s)) =
          (if s ! p \<in> set defifs then after_field ifs (drop (p + 1) (tagged tag s)) else drop (p + 1) (tagged tag s))"
        using hd 3(1) after_sep [of ifs "(s ! p, True)"] by simp
      have sp: "p2 \<le> e" "split_fields ifs (drop p2 (tagged tag s)) = split_fields ifs (after_field ifs (drop p (tagged tag s)))"
        using ifs_skip_split [OF r n, of "p + 1" ifs "s ! p \<in> set defifs"] p sk unfolding af by auto
      have "no_sep ifs tag s p2 p2" by simp
      moreover have "p \<noteq> if_start st \<or> s ! p \<notin> set defifs" using 3(2) by auto
      ultimately show ?thesis
        using less.hyps [of p2 "\<lparr>if_start = p2, if_spc = spc2, if_fields = if_fields st @ [field_text s (if_start st) p]\<rparr>"]
          p le sp field_at [OF less.prems(3) r n p 3(1,2)] unf sk 3(1)
        by (auto simp: Let_def)
    qed
  qed
qed

text \<open>The regions of a word, in order, with at least one other character between two of them.\<close>

fun apart :: "ifsregion list \<Rightarrow> bool" where
  "apart [] = True"
| "apart [r] = True"
| "apart (r # r' # rs) = (endoff r < begoff r' \<and> apart (r' # rs))"

definition covered :: "ifsregion list \<Rightarrow> nat \<Rightarrow> bool" where
  "covered rs i \<longleftrightarrow> (\<exists>r \<in> set rs. begoff r \<le> i \<and> i < endoff r)"

definition splittable :: "cstr \<Rightarrow> ifsregion list \<Rightarrow> bool" where
  "splittable s rs \<longleftrightarrow> NUL \<notin> set s \<and> apart rs \<and>
     (\<forall>r \<in> set rs. \<not> nulonly r \<and> begoff r \<le> endoff r \<and> endoff r \<le> length s \<and> (\<forall>i. begoff r \<le> i \<and> i < endoff r \<longrightarrow> s ! i \<noteq> CTLESC))"

lemma apart_begoff:
  assumes "apart (r # rs)" "\<forall>x \<in> set (r # rs). begoff x \<le> endoff x" "x \<in> set rs"
  shows "endoff r < begoff x"
  using assms
proof (induction rs arbitrary: r)
  case (Cons a rs)
  then show ?case by (cases "x = a") (auto, fastforce)
qed simp

lemma no_sep_gap:
  assumes "no_sep ifs tag s a k" "k \<le> b" "\<And>i. k \<le> i \<Longrightarrow> i < b \<Longrightarrow> \<not> tag i"
  shows "no_sep ifs tag s a b"
  unfolding no_sep_def
proof (intro conjI allI impI)
  show "a \<le> b" using assms(1,2) by (simp add: no_sep_def)
  fix i assume i: "a \<le> i \<and> i < b \<and> i < length s"
  show "\<not> is_sep ifs (s ! i, tag i)"
    using no_sepD [OF assms(1), of i] assms(3) [of i] i by (cases "i < k") (simp_all add: is_sep_def)
qed

lemma untagged_before:
  assumes "\<forall>i. tag i \<longrightarrow> i < k \<or> covered (r # rs) i" "\<And>x. x \<in> set rs \<Longrightarrow> begoff r \<le> begoff x" "k \<le> i" "i < begoff r"
  shows "\<not> tag i"
proof
  assume "tag i"
  then have "covered (r # rs) i" using assms(1,3) by force
  then obtain x where "x \<in> set (r # rs)" "begoff x \<le> i" by (auto simp: covered_def)
  then show False using assms(2) [of x] assms(4) by auto
qed

lemma ifs_regions_split:
  assumes "NUL \<notin> set s" and "\<forall>r \<in> set rs. \<not> nulonly r \<and> region_ok tag s (begoff r) (endoff r)" and "apart rs"
    and "\<forall>i. tag i \<longrightarrow> i < k \<or> covered rs i" and "no_sep ifs tag s (if_start st) k" and "\<forall>r \<in> set rs. k \<le> begoff r"
  shows "let st' = ifs_regions s ifs rs False st
     in if_fields st' @ split_fields ifs (drop (if_start st') (tagged tag s))
          = if_fields st @ split_fields ifs (drop (if_start st) (tagged tag s))
        \<and> (\<exists>k'. no_sep ifs tag s (if_start st') k' \<and> (\<forall>i. tag i \<longrightarrow> i < k'))"
  using assms
proof (induction rs arbitrary: st k)
  case Nil
  then show ?case by (auto simp: covered_def)
next
  case (Cons r rs)
  have r: "region_ok tag s (begoff r) (endoff r)" "\<not> nulonly r" "k \<le> begoff r" using Cons.prems by auto
  have later: "endoff r < begoff x" if "x \<in> set rs" for x
    using apart_begoff [OF Cons.prems(3) _ that] Cons.prems(2) by (auto simp: region_ok_def)
  have "begoff r \<le> begoff x" if "x \<in> set rs" for x using later [OF that] r(1) by (simp add: region_ok_def)
  then have "no_sep ifs tag s (if_start st) (begoff r)"
    using untagged_before [OF Cons.prems(4)] by (intro no_sep_gap [OF Cons.prems(5) r(3)]) blast
  then have step: "let st' = ifs_loop s ifs False False (endoff r) (begoff r) (st\<lparr>if_spc := False\<rparr>)
     in if_fields st' @ split_fields ifs (drop (if_start st') (tagged tag s))
          = if_fields st @ split_fields ifs (drop (if_start st) (tagged tag s)) \<and> no_sep ifs tag s (if_start st') (endoff r)"
    using ifs_loop_split [OF r(1) Cons.prems(1), of "begoff r" ifs "st\<lparr>if_spc := False\<rparr>"] r(1) by (simp add: region_ok_def)
  have "k \<le> endoff r" using r(1,3) by (simp add: region_ok_def)
  then have c: "\<forall>i. tag i \<longrightarrow> i < endoff r \<or> covered rs i"
    using Cons.prems(4) unfolding covered_def by (metis less_le_trans set_ConsD)
  have a: "apart rs" using Cons.prems(3) by (cases rs) auto
  let ?st = "ifs_loop s ifs False False (endoff r) (begoff r) (st\<lparr>if_spc := False\<rparr>)"
  have run: "ifs_regions s ifs (r # rs) False st = ifs_regions s ifs rs False ?st" using r(2) by simp
  have "\<forall>x \<in> set rs. endoff r \<le> begoff x" using later by (simp add: less_imp_le)
  with Cons.IH [of "endoff r" ?st] step c a Cons.prems(1,2) show ?case unfolding run Let_def by simp
qed

lemma apart_disjoint:
  assumes "apart rs" "\<forall>x \<in> set rs. begoff x \<le> endoff x" "r \<in> set rs" "x \<in> set rs" "begoff x \<le> endoff r"
  shows "endoff x \<le> endoff r"
  using assms
proof (induction rs)
  case (Cons a rs)
  have a: "apart rs" using Cons.prems(1) by (cases rs) auto
  have later: "endoff a < begoff y" if "y \<in> set rs" for y using apart_begoff [OF Cons.prems(1,2) that] .
  have le: "begoff r \<le> endoff r" using Cons.prems(2,3) by blast
  consider "r \<in> set rs" "x \<in> set rs" | "x = a" "r = a" | "x = a" "r \<in> set rs" | "r = a" "x \<in> set rs"
    using Cons.prems(3,4) by auto
  then show ?case
  proof cases
    case 1
    then show ?thesis using Cons.IH a Cons.prems(2,5) by simp
  next
    case 3
    then show ?thesis using later [of r] le by simp
  next
    case 4
    then show ?thesis using later [of x] Cons.prems(5) by simp
  qed simp
qed simp

lemma covered_region:
  assumes "splittable s rs" "r \<in> set rs"
  shows "region_ok (covered rs) s (begoff r) (endoff r)"
proof -
  have rs: "apart rs" "\<forall>x \<in> set rs. begoff x \<le> endoff x" using assms(1) by (auto simp: splittable_def)
  have "\<not> covered rs (endoff r)"
    using apart_disjoint [OF rs assms(2)] unfolding covered_def by (metis not_le)
  then show ?thesis using assms unfolding splittable_def region_ok_def covered_def by blast
qed

lemma ifsbreakup_fields:
  assumes "splittable s rs"
  shows "ifsbreakup ifsval rs s = split_fields (case ifsval of None \<Rightarrow> defifs | Some i \<Rightarrow> i) (tagged (covered rs) s)"
proof -
  define ifs where "ifs = (case ifsval of None \<Rightarrow> defifs | Some i \<Rightarrow> i)"
  define st where "st = ifs_regions s ifs rs False \<lparr>if_start = 0, if_spc = False, if_fields = []\<rparr>"
  have n: "NUL \<notin> set s" "apart rs" "\<forall>r \<in> set rs. \<not> nulonly r \<and> region_ok (covered rs) s (begoff r) (endoff r)"
    using assms covered_region [OF assms] by (auto simp: splittable_def)
  obtain k where all: "if_fields st @ split_fields ifs (drop (if_start st) (tagged (covered rs) s)) = split_fields ifs (tagged (covered rs) s)"
    and k: "no_sep ifs (covered rs) s (if_start st) k" "\<forall>i. covered rs i \<longrightarrow> i < k"
    using ifs_regions_split [OF n(1,3,2), of 0 ifs "\<lparr>if_start = 0, if_spc = False, if_fields = []\<rparr>"] unfolding st_def Let_def by auto
  let ?r = "drop (if_start st) (tagged (covered rs) s)"
  have "\<forall>y \<in> set ?r. \<not> is_sep ifs y"
  proof
    fix y assume "y \<in> set ?r"
    then obtain i where "i < length ?r" "y = ?r ! i" by (metis in_set_conv_nth)
    then have y: "if_start st + i < length s" "y = (s ! (if_start st + i), covered rs (if_start st + i))" by auto
    then show "\<not> is_sep ifs y"
      using no_sepD [OF k(1), of "if_start st + i"] k(2) by (cases "if_start st + i < k") (auto simp: is_sep_def)
  qed
  from split_last [OF this] have last: "split_fields ifs ?r = (if ?r = [] then [] else [map fst ?r])" .
  have "map fst ?r = drop (if_start st) s" by (intro nth_equalityI) auto
  moreover have "field_text s (if_start st) (length s) = drop (if_start st) s"
    using n(1) by (auto simp: field_text_def takeWhile_eq_all_conv dest: in_set_dropD)
  moreover have "\<not> (rs \<noteq> [] \<and> nulonly (List.last rs))" using n(3) last_in_set by blast
  moreover have "char_at s (if_start st) \<noteq> NUL \<longleftrightarrow> ?r \<noteq> []"
  proof (cases "if_start st < length s")
    case True
    then have "s ! if_start st \<noteq> NUL" using n(1) nth_mem by metis
    then show ?thesis using True by (simp add: char_at_def)
  qed (simp add: char_at_def)
  ultimately show ?thesis using all last
    unfolding ifsbreakup_def Let_def ifs_def [symmetric] st_def [symmetric] by auto
qed

text \<open>\<open>pre$v\<close> with IFS a blank and a colon and v the text between the first three and the last two characters.\<close>

lemma fields_example:
  "splittable ''pre: a ::b ''  [\<lparr>begoff = 3, endoff = 11, nulonly = False\<rparr>]"
  "ifsbreakup (Some '' :'') [\<lparr>begoff = 3, endoff = 11, nulonly = False\<rparr>] ''pre: a ::b '' = [''pre'', ''a'', [], ''b'']"
proof -
  show s: "splittable ''pre: a ::b ''  [\<lparr>begoff = 3, endoff = 11, nulonly = False\<rparr>]"
    by (auto simp: splittable_def nth_Cons split: nat.split)
  show "ifsbreakup (Some '' :'') [\<lparr>begoff = 3, endoff = 11, nulonly = False\<rparr>] ''pre: a ::b '' = [''pre'', ''a'', [], ''b'']"
    using ifsbreakup_fields [OF s, of "Some '' :''"]
    by (simp add: tagged_def covered_def upt_rec split_fields.simps is_ws_def is_sep_def defifs_def after_field_def)
qed

text \<open>
  The condition that the split parts are apart is needed: \<open>ifsbreakup\<close> forgets at the start of each part that it
  has just passed white space, so with IFS a blank and a colon \<open>$a$b\<close> with the values \<open>x \<close> and \<open>:y\<close> gives an empty
  field between x and y, which \<open>$c\<close> with the value \<open>x :y\<close> does not.
\<close>

lemma adjacent_parts_split_apart:
  "ifsbreakup (Some '' :'') [\<lparr>begoff = 0, endoff = 2, nulonly = False\<rparr>, \<lparr>begoff = 2, endoff = 4, nulonly = False\<rparr>] ''x :y'' = [''x'', [], ''y'']"
  "ifsbreakup (Some '' :'') [\<lparr>begoff = 0, endoff = 4, nulonly = False\<rparr>] ''x :y'' = [''x'', ''y'']"
  by code_simp+

section \<open>Removal of a prefix or suffix\<close>

datatype trim_type = VSTRIMRIGHT | VSTRIMRIGHTMAX | VSTRIMLEFT | VSTRIMLEFTMAX

definition esclen :: "cstr \<Rightarrow> int \<Rightarrow> nat" where
  "esclen s p = length (takeWhile (\<lambda>c. c = CTLESC) (rev (take (nat p) s)))"

text \<open>The part of the raw value that is matched at a position: what lies before it, or what lies behind it.\<close>

definition part :: "bool \<Rightarrow> nat \<Rightarrow> cstr \<Rightarrow> cstr" where
  "part zero n s = (if zero then take n s else drop n s)"

function scanleft :: "(cstr \<Rightarrow> cstr \<Rightarrow> bool) \<Rightarrow> cstr \<Rightarrow> cstr \<Rightarrow> cstr \<Rightarrow> bool \<Rightarrow> bool \<Rightarrow> nat \<Rightarrow> nat \<Rightarrow> nat option" where
  "scanleft pmatch startp rmesc pattern quotes zero loc loc2 =
     (if pmatch pattern (part zero loc2 rmesc) then Some loc
      else if loc2 \<ge> length rmesc then None
      else scanleft pmatch startp rmesc pattern quotes zero
             (if quotes \<and> char_at startp loc = CTLESC then loc + 2 else loc + 1) (loc2 + 1))"
  by auto
termination by (relation "measure (\<lambda>(pm, startp, rmesc, pat, q, z, loc, loc2). length rmesc - loc2)") auto

declare scanleft.simps [simp del]

text \<open>The pattern ends with a star that is not escaped.\<close>

definition ends_star :: "cstr \<Rightarrow> bool" where
  "ends_star pattern \<longleftrightarrow> pattern \<noteq> [] \<and> List.last pattern = CHR ''*'' \<and>
     even (length (takeWhile (\<lambda>c. c = CHR 0x5C) (rev (butlast pattern))))"

function scanright :: "(cstr \<Rightarrow> cstr \<Rightarrow> bool) \<Rightarrow> cstr \<Rightarrow> cstr \<Rightarrow> cstr \<Rightarrow> bool \<Rightarrow> bool \<Rightarrow> bool \<Rightarrow> int \<Rightarrow> int \<Rightarrow> int \<Rightarrow> nat option" where
  "scanright pmatch startp rmesc pattern quotes zero try2optimize esc loc loc2 =
     (if loc < 0 then None
      else if pmatch pattern (part zero (nat loc2) rmesc) then Some (nat loc)
      else if try2optimize \<and> ends_star pattern then None
      else let loc' = loc - 1;
               esc' = (if \<not> quotes then esc else if esc - 1 < 0 then int (esclen startp loc') else esc - 1)
           in if quotes \<and> esc' mod 2 \<noteq> 0
              then scanright pmatch startp rmesc pattern quotes zero False (esc' - 1) (loc' - 1) (loc2 - 1)
              else scanright pmatch startp rmesc pattern quotes zero False esc' loc' (loc2 - 1))"
  by auto
termination by (relation "measure (\<lambda>(pm, startp, rmesc, pat, q, z, t, esc, loc, loc2). nat (loc + 1))") auto

declare scanright.simps [simp del]

text \<open>The end of \<open>subevalvar\<close>: the scan for the four operators and the text that stays.\<close>

definition is_left :: "trim_type \<Rightarrow> bool" where
  "is_left op \<longleftrightarrow> op = VSTRIMLEFT \<or> op = VSTRIMLEFTMAX"

definition trim_scan :: "(cstr \<Rightarrow> cstr \<Rightarrow> bool) \<Rightarrow> bool \<Rightarrow> trim_type \<Rightarrow> cstr \<Rightarrow> cstr \<Rightarrow> nat option" where
  "trim_scan pmatch quotes op startp str =
     (let rmesc = (if quotes then rmescapes False startp else startp);
          pattern = rmescapes True str;
          zero = is_left op
      in if op = VSTRIMLEFT \<or> op = VSTRIMRIGHTMAX
         then scanleft pmatch startp rmesc pattern quotes zero 0 0
         else scanright pmatch startp rmesc pattern quotes zero zero 0 (int (length startp)) (int (length rmesc)))"

definition subevalvar_trim :: "(cstr \<Rightarrow> cstr \<Rightarrow> bool) \<Rightarrow> bool \<Rightarrow> trim_type \<Rightarrow> cstr \<Rightarrow> cstr \<Rightarrow> cstr" where
  "subevalvar_trim pmatch quotes op startp str =
     (case trim_scan pmatch quotes op startp str of
        None \<Rightarrow> startp
      | Some loc \<Rightarrow> if is_left op then drop loc startp else take loc startp)"

text \<open>The specification on raw values: cut at the first or last position where the part matches.\<close>

definition trimmed :: "(cstr \<Rightarrow> bool) \<Rightarrow> trim_type \<Rightarrow> cstr \<Rightarrow> cstr" where
  "trimmed matches op v =
     (case op of
        VSTRIMLEFT \<Rightarrow> (case find (\<lambda>n. matches (take n v)) [0..<Suc (length v)] of None \<Rightarrow> v | Some n \<Rightarrow> drop n v)
      | VSTRIMLEFTMAX \<Rightarrow> (case find (\<lambda>n. matches (take n v)) (rev [0..<Suc (length v)]) of None \<Rightarrow> v | Some n \<Rightarrow> drop n v)
      | VSTRIMRIGHT \<Rightarrow> (case find (\<lambda>n. matches (drop n v)) (rev [0..<Suc (length v)]) of None \<Rightarrow> v | Some n \<Rightarrow> take n v)
      | VSTRIMRIGHTMAX \<Rightarrow> (case find (\<lambda>n. matches (drop n v)) [0..<Suc (length v)] of None \<Rightarrow> v | Some n \<Rightarrow> take n v))"

text \<open>What \<open>fnmatch\<close> promises of a star at the end of a pattern.\<close>

definition trailing_star :: "(cstr \<Rightarrow> cstr \<Rightarrow> bool) \<Rightarrow> bool" where
  "trailing_star pmatch \<longleftrightarrow> (\<forall>pat s n. ends_star pat \<longrightarrow> pmatch pat (take n s) \<longrightarrow> pmatch pat s)"

lemma memtodest_append [simp]: "memtodest fl (a @ b) = memtodest fl a @ memtodest fl b"
  by (induction a) auto

lemma memtodest_cut:
  "drop (length (memtodest fl (take n v))) (memtodest fl v) = memtodest fl (drop n v)"
  "take (length (memtodest fl (take n v))) (memtodest fl v) = memtodest fl (take n v)"
  by (metis append_take_drop_id append_eq_conv_conj memtodest_append)+

lemma memtodest_unquoted: "\<not> quotes_esc fl \<Longrightarrow> NUL \<notin> set v \<Longrightarrow> memtodest fl v = v"
  by (induction v) (auto simp: is_escaped_def Let_def)

lemma memtodest_one:
  assumes "c \<noteq> NUL"
  shows "memtodest fl [c] = (if is_escaped fl c then [CTLESC, c] else [c])"
  using assms by simp

lemma is_escaped_quotes: "is_escaped fl c \<Longrightarrow> quotes_esc fl"
  by (simp add: is_escaped_def Let_def)

lemma escaped_head:
  assumes "k < length v" "NUL \<notin> set v"
  shows "quotes_esc fl \<and> char_at (memtodest fl v) (length (memtodest fl (take k v))) = CTLESC \<longleftrightarrow> is_escaped fl (v ! k)"
    and "length (memtodest fl (take (Suc k) v)) = length (memtodest fl (take k v)) + (if is_escaped fl (v ! k) then 2 else 1)"
proof -
  have n: "v ! k \<noteq> NUL" using assms nth_mem by metis
  have v: "v = take k v @ [v ! k] @ drop (Suc k) v" using assms(1) by (simp add: id_take_nth_drop)
  have "memtodest fl v = memtodest fl (take k v) @ memtodest fl [v ! k] @ memtodest fl (drop (Suc k) v)"
    by (subst v) (simp only: memtodest_append)
  then show "quotes_esc fl \<and> char_at (memtodest fl v) (length (memtodest fl (take k v))) = CTLESC \<longleftrightarrow> is_escaped fl (v ! k)"
    using n is_escaped_special(1) [of fl] is_escaped_quotes [of fl "v ! k"] by (cases "is_escaped fl (v ! k)") auto
  show "length (memtodest fl (take (Suc k) v)) = length (memtodest fl (take k v)) + (if is_escaped fl (v ! k) then 2 else 1)"
    using n assms(1) by (simp add: take_Suc_conv_app_nth)
qed

lemma scanleft_finds:
  assumes "NUL \<notin> set v"
  shows "k \<le> length v \<Longrightarrow> scanleft pm (memtodest fl v) v pat (quotes_esc fl) zero (length (memtodest fl (take k v))) k
     = map_option (\<lambda>n. length (memtodest fl (take n v))) (find (\<lambda>n. pm pat (part zero n v)) [k..<Suc (length v)])"
proof (induction "length v - k" arbitrary: k)
  case 0
  then show ?case by (subst scanleft.simps) simp
next
  case (Suc d)
  then have k: "k < length v" by simp
  note h = escaped_head [OF k assms, of fl]
  have up: "[k..<Suc (length v)] = k # [Suc k..<Suc (length v)]" using k by (simp add: upt_rec)
  have IH: "scanleft pm (memtodest fl v) v pat (quotes_esc fl) zero (length (memtodest fl (take (Suc k) v))) (Suc k)
     = map_option (\<lambda>n. length (memtodest fl (take n v))) (find (\<lambda>n. pm pat (part zero n v)) [Suc k..<Suc (length v)])"
    using Suc k by simp
  show ?case unfolding up using IH k unfolding h(2)
    by (cases "is_escaped fl (v ! k)"; subst scanleft.simps) (simp_all add: h(1) [simplified])
qed

text \<open>Backwards, the parity of the number of marks tells whether a character is escaped.\<close>

definition trail :: "cstr \<Rightarrow> nat" where
  "trail s = length (takeWhile (\<lambda>c. c = CTLESC) (rev s))"

lemma trail_simps [simp]: "trail [] = 0" "trail (s @ [c]) = (if c = CTLESC then Suc (trail s) else 0)"
  by (simp_all add: trail_def)

lemma esclen_trail: "esclen s p = trail (take (nat p) s)"
  by (simp add: esclen_def trail_def)

lemma trail_even:
  assumes "quotes_esc fl"
  shows "NUL \<notin> set v \<Longrightarrow> even (trail (memtodest fl v))"
proof (induction v rule: rev_induct)
  case (snoc c v)
  then have n: "c \<noteq> NUL" by auto
  show ?case
  proof (cases "is_escaped fl c")
    case True
    then have "memtodest fl (v @ [c]) = (memtodest fl v @ [CTLESC]) @ [c]" using n by simp
    then show ?thesis using snoc by (simp only: trail_simps) auto
  next
    case False
    then have "c \<noteq> CTLESC" using is_escaped_special(1) [OF assms] by auto
    moreover have "memtodest fl (v @ [c]) = memtodest fl v @ [c]" using n False by simp
    ultimately show ?thesis by (simp only: trail_simps) simp
  qed
qed simp

lemma esclen_odd:
  assumes "quotes_esc fl" "NUL \<notin> set v" "k < length v"
  shows "odd (esclen (memtodest fl v) (int (length (memtodest fl (take (Suc k) v))) - 1)) \<longleftrightarrow> is_escaped fl (v ! k)"
proof -
  have n: "v ! k \<noteq> NUL" using assms nth_mem by metis
  have e: "even (trail (memtodest fl (take k v)))" using trail_even [OF assms(1)] assms(2) by (meson in_set_takeD)
  have s: "memtodest fl (take (Suc k) v) = (memtodest fl (take k v) @ (if is_escaped fl (v ! k) then [CTLESC] else [])) @ [v ! k]"
    using n assms(3) by (simp add: take_Suc_conv_app_nth)
  have "memtodest fl v = memtodest fl (take (Suc k) v) @ memtodest fl (drop (Suc k) v)"
    by (metis append_take_drop_id memtodest_append)
  then have "take (nat (int (length (memtodest fl (take (Suc k) v))) - 1)) (memtodest fl v)
      = memtodest fl (take k v) @ (if is_escaped fl (v ! k) then [CTLESC] else [])"
    unfolding s by (simp add: nat_diff_distrib)
  then show ?thesis using e by (simp add: esclen_trail)
qed

lemma esclen_back:
  assumes "1 \<le> esclen s p" "p \<le> int (length s)"
  shows "int (esclen s (p - 1)) = int (esclen s p) - 1"
proof -
  have "p > 0" using assms(1) by (rule contrapos_pp) (simp add: esclen_def)
  then obtain q where q: "p = int (Suc q)" by (metis gr0_conv_Suc zero_less_imp_eq_int)
  then have "q < length s" using assms(2) by simp
  then have "take (Suc q) s = take q s @ [s ! q]" by (simp add: take_Suc_conv_app_nth)
  moreover have "nat p = Suc q" "nat (p - 1) = q" using q by auto
  ultimately show ?thesis using assms(1) by (simp add: esclen_trail split: if_splits)
qed

lemma scanright_step:
  assumes "loc \<ge> 0" and "esc' = (if esc - 1 < 0 then int (esclen startp (loc - 1)) else esc - 1)"
  shows "scanright pm startp rmesc pat True zero False esc loc loc2 =
    (if pm pat (part zero (nat loc2) rmesc) then Some (nat loc)
     else if esc' mod 2 \<noteq> 0 then scanright pm startp rmesc pat True zero False (esc' - 1) (loc - 2) (loc2 - 1)
     else scanright pm startp rmesc pat True zero False esc' (loc - 1) (loc2 - 1))"
  using assms by (subst scanright.simps) (simp add: Let_def)

lemma scanright_finds:
  assumes n: "NUL \<notin> set v"
  shows "k \<le> length v \<Longrightarrow> quotes_esc fl \<Longrightarrow> esc = 0 \<or> esc = int (esclen (memtodest fl v) (int (length (memtodest fl (take k v))))) \<Longrightarrow>
    scanright pm (memtodest fl v) v pat True zero False esc (int (length (memtodest fl (take k v)))) (int k)
     = map_option (\<lambda>n. length (memtodest fl (take n v))) (find (\<lambda>n. pm pat (part zero n v)) (rev [0..<Suc k]))"
proof (induction k arbitrary: esc)
  case 0
  then have "esc = 0" by (auto simp: esclen_def)
  moreover have "scanright pm (memtodest fl v) v pat True zero False e (- 1) l = None" for e l by (simp add: scanright.simps)
  ultimately show ?case by (simp add: scanright.simps [where loc = 0] esclen_def Let_def)
next
  case (Suc k)
  let ?E = "memtodest fl v" and ?L = "int (length (memtodest fl (take (Suc k) v)))"
  have k: "k < length v" using Suc.prems by simp
  have L: "?L \<le> int (length ?E)"
    by (metis append_take_drop_id length_append memtodest_append le_add1 of_nat_le_iff)
  define esc' where "esc' = (if esc - 1 < 0 then int (esclen ?E (?L - 1)) else esc - 1)"
  have e: "esc' = int (esclen ?E (?L - 1))"
    using Suc.prems(3) esclen_back [of ?E ?L] L by (auto simp: esc'_def)
  have odd: "esc' mod 2 \<noteq> 0 \<longleftrightarrow> is_escaped fl (v ! k)"
    using esclen_odd [OF Suc.prems(2) n k] unfolding e by (metis even_iff_mod_2_eq_zero even_of_nat)
  have len: "?L = int (length (memtodest fl (take k v))) + (if is_escaped fl (v ! k) then 2 else 1)"
    using escaped_head(2) [OF k n, of fl] by simp
  have step: "scanright pm ?E v pat True zero False esc ?L (int (Suc k)) =
      (if pm pat (part zero (Suc k) v) then Some (nat ?L)
       else scanright pm ?E v pat True zero False (if is_escaped fl (v ! k) then esc' - 1 else esc')
              (int (length (memtodest fl (take k v)))) (int k))"
  proof -
    have p: "?L - (if is_escaped fl (v ! k) then 2 else 1) = int (length (memtodest fl (take k v)))" using len by simp
    have q: "int (Suc k) - 1 = int k" "nat (int (Suc k)) = Suc k" "0 \<le> ?L" by simp_all
    show ?thesis unfolding scanright_step [OF q(3) esc'_def] q odd using p by (cases "is_escaped fl (v ! k)") simp_all
  qed
  have inv: "(if is_escaped fl (v ! k) then esc' - 1 else esc') = int (esclen ?E (int (length (memtodest fl (take k v)))))"
  proof (cases "is_escaped fl (v ! k)")
    case True
    then have "esc' \<noteq> 0" using odd by auto
    then have "1 \<le> esclen ?E (?L - 1)" using e by linarith
    from esclen_back [OF this] have "int (esclen ?E (?L - 1 - 1)) = esc' - 1" using L e by simp
    moreover have "?L - 1 - 1 = int (length (memtodest fl (take k v)))" using len True by simp
    ultimately show ?thesis using True by simp
  next
    case False
    then show ?thesis using e len by simp
  qed
  show ?case unfolding step inv
    using Suc.IH [of "int (esclen ?E (int (length (memtodest fl (take k v)))))"] Suc.prems(2) k by auto
qed

lemma scanright_finds_unquoted:
  "k \<le> length v \<Longrightarrow> scanright pm v v pat False zero False esc (int k) (int k)
     = find (\<lambda>n. pm pat (part zero n v)) (rev [0..<Suc k])"
proof (induction k)
  case 0
  have "scanright pm v v pat False zero False esc (- 1) l = None" for l by (simp add: scanright.simps)
  then show ?case by (simp add: scanright.simps [where loc = 0] Let_def)
next
  case (Suc k)
  have "nat (1 + int k) = Suc k" by simp
  then show ?case using Suc by (subst scanright.simps) (simp add: Let_def)
qed

lemma scanright_try:
  assumes "loc \<ge> 0"
  shows "scanright pm startp rmesc pat q zero True esc loc loc2 =
    (if \<not> pm pat (part zero (nat loc2) rmesc) \<and> ends_star pat then None else scanright pm startp rmesc pat q zero False esc loc loc2)"
  using assms by (subst (1 2) scanright.simps) (auto simp: Let_def)

lemma find_in_set: "find P xs = Some x \<Longrightarrow> x \<in> set xs"
  by (induction xs) (auto split: if_splits)

lemma find_rev_le: "find P (rev [0..<Suc n]) = Some k \<Longrightarrow> k \<le> n"
  using find_in_set [of P "rev [0..<Suc n]" k] by (auto simp del: upt_Suc)

lemma scanright_full:
  assumes n: "NUL \<notin> set v"
  shows "scanright pm (memtodest fl v) v pat (quotes_esc fl) zero False 0 (int (length (memtodest fl v))) (int (length v))
     = map_option (\<lambda>n. length (memtodest fl (take n v))) (find (\<lambda>n. pm pat (part zero n v)) (rev [0..<Suc (length v)]))"
proof (cases "quotes_esc fl")
  case True
  then show ?thesis using scanright_finds [OF n, of "length v" fl 0] by simp
next
  case False
  then have m: "memtodest fl (take n v) = take n v" for n using memtodest_unquoted [of fl "take n v"] n by (metis in_set_takeD)
  let ?f = "find (\<lambda>n. pm pat (part zero n v)) (rev [0..<Suc (length v)])"
  have "map_option (\<lambda>n. length (take n v)) ?f = ?f"
  proof (cases ?f)
    case (Some k)
    then have "length (take k v) = k" using find_rev_le by simp
    then show ?thesis unfolding Some by simp
  qed simp
  then have f: "?f = map_option (\<lambda>n. length (take n v)) ?f" by (rule sym)
  have v: "memtodest fl v = v" and q: "quotes_esc fl = False" using memtodest_unquoted [OF False n] False by simp_all
  show ?thesis unfolding v m q scanright_finds_unquoted [OF order.refl] by (rule f)
qed

lemma star_none:
  assumes "trailing_star pm" "\<not> pm pat (part True (length v) v)" "ends_star pat"
  shows "find (\<lambda>n. pm pat (part True n v)) xs = None"
proof -
  have "\<not> pm pat (take n v)" for n using assms unfolding trailing_star_def part_def by (metis order.refl take_all)
  then show ?thesis by (simp add: find_None_iff part_def)
qed

lemma scanright_value:
  assumes n: "NUL \<notin> set v" and star: "trailing_star pm" and t: "t \<longrightarrow> zero"
  shows "scanright pm (memtodest fl v) v pat (quotes_esc fl) zero t 0 (int (length (memtodest fl v))) (int (length v))
     = map_option (\<lambda>n. length (memtodest fl (take n v))) (find (\<lambda>n. pm pat (part zero n v)) (rev [0..<Suc (length v)]))"
proof (cases t)
  case True
  then have z: "zero = True" "t = True" using t by simp_all
  show ?thesis unfolding z scanright_try [OF of_nat_0_le_iff] scanright_full [OF n]
    using star_none [OF star, of pat v] by (simp del: upt_Suc)
next
  case False
  then show ?thesis using scanright_full [OF n] by simp
qed

lemma trim_scan_value:
  assumes "NUL \<notin> set v" and "trailing_star pm"
  shows "trim_scan pm (quotes_esc fl) op (memtodest fl v) str = map_option (\<lambda>n. length (memtodest fl (take n v)))
     (find (\<lambda>n. pm (preglob str) (part (is_left op) n v))
        (if op = VSTRIMLEFT \<or> op = VSTRIMRIGHTMAX then [0..<Suc (length v)] else rev [0..<Suc (length v)]))"
proof -
  have "filter (\<lambda>c. c \<noteq> NUL) v = v" using assms(1) by (intro filter_True) auto
  then have rm: "(if quotes_esc fl then rmescapes False (memtodest fl v) else memtodest fl v) = v"
    using assms(1) unescape_loop [of fl v] memtodest_unquoted [of fl v] by (simp add: rmescapes_loop)
  have "length (memtodest fl (take 0 v)) = 0" by simp
  then show ?thesis
    unfolding trim_scan_def rm Let_def preglob_def
    using scanleft_finds [OF assms(1), of 0 pm fl "rmescapes True str" "is_left op"]
      scanright_value [OF assms, of "is_left op" "is_left op" fl "rmescapes True str"] by (simp del: upt_Suc)
qed

text \<open>C14: \<open>${v#pattern}\<close>, \<open>${v##pattern}\<close>, \<open>${v%pattern}\<close> and \<open>${v%%pattern}\<close>.  On the marked text of a value the scans
  cut exactly where the specification cuts the value: the shortest or the longest prefix or suffix that
  matches is removed, marks and characters stay together, and the value is unchanged when nothing
  matches.  The scan that skips shorter prefixes for a pattern that ends with a star relies on
  \<open>fnmatch\<close> matching any text there.\<close>

theorem trim_removes:
  assumes "NUL \<notin> set v" and "trailing_star pmatch"
  shows "subevalvar_trim pmatch (quotes_esc fl) op (memtodest fl v) str
     = memtodest fl (trimmed (pmatch (preglob str)) op v)"
proof -
  have s: "trimmed (pmatch (preglob str)) op v =
     (case find (\<lambda>n. pmatch (preglob str) (part (is_left op) n v))
        (if op = VSTRIMLEFT \<or> op = VSTRIMRIGHTMAX then [0..<Suc (length v)] else rev [0..<Suc (length v)]) of
        None \<Rightarrow> v | Some n \<Rightarrow> if is_left op then drop n v else take n v)"
    by (cases op) (auto simp: trimmed_def is_left_def part_def simp del: upt_Suc split: option.split)
  show ?thesis unfolding subevalvar_trim_def trim_scan_value [OF assms] s
    by (auto simp: memtodest_cut simp del: upt_Suc split: option.split)
qed

text \<open>A pattern is its literal text, with an optional star at the end.\<close>

definition demo_match :: "cstr \<Rightarrow> cstr \<Rightarrow> bool" where
  "demo_match pat s = (if ends_star pat then prefix (butlast pat) s else pat = s)"

theorem trim_removes_witness:
  "trailing_star demo_match \<and>
   subevalvar_trim demo_match True VSTRIMLEFTMAX (memtodest \<lparr>quotes_esc = True, exp_quoted = False, keepnul = False\<rparr> [CTLESC, CHR ''b'']) [CTLESC, CTLESC]
     = ''b''"
proof
  have "prefix p s" if "prefix p (take n s)" for p s :: cstr and n
    using prefix_prefix [OF that, of "drop n s"] by (simp only: append_take_drop_id)
  then show t: "trailing_star demo_match" unfolding trailing_star_def demo_match_def by presburger
  have n: "NUL \<notin> set [CTLESC, CHR ''b'']" by simp
  have "trimmed (demo_match (preglob [CTLESC, CTLESC])) VSTRIMLEFTMAX [CTLESC, CHR ''b''] = ''b''" by code_simp
  moreover have "memtodest \<lparr>quotes_esc = True, exp_quoted = False, keepnul = False\<rparr> ''b'' = ''b''" by code_simp
  ultimately show "subevalvar_trim demo_match True VSTRIMLEFTMAX (memtodest \<lparr>quotes_esc = True, exp_quoted = False, keepnul = False\<rparr> [CTLESC, CHR ''b'']) [CTLESC, CTLESC]
     = ''b''"
    using trim_removes [OF n t, of "\<lparr>quotes_esc = True, exp_quoted = False, keepnul = False\<rparr>" VSTRIMLEFTMAX "[CTLESC, CTLESC]"] by (simp del: memtodest.simps)
qed

end
