(* ===== verification/Ash_Glob.thy ===== *)
theory Ash_Glob
  imports Ash_Expand Libbb_Text "HOL-Library.Multiset"
begin

text \<open>
  Pathname expansion, \<open>shell/ash.c\<close>, with the shell's own globbing as in the build: \<open>hasmeta\<close> decides whether a
  field is a pattern at all, \<open>expmeta\<close> walks the directories, \<open>msort\<close> sorts what it found and \<open>expandmeta\<close> replaces
  the field.  Directories, \<open>lstat\<close> and \<open>fnmatch\<close> are parameters.  An interrupt is not modelled.
\<close>

section \<open>Patterns\<close>

definition meta_chars :: cstr where
  "meta_chars = [CHR ''*'', CHR ''?'', CHR ''['', CHR 0x5C, CTLQUOTEMARK, CTLESC]"

text \<open>The text behind the closing quote mark.\<close>

fun quote_end :: "cstr \<Rightarrow> cstr option" where
  "quote_end [] = None"
| "quote_end (c # p) =
     (if c = CTLQUOTEMARK then Some p
      else if c = CTLESC then (case p of [] \<Rightarrow> None | d # p' \<Rightarrow> quote_end p')
      else quote_end p)"

lemma quote_end_shorter: "quote_end p = Some r \<Longrightarrow> length r < length p"
proof (induction p rule: quote_end.induct)
  case (2 c p)
  then show ?case by (auto split: if_splits list.splits)
qed simp

function hasmeta :: "cstr \<Rightarrow> bool" where
  "hasmeta p =
     (case dropWhile (\<lambda>c. c \<notin> set meta_chars) p of
        [] \<Rightarrow> False
      | c # r \<Rightarrow>
          if c = CTLQUOTEMARK then (case quote_end r of None \<Rightarrow> False | Some r' \<Rightarrow> hasmeta r')
          else if c = CHR 0x5C \<or> c = CTLESC then (case r of [] \<Rightarrow> False | d # r' \<Rightarrow> hasmeta r')
          else if c = CHR ''['' \<and> CHR '']'' \<notin> set r then hasmeta r
          else True)"
  by pat_completeness auto
termination
proof -
  have d: "length xs \<le> length p" if "dropWhile P p = x # xs" for P and p xs :: cstr and x
    using length_dropWhile_le [of P p] that by simp
  have e: "length xs < length p" if "dropWhile P p = x # xs" for P and p xs :: cstr and x
    using length_dropWhile_le [of P p] that by simp
  show ?thesis
    by (relation "measure length") (auto dest!: quote_end_shorter e)
qed

declare hasmeta.simps [simp del]

section \<open>Walking the directories\<close>

record glob_env =
  readdir_names :: "cstr \<Rightarrow> cstr list option"
  lstat_ok :: "cstr \<Rightarrow> bool"
  pmatch :: "cstr \<Rightarrow> cstr \<Rightarrow> bool"

abbreviation BSLASH :: char where "BSLASH \<equiv> CHR 0x5C"

text \<open>A bracket expression that is closed before the next slash.\<close>

function bracket_closed :: "cstr \<Rightarrow> bool" where
  "bracket_closed q =
     (let q1 = (if char_at q 0 = BSLASH then tl q else q)
      in case q1 of
           [] \<Rightarrow> False
         | c # q2 \<Rightarrow> if c = CHR ''/'' then False else if char_at q2 0 = CHR '']'' then True else bracket_closed q2)"
  by pat_completeness auto
termination
proof (relation "measure length", goal_cases)
  case (2 q q1 c q2)
  then show ?case by (cases q) (auto split: if_splits)
qed simp

declare bracket_closed.simps [simp del]

definition bracket :: "cstr \<Rightarrow> bool" where
  "bracket q = bracket_closed (if char_at q 0 = CHR ''!'' then tl q else q)"

text \<open>
  The scan for the first component with a special character: whether there is one, where it starts, where it ends
  and whether the slash behind it is escaped.
\<close>

function meta_scan :: "cstr \<Rightarrow> nat \<Rightarrow> bool \<Rightarrow> nat \<Rightarrow> bool \<times> nat \<times> nat \<times> nat" where
  "meta_scan name p metaflag start =
     (if p \<ge> length name then (metaflag, start, p, 0)
      else let c = char_at name p
           in if c = CHR ''*'' \<or> c = CHR ''?'' then meta_scan name (p + 1) True start
              else if c = CHR ''['' then meta_scan name (p + 1) (metaflag \<or> bracket (drop (p + 1) name)) start
              else let esc = (if c = BSLASH \<and> char_at name (p + 1) \<noteq> NUL then 1 else 0)
                   in if char_at name (p + esc) = CHR ''/'' then
                        (if metaflag then (metaflag, start, p, esc) else meta_scan name (p + esc + 1) metaflag (p + esc + 1))
                      else meta_scan name (p + esc + 1) metaflag start)"
  by pat_completeness auto
termination by (relation "measure (\<lambda>(name, p, _). length name - p)") auto

declare meta_scan.simps [simp del]

text \<open>Copying a part of the pattern without its backslashes.\<close>

fun unslash :: "cstr \<Rightarrow> cstr" where
  "unslash [] = []"
| "unslash (c # p) = (if c = BSLASH \<and> p \<noteq> [] then hd p # unslash (tl p) else c # unslash p)"

function expmeta :: "'e glob_env_scheme \<Rightarrow> cstr \<Rightarrow> cstr \<Rightarrow> cstr list" where
  "expmeta E name expdir =
     (case meta_scan name 0 False 0 of
        (metaflag, start, e, esc) \<Rightarrow>
          if \<not> metaflag then
            (if expdir = [] then []
             else let path = expdir @ unslash name in if lstat_ok E path then [path] else [])
          else
            let dir = expdir @ unslash (take start name); pattern = drop start (take e name);
                atend = (e \<ge> length name); matchdot = (char_at (if char_at pattern 0 = BSLASH then tl pattern else pattern) 0 = CHR ''.'')
            in case readdir_names E (if dir = [] then ''.'' else dir) of
                 None \<Rightarrow> []
               | Some names \<Rightarrow>
                   concat (map (\<lambda>d. if char_at d 0 = CHR ''.'' \<and> \<not> matchdot \<or> \<not> pmatch E pattern d then []
                                    else if atend then [dir @ d]
                                    else expmeta E (drop (e + esc + 1) name) (dir @ d @ ''/'')) names))"
  by pat_completeness auto
termination by (relation "measure (\<lambda>(E, name, _). length name)") auto

declare expmeta.simps [simp del]

section \<open>Sorting\<close>

fun msort_merge :: "cstr list \<Rightarrow> cstr list \<Rightarrow> cstr list" where
  "msort_merge [] q = q"
| "msort_merge p [] = p"
| "msort_merge (x # p) (y # q) = (if strcmp x y < 0 then x # msort_merge p (y # q) else y # msort_merge (x # p) q)"

function msort :: "cstr list \<Rightarrow> cstr list" where
  "msort xs =
     (if length xs \<le> 1 then xs
      else let half = length xs div 2 in msort_merge (msort (drop half xs)) (msort (take half xs)))"
  by pat_completeness auto
termination by (relation "measure length") auto

declare msort.simps [simp del]

definition expandmeta_field :: "'e glob_env_scheme \<Rightarrow> bool \<Rightarrow> cstr \<Rightarrow> cstr list" where
  "expandmeta_field E fflag s =
     (if fflag \<or> \<not> hasmeta s then [rmescapes False s]
      else let found = expmeta E (preglob s) [] in if found = [] then [rmescapes False s] else msort found)"

definition expandmeta :: "'e glob_env_scheme \<Rightarrow> bool \<Rightarrow> cstr list \<Rightarrow> cstr list" where
  "expandmeta E fflag strs = concat (map (expandmeta_field E fflag) strs)"

section \<open>The sort\<close>

lemma merge_mset [simp]: "mset (msort_merge p q) = mset p + mset q"
  by (induction p q rule: msort_merge.induct) auto

lemma msort_mset [simp]: "mset (msort xs) = mset xs"
proof (induction xs rule: msort.induct)
  case (1 xs)
  show ?case
  proof (cases "length xs \<le> 1")
    case True
    then show ?thesis by (subst msort.simps) simp
  next
    case False
    have "mset (drop (length xs div 2) xs) + mset (take (length xs div 2) xs) = mset xs"
      by (metis append_take_drop_id mset_append union_commute)
    then show ?thesis using 1 False by (subst msort.simps) (simp add: Let_def)
  qed
qed

abbreviation in_order :: "cstr list \<Rightarrow> bool" where
  "in_order \<equiv> sorted_wrt (\<lambda>x y. strcmp x y \<le> 0)"

lemma merge_set [simp]: "set (msort_merge p q) = set p \<union> set q"
  by (metis merge_mset set_mset_mset set_mset_union)

lemma msort_set [simp]: "set (msort xs) = set xs"
  by (metis msort_mset set_mset_mset)

lemma merge_in_order: "in_order p \<Longrightarrow> in_order q \<Longrightarrow> in_order (msort_merge p q)"
proof (induction p q rule: msort_merge.induct)
  case (3 x p y q)
  show ?case
  proof (cases "strcmp x y < 0")
    case True
    then have "\<forall>z \<in> set (y # q). strcmp x z \<le> 0" using 3(4) strcmp_trans [of x y] by auto
    then show ?thesis using 3 True by auto
  next
    case False
    then have "strcmp y x \<le> 0" using strcmp_swap [of y x] by simp
    then have "\<forall>z \<in> set (x # p). strcmp y z \<le> 0" using 3(3) strcmp_trans [of y x] by auto
    then show ?thesis using 3 False by auto
  qed
qed simp_all

lemma msort_in_order: "in_order (msort xs)"
proof (induction xs rule: msort.induct)
  case (1 xs)
  show ?case
  proof (cases "length xs \<le> 1")
    case True
    then show ?thesis by (subst msort.simps) (cases xs; simp)
  next
    case False
    then show ?thesis using 1 merge_in_order by (subst msort.simps) (simp add: Let_def)
  qed
qed

lemma msort_Nil [simp]: "msort xs = [] \<longleftrightarrow> xs = []"
  by (metis msort_set set_empty)

section \<open>What is found\<close>

text \<open>\<open>readdir\<close> lists names that \<open>lstat\<close> finds.\<close>

definition listing_ok :: "'e glob_env_scheme \<Rightarrow> bool" where
  "listing_ok E \<longleftrightarrow>
     (\<forall>names. readdir_names E ''.'' = Some names \<longrightarrow> (\<forall>d \<in> set names. lstat_ok E d)) \<and>
     (\<forall>dir names. readdir_names E (dir @ ''/'') = Some names \<longrightarrow> (\<forall>d \<in> set names. lstat_ok E (dir @ ''/'' @ d)))"

definition ends_slash :: "cstr \<Rightarrow> bool" where
  "ends_slash d \<longleftrightarrow> d = [] \<or> (\<exists>d'. d = d' @ ''/'')"

lemma unslash_slash: "char_at s (length s - 1) = CHR ''/'' \<Longrightarrow> s \<noteq> [] \<Longrightarrow> \<exists>d. unslash s = d @ ''/''"
proof (induction s rule: unslash.induct)
  case (2 c p)
  show ?case
  proof (cases "c = BSLASH \<and> p \<noteq> []")
    case True
    then obtain d p' where p: "p = d # p'" by (cases p) auto
    show ?thesis
    proof (cases "p' = []")
      case False
      then have "char_at p' (length p' - 1) = CHR ''/''" using 2(3) p by (auto simp: char_at_def nth_Cons' split: if_splits)
      then obtain e where "unslash p' = e @ ''/''" using 2(1) True p False by auto
      then show ?thesis using True p by auto
    qed (use 2(3) True p in \<open>auto simp: char_at_def\<close>)
  next
    case False
    show ?thesis
    proof (cases "p = []")
      case False
      then have "char_at p (length p - 1) = CHR ''/''" using 2(3) by (auto simp: char_at_def nth_Cons' split: if_splits)
      then obtain e where "unslash p = e @ ''/''" using 2(2) \<open>\<not> (c = BSLASH \<and> p \<noteq> [])\<close> False by auto
      then show ?thesis using \<open>\<not> (c = BSLASH \<and> p \<noteq> [])\<close> by auto
    qed (use 2(3) in \<open>auto simp: char_at_def\<close>)
  qed
qed simp

lemma meta_scan_done: "length name \<le> p \<Longrightarrow> meta_scan name p m start = (m, start, p, 0)"
  by (subst meta_scan.simps) simp

definition esc_at :: "cstr \<Rightarrow> nat \<Rightarrow> nat" where
  "esc_at name p = (if char_at name p = BSLASH \<and> char_at name (p + 1) \<noteq> NUL then 1 else 0)"

lemma esc_at_le: "p < length name \<Longrightarrow> p + esc_at name p + 1 \<le> length name"
  by (auto simp: esc_at_def char_at_def)

lemma meta_scan_step:
  assumes "p < length name"
  shows "meta_scan name p m start =
     (if char_at name p = CHR ''*'' \<or> char_at name p = CHR ''?'' then meta_scan name (p + 1) True start
      else if char_at name p = CHR ''['' then meta_scan name (p + 1) (m \<or> bracket (drop (p + 1) name)) start
      else if char_at name (p + esc_at name p) = CHR ''/'' then
        (if m then (m, start, p, esc_at name p) else meta_scan name (p + esc_at name p + 1) m (p + esc_at name p + 1))
      else meta_scan name (p + esc_at name p + 1) m start)"
  using assms by (subst meta_scan.simps) (simp only: Let_def esc_at_def not_le [symmetric] if_False)

lemma meta_scan_start:
  assumes "start = 0 \<or> char_at name (start - 1) = CHR ''/''" "start \<le> p" "p \<le> length name"
    "meta_scan name p m start = (m', start', e, esc)"
  shows "(start' = 0 \<or> char_at name (start' - 1) = CHR ''/'') \<and> start' \<le> e \<and> e \<le> length name"
  using assms
proof (induction "length name - p" arbitrary: p m start rule: less_induct)
  case less
  show ?case
  proof (cases "p < length name")
    case False
    then show ?thesis using less(2-5) by (simp add: meta_scan_done)
  next
    case True
    note step = less(5) [unfolded meta_scan_step [OF True]] and k = esc_at_le [OF True]
    show ?thesis
    proof (cases "char_at name p = CHR ''*'' \<or> char_at name p = CHR ''?'' \<or> char_at name p = CHR ''[''")
      case True
      then show ?thesis using less(1) [of "p + 1" start] less(2,3) step k by (auto split: if_splits)
    next
      case False
      then show ?thesis using less(1) [of "p + esc_at name p + 1" "p + esc_at name p + 1" False] less(1) [of "p + esc_at name p + 1" start m] less(2,3) step k by (auto split: if_splits)
    qed
  qed
qed

lemma meta_scan_whole:
  assumes "CHR ''/'' \<notin> set name" "p \<le> length name" "meta_scan name p m start = (m', start', e, esc)"
  shows "start' = start \<and> e = length name"
  using assms(2,3)
proof (induction "length name - p" arbitrary: p m rule: less_induct)
  case less
  show ?case
  proof (cases "p < length name")
    case False
    then show ?thesis using less(2,3) by (simp add: meta_scan_done)
  next
    case True
    note step = less(3) [unfolded meta_scan_step [OF True]] and k = esc_at_le [OF True]
    have "p + esc_at name p < length name" using k by simp
    then have "char_at name (p + esc_at name p) \<noteq> CHR ''/''" using assms(1) nth_mem unfolding char_at_def by metis
    then show ?thesis using less(1) [of "p + 1"] less(1) [of "p + esc_at name p + 1"] step k by (auto split: if_splits)
  qed
qed

lemma scanned_dir:
  assumes "ends_slash dir" "meta_scan name 0 False 0 = (m, start, e, esc)"
  shows "ends_slash (dir @ unslash (take start name))"
proof (cases "start = 0")
  case False
  have s: "char_at name (start - 1) = CHR ''/''" "start \<le> length name" using meta_scan_start [OF _ _ _ assms(2)] False by auto
  then have "char_at (take start name) (length (take start name) - 1) = CHR ''/''" using False by (auto simp: char_at_def split: if_splits)
  then obtain d where "unslash (take start name) = d @ ''/''" using unslash_slash [of "take start name"] False s(2) by fastforce
  then show ?thesis by (auto simp: ends_slash_def)
qed (use assms(1) in \<open>simp add: ends_slash_def\<close>)

lemma listed_exists:
  assumes "listing_ok E" "ends_slash dir" "readdir_names E (if dir = [] then ''.'' else dir) = Some names" "d \<in> set names"
  shows "lstat_ok E (dir @ d)"
  using assms by (auto simp: listing_ok_def ends_slash_def)

lemma expmeta_exists:
  assumes "listing_ok E" "ends_slash expdir" "f \<in> set (expmeta E name expdir)"
  shows "lstat_ok E f"
  using assms(2,3)
proof (induction "length name" arbitrary: name expdir rule: less_induct)
  case less
  obtain m start e esc where s: "meta_scan name 0 False 0 = (m, start, e, esc)" by (metis prod_cases4)
  let ?dir = "expdir @ unslash (take start name)"
  have dir: "ends_slash ?dir" by (rule scanned_dir [OF less(2) s])
  show ?case
  proof (cases m)
    case False
    then show ?thesis using less(3) s by (auto simp: expmeta.simps [of E name expdir] Let_def split: if_splits)
  next
    case True
    define g where "g d = (if char_at d 0 = CHR ''.'' \<and> \<not> char_at (if char_at (drop start (take e name)) 0 = BSLASH then tl (drop start (take e name)) else drop start (take e name)) 0 = CHR ''.''
         \<or> \<not> pmatch E (drop start (take e name)) d then [] else if e \<ge> length name then [?dir @ d] else expmeta E (drop (e + esc + 1) name) (?dir @ d @ ''/''))" for d
    have "expmeta E name expdir = (case readdir_names E (if ?dir = [] then ''.'' else ?dir) of None \<Rightarrow> [] | Some names \<Rightarrow> concat (map g names))"
      using True unfolding g_def [abs_def] by (subst expmeta.simps) (simp only: s prod.case Let_def not_True_eq_False if_False)
    then obtain names d where d: "readdir_names E (if ?dir = [] then ''.'' else ?dir) = Some names" "d \<in> set names" "f \<in> set (g d)"
      using less(3) by (auto split: option.splits)
    have "f = ?dir @ d \<or> e < length name \<and> f \<in> set (expmeta E (drop (e + esc + 1) name) (?dir @ d @ ''/''))"
      using d(3) unfolding g_def by (simp split: if_splits)
    moreover have "lstat_ok E (?dir @ d)" by (rule listed_exists [OF assms(1) dir d(1,2)])
    ultimately show ?thesis using less(1) [of "drop (e + esc + 1) name" "?dir @ d @ ''/''"] by (auto simp: ends_slash_def)
  qed
qed

text \<open>Pathname expansion replaces a field by paths that exist, in the order of \<open>strcmp\<close>; a field that is no pattern,
  and a pattern that nothing matches, stays as it is, without its quoting marks.\<close>

theorem expanded_paths_exist:
  assumes "listing_ok E"
  shows "expandmeta_field E fflag s = [rmescapes False s] \<or>
     expandmeta_field E fflag s \<noteq> [] \<and> in_order (expandmeta_field E fflag s) \<and> list_all (lstat_ok E) (expandmeta_field E fflag s)"
  using expmeta_exists [OF assms, of "[]"] msort_in_order
  by (auto simp: expandmeta_field_def Let_def list_all_iff ends_slash_def)

text \<open>The names of the current directory that a pattern shows: hidden ones only when it begins with a dot.\<close>

definition shown :: "'e glob_env_scheme \<Rightarrow> cstr \<Rightarrow> cstr list" where
  "shown E pat =
     filter (\<lambda>d. pmatch E pat d \<and> (char_at d 0 = CHR ''.'' \<longrightarrow> char_at (if char_at pat 0 = BSLASH then tl pat else pat) 0 = CHR ''.''))
       (case readdir_names E ''.'' of None \<Rightarrow> [] | Some names \<Rightarrow> names)"

lemma expmeta_here:
  assumes "CHR ''/'' \<notin> set pat" "fst (meta_scan pat 0 False 0)"
  shows "expmeta E pat [] = shown E pat"
proof -
  obtain m st e esc where s: "meta_scan pat 0 False 0 = (m, st, e, esc)" by (rule prod_cases4)
  have m: "m = True" "st = 0" "e = length pat" using assms(2) s meta_scan_whole [OF assms(1) _ s] by simp_all
  have c: "concat (map (\<lambda>d. if P d then [] else [d]) ns) = filter (\<lambda>d. \<not> P d) ns" for P :: "cstr \<Rightarrow> bool" and ns by (induction ns) auto
  have "expmeta E pat [] = (case readdir_names E ''.'' of None \<Rightarrow> [] | Some names \<Rightarrow>
     concat (map (\<lambda>d. if char_at d 0 = CHR ''.'' \<and> char_at (if char_at pat 0 = BSLASH then tl pat else pat) 0 \<noteq> CHR ''.'' \<or> \<not> pmatch E pat d then [] else [d]) names))"
    by (subst expmeta.simps) (simp only: s m prod.case Let_def not_True_eq_False if_False take0 unslash.simps append.simps take_all drop0 order_refl if_True simp_thms)
  also have "\<dots> = shown E pat" unfolding shown_def c by (cases "readdir_names E ''.''") (auto intro: filter_cong)
  finally show ?thesis .
qed

text \<open>A pattern without a slash is replaced by exactly the names of the current directory that match it, hidden
  ones only when the pattern begins with a dot.\<close>

theorem pattern_shows_names:
  assumes "hasmeta s" and "CHR ''/'' \<notin> set (preglob s)" and "fst (meta_scan (preglob s) 0 False 0)"
  shows "mset (expandmeta_field E False s) = (if shown E (preglob s) = [] then {#rmescapes False s#} else mset (shown E (preglob s)))
     \<and> in_order (expandmeta_field E False s)"
  using expmeta_here [OF assms(2,3), of E] assms(1) msort_in_order by (simp add: expandmeta_field_def Let_def)

section \<open>A directory with three files\<close>

definition sample_dir :: glob_env where
  "sample_dir = \<lparr>readdir_names = (\<lambda>d. if d = ''.'' then Some [''b.c'', ''.x.c'', ''a.c''] else None),
     lstat_ok = (\<lambda>p. p \<in> set [''b.c'', ''.x.c'', ''a.c'']),
     pmatch = (\<lambda>pat s. pat = ''*.c'' \<and> drop (length s - 2) s = ''.c'')\<rparr>"

lemma sample_listing: "listing_ok sample_dir"
proof -
  have "dir @ ''/'' \<noteq> ''.''" for dir by (cases dir) auto
  then show ?thesis by (auto simp: listing_ok_def sample_dir_def)
qed

theorem expanded_paths_exist_witness:
  "expandmeta_field sample_dir False ''*.c'' = [''a.c'', ''b.c''] \<and>
   (expandmeta_field sample_dir False ''*.c'' = [rmescapes False ''*.c''] \<or>
    expandmeta_field sample_dir False ''*.c'' \<noteq> [] \<and> in_order (expandmeta_field sample_dir False ''*.c'') \<and> list_all (lstat_ok sample_dir) (expandmeta_field sample_dir False ''*.c''))"
proof
  show "expandmeta_field sample_dir False ''*.c'' = [''a.c'', ''b.c'']" by code_simp
qed (rule expanded_paths_exist [OF sample_listing])

theorem pattern_shows_names_witness:
  "mset (expandmeta_field sample_dir False ''*.c'') = {#''a.c'', ''b.c''#}"
proof -
  have h: "hasmeta ''*.c''" "CHR ''/'' \<notin> set (preglob ''*.c'')" "fst (meta_scan (preglob ''*.c'') 0 False 0)" by code_simp+
  have "shown sample_dir (preglob ''*.c'') = [''b.c'', ''a.c'']" by code_simp
  then show ?thesis using pattern_shows_names [OF h, of sample_dir] by (simp add: add_mset_commute)
qed

end
