(* ===== verification/Libbb_Num.thy ===== *)
theory Libbb_Num
  imports Libbb_Text
begin

text \<open>
  Number parsing of libbb: the family that \<open>libbb/xatonum_template.c\<close> defines for int, long and long
  long (the type is given by its maximum), the suffix tables and special cases of \<open>libbb/xatonum.c\<close>,
  and the non-dying \<open>bb_strtoull\<close> and \<open>bb_strtoll\<close> of \<open>libbb/bb_strtonum.c\<close>.
\<close>

section \<open>Definitions\<close>

text \<open>
  \<open>strtoull\<close> of the C library for a text without sign and blanks: the value (unbounded) and the rest,
  None when there is no digit of the base.
\<close>

definition strtou :: "nat \<Rightarrow> cstr \<Rightarrow> (int \<times> cstr) option" where
  "strtou base s =
     (let b = (if base = 0 then (if char_at s 0 = CHR ''0'' then 8 else 10) else base);
          hex = (base = 0 \<or> base = 16) \<and> char_at s 0 = CHR ''0'' \<and>
                (char_at s 1 = CHR ''x'' \<or> char_at s 1 = CHR ''X'') \<and> digit_val (char_at s 2) < 16
      in if hex then Some (parse_digits 16 0 (drop 2 s))
         else if s \<noteq> [] \<and> digit_val (hd s) < b then Some (parse_digits b 0 s)
         else None)"

type_synonym suffix_mult = "cstr \<times> int"

definition bkm_suffixes :: "suffix_mult list" where
  "bkm_suffixes = [(''b'', 512), (''k'', 1024), (''m'', 1048576)]"

definition cwbkMG_suffixes :: "suffix_mult list" where
  "cwbkMG_suffixes =
     [(''c'', 1), (''w'', 2), (''b'', 512), (''kB'', 1000), (''kD'', 1000), (''k'', 1024), (''KB'', 1000),
      (''KD'', 1000), (''K'', 1024), (''MB'', 1000000), (''MD'', 1000000), (''M'', 1048576),
      (''GB'', 1000000000), (''GD'', 1000000000), (''G'', 1073741824)]"

definition kmg_i_suffixes :: "suffix_mult list" where
  "kmg_i_suffixes =
     [(''KiB'', 1024), (''kiB'', 1024), (''K'', 1024), (''k'', 1024), (''MiB'', 1048576), (''miB'', 1048576),
      (''M'', 1048576), (''m'', 1048576), (''GiB'', 1073741824), (''giB'', 1073741824), (''G'', 1073741824),
      (''g'', 1073741824), (''KB'', 1000), (''MB'', 1000000), (''GB'', 1000000000)]"

text \<open>The unsigned parser; \<open>umax\<close> is the maximum of the unsigned type, every error ends the program.\<close>

definition xstrtou_range_sfx :: "int \<Rightarrow> cstr \<Rightarrow> nat \<Rightarrow> int \<Rightarrow> int \<Rightarrow> suffix_mult list \<Rightarrow> int outcome" where
  "xstrtou_range_sfx umax numstr base lower upper sfxs =
     (if char_at numstr 0 = CHR ''-'' \<or> char_at numstr 0 = CHR ''+'' \<or> isspace (char_at numstr 0) then Exits 1
      else case strtou base numstr of
        None \<Rightarrow> Exits 1
      | Some (r, e) \<Rightarrow>
          if r > umax then Exits 1
          else (case map_of sfxs e of
                  Some mult \<Rightarrow>
                    if umax div mult < r then Exits 1
                    else if lower \<le> r * mult \<and> r * mult \<le> upper then Returns (r * mult) else Exits 1
                | None \<Rightarrow>
                    if e \<noteq> [] then Exits 1
                    else if lower \<le> r \<and> r \<le> upper then Returns r else Exits 1))"

definition xatou_range :: "int \<Rightarrow> cstr \<Rightarrow> int \<Rightarrow> int \<Rightarrow> int outcome" where
  "xatou_range umax numstr lower upper = xstrtou_range_sfx umax numstr 10 lower upper []"

definition xatou_sfx :: "int \<Rightarrow> cstr \<Rightarrow> suffix_mult list \<Rightarrow> int outcome" where
  "xatou_sfx umax numstr sfxs = xstrtou_range_sfx umax numstr 10 0 umax sfxs"

definition xatou :: "int \<Rightarrow> cstr \<Rightarrow> int outcome" where
  "xatou umax numstr = xatou_sfx umax numstr []"

text \<open>The signed parser; \<open>tmax\<close> is the maximum of the signed type.\<close>

definition xstrto_range_sfx :: "int \<Rightarrow> cstr \<Rightarrow> nat \<Rightarrow> int \<Rightarrow> int \<Rightarrow> suffix_mult list \<Rightarrow> int outcome" where
  "xstrto_range_sfx tmax numstr base lower upper sfxs =
     (let signed = (char_at numstr 0 = CHR ''+'' \<or> char_at numstr 0 = CHR ''-'');
          p = (if signed then drop 1 numstr else numstr);
          u = (if signed \<and> char_at p 0 = CHR ''-'' then tmax + 1 else tmax)
      in case xstrtou_range_sfx (2 * tmax + 1) p base 0 u sfxs of
           Returns v \<Rightarrow>
             (let r = (if char_at numstr 0 = CHR ''-'' then - v else v)
              in if r < lower \<or> r > upper then Exits 1 else Returns r)
         | e \<Rightarrow> e)"

definition xato_range :: "int \<Rightarrow> cstr \<Rightarrow> int \<Rightarrow> int \<Rightarrow> int outcome" where
  "xato_range tmax numstr lower upper = xstrto_range_sfx tmax numstr 10 lower upper []"

definition xato :: "int \<Rightarrow> cstr \<Rightarrow> int outcome" where
  "xato tmax numstr = xstrto_range_sfx tmax numstr 10 (- tmax - 1) tmax []"

abbreviation INT_MAX :: int where "INT_MAX \<equiv> 2147483647"
abbreviation UINT_MAX :: int where "UINT_MAX \<equiv> 4294967295"
abbreviation ULLONG_MAX :: int where "ULLONG_MAX \<equiv> 18446744073709551615"

definition xatoi_positive :: "cstr \<Rightarrow> int outcome" where
  "xatoi_positive numstr = xatou_range UINT_MAX numstr 0 INT_MAX"

definition xatou16 :: "cstr \<Rightarrow> int outcome" where
  "xatou16 numstr = xatou_range UINT_MAX numstr 0 65535"

text \<open>The parsers that report errors through errno.\<close>

datatype num_errno = NumOk | NumEINVAL | NumERANGE

definition ret_ERANGE :: "int \<times> num_errno" where
  "ret_ERANGE = (ULLONG_MAX, NumERANGE)"

definition handle_errors :: "int \<Rightarrow> num_errno \<Rightarrow> cstr \<Rightarrow> int \<times> num_errno" where
  "handle_errors v err endp =
     (if endp \<noteq> [] then (if isalnum (hd endp) \<or> err \<noteq> NumOk then ret_ERANGE else (v, NumEINVAL)) else (v, err))"

definition strtou_errno :: "int \<Rightarrow> nat \<Rightarrow> cstr \<Rightarrow> int \<times> num_errno \<times> cstr" where
  "strtou_errno umax base s =
     (case strtou base s of
        None \<Rightarrow> (0, NumOk, s)
      | Some (v, rest) \<Rightarrow> if v > umax then (umax, NumERANGE, rest) else (v, NumOk, rest))"

definition bb_strtoull :: "cstr \<Rightarrow> nat \<Rightarrow> (int \<times> num_errno) \<times> cstr" where
  "bb_strtoull arg base =
     (if \<not> isalnum (char_at arg 0) then (ret_ERANGE, arg)
      else let (v, err, endp) = strtou_errno ULLONG_MAX base arg in (handle_errors v err endp, endp))"

text \<open>The 32-bit copy; \<open>bb_strtou\<close> is the same function where \<open>unsigned\<close> and \<open>unsigned long\<close> have the same size.\<close>

definition bb_strtoul :: "cstr \<Rightarrow> nat \<Rightarrow> (int \<times> num_errno) \<times> cstr" where
  "bb_strtoul arg base =
     (if \<not> isalnum (char_at arg 0) then (apfst (\<lambda>v. v mod 4294967296) ret_ERANGE, arg)
      else let (v, err, endp) = strtou_errno UINT_MAX base arg in (apfst (\<lambda>v. v mod 4294967296) (handle_errors v err endp), endp))"

text \<open>The value of \<open>bb_strtoll\<close> is given as a signed number; out of range it is -1, all ones.\<close>

definition bb_strtoll :: "cstr \<Rightarrow> nat \<Rightarrow> (int \<times> num_errno) \<times> cstr" where
  "bb_strtoll arg base =
     (let neg = (char_at arg 0 = CHR ''-'');
          digits = (if neg then drop 1 arg else arg);
          top_val = (if neg then 9223372036854775808 else 9223372036854775807)
      in if \<not> isalnum (char_at digits 0) then ((- 1, NumERANGE), arg)
         else let (v, err, endp) = (case strtou base digits of
                       None \<Rightarrow> (0, NumOk, arg)
                     | Some (v, rest) \<Rightarrow> if v > top_val then (top_val, NumERANGE, rest) else (v, NumOk, rest));
                  (w, err') = handle_errors v err endp
              in ((if err' = NumERANGE \<and> endp \<noteq> [] then - 1 else if neg then - v else v, err'), endp))"

section \<open>Decimal numbers\<close>

lemma digit_val_dec_hd: "digit_val (hd (dec_of_nat n)) < 10"
  using dec_of_nat_digits [of "hd (dec_of_nat n)" n] by (intro digit_val_isdigit) simp

lemma strtou_dec: "strtou 10 (dec_of_nat n) = Some (int n, [])"
proof -
  have "parse_digits 10 0 (dec_of_nat n) = (int n, [])" using parse_digits_dec [of 0 n "[]"] by simp
  then show ?thesis using digit_val_dec_hd [of n] by (simp add: strtou_def)
qed

lemma digit_no_sign: "isdigit c \<Longrightarrow> c \<noteq> CHR ''-'' \<and> c \<noteq> CHR ''+'' \<and> \<not> isspace c"
  by (auto simp: isdigit_def isspace_def ch_def)

lemma dec_of_nat_no_sign:
  "char_at (dec_of_nat n) 0 \<noteq> CHR ''-''" "char_at (dec_of_nat n) 0 \<noteq> CHR ''+''" "\<not> isspace (char_at (dec_of_nat n) 0)"
proof -
  have "char_at (dec_of_nat n) 0 = hd (dec_of_nat n)" by (simp add: char_at_def hd_conv_nth)
  then have "isdigit (char_at (dec_of_nat n) 0)" using dec_of_nat_digits [of "hd (dec_of_nat n)" n] by simp
  from digit_no_sign [OF this]
  show "char_at (dec_of_nat n) 0 \<noteq> CHR ''-''" "char_at (dec_of_nat n) 0 \<noteq> CHR ''+''" "\<not> isspace (char_at (dec_of_nat n) 0)"
    by blast+
qed

lemma xstrtou_dec:
  "0 \<le> lower \<Longrightarrow> upper \<le> umax \<Longrightarrow>
   xstrtou_range_sfx umax (dec_of_nat n) 10 lower upper [] =
     (if lower \<le> int n \<and> int n \<le> upper then Returns (int n) else Exits 1)"
  using dec_of_nat_no_sign [of n] by (simp add: xstrtou_range_sfx_def strtou_dec)

text \<open>Whatever is accepted lies in the range asked for.\<close>

lemma xstrtou_range:
  "xstrtou_range_sfx umax s base lower upper sfx = Returns v \<Longrightarrow> lower \<le> v \<and> v \<le> upper"
  by (auto simp: xstrtou_range_sfx_def split: if_splits option.splits)

lemma xstrto_range:
  "xstrto_range_sfx tmax s base lower upper sfx = Returns v \<Longrightarrow> lower \<le> v \<and> v \<le> upper"
  by (auto simp: xstrto_range_sfx_def Let_def split: if_splits outcome.splits)

lemma xatoi_positive_dec: "xatoi_positive (dec_of_nat n) = (if int n \<le> INT_MAX then Returns (int n) else Exits 1)"
  by (simp add: xatoi_positive_def xatou_range_def xstrtou_dec)

text \<open>C38: the signed parser reads back every decimal number of its type but the least one: the test for
  the minus sign that widens the bound looks at the character behind the sign, so the minimum of the
  type is rejected as out of range.\<close>

theorem xato_reads_back:
  assumes "0 \<le> tmax" and "- tmax - 1 \<le> i" and "i \<le> tmax"
  shows "xato tmax (dec_of_int i) = (if i = - tmax - 1 then Exits 1 else Returns i)"
proof (cases "i < 0")
  case True
  then have d: "dec_of_int i = CHR ''-'' # dec_of_nat (nat (- i))" by (simp add: dec_of_int_def)
  have "xstrtou_range_sfx (2 * tmax + 1) (dec_of_nat (nat (- i))) 10 0 tmax [] =
      (if - i \<le> tmax then Returns (- i) else Exits 1)"
    using True assms by (simp add: xstrtou_dec)
  then show ?thesis using True assms dec_of_nat_no_sign(1) [of "nat (- i)"]
    by (auto simp: xato_def xstrto_range_sfx_def d)
next
  case False
  then have d: "dec_of_int i = dec_of_nat (nat i)" by (simp add: dec_of_int_def)
  have "xstrtou_range_sfx (2 * tmax + 1) (dec_of_nat (nat i)) 10 0 tmax [] = Returns i"
    using False assms by (simp add: xstrtou_dec)
  then show ?thesis using False assms dec_of_nat_no_sign [of "nat i"]
    by (auto simp: xato_def xstrto_range_sfx_def d)
qed

theorem xato_reads_back_witness:
  "xato INT_MAX ''-2147483648'' = Exits 1 \<and> xato INT_MAX ''-2147483647'' = Returns (- 2147483647)"
proof -
  have d: "dec_of_int (- 2147483648) = ''-2147483648''" "dec_of_int (- 2147483647) = ''-2147483647''"
    by (simp add: dec_of_int_def dec_of_nat.simps digit_char_def, code_simp)+
  show ?thesis
    using xato_reads_back [of INT_MAX "- 2147483648"] xato_reads_back [of INT_MAX "- 2147483647"] unfolding d by simp
qed

end
