(* ===== verification/Ash_Input.thy ===== *)
theory Ash_Input
  imports Ash_Syntax Libbb_Num
begin

text \<open>
  The input of the shell's parser, \<open>shell/ash.c\<close>: a \<open>parsefile\<close> holds the characters of the current line or
  string, the two characters that may be pushed back and the strings that were pushed in front of it.
  \<open>PEOF\<close> is \<open>None\<close>.  Prompts and line numbers are not part of the state.
\<close>

section \<open>One input\<close>

record strpush =
  prev_string :: cstr              \<comment> \<open>with \<open>prev_left_in_line\<close>: the characters left\<close>
  sp_unget :: nat
  sp_lastc :: "char option \<times> char option"

record parsefile =
  next_to_pgetc :: cstr            \<comment> \<open>with \<open>left_in_line\<close>: the characters left\<close>
  unget :: nat
  lastc :: "char option \<times> char option"
  strpush :: "strpush list"

definition pushstring :: "cstr \<Rightarrow> parsefile \<Rightarrow> parsefile" where
  "pushstring s pf =
     pf\<lparr>strpush := \<lparr>prev_string = next_to_pgetc pf, sp_unget = unget pf, sp_lastc = lastc pf\<rparr> # strpush pf,
        next_to_pgetc := s, unget := 0\<rparr>"

definition popstring :: "strpush \<Rightarrow> strpush list \<Rightarrow> parsefile \<Rightarrow> parsefile" where
  "popstring sp sps pf =
     pf\<lparr>next_to_pgetc := prev_string sp, unget := sp_unget sp, lastc := sp_lastc sp, strpush := sps\<rparr>"

definition shift_lastc :: "char option \<Rightarrow> parsefile \<Rightarrow> parsefile" where
  "shift_lastc c pf = pf\<lparr>lastc := (c, fst (lastc pf))\<rparr>"

text \<open>\<open>preadbuffer\<close> for a string: a pushed string that is used up is taken off, otherwise the input is at its end.\<close>

function pgetc :: "parsefile \<Rightarrow> char option \<times> parsefile" where
  "pgetc pf =
     (if unget pf = 1 then (fst (lastc pf), pf\<lparr>unget := 0\<rparr>)
      else if unget pf > 1 then (snd (lastc pf), pf\<lparr>unget := unget pf - 1\<rparr>)
      else case next_to_pgetc pf of
             c # s \<Rightarrow> (Some c, shift_lastc (Some c) (pf\<lparr>next_to_pgetc := s\<rparr>))
           | [] \<Rightarrow>
               (case strpush pf of
                  [] \<Rightarrow> (None, shift_lastc None pf)
                | sp # sps \<Rightarrow> (let (c, pf1) = pgetc (popstring sp sps pf) in (c, shift_lastc c pf1))))"
  by pat_completeness auto
termination by (relation "measure (\<lambda>pf. length (strpush pf))") (auto simp: popstring_def)

declare pgetc.simps [simp del]

definition pungetc :: "parsefile \<Rightarrow> parsefile" where
  "pungetc pf = pf\<lparr>unget := unget pf + 1\<rparr>"

text \<open>The number of characters that can still be read; reading one takes one away.\<close>

definition avail :: "parsefile \<Rightarrow> nat" where
  "avail pf = unget pf + length (next_to_pgetc pf) + sum_list (map (\<lambda>sp. sp_unget sp + length (prev_string sp)) (strpush pf))"

lemma avail_shift [simp]: "avail (shift_lastc c pf) = avail pf"
  by (simp add: avail_def shift_lastc_def)

lemma avail_unget [simp]: "avail (pungetc pf) = avail pf + 1"
  by (simp add: avail_def pungetc_def)

lemma pgetc_avail: "pgetc pf = (c, pf') \<Longrightarrow> avail pf' \<le> avail pf \<and> (c \<noteq> None \<longrightarrow> avail pf' < avail pf)"
proof (induction pf arbitrary: c pf' rule: pgetc.induct)
  case (1 pf)
  show ?case
  proof (cases "unget pf = 0 \<and> next_to_pgetc pf = [] \<and> strpush pf \<noteq> []")
    case True
    then obtain sp sps where sp: "strpush pf = sp # sps" by (cases "strpush pf") auto
    obtain d pf1 where d: "pgetc (popstring sp sps pf) = (d, pf1)" by fastforce
    have "avail (popstring sp sps pf) = avail pf" using True sp by (simp add: avail_def popstring_def)
    moreover have "c = d" "pf' = shift_lastc d pf1" using 1(2) True sp d by (subst (asm) pgetc.simps, simp)+
    ultimately show ?thesis using 1(1) [OF _ _ _ sp d] True by auto
  next
    case False
    then show ?thesis using 1(2)
      by (subst (asm) pgetc.simps)
        (auto simp: avail_def shift_lastc_def neq_Nil_conv split: if_splits list.splits)
  qed
qed

lemma pgetc_less: "pgetc pf = (Some c, pf') \<Longrightarrow> avail pf' < avail pf"
  using pgetc_avail by blast

lemma pgetc_le: "pgetc pf = (c, pf') \<Longrightarrow> avail pf' \<le> avail pf"
  using pgetc_avail by blast

abbreviation BSL :: char where "BSL \<equiv> CHR 0x5C"
abbreviation TAB :: char where "TAB \<equiv> CHR 0x09"
abbreviation SQ :: char where "SQ \<equiv> CHR 0x27"
abbreviation DQ :: char where "DQ \<equiv> CHR 0x22"
abbreviation BQ :: char where "BQ \<equiv> CHR 0x60"

text \<open>A backslash before a newline is eaten with it.\<close>

function pgetc_eatbnl :: "parsefile \<Rightarrow> char option \<times> parsefile" where
  "pgetc_eatbnl pf =
     (case pgetc pf of
        (c, pf1) \<Rightarrow>
          if c = Some BSL then
            (case pgetc pf1 of (d, pf2) \<Rightarrow> if d = Some NL then pgetc_eatbnl pf2 else (c, pungetc pf2))
          else (c, pf1))"
  by pat_completeness auto
termination
proof (relation "measure avail", goal_cases)
  case (2 pf c pf1 d pf2)
  then show ?case using pgetc_less [of pf BSL pf1] pgetc_less [of pf1 NL pf2] by simp
qed simp

declare pgetc_eatbnl.simps [simp del]

lemma eatbnl_avail: "pgetc_eatbnl pf = (c, pf') \<Longrightarrow> avail pf' \<le> avail pf \<and> (c \<noteq> None \<and> c \<noteq> Some BSL \<longrightarrow> avail pf' < avail pf)"
proof (induction pf arbitrary: c pf' rule: pgetc_eatbnl.induct)
  case (1 pf)
  obtain d pf1 where d: "pgetc pf = (d, pf1)" by fastforce
  show ?case
  proof (cases "d = Some BSL")
    case True
    obtain e pf2 where e: "pgetc pf1 = (e, pf2)" by fastforce
    have less: "avail pf1 < avail pf" "avail pf2 \<le> avail pf1" using d e True pgetc_less pgetc_le by blast+
    show ?thesis
    proof (cases "e = Some NL")
      case nl: True
      then have "pgetc_eatbnl pf2 = (c, pf')" using 1(2) d e True by (subst (asm) pgetc_eatbnl.simps) simp
      from 1(1) [OF d [symmetric] True e [symmetric] nl this] show ?thesis using less by auto
    next
      case False
      then have "c = Some BSL" "pf' = pungetc pf2" using 1(2) d e True by (subst (asm) pgetc_eatbnl.simps, simp)+
      then show ?thesis using less by simp
    qed
  next
    case False
    then have "c = d" "pf' = pf1" using 1(2) d by (subst (asm) pgetc_eatbnl.simps, simp)+
    then show ?thesis using pgetc_avail [OF d] False by auto
  qed
qed

end
