(* ===== verification/Ash_Token.thy ===== *)
theory Ash_Token
  imports Ash_Input
begin

text \<open>
  The lexer of the shell, \<open>shell/ash.c\<close>: the parse tree, the state of the parser and \<open>readtoken\<close> with everything it
  calls.  The lexer and the grammar call each other (command substitutions, here-documents): the calls back
  into the grammar are the fields of a record that the grammar fills in.  The tree refers to the text of
  a here-document, which is read after the command, by a number.
\<close>

section \<open>The parse tree\<close>

datatype rtype = NTO | NCLOBBER | NFROM | NFROMTO | NAPPEND | NTOFD | NFROMFD | NHERE | NXHERE

datatype pnode =
    Ncmd "pword list" "pword list" "predir list"      \<comment> \<open>assignments, arguments, redirections\<close>
  | Npipe bool "pnode list"                           \<comment> \<open>in the background\<close>
  | Nredir pnode "predir list"
  | Nbackgnd pnode "predir list"
  | Nsubshell pnode "predir list"
  | Nand pnode pnode
  | Nor pnode pnode
  | Nsemi pnode pnode
  | Nif pnode pnode "pnode option"
  | Nwhile pnode pnode
  | Nuntil pnode pnode
  | Nfor cstr "pword list" pnode
  | Ncase pword "(pword list \<times> pnode option) list"
  | Ndefun cstr pnode
  | Nnot pnode
and pword = Narg cstr "pnode option list"             \<comment> \<open>text and commands in backquotes\<close>
and predir =
    Nfile rtype int pword
  | Ndup rtype int int "pword option"
  | Nhere rtype int nat

datatype token =
    TEOF | TNL | TREDIR | TWORD | TSEMI | TBACKGND | TAND | TOR | TPIPE | TLP | TRP | TENDCASE | TENDBQUOTE
  | TNOT | TCASE | TDO | TDONE | TELIF | TELSE | TESAC | TFI | TFOR | TIF | TIN | TTHEN | TUNTIL | TWHILE | TBEGIN | TEND

definition tokendlist :: "token set" where
  "tokendlist = {TEOF, TRP, TENDCASE, TENDBQUOTE, TDO, TDONE, TELIF, TELSE, TESAC, TFI, TTHEN, TEND}"

definition findkwd :: "cstr \<Rightarrow> token option" where
  "findkwd = map_of
     [(''!'', TNOT), (''case'', TCASE), (''do'', TDO), (''done'', TDONE), (''elif'', TELIF), (''else'', TELSE),
      (''esac'', TESAC), (''fi'', TFI), (''for'', TFOR), (''if'', TIF), (''in'', TIN), (''then'', TTHEN),
      (''until'', TUNTIL), (''while'', TWHILE), (''{'', TBEGIN), (''}'', TEND)]"

section \<open>The state of the parser\<close>

datatype chk = CHKALIAS | CHKKWD | CHKNL | CHKEOFMARK

record heredoc =
  here :: nat
  eofmark :: cstr
  striptabs :: bool
  here_type :: rtype

record rnode =
  rn_type :: rtype
  rn_fd :: int
  rn_here :: nat

record pstate =
  g_parsefile :: parsefile
  prev_files :: "parsefile list"
  tokpushback :: bool
  quoteflag :: bool
  lasttoken :: token
  wordtext :: cstr
  backquotelist :: "pnode option list"
  redirnode :: rnode
  heredoc_new :: heredoc
  heredoclist :: "heredoc list"
  checkkwd :: "chk set"
  here_count :: nat
  here_docs :: "(nat \<times> pword) list"

datatype perror =
    Unexpected token "token option"
  | MissingParens | UnterminatedQuote | MissingBrace | EofInBackquote
  | BadFunctionName | BadForVariable
  | NullNode | ParserFuel

type_synonym 'a parser = "pstate \<Rightarrow> perror + 'a \<times> pstate"

definition pret :: "'a \<Rightarrow> 'a parser" where
  "pret x st = Inr (x, st)"

definition pfail :: "perror \<Rightarrow> 'a parser" where
  "pfail e st = Inl e"

definition pbind :: "'a parser \<Rightarrow> ('a \<Rightarrow> 'b parser) \<Rightarrow> 'b parser" where
  "pbind m f st = (case m st of Inl e \<Rightarrow> Inl e | Inr (x, st1) \<Rightarrow> f x st1)"

definition pread :: "(pstate \<Rightarrow> 'a) \<Rightarrow> 'a parser" where
  "pread f st = Inr (f st, st)"

definition pset :: "(pstate \<Rightarrow> pstate) \<Rightarrow> unit parser" where
  "pset f st = Inr ((), f st)"

definition on_file :: "(parsefile \<Rightarrow> 'a \<times> parsefile) \<Rightarrow> 'a parser" where
  "on_file f st = (case f (g_parsefile st) of (x, pf) \<Rightarrow> Inr (x, st\<lparr>g_parsefile := pf\<rparr>))"

definition unread :: "unit parser" where
  "unread = pset (\<lambda>st. st\<lparr>g_parsefile := pungetc (g_parsefile st)\<rparr>)"

definition raise_error_unexpected_syntax :: "token option \<Rightarrow> 'a parser" where
  "raise_error_unexpected_syntax t st = Inl (Unexpected (lasttoken st) t)"

definition setinputstring :: "cstr \<Rightarrow> unit parser" where
  "setinputstring s = pset (\<lambda>st. st\<lparr>prev_files := g_parsefile st # prev_files st,
     g_parsefile := \<lparr>next_to_pgetc = s, unget = 0, lastc = (Some NUL, Some NUL), strpush = []\<rparr>\<rparr>)"

definition popfile :: "unit parser" where
  "popfile = pset (\<lambda>st. case prev_files st of [] \<Rightarrow> st | pf # pfs \<Rightarrow> st\<lparr>g_parsefile := pf, prev_files := pfs\<rparr>)"

section \<open>Words\<close>

abbreviation CTLVAR :: char where "CTLVAR \<equiv> CHR 0x82"
abbreviation CTLENDVAR :: char where "CTLENDVAR \<equiv> CHR 0x83"
abbreviation CTLBACKQ :: char where "CTLBACKQ \<equiv> CHR 0x84"
abbreviation CTLARI :: char where "CTLARI \<equiv> CHR 0x86"
abbreviation CTLENDARI :: char where "CTLENDARI \<equiv> CHR 0x87"

record synstack =
  sy_syntax :: syntax_id
  innerdq :: bool
  varpushed :: bool
  dblquote :: bool
  varnest :: nat
  dqvarnest :: nat
  parenlevel :: nat

definition new_syntax :: "syntax_id \<Rightarrow> synstack" where
  "new_syntax syn = \<lparr>sy_syntax = syn, innerdq = False, varpushed = False, dblquote = False, varnest = 0, dqvarnest = 0, parenlevel = 0\<rparr>"

datatype eof_mark = NoMark | FakeMark | Mark cstr

text \<open>The local variables of \<open>readtoken1\<close>; the stack of syntaxes is its top and the rest.\<close>

record rt1 =
  r_c :: "char option"
  r_out :: cstr
  r_bqlist :: "pnode option list"
  r_quotef :: bool
  r_syn :: synstack
  r_syns :: "synstack list"

record grammar =
  g_list :: "nat \<Rightarrow> pnode option parser"
  g_command :: "pnode parser"
  g_readtoken :: "token parser"
  g_parseheredoc :: "unit parser"

definition emit :: "cstr \<Rightarrow> rt1 \<Rightarrow> rt1" where
  "emit s l = l\<lparr>r_out := r_out l @ s\<rparr>"

definition emit_c :: "rt1 \<Rightarrow> rt1" where
  "emit_c l = emit (case r_c l of None \<Rightarrow> [] | Some x \<Rightarrow> [x]) l"

definition on_syn :: "(synstack \<Rightarrow> synstack) \<Rightarrow> rt1 \<Rightarrow> rt1" where
  "on_syn f l = l\<lparr>r_syn := f (r_syn l)\<rparr>"

definition synstack_push :: "synstack \<Rightarrow> rt1 \<Rightarrow> rt1" where
  "synstack_push s l = l\<lparr>r_syns := r_syn l # r_syns l, r_syn := s\<rparr>"

definition synstack_pop :: "rt1 \<Rightarrow> rt1 parser" where
  "synstack_pop l = (case r_syns l of [] \<Rightarrow> pfail NullNode | s # ss \<Rightarrow> pret (l\<lparr>r_syn := s, r_syns := ss\<rparr>))"

definition sit :: "char option \<Rightarrow> syntax_id \<Rightarrow> syn_class" where
  "sit c syn = SIT (case c of None \<Rightarrow> PEOF | Some x \<Rightarrow> of_char x) syn"

definition pgetc_top :: "synstack \<Rightarrow> parsefile \<Rightarrow> char option \<times> parsefile" where
  "pgetc_top s = (if sy_syntax s = SQSYNTAX then pgetc else pgetc_eatbnl)"

definition c_is :: "(char \<Rightarrow> bool) \<Rightarrow> char option \<Rightarrow> bool" where
  "c_is P c = (case c of None \<Rightarrow> False | Some x \<Rightarrow> P x)"

definition is_special :: "char \<Rightarrow> bool" where
  "is_special c \<longleftrightarrow> c \<in> set ''!#$*-0123456789?@''"

subsection \<open>Parameter substitutions\<close>

text \<open>The characters of a name: the ones that satisfy a test, the character behind them and the input.\<close>

function read_name :: "(char \<Rightarrow> bool) \<Rightarrow> parsefile \<Rightarrow> cstr \<times> char option \<times> parsefile" where
  "read_name P pf =
     (case pgetc_eatbnl pf of
        (c, pf1) \<Rightarrow>
          (case c of
             None \<Rightarrow> ([], None, pf1)
           | Some x \<Rightarrow> if P x \<and> x \<noteq> BSL then (case read_name P pf1 of (s, r) \<Rightarrow> (x # s, r)) else ([], c, pf1)))"
  by pat_completeness auto
termination
proof (relation "measure (\<lambda>(P, pf). avail pf)", goal_cases)
  case (2 P pf c pf1 x)
  then show ?case using eatbnl_avail [of pf "Some x" pf1] by auto
qed simp

declare read_name.simps [simp del]

text \<open>The codes of the kinds of substitution.\<close>

abbreviation VSNORMAL :: nat where "VSNORMAL \<equiv> 1"
abbreviation VSLENGTH :: nat where "VSLENGTH \<equiv> 10"
abbreviation VSNUL :: nat where "VSNUL \<equiv> 16"
abbreviation vstrimright :: nat where "vstrimright \<equiv> 6"
abbreviation vstrimleft :: nat where "vstrimleft \<equiv> 8"

text \<open>
  From the label \<open>varname\<close> on: the name, the kind, the character behind the name, and whether the name is bad.
  The jump back happens once, behind \<open>${#\<close>.
\<close>

definition var_digits :: "nat \<Rightarrow> char \<Rightarrow> bool" where
  "var_digits subtype x \<longleftrightarrow> (subtype = 0 \<or> subtype = VSLENGTH) \<and> isdigit x"

definition varname_plain :: "nat \<Rightarrow> char \<Rightarrow> parsefile \<Rightarrow> (cstr \<times> nat \<times> char option \<times> bool) \<times> parsefile" where
  "varname_plain subtype x pf =
     (case read_name (if is_name x then is_in_name else var_digits subtype) pf of
        (s, c, pf1) \<Rightarrow> ((x # s, subtype, c, False), pf1))"

definition varname_special :: "nat \<Rightarrow> char option \<Rightarrow> char option \<Rightarrow> parsefile \<Rightarrow> (cstr \<times> nat \<times> char option \<times> bool) \<times> parsefile" where
  "varname_special subtype cc c pf =
     (case cc of
        Some x \<Rightarrow> if is_special x then (([x], subtype, c, False), pf) else (([], if subtype = VSLENGTH then 0 else subtype, c, True), pf)
      | None \<Rightarrow> (([], if subtype = VSLENGTH then 0 else subtype, c, True), pf))"

definition varname :: "nat \<Rightarrow> char option \<Rightarrow> parsefile \<Rightarrow> (cstr \<times> nat \<times> char option \<times> bool) \<times> parsefile" where
  "varname subtype c pf =
     (if c_is (\<lambda>x. is_name x \<or> isdigit x) c then varname_plain subtype (the c) pf
      else if c = Some (CHR ''}'') then (([], subtype, c, True), pf)
      else case pgetc_eatbnl pf of
             (d, pf1) \<Rightarrow>
               if subtype = 0 \<and> c = Some (CHR ''#'') then
                 (if c_is is_in_name d then varname_plain VSLENGTH (the d) pf1
                  else case pgetc_eatbnl pf1 of
                         (e, pf2) \<Rightarrow>
                           if d = Some (CHR ''}'') \<or> e \<noteq> Some (CHR ''}'') then varname_special 0 (Some (CHR ''#'')) d (pungetc pf2)
                           else varname_special VSLENGTH d e pf2)
               else varname_special subtype c d pf1)"

text \<open>\<open>strchr(types, c)\<close>; the end of the input is found at the terminating NUL.\<close>

definition types_index :: "char option \<Rightarrow> nat option" where
  "types_index c =
     (case c of None \<Rightarrow> Some 5
      | Some x \<Rightarrow> map_of [(CHR ''}'', 0), (CHR ''-'', 1), (CHR ''+'', 2), (CHR ''?'', 3), (CHR ''='', 4)] x)"

definition with_type :: "nat \<Rightarrow> char option \<Rightarrow> nat" where
  "with_type subtype c = (case types_index c of None \<Rightarrow> subtype | Some i \<Rightarrow> subtype + (i + VSNORMAL))"

text \<open>The operator behind the name: the kind, and whether the word behind it is read unquoted.\<close>

definition var_operator :: "char option \<Rightarrow> parsefile \<Rightarrow> (nat \<times> bool) \<times> parsefile" where
  "var_operator c pf =
     (if c = Some (CHR '':'') then (case pgetc_eatbnl pf of (d, pf1) \<Rightarrow> ((with_type VSNUL d, False), pf1))
      else if c = Some (CHR ''%'') \<or> c = Some (CHR ''#'') then
        (let sub = (if c = Some (CHR ''#'') then vstrimleft else vstrimright)
         in case pgetc_eatbnl pf of (d, pf1) \<Rightarrow> if d = c then ((sub + 1, True), pf1) else ((sub, True), pungetc pf1))
      else ((with_type 0 c, False), pf))"

text \<open>A substitution behind the dollar sign and, if any, the brace: its name, its kind and the flag of \<open>var_operator\<close>.\<close>

definition var_sub :: "bool \<Rightarrow> char option \<Rightarrow> parsefile \<Rightarrow> (cstr \<times> nat \<times> bool) \<times> parsefile" where
  "var_sub brace c pf =
     (case (if brace then pgetc_eatbnl pf else (c, pf)) of
        (c1, pf1) \<Rightarrow>
          case varname (if brace then 0 else VSNORMAL) c1 pf1 of
            ((name, subtype, d, bad), pf2) \<Rightarrow>
              if bad then ((name, subtype, False), pungetc pf2)
              else if subtype = 0 then (case var_operator d pf2 of ((sub, base), pf3) \<Rightarrow> ((name, sub, base), pf3))
              else ((name, if subtype = VSLENGTH \<and> d \<noteq> Some (CHR ''}'') then 0 else subtype, False), pungetc pf2))"

definition enter_var :: "nat \<Rightarrow> bool \<Rightarrow> rt1 \<Rightarrow> rt1" where
  "enter_var subtype base l =
     (let syn = sy_syntax (r_syn l);
          newsyn = (if base then BASESYNTAX else if syn = ARISYNTAX then DQSYNTAX else syn);
          l1 = (if (newsyn \<noteq> syn \<or> innerdq (r_syn l)) \<and> subtype \<noteq> VSNORMAL
                then synstack_push ((new_syntax newsyn)\<lparr>varpushed := True, dblquote := newsyn \<noteq> BASESYNTAX\<rparr>) l else l)
      in if subtype \<noteq> VSNORMAL
         then on_syn (\<lambda>s. s\<lparr>varnest := varnest s + 1, dqvarnest := dqvarnest s + (if dblquote s then 1 else 0)\<rparr>) l1 else l1)"

subsection \<open>Command substitutions\<close>

text \<open>The text of an old-style substitution up to the closing backquote; None is the end of the input.\<close>

function read_backq :: "bool \<Rightarrow> parsefile \<Rightarrow> (cstr \<times> parsefile) option" where
  "read_backq dq pf =
     (case pgetc_eatbnl pf of
        (c, pf1) \<Rightarrow>
          (case c of
             None \<Rightarrow> None
           | Some x \<Rightarrow>
               if x = BQ then Some ([], pf1)
               else if x = BSL then
                 (case pgetc pf1 of
                    (None, pf2) \<Rightarrow> None
                  | (Some y, pf2) \<Rightarrow>
                      map_option (apfst (append ((if y \<noteq> BSL \<and> y \<noteq> BQ \<and> y \<noteq> CHR ''$'' \<and> (\<not> dq \<or> y \<noteq> DQ) then [BSL] else []) @ [y])))
                        (read_backq dq pf2))
               else map_option (apfst (append [x])) (read_backq dq pf1)))"
  by pat_completeness auto
termination
proof (relation "measure (\<lambda>(dq, pf). avail pf)", goal_cases)
  case (2 dq pf c pf1 x d pf2 y)
  then show ?case using eatbnl_avail [of pf c pf1] pgetc_less [of pf1 y pf2] by (metis dual_order.strict_trans1 in_measure old.prod.case)
next
  case (3 dq pf c pf1 x)
  then show ?case using eatbnl_avail [of pf c pf1] by auto
qed simp

declare read_backq.simps [simp del]

definition parsebackq :: "grammar \<Rightarrow> bool \<Rightarrow> rt1 \<Rightarrow> rt1 parser" where
  "parsebackq G old l =
     pbind (if old then
              pbind (pread g_parsefile) (\<lambda>pf. case read_backq (dblquote (r_syn l)) pf of
                None \<Rightarrow> pfail EofInBackquote
              | Some (s, pf1) \<Rightarrow> pbind (pset (\<lambda>st. st\<lparr>g_parsefile := pf1\<rparr>)) (\<lambda>_. setinputstring s))
            else pret ()) (\<lambda>_.
     pbind (pread heredoclist) (\<lambda>saved.
     pbind (pset (\<lambda>st. st\<lparr>heredoclist := []\<rparr>)) (\<lambda>_.
     pbind (g_list G 2) (\<lambda>n.
     pbind (if old then pret ()
            else pbind (g_readtoken G) (\<lambda>t. if t \<noteq> TRP then raise_error_unexpected_syntax (Some TRP) else setinputstring [])) (\<lambda>_.
     pbind (g_parseheredoc G) (\<lambda>_.
     pbind (pset (\<lambda>st. st\<lparr>heredoclist := saved\<rparr>)) (\<lambda>_.
     pbind popfile (\<lambda>_.
     pbind (if old then pset (\<lambda>st. st\<lparr>tokpushback := False\<rparr>) else pret ()) (\<lambda>_.
     pret (emit [CTLBACKQ] (l\<lparr>r_bqlist := r_bqlist l @ [n]\<rparr>)))))))))))"

definition parsearith :: "rt1 \<Rightarrow> rt1" where
  "parsearith l = emit [CTLARI] (synstack_push ((new_syntax ARISYNTAX)\<lparr>dblquote := True\<rparr>) l)"

definition parsesub :: "grammar \<Rightarrow> rt1 \<Rightarrow> rt1 parser" where
  "parsesub G l =
     pbind (on_file pgetc_eatbnl) (\<lambda>c.
     pbind (pread checkkwd) (\<lambda>kwd.
       if CHKEOFMARK \<in> kwd \<or> \<not> c_is (\<lambda>x. x = CHR ''('' \<or> x = CHR ''{'' \<or> is_name x \<or> is_special x) c
       then pbind unread (\<lambda>_. pret (emit ''$'' l))
       else if c = Some (CHR ''('') then
         pbind (on_file pgetc_eatbnl) (\<lambda>d.
           if d = Some (CHR ''('') then pret (parsearith l)
           else pbind unread (\<lambda>_. parsebackq G False l))
       else
         pbind (on_file (var_sub (c = Some (CHR ''{'')) c)) (\<lambda>(name, subtype, base).
           pret (emit ''='' (enter_var subtype base (emit ([CTLVAR, char_of subtype] @ name) l))))))"

subsection \<open>The end of a here-document\<close>

function skip_tabs :: "char option \<Rightarrow> parsefile \<Rightarrow> char option \<times> parsefile" where
  "skip_tabs c pf = (if c = Some TAB then (case pgetc pf of (None, pf1) \<Rightarrow> (None, pf1) | (Some d, pf1) \<Rightarrow> skip_tabs (Some d) pf1) else (c, pf))"
  by pat_completeness auto
termination
proof (relation "measure (\<lambda>(c, pf). avail pf)", goal_cases)
  case (2 c pf d pf1 x)
  then have "pgetc pf = (Some x, pf1)" by simp
  then show ?case unfolding in_measure prod.case by (rule pgetc_less)
qed simp

declare skip_tabs.simps [simp del]

text \<open>The comparison of a line with the mark: whether it matches, the characters read, the last one and the input.\<close>

fun match_mark :: "cstr \<Rightarrow> char option \<Rightarrow> char option list \<Rightarrow> parsefile \<Rightarrow> bool \<times> char option list \<times> char option \<times> parsefile" where
  "match_mark [] c put pf = (True, put @ [c], c, pf)"
| "match_mark (m # ms) c put pf =
     (if c \<noteq> Some m then (False, put @ [c], c, pf)
      else case pgetc pf of (d, pf1) \<Rightarrow> match_mark ms d (put @ [c]) pf1)"

definition checkend :: "eof_mark \<Rightarrow> bool \<Rightarrow> char option \<Rightarrow> parsefile \<Rightarrow> char option \<times> parsefile" where
  "checkend mark strip c pf =
     (case mark of
        Mark m \<Rightarrow>
          (case (if strip then skip_tabs c pf else (c, pf)) of
             (c1, pf1) \<Rightarrow>
               (case match_mark m c1 [] pf1 of
                  (matched, put, c2, pf2) \<Rightarrow>
                    if matched \<and> (c2 = Some NL \<or> c2 = None) then (None, pf2)
                    else if length put \<le> 1 then (c2, pf2)
                    else let s = List.map_filter id (tl put)
                         in (hd put, if s = [] then pf2 else pushstring s pf2)))
      | _ \<Rightarrow> (c, pf))"

subsection \<open>One character of a word\<close>

datatype rt1_next = NextLine | NextChar | EndWord

definition next_char :: "rt1_next \<Rightarrow> rt1 \<Rightarrow> (rt1_next \<times> rt1) parser" where
  "next_char k l = pbind (on_file (pgetc_top (r_syn l))) (\<lambda>c. pret (k, l\<lparr>r_c := c\<rparr>))"

definition quotemark :: "eof_mark \<Rightarrow> rt1 \<Rightarrow> rt1" where
  "quotemark mark l = (if mark = NoMark then emit [CTLQUOTEMARK] l else l)"

definition toggledq :: "eof_mark \<Rightarrow> rt1 \<Rightarrow> rt1" where
  "toggledq mark l =
     quotemark mark (if varnest (r_syn l) \<noteq> 0 then on_syn (\<lambda>s. s\<lparr>innerdq := \<not> innerdq s\<rparr>) l else l)"

definition rt1_back :: "eof_mark \<Rightarrow> rt1 \<Rightarrow> rt1 parser" where
  "rt1_back mark l =
     pbind (on_file pgetc) (\<lambda>c. case c of
       None \<Rightarrow> pbind unread (\<lambda>_. pret (emit [CTLESC, BSL] l))
     | Some x \<Rightarrow>
         let s = r_syn l;
             keep = (dblquote s \<and> x \<noteq> BSL \<and> x \<noteq> BQ \<and> x \<noteq> CHR ''$'' \<and> (x \<noteq> DQ \<or> mark \<noteq> NoMark \<and> varnest s = 0) \<and>
                     (x \<noteq> CHR ''}'' \<or> varnest s = 0))
         in pret (emit ((if keep then [CTLESC, BSL] else []) @ [CTLESC, x]) l\<lparr>r_quotef := True\<rparr>))"

definition rt1_endquote :: "eof_mark \<Rightarrow> rt1 \<Rightarrow> rt1" where
  "rt1_endquote mark l =
     (if mark \<noteq> NoMark \<and> varnest (r_syn l) = 0 then emit_c l
      else let l1 = (if dqvarnest (r_syn l) = 0 then on_syn (\<lambda>s. s\<lparr>sy_syntax := BASESYNTAX, dblquote := False\<rparr>) l else l)\<lparr>r_quotef := True\<rparr>
           in if r_c l = Some DQ then toggledq mark l1 else quotemark mark l1)"

definition rt1_endvar :: "rt1 \<Rightarrow> rt1 parser" where
  "rt1_endvar l =
     (let s = r_syn l
      in if \<not> innerdq s \<and> varnest s > 0 then
           pbind (if varnest s = 1 \<and> varpushed s then synstack_pop l
                  else pret (on_syn (\<lambda>s. s\<lparr>varnest := varnest s - 1, dqvarnest := dqvarnest s - 1\<rparr>) l))
             (\<lambda>l1. pret (emit [CTLENDVAR] l1))
         else pret (emit_c l))"

definition rt1_rparen :: "rt1 \<Rightarrow> rt1 parser" where
  "rt1_rparen l =
     (if parenlevel (r_syn l) > 0 then pret (emit_c (on_syn (\<lambda>s. s\<lparr>parenlevel := parenlevel s - 1\<rparr>) l))
      else pbind (on_file pgetc_eatbnl) (\<lambda>c.
             if c = Some (CHR '')'') then pbind (synstack_pop l) (\<lambda>l1. pret (emit [CTLENDARI] l1))
             else pbind unread (\<lambda>_. pret (emit_c l))))"

definition rt1_backq :: "grammar \<Rightarrow> rt1 \<Rightarrow> rt1 parser" where
  "rt1_backq G l =
     pbind (pread checkkwd) (\<lambda>kwd.
       if CHKEOFMARK \<in> kwd then pret (emit [BQ] (l\<lparr>r_quotef := True\<rparr>)) else parsebackq G True l)"

definition rt1_step :: "grammar \<Rightarrow> eof_mark \<Rightarrow> rt1 \<Rightarrow> (rt1_next \<times> rt1) parser" where
  "rt1_step G mark l =
     (let s = r_syn l
      in case sit (r_c l) (sy_syntax s) of
           CNL \<Rightarrow> if sy_syntax s = BASESYNTAX \<and> varnest s = 0 then pret (EndWord, l) else next_char NextLine (emit_c l)
         | CWORD \<Rightarrow> next_char NextChar (emit_c l)
         | CCTL \<Rightarrow> next_char NextChar (emit_c (if mark = NoMark \<or> dblquote s \<or> varnest s \<noteq> 0 then emit [CTLESC] l else l))
         | CBACK \<Rightarrow> pbind (rt1_back mark l) (next_char NextChar)
         | CSQUOTE \<Rightarrow> next_char NextChar (quotemark mark (on_syn (\<lambda>s. s\<lparr>sy_syntax := SQSYNTAX\<rparr>) l))
         | CDQUOTE \<Rightarrow> next_char NextChar (toggledq mark (on_syn (\<lambda>s. s\<lparr>sy_syntax := DQSYNTAX, dblquote := True\<rparr>) l))
         | CENDQUOTE \<Rightarrow> next_char NextChar (rt1_endquote mark l)
         | CVAR \<Rightarrow> pbind (parsesub G l) (next_char NextChar)
         | CENDVAR \<Rightarrow> pbind (rt1_endvar l) (next_char NextChar)
         | CLP \<Rightarrow> next_char NextChar (emit_c (on_syn (\<lambda>s. s\<lparr>parenlevel := parenlevel s + 1\<rparr>) l))
         | CRP \<Rightarrow> pbind (rt1_rparen l) (next_char NextChar)
         | CBQUOTE \<Rightarrow> pbind (rt1_backq G l) (next_char NextChar)
         | CENDFILE \<Rightarrow> pret (EndWord, l)
         | CSPCL \<Rightarrow> if varnest s = 0 then pret (EndWord, l) else next_char NextChar (emit_c l))"

text \<open>The loop up to the end of the word or document; its bound counts the characters.\<close>

primrec rt1_loop :: "nat \<Rightarrow> grammar \<Rightarrow> eof_mark \<Rightarrow> bool \<Rightarrow> rt1 \<Rightarrow> rt1 parser" where
  "rt1_loop 0 G mark strip l = pfail ParserFuel"
| "rt1_loop (Suc k) G mark strip l =
     pbind (rt1_step G mark l) (\<lambda>(what, l1).
       case what of
         EndWord \<Rightarrow> pret l1
       | NextChar \<Rightarrow> rt1_loop k G mark strip l1
       | NextLine \<Rightarrow> pbind (on_file (checkend mark strip (r_c l1))) (\<lambda>c. rt1_loop k G mark strip (l1\<lparr>r_c := c\<rparr>)))"

subsection \<open>Redirections\<close>

definition isdigit_str9 :: "cstr \<Rightarrow> bool" where
  "isdigit_str9 s \<longleftrightarrow> length s \<le> 9 \<and> (\<forall>c\<in>set s. isdigit c)"

text \<open>The operator: its type, and for a here-document whether tabs are stripped.\<close>

definition redir_operator :: "char option \<Rightarrow> parsefile \<Rightarrow> (rtype \<times> bool) \<times> parsefile" where
  "redir_operator c pf =
     (case pgetc_eatbnl pf of
        (d, pf1) \<Rightarrow>
          if c = Some (CHR ''>'') then
            (if d = Some (CHR ''>'') then ((NAPPEND, False), pf1)
             else if d = Some (CHR ''|'') then ((NCLOBBER, False), pf1)
             else if d = Some (CHR ''&'') then ((NTOFD, False), pf1)
             else ((NTO, False), pungetc pf1))
          else
            (if d = Some (CHR ''<'') then
               (case pgetc_eatbnl pf1 of
                  (e, pf2) \<Rightarrow> if e = Some (CHR ''-'') then ((NHERE, True), pf2) else ((NHERE, False), pungetc pf2))
             else if d = Some (CHR ''&'') then ((NFROMFD, False), pf1)
             else if d = Some (CHR ''>'') then ((NFROMTO, False), pf1)
             else ((NFROM, False), pungetc pf1)))"

definition parseredir :: "cstr \<Rightarrow> char option \<Rightarrow> unit parser" where
  "parseredir digits c =
     pbind (on_file (redir_operator c)) (\<lambda>(ty, strip).
       let fd = (if digits = [] then (if c = Some (CHR ''>'') then 1 else 0) else fst (parse_digits 10 0 digits))
       in if ty = NHERE
          then pset (\<lambda>st. st\<lparr>redirnode := \<lparr>rn_type = ty, rn_fd = fd, rn_here = here_count st\<rparr>,
                             heredoc_new := \<lparr>here = here_count st, eofmark = [], striptabs = strip, here_type = NHERE\<rparr>,
                             here_count := here_count st + 1\<rparr>)
          else pset (\<lambda>st. st\<lparr>redirnode := \<lparr>rn_type = ty, rn_fd = fd, rn_here = 0\<rparr>\<rparr>))"

subsection \<open>Words and here-documents\<close>

definition rt1_end :: "eof_mark \<Rightarrow> rt1 \<Rightarrow> token parser" where
  "rt1_end mark l =
     (let s = r_syn l; c = r_c l; out = r_out l
      in if sy_syntax s = ARISYNTAX then pfail MissingParens
         else if sy_syntax s \<noteq> BASESYNTAX \<and> mark = NoMark then pfail UnterminatedQuote
         else if varnest s \<noteq> 0 then pfail MissingBrace
         else if mark = NoMark \<and> (c = Some (CHR ''>'') \<or> c = Some (CHR ''<'')) \<and> \<not> r_quotef l \<and> isdigit_str9 out
         then pbind (parseredir out c) (\<lambda>_. pbind (pset (\<lambda>st. st\<lparr>lasttoken := TREDIR\<rparr>)) (\<lambda>_. pret TREDIR))
         else pbind (if mark = NoMark then unread else pret ()) (\<lambda>_.
              pbind (pset (\<lambda>st. st\<lparr>quoteflag := r_quotef l, backquotelist := r_bqlist l, wordtext := out, lasttoken := TWORD\<rparr>)) (\<lambda>_.
              pret TWORD)))"

definition rt1_start :: "syntax_id \<Rightarrow> char option \<Rightarrow> rt1" where
  "rt1_start syn c =
     \<lparr>r_c = c, r_out = [], r_bqlist = [], r_quotef = False, r_syn = (new_syntax syn)\<lparr>dblquote := syn = DQSYNTAX\<rparr>, r_syns = []\<rparr>"

definition readtoken1 :: "nat \<Rightarrow> grammar \<Rightarrow> char option \<Rightarrow> syntax_id \<Rightarrow> eof_mark \<Rightarrow> bool \<Rightarrow> token parser" where
  "readtoken1 k G c syn mark strip =
     pbind (on_file (checkend mark strip c)) (\<lambda>c1.
     pbind (rt1_loop k G mark strip (rt1_start syn c1)) (rt1_end mark))"

section \<open>Tokens\<close>

text \<open>A comment: the character at its end.\<close>

function skip_comment :: "parsefile \<Rightarrow> char option \<times> parsefile" where
  "skip_comment pf = (case pgetc pf of (c, pf1) \<Rightarrow> if c = Some NL \<or> c = None then (c, pf1) else skip_comment pf1)"
  by pat_completeness auto
termination
proof (relation "measure avail", goal_cases)
  case (2 pf c pf1)
  then show ?case using pgetc_avail [of pf c pf1] by auto
qed simp

declare skip_comment.simps [simp del]

lemma skip_comment_avail: "skip_comment pf = (c, pf') \<Longrightarrow> c \<noteq> None \<Longrightarrow> avail pf' < avail pf"
proof (induction pf rule: skip_comment.induct)
  case (1 pf)
  obtain d pf1 where d: "pgetc pf = (d, pf1)" by fastforce
  show ?case
  proof (cases "d = Some NL \<or> d = None")
    case True
    then show ?thesis using 1(2,3) d pgetc_avail [OF d] by (subst (asm) skip_comment.simps) auto
  next
    case False
    then have "skip_comment pf1 = (c, pf')" using 1(2) d by (subst (asm) skip_comment.simps) auto
    from 1(1) [OF d [symmetric] False this 1(3)] show ?thesis using pgetc_le [OF d] by simp
  qed
qed

text \<open>
  Blanks and comments before a token: the first character behind them.  A comment that ends with the input is
  followed by the end of the input.
\<close>

function token_start :: "parsefile \<Rightarrow> char option \<times> parsefile" where
  "token_start pf =
     (case pgetc_eatbnl pf of
        (c, pf1) \<Rightarrow>
          if c = Some SP \<or> c = Some TAB then token_start pf1
          else if c = Some (CHR ''#'') then
            (case skip_comment pf1 of
               (d, pf2) \<Rightarrow> if d = None then pgetc_eatbnl (pungetc pf2) else token_start (pungetc pf2))
          else (c, pf1))"
  by pat_completeness auto
termination
proof (relation "measure avail", goal_cases)
  case (2 pf c pf1)
  then show ?case using eatbnl_avail [of pf c pf1] by auto
next
  case (3 pf c pf1 d pf2)
  then show ?case using eatbnl_avail [of pf c pf1] skip_comment_avail [of pf1 d pf2] by auto
qed simp

declare token_start.simps [simp del]

text \<open>The operators: a single character, or the same character twice.\<close>

definition single_token :: "char \<Rightarrow> token option" where
  "single_token = map_of
     [(NL, TNL), (CHR ''('', TLP), (CHR '')'', TRP), (CHR ''&'', TBACKGND), (CHR ''|'', TPIPE), (CHR '';'', TSEMI)]"

definition double_token :: "char \<Rightarrow> token option" where
  "double_token = map_of [(CHR ''&'', TAND), (CHR ''|'', TOR), (CHR '';'', TENDCASE)]"

definition set_token :: "token \<Rightarrow> token parser" where
  "set_token t = pbind (pset (\<lambda>st. st\<lparr>lasttoken := t\<rparr>)) (\<lambda>_. pret t)"

definition xxreadtoken :: "nat \<Rightarrow> grammar \<Rightarrow> token parser" where
  "xxreadtoken k G =
     pbind (pread tokpushback) (\<lambda>pushed.
       if pushed then pbind (pset (\<lambda>st. st\<lparr>tokpushback := False\<rparr>)) (\<lambda>_. pread lasttoken)
       else pbind (on_file token_start) (\<lambda>c.
         case c of
           None \<Rightarrow> set_token TEOF
         | Some x \<Rightarrow>
             (case single_token x of
                None \<Rightarrow> readtoken1 k G c BASESYNTAX NoMark False
              | Some t \<Rightarrow>
                  (case double_token x of
                     None \<Rightarrow> set_token t
                   | Some t2 \<Rightarrow>
                       pbind (on_file pgetc_eatbnl) (\<lambda>d.
                         if d = c then set_token t2 else pbind unread (\<lambda>_. set_token t))))))"

text \<open>Newlines before a token, with the here-documents that begin behind each; the bound counts them.\<close>

primrec eat_newlines :: "nat \<Rightarrow> nat \<Rightarrow> grammar \<Rightarrow> unit parser \<Rightarrow> token \<Rightarrow> token parser" where
  "eat_newlines 0 k G heredocs t = pfail ParserFuel"
| "eat_newlines (Suc n) k G heredocs t =
     (if t = TNL then
        pbind heredocs (\<lambda>_.
        pbind (pset (\<lambda>st. st\<lparr>checkkwd := {}\<rparr>)) (\<lambda>_.
        pbind (xxreadtoken k G) (eat_newlines n k G heredocs)))
      else pret t)"

definition read_heredoc :: "nat \<Rightarrow> grammar \<Rightarrow> heredoc \<Rightarrow> unit parser" where
  "read_heredoc k G h =
     pbind (pset (\<lambda>st. st\<lparr>tokpushback := False\<rparr>)) (\<lambda>_.
     pbind (if here_type h = NHERE
            then pbind (on_file pgetc) (\<lambda>c. readtoken1 k G c SQSYNTAX (Mark (eofmark h)) (striptabs h))
            else pbind (on_file pgetc_eatbnl) (\<lambda>c. readtoken1 k G c DQSYNTAX (Mark (eofmark h)) (striptabs h))) (\<lambda>_.
     pset (\<lambda>st. st\<lparr>here_docs := here_docs st @ [(here h, Narg (wordtext st) (backquotelist st))]\<rparr>)))"

primrec read_heredocs :: "nat \<Rightarrow> grammar \<Rightarrow> heredoc list \<Rightarrow> unit parser" where
  "read_heredocs k G [] = pret ()"
| "read_heredocs k G (h # hs) = pbind (read_heredoc k G h) (\<lambda>_. read_heredocs k G hs)"

definition parseheredoc :: "nat \<Rightarrow> grammar \<Rightarrow> unit parser" where
  "parseheredoc k G =
     pbind (pread heredoclist) (\<lambda>hs.
     pbind (pset (\<lambda>st. st\<lparr>heredoclist := []\<rparr>)) (\<lambda>_. read_heredocs k G hs))"

definition readtoken :: "nat \<Rightarrow> grammar \<Rightarrow> token parser" where
  "readtoken k G =
     pbind (pread checkkwd) (\<lambda>kwd0.
     pbind (xxreadtoken k G) (\<lambda>t0.
     pbind (if CHKNL \<in> kwd0 then eat_newlines k k G (parseheredoc k G) t0 else pret t0) (\<lambda>t.
     pbind (pread (\<lambda>st. (kwd0 \<union> checkkwd st, quoteflag st, wordtext st))) (\<lambda>(kwd, quoted, text).
     pbind (pset (\<lambda>st. st\<lparr>checkkwd := {}\<rparr>)) (\<lambda>_.
       if t \<noteq> TWORD \<or> quoted \<or> CHKKWD \<notin> kwd then pret t
       else case findkwd text of None \<Rightarrow> pret t | Some kw \<Rightarrow> set_token kw)))))"

end
