(* ===== verification/Ash_Parser.thy ===== *)
theory Ash_Parser
  imports Ash_Token
begin

text \<open>
  The grammar of the shell, \<open>shell/ash.c\<close>: \<open>list\<close>, \<open>andor\<close>, \<open>pipeline\<close>, \<open>parse_command\<close> and \<open>simplecmd\<close> over the tokens of
  the lexer, and \<open>parsecmd\<close>.  The functions call each other; each level of \<open>grammar_at\<close> serves the calls of the
  level above, and the number of the level bounds the loops too.  A null pointer where the code relies on a
  node is the error \<open>NullNode\<close>.
\<close>

section \<open>Names\<close>

definition goodname :: "cstr \<Rightarrow> bool" where
  "goodname p \<longleftrightarrow> snd (endofname p) = []"

definition isassignment :: "cstr \<Rightarrow> bool" where
  "isassignment p \<longleftrightarrow> fst (endofname p) \<noteq> [] \<and> char_at (snd (endofname p)) 0 = CHR ''=''"

text \<open>The special builtins of the configured build.\<close>

definition special_builtins :: "cstr list" where
  "special_builtins =
     [''.'', '':'', ''break'', ''continue'', ''eval'', ''exec'', ''exit'', ''export'', ''local'', ''readonly'', ''return'',
      ''set'', ''shift'', ''times'', ''trap'', ''unset'']"

section \<open>Redirections\<close>

definition makename :: "pword parser" where
  "makename = pread (\<lambda>st. Narg (wordtext st) (backquotelist st))"

definition fixredir :: "rtype \<Rightarrow> int \<Rightarrow> pword parser \<Rightarrow> predir parser" where
  "fixredir ty fd name =
     pbind (pread wordtext) (\<lambda>text.
       case bb_strtoul text 10 of ((v, err), _) \<Rightarrow>
         if err = NumOk \<and> v < 2147483648 then pret (Ndup ty fd v None)
         else if text = ''-'' then pret (Ndup ty fd (- 1) None)
         else pbind name (\<lambda>w. pret (Ndup ty fd 0 (Some w))))"

definition parsefname :: "nat \<Rightarrow> grammar \<Rightarrow> rnode \<Rightarrow> predir parser" where
  "parsefname k G n =
     pbind (if rn_type n = NHERE then pset (\<lambda>st. st\<lparr>checkkwd := {CHKEOFMARK}\<rparr>) else pret ()) (\<lambda>_.
     pbind (readtoken k G) (\<lambda>t.
       if t \<noteq> TWORD then raise_error_unexpected_syntax None
       else if rn_type n = NHERE then
         pbind (pread quoteflag) (\<lambda>quoted.
           let ty = (if quoted then NHERE else NXHERE)
           in pbind (pset (\<lambda>st. st\<lparr>heredoclist := heredoclist st @
                [(heredoc_new st)\<lparr>eofmark := rmescapes False (wordtext st), here_type := ty\<rparr>]\<rparr>)) (\<lambda>_.
              pret (Nhere ty (rn_fd n) (rn_here n))))
       else if rn_type n = NTOFD \<or> rn_type n = NFROMFD then fixredir (rn_type n) (rn_fd n) makename
       else pbind makename (\<lambda>w. pret (Nfile (rn_type n) (rn_fd n) w))))"

section \<open>Commands\<close>

definition set_chk :: "chk set \<Rightarrow> unit parser" where
  "set_chk s = pset (\<lambda>st. st\<lparr>checkkwd := s\<rparr>)"

definition pushback :: "unit parser" where
  "pushback = pset (\<lambda>st. st\<lparr>tokpushback := True\<rparr>)"

definition expect :: "nat \<Rightarrow> grammar \<Rightarrow> token \<Rightarrow> unit parser" where
  "expect k G t = pbind (readtoken k G) (\<lambda>t1. if t1 \<noteq> t then raise_error_unexpected_syntax (Some t) else pret ())"

definition func_def :: "nat \<Rightarrow> grammar \<Rightarrow> cstr \<Rightarrow> pnode parser" where
  "func_def k G name =
     pbind (expect k G TRP) (\<lambda>_.
       if \<not> goodname name \<or> name \<in> set special_builtins then pfail BadFunctionName
       else pbind (set_chk {CHKNL, CHKKWD, CHKALIAS}) (\<lambda>_. pbind (g_command G) (\<lambda>body. pret (Ndefun name body))))"

primrec simple_loop :: "nat \<Rightarrow> nat \<Rightarrow> grammar \<Rightarrow> bool \<Rightarrow> pword list \<Rightarrow> pword list \<Rightarrow> predir list \<Rightarrow> pnode parser" where
  "simple_loop 0 k G assigns vars args redir = pfail ParserFuel"
| "simple_loop (Suc n) k G assigns vars args redir =
     pbind (set_chk (if assigns then {CHKALIAS} else {})) (\<lambda>_.
     pbind (readtoken k G) (\<lambda>t.
       if t = TWORD then
         pbind makename (\<lambda>w.
         pbind (pread wordtext) (\<lambda>text.
           if assigns \<and> isassignment text then simple_loop n k G assigns (vars @ [w]) args redir
           else simple_loop n k G False vars (args @ [w]) redir))
       else if t = TREDIR then
         pbind (pread redirnode) (\<lambda>r. pbind (parsefname k G r) (\<lambda>r1. simple_loop n k G assigns vars args (redir @ [r1])))
       else case (t = TLP, args, vars, redir) of
              (True, [Narg name bq], [], []) \<Rightarrow> func_def k G name
            | _ \<Rightarrow> pbind pushback (\<lambda>_. pret (Ncmd vars args redir))))"

definition simplecmd :: "nat \<Rightarrow> grammar \<Rightarrow> pnode parser" where
  "simplecmd k G = simple_loop k k G True [] [] []"

primrec parse_if :: "nat \<Rightarrow> nat \<Rightarrow> grammar \<Rightarrow> pnode option parser" where
  "parse_if 0 k G = pfail ParserFuel"
| "parse_if (Suc n) k G =
     pbind (g_list G 0) (\<lambda>test.
     pbind (expect k G TTHEN) (\<lambda>_.
     pbind (g_list G 0) (\<lambda>ifpart.
     pbind (readtoken k G) (\<lambda>t.
     pbind (if t = TELIF then parse_if n k G
            else if t = TELSE then g_list G 0
            else pbind pushback (\<lambda>_. pret None)) (\<lambda>elsepart.
     pret (case (test, ifpart) of
             (Some a, Some b) \<Rightarrow> if t = TELIF \<and> elsepart = None then None else Some (Nif a b elsepart)
           | _ \<Rightarrow> None))))))"

definition parse_while :: "nat \<Rightarrow> grammar \<Rightarrow> (pnode \<Rightarrow> pnode \<Rightarrow> pnode) \<Rightarrow> pnode option parser" where
  "parse_while k G mk =
     pbind (g_list G 0) (\<lambda>test.
     pbind (expect k G TDO) (\<lambda>_.
     pbind (g_list G 0) (\<lambda>body.
     pret (case (test, body) of (Some a, Some b) \<Rightarrow> Some (mk a b) | _ \<Rightarrow> None))))"

definition dolatstr :: cstr where
  "dolatstr = [CTLQUOTEMARK, CTLVAR, char_of VSNORMAL, CHR ''@'', CHR ''='', CTLQUOTEMARK]"

primrec for_words :: "nat \<Rightarrow> nat \<Rightarrow> grammar \<Rightarrow> pword list \<Rightarrow> pword list parser" where
  "for_words 0 k G ws = pfail ParserFuel"
| "for_words (Suc n) k G ws =
     pbind (readtoken k G) (\<lambda>t.
       if t = TWORD then pbind makename (\<lambda>w. for_words n k G (ws @ [w]))
       else if t \<noteq> TNL \<and> t \<noteq> TSEMI then raise_error_unexpected_syntax None
       else pret ws)"

definition parse_for :: "nat \<Rightarrow> grammar \<Rightarrow> pnode option parser" where
  "parse_for k G =
     pbind (readtoken k G) (\<lambda>t.
     pbind (pread (\<lambda>st. (quoteflag st, wordtext st))) (\<lambda>(quoted, var).
       if t \<noteq> TWORD \<or> quoted \<or> \<not> goodname var then pfail BadForVariable
       else pbind (set_chk {CHKNL, CHKKWD, CHKALIAS}) (\<lambda>_.
            pbind (readtoken k G) (\<lambda>t1.
            pbind (if t1 = TIN then for_words k k G []
                   else pbind (if t1 \<noteq> TSEMI then pushback else pret ()) (\<lambda>_. pret [Narg dolatstr []])) (\<lambda>ws.
            pbind (set_chk {CHKNL, CHKKWD, CHKALIAS}) (\<lambda>_.
            pbind (expect k G TDO) (\<lambda>_.
            pbind (g_list G 0) (\<lambda>body.
            pret (map_option (Nfor var ws) body)))))))))"

text \<open>The patterns of a case: the word of the last token is taken, whatever the token was.\<close>

primrec case_patterns :: "nat \<Rightarrow> nat \<Rightarrow> grammar \<Rightarrow> pword list \<Rightarrow> pword list parser" where
  "case_patterns 0 k G ws = pfail ParserFuel"
| "case_patterns (Suc n) k G ws =
     pbind makename (\<lambda>w.
     pbind (readtoken k G) (\<lambda>t.
       if t = TPIPE then pbind (readtoken k G) (\<lambda>_. case_patterns n k G (ws @ [w]))
       else if t \<noteq> TRP then raise_error_unexpected_syntax (Some TRP)
       else pret (ws @ [w])))"

primrec parse_cases :: "nat \<Rightarrow> nat \<Rightarrow> grammar \<Rightarrow> (pword list \<times> pnode option) list \<Rightarrow> (pword list \<times> pnode option) list parser" where
  "parse_cases 0 k G cs = pfail ParserFuel"
| "parse_cases (Suc n) k G cs =
     pbind (set_chk {CHKNL, CHKKWD}) (\<lambda>_.
     pbind (readtoken k G) (\<lambda>t.
       if t = TESAC then pret cs
       else pbind (if t = TLP then readtoken k G else pret t) (\<lambda>_.
            pbind (case_patterns k k G []) (\<lambda>ws.
            pbind (g_list G 2) (\<lambda>body.
            pbind (set_chk {CHKNL, CHKKWD}) (\<lambda>_.
            pbind (readtoken k G) (\<lambda>t1.
              if t1 = TESAC then pret (cs @ [(ws, body)])
              else if t1 \<noteq> TENDCASE then raise_error_unexpected_syntax (Some TENDCASE)
              else parse_cases n k G (cs @ [(ws, body)]))))))))"

definition parse_case :: "nat \<Rightarrow> grammar \<Rightarrow> pnode option parser" where
  "parse_case k G =
     pbind (expect k G TWORD) (\<lambda>_.
     pbind makename (\<lambda>w.
     pbind (set_chk {CHKNL, CHKKWD, CHKALIAS}) (\<lambda>_.
     pbind (expect k G TIN) (\<lambda>_.
     pbind (parse_cases k k G []) (\<lambda>cs. pret (Some (Ncase w cs)))))))"

primrec redir_loop :: "nat \<Rightarrow> nat \<Rightarrow> grammar \<Rightarrow> predir list \<Rightarrow> predir list parser" where
  "redir_loop 0 k G rs = pfail ParserFuel"
| "redir_loop (Suc n) k G rs =
     pbind (readtoken k G) (\<lambda>t.
       if t = TREDIR then pbind (pread redirnode) (\<lambda>r. pbind (parsefname k G r) (\<lambda>r1. redir_loop n k G (rs @ [r1])))
       else pbind pushback (\<lambda>_. pret rs))"

definition with_redir :: "pnode \<Rightarrow> predir list \<Rightarrow> pnode" where
  "with_redir n rs =
     (if rs = [] then n else case n of Nsubshell m _ \<Rightarrow> Nsubshell m rs | _ \<Rightarrow> Nredir n rs)"

definition finish_command :: "nat \<Rightarrow> grammar \<Rightarrow> token option \<Rightarrow> pnode option \<Rightarrow> pnode parser" where
  "finish_command k G t n =
     pbind (case t of None \<Rightarrow> pret () | Some t1 \<Rightarrow> expect k G t1) (\<lambda>_.
     pbind (set_chk {CHKKWD, CHKALIAS}) (\<lambda>_.
     pbind (redir_loop k k G []) (\<lambda>rs.
       case n of None \<Rightarrow> pfail NullNode | Some n1 \<Rightarrow> pret (with_redir n1 rs))))"

definition parse_command :: "nat \<Rightarrow> grammar \<Rightarrow> pnode parser" where
  "parse_command k G =
     pbind (readtoken k G) (\<lambda>t.
       case t of
         TIF \<Rightarrow> pbind (parse_if k k G) (finish_command k G (Some TFI))
       | TWHILE \<Rightarrow> pbind (parse_while k G Nwhile) (finish_command k G (Some TDONE))
       | TUNTIL \<Rightarrow> pbind (parse_while k G Nuntil) (finish_command k G (Some TDONE))
       | TFOR \<Rightarrow> pbind (parse_for k G) (finish_command k G (Some TDONE))
       | TCASE \<Rightarrow> pbind (parse_case k G) (finish_command k G None)
       | TLP \<Rightarrow> pbind (g_list G 0) (\<lambda>n. finish_command k G (Some TRP) (map_option (\<lambda>m. Nsubshell m []) n))
       | TBEGIN \<Rightarrow> pbind (g_list G 0) (finish_command k G (Some TEND))
       | TWORD \<Rightarrow> pbind pushback (\<lambda>_. simplecmd k G)
       | TREDIR \<Rightarrow> pbind pushback (\<lambda>_. simplecmd k G)
       | _ \<Rightarrow> raise_error_unexpected_syntax None)"

section \<open>Pipelines and lists\<close>

primrec pipeline_loop :: "nat \<Rightarrow> nat \<Rightarrow> grammar \<Rightarrow> pnode list \<Rightarrow> pnode list parser" where
  "pipeline_loop 0 k G ns = pfail ParserFuel"
| "pipeline_loop (Suc n) k G ns =
     pbind (readtoken k G) (\<lambda>t.
       if t = TPIPE then
         pbind (set_chk {CHKNL, CHKKWD, CHKALIAS}) (\<lambda>_.
         pbind (parse_command k G) (\<lambda>c. pipeline_loop n k G (ns @ [c])))
       else pbind pushback (\<lambda>_. pret ns))"

definition pipeline :: "nat \<Rightarrow> grammar \<Rightarrow> pnode parser" where
  "pipeline k G =
     pbind (readtoken k G) (\<lambda>t.
     pbind (if t = TNOT then set_chk {CHKKWD, CHKALIAS} else pushback) (\<lambda>_.
     pbind (parse_command k G) (\<lambda>c.
     pbind (pipeline_loop k k G [c]) (\<lambda>ns.
       let n1 = (if length ns = 1 then c else Npipe False ns)
       in pret (if t = TNOT then Nnot n1 else n1)))))"

primrec andor_loop :: "nat \<Rightarrow> nat \<Rightarrow> grammar \<Rightarrow> pnode \<Rightarrow> pnode parser" where
  "andor_loop 0 k G n1 = pfail ParserFuel"
| "andor_loop (Suc n) k G n1 =
     pbind (readtoken k G) (\<lambda>t.
       if t = TAND \<or> t = TOR then
         pbind (set_chk {CHKNL, CHKKWD, CHKALIAS}) (\<lambda>_.
         pbind (pipeline k G) (\<lambda>n2. andor_loop n k G (if t = TAND then Nand n1 n2 else Nor n1 n2)))
       else pbind pushback (\<lambda>_. pret n1))"

definition andor :: "nat \<Rightarrow> grammar \<Rightarrow> pnode parser" where
  "andor k G = pbind (pipeline k G) (andor_loop k k G)"

definition background :: "pnode \<Rightarrow> pnode" where
  "background n = (case n of Npipe _ ns \<Rightarrow> Npipe True ns | Nredir m rs \<Rightarrow> Nbackgnd m rs | _ \<Rightarrow> Nbackgnd n [])"

text \<open>The end of a list at the end of the input; the flag is the value \<open>NODE_EOF\<close>.\<close>

definition list_eof :: "nat \<Rightarrow> grammar \<Rightarrow> pnode option \<Rightarrow> bool \<Rightarrow> (pnode option \<times> bool) parser" where
  "list_eof k G n1 eof =
     pbind (parseheredoc k G) (\<lambda>_.
     pbind (pset (\<lambda>st. st\<lparr>tokpushback := True, lasttoken := TEOF\<rparr>)) (\<lambda>_. pret (n1, eof)))"

definition join_semi :: "pnode option \<Rightarrow> pnode \<Rightarrow> pnode" where
  "join_semi n1 n2 = (case n1 of None \<Rightarrow> n2 | Some n \<Rightarrow> Nsemi n n2)"

primrec list_loop :: "nat \<Rightarrow> nat \<Rightarrow> grammar \<Rightarrow> bool \<Rightarrow> bool \<Rightarrow> pnode option \<Rightarrow> (pnode option \<times> bool) parser" where
  "list_loop 0 k G chknl stop n1 = pfail ParserFuel"
| "list_loop (Suc n) k G chknl stop n1 =
     pbind (set_chk ((if chknl then {CHKNL} else {}) \<union> {CHKKWD, CHKALIAS})) (\<lambda>_.
     pbind (readtoken k G) (\<lambda>tok.
       if tok = TNL then pbind (parseheredoc k G) (\<lambda>_. pret (n1, False))
       else if tok = TEOF then list_eof k G n1 (n1 = None \<and> \<not> chknl)
       else pbind pushback (\<lambda>_.
         if stop \<and> tok \<in> tokendlist then pret (n1, False)
         else
           pbind (andor k G) (\<lambda>n2.
           pbind (readtoken k G) (\<lambda>tok1.
             let n3 = Some (join_semi n1 (if tok1 = TBACKGND then background n2 else n2))
             in if tok1 = TEOF then list_eof k G n3 False
                else if tok1 = TNL then pbind pushback (\<lambda>_. list_loop n k G chknl chknl n3)
                else if tok1 = TBACKGND \<or> tok1 = TSEMI then list_loop n k G chknl chknl n3
                else if \<not> chknl then raise_error_unexpected_syntax None
                else pbind pushback (\<lambda>_. pret (n3, False)))))))"

text \<open>
  The argument of \<open>list\<close>: bit 0 makes a newline end the list, bit 1 allows it to be empty.  The token that ends a
  list is looked for from the second command on, unless bit 0 is set.
\<close>

definition plist :: "nat \<Rightarrow> grammar \<Rightarrow> nat \<Rightarrow> (pnode option \<times> bool) parser" where
  "plist k G nlflag = list_loop k k G (even nlflag) (nlflag = 2) None"

fun list_at :: "nat \<Rightarrow> nat \<Rightarrow> pnode option parser"
  and command_at :: "nat \<Rightarrow> pnode parser"
  and readtoken_at :: "nat \<Rightarrow> token parser"
  and parseheredoc_at :: "nat \<Rightarrow> unit parser" where
  "list_at 0 nlflag st = Inl ParserFuel"
| "list_at (Suc k) nlflag st =
     map_sum id (map_prod fst id)
       (plist k \<lparr>g_list = list_at k, g_command = command_at k, g_readtoken = readtoken_at k, g_parseheredoc = parseheredoc_at k\<rparr> nlflag st)"
| "command_at 0 st = Inl ParserFuel"
| "command_at (Suc k) st =
     parse_command k \<lparr>g_list = list_at k, g_command = command_at k, g_readtoken = readtoken_at k, g_parseheredoc = parseheredoc_at k\<rparr> st"
| "readtoken_at 0 st = Inl ParserFuel"
| "readtoken_at (Suc k) st =
     readtoken k \<lparr>g_list = list_at k, g_command = command_at k, g_readtoken = readtoken_at k, g_parseheredoc = parseheredoc_at k\<rparr> st"
| "parseheredoc_at 0 st = Inl ParserFuel"
| "parseheredoc_at (Suc k) st =
     parseheredoc k \<lparr>g_list = list_at k, g_command = command_at k, g_readtoken = readtoken_at k, g_parseheredoc = parseheredoc_at k\<rparr> st"

definition grammar_at :: "nat \<Rightarrow> grammar" where
  "grammar_at k = \<lparr>g_list = list_at k, g_command = command_at k, g_readtoken = readtoken_at k, g_parseheredoc = parseheredoc_at k\<rparr>"

definition parsecmd :: "nat \<Rightarrow> (pnode option \<times> bool) parser" where
  "parsecmd k =
     pbind (pset (\<lambda>st. st\<lparr>tokpushback := False, checkkwd := {}, heredoclist := []\<rparr>)) (\<lambda>_.
       plist k (grammar_at k) 1)"

definition string_state :: "cstr \<Rightarrow> pstate" where
  "string_state s =
     \<lparr>g_parsefile = \<lparr>next_to_pgetc = s, unget = 0, lastc = (Some NUL, Some NUL), strpush = []\<rparr>, prev_files = [], tokpushback = False,
      quoteflag = False, lasttoken = TEOF, wordtext = [], backquotelist = [], redirnode = \<lparr>rn_type = NTO, rn_fd = 0, rn_here = 0\<rparr>,
      heredoc_new = \<lparr>here = 0, eofmark = [], striptabs = False, here_type = NHERE\<rparr>, heredoclist = [], checkkwd = {}, here_count = 0,
      here_docs = []\<rparr>"

end
