(* ===== verification/Ash_Lex.thy ===== *)
theory Ash_Lex
  imports Ash_Parser
begin

text \<open>
  What the lexer reads: the words of a small language of quoted and unquoted parts, and the operators.  The text
  that the shell's own \<open>single_quote\<close> produces is a word of this language, and reads back as the string it was
  made from.
\<close>

section \<open>Input without pushed strings\<close>

text \<open>The characters that will be read, with at most one pushed back.\<close>

definition feeds :: "parsefile \<Rightarrow> cstr \<Rightarrow> bool" where
  "feeds pf s \<longleftrightarrow> strpush pf = [] \<and>
     (unget pf = 0 \<and> next_to_pgetc pf = s \<or>
      unget pf = 1 \<and> (case s of [] \<Rightarrow> fst (lastc pf) = None \<and> next_to_pgetc pf = [] | c # s' \<Rightarrow> fst (lastc pf) = Some c \<and> next_to_pgetc pf = s'))"

definition nxt :: "parsefile \<Rightarrow> parsefile" where
  "nxt pf = snd (pgetc pf)"

lemma pgetc_feeds:
  assumes "feeds pf (c # s)"
  shows "pgetc pf = (Some c, nxt pf)" "feeds (nxt pf) s" "feeds (pungetc (nxt pf)) (c # s)"
  using assms by (cases "unget pf = 0"; auto simp: nxt_def feeds_def pgetc.simps [of pf] shift_lastc_def pungetc_def split: list.splits)+

lemma pgetc_feeds_end:
  assumes "feeds pf []"
  shows "pgetc pf = (None, nxt pf)" "feeds (nxt pf) []" "feeds (pungetc (nxt pf)) []"
  using assms by (cases "unget pf = 0"; auto simp: nxt_def feeds_def pgetc.simps [of pf] shift_lastc_def pungetc_def split: list.splits)+

lemma eatbnl_feeds:
  assumes "feeds pf (c # s)" "c \<noteq> BSL"
  shows "pgetc_eatbnl pf = (Some c, nxt pf)"
  using assms by (simp add: pgetc_eatbnl.simps [of pf] pgetc_feeds)

lemma eatbnl_feeds_end:
  assumes "feeds pf []"
  shows "pgetc_eatbnl pf = (None, nxt pf)"
  using assms by (simp add: pgetc_eatbnl.simps [of pf] pgetc_feeds_end)

lemmas feeds_rules = pgetc_feeds pgetc_feeds_end eatbnl_feeds eatbnl_feeds_end

section \<open>Words\<close>

text \<open>The parts of a word: unquoted text, text in single or double quotes and a parameter in braces.\<close>

datatype wpart = Plain cstr | Single cstr | Double cstr | Param cstr

fun src :: "wpart \<Rightarrow> cstr" where
  "src (Plain s) = s"
| "src (Single s) = SQ # s @ [SQ]"
| "src (Double s) = DQ # s @ [DQ]"
| "src (Param v) = CHR ''$'' # CHR ''{'' # v @ ''}''"

definition escaped :: "syntax_id \<Rightarrow> cstr \<Rightarrow> cstr" where
  "escaped syn s = concat (map (\<lambda>c. if sit (Some c) syn = CCTL then [CTLESC, c] else [c]) s)"

fun lexed :: "wpart \<Rightarrow> cstr" where
  "lexed (Plain s) = s"
| "lexed (Single s) = CTLQUOTEMARK # escaped SQSYNTAX s @ [CTLQUOTEMARK]"
| "lexed (Double s) = CTLQUOTEMARK # escaped DQSYNTAX s @ [CTLQUOTEMARK]"
| "lexed (Param v) = CTLVAR # char_of VSNORMAL # v @ ''=''"

fun is_quoted :: "wpart \<Rightarrow> bool" where
  "is_quoted (Single s) = True"
| "is_quoted (Double s) = True"
| "is_quoted _ = False"

definition plain_char :: "char \<Rightarrow> bool" where
  "plain_char c \<longleftrightarrow> sit (Some c) BASESYNTAX \<in> {CWORD, CENDVAR}"

fun part_ok :: "wpart \<Rightarrow> bool" where
  "part_ok (Plain s) = (s \<noteq> [] \<and> (\<forall>c\<in>set s. plain_char c))"
| "part_ok (Single s) = (SQ \<notin> set s)"
| "part_ok (Double s) = (\<forall>c\<in>set s. sit (Some c) DQSYNTAX \<in> {CWORD, CCTL, CNL})"
| "part_ok (Param v) = var_name v"

text \<open>The state of the lexer between two parts.\<close>

definition between :: "bool \<Rightarrow> cstr \<Rightarrow> char option \<Rightarrow> rt1 \<Rightarrow> bool" where
  "between q out c l \<longleftrightarrow> r_c l = c \<and> r_out l = out \<and> r_bqlist l = [] \<and> r_quotef l = q \<and> r_syn l = new_syntax BASESYNTAX \<and> r_syns l = []"

text \<open>One step of the loop that only reads on.\<close>

definition set_file :: "parsefile \<Rightarrow> pstate \<Rightarrow> pstate" where
  "set_file pf st = st\<lparr>g_parsefile := pf\<rparr>"

lemma set_file_simps [simp]:
  "g_parsefile (set_file pf st) = pf" "set_file pf (set_file pf1 st) = set_file pf st" "set_file (g_parsefile st) st = st"
  "checkkwd (set_file pf st) = checkkwd st" "tokpushback (set_file pf st) = tokpushback st"
  by (simp_all add: set_file_def)

lemma on_file_eq: "on_file f st = (case f (g_parsefile st) of (x, pf) \<Rightarrow> Inr (x, set_file pf st))"
  by (simp add: on_file_def set_file_def)

lemmas monad_simps = pret_def pbind_def pfail_def pread_def

lemma next_char_feeds:
  assumes "feeds (g_parsefile st) (c # s)" "c \<noteq> BSL \<or> sy_syntax (r_syn l) = SQSYNTAX"
  shows "next_char k l st = Inr ((k, l\<lparr>r_c := Some c\<rparr>), set_file (nxt (g_parsefile st)) st)"
  using assms by (auto simp: next_char_def on_file_eq pgetc_top_def monad_simps feeds_rules)

text \<open>Reading on through one character of the text of a quoted or unquoted part.\<close>

definition put_char :: "rt1 \<Rightarrow> rt1" where
  "put_char l = (if sit (r_c l) (sy_syntax (r_syn l)) = CCTL then emit_c (emit [CTLESC] l) else emit_c l)"

lemma rt1_loop_step:
  assumes "rt1_step G mark l st = Inr ((NextChar, l1), st1)"
  shows "rt1_loop (Suc k) G mark strip l st = rt1_loop k G mark strip l1 st1"
  using assms by (simp add: monad_simps)

lemma rt1_loop_line:
  assumes "rt1_step G NoMark l st = Inr ((NextLine, l1), st1)"
  shows "rt1_loop (Suc k) G NoMark strip l st = rt1_loop k G NoMark strip l1 st1"
  using assms by (simp add: monad_simps on_file_eq checkend_def)

declare rt1_loop.simps [simp del]

lemma rt1_loop_text:
  assumes "sit (r_c l) (sy_syntax (r_syn l)) \<in> {CWORD, CCTL} \<or> sit (r_c l) (sy_syntax (r_syn l)) = CNL \<and> sy_syntax (r_syn l) \<noteq> BASESYNTAX
      \<or> sit (r_c l) (sy_syntax (r_syn l)) = CENDVAR \<and> varnest (r_syn l) = 0"
    and "feeds (g_parsefile st) (c # s)" "c \<noteq> BSL \<or> sy_syntax (r_syn l) = SQSYNTAX"
  shows "rt1_loop (Suc k) G NoMark strip l st = rt1_loop k G NoMark strip (put_char l\<lparr>r_c := Some c\<rparr>) (set_file (nxt (g_parsefile st)) st)"
proof -
  have syn: "sy_syntax (r_syn (put_char l)) = sy_syntax (r_syn l)" by (simp add: put_char_def emit_c_def emit_def)
  note nc = next_char_feeds [OF assms(2), where l = "put_char l", unfolded syn, OF assms(3)]
  consider "rt1_step G NoMark l st = next_char NextChar (put_char l) st" | "rt1_step G NoMark l st = next_char NextLine (put_char l) st"
    using assms(1) by (auto simp: rt1_step_def put_char_def Let_def rt1_endvar_def monad_simps)
  then show ?thesis
  proof cases
    case 1
    then show ?thesis using nc by (intro rt1_loop_step) simp
  next
    case 2
    then show ?thesis using nc by (intro rt1_loop_line) simp
  qed
qed

definition textual :: "synstack \<Rightarrow> char \<Rightarrow> bool" where
  "textual s c \<longleftrightarrow> (let t = sit (Some c) (sy_syntax s)
     in t \<in> {CWORD, CCTL} \<or> t = CNL \<and> sy_syntax s \<noteq> BASESYNTAX \<or> t = CENDVAR \<and> varnest s = 0)"

lemma put_char_text: "r_c l = Some c \<Longrightarrow> put_char l = l\<lparr>r_out := r_out l @ escaped (sy_syntax (r_syn l)) [c]\<rparr>"
  by (simp add: put_char_def emit_c_def emit_def escaped_def)

lemma escaped_append: "escaped syn (a @ b) = escaped syn a @ escaped syn b"
  by (simp add: escaped_def)

lemma escaped_Nil [simp]: "escaped syn [] = []"
  by (simp add: escaped_def)

lemma rt1_loop_chars:
  assumes "r_c l = Some c" "\<forall>x\<in>set (c # cs). textual (r_syn l) x" "feeds (g_parsefile st) (cs @ d # s)"
    "BSL \<notin> set (cs @ [d]) \<or> sy_syntax (r_syn l) = SQSYNTAX"
  shows "\<exists>pf. feeds pf s \<and> feeds (pungetc pf) (d # s) \<and> rt1_loop (length (c # cs) + k) G NoMark strip l st
     = rt1_loop k G NoMark strip (l\<lparr>r_out := r_out l @ escaped (sy_syntax (r_syn l)) (c # cs), r_c := Some d\<rparr>) (set_file pf st)"
  using assms
proof (induction cs arbitrary: l c st)
  case Nil
  have "rt1_loop (Suc k) G NoMark strip l st = rt1_loop k G NoMark strip (put_char l\<lparr>r_c := Some d\<rparr>) (set_file (nxt (g_parsefile st)) st)"
    using Nil by (intro rt1_loop_text) (auto simp: textual_def Let_def)
  then show ?case using Nil by (intro exI [of _ "nxt (g_parsefile st)"]) (simp add: put_char_text pgetc_feeds)
next
  case (Cons c1 cs)
  define st1 where "st1 = set_file (nxt (g_parsefile st)) st"
  define l1 where "l1 = put_char l\<lparr>r_c := Some c1\<rparr>"
  have l1: "r_c l1 = Some c1" "r_syn l1 = r_syn l" "r_out l1 = r_out l @ escaped (sy_syntax (r_syn l)) [c]"
    by (simp_all add: l1_def put_char_text [OF Cons(2)])
  have "rt1_loop (Suc (length (c1 # cs) + k)) G NoMark strip l st = rt1_loop (length (c1 # cs) + k) G NoMark strip l1 st1"
    unfolding l1_def st1_def using Cons by (intro rt1_loop_text) (auto simp: textual_def Let_def)
  moreover obtain pf where "feeds pf s" "feeds (pungetc pf) (d # s)" "rt1_loop (length (c1 # cs) + k) G NoMark strip l1 st1
      = rt1_loop k G NoMark strip (l1\<lparr>r_out := r_out l1 @ escaped (sy_syntax (r_syn l1)) (c1 # cs), r_c := Some d\<rparr>) (set_file pf st1)"
    using Cons.IH [of l1 c1 st1] Cons.prems l1 by (auto simp: st1_def pgetc_feeds)
  moreover have "l1\<lparr>r_out := r_out l1 @ escaped (sy_syntax (r_syn l1)) (c1 # cs), r_c := Some d\<rparr>
      = l\<lparr>r_out := r_out l @ escaped (sy_syntax (r_syn l)) (c # c1 # cs), r_c := Some d\<rparr>"
    using escaped_append [of _ "[c]" "c1 # cs"] by (simp add: l1 l1_def put_char_text [OF Cons(2)])
  ultimately show ?case by (auto simp: st1_def)
qed

lemma next_char_step: "next_char NextChar l st = Inr ((NextChar, l1), st1) \<Longrightarrow> rt1_step G NoMark l0 st = next_char NextChar l st
    \<Longrightarrow> rt1_loop (Suc k) G NoMark strip l0 st = rt1_loop k G NoMark strip l1 st1"
  by (rule rt1_loop_step) simp

text \<open>The first and the last character of a quoted part.\<close>

lemma sit_quotes:
  "sit (Some SQ) BASESYNTAX = CSQUOTE" "sit (Some DQ) BASESYNTAX = CDQUOTE" "sit (Some SQ) SQSYNTAX = CENDQUOTE" "sit (Some DQ) DQSYNTAX = CENDQUOTE"
  "sit (Some (CHR ''$'')) BASESYNTAX = CVAR" "sit (Some SP) BASESYNTAX = CSPCL"
  by code_simp+

lemma rt1_open:
  assumes "between q out (Some c) l" "c = SQ \<or> c = DQ" "feeds (g_parsefile st) (d # s)" "d \<noteq> BSL \<or> c = SQ"
  shows "rt1_loop (Suc k) G NoMark strip l st = rt1_loop k G NoMark strip
     (l\<lparr>r_syn := (new_syntax BASESYNTAX)\<lparr>sy_syntax := if c = SQ then SQSYNTAX else DQSYNTAX, dblquote := c = DQ\<rparr>, r_out := out @ [CTLQUOTEMARK], r_c := Some d\<rparr>)
     (set_file (nxt (g_parsefile st)) st)"
proof -
  have nc: "next_char NextChar l1 st = Inr ((NextChar, l1\<lparr>r_c := Some d\<rparr>), set_file (nxt (g_parsefile st)) st)"
    if "sy_syntax (r_syn l1) = (if c = SQ then SQSYNTAX else DQSYNTAX)" for l1
    using assms(3,4) that by (intro next_char_feeds) auto
  show ?thesis using assms(1,2)
    by (intro next_char_step [OF nc])
      (auto simp: rt1_step_def between_def sit_quotes Let_def on_syn_def quotemark_def toggledq_def emit_def new_syntax_def)
qed

lemma rt1_close:
  assumes "r_c l = Some c" "r_bqlist l = []" "r_syns l = []"
    and "r_syn l = (new_syntax BASESYNTAX)\<lparr>sy_syntax := if c = SQ then SQSYNTAX else DQSYNTAX, dblquote := c = DQ\<rparr>"
    and "c = SQ \<or> c = DQ" "feeds (g_parsefile st) (d # s)" "d \<noteq> BSL"
  shows "\<exists>l1. between True (r_out l @ [CTLQUOTEMARK]) (Some d) l1 \<and>
     rt1_loop (Suc k) G NoMark strip l st = rt1_loop k G NoMark strip l1 (set_file (nxt (g_parsefile st)) st)"
proof -
  let ?l = "l\<lparr>r_syn := new_syntax BASESYNTAX, r_quotef := True, r_out := r_out l @ [CTLQUOTEMARK]\<rparr>"
  have nc: "next_char NextChar ?l st = Inr ((NextChar, ?l\<lparr>r_c := Some d\<rparr>), set_file (nxt (g_parsefile st)) st)"
    using assms(6,7) by (intro next_char_feeds) auto
  have "rt1_step G NoMark l st = next_char NextChar ?l st" using assms(1-5)
    by (auto simp: rt1_step_def sit_quotes Let_def rt1_endquote_def on_syn_def quotemark_def toggledq_def emit_def new_syntax_def)
  from next_char_step [OF nc this] show ?thesis using assms(2,3) by (intro exI [of _ "?l\<lparr>r_c := Some d\<rparr>"]) (simp add: between_def)
qed

lemma read_name_feeds:
  assumes "feeds pf (v @ d # s)" "\<forall>c\<in>set v. P c \<and> c \<noteq> BSL" "\<not> P d" "d \<noteq> BSL"
  shows "\<exists>pf'. read_name P pf = (v, Some d, pf') \<and> feeds pf' s"
  using assms
proof (induction v arbitrary: pf)
  case Nil
  then have "pgetc_eatbnl pf = (Some d, nxt pf)" "feeds (nxt pf) s" by (simp_all add: eatbnl_feeds pgetc_feeds)
  then show ?case using Nil by (simp add: read_name.simps [of P pf])
next
  case (Cons c v)
  then have e: "pgetc_eatbnl pf = (Some c, nxt pf)" "feeds (nxt pf) (v @ d # s)" by (simp_all add: eatbnl_feeds pgetc_feeds)
  obtain pf' where "read_name P (nxt pf) = (v, Some d, pf')" "feeds pf' s" using Cons.IH [OF e(2)] Cons.prems by auto
  then show ?case using Cons.prems e by (simp add: read_name.simps [of P pf])
qed

lemma not_in_name: "\<not> is_in_name BSL" "\<not> is_name BSL" "\<not> is_in_name (CHR ''}'')"
  by code_simp+

lemma in_name_bsl: "is_in_name c \<Longrightarrow> c \<noteq> BSL" "is_name c \<Longrightarrow> c \<noteq> BSL"
  using not_in_name by metis+

lemma var_sub_feeds:
  assumes "var_name v" "feeds pf (v @ CHR ''}'' # s)"
  shows "\<exists>pf'. var_sub True c pf = ((v, VSNORMAL, False), pf') \<and> feeds pf' s"
proof -
  obtain x v' where v: "v = x # v'" "is_name x" "\<forall>c\<in>set v'. is_in_name c"
    using assms(1) by (cases v) (auto simp: var_name_def)
  have "feeds (nxt pf) (v' @ CHR ''}'' # s)" "pgetc_eatbnl pf = (Some x, nxt pf)"
    using assms(2) v in_name_bsl(2) by (simp_all add: feeds_rules)
  moreover from this obtain pf' where "read_name is_in_name (nxt pf) = (v', Some (CHR ''}''), pf')" "feeds pf' s"
    using read_name_feeds [of "nxt pf" v' "CHR ''}''" s is_in_name] v in_name_bsl(1)
not_in_name(3) by auto
  ultimately show ?thesis using v
    by (simp add: var_sub_def varname_def c_is_def varname_plain_def var_operator_def with_type_def types_index_def)
qed

lemma rt1_param:
  assumes "between q out (Some (CHR ''$'')) l" "var_name v" "feeds (g_parsefile st) (CHR ''{'' # v @ CHR ''}'' # d # s)" "d \<noteq> BSL" "CHKEOFMARK \<notin> checkkwd st"
  shows "\<exists>l1 pf. feeds pf s \<and> feeds (pungetc pf) (d # s) \<and> between q (out @ lexed (Param v)) (Some d) l1 \<and>
     rt1_loop (Suc k) G NoMark strip l st = rt1_loop k G NoMark strip l1 (set_file pf st)"
proof -
  let ?st = "set_file (nxt (g_parsefile st)) st"
  let ?l = "l\<lparr>r_out := out @ lexed (Param v)\<rparr>"
  obtain pf1 where v: "var_sub True (Some (CHR ''{'')) (nxt (g_parsefile st)) = ((v, VSNORMAL, False), pf1)" "feeds pf1 (d # s)"
    using var_sub_feeds [OF assms(2), of "nxt (g_parsefile st)" "d # s"] pgetc_feeds [OF assms(3)] by auto
  have "pgetc_eatbnl (g_parsefile st) = (Some (CHR ''{''), nxt (g_parsefile st))" using assms(3) by (simp add: feeds_rules)
  moreover have "enter_var VSNORMAL False m = m" for m by (simp add: enter_var_def)
  ultimately have "parsesub G l st = Inr (?l, set_file pf1 st)" using v assms(1,5)
    by (simp add: parsesub_def monad_simps on_file_eq c_is_def emit_def between_def)
  then have "rt1_step G NoMark l st = next_char NextChar ?l (set_file pf1 st)"
    using assms(1) by (simp add: rt1_step_def between_def sit_quotes Let_def new_syntax_def monad_simps)
  also have "\<dots> = Inr ((NextChar, ?l\<lparr>r_c := Some d\<rparr>), set_file (nxt pf1) st)"
    using v(2) assms(4) by (subst next_char_feeds) simp_all
  finally have "rt1_loop (Suc k) G NoMark strip l st = rt1_loop k G NoMark strip (?l\<lparr>r_c := Some d\<rparr>) (set_file (nxt pf1) st)"
    by (rule rt1_loop_step)
  then show ?thesis using v(2) assms(1) by (intro exI [of _ "?l\<lparr>r_c := Some d\<rparr>"] exI [of _ "nxt pf1"]) (simp add: pgetc_feeds between_def)
qed

lemma sit_spec: "sit (Some c) syn = column syn (S_I_T ! spec_index c)"
proof -
  have "(of_char c :: nat) < 256" by simp
  from table_nth [OF this] show ?thesis by (simp add: sit_def SIT_def)
qed

lemma single_text: "c \<noteq> SQ \<Longrightarrow> sit (Some c) SQSYNTAX \<in> {CWORD, CCTL, CNL}"
proof -
  have "list_all (\<lambda>c. c = SQ \<or> column SQSYNTAX (S_I_T ! spec_index c) \<in> {CWORD, CCTL, CNL}) Enum.enum" by code_simp
  moreover assume "c \<noteq> SQ"
  ultimately show ?thesis unfolding sit_spec list_all_iff enum_UNIV by blast
qed

lemma sit_special_chars:
  "sit (Some BSL) BASESYNTAX = CBACK" "sit (Some BSL) DQSYNTAX = CBACK" "sit (Some TAB) BASESYNTAX = CSPCL" "sit (Some NL) BASESYNTAX = CNL"
  "sit (Some (CHR ''('')) BASESYNTAX = CSPCL" "sit (Some (CHR '')'')) BASESYNTAX = CSPCL" "sit (Some (CHR ''&'')) BASESYNTAX = CSPCL"
  "sit (Some (CHR ''|'')) BASESYNTAX = CSPCL" "sit (Some (CHR '';'')) BASESYNTAX = CSPCL"
  "sit (Some (CHR ''<'')) BASESYNTAX = CSPCL" "sit (Some (CHR ''>'')) BASESYNTAX = CSPCL"
  by code_simp+

text \<open>A quoted part behind its first quote.\<close>

lemma rt1_quoted:
  assumes "between q out (Some c) l" "c = SQ \<or> c = DQ" "feeds (g_parsefile st) (t @ c # d # s)" "d \<noteq> BSL"
    and "\<forall>x\<in>set t. sit (Some x) (if c = SQ then SQSYNTAX else DQSYNTAX) \<in> {CWORD, CCTL, CNL}"
  shows "\<exists>l1 pf. feeds pf s \<and> feeds (pungetc pf) (d # s) \<and>
     between True (out @ CTLQUOTEMARK # escaped (if c = SQ then SQSYNTAX else DQSYNTAX) t @ [CTLQUOTEMARK]) (Some d) l1 \<and>
     rt1_loop (length t + 2 + k) G NoMark strip l st = rt1_loop k G NoMark strip l1 (set_file pf st)"
proof -
  let ?syn = "if c = SQ then SQSYNTAX else DQSYNTAX"
  have nb: "BSL \<notin> set t \<or> c = SQ" using assms(2,5) sit_special_chars(2) by fastforce
  obtain e r where e: "t @ c # d # s = e # r" by (cases t) auto
  then have "e \<noteq> BSL \<or> c = SQ" using nb assms(2) by (cases t) auto
  note open_q = rt1_open [OF assms(1,2) assms(3) [unfolded e] this]
  define l0 where "l0 = l\<lparr>r_syn := (new_syntax BASESYNTAX)\<lparr>sy_syntax := ?syn, dblquote := c = DQ\<rparr>, r_out := out @ [CTLQUOTEMARK], r_c := Some e\<rparr>"
  define st0 where "st0 = set_file (nxt (g_parsefile st)) st"
  have l0: "r_c l0 = Some e" "r_bqlist l0 = []" "r_syns l0 = []" "r_out l0 = out @ [CTLQUOTEMARK]"
    "r_syn l0 = (new_syntax BASESYNTAX)\<lparr>sy_syntax := ?syn, dblquote := c = DQ\<rparr>" "sy_syntax (r_syn l0) = ?syn"
    using assms(1) by (simp_all add: l0_def between_def)
  have f0: "feeds (g_parsefile st0) r" using pgetc_feeds(2) [of "g_parsefile st" e r] assms(3) e by (simp add: st0_def)
  obtain l2 pf2 where mid: "rt1_loop (length t + 1 + k) G NoMark strip l0 st0 = rt1_loop (1 + k) G NoMark strip l2 (set_file pf2 st0)"
    "feeds pf2 (d # s)" "r_c l2 = Some c" "r_bqlist l2 = []" "r_syns l2 = []" "r_syn l2 = r_syn l0" "r_out l2 = out @ [CTLQUOTEMARK] @ escaped ?syn t"
  proof (cases t)
    case Nil
    then have "e = c" "r = d # s" using e by auto
    then show ?thesis using that [of l0 "g_parsefile st0"] l0 f0 Nil by simp
  next
    case (Cons x t')
    then have x: "e = x" "r = t' @ c # d # s" using e by auto
    have "\<forall>y\<in>set (x # t'). textual (r_syn l0) y" using assms(5) l0(6) Cons by (auto simp: textual_def Let_def split: if_splits)
    moreover have "BSL \<notin> set (t' @ [c]) \<or> sy_syntax (r_syn l0) = SQSYNTAX" using nb l0(6) assms(2) Cons by auto
    ultimately obtain pf where "feeds pf (d # s)" "rt1_loop (length (x # t') + (1 + k)) G NoMark strip l0 st0
        = rt1_loop (1 + k) G NoMark strip (l0\<lparr>r_out := r_out l0 @ escaped (sy_syntax (r_syn l0)) (x # t'), r_c := Some c\<rparr>) (set_file pf st0)"
      using rt1_loop_chars [of l0 x t' st0 c "d # s" "1 + k" G strip] l0(1) f0 x by metis
    then show ?thesis using that [of "l0\<lparr>r_out := r_out l0 @ escaped (sy_syntax (r_syn l0)) (x # t'), r_c := Some c\<rparr>" pf] l0 Cons by simp
  qed
  have "feeds (g_parsefile (set_file pf2 st0)) (d # s)" using mid(2) by simp
  from rt1_close [OF mid(3-5) mid(6) [unfolded l0(5)] assms(2) this assms(4), of k G strip] obtain l1 where
    l1: "between True (r_out l2 @ [CTLQUOTEMARK]) (Some d) l1"
      "rt1_loop (Suc k) G NoMark strip l2 (set_file pf2 st0) = rt1_loop k G NoMark strip l1 (set_file (nxt pf2) st0)" by auto
  have "rt1_loop (length t + 2 + k) G NoMark strip l st = rt1_loop (length t + 1 + k) G NoMark strip l0 st0"
    using open_q [of "length t + 1 + k" G strip] by (simp add: l0_def st0_def)
  then have "rt1_loop (length t + 2 + k) G NoMark strip l st = rt1_loop k G NoMark strip l1 (set_file (nxt pf2) st)"
    using mid(1) l1(2) by (simp add: st0_def)
  then show ?thesis using l1(1) mid(2,7) by (intro exI [of _ l1] exI [of _ "nxt pf2"]) (simp add: pgetc_feeds)
qed

lemma plain_not_special: "plain_char c \<Longrightarrow> c \<noteq> BSL \<and> sit (Some c) BASESYNTAX \<noteq> CCTL"
  using sit_special_chars(1) by (auto simp: plain_char_def)

lemma escaped_plain: "\<forall>c\<in>set s. sit (Some c) syn \<noteq> CCTL \<Longrightarrow> escaped syn s = s"
  by (induction s) (auto simp: escaped_def)

fun steps :: "wpart \<Rightarrow> nat" where
  "steps (Plain s) = length s"
| "steps (Single s) = length s + 2"
| "steps (Double s) = length s + 2"
| "steps (Param v) = 1"

lemma steps_src: "steps p \<le> length (src p)"
  by (cases p) auto

lemma rt1_plain:
  assumes "between q out (Some c) l" "\<forall>x\<in>set (c # cs). plain_char x" "feeds (g_parsefile st) (cs @ d # s)" "d \<noteq> BSL"
  shows "\<exists>l1 pf. feeds pf s \<and> feeds (pungetc pf) (d # s) \<and> between q (out @ c # cs) (Some d) l1 \<and>
     rt1_loop (length (c # cs) + k) G NoMark strip l st = rt1_loop k G NoMark strip l1 (set_file pf st)"
proof -
  have syn: "sy_syntax (r_syn l) = BASESYNTAX" "varnest (r_syn l) = 0" "r_c l = Some c" "r_out l = out"
    using assms(1) by (simp_all add: between_def new_syntax_def)
  have t: "\<forall>x\<in>set (c # cs). textual (r_syn l) x" using assms(2) by (auto simp: textual_def syn plain_char_def)
  have b: "BSL \<notin> set (cs @ [d]) \<or> sy_syntax (r_syn l) = SQSYNTAX" using assms(2,4) plain_not_special by auto
  from rt1_loop_chars [OF syn(3) t assms(3) b, of k G strip] obtain pf where pf: "feeds pf s" "feeds (pungetc pf) (d # s)"
      "rt1_loop (length (c # cs) + k) G NoMark strip l st
      = rt1_loop k G NoMark strip (l\<lparr>r_out := r_out l @ escaped (sy_syntax (r_syn l)) (c # cs), r_c := Some d\<rparr>) (set_file pf st)" by blast
  have e: "escaped BASESYNTAX (c # cs) = c # cs" using assms(2) plain_not_special by (intro escaped_plain) auto
  have "between q (out @ c # cs) (Some d) (l\<lparr>r_out := r_out l @ escaped (sy_syntax (r_syn l)) (c # cs), r_c := Some d\<rparr>)"
    using assms(1) by (simp add: between_def e syn new_syntax_def)
  then show ?thesis using pf by blast
qed

lemma rt1_part:
  assumes "part_ok p" "src p = c # cs" "between q out (Some c) l" "feeds (g_parsefile st) (cs @ d # s)" "d \<noteq> BSL" "CHKEOFMARK \<notin> checkkwd st"
  shows "\<exists>l1 pf. feeds pf s \<and> feeds (pungetc pf) (d # s) \<and> between (q \<or> is_quoted p) (out @ lexed p) (Some d) l1 \<and>
     rt1_loop (steps p + k) G NoMark strip l st = rt1_loop k G NoMark strip l1 (set_file pf st)"
proof (cases p)
  case (Plain t)
  then have t: "t = c # cs" "\<forall>x\<in>set (c # cs). plain_char x" using assms(1,2) by auto
  show ?thesis unfolding Plain t steps.simps lexed.simps is_quoted.simps simp_thms
    by (rule rt1_plain [OF assms(3) t(2) assms(4,5)])
next
  case (Single t)
  then have t: "c = SQ" "cs = t @ [SQ]" using assms(1,2) by auto
  have x: "\<forall>x\<in>set t. sit (Some x) (if SQ = SQ then SQSYNTAX else DQSYNTAX) \<in> {CWORD, CCTL, CNL}"
    unfolding if_P [OF refl] using assms(1) Single single_text by (metis part_ok.simps(2))
  have f: "feeds (g_parsefile st) (t @ SQ # d # s)" using assms(4) t by simp
  show ?thesis using rt1_quoted [OF assms(3) [unfolded t(1)] disjI1 [OF refl] f assms(5) x, of k G strip]
    unfolding Single steps.simps lexed.simps is_quoted.simps simp_thms if_True .
next
  case (Double t)
  then have t: "c = DQ" "cs = t @ [DQ]" using assms(1,2) by auto
  have n: "DQ \<noteq> SQ" by simp
  have x: "\<forall>x\<in>set t. sit (Some x) (if DQ = SQ then SQSYNTAX else DQSYNTAX) \<in> {CWORD, CCTL, CNL}"
    unfolding if_not_P [OF n] using assms(1) Double by (metis part_ok.simps(3))
  have f: "feeds (g_parsefile st) (t @ DQ # d # s)" using assms(4) t by simp
  show ?thesis using rt1_quoted [OF assms(3) [unfolded t(1)] disjI2 [OF refl] f assms(5) x, of k G strip]
    unfolding Double steps.simps lexed.simps is_quoted.simps simp_thms if_not_P [OF n] .
next
  case (Param v)
  then have v: "c = CHR ''$''" "cs = CHR ''{'' # v @ ''}''" "var_name v" using assms(1,2) by auto
  have f: "feeds (g_parsefile st) (CHR ''{'' # v @ CHR ''}'' # d # s)" using assms(4) v by simp
  show ?thesis using rt1_param [OF assms(3) [unfolded v(1)] v(3) f assms(5,6), of k G strip]
    unfolding Param steps.simps is_quoted.simps simp_thms plus_1_eq_Suc .
qed

text \<open>A word: its parts, up to a character that ends it.\<close>

definition wsrc :: "wpart list \<Rightarrow> cstr" where
  "wsrc w = concat (map src w)"

definition wlexed :: "wpart list \<Rightarrow> cstr" where
  "wlexed w = concat (map lexed w)"

definition wquoted :: "wpart list \<Rightarrow> bool" where
  "wquoted w \<longleftrightarrow> (\<exists>p\<in>set w. is_quoted p)"

definition word_ok :: "wpart list \<Rightarrow> bool" where
  "word_ok w \<longleftrightarrow> w \<noteq> [] \<and> (\<forall>p\<in>set w. part_ok p) \<and> hd (wsrc w) \<noteq> CHR ''#''"

lemma src_Cons: "part_ok p \<Longrightarrow> \<exists>c cs. src p = c # cs \<and> sit (Some c) BASESYNTAX \<in> {CWORD, CENDVAR, CSQUOTE, CDQUOTE, CVAR}"
proof (cases p)
  case (Plain t)
  then show "part_ok p \<Longrightarrow> ?thesis" by (cases t) (auto simp: plain_char_def)
qed (simp_all add: sit_quotes)

lemma src_first: "part_ok p \<Longrightarrow> src p = c # cs \<Longrightarrow> c \<noteq> BSL"
  using src_Cons [of p] sit_special_chars(1) by auto

lemma wsrc_first:
  assumes "\<forall>p\<in>set w. part_ok p" "wsrc w @ d # s = e # r" "d \<noteq> BSL"
  shows "e \<noteq> BSL"
proof (cases w)
  case (Cons p w')
  then obtain c cs where "src p = c # cs" using src_Cons [of p] assms(1) by auto
  then show ?thesis using Cons assms src_first by (auto simp: wsrc_def)
qed (use assms in \<open>simp add: wsrc_def\<close>)

lemma rt1_word:
  assumes "\<forall>p\<in>set w. part_ok p" "wsrc w @ d # s = c # r" "between q out (Some c) l" "feeds (g_parsefile st) r" "feeds (pungetc (g_parsefile st)) (c # r)"
    "d \<noteq> BSL" "CHKEOFMARK \<notin> checkkwd st"
  shows "\<exists>l1 pf. feeds pf s \<and> feeds (pungetc pf) (d # s) \<and> between (q \<or> wquoted w) (out @ wlexed w) (Some d) l1 \<and>
     rt1_loop (sum_list (map steps w) + k) G NoMark strip l st = rt1_loop k G NoMark strip l1 (set_file pf st)"
  using assms
proof (induction w arbitrary: q out c l st r)
  case Nil
  then show ?case by (intro exI [of _ l] exI [of _ "g_parsefile st"]) (simp add: wquoted_def wlexed_def wsrc_def)
next
  case (Cons p w)
  have p: "part_ok p" "\<forall>p\<in>set w. part_ok p" using Cons.prems(1) by auto
  obtain c1 cs where c: "src p = c1 # cs" using src_Cons [OF p(1)] by blast
  have c1: "c1 = c" "r = cs @ wsrc w @ d # s" using Cons.prems(2) c by (auto simp: wsrc_def)
  obtain e r' where e: "wsrc w @ d # s = e # r'" by (cases "wsrc w") auto
  note e_bsl = wsrc_first [OF p(2) e Cons.prems(6)]
  have f: "feeds (g_parsefile st) (cs @ e # r')" using Cons.prems(4) c1 e by simp
  obtain l1 pf where l1: "feeds pf r'" "feeds (pungetc pf) (e # r')" "between (q \<or> is_quoted p) (out @ lexed p) (Some e) l1"
     "rt1_loop (steps p + (sum_list (map steps w) + k)) G NoMark strip l st = rt1_loop (sum_list (map steps w) + k) G NoMark strip l1 (set_file pf st)"
    using rt1_part [OF p(1) c Cons.prems(3) [folded c1(1)] f e_bsl Cons.prems(7)] by blast
  obtain l2 pf2 where "feeds pf2 s" "feeds (pungetc pf2) (d # s)" "between ((q \<or> is_quoted p) \<or> wquoted w) ((out @ lexed p) @ wlexed w) (Some d) l2"
     "rt1_loop (sum_list (map steps w) + k) G NoMark strip l1 (set_file pf st) = rt1_loop k G NoMark strip l2 (set_file pf2 (set_file pf st))"
    using Cons.IH [OF p(2) e l1(3), of "set_file pf st"] l1(1,2) Cons.prems(6,7) by auto
  then show ?case using l1(4) by (intro exI [of _ l2] exI [of _ pf2]) (simp add: wquoted_def wlexed_def add.assoc disj_assoc)
qed

section \<open>The token of a word\<close>

definition ends_word :: "char \<Rightarrow> bool" where
  "ends_word d \<longleftrightarrow> d \<noteq> CHR ''<'' \<and> d \<noteq> CHR ''>'' \<and> sit (Some d) BASESYNTAX \<in> {CSPCL, CNL}"

lemma ends_word_bsl: "ends_word d \<Longrightarrow> d \<noteq> BSL"
  using sit_special_chars(1) by (auto simp: ends_word_def)

definition word_read :: "wpart list \<Rightarrow> parsefile \<Rightarrow> pstate \<Rightarrow> pstate" where
  "word_read w pf st = st\<lparr>g_parsefile := pf, quoteflag := wquoted w, backquotelist := [], wordtext := wlexed w, lasttoken := TWORD\<rparr>"

lemma steps_wsrc: "sum_list (map steps w) \<le> length (wsrc w)"
  unfolding wsrc_def by (induction w) (auto intro: add_mono steps_src)

lemma readtoken1_word:
  assumes "\<forall>p\<in>set w. part_ok p" "wsrc w @ d # s = c # r" "feeds (g_parsefile st) r" "feeds (pungetc (g_parsefile st)) (c # r)"
    "ends_word d" "CHKEOFMARK \<notin> checkkwd st" "length (wsrc w) < k"
  shows "\<exists>pf. feeds pf (d # s) \<and> readtoken1 k G (Some c) BASESYNTAX NoMark False st = Inr (TWORD, word_read w pf st)"
proof -
  obtain k1 where k1: "k = sum_list (map steps w) + Suc k1" using steps_wsrc [of w] assms(7) less_iff_Suc_add by (metis add_Suc_right le_less_trans)
  have "between False [] (Some c) (rt1_start BASESYNTAX (Some c))" by (simp add: between_def rt1_start_def new_syntax_def)
  from rt1_word [OF assms(1,2) this assms(3,4) ends_word_bsl [OF assms(5)] assms(6), of "Suc k1" G False] obtain l1 pf where
    l1: "feeds pf s" "feeds (pungetc pf) (d # s)" "between (False \<or> wquoted w) ([] @ wlexed w) (Some d) l1"
      "rt1_loop k G NoMark False (rt1_start BASESYNTAX (Some c)) st = rt1_loop (Suc k1) G NoMark False l1 (set_file pf st)"
    unfolding k1 by blast
  have b: "r_c l1 = Some d" "r_out l1 = wlexed w" "r_bqlist l1 = []" "r_quotef l1 = wquoted w" "r_syn l1 = new_syntax BASESYNTAX"
    using l1(3) by (simp_all add: between_def)
  have "rt1_step G NoMark l1 (set_file pf st) = Inr ((EndWord, l1), set_file pf st)"
    using assms(5) by (auto simp: rt1_step_def b ends_word_def new_syntax_def pret_def Let_def)
  then have "rt1_loop k G NoMark False (rt1_start BASESYNTAX (Some c)) st = Inr (l1, set_file pf st)"
    unfolding l1(4) by (simp add: rt1_loop.simps monad_simps)
  then have "readtoken1 k G (Some c) BASESYNTAX NoMark False st = rt1_end NoMark l1 (set_file pf st)"
    by (simp add: readtoken1_def monad_simps on_file_eq checkend_def)
  also have "\<dots> = Inr (TWORD, word_read w (pungetc pf) st)"
    using assms(5) by (auto simp: rt1_end_def Let_def b new_syntax_def ends_word_def monad_simps unread_def pset_def word_read_def set_file_def)
  finally show ?thesis using l1(2) by blast
qed

lemma token_start_char:
  assumes "feeds pf (c # s)" "c \<noteq> SP" "c \<noteq> TAB" "c \<noteq> CHR ''#''" "c \<noteq> BSL"
  shows "token_start pf = (Some c, nxt pf)"
  using assms by (simp add: token_start.simps [of pf] eatbnl_feeds)

lemma token_start_blank:
  assumes "feeds pf (SP # s)"
  shows "token_start pf = token_start (nxt pf)"
  using assms by (simp add: token_start.simps [of pf] eatbnl_feeds)

lemma token_start_end:
  assumes "feeds pf []"
  shows "token_start pf = (None, nxt pf)"
  using assms by (simp add: token_start.simps [of pf] eatbnl_feeds_end)

lemma word_start:
  assumes "word_ok w" "wsrc w @ d # s = c # r"
  shows "single_token c = None" "c \<noteq> SP" "c \<noteq> TAB" "c \<noteq> CHR ''#''" "c \<noteq> BSL"
proof -
  obtain p w' where w: "w = p # w'" "part_ok p" using assms(1) by (cases w) (auto simp: word_ok_def)
  obtain x xs where x: "src p = x # xs" "sit (Some x) BASESYNTAX \<in> {CWORD, CENDVAR, CSQUOTE, CDQUOTE, CVAR}" using src_Cons [OF w(2)] by blast
  then have "x = c" using assms(2) w by (simp add: wsrc_def)
  then have c: "sit (Some c) BASESYNTAX \<in> {CWORD, CENDVAR, CSQUOTE, CDQUOTE, CVAR}" using x by simp
  have n: "x \<noteq> c" if "sit (Some x) BASESYNTAX \<in> {CSPCL, CNL, CBACK}" for x using c that by auto
  have "NL \<noteq> c" "CHR ''('' \<noteq> c" "CHR '')'' \<noteq> c" "CHR ''&'' \<noteq> c" "CHR ''|'' \<noteq> c" "CHR '';'' \<noteq> c"
    by (rule n, simp only: sit_special_chars insert_iff simp_thms)+
  then show "single_token c = None" unfolding single_token_def by simp
  have "SP \<noteq> c" "TAB \<noteq> c" "BSL \<noteq> c" by (rule n, simp only: sit_special_chars sit_quotes insert_iff simp_thms)+
  then show "c \<noteq> SP" "c \<noteq> TAB" "c \<noteq> BSL" by metis+
  show "c \<noteq> CHR ''#''" using assms(1) w x \<open>x = c\<close> by (simp add: word_ok_def wsrc_def)
qed

lemma xxreadtoken_word:
  assumes "word_ok w" "feeds (g_parsefile st) (wsrc w @ d # s) \<or> feeds (g_parsefile st) (SP # wsrc w @ d # s)" "\<not> tokpushback st"
    "ends_word d" "CHKEOFMARK \<notin> checkkwd st" "length (wsrc w) < k"
  shows "\<exists>pf. feeds pf (d # s) \<and> xxreadtoken k G st = Inr (TWORD, word_read w pf st)"
proof -
  obtain c r where c: "wsrc w @ d # s = c # r" by (cases "wsrc w") auto
  note ws = word_start [OF assms(1) c]
  obtain pf0 where pf0: "feeds pf0 (c # r)" "token_start (g_parsefile st) = (Some c, nxt pf0)"
    using assms(2) unfolding c using token_start_char [OF _ ws(2-5)] token_start_blank pgetc_feeds(2) by metis
  let ?st = "set_file (nxt pf0) st"
  have f: "feeds (g_parsefile ?st) r" "feeds (pungetc (g_parsefile ?st)) (c # r)" "CHKEOFMARK \<notin> checkkwd ?st"
    using pgetc_feeds [OF pf0(1)] assms(5) by simp_all
  obtain pf where "feeds pf (d # s)" "readtoken1 k G (Some c) BASESYNTAX NoMark False ?st = Inr (TWORD, word_read w pf ?st)"
    using readtoken1_word [OF _ c f(1,2) assms(4) f(3) assms(6)] assms(1) by (auto simp: word_ok_def)
  moreover have "word_read w pf ?st = word_read w pf st" by (simp add: word_read_def set_file_def)
  ultimately show ?thesis using assms(3) pf0(2) ws(1)
    by (intro exI [of _ pf]) (simp add: xxreadtoken_def monad_simps on_file_eq)
qed

section \<open>Quoting for re-reading\<close>

text \<open>\<open>single_quote\<close>: text without single quotes in single quotes, runs of single quotes in double quotes.\<close>

lemma quote_run_shorter: "dropWhile (\<lambda>c. c \<noteq> SQ) s \<noteq> [] \<Longrightarrow> length (dropWhile (\<lambda>c. c = SQ) (dropWhile (\<lambda>c. c \<noteq> SQ) s)) < length s"
proof -
  assume "dropWhile (\<lambda>c. c \<noteq> SQ) s \<noteq> []"
  then obtain r where r: "dropWhile (\<lambda>c. c \<noteq> SQ) s = SQ # r" using dropWhile_Cons_hd [of "\<lambda>c. c \<noteq> SQ" s] by (cases "dropWhile (\<lambda>c. c \<noteq> SQ) s") auto
  have "length (dropWhile (\<lambda>c. c = SQ) (SQ # r)) \<le> length r" using length_dropWhile_le [of "\<lambda>c. c = SQ" r] by simp
  moreover have "length (SQ # r) \<le> length s" using length_dropWhile_le [of "\<lambda>c. c \<noteq> SQ" s] r by simp
  ultimately show ?thesis unfolding r by simp
qed

function single_quote :: "cstr \<Rightarrow> cstr" where
  "single_quote s =
     (let r = dropWhile (\<lambda>c. c \<noteq> SQ) s; r' = dropWhile (\<lambda>c. c = SQ) r
      in SQ # takeWhile (\<lambda>c. c \<noteq> SQ) s @ [SQ] @
         (if r = [] then []
          else DQ # takeWhile (\<lambda>c. c = SQ) r @ [DQ] @ (if r' = [] then [] else single_quote r')))"
  by auto
termination by (relation "measure length") (auto simp: quote_run_shorter)

declare single_quote.simps [simp del]

function quote_parts :: "cstr \<Rightarrow> wpart list" where
  "quote_parts s =
     (let r = dropWhile (\<lambda>c. c \<noteq> SQ) s; r' = dropWhile (\<lambda>c. c = SQ) r
      in Single (takeWhile (\<lambda>c. c \<noteq> SQ) s) #
         (if r = [] then [] else Double (takeWhile (\<lambda>c. c = SQ) r) # (if r' = [] then [] else quote_parts r')))"
  by auto
termination by (relation "measure length") (auto simp: quote_run_shorter)

declare quote_parts.simps [simp del]

lemma quote_cases:
  obtains "SQ \<notin> set s" "quote_parts s = [Single s]" "single_quote s = SQ # s @ [SQ]"
  | a b r where "s = a @ b @ r" "SQ \<notin> set a" "\<forall>c\<in>set b. c = SQ" "length r < length s"
      "quote_parts s = Single a # Double b # (if r = [] then [] else quote_parts r)"
      "single_quote s = SQ # a @ [SQ] @ DQ # b @ [DQ] @ (if r = [] then [] else single_quote r)"
proof (cases "dropWhile (\<lambda>c. c \<noteq> SQ) s = []")
  case True
  moreover from this have "takeWhile (\<lambda>c. c \<noteq> SQ) s = s" using takeWhile_dropWhile_id [of "\<lambda>c. c \<noteq> SQ" s] by simp
  ultimately have "SQ \<notin> set s" "quote_parts s = [Single s]" "single_quote s = SQ # s @ [SQ]"
    by (auto simp: quote_parts.simps [of s] single_quote.simps [of s] Let_def)
  then show ?thesis by (rule that(1))
next
  case False
  define a b r where "a = takeWhile (\<lambda>c. c \<noteq> SQ) s" and "b = takeWhile (\<lambda>c. c = SQ) (dropWhile (\<lambda>c. c \<noteq> SQ) s)"
    and "r = dropWhile (\<lambda>c. c = SQ) (dropWhile (\<lambda>c. c \<noteq> SQ) s)"
  show ?thesis
  proof (rule that(2))
    show "s = a @ b @ r" by (simp add: a_def b_def r_def)
    show "SQ \<notin> set a" by (auto simp: a_def dest: set_takeWhileD)
    show "\<forall>c\<in>set b. c = SQ" by (auto simp: b_def dest: set_takeWhileD)
    show "length r < length s" unfolding r_def by (rule quote_run_shorter [OF False])
    show "quote_parts s = Single a # Double b # (if r = [] then [] else quote_parts r)"
      unfolding a_def b_def r_def quote_parts.simps [of s] Let_def by (simp only: False if_False)
    show "single_quote s = SQ # a @ [SQ] @ DQ # b @ [DQ] @ (if r = [] then [] else single_quote r)"
      unfolding a_def b_def r_def single_quote.simps [of s] Let_def by (simp only: False if_False)
  qed
qed

lemma wsrc_quote_parts: "wsrc (quote_parts s) = single_quote s"
proof (induction "length s" arbitrary: s rule: less_induct)
  case less
  then show ?case by (cases s rule: quote_cases) (auto simp: wsrc_def)
qed

lemma double_quote_text: "c = SQ \<Longrightarrow> sit (Some c) DQSYNTAX \<in> {CWORD, CCTL, CNL}"
proof -
  have "sit (Some SQ) DQSYNTAX = CWORD" by code_simp
  then show "c = SQ \<Longrightarrow> ?thesis" by simp
qed

lemma quote_parts_ok: "p \<in> set (quote_parts s) \<Longrightarrow> part_ok p"
proof (induction "length s" arbitrary: s rule: less_induct)
  case less
  show ?case
  proof (cases s rule: quote_cases)
    case 1
    then show ?thesis using less.prems by simp
  next
    case (2 a b r)
    then consider "p = Single a" | "p = Double b" | "p \<in> set (quote_parts r)" using less.prems by (auto split: if_splits)
    then show ?thesis
    proof cases
      case 2
      moreover have "\<forall>c\<in>set b. sit (Some c) DQSYNTAX \<in> {CWORD, CCTL, CNL}" using \<open>\<forall>c\<in>set b. c = SQ\<close> double_quote_text by blast
      ultimately show ?thesis by (simp only: part_ok.simps)
    qed (use 2(2) less.hyps [OF 2(4)] in simp_all)
  qed
qed

lemma rmesc_escaped:
  assumes "\<forall>c\<in>set s. c = CTLESC \<or> c = CTLQUOTEMARK \<longrightarrow> sit (Some c) syn = CCTL"
  shows "rmesc_loop False False (escaped syn s @ r) = s @ rmesc_loop False False r"
  using assms
proof (induction s)
  case (Cons c s)
  have "rmesc_loop False False (escaped syn [c] @ t) = c # rmesc_loop False False t" for t
  proof (cases "sit (Some c) syn = CCTL")
    case False
    then have "c \<noteq> CTLESC" "c \<noteq> CTLQUOTEMARK" using Cons.prems by auto
    then show ?thesis using False by (simp add: escaped_def)
  qed (simp add: escaped_def)
  moreover have "escaped syn (c # s) @ r = escaped syn [c] @ (escaped syn s @ r)" using escaped_append [of syn "[c]" s] by simp
  ultimately show ?case using Cons by simp
qed simp

lemma sit_marks: "sit (Some CTLESC) SQSYNTAX = CCTL" "sit (Some CTLQUOTEMARK) SQSYNTAX = CCTL"
  by code_simp+

lemma rmesc_quote_parts: "rmesc_loop False False (wlexed (quote_parts s)) = s"
proof (induction "length s" arbitrary: s rule: less_induct)
  case less
  have e: "rmesc_loop False False (escaped SQSYNTAX a @ x) = a @ rmesc_loop False False x" for a x
    using sit_marks by (intro rmesc_escaped) auto
  show ?case
  proof (cases s rule: quote_cases)
    case 1
    then show ?thesis by (simp add: wlexed_def e)
  next
    case (2 a b r)
    have "\<forall>c\<in>set b. c = CTLESC \<or> c = CTLQUOTEMARK \<longrightarrow> sit (Some c) DQSYNTAX = CCTL" using 2(3) by auto
    note eb = rmesc_escaped [OF this]
    have "rmesc_loop False False (wlexed (if r = [] then [] else quote_parts r)) = r" using less [OF 2(4)] by (simp add: wlexed_def)
    moreover have "wlexed (quote_parts s) = CTLQUOTEMARK # escaped SQSYNTAX a @ CTLQUOTEMARK # CTLQUOTEMARK # escaped DQSYNTAX b @ CTLQUOTEMARK #
        wlexed (if r = [] then [] else quote_parts r)" unfolding 2(5) by (simp add: wlexed_def)
    ultimately show ?thesis using 2(1) by (simp add: e eb)
  qed
qed

lemma quote_parts_first: "\<exists>a w. quote_parts s = Single a # w"
  by (cases s rule: quote_cases) auto

lemma quote_parts_word: "word_ok (quote_parts s)" "wquoted (quote_parts s)"
  using quote_parts_first [of s] quote_parts_ok [of _ s] by (auto simp: word_ok_def wsrc_def wquoted_def)

lemma quote_parts_marked: "rmescapes False (wlexed (quote_parts s)) = s"
proof -
  obtain x where x: "wlexed (quote_parts s) = CTLQUOTEMARK # x" using quote_parts_first [of s] by (auto simp: wlexed_def)
  show ?thesis using rmesc_quote_parts [of s] unfolding rmescapes_def Let_def x by simp
qed

lemma single_quote_word:
  assumes "ends_word d" and "length (single_quote s) < k"
  shows "\<exists>st. readtoken k G (string_state (single_quote s @ d # rest)) = Inr (TWORD, st) \<and> quoteflag st \<and> backquotelist st = [] \<and>
     wordtext st = wlexed (quote_parts s) \<and> feeds (g_parsefile st) (d # rest)"
proof -
  let ?st = "string_state (single_quote s @ d # rest)"
  have f: "feeds (g_parsefile ?st) (wsrc (quote_parts s) @ d # rest)" "\<not> tokpushback ?st" "checkkwd ?st = {}"
    by (simp_all add: string_state_def feeds_def wsrc_quote_parts)
  obtain pf where pf: "feeds pf (d # rest)" "xxreadtoken k G ?st = Inr (TWORD, word_read (quote_parts s) pf ?st)"
    using xxreadtoken_word [OF quote_parts_word(1) disjI1 [OF f(1)] f(2) assms(1), of k G] f(3) assms(2) by (auto simp: wsrc_quote_parts)
  then have "readtoken k G ?st = Inr (TWORD, (word_read (quote_parts s) pf ?st)\<lparr>checkkwd := {}\<rparr>)"
    using f(3) quote_parts_word(2) by (simp add: readtoken_def monad_simps pset_def word_read_def)
  then show ?thesis using pf(1) quote_parts_word(2) by (simp add: word_read_def)
qed

text \<open>C15: what \<open>single_quote\<close> prints (for \<open>set\<close>, \<open>export -p\<close> and traces) can be given back to the shell: for every string,
  the parser reads the quoted text as one quoted word without commands or parameters, the removal of
  quotes gives the string back, and the input continues behind the word.\<close>

theorem single_quote_reads_back:
  assumes "ends_word d" and "length (single_quote s) < k"
  shows "\<exists>st. readtoken k G (string_state (single_quote s @ d # rest)) = Inr (TWORD, st) \<and> quoteflag st \<and> backquotelist st = [] \<and>
     rmescapes False (wordtext st) = s \<and> feeds (g_parsefile st) (d # rest)"
  using single_quote_word [OF assms] quote_parts_marked by metis

theorem single_quote_reads_back_witness:
  "\<exists>st. readtoken 20 (grammar_at 20) (string_state (single_quote [CHR ''a'', SQ, CHR ''*''] @ NL # ''x'')) = Inr (TWORD, st) \<and>
     rmescapes False (wordtext st) = [CHR ''a'', SQ, CHR ''*'']"
proof -
  have "ends_word NL" by code_simp
  moreover have "length (single_quote [CHR ''a'', SQ, CHR ''*'']) < 20" by code_simp
  ultimately show ?thesis using single_quote_reads_back [of NL "[CHR ''a'', SQ, CHR ''*'']" 20 "grammar_at 20" "''x''"] by blast
qed

end
