(* ===== verification/Ash_Words.thy ===== *)
theory Ash_Words
  imports Ash_Glob Ash_Lex Ash_Arith
begin

text \<open>
  The expansion of words, \<open>shell/ash.c\<close>: \<open>argstr\<close> walks over the text of a word and expands tildes, parameters,
  command substitutions and arithmetic onto a string, with the regions that are to be split recorded on the
  side; \<open>expandarg\<close> splits it, expands the fields to pathnames and removes the quoting marks.  The configuration
  is that of the build: no substring and pattern substitution, no Unicode.

  The text that is left is a suffix of the word, \<open>None\<close> behind its terminating NUL; reading on there is the
  error \<open>Overrun\<close>.  The run of a substituted command and the user database are parameters.
\<close>

section \<open>Data\<close>

datatype xflag = EXP_FULL | EXP_TILDE | EXP_VARTILDE | EXP_CASE | EXP_VARTILDE2 | EXP_WORD | EXP_QUOTED | EXP_KEEPNUL | EXP_DISCARD

abbreviation quotes_of :: "xflag set \<Rightarrow> bool" where
  "quotes_of fl \<equiv> EXP_FULL \<in> fl \<or> EXP_CASE \<in> fl"

definition mem_flags :: "xflag set \<Rightarrow> exp_flags" where
  "mem_flags fl = \<lparr>quotes_esc = quotes_of fl, exp_quoted = (EXP_QUOTED \<in> fl), keepnul = (EXP_KEEPNUL \<in> fl)\<rparr>"

record wshell =
  w_vars :: ash_vars
  shellparam :: "cstr list option"
  arg0 :: cstr
  rootpid :: int
  backgndpid :: int

record xstate =
  expdest :: bytes
  ifsregions :: "ifsregion list"
  argbackq :: "pnode option list"
  shell :: wshell

record wenv = glob_env +
  getpwnam_dir :: "cstr \<Rightarrow> cstr option"
  evalbackcmd :: "pnode \<Rightarrow> wshell \<Rightarrow> bytes \<times> wshell"

text \<open>
  \<open>VarUnset\<close> carries the message.  Removing a prefix or suffix from a list of parameters that are separated by
  NULs is not modelled (\<open>TrimsList\<close>).
\<close>

datatype werror = BadSubstitution | VarUnset cstr | SetError ash_error | ArithError arith_err | TrimsList | Overrun | WordFuel

type_synonym 'a expand = "xstate \<Rightarrow> (werror + 'a) \<times> xstate"

definition xret :: "'a \<Rightarrow> 'a expand" where
  "xret x st = (Inr x, st)"

definition xfail :: "werror \<Rightarrow> 'a expand" where
  "xfail e st = (Inl e, st)"

definition xbind :: "'a expand \<Rightarrow> ('a \<Rightarrow> 'b expand) \<Rightarrow> 'b expand" where
  "xbind m f st = (case m st of (Inl e, st1) \<Rightarrow> (Inl e, st1) | (Inr x, st1) \<Rightarrow> f x st1)"

definition xget :: "(xstate \<Rightarrow> 'a) \<Rightarrow> 'a expand" where
  "xget f st = (Inr (f st), st)"

definition xset :: "(xstate \<Rightarrow> xstate) \<Rightarrow> unit expand" where
  "xset f st = (Inr (), f st)"

definition dest_len :: "nat expand" where
  "dest_len = xget (\<lambda>st. length (expdest st))"

definition put_dest :: "bytes \<Rightarrow> unit expand" where
  "put_dest s = xset (\<lambda>st. st\<lparr>expdest := expdest st @ s\<rparr>)"

definition cut_dest :: "nat \<Rightarrow> unit expand" where
  "cut_dest n = xset (\<lambda>st. st\<lparr>expdest := take n (expdest st)\<rparr>)"

definition record_region :: "nat \<Rightarrow> nat \<Rightarrow> bool \<Rightarrow> unit expand" where
  "record_region b e nul = xset (\<lambda>st. st\<lparr>ifsregions := recordregion b e nul (ifsregions st)\<rparr>)"

definition ifsfree :: "unit expand" where
  "ifsfree = xset (\<lambda>st. st\<lparr>ifsregions := []\<rparr>)"

text \<open>The C string on the stack at a position.\<close>

definition stack_str :: "nat \<Rightarrow> xstate \<Rightarrow> cstr" where
  "stack_str n st = takeWhile (\<lambda>c. c \<noteq> NUL) (drop n (expdest st))"

section \<open>Values\<close>

definition strtodest :: "cstr \<Rightarrow> xflag set \<Rightarrow> int expand" where
  "strtodest s fl = xbind (put_dest (memtodest (mem_flags fl) s)) (\<lambda>_. xret (int (length s)))"

definition cvtnum :: "int \<Rightarrow> xflag set \<Rightarrow> int expand" where
  "cvtnum n fl = (let s = memtodest (mem_flags fl) (dec_of_int n) in xbind (put_dest s) (\<lambda>_. xret (int (length s))))"

definition opt_set :: "nat \<Rightarrow> wshell \<Rightarrow> bool" where
  "opt_set i sh \<longleftrightarrow> i < length (optlist (w_vars sh)) \<and> optlist (w_vars sh) ! i"

definition optletters :: cstr where
  "optletters = ''efIimnscxvCabuE'' @ [NUL]"

definition opt_string :: "wshell \<Rightarrow> cstr" where
  "opt_string sh = map (\<lambda>i. optletters ! i) (filter (\<lambda>i. opt_set i sh \<and> optletters ! i \<noteq> NUL) (rev [0..<length optletters]))"

definition nparam :: "wshell \<Rightarrow> nat" where
  "nparam sh = (case shellparam sh of None \<Rightarrow> 0 | Some ps \<Rightarrow> length ps)"

definition ifsval :: "wshell \<Rightarrow> cstr option" where
  "ifsval sh = var_value (w_vars sh) ''IFS''"

text \<open>The separator that \<open>$*\<close> and \<open>$@\<close> put between the parameters.\<close>

definition param_sep :: "bool \<Rightarrow> bool \<Rightarrow> bool \<Rightarrow> cstr option \<Rightarrow> char option" where
  "param_sep at quoted full ifs =
     (if at \<and> quoted \<and> full then Some NUL
      else if quoted \<or> \<not> full then (case ifs of None \<Rightarrow> Some SP | Some [] \<Rightarrow> None | Some (c # _) \<Rightarrow> Some c)
      else Some (if ifs = None then SP else NUL))"

fun put_params :: "xflag set \<Rightarrow> char option \<Rightarrow> cstr list \<Rightarrow> int \<Rightarrow> int expand" where
  "put_params fl sep [] n = xret n"
| "put_params fl sep (p # ps) n =
     xbind (strtodest p fl) (\<lambda>i.
       case (ps, sep) of
         (_ # _, Some c) \<Rightarrow> xbind (put_dest (memtodest (mem_flags fl) [c])) (\<lambda>_. put_params fl sep ps (n + i + 1))
       | _ \<Rightarrow> put_params fl sep ps (n + i))"

definition put_value :: "cstr option \<Rightarrow> xflag set \<Rightarrow> int expand" where
  "put_value v fl = (case v of None \<Rightarrow> xret (- 1) | Some s \<Rightarrow> strtodest s fl)"

abbreviation VSMINUS :: nat where "VSMINUS \<equiv> 2"
abbreviation VSPLUS :: nat where "VSPLUS \<equiv> 3"
abbreviation VSQUESTION :: nat where "VSQUESTION \<equiv> 4"
abbreviation VSASSIGN :: nat where "VSASSIGN \<equiv> 5"

definition special_value :: "cstr \<Rightarrow> xflag set \<Rightarrow> bool \<Rightarrow> int expand" where
  "special_value name fl quoted =
     xbind (xget shell) (\<lambda>sh.
       let c = char_at name 0; full = (EXP_FULL \<in> fl)
       in if c = CHR ''$'' then cvtnum (rootpid sh) fl
          else if c = CHR ''?'' then cvtnum (exitstatus (w_vars sh)) fl
          else if c = CHR ''#'' then cvtnum (int (nparam sh)) fl
          else if c = CHR ''!'' then (if backgndpid sh = 0 then xret (- 1) else cvtnum (backgndpid sh) fl)
          else if c = CHR ''-'' then xbind (put_dest (opt_string sh)) (\<lambda>_. xret (int (length (opt_string sh))))
          else if c = CHR ''@'' \<or> c = CHR ''*'' then
            (case shellparam sh of
               None \<Rightarrow> xret (- 1)
             | Some ps \<Rightarrow> put_params fl (param_sep (c = CHR ''@'') quoted full (ifsval sh)) ps 0)
          else if isdigit c then
            (let num = atoi name
             in if num < 0 \<or> num > int (nparam sh) then xret (- 1)
                else put_value (if num = 0 then Some (arg0 sh) else map_option (\<lambda>ps. ps ! (nat num - 1)) (shellparam sh)) fl)
          else
            (case lookup_var name (w_vars sh) of
               (v, vars1) \<Rightarrow> xbind (xset (\<lambda>st. st\<lparr>shell := (shell st)\<lparr>w_vars := vars1\<rparr>\<rparr>)) (\<lambda>_. put_value v fl)))"

definition varvalue :: "cstr \<Rightarrow> nat \<Rightarrow> xflag set \<Rightarrow> bool \<Rightarrow> int expand" where
  "varvalue name varflags fl quoted =
     (let subtype = varflags mod 16; discard = (subtype = VSPLUS \<or> subtype = VSLENGTH \<or> EXP_DISCARD \<in> fl)
      in if subtype = 0 then (if discard then xret (- 1) else xbind ifsfree (\<lambda>_. xfail BadSubstitution))
         else xbind (special_value name (insert EXP_KEEPNUL fl - (if discard then {EXP_FULL, EXP_CASE} else {})) quoted) (\<lambda>len.
              if len < 0 \<or> \<not> discard then xret len
              else xbind dest_len (\<lambda>n. xbind (cut_dest (n - nat len)) (\<lambda>_. xret len))))"

section \<open>Tildes, substitutions and arithmetic\<close>

text \<open>The name behind a tilde and the text behind the name; none when a quoting mark comes first.\<close>

fun tilde_name :: "bool \<Rightarrow> cstr \<Rightarrow> (cstr \<times> cstr) option" where
  "tilde_name vartilde [] = Some ([], [])"
| "tilde_name vartilde (c # p) =
     (if c = CTLESC \<or> c = CTLQUOTEMARK then None
      else if c = CHR '':'' \<and> vartilde \<or> c = CHR ''/'' \<or> c = CTLENDVAR then Some ([], c # p)
      else map_option (\<lambda>(n, r). (c # n, r)) (tilde_name vartilde p))"

definition exptilde :: "wenv \<Rightarrow> cstr \<Rightarrow> xflag set \<Rightarrow> cstr expand" where
  "exptilde E startp fl =
     (case tilde_name (EXP_VARTILDE \<in> fl) (tl startp) of
        None \<Rightarrow> xret startp
      | Some (name, p) \<Rightarrow>
          if EXP_DISCARD \<in> fl then xret p
          else xbind (xget (\<lambda>st. if name = [] then var_value (w_vars (shell st)) ''HOME'' else getpwnam_dir E name)) (\<lambda>home.
                 case home of
                   None \<Rightarrow> xret startp
                 | Some h \<Rightarrow> xbind (strtodest h (insert EXP_QUOTED fl)) (\<lambda>_. xret p)))"

text \<open>Trailing newlines of the output, back to the position where it starts.\<close>

definition strip_newlines_at :: "nat \<Rightarrow> bytes \<Rightarrow> bytes" where
  "strip_newlines_at n s = take n s @ rev (dropWhile (\<lambda>c. c = NL) (rev (drop n s)))"

definition expbackq_word :: "wenv \<Rightarrow> xflag set \<Rightarrow> unit expand" where
  "expbackq_word E fl st =
     (case argbackq st of
        [] \<Rightarrow> (Inl Overrun, st)
      | cmd # rest \<Rightarrow>
          if EXP_DISCARD \<in> fl then (Inr (), st\<lparr>argbackq := rest\<rparr>)
          else let startloc = length (expdest st);
                   (out, sh) = (case cmd of None \<Rightarrow> ([], shell st) | Some n \<Rightarrow> evalbackcmd E n (shell st));
                   dest = strip_newlines_at startloc (expdest st @ memtodest (mem_flags fl) out);
                   regions = (if EXP_QUOTED \<in> fl then ifsregions st else recordregion startloc (length dest) False (ifsregions st))
               in (Inr (), st\<lparr>expdest := dest, shell := sh, ifsregions := regions, argbackq := rest\<rparr>))"

definition run_arith :: "cstr \<Rightarrow> int expand" where
  "run_arith s st =
     (case ash_arith s (w_vars (shell st)) of
        (Inl e, vars1) \<Rightarrow> (Inl (ArithError e), st\<lparr>shell := (shell st)\<lparr>w_vars := vars1\<rparr>\<rparr>)
      | (Inr x, vars1) \<Rightarrow> (Inr (sint x), st\<lparr>shell := (shell st)\<lparr>w_vars := vars1\<rparr>\<rparr>))"

definition set_variable :: "cstr \<Rightarrow> cstr \<Rightarrow> unit expand" where
  "set_variable name val st =
     (case setvar0 name val (w_vars (shell st)) of
        Inl (e, vars1) \<Rightarrow> (Inl (SetError e), st\<lparr>shell := (shell st)\<lparr>w_vars := vars1\<rparr>\<rparr>)
      | Inr vars1 \<Rightarrow> (Inr (), st\<lparr>shell := (shell st)\<lparr>w_vars := vars1\<rparr>\<rparr>))"

text \<open>What follows calls \<open>argstr\<close>, which is an argument until it is defined.\<close>

type_synonym arg_walk = "cstr \<Rightarrow> xflag set \<Rightarrow> cstr option expand"

definition expari :: "arg_walk \<Rightarrow> cstr \<Rightarrow> xflag set \<Rightarrow> cstr option expand" where
  "expari A start fl =
     xbind dest_len (\<lambda>begoff.
     xbind (A start (fl \<inter> {EXP_DISCARD})) (\<lambda>p.
       if EXP_DISCARD \<in> fl then xret p
       else xbind (xget (stack_str begoff)) (\<lambda>s.
            xbind (cut_dest begoff) (\<lambda>_.
            xbind (xset (\<lambda>st. st\<lparr>ifsregions := removerecordregions begoff (ifsregions st)\<rparr>)) (\<lambda>_.
            xbind (run_arith (if quotes_of fl then rmescapes False s else s)) (\<lambda>result.
            xbind (cvtnum result fl) (\<lambda>len.
            xbind (if EXP_QUOTED \<in> fl then xret () else record_region begoff (begoff + nat len) False) (\<lambda>_.
              xret p))))))))"

section \<open>Parameters\<close>

text \<open>\<open>varunset\<close>: \<open>end\<close> is the text behind the equals sign of \<open>var\<close>.\<close>

definition varunset :: "cstr \<Rightarrow> cstr \<Rightarrow> cstr option \<Rightarrow> nat \<Rightarrow> 'a expand" where
  "varunset end_text var umsg varflags =
     (let empty_word = (char_at end_text 0 = CTLENDVAR);
          msg = (case umsg of Some m \<Rightarrow> if empty_word then ''parameter not set'' else m | None \<Rightarrow> ''parameter not set'');
          tail = (if umsg \<noteq> None \<and> empty_word \<and> varflags div 16 mod 2 = 1 then '' or null'' else [])
      in xbind ifsfree (\<lambda>_. xfail (VarUnset (take (length var - length end_text - 1) var @ '': '' @ msg @ tail))))"

definition trim_of :: "nat \<Rightarrow> trim_type" where
  "trim_of subtype = (if subtype = 6 then VSTRIMRIGHT else if subtype = 7 then VSTRIMRIGHTMAX else if subtype = 8 then VSTRIMLEFT else VSTRIMLEFTMAX)"

definition cut_at :: "nat \<Rightarrow> unit expand" where
  "cut_at startloc = xset (\<lambda>st. st\<lparr>ifsregions := removerecordregions startloc (ifsregions st)\<rparr>)"

definition subevalvar :: "arg_walk \<Rightarrow> wenv \<Rightarrow> cstr \<Rightarrow> cstr option \<Rightarrow> nat \<Rightarrow> nat \<Rightarrow> nat \<Rightarrow> xflag set \<Rightarrow> cstr option expand" where
  "subevalvar A E start str strloc startloc varflags fl =
     (let subtype = varflags mod 16
      in xbind (A start ((fl \<inter> {EXP_DISCARD}) \<union> {EXP_TILDE} \<union> (if str = None then {EXP_CASE} else {}))) (\<lambda>p.
           if EXP_DISCARD \<in> fl then xret p
           else xbind (xget id) (\<lambda>st.
             case str of
               Some var \<Rightarrow>
                 if subtype = VSASSIGN then
                   xbind (set_variable var (stack_str startloc st)) (\<lambda>_.
                   xbind (cut_dest startloc) (\<lambda>_. xbind (cut_at startloc) (\<lambda>_. xret p)))
                 else varunset start var (Some (stack_str startloc st)) varflags
             | None \<Rightarrow>
                 let val = drop startloc (take (strloc - 1) (expdest st))
                 in if NUL \<in> set val then xfail TrimsList
                    else xbind (xset (\<lambda>st1. st1\<lparr>expdest := take startloc (expdest st1)
                           @ subevalvar_trim (pmatch E) (quotes_of fl) (trim_of subtype) val (stack_str strloc st1)\<rparr>)) (\<lambda>_.
                         xbind (cut_at startloc) (\<lambda>_. xret p)))))"

definition record_value :: "cstr \<Rightarrow> bool \<Rightarrow> nat \<Rightarrow> cstr option \<Rightarrow> cstr option expand" where
  "record_value var quoted startloc p =
     xbind (xget id) (\<lambda>st.
       let nul = (char_at var 0 = CHR ''@'' \<and> nparam (shell st) \<noteq> 0)
       in if quoted \<and> \<not> nul then xret p
          else xbind (record_region startloc (length (expdest st)) (quoted \<and> nul)) (\<lambda>_. xret p))"

text \<open>The operators that use the value itself: the length, the value, and the value without a prefix or suffix.\<close>

definition eval_plain :: "arg_walk \<Rightarrow> wenv \<Rightarrow> cstr \<Rightarrow> cstr option \<Rightarrow> nat \<Rightarrow> nat \<Rightarrow> int \<Rightarrow> nat \<Rightarrow> xflag set \<Rightarrow> cstr option expand" where
  "eval_plain A E var p varflags subtype varlen startloc fl =
     (let discard = (varlen < 0); quoted = (EXP_QUOTED \<in> fl);
          recorded = (\<lambda>fl1 p1. if EXP_DISCARD \<in> fl1 \<or> discard then xret p1 else record_value var quoted startloc p1)
      in xbind (xget shell) (\<lambda>sh.
         if discard \<and> EXP_DISCARD \<notin> fl \<and> opt_set 13 sh then
           (case p of None \<Rightarrow> xfail Overrun | Some q \<Rightarrow> varunset q var None 0)
         else if subtype = VSLENGTH then
           (case p of
              None \<Rightarrow> xfail Overrun
            | Some [] \<Rightarrow> xfail Overrun
            | Some (_ # q) \<Rightarrow>
                if EXP_DISCARD \<in> fl then xret (Some q)
                else xbind (cvtnum (if varlen > 0 then varlen else 0) fl) (\<lambda>_. record_value var quoted startloc (Some q)))
         else if subtype = VSNORMAL then recorded fl p
         else
           (case p of
              None \<Rightarrow> xfail Overrun
            | Some q \<Rightarrow>
                let fl1 = fl \<union> (if discard then {EXP_DISCARD} else {})
                in xbind (if EXP_DISCARD \<in> fl1 then xret () else put_dest [NUL]) (\<lambda>_.
                   xbind dest_len (\<lambda>patloc.
                   xbind (subevalvar A E q None patloc startloc varflags fl1) (\<lambda>p1. recorded fl1 p1))))))"

definition evalvar :: "arg_walk \<Rightarrow> wenv \<Rightarrow> cstr \<Rightarrow> xflag set \<Rightarrow> cstr option expand" where
  "evalvar A E p fl =
     (case p of
        [] \<Rightarrow> xfail Overrun
      | vf # var \<Rightarrow>
          (case strchr var EQ of
             None \<Rightarrow> xfail Overrun
           | Some eq \<Rightarrow>
               let varflags = ch vf; subtype = varflags mod 16; quoted = (EXP_QUOTED \<in> fl); vsnul = (varflags div 16 mod 2 = 1); q = tl eq
               in xbind dest_len (\<lambda>startloc.
                  xbind (varvalue var varflags fl quoted) (\<lambda>len.
                    let varlen = (if vsnul then len - 1 else len); discard = (varlen < 0)
                    in if subtype = VSPLUS \<or> subtype = 0 \<or> subtype = VSMINUS then
                         (let discard1 = (if subtype = VSPLUS then \<not> discard else discard)
                          in xbind (A q (fl \<union> {EXP_TILDE, EXP_WORD} \<union> (if discard1 then {} else {EXP_DISCARD}))) (\<lambda>p1.
                               if EXP_DISCARD \<in> fl \<or> discard1 then xret p1 else record_value var quoted startloc p1))
                       else if subtype = VSASSIGN \<or> subtype = VSQUESTION then
                         xbind (subevalvar A E q (Some var) 0 startloc varflags
                                  (fl - {EXP_FULL, EXP_CASE} \<union> (if discard then {} else {EXP_DISCARD}))) (\<lambda>p1.
                           if EXP_DISCARD \<in> fl \<or> \<not> discard then
                             (if EXP_DISCARD \<in> fl \<or> discard then xret p1 else record_value var quoted startloc p1)
                           else
                             let varflags1 = (if vsnul then varflags - VSNUL else varflags)
                             in xbind (varvalue var varflags1 fl quoted) (\<lambda>len1. eval_plain A E var p1 varflags1 VSNORMAL len1 startloc fl))
                       else eval_plain A E var (Some q) varflags subtype varlen startloc fl))))"

section \<open>The walk over a word\<close>

definition spclchars :: cstr where
  "spclchars = [EQ, CHR '':'', CTLQUOTEMARK, CTLENDVAR, CTLESC, CTLVAR, CTLBACKQ, CTLARI, CTLENDARI]"

definition reject_of :: "xflag set \<Rightarrow> cstr" where
  "reject_of fl = drop ((if EXP_VARTILDE2 \<in> fl then 1 else 0) + (if EXP_VARTILDE \<in> fl then 0 else 2)) spclchars"

definition ends_text :: "char \<Rightarrow> bool" where
  "ends_text c \<longleftrightarrow> c = NUL \<or> c = CTLENDARI \<or> c = CTLENDVAR"

text \<open>A piece of plain text is copied; the character that ends the text becomes NUL.\<close>

definition put_piece :: "xflag set \<Rightarrow> bool \<Rightarrow> cstr \<Rightarrow> bool \<Rightarrow> nat \<Rightarrow> nat expand" where
  "put_piece fl inquotes s fin startloc =
     (if (s = [] \<and> \<not> fin) \<or> EXP_DISCARD \<in> fl then xret startloc
      else xbind (put_dest (s @ (if fin \<and> EXP_WORD \<notin> fl then [NUL] else []))) (\<lambda>_.
           xbind dest_len (\<lambda>n.
             let newloc = (if fin \<and> EXP_WORD \<notin> fl then n - 1 else n)
             in xbind (if EXP_WORD \<in> fl \<and> EXP_QUOTED \<notin> fl \<and> \<not> inquotes \<and> newloc > startloc then record_region startloc newloc False else xret ()) (\<lambda>_.
                  xret newloc))))"

text \<open>
  The loop: flags, the characters to stop at, whether the text is quoted, how many characters of the text are taken
  already, the start of the region, and the text.
\<close>

type_synonym arg_loop = "xflag set \<Rightarrow> cstr \<Rightarrow> bool \<Rightarrow> nat \<Rightarrow> nat \<Rightarrow> cstr \<Rightarrow> cstr option expand"

definition start_loop :: "arg_loop \<Rightarrow> xflag set \<Rightarrow> cstr \<Rightarrow> bool \<Rightarrow> cstr option \<Rightarrow> cstr option expand" where
  "start_loop L fl reject inquotes p =
     (case p of None \<Rightarrow> xfail Overrun | Some q \<Rightarrow> xbind dest_len (\<lambda>startloc. L fl reject inquotes 0 startloc q))"

definition argstr_with :: "arg_loop \<Rightarrow> wenv \<Rightarrow> arg_walk" where
  "argstr_with L E p fl =
     (let fl1 = fl - {EXP_TILDE}
      in xbind (if EXP_TILDE \<in> fl \<and> char_at p 0 = CHR ''~'' then exptilde E p fl1 else xret p) (\<lambda>p1.
           start_loop L fl1 (reject_of fl) False (Some p1)))"

primrec argstr_loop :: "nat \<Rightarrow> wenv \<Rightarrow> arg_loop" where
  "argstr_loop 0 E fl reject inquotes len startloc p = xfail WordFuel"
| "argstr_loop (Suc k) E fl reject inquotes len startloc p =
     (if len > length p then xfail Overrun
      else
        let s = take len p @ takeWhile (\<lambda>c. c \<notin> set reject) (drop len p); c = char_at p (length s);
            fin = ends_text c; p1 = drop (Suc (length s)) p; flq = fl \<union> (if inquotes then {EXP_QUOTED} else {})
        in xbind (put_piece fl inquotes (if \<not> fin \<and> ch c < 128 then s @ [c] else s) fin startloc) (\<lambda>startloc1.
             if fin then xret (if c = NUL then None else Some p1)
             else if c = EQ \<or> c = CHR '':'' then
               (let fl1 = (if c = EQ then insert EXP_VARTILDE2 fl else fl); reject1 = (if c = EQ then tl reject else reject)
                in if char_at p1 0 = CHR ''~''
                   then xbind (exptilde E p1 fl1) (\<lambda>p2. start_loop (argstr_loop k E) fl1 reject1 inquotes (Some p2))
                   else argstr_loop k E fl1 reject1 inquotes 0 startloc1 p1)
             else if c = CTLQUOTEMARK then
               (if \<not> inquotes \<and> take 5 p1 = tl dolatstr
                then xbind (evalvar (argstr_with (argstr_loop k E) E) E (tl p1) (insert EXP_QUOTED fl)) (\<lambda>p2.
                       start_loop (argstr_loop k E) fl reject inquotes (case p2 of Some (_ # q) \<Rightarrow> Some q | _ \<Rightarrow> None))
                else if quotes_of fl then argstr_loop k E fl reject (\<not> inquotes) 1 (startloc1 + 1) (c # p1)
                else argstr_loop k E fl reject (\<not> inquotes) 0 startloc1 p1)
             else if c = CTLESC then
               (if quotes_of fl then argstr_loop k E fl reject inquotes 2 (startloc1 + 2) (c # p1)
                else argstr_loop k E fl reject inquotes 1 (startloc1 + 1) p1)
             else if c = CTLVAR then
               xbind (evalvar (argstr_with (argstr_loop k E) E) E p1 flq) (\<lambda>p2. start_loop (argstr_loop k E) fl reject inquotes p2)
             else if c = CTLBACKQ then
               xbind (expbackq_word E flq) (\<lambda>_. start_loop (argstr_loop k E) fl reject inquotes (Some p1))
             else
               xbind (expari (argstr_with (argstr_loop k E) E) p1 flq) (\<lambda>p2. start_loop (argstr_loop k E) fl reject inquotes p2)))"

definition argstr :: "nat \<Rightarrow> wenv \<Rightarrow> arg_walk" where
  "argstr k E = argstr_with (argstr_loop k E) E"

section \<open>The whole expansion\<close>

definition fflag :: "wshell \<Rightarrow> bool" where
  "fflag sh = opt_set 1 sh"

definition expandarg :: "nat \<Rightarrow> wenv \<Rightarrow> pword \<Rightarrow> xflag set \<Rightarrow> cstr list expand" where
  "expandarg k E arg fl =
     (case arg of
        Narg txt bq \<Rightarrow>
          xbind (xset (\<lambda>st. st\<lparr>argbackq := bq, expdest := []\<rparr>)) (\<lambda>_.
          xbind (argstr k E txt fl) (\<lambda>_.
          xbind (xget id) (\<lambda>st.
            let fields = (if EXP_FULL \<in> fl then expandmeta E (fflag (shell st)) (ifsbreakup (ifsval (shell st)) (ifsregions st) (butlast (expdest st)))
                          else [stack_str 0 st])
            in xbind ifsfree (\<lambda>_. xret fields)))))"

text \<open>A here-document: the expanded text stays on the stack.\<close>

definition expandhere :: "nat \<Rightarrow> wenv \<Rightarrow> pword \<Rightarrow> cstr expand" where
  "expandhere k E arg =
     (case arg of
        Narg txt bq \<Rightarrow>
          xbind (xset (\<lambda>st. st\<lparr>argbackq := bq, expdest := []\<rparr>)) (\<lambda>_.
          xbind (argstr k E txt {EXP_QUOTED}) (\<lambda>_.
          xbind (xget (stack_str 0)) (\<lambda>s. xbind ifsfree (\<lambda>_. xret s)))))"

end
