(* ===== verification/Ash_Words_End.thy ===== *)
theory Ash_Words_End
  imports Ash_Words
begin

text \<open>
  The walk over a word ends: every round of \<open>argstr\<close> and every nested expansion takes a character of the text
  away, so a bound above its length is enough, whatever the text, the variables and the commands are.
\<close>

section \<open>Expansions that end\<close>

definition xends :: "'a expand \<Rightarrow> ('a \<Rightarrow> bool) \<Rightarrow> bool" where
  "xends m Q \<longleftrightarrow> (\<forall>st. case fst (m st) of Inl e \<Rightarrow> e \<noteq> WordFuel | Inr x \<Rightarrow> Q x)"

lemma xendsD:
  assumes "xends m Q"
  shows "m st = (Inl e, st') \<Longrightarrow> e \<noteq> WordFuel" "m st = (Inr x, st') \<Longrightarrow> Q x"
  using assms [unfolded xends_def, rule_format, of st] by auto

lemma xends_bind:
  assumes "xends m Q" "\<And>x. Q x \<Longrightarrow> xends (f x) R"
  shows "xends (xbind m f) R"
  unfolding xends_def
proof
  fix st
  obtain a st1 where m: "m st = (a, st1)" by (cases "m st")
  show "case fst (xbind m f st) of Inl e \<Rightarrow> e \<noteq> WordFuel | Inr x \<Rightarrow> R x"
  proof (cases a)
    case (Inl e)
    then show ?thesis using m xendsD(1) [OF assms(1)] by (simp add: xbind_def)
  next
    case (Inr x)
    then have "Q x" using m xendsD(2) [OF assms(1)] by simp
    from assms(2) [OF this] show ?thesis using m Inr by (simp add: xbind_def xends_def)
  qed
qed

lemma xends_any: "xends m (\<lambda>_. True) \<Longrightarrow> (\<And>x. xends (f x) R) \<Longrightarrow> xends (xbind m f) R"
  by (rule xends_bind)

lemma xends_mono: "xends m Q \<Longrightarrow> (\<And>x. Q x \<Longrightarrow> R x) \<Longrightarrow> xends m R"
  unfolding xends_def by (auto split: sum.splits)

lemma xends_if: "(b \<Longrightarrow> xends m Q) \<Longrightarrow> (\<not> b \<Longrightarrow> xends m' Q) \<Longrightarrow> xends (if b then m else m') Q"
  by simp

lemma xends_simps [simp]:
  "xends (xret x) Q = Q x" "xends (xfail e) Q = (e \<noteq> WordFuel)" "xends (xset f) (\<lambda>_. True)" "xends (xget g) (\<lambda>_. True)"
  by (simp_all add: xends_def xret_def xfail_def xset_def xget_def)

lemma xends_ops [simp]:
  "xends dest_len (\<lambda>_. True)" "xends (put_dest s) (\<lambda>_. True)" "xends (cut_dest n) (\<lambda>_. True)" "xends (record_region b e nul) (\<lambda>_. True)"
  "xends ifsfree (\<lambda>_. True)" "xends (cut_at n) (\<lambda>_. True)"
  by (simp_all add: dest_len_def put_dest_def cut_dest_def record_region_def ifsfree_def cut_at_def)

lemma xends_values [simp]: "xends (strtodest s fl) (\<lambda>_. True)" "xends (cvtnum n fl) (\<lambda>_. True)" "xends (put_value v fl) (\<lambda>_. True)"
  by (auto simp: strtodest_def cvtnum_def put_value_def Let_def intro!: xends_any split: option.split)

lemma xends_params [simp]: "xends (put_params fl sep ps n) (\<lambda>_. True)"
proof (induction fl sep ps n rule: put_params.induct)
  case (2 fl sep p ps n)
  then show ?case by (auto intro!: xends_any split: list.split option.split)
qed simp

lemma xends_varvalue [simp]: "xends (varvalue name varflags fl quoted) (\<lambda>_. True)"
proof -
  have "xends (special_value name fl1 quoted) (\<lambda>_. True)" for fl1
    unfolding special_value_def Let_def
    by (rule xends_any) (auto intro!: xends_any split: option.split prod.split)
  then show ?thesis unfolding varvalue_def Let_def by (auto intro!: xends_any)
qed

lemma xends_backq [simp]: "xends (expbackq_word E fl) (\<lambda>_. True)"
  by (auto simp: xends_def expbackq_word_def Let_def split: list.split prod.split)

lemma xends_effects [simp]: "xends (run_arith s) (\<lambda>_. True)" "xends (set_variable n v) (\<lambda>_. True)"
  by (auto simp: xends_def run_arith_def set_variable_def split: prod.split sum.split)

lemma xends_unset [simp]: "xends (varunset e v m f) Q"
  by (auto simp: varunset_def Let_def intro!: xends_any)

lemma tilde_shorter: "tilde_name v p = Some (n, r) \<Longrightarrow> length r \<le> length p"
proof (induction v p arbitrary: n r rule: tilde_name.induct)
  case (2 v c p)
  then show ?case by (fastforce split: if_splits)
qed simp

lemma xends_tilde:
  assumes "p \<noteq> []"
  shows "xends (exptilde E p fl) (\<lambda>q. length q \<le> length p)"
  unfolding exptilde_def using assms
  by (auto split: option.split intro!: xends_any dest!: tilde_shorter)

section \<open>Nested expansions\<close>

text \<open>What is left behind a nested expansion is no longer than a bound.\<close>

abbreviation left_within :: "nat \<Rightarrow> cstr option \<Rightarrow> bool" where
  "left_within n r \<equiv> (case r of None \<Rightarrow> True | Some q \<Rightarrow> length q \<le> n)"

definition walk_ends :: "arg_walk \<Rightarrow> nat \<Rightarrow> bool" where
  "walk_ends A k \<longleftrightarrow> (\<forall>p fl. length p < k \<longrightarrow> xends (A p fl) (left_within (length p)))"

lemma walk_endsD: "walk_ends A k \<Longrightarrow> length p < k \<Longrightarrow> length p \<le> n \<Longrightarrow> xends (A p fl) (left_within n)"
  unfolding walk_ends_def by (rule xends_mono [of _ "left_within (length p)"]) (auto split: option.splits)

lemma xends_ari:
  assumes "walk_ends A k" "length p < k"
  shows "xends (expari A p fl) (left_within (length p))"
  unfolding expari_def
  by (rule xends_any, simp, rule xends_bind [OF walk_endsD [OF assms order_refl]]) (auto intro!: xends_any)

lemma xends_record: "left_within n p \<Longrightarrow> xends (record_value var quoted startloc p) (left_within n)"
  unfolding record_value_def Let_def by (auto intro!: xends_any)

lemma xends_subeval:
  assumes "walk_ends A k" "length p < k" "length p \<le> n"
  shows "xends (subevalvar A E p str strloc startloc varflags fl) (left_within n)"
  unfolding subevalvar_def Let_def
  by (rule xends_bind [OF walk_endsD [OF assms]]) (auto intro!: xends_any split: option.split)

lemma xends_plain:
  assumes "walk_ends A k" "left_within n p" "\<forall>q. p = Some q \<longrightarrow> length q < k"
  shows "xends (eval_plain A E var p varflags subtype varlen startloc fl) (left_within n)"
proof -
  have s: "xends (subevalvar A E q None i startloc varflags fl1) (left_within n)" if "p = Some q" for q i fl1
    using assms(2,3) that by (intro xends_subeval [OF assms(1)]) auto
  show ?thesis
    unfolding eval_plain_def Let_def
    by (rule xends_any, simp) (use assms(2) in \<open>auto intro!: xends_any xends_record xends_bind [OF s] split: option.split list.split\<close>)
qed

lemma strchr_shorter: "strchr s c = Some r \<Longrightarrow> r \<noteq> [] \<and> length r \<le> length s"
  using length_dropWhile_le [of _ s] by (auto simp: strchr_def split: if_splits list.splits)

lemma xends_var:
  assumes "walk_ends A k" "length p \<le> k" "length p \<le> n"
  shows "xends (evalvar A E p fl) (left_within n)"
proof (cases p)
  case (Cons vf var)
  show ?thesis
  proof (cases "strchr var EQ")
    case (Some eq)
    have q: "length (tl eq) < k" "length (tl eq) \<le> n" using strchr_shorter [OF Some] assms(2,3) Cons by auto
    note A = walk_endsD [OF assms(1) q] and S = xends_subeval [OF assms(1) q]
    have plain: "xends (eval_plain A E var (Some (tl eq)) f t l s fl) (left_within n)" for f t l s using q by (intro xends_plain [OF assms(1)]) auto
    have again: "xends (eval_plain A E var p1 f VSNORMAL l s fl) (left_within n)" if "left_within n p1" for f l s p1
      using that by (auto simp: eval_plain_def Let_def intro!: xends_any xends_record split: option.split)
    show ?thesis
      unfolding evalvar_def Cons list.case Some option.case Let_def
      by (rule xends_any, simp, rule xends_any, simp)
        (auto intro!: plain again [unfolded One_nat_def] xends_record xends_any xends_bind [OF A] xends_bind [OF S])
  qed (simp add: evalvar_def Cons)
qed (simp add: evalvar_def)

section \<open>The loop\<close>

lemma xends_piece [simp]: "xends (put_piece fl inquotes s fin startloc) (\<lambda>_. True)"
  unfolding put_piece_def Let_def by (auto intro!: xends_any)

definition loop_ends :: "arg_loop \<Rightarrow> nat \<Rightarrow> bool" where
  "loop_ends L k \<longleftrightarrow> (\<forall>fl reject inquotes len startloc p n. length p - len < k \<longrightarrow> length p - len \<le> n \<longrightarrow>
     xends (L fl reject inquotes len startloc p) (left_within n))"

lemma loop_endsD: "loop_ends L k \<Longrightarrow> length p - len < k \<Longrightarrow> length p - len \<le> n \<Longrightarrow> xends (L fl reject inquotes len startloc p) (left_within n)"
  by (simp add: loop_ends_def)

lemma xends_start:
  assumes "loop_ends L k" "left_within m p" "m < k" "m \<le> n"
  shows "xends (start_loop L fl reject inquotes p) (left_within n)"
proof (cases p)
  case (Some q)
  then show ?thesis unfolding start_loop_def using assms by (auto intro!: xends_any loop_endsD [OF assms(1)])
qed (simp add: start_loop_def)

lemma tilde_not_Nil: "char_at p 0 = CHR ''~'' \<Longrightarrow> p \<noteq> []"
  by (auto simp: char_at_def)

lemma walk_ends_with:
  assumes "loop_ends L k"
  shows "walk_ends (argstr_with L E) k"
  unfolding walk_ends_def argstr_with_def Let_def
proof (intro allI impI)
  fix p :: cstr and fl assume p: "length p < k"
  show "xends (xbind (if EXP_TILDE \<in> fl \<and> char_at p 0 = CHR ''~'' then exptilde E p (fl - {EXP_TILDE}) else xret p)
      (\<lambda>p1. start_loop L (fl - {EXP_TILDE}) (reject_of fl) False (Some p1))) (left_within (length p))"
  proof (rule xends_bind [of _ "\<lambda>q. length q \<le> length p"])
    show "xends (if EXP_TILDE \<in> fl \<and> char_at p 0 = CHR ''~'' then exptilde E p (fl - {EXP_TILDE}) else xret p) (\<lambda>q. length q \<le> length p)"
      using xends_tilde [OF tilde_not_Nil] by simp
  qed (use p in \<open>auto intro: xends_start [OF assms, of "length p"]\<close>)
qed

lemma argstr_loop_ends: "loop_ends (argstr_loop k E) k"
proof (induction k)
  case 0
  show ?case by (simp add: loop_ends_def)
next
  case (Suc k)
  note walk = walk_ends_with [OF Suc, of E]
  show ?case
    unfolding loop_ends_def
  proof (intro allI impI)
    fix fl reject inquotes len startloc n and p :: cstr
    assume a: "length p - len < Suc k" "length p - len \<le> n"
    show "xends (argstr_loop (Suc k) E fl reject inquotes len startloc p) (left_within n)"
    proof (cases "len > length p")
      case False
      define s where "s = take len p @ takeWhile (\<lambda>c. c \<notin> set reject) (drop len p)"
      define c where "c = char_at p (length s)"
      define p1 where "p1 = drop (Suc (length s)) p"
      have s: "len \<le> length s" using False by (simp add: s_def)
      have c: "Suc (length s) \<le> length p" if "c \<noteq> NUL" using that by (auto simp: c_def char_at_def split: if_splits)
      have p1: "length p1 < k" "length p1 \<le> n" if "c \<noteq> NUL" using c [OF that] s a by (auto simp: p1_def)
      have start: "xends (start_loop (argstr_loop k E) f r i q) (left_within n)" if "left_within (length p1) q" "c \<noteq> NUL" for f r i q
        by (rule xends_start [OF Suc that(1) p1 [OF that(2)]])
      have loop: "xends (argstr_loop k E f r i l sl q) (left_within n)" if "c \<noteq> NUL" "length q - l \<le> length p1" for f r i l sl q
        using p1 [OF that(1)] that(2) by (intro loop_endsD [OF Suc]) auto
      have var: "xends (evalvar (argstr_with (argstr_loop k E) E) E q f) (left_within (length q))" if "c \<noteq> NUL" "length q \<le> length p1" for q f
        using p1 [OF that(1)] that(2) by (intro xends_var [OF walk]) auto
      have ari: "xends (expari (argstr_with (argstr_loop k E) E) p1 f) (left_within (length p1))" if "c \<noteq> NUL" for f
        using p1 [OF that] by (intro xends_ari [OF walk])
      have tilde: "xends (xbind (exptilde E p1 f) (\<lambda>p2. start_loop (argstr_loop k E) f r i (Some p2))) (left_within n)"
        if "c \<noteq> NUL" "char_at p1 0 = CHR ''~''" for f r i
        by (rule xends_bind [OF xends_tilde [OF tilde_not_Nil [OF that(2)]]]) (use that(1) in \<open>auto intro: start\<close>)
      have at: "xends (xbind (evalvar (argstr_with (argstr_loop k E) E) E (tl p1) f) (\<lambda>p2. start_loop (argstr_loop k E) f' r i (case p2 of Some (_ # q) \<Rightarrow> Some q | _ \<Rightarrow> None))) (left_within n)"
        if "c \<noteq> NUL" for f f' r i
      proof (rule xends_bind [OF var [OF that]], simp)
        fix p2 :: "cstr option" assume "left_within (length (tl p1)) p2"
        then have "left_within (length p1) (case p2 of Some (_ # q) \<Rightarrow> Some q | _ \<Rightarrow> None)" by (auto split: option.split list.split)
        then show "xends (start_loop (argstr_loop k E) f' r i (case p2 of Some (_ # q) \<Rightarrow> Some q | _ \<Rightarrow> None)) (left_within n)"
          using that by (rule start)
      qed
      have quoted: "xends (xbind (evalvar (argstr_with (argstr_loop k E) E) E p1 f) (\<lambda>p2. start_loop (argstr_loop k E) f' r i p2)) (left_within n)"
        if "c \<noteq> NUL" for f f' r i
        by (rule xends_bind [OF var]) (use that in \<open>auto intro!: start\<close>)
      have arith: "xends (xbind (expari (argstr_with (argstr_loop k E) E) p1 f) (\<lambda>p2. start_loop (argstr_loop k E) f' r i p2)) (left_within n)"
        if "c \<noteq> NUL" for f f' r i
        by (rule xends_bind [OF ari]) (use that in \<open>auto intro!: start\<close>)
      have backq: "xends (xbind (expbackq_word E f) (\<lambda>_. start_loop (argstr_loop k E) f' r i (Some p1))) (left_within n)" if "c \<noteq> NUL" for f f' r i
        by (rule xends_any) (use that in \<open>auto intro!: start\<close>)
      have c0: "\<not> ends_text c \<Longrightarrow> c \<noteq> NUL" by (simp add: ends_text_def)
      show ?thesis
        unfolding argstr_loop.simps Let_def s_def [symmetric] c_def [symmetric] p1_def [symmetric] if_not_P [OF False]
        by (rule xends_any, simp) (intro xends_if loop tilde at quoted arith backq c0; simp add: p1(2))
    qed simp
  qed
qed

text \<open>The expansion of a word ends, whatever its text is and whatever values and outputs are put into it: a
  bound above the length of the text is enough for all nested expansions.\<close>

theorem expandarg_ends:
  assumes "length txt < k"
  shows "fst (expandarg k E (Narg txt bq) fl st) \<noteq> Inl WordFuel"
proof -
  have "xends (argstr k E txt fl) (left_within (length txt))"
    unfolding argstr_def using walk_ends_with [OF argstr_loop_ends] assms by (simp add: walk_ends_def)
  then have "xends (argstr k E txt fl) (\<lambda>_. True)" by (rule xends_mono) simp
  then have "xends (expandarg k E (Narg txt bq) fl) (\<lambda>_. True)"
    unfolding expandarg_def pword.case Let_def by (intro xends_any) simp_all
  then show ?thesis by (auto simp: xends_def dest: spec [of _ st])
qed

end
