(* ===== verification/Ash_Word_Walk.thy ===== *)
theory Ash_Word_Walk
  imports Ash_Words_End
begin

text \<open>
  What the walk over a word does with its parts.  A configuration of the loop is the quoting, the text that is
  taken but not yet copied, the text that is left and the state; \<open>walked\<close> relates two configurations that the loop
  passes one after the other.
\<close>

section \<open>Configurations\<close>

abbreviation top_flags :: "xflag set" where "top_flags \<equiv> {EXP_FULL}"

definition walked :: "wenv \<Rightarrow> bool \<Rightarrow> cstr \<Rightarrow> cstr \<Rightarrow> xstate \<Rightarrow> bool \<Rightarrow> cstr \<Rightarrow> cstr \<Rightarrow> xstate \<Rightarrow> bool" where
  "walked E q a r st q' a' r' st' \<longleftrightarrow>
     (\<forall>k sl. length r < k \<longrightarrow> (\<exists>k' sl'. length r' < k' \<and>
        argstr_loop k E top_flags (reject_of top_flags) q (length a) sl (a @ r) st =
        argstr_loop k' E top_flags (reject_of top_flags) q' (length a') sl' (a' @ r') st'))"

lemma moved_refl: "walked E q a r st q a r st"
  by (auto simp: walked_def)

lemma moved_trans: "walked E q a r st q1 a1 r1 st1 \<Longrightarrow> walked E q1 a1 r1 st1 q2 a2 r2 st2 \<Longrightarrow> walked E q a r st q2 a2 r2 st2"
  unfolding walked_def by metis

definition put :: "bytes \<Rightarrow> xstate \<Rightarrow> xstate" where
  "put s st = st\<lparr>expdest := expdest st @ s\<rparr>"

lemma put_simps [simp]:
  "expdest (put s st) = expdest st @ s" "ifsregions (put s st) = ifsregions st" "argbackq (put s st) = argbackq st" "shell (put s st) = shell st"
  "put [] st = st" "put t (put s st) = put (s @ t) st"
  by (simp_all add: put_def)

definition stops :: "char set" where
  "stops = {CTLQUOTEMARK, CTLENDVAR, CTLESC, CTLVAR, CTLBACKQ, CTLARI, CTLENDARI}"

lemma reject_top: "reject_of top_flags = [CTLQUOTEMARK, CTLENDVAR, CTLESC, CTLVAR, CTLBACKQ, CTLARI, CTLENDARI]"
  by (simp add: reject_of_def spclchars_def)

lemma stops_set: "set (reject_of top_flags) = stops"
  by (simp add: reject_top stops_def)

lemma piece_top:
  "\<not> fin \<Longrightarrow> \<exists>sl'. put_piece top_flags q s fin sl st = (Inr sl', put s st)"
  "\<exists>sl'. put_piece top_flags q s True sl st = (Inr sl', put (s @ [NUL]) st)"
  by (auto simp: put_piece_def xret_def xbind_def put_dest_def xset_def dest_len_def xget_def put_def)

section \<open>Steps\<close>

lemma moved_chars:
  assumes "set s \<inter> stops = {}"
  shows "walked E q a (s @ r) st q (a @ s) r st"
  unfolding walked_def
proof (intro allI impI)
  fix k sl assume k: "length (s @ r) < k"
  obtain j where j: "k = Suc j" using k by (cases k) auto
  have "takeWhile (\<lambda>c. c \<notin> stops) (s @ r) = s @ takeWhile (\<lambda>c. c \<notin> stops) r" using assms by (intro takeWhile_append2) auto
  then have "argstr_loop k E top_flags (reject_of top_flags) q (length a) sl (a @ s @ r) st = argstr_loop k E top_flags (reject_of top_flags) q (length (a @ s)) sl ((a @ s) @ r) st"
    unfolding j argstr_loop.simps stops_set by simp
  then show "\<exists>k' sl'. length r < k' \<and> argstr_loop k E top_flags (reject_of top_flags) q (length a) sl (a @ s @ r) st =
      argstr_loop k' E top_flags (reject_of top_flags) q (length (a @ s)) sl' ((a @ s) @ r) st" using k by (intro exI [of _ k] exI [of _ sl]) simp
qed

text \<open>The loop at a control character.\<close>

lemma loop_at:
  assumes "c \<in> stops" "\<not> ends_text c"
  shows "\<exists>sl'. argstr_loop (Suc k) E top_flags (reject_of top_flags) q (length a) sl (a @ c # r) st =
     (if c = CTLQUOTEMARK then
        (if \<not> q \<and> take 5 r = tl dolatstr
         then xbind (evalvar (argstr_with (argstr_loop k E) E) E (tl r) {EXP_QUOTED, EXP_FULL}) (\<lambda>p2.
                start_loop (argstr_loop k E) top_flags (reject_of top_flags) q (case p2 of Some (_ # q) \<Rightarrow> Some q | _ \<Rightarrow> None))
         else argstr_loop k E top_flags (reject_of top_flags) (\<not> q) 1 sl' (c # r))
      else if c = CTLESC then argstr_loop k E top_flags (reject_of top_flags) q 2 sl' (c # r)
      else if c = CTLVAR then
        xbind (evalvar (argstr_with (argstr_loop k E) E) E r (top_flags \<union> (if q then {EXP_QUOTED} else {}))) (\<lambda>p2. start_loop (argstr_loop k E) top_flags (reject_of top_flags) q p2)
      else if c = CTLBACKQ then
        xbind (expbackq_word E (top_flags \<union> (if q then {EXP_QUOTED} else {}))) (\<lambda>_. start_loop (argstr_loop k E) top_flags (reject_of top_flags) q (Some r))
      else
        xbind (expari (argstr_with (argstr_loop k E) E) r (top_flags \<union> (if q then {EXP_QUOTED} else {}))) (\<lambda>p2. start_loop (argstr_loop k E) top_flags (reject_of top_flags) q p2)) (put a st)"
proof -
  have t: "takeWhile (\<lambda>c. c \<notin> stops) (c # r) = []" using assms(1) by simp
  have c: "char_at (a @ c # r) (length a) = c" "drop (Suc (length a)) (a @ c # r) = r" by (simp_all add: char_at_def)
  have n: "\<not> ch c < 128" "c \<noteq> EQ" "c \<noteq> CHR '':''" using assms by (auto simp: stops_def ch_def ends_text_def)
  obtain sl' where p: "put_piece top_flags q a False sl st = (Inr sl', put a st)" using piece_top(1) by blast
  show ?thesis
    by (rule exI [of _ "sl' + (if c = CTLESC then 2 else 1)"])
      (simp add: stops_set t c n assms(2) p xbind_def [of "put_piece _ _ _ _ _"] Let_def insert_commute del: takeWhile.simps)
qed

lemma moved_mark:
  assumes "q \<or> take 5 r \<noteq> tl dolatstr"
  shows "walked E q a (CTLQUOTEMARK # r) st (\<not> q) [CTLQUOTEMARK] r (put a st)"
  unfolding walked_def
proof (intro allI impI)
  fix k sl assume k: "length (CTLQUOTEMARK # r) < k"
  obtain j where j: "k = Suc j" using k by (cases k) auto
  have "CTLQUOTEMARK \<in> stops" "\<not> ends_text CTLQUOTEMARK" by (simp_all add: stops_def ends_text_def)
  from loop_at [OF this, of j E q a sl r st] obtain sl' where
    "argstr_loop k E top_flags (reject_of top_flags) q (length a) sl (a @ CTLQUOTEMARK # r) st = argstr_loop j E top_flags (reject_of top_flags) (\<not> q) 1 sl' (CTLQUOTEMARK # r) (put a st)"
    using assms unfolding j by auto
  then show "\<exists>k' sl'. length r < k' \<and> argstr_loop k E top_flags (reject_of top_flags) q (length a) sl (a @ CTLQUOTEMARK # r) st =
       argstr_loop k' E top_flags (reject_of top_flags) (\<not> q) (length [CTLQUOTEMARK]) sl' ([CTLQUOTEMARK] @ r) (put a st)"
    using k j by (intro exI [of _ j] exI [of _ sl']) simp
qed

lemma moved_esc: "walked E q a (CTLESC # c # r) st q [CTLESC, c] r (put a st)"
  unfolding walked_def
proof (intro allI impI)
  fix k sl assume k: "length (CTLESC # c # r) < k"
  obtain j where j: "k = Suc j" using k by (cases k) auto
  have "CTLESC \<in> stops" "\<not> ends_text CTLESC" by (simp_all add: stops_def ends_text_def)
  from loop_at [OF this, of j E q a sl "c # r" st] obtain sl' where
    "argstr_loop k E top_flags (reject_of top_flags) q (length a) sl (a @ CTLESC # c # r) st = argstr_loop j E top_flags (reject_of top_flags) q 2 sl' (CTLESC # c # r) (put a st)"
    unfolding j by auto
  then show "\<exists>k' sl'. length r < k' \<and> argstr_loop k E top_flags (reject_of top_flags) q (length a) sl (a @ CTLESC # c # r) st =
       argstr_loop k' E top_flags (reject_of top_flags) q (length [CTLESC, c]) sl' ([CTLESC, c] @ r) (put a st)"
    using k j by (intro exI [of _ j] exI [of _ sl']) (simp add: numeral_2_eq_2)
qed

lemma loop_done:
  assumes "0 < k"
  shows "argstr_loop k E top_flags (reject_of top_flags) q (length a) sl a st = (Inr None, put (a @ [NUL]) st)"
proof -
  obtain j where j: "k = Suc j" using assms by (cases k) auto
  obtain sl' where p: "put_piece top_flags q a True sl st = (Inr sl', put (a @ [NUL]) st)" using piece_top(2) by blast
  have "char_at a (length a) = NUL" by (simp add: char_at_def)
  then show ?thesis by (simp add: j p xbind_def ends_text_def xret_def Let_def)
qed

section \<open>The value of a variable\<close>

text \<open>Looking a variable up brings static texts up to date and changes no value.\<close>

definition alike :: "wshell \<Rightarrow> wshell \<Rightarrow> bool" where
  "alike sh sh' \<longleftrightarrow> (\<forall>m. var_value (w_vars sh') m = var_value (w_vars sh) m) \<and> optlist (w_vars sh') = optlist (w_vars sh) \<and> shellparam sh' = shellparam sh"

lemma alike_refl [simp]: "alike sh sh"
  by (simp add: alike_def)

lemma alike_trans: "alike a b \<Longrightarrow> alike b c \<Longrightarrow> alike a c"
  by (simp add: alike_def)

lemma alike_simps: "alike sh sh' \<Longrightarrow> opt_set i sh' = opt_set i sh" "alike sh sh' \<Longrightarrow> ifsval sh' = ifsval sh" "alike sh sh' \<Longrightarrow> nparam sh' = nparam sh"
  by (simp_all add: alike_def opt_set_def ifsval_def nparam_def)

definition looked :: "cstr \<Rightarrow> wshell \<Rightarrow> wshell" where
  "looked name sh = sh\<lparr>w_vars := snd (lookup_var name (w_vars sh))\<rparr>"

lemma lookup_alike: "alike sh (looked name sh)"
proof -
  define vars1 where "vars1 = snd (lookup_var name (w_vars sh))"
  have same: "vartab vars1 = vartab (w_vars sh)" "lineno vars1 = lineno (w_vars sh)" "funcname vars1 = funcname (w_vars sh)" "optlist vars1 = optlist (w_vars sh)"
    by (auto simp: vars1_def lookup_var_def Let_def split: option.splits if_splits vtext.splits)
  have "findvar vars1 m = findvar (w_vars sh) m" for m using same(1) by (simp add: findvar_find)
  then have "var_value vars1 m = var_value (w_vars sh) m" for m
    using entry_value_lines [OF same(2,3)] by (simp add: var_value_entry)
  then show ?thesis using same(4) by (simp add: alike_def looked_def vars1_def)
qed

lemma lookup_name: "var_name v \<Longrightarrow> lookup_var (v @ EQ # r) vars = lookup_var v vars"
  using findvar_vname [OF var_name_vname(2)] by (simp add: lookup_var_def)

lemma name_char: "is_in_name c \<Longrightarrow> c \<notin> set ''$?#!-@*='' \<and> ch c < 128"
  by (auto simp: is_in_name_def isalnum_def isalpha_def isdigit_def islower_def isupper_def ch_def)

lemma name_start: "is_name c \<Longrightarrow> is_in_name c \<and> \<not> isdigit c"
  by (auto simp: is_name_def is_in_name_def isalnum_def isalpha_def isdigit_def islower_def isupper_def ch_def)

lemma var_name_chars: "var_name v \<Longrightarrow> c \<in> set v \<Longrightarrow> is_in_name c"
  using name_start by (cases v) (auto simp: var_name_def)

lemma var_name_first:
  assumes "var_name v"
  shows "char_at (v @ r) 0 \<notin> set ''$?#!-@*'' \<and> \<not> isdigit (char_at (v @ r) 0)" "EQ \<notin> set v" "v \<noteq> []"
proof -
  obtain c v' where v: "v = c # v'" "is_name c" using assms by (cases v) (auto simp: var_name_def)
  show "char_at (v @ r) 0 \<notin> set ''$?#!-@*'' \<and> \<not> isdigit (char_at (v @ r) 0)"
    using name_start [OF v(2)] name_char [of c] v(1) by (auto simp: char_at_def)
  show "EQ \<notin> set v" using var_name_chars [OF assms] name_char [of EQ] by auto
  show "v \<noteq> []" using v by simp
qed

definition value_flags :: "bool \<Rightarrow> exp_flags" where
  "value_flags q = \<lparr>quotes_esc = True, exp_quoted = q, keepnul = True\<rparr>"

abbreviation part_flags :: "bool \<Rightarrow> xflag set" where
  "part_flags q \<equiv> top_flags \<union> (if q then {EXP_QUOTED} else {})"

lemma part_flags_simps [simp]: "mem_flags (insert EXP_KEEPNUL (part_flags q)) = value_flags q" "EXP_QUOTED \<in> part_flags q \<longleftrightarrow> q" "EXP_DISCARD \<notin> part_flags q"
  by (auto simp: mem_flags_def value_flags_def)

lemma varvalue_name:
  assumes "var_name v"
  shows "varvalue (v @ EQ # r) VSNORMAL (part_flags q) q st =
     (case var_value (w_vars (shell st)) v of
        None \<Rightarrow> (Inr (- 1), st\<lparr>shell := looked v (shell st)\<rparr>)
      | Some s \<Rightarrow> (Inr (int (length s)), put (memtodest (value_flags q) s) (st\<lparr>shell := looked v (shell st)\<rparr>)))"
proof -
  obtain s vars1 where l: "lookup_var v (w_vars (shell st)) = (s, vars1)" by fastforce
  define fl where "fl = part_flags q"
  have f: "mem_flags (insert EXP_KEEPNUL fl) = value_flags q" "EXP_DISCARD \<notin> fl" by (simp_all only: fl_def part_flags_simps not_False_eq_True)
  show ?thesis
    unfolding fl_def [symmetric] using var_name_first(1) [OF assms, of "EQ # r"] f
    by (auto simp: varvalue_def special_value_def xbind_def xget_def xset_def xret_def lookup_name [OF assms] l put_value_def strtodest_def put_dest_def put_def Let_def
        var_value_def looked_def split: option.split)
qed

text \<open>The value of a variable is added: marked, and recorded for splitting unless it is quoted.\<close>

definition value_out :: "bool \<Rightarrow> wshell \<Rightarrow> cstr \<Rightarrow> bytes" where
  "value_out q sh v = (case var_value (w_vars sh) v of None \<Rightarrow> [] | Some s \<Rightarrow> memtodest (value_flags q) s)"

definition value_region :: "bool \<Rightarrow> wshell \<Rightarrow> cstr \<Rightarrow> nat \<Rightarrow> ifsregion list" where
  "value_region q sh v n =
     (if q \<or> var_value (w_vars sh) v = None then [] else [\<lparr>begoff = n, endoff = n + length (value_out q sh v), nulonly = False\<rparr>])"

definition add_value :: "bool \<Rightarrow> cstr \<Rightarrow> xstate \<Rightarrow> xstate" where
  "add_value q v st = st\<lparr>expdest := expdest st @ value_out q (shell st) v,
     ifsregions := ifsregions st @ value_region q (shell st) v (length (expdest st)), shell := looked v (shell st)\<rparr>"

lemma evalvar_name:
  assumes "var_name v" "var_value (w_vars (shell st)) v \<noteq> None \<or> \<not> opt_set 13 (shell st)"
  shows "evalvar A E (char_of VSNORMAL # v @ EQ # r) (part_flags q) st = (Inr (Some r), add_value q v st)"
proof -
  note vv = varvalue_name [OF assms(1), of r q st]
  define fl where "fl = part_flags q"
  have f: "EXP_QUOTED \<in> fl \<longleftrightarrow> q" "EXP_DISCARD \<notin> fl" by (simp_all only: fl_def part_flags_simps not_False_eq_True)
  have "dropWhile (\<lambda>x. x \<noteq> EQ) (v @ EQ # r) = EQ # r" using var_name_first(2) [OF assms(1)] by (subst dropWhile_append2) auto
  then have "strchr (v @ EQ # r) EQ = Some (EQ # r)" by (simp add: strchr_def)
  moreover have "ch (char_of VSNORMAL) = 1" by code_simp
  moreover have "char_at (v @ EQ # r) 0 \<noteq> CHR ''@''" using var_name_first(1) [OF assms(1), of "EQ # r"] by simp
  ultimately have "evalvar A E (char_of VSNORMAL # v @ EQ # r) fl st = (Inr (Some r), add_value q v st)"
    using vv [folded fl_def] assms(2) alike_simps(1) [OF lookup_alike, of 13 v "shell st"] f
    by (cases "var_value (w_vars (shell st)) v")
      (auto simp: evalvar_def xbind_def dest_len_def xget_def xret_def eval_plain_def record_value_def record_region_def xset_def recordregion_def
        add_value_def value_out_def value_region_def put_def Let_def)
  then show ?thesis unfolding fl_def .
qed

lemma moved_value:
  assumes "var_name v" "var_value (w_vars (shell st)) v \<noteq> None \<or> \<not> opt_set 13 (shell st)"
  shows "walked E q a (CTLVAR # char_of VSNORMAL # v @ EQ # r) st q [] r (add_value q v (put a st))"
  unfolding walked_def
proof (intro allI impI)
  fix k sl assume k: "length (CTLVAR # char_of VSNORMAL # v @ EQ # r) < k"
  obtain j where j: "k = Suc j" using k by (cases k) auto
  have c: "CTLVAR \<in> stops" "\<not> ends_text CTLVAR" and n: "CTLVAR \<noteq> CTLQUOTEMARK" "CTLVAR \<noteq> CTLESC" by (simp_all add: stops_def ends_text_def)
  have e: "evalvar A E (char_of VSNORMAL # v @ EQ # r) (part_flags q) (put a st) = (Inr (Some r), add_value q v (put a st))" for A
    using evalvar_name [OF assms(1), of "put a st"] assms(2) by simp
  have "argstr_loop k E top_flags (reject_of top_flags) q (length a) sl (a @ CTLVAR # char_of VSNORMAL # v @ EQ # r) st =
     argstr_loop j E top_flags (reject_of top_flags) q 0 (length (expdest (add_value q v (put a st)))) r (add_value q v (put a st))"
    using loop_at [OF c, of j E q a sl "char_of VSNORMAL # v @ EQ # r" st]
    unfolding j if_not_P [OF n(1)] if_not_P [OF n(2)] if_P [OF refl] xbind_def e
    by (simp add: start_loop_def dest_len_def xget_def xbind_def del: argstr_loop.simps)
  then show "\<exists>k' sl'. length r < k' \<and> argstr_loop k E top_flags (reject_of top_flags) q (length a) sl (a @ CTLVAR # char_of VSNORMAL # v @ EQ # r) st =
       argstr_loop k' E top_flags (reject_of top_flags) q (length []) sl' ([] @ r) (add_value q v (put a st))"
    using k j by (intro exI [of _ j] exI [of _ "length (expdest (add_value q v (put a st)))"]) simp
qed

end
