(* ===== verification/Ash_Word_Fields.thy ===== *)
theory Ash_Word_Fields
  imports Ash_Word_Walk
begin

text \<open>
  The fields of a word: literal text, quoted text with parameters in it, and unquoted parameters.  The walk puts
  the text of the word with the values on the stack and records the unquoted values for splitting.
\<close>

section \<open>Words\<close>

datatype qpart = QText syntax_id cstr | QParam cstr

datatype xpart = XPlain cstr | XQuoted "qpart list" | XParam cstr

abbreviation param_text :: "cstr \<Rightarrow> cstr" where
  "param_text v \<equiv> CTLVAR # char_of VSNORMAL # v @ ''=''"

fun qtext :: "qpart \<Rightarrow> cstr" where
  "qtext (QText syn s) = escaped syn s"
| "qtext (QParam v) = param_text v"

fun xtext :: "xpart \<Rightarrow> cstr" where
  "xtext (XPlain s) = s"
| "xtext (XQuoted qs) = CTLQUOTEMARK # concat (map qtext qs) @ [CTLQUOTEMARK]"
| "xtext (XParam v) = param_text v"

fun qout :: "wshell \<Rightarrow> qpart \<Rightarrow> cstr" where
  "qout sh (QText syn s) = escaped syn s"
| "qout sh (QParam v) = value_out True sh v"

fun xout :: "wshell \<Rightarrow> xpart \<Rightarrow> cstr" where
  "xout sh (XPlain s) = s"
| "xout sh (XQuoted qs) = CTLQUOTEMARK # concat (map (qout sh) qs) @ [CTLQUOTEMARK]"
| "xout sh (XParam v) = value_out False sh v"

definition param_ok :: "wshell \<Rightarrow> cstr \<Rightarrow> bool" where
  "param_ok sh v \<longleftrightarrow> var_name v \<and> (var_value (w_vars sh) v \<noteq> None \<or> \<not> opt_set 13 sh) \<and>
     (case var_value (w_vars sh) v of None \<Rightarrow> True | Some s \<Rightarrow> NUL \<notin> set s)"

fun qpart_ok :: "wshell \<Rightarrow> qpart \<Rightarrow> bool" where
  "qpart_ok sh (QText syn s) = ((syn = SQSYNTAX \<or> syn = DQSYNTAX) \<and> NUL \<notin> set s)"
| "qpart_ok sh (QParam v) = param_ok sh v"

definition unmarked_value :: "wshell \<Rightarrow> cstr \<Rightarrow> bool" where
  "unmarked_value sh v \<longleftrightarrow>
     (case var_value (w_vars sh) v of None \<Rightarrow> True | Some s \<Rightarrow> \<forall>c \<in> set s. sit (Some c) BASESYNTAX \<noteq> CCTL)"

fun xpart_ok :: "wshell \<Rightarrow> xpart \<Rightarrow> bool" where
  "xpart_ok sh (XPlain s) = (s \<noteq> [] \<and> NUL \<notin> set s \<and> set s \<inter> stops = {})"
| "xpart_ok sh (XQuoted qs) = list_all (qpart_ok sh) qs"
| "xpart_ok sh (XParam v) = (param_ok sh v \<and> unmarked_value sh v)"

fun xregs :: "wshell \<Rightarrow> nat \<Rightarrow> xpart list \<Rightarrow> ifsregion list" where
  "xregs sh n [] = []"
| "xregs sh n (p # w) = (case p of XParam v \<Rightarrow> value_region False sh v n | _ \<Rightarrow> []) @ xregs sh (n + length (xout sh p)) w"

lemma alike_out: "alike sh sh' \<Longrightarrow> value_out q sh' v = value_out q sh v" "alike sh sh' \<Longrightarrow> value_region q sh' v n = value_region q sh v n"
  by (simp_all add: alike_def value_out_def value_region_def)

lemma alike_parts:
  assumes "alike sh sh'"
  shows "qout sh' q = qout sh q" "xout sh' p = xout sh p" "param_ok sh' v = param_ok sh v" "qpart_ok sh' q = qpart_ok sh q" "xpart_ok sh' p = xpart_ok sh p"
proof -
  show q: "qout sh' q = qout sh q" for q using assms by (cases q) (simp_all add: alike_out)
  then have "qout sh' = qout sh" by auto
  then show "xout sh' p = xout sh p" using assms by (cases p) (simp_all add: alike_out)
  show v: "param_ok sh' v = param_ok sh v" for v using assms alike_simps(1) [OF assms] by (simp add: param_ok_def alike_def)
  then show q': "qpart_ok sh' q = qpart_ok sh q" for q by (cases q) simp_all
  then have "qpart_ok sh' = qpart_ok sh" by auto
  then show "xpart_ok sh' p = xpart_ok sh p" using assms v by (cases p) (simp_all add: unmarked_value_def alike_def)
qed

lemma alike_regs: "alike sh sh' \<Longrightarrow> xregs sh' n w = xregs sh n w"
  by (induction w arbitrary: n) (simp_all add: alike_out alike_parts cong: xpart.case_cong)

section \<open>The walk\<close>

lemma stops_marked: "c \<in> stops \<Longrightarrow> syn = SQSYNTAX \<or> syn = DQSYNTAX \<Longrightarrow> sit (Some c) syn = CCTL"
proof -
  have "\<forall>c \<in> set [CTLQUOTEMARK, CTLENDVAR, CTLESC, CTLVAR, CTLBACKQ, CTLARI, CTLENDARI]. sit (Some c) SQSYNTAX = CCTL \<and> sit (Some c) DQSYNTAX = CCTL" by code_simp
  then show "c \<in> stops \<Longrightarrow> syn = SQSYNTAX \<or> syn = DQSYNTAX \<Longrightarrow> sit (Some c) syn = CCTL" by (auto simp: stops_def)
qed

lemma escaped_text_Nil: "escaped syn [] = []" and escaped_Cons: "escaped syn (c # s) = (if sit (Some c) syn = CCTL then [CTLESC, c] else [c]) @ escaped syn s"
  by (simp_all add: escaped_def)

lemma moved_escaped:
  assumes "syn = SQSYNTAX \<or> syn = DQSYNTAX"
  shows "\<exists>a' st'. walked E q a (escaped syn s @ r) st q a' r st' \<and> expdest st' @ a' = expdest st @ a @ escaped syn s \<and> ifsregions st' = ifsregions st \<and> shell st' = shell st"
proof (induction s arbitrary: a st)
  case Nil
  show ?case by (intro exI [of _ a] exI [of _ st]) (simp add: escaped_def moved_refl)
next
  case (Cons c s)
  show ?case
  proof (cases "sit (Some c) syn = CCTL")
    case True
    have m: "walked E q a (CTLESC # c # escaped syn s @ r) st q [CTLESC, c] (escaped syn s @ r) (put a st)" by (rule moved_esc)
    obtain a' st' where "walked E q [CTLESC, c] (escaped syn s @ r) (put a st) q a' r st'" "expdest st' @ a' = expdest st @ a @ [CTLESC, c] @ escaped syn s"
       "ifsregions st' = ifsregions st" "shell st' = shell st" using Cons.IH [of "[CTLESC, c]" "put a st"] by auto
    then show ?thesis using moved_trans [OF m] True by (intro exI [of _ a'] exI [of _ st']) (simp add: escaped_Cons)
  next
    case False
    then have "set [c] \<inter> stops = {}" using stops_marked assms by auto
    from moved_chars [OF this, of E q a "escaped syn s @ r" st] have m: "walked E q a (c # escaped syn s @ r) st q (a @ [c]) (escaped syn s @ r) st" by simp
    obtain a' st' where "walked E q (a @ [c]) (escaped syn s @ r) st q a' r st'" "expdest st' @ a' = expdest st @ (a @ [c]) @ escaped syn s"
       "ifsregions st' = ifsregions st" "shell st' = shell st" using Cons.IH [of "a @ [c]" st] by auto
    then show ?thesis using moved_trans [OF m] False by (intro exI [of _ a'] exI [of _ st']) (simp add: escaped_Cons)
  qed
qed

text \<open>What the walk over some text does to the state.\<close>

definition word_put :: "cstr \<Rightarrow> ifsregion list \<Rightarrow> cstr \<Rightarrow> xstate \<Rightarrow> cstr \<Rightarrow> xstate \<Rightarrow> bool" where
  "word_put out rs a st a' st' \<longleftrightarrow> expdest st' @ a' = expdest st @ a @ out \<and> ifsregions st' = ifsregions st @ rs \<and> alike (shell st) (shell st')"

lemma wrote_trans: "word_put o1 r1 a st a1 st1 \<Longrightarrow> word_put o2 r2 a1 st1 a2 st2 \<Longrightarrow> word_put (o1 @ o2) (r1 @ r2) a st a2 st2"
  by (auto simp: word_put_def intro: alike_trans)

lemma wrote_value: "word_put (value_out q (shell st) v) (value_region q (shell st) v (length (expdest st @ a))) a st [] (add_value q v (put a st))"
  by (simp add: word_put_def add_value_def lookup_alike)

lemma moved_quoted:
  assumes "list_all (qpart_ok (shell st)) qs"
  shows "\<exists>a' st'. walked E True a (concat (map qtext qs) @ r) st True a' r st' \<and> word_put (concat (map (qout (shell st)) qs)) [] a st a' st'"
  using assms
proof (induction qs arbitrary: a st)
  case Nil
  then show ?case by (intro exI [of _ a] exI [of _ st]) (simp add: word_put_def moved_refl)
next
  case (Cons x qs)
  let ?r = "concat (map qtext qs) @ r"
  obtain a1 st1 where m: "walked E True a (qtext x @ ?r) st True a1 ?r st1" "word_put (qout (shell st) x) [] a st a1 st1"
  proof (cases x)
    case (QText syn s)
    then have "syn = SQSYNTAX \<or> syn = DQSYNTAX" using Cons.prems by simp
    from moved_escaped [OF this, of E True a s ?r st] obtain a1 st1 where "walked E True a (escaped syn s @ ?r) st True a1 ?r st1"
      "word_put (escaped syn s) [] a st a1 st1" by (auto simp: word_put_def)
    then show ?thesis using that QText by simp
  next
    case (QParam v)
    then have "var_name v" "var_value (w_vars (shell st)) v \<noteq> None \<or> \<not> opt_set 13 (shell st)" using Cons.prems by (simp_all add: param_ok_def)
    from moved_value [OF this, of E True a ?r] wrote_value [of True st v a] show ?thesis using that QParam by (simp add: value_region_def)
  qed
  have ok: "list_all (qpart_ok (shell st1)) qs" using Cons.prems m(2) alike_parts(4) by (auto simp: word_put_def list_all_iff)
  obtain a2 st2 where m2: "walked E True a1 ?r st1 True a2 r st2" "word_put (concat (map (qout (shell st1)) qs)) [] a1 st1 a2 st2" using Cons.IH [OF ok] by blast
  have "qout (shell st1) = qout (shell st)" using m(2) alike_parts(1) by (auto simp: word_put_def)
  then show ?case using moved_trans [OF m(1) m2(1)] wrote_trans [OF m(2) m2(2)] by auto
qed

lemma not_dolat:
  assumes "list_all (qpart_ok sh) qs"
  shows "take 5 (concat (map qtext qs) @ CTLQUOTEMARK # r) \<noteq> tl dolatstr"
  using assms
proof (induction qs)
  case Nil
  show ?case by (simp add: dolatstr_def)
next
  case (Cons x qs)
  show ?case
  proof (cases x)
    case (QText syn s)
    show ?thesis
    proof (cases s)
      case (Cons c t)
      have "sit (Some CTLVAR) syn = CCTL" using stops_marked [of CTLVAR syn] QText Cons.prems by (simp add: stops_def)
      then show ?thesis using QText Cons by (auto simp: escaped_def dolatstr_def)
    qed (use Cons QText in \<open>simp add: escaped_def\<close>)
  next
    case (QParam v)
    then have "char_at (v @ []) 0 \<noteq> CHR ''@''" "v \<noteq> []" using var_name_first(1) [of v "[]"] var_name_first(3) Cons.prems by (auto simp: param_ok_def)
    then show ?thesis using QParam by (cases v) (auto simp: dolatstr_def char_at_def)
  qed
qed

lemma moved_word:
  assumes "list_all (xpart_ok (shell st)) w"
  shows "\<exists>a' st'. walked E False a (concat (map xtext w) @ r) st False a' r st' \<and>
     word_put (concat (map (xout (shell st)) w)) (xregs (shell st) (length (expdest st @ a)) w) a st a' st'"
  using assms
proof (induction w arbitrary: a st)
  case Nil
  then show ?case by (intro exI [of _ a] exI [of _ st]) (simp add: word_put_def moved_refl)
next
  case (Cons p w)
  let ?r = "concat (map xtext w) @ r" let ?n = "length (expdest st @ a)"
  let ?reg = "case p of XParam v \<Rightarrow> value_region False (shell st) v ?n | _ \<Rightarrow> []"
  obtain a1 st1 where m: "walked E False a (xtext p @ ?r) st False a1 ?r st1" "word_put (xout (shell st) p) ?reg a st a1 st1"
  proof (cases p)
    case (XPlain s)
    then have "set s \<inter> stops = {}" using Cons.prems by simp
    from moved_chars [OF this, of E False a ?r st] show ?thesis using that [of "a @ s" st] XPlain by (simp add: word_put_def)
  next
    case (XQuoted qs)
    let ?s = "concat (map qtext qs)"
    have ok: "list_all (qpart_ok (shell st)) qs" using Cons.prems XQuoted by simp
    have m1: "walked E False a (CTLQUOTEMARK # ?s @ CTLQUOTEMARK # ?r) st True [CTLQUOTEMARK] (?s @ CTLQUOTEMARK # ?r) (put a st)"
      using moved_mark [of False "?s @ CTLQUOTEMARK # ?r" E a st] not_dolat [OF ok, of ?r] by simp
    obtain a2 st2 where m2: "walked E True [CTLQUOTEMARK] (?s @ CTLQUOTEMARK # ?r) (put a st) True a2 (CTLQUOTEMARK # ?r) st2"
      "word_put (concat (map (qout (shell st)) qs)) [] [CTLQUOTEMARK] (put a st) a2 st2" using moved_quoted [of "put a st" qs] ok by fastforce
    have m3: "walked E True a2 (CTLQUOTEMARK # ?r) st2 False [CTLQUOTEMARK] ?r (put a2 st2)" using moved_mark [of True ?r E a2 st2] by simp
    have "word_put (xout (shell st) p) [] a st [CTLQUOTEMARK] (put a2 st2)" using m2(2) XQuoted by (auto simp: word_put_def)
    then show ?thesis using that [of "[CTLQUOTEMARK]" "put a2 st2"] moved_trans [OF m1 moved_trans [OF m2(1) m3]] XQuoted by simp
  next
    case (XParam v)
    then have "var_name v" "var_value (w_vars (shell st)) v \<noteq> None \<or> \<not> opt_set 13 (shell st)" using Cons.prems by (simp_all add: param_ok_def)
    from moved_value [OF this, of E False a ?r] wrote_value [of False st v a] show ?thesis using that XParam by simp
  qed
  have al: "alike (shell st) (shell st1)" using m(2) by (simp add: word_put_def)
  have ok: "list_all (xpart_ok (shell st1)) w" using Cons.prems alike_parts(5) [OF al] by (simp add: list_all_iff)
  obtain a2 st2 where m2: "walked E False a1 ?r st1 False a2 r st2"
    "word_put (concat (map (xout (shell st1)) w)) (xregs (shell st1) (length (expdest st1 @ a1)) w) a1 st1 a2 st2" using Cons.IH [OF ok] by blast
  have "length (expdest st1 @ a1) = ?n + length (xout (shell st) p)" using m(2) by (simp add: word_put_def)
  moreover have "xout (shell st1) = xout (shell st)" using alike_parts(2) [OF al] by auto
  ultimately have "word_put (concat (map (xout (shell st)) (p # w))) (xregs (shell st) ?n (p # w)) a st a2 st2"
    using wrote_trans [OF m(2) m2(2)] alike_regs [OF al] by (simp only: list.map concat.simps xregs.simps)
  then show ?case using moved_trans [OF m(1) m2(1)] by (intro exI [of _ a2] exI [of _ st2]) simp
qed

section \<open>The fields\<close>

abbreviation word_text :: "xpart list \<Rightarrow> cstr" where
  "word_text w \<equiv> concat (map xtext w)"

definition word_ok_for :: "wshell \<Rightarrow> xpart list \<Rightarrow> bool" where
  "word_ok_for sh w \<longleftrightarrow> list_all (xpart_ok sh) w \<and> char_at (word_text w) 0 \<noteq> CHR ''~''"

lemma argstr_word:
  assumes "word_ok_for (shell st) w" "expdest st = []" "length (word_text w) < k"
  shows "\<exists>st'. argstr k E (word_text w) {EXP_FULL, EXP_TILDE} st = (Inr None, st') \<and> expdest st' = concat (map (xout (shell st)) w) @ [NUL] \<and>
     ifsregions st' = ifsregions st @ xregs (shell st) 0 w \<and> alike (shell st) (shell st')"
proof -
  obtain a st1 where m: "walked E False [] (word_text w @ []) st False a [] st1" "word_put (concat (map (xout (shell st)) w)) (xregs (shell st) 0 w) [] st a st1"
    using moved_word [of st w E "[]" "[]"] assms(1,2) by (auto simp: word_ok_for_def)
  obtain k' sl' where k': "0 < k'" "argstr_loop k E top_flags (reject_of top_flags) False 0 0 (word_text w) st =
      argstr_loop k' E top_flags (reject_of top_flags) False (length a) sl' a st1" using m(1) [unfolded walked_def, rule_format, of k 0] assms(3) by auto
  have f: "{EXP_FULL, EXP_TILDE} - {EXP_TILDE} = top_flags" "reject_of {EXP_FULL, EXP_TILDE} = reject_of top_flags" by (auto simp: reject_of_def)
  have "argstr k E (word_text w) {EXP_FULL, EXP_TILDE} st = argstr_loop k E top_flags (reject_of top_flags) False 0 0 (word_text w) st"
    using assms(1,2) unfolding argstr_def argstr_with_def f Let_def
    by (simp add: word_ok_for_def xbind_def xret_def start_loop_def dest_len_def xget_def)
  also have "\<dots> = (Inr None, put (a @ [NUL]) st1)" unfolding k'(2) by (rule loop_done [OF k'(1)])
  finally show ?thesis using m(2) assms(2) by (auto simp: word_put_def)
qed

lemma expandarg_word:
  assumes "word_ok_for (shell st) w" "ifsregions st = []" "length (word_text w) < k"
  shows "fst (expandarg k E (Narg (word_text w) bq) {EXP_FULL, EXP_TILDE} st) =
     Inr (expandmeta E (fflag (shell st)) (ifsbreakup (ifsval (shell st)) (xregs (shell st) 0 w) (concat (map (xout (shell st)) w))))"
proof -
  let ?st = "st\<lparr>argbackq := bq, expdest := []\<rparr>"
  obtain st' where s: "argstr k E (word_text w) {EXP_FULL, EXP_TILDE} ?st = (Inr None, st')" "expdest st' = concat (map (xout (shell st)) w) @ [NUL]"
    "ifsregions st' = xregs (shell st) 0 w" "alike (shell st) (shell st')" using argstr_word [of ?st w k E] assms by auto
  have "fflag (shell st') = fflag (shell st)" "ifsval (shell st') = ifsval (shell st)" using alike_simps [OF s(4)] by (simp_all add: fflag_def)
  then show ?thesis using s(1-3) by (simp add: expandarg_def xbind_def xset_def xget_def xret_def ifsfree_def Let_def)
qed

definition out_cells :: "wshell \<Rightarrow> xpart \<Rightarrow> (char \<times> bool) list" where
  "out_cells sh p = map (\<lambda>c. (c, case p of XParam _ \<Rightarrow> True | _ \<Rightarrow> False)) (xout sh p)"

lemma xregs_begin: "r \<in> set (xregs sh n w) \<Longrightarrow> n \<le> begoff r \<and> begoff r \<le> endoff r \<and> endoff r \<le> n + length (concat (map (xout sh) w)) \<and> \<not> nulonly r"
proof (induction w arbitrary: n)
  case (Cons p w)
  then show ?case by (fastforce simp: value_region_def split: xpart.splits if_splits)
qed simp

lemma covered_append: "covered (a @ b) i \<longleftrightarrow> covered a i \<or> covered b i"
  by (auto simp: covered_def)

lemma covered_word:
  "map (covered (xregs sh n w)) [n..<n + length (concat (map (xout sh) w))] = concat (map (\<lambda>p. map snd (out_cells sh p)) w)"
proof (induction w arbitrary: n)
  case (Cons p w)
  let ?l = "length (xout sh p)" and ?m = "length (concat (map (xout sh) w))"
  let ?reg = "case p of XParam v \<Rightarrow> value_region False sh v n | _ \<Rightarrow> []"
  have later: "\<not> covered (xregs sh (n + ?l) w) i" if "i < n + ?l" for i using that xregs_begin [of _ sh "n + ?l" w] by (fastforce simp: covered_def)
  have here: "\<not> covered ?reg i" if "n + ?l \<le> i" for i using that by (auto simp: covered_def value_region_def split: xpart.splits if_splits)
  have reg: "covered ?reg i \<longleftrightarrow> (case p of XParam _ \<Rightarrow> True | _ \<Rightarrow> False)" if "n \<le> i" "i < n + ?l" for i
    using that by (cases p) (auto simp: covered_def value_region_def value_out_def split: option.splits)
  have "map (covered (xregs sh n (p # w))) [n..<n + ?l] = map snd (out_cells sh p)"
    using later reg by (intro nth_equalityI) (auto simp: covered_append out_cells_def)
  moreover have "map (covered (xregs sh n (p # w))) [n + ?l..<n + ?l + ?m] = map (covered (xregs sh (n + ?l) w)) [n + ?l..<n + ?l + ?m]"
    using here by (auto simp: covered_append)
  moreover have "[n..<n + length (concat (map (xout sh) (p # w)))] = [n..<n + ?l] @ [n + ?l..<n + ?l + ?m]"
    using upt_add_eq_append [of n "n + ?l" ?m] by (simp add: add.assoc)
  ultimately show ?case using Cons.IH [of "n + ?l"] by simp
qed simp

lemma tagged_word: "tagged (covered (xregs sh 0 w)) (concat (map (xout sh) w)) = concat (map (out_cells sh) w)"
proof -
  have z: "tagged tag s = zip s (map tag [0..<length s])" for tag s by (rule nth_equalityI) (simp_all add: tagged_def)
  have s: "map snd (concat (map (out_cells sh) w)) = concat (map (\<lambda>p. map snd (out_cells sh p)) w)" by (simp add: map_concat comp_def)
  have f: "map fst (concat (map (out_cells sh) w)) = concat (map (xout sh) w)" by (induction w) (simp_all add: out_cells_def comp_def)
  have "tagged (covered (xregs sh 0 w)) (concat (map (xout sh) w)) = zip (map fst (concat (map (out_cells sh) w))) (map snd (concat (map (out_cells sh) w)))"
    unfolding z s f covered_word [of sh 0 w, unfolded add_0] ..
  then show ?thesis by (simp add: zip_map_fst_snd)
qed

text \<open>No two unquoted values touch.\<close>

fun is_param :: "xpart \<Rightarrow> bool" where
  "is_param (XParam v) = True"
| "is_param _ = False"

fun spaced :: "xpart list \<Rightarrow> bool" where
  "spaced [] = True"
| "spaced (p # w) = (spaced w \<and> (is_param p \<and> w \<noteq> [] \<longrightarrow> \<not> is_param (hd w)))"

lemma apart_Cons: "apart rs \<Longrightarrow> \<forall>x \<in> set rs. endoff r < begoff x \<Longrightarrow> apart (r # rs)"
  by (cases rs) auto

lemma xregs_apart: "spaced w \<Longrightarrow> list_all (xpart_ok sh) w \<Longrightarrow> apart (xregs sh n w)"
proof (induction w arbitrary: n)
  case (Cons p w)
  have w: "spaced w" "list_all (xpart_ok sh) w" using Cons.prems by auto
  show ?case
  proof (cases p)
    case (XParam v)
    let ?n = "n + length (value_out False sh v)"
    have "\<forall>x \<in> set (xregs sh ?n w). ?n < begoff x"
    proof (cases w)
      case (Cons q w')
      then have "\<not> is_param q" using Cons.prems(1) XParam by auto
      then have "xout sh q \<noteq> []" "xregs sh ?n w = xregs sh (?n + length (xout sh q)) w'" using w(2) Cons by (cases q; simp)+
      then have "?n < ?n + length (xout sh q)" "\<forall>x \<in> set (xregs sh ?n w). ?n + length (xout sh q) \<le> begoff x" using xregs_begin [of _ sh "?n + length (xout sh q)" w'] by auto
      then show ?thesis using order_less_le_trans by blast
    qed simp
    then have "apart (\<lparr>begoff = n, endoff = ?n, nulonly = False\<rparr> # xregs sh ?n w)" using Cons.IH [OF w] by (intro apart_Cons) auto
    then show ?thesis using Cons.IH [OF w] XParam by (simp add: value_region_def)
  qed (use Cons.IH [OF w] in simp_all)
qed simp

lemma memtodest_plain: "\<forall>c \<in> set s. sit (Some c) BASESYNTAX \<noteq> CCTL \<Longrightarrow> NUL \<notin> set s \<Longrightarrow> memtodest (value_flags False) s = s"
  by (induction s) (auto simp: is_escaped_def value_flags_def sit_def Let_def)

lemma memtodest_no_nul: "NUL \<notin> set s \<Longrightarrow> NUL \<notin> set (memtodest fl s)"
  by (induction s) auto

lemma xout_no_nul: "xpart_ok sh p \<Longrightarrow> NUL \<notin> set (xout sh p)"
proof -
  have v: "param_ok sh v \<Longrightarrow> NUL \<notin> set (value_out q sh v)" for v q
    using memtodest_no_nul by (auto simp: param_ok_def value_out_def split: option.splits)
  have "qpart_ok sh q \<Longrightarrow> NUL \<notin> set (qout sh q)" for q using v by (cases q) (auto simp: escaped_def)
  then show "xpart_ok sh p \<Longrightarrow> NUL \<notin> set (xout sh p)" using v by (cases p) (auto simp: list_all_iff)
qed

lemma word_splittable:
  assumes "list_all (xpart_ok sh) w" "spaced w"
  shows "splittable (concat (map (xout sh) w)) (xregs sh 0 w)"
proof -
  let ?s = "concat (map (xout sh) w)"
  have "?s ! i \<noteq> CTLESC" if r: "r \<in> set (xregs sh 0 w)" "begoff r \<le> i" "i < endoff r" for r i
  proof -
    have i: "i < length ?s" using xregs_begin [OF r(1)] r(3) by simp
    have "covered (xregs sh 0 w) i" using r by (auto simp: covered_def)
    then have "(?s ! i, True) = tagged (covered (xregs sh 0 w)) ?s ! i" "i < length (tagged (covered (xregs sh 0 w)) ?s)" using i by (simp_all add: tagged_def)
    then have "(?s ! i, True) \<in> set (concat (map (out_cells sh) w))" unfolding tagged_word [symmetric] by (metis nth_mem)
    then obtain p where p: "p \<in> set w" "(?s ! i, True) \<in> set (out_cells sh p)" by auto
    have "\<exists>v. p = XParam v \<and> c \<in> set (value_out False sh v)" if "(c, True) \<in> set (out_cells sh p)" for c using that by (cases p) (auto simp: out_cells_def)
    from this [OF p(2)] obtain v where v: "p = XParam v" "?s ! i \<in> set (value_out False sh v)" by blast
    then have "param_ok sh v" "unmarked_value sh v" using assms(1) p(1) by (auto simp: list_all_iff)
    then have "sit (Some (?s ! i)) BASESYNTAX \<noteq> CCTL" using v(2) memtodest_plain by (auto simp: value_out_def unmarked_value_def param_ok_def split: option.splits)
    moreover have "sit (Some CTLESC) BASESYNTAX = CCTL" by code_simp
    ultimately show ?thesis by metis
  qed
  moreover have "NUL \<notin> set ?s" using assms(1) xout_no_nul by (auto simp: list_all_iff)
  ultimately show ?thesis using xregs_begin [of _ sh 0 w] xregs_apart [OF assms(2,1), of 0] unfolding splittable_def by fastforce
qed

text \<open>
  The specification: the characters of a word with its values, each with whether it is subject to splitting.  These
  are the characters of the unquoted values and no others; quoted text stands between quote marks, with its
  special characters marked.
\<close>

fun cells :: "wshell \<Rightarrow> xpart \<Rightarrow> (char \<times> bool) list" where
  "cells sh (XPlain s) = map (\<lambda>c. (c, False)) s"
| "cells sh (XQuoted qs) = map (\<lambda>c. (c, False)) ([CTLQUOTEMARK] @ concat (map (qout sh) qs) @ [CTLQUOTEMARK])"
| "cells sh (XParam v) = map (\<lambda>c. (c, True)) (case var_value (w_vars sh) v of None \<Rightarrow> [] | Some s \<Rightarrow> s)"

lemma cells_out: "xpart_ok sh p \<Longrightarrow> out_cells sh p = cells sh p"
  by (cases p) (auto simp: out_cells_def value_out_def unmarked_value_def param_ok_def memtodest_plain split: option.splits)

text \<open>C13: The fields of a word made of literal text, quoted text with parameters in it and unquoted parameters, no two
  of which touch, and whose values have no character that the shell uses as a mark: the values of the unquoted
  parameters, and nothing else, are split by the rules of IFS, whatever IFS is; the fields are then handed to
  pathname expansion, which also removes the marks.\<close>

theorem word_fields:
  assumes "word_ok_for (shell st) w" and "spaced w" and "ifsregions st = []" and "length (word_text w) < k"
  shows "fst (expandarg k E (Narg (word_text w) bq) {EXP_FULL, EXP_TILDE} st) =
     Inr (expandmeta E (fflag (shell st))
       (split_fields (case ifsval (shell st) of None \<Rightarrow> defifs | Some i \<Rightarrow> i) (concat (map (cells (shell st)) w))))"
proof -
  have ok: "list_all (xpart_ok (shell st)) w" using assms(1) by (simp add: word_ok_for_def)
  then have "map (out_cells (shell st)) w = map (cells (shell st)) w" using cells_out by (auto simp: list_all_iff)
  with ifsbreakup_fields [OF word_splittable [OF ok assms(2)]] expandarg_word [OF assms(1,3,4), of E bq] show ?thesis by (simp add: tagged_word)
qed

text \<open>A shell in which v is a text with a blank and a star, and no directory can be read.\<close>

definition sample_state :: xstate where
  "sample_state = \<lparr>expdest = [], ifsregions = [], argbackq = [],
     shell = \<lparr>w_vars = (case setvar0 ''v'' ''a *'' (initvar ash_empty) of Inl _ \<Rightarrow> ash_empty | Inr vs \<Rightarrow> vs),
       shellparam = None, arg0 = ''sh'', rootpid = 1, backgndpid = 0\<rparr>\<rparr>"

definition no_directory :: wenv where
  "no_directory = \<lparr>readdir_names = (\<lambda>_. None), lstat_ok = (\<lambda>_. False), pmatch = (=), getpwnam_dir = (\<lambda>_. None), evalbackcmd = (\<lambda>_ s. ([], s))\<rparr>"

text \<open>\<open>x$v"c $v"\<close>\<close>

theorem word_fields_witness:
  "fst (expandarg 30 no_directory (Narg (word_text [XPlain ''x'', XParam ''v'', XQuoted [QText DQSYNTAX ''c '', QParam ''v'']]) []) {EXP_FULL, EXP_TILDE} sample_state)
     = Inr [''xa'', ''*c a *'']"
proof -
  let ?w = "[XPlain ''x'', XParam ''v'', XQuoted [QText DQSYNTAX ''c '', QParam ''v'']]"
  have "word_ok_for (shell sample_state) ?w" by code_simp
  moreover have "spaced ?w" "ifsregions sample_state = []" by (simp_all add: sample_state_def)
  moreover have "length (word_text ?w) < 30" by code_simp
  ultimately have "fst (expandarg 30 no_directory (Narg (word_text ?w) []) {EXP_FULL, EXP_TILDE} sample_state) =
     Inr (expandmeta no_directory (fflag (shell sample_state))
       (split_fields (case ifsval (shell sample_state) of None \<Rightarrow> defifs | Some i \<Rightarrow> i) (concat (map (cells (shell sample_state)) ?w))))"
    by (rule word_fields)
  also have "expandmeta no_directory (fflag (shell sample_state))
       (split_fields (case ifsval (shell sample_state) of None \<Rightarrow> defifs | Some i \<Rightarrow> i) (concat (map (cells (shell sample_state)) ?w))) = [''xa'', ''*c a *'']"
    by code_simp
  finally show ?thesis .
qed

section \<open>Quoted words\<close>

fun qmeans :: "wshell \<Rightarrow> qpart \<Rightarrow> cstr" where
  "qmeans sh (QText syn s) = s"
| "qmeans sh (QParam v) = (case var_value (w_vars sh) v of None \<Rightarrow> [] | Some s \<Rightarrow> s)"

text \<open>Text in which every mark is escaped.\<close>

fun marked :: "cstr \<Rightarrow> bool" where
  "marked [] = True"
| "marked (c # p) = (if c = CTLESC then (case p of [] \<Rightarrow> False | d # p' \<Rightarrow> marked p') else c \<noteq> CTLQUOTEMARK \<and> marked p)"

lemma marked_append: "marked a \<Longrightarrow> marked b \<Longrightarrow> marked (a @ b)"
proof (induction a rule: marked.induct)
  case (2 c p)
  then show ?case by (cases "c = CTLESC"; cases p) simp_all
qed simp

lemma marked_end: "marked a \<Longrightarrow> quote_end (a @ CTLQUOTEMARK # r) = Some r"
proof (induction a rule: marked.induct)
  case (2 c p)
  then show ?case by (cases "c = CTLESC"; cases p) simp_all
qed simp

lemma rmesc_marked: "marked a \<Longrightarrow> rmesc_loop False False (a @ b) = rmesc_loop False False a @ rmesc_loop False False b"
proof (induction a rule: marked.induct)
  case (2 c p)
  then show ?case by (cases "c = CTLESC"; cases p) simp_all
qed simp

lemma marked_escaped:
  assumes "syn = SQSYNTAX \<or> syn = DQSYNTAX"
  shows "marked (escaped syn s) \<and> rmesc_loop False False (escaped syn s) = s"
proof
  show "marked (escaped syn s)"
  proof (induction s)
    case (Cons c s)
    then show ?case using stops_marked [of c, OF _ assms] by (auto simp: escaped_Cons stops_def)
  qed (simp add: escaped_text_Nil)
  have "\<forall>c\<in>set s. c = CTLESC \<or> c = CTLQUOTEMARK \<longrightarrow> sit (Some c) syn = CCTL" using stops_marked [OF _ assms] by (auto simp: stops_def)
  from rmesc_escaped [OF this, of "[]"] show "rmesc_loop False False (escaped syn s) = s" by simp
qed

lemma marked_value:
  assumes "param_ok sh v"
  shows "marked (value_out True sh v) \<and> rmesc_loop False False (value_out True sh v) = qmeans sh (QParam v)"
proof (cases "var_value (w_vars sh) v")
  case (Some s)
  have m: "marked (memtodest (value_flags True) t)" if "NUL \<notin> set t" for t
    using that is_escaped_special(1,2) [of "value_flags True"] by (induction t) (auto simp: value_flags_def)
  have n: "NUL \<notin> set s" using assms Some by (simp add: param_ok_def)
  have "rmesc_loop False False (memtodest (value_flags True) s) = filter (\<lambda>c. c \<noteq> NUL) s" using n by (intro unescape_loop) (simp_all add: value_flags_def)
  moreover have "filter (\<lambda>c. c \<noteq> NUL) s = s" using n by (induction s) auto
  ultimately show ?thesis using m [OF n] Some by (simp add: value_out_def)
qed (simp add: value_out_def)

lemma marked_quoted:
  assumes "list_all (qpart_ok sh) qs"
  shows "marked (concat (map (qout sh) qs)) \<and> rmesc_loop False False (concat (map (qout sh) qs)) = concat (map (qmeans sh) qs)"
  using assms
proof (induction qs)
  case (Cons x qs)
  have "marked (qout sh x) \<and> rmesc_loop False False (qout sh x) = qmeans sh x" using Cons.prems marked_escaped marked_value by (cases x) auto
  then show ?case using Cons by (auto simp: marked_append rmesc_marked)
qed simp

abbreviation quoted_out :: "wshell \<Rightarrow> qpart list list \<Rightarrow> cstr" where
  "quoted_out sh qss \<equiv> concat (map (xout sh) (map XQuoted qss))"

lemma quoted_word:
  assumes "list_all (list_all (qpart_ok sh)) qss"
  shows "\<not> hasmeta (quoted_out sh qss) \<and> rmesc_loop False False (quoted_out sh qss) = concat (map (\<lambda>qs. concat (map (qmeans sh) qs)) qss)"
  using assms
proof (induction qss)
  case Nil
  show ?case by (simp add: hasmeta.simps)
next
  case (Cons qs qss)
  let ?a = "concat (map (qout sh) qs)" let ?r = "quoted_out sh qss"
  have m: "marked ?a \<and> rmesc_loop False False ?a = concat (map (qmeans sh) qs)" using Cons.prems by (intro marked_quoted) simp
  have "quote_end (?a @ CTLQUOTEMARK # ?r) = Some ?r" using m marked_end by blast
  then have "\<not> hasmeta (CTLQUOTEMARK # ?a @ CTLQUOTEMARK # ?r)" using Cons by (subst hasmeta.simps) (simp add: meta_chars_def)
  then show ?case using Cons m by (simp add: rmesc_marked)
qed

lemma ifsbreakup_whole:
  assumes "NUL \<notin> set s" "s \<noteq> []"
  shows "ifsbreakup i [] s = [s]"
proof -
  obtain c t where s: "s = c # t" using assms(2) by (cases s) auto
  have "takeWhile (\<lambda>c. c \<noteq> NUL) s = s" using assms(1) by (auto simp: takeWhile_eq_all_conv)
  then show ?thesis using assms(1) s by (auto simp: ifsbreakup_def field_text_def char_at_def)
qed

lemma quoted_expands:
  assumes "list_all (list_all (qpart_ok (shell st))) qss" "qss \<noteq> []" "ifsregions st = []" "length (word_text (map XQuoted qss)) < k"
  shows "fst (expandarg k E (Narg (word_text (map XQuoted qss)) bq) {EXP_FULL, EXP_TILDE} st) = Inr [concat (map (\<lambda>qs. concat (map (qmeans (shell st)) qs)) qss)]"
proof -
  let ?w = "map XQuoted qss" let ?sh = "shell st"
  have ok: "word_ok_for ?sh ?w" using assms(1,2) by (cases qss) (auto simp: word_ok_for_def list_all_iff char_at_def)
  have regs: "xregs ?sh n ?w = []" for n by (induction qss arbitrary: n) simp_all
  have ne: "quoted_out ?sh qss \<noteq> []" using assms(2) by (cases qss) auto
  have "list_all (xpart_ok ?sh) ?w" using assms(1) by (simp add: list_all_iff)
  then have "\<forall>p \<in> set ?w. NUL \<notin> set (xout ?sh p)" using xout_no_nul unfolding list_all_iff by blast
  then have nul: "NUL \<notin> set (quoted_out ?sh qss)" by (simp only: set_concat set_map) blast
  have "ifsbreakup i [] (quoted_out ?sh qss) = [quoted_out ?sh qss]" for i by (rule ifsbreakup_whole [OF nul ne])
  then have "fst (expandarg k E (Narg (word_text ?w) bq) {EXP_FULL, EXP_TILDE} st) = Inr (expandmeta E (fflag ?sh) [quoted_out ?sh qss])"
    using expandarg_word [OF ok assms(3,4), of E bq] regs by simp
  then show ?thesis using quoted_word [OF assms(1)] by (simp add: expandmeta_def expandmeta_field_def rmescapes_loop)
qed

text \<open>C12: A quoted word is one field: texts and named parameters between quotes give exactly their characters and values, whatever
  characters these have, whatever IFS is and whatever files there are.\<close>

theorem quoted_word_is_one_field:
  assumes "list_all (list_all (qpart_ok (shell st))) qss" and "qss \<noteq> []" and "ifsregions st = []" and "length (word_text (map XQuoted qss)) < k"
  shows "fst (expandarg k E (Narg (word_text (map XQuoted qss)) bq) {EXP_FULL, EXP_TILDE} st) = Inr [concat (map (\<lambda>qs. concat (map (qmeans (shell st)) qs)) qss)]"
  by (rule quoted_expands [OF assms])

text \<open>\<open>"*$v"'$v'\<close>\<close>

theorem quoted_word_is_one_field_witness:
  "fst (expandarg 30 no_directory (Narg (word_text (map XQuoted [[QText DQSYNTAX ''*'', QParam ''v''], [QText SQSYNTAX ''$v'']])) []) {EXP_FULL, EXP_TILDE} sample_state)
     = Inr [''*a *$v'']"
proof -
  let ?q = "[[QText DQSYNTAX ''*'', QParam ''v''], [QText SQSYNTAX ''$v'']]"
  have "list_all (list_all (qpart_ok (shell sample_state))) ?q" by code_simp
  moreover have "?q \<noteq> []" "ifsregions sample_state = []" by (simp_all add: sample_state_def)
  moreover have "length (word_text (map XQuoted ?q)) < 30" by code_simp
  ultimately have "fst (expandarg 30 no_directory (Narg (word_text (map XQuoted ?q)) []) {EXP_FULL, EXP_TILDE} sample_state) =
     Inr [concat (map (\<lambda>qs. concat (map (qmeans (shell sample_state)) qs)) ?q)]" by (rule quoted_word_is_one_field)
  also have "concat (map (\<lambda>qs. concat (map (qmeans (shell sample_state)) qs)) ?q) = ''*a *$v''" by code_simp
  finally show ?thesis .
qed

end
