(* ===== verification/Ash_Cd.thy ===== *)
theory Ash_Cd
  imports Ash_Vars Host_FS
begin

text \<open>
  The path search helper and the \<open>cd\<close> and \<open>pwd\<close> builtins, \<open>shell/ash.c\<close>: \<open>padvance\<close> walks the entries of a
  path variable, \<open>osd_spawn_command\<close> tries them, \<open>updatepwd\<close> computes the logical name of a directory and
  \<open>cdcmd\<close> changes the working directory, the shell's idea of it and the variables PWD and OLDPWD.  The
  directories are those of the file system model, the variables those of the variable table.  \<open>hashcd\<close>,
  which marks remembered commands for a new search, is not part of the state.
\<close>

section \<open>Path search\<close>

fun strip_prefix :: "cstr \<Rightarrow> cstr \<Rightarrow> cstr option" where
  "strip_prefix s [] = Some s"
| "strip_prefix [] (p # ps) = None"
| "strip_prefix (c # s) (p # ps) = (if c = p then strip_prefix s ps else None)"

definition strcspn :: "cstr \<Rightarrow> cstr \<Rightarrow> nat" where
  "strcspn s term = length (takeWhile (\<lambda>c. c \<notin> set term) s)"

definition legal_pathopt :: "cstr \<Rightarrow> cstr \<Rightarrow> nat \<Rightarrow> cstr option" where
  "legal_pathopt opt term magic =
     (let r = (if magic = 0 then None
               else if magic = 1 then (case strip_prefix opt ''builtin'' of Some p \<Rightarrow> Some p | None \<Rightarrow> strip_prefix opt ''func'')
               else Some (drop (strcspn opt term) opt))
      in map_option (\<lambda>p. if char_at p 0 = CHR ''%'' then tl p else p) r)"

record advance =
  adv_name :: cstr             \<comment> \<open>the string on the stack\<close>
  adv_path :: "cstr option"    \<comment> \<open>the rest of the path\<close>
  adv_opt :: "cstr option"     \<comment> \<open>pathopt\<close>

definition padvance_magic :: "cstr option \<Rightarrow> cstr \<Rightarrow> nat \<Rightarrow> advance option" where
  "padvance_magic path name magic =
     (case path of
        None \<Rightarrow> None
      | Some start0 \<Rightarrow>
          (let leading = (if char_at start0 0 = CHR ''%'' then legal_pathopt (tl start0) ''%:'' magic else None);
               lpathopt = (case leading of None \<Rightarrow> None | Some _ \<Rightarrow> Some (tl start0));
               start = (case leading of None \<Rightarrow> start0 | Some p \<Rightarrow> p);
               term = (case leading of None \<Rightarrow> ''%:'' | Some _ \<Rightarrow> '':'');
               len = strcspn start term;
               p = drop len start;
               extra = (if char_at p 0 = CHR ''%'' then strcspn p '':'' else 0);
               legal = char_at p 0 = CHR ''%'' \<and> legal_pathopt (tl p) term magic \<noteq> None;
               len' = (if legal then len else len + extra);
               p' = drop extra p
           in Some \<lparr>adv_name = (if len' \<noteq> 0 then take len' start @ ''/'' else []) @ name,
                    adv_path = (if char_at p' 0 = CHR '':'' then Some (tl p') else None),
                    adv_opt = (if legal then Some (tl p) else lpathopt)\<rparr>))"

definition padvance :: "cstr option \<Rightarrow> cstr \<Rightarrow> advance option" where
  "padvance path name = padvance_magic path name 1"

lemma padvance_shorter:
  assumes "padvance_magic (Some s) name magic = Some a" "adv_path a = Some s'"
  shows "length s' < length s"
proof -
  have strip: "strip_prefix x y = Some z \<Longrightarrow> length z \<le> length x" for x y z
    by (induction x y rule: strip_prefix.induct) (auto split: if_splits)
  have legal: "legal_pathopt x y m = Some z \<Longrightarrow> length z \<le> length x" for x y m z
    by (auto simp: legal_pathopt_def Let_def split: if_splits option.splits dest!: strip)
  have tl_less: "char_at x 0 = CHR '':'' \<Longrightarrow> length (tl x) < length x" for x by (cases x) auto
  define start where "start = (case (if char_at s 0 = CHR ''%'' then legal_pathopt (tl s) ''%:'' magic else None) of None \<Rightarrow> s | Some p \<Rightarrow> p)"
  have start: "length start \<le> length s"
    by (auto simp: start_def split: option.split dest!: legal)
  obtain n where "s' = tl (drop n start)" "char_at (drop n start) 0 = CHR '':''"
    using assms unfolding padvance_magic_def start_def [symmetric] Let_def option.case
    by (simp only: option.inject) (auto simp: drop_drop simp flip: start_def split: if_splits, (metis drop_0)+)
  then have "length s' < length (drop n start)" by (metis tl_less)
  then show ?thesis using start by simp
qed

section \<open>Running a program of the path\<close>

datatype errno = ENOENT | ENOTDIR | OtherErrno

text \<open>The host's \<open>osd_spawn\<close> is a parameter: the status, or the error why the file could not be run, and the new state of the machine.\<close>

function spawn_walk :: "(cstr \<Rightarrow> 'w \<Rightarrow> (errno + int) \<times> 'w) \<Rightarrow> cstr \<Rightarrow> cstr option \<Rightarrow> int \<Rightarrow> errno \<Rightarrow> 'w \<Rightarrow> (errno + int) \<times> 'w" where
  "spawn_walk osd_spawn name path idx e w =
     (case path of
        None \<Rightarrow> (Inl e, w)
      | Some s \<Rightarrow>
          (case padvance_magic (Some s) name 1 of
             None \<Rightarrow> (Inl e, w)
           | Some a \<Rightarrow>
               if idx - 1 < 0 \<and> adv_opt a = None then
                 (case osd_spawn (adv_name a) w of
                    (Inr st, w1) \<Rightarrow> (Inr st, w1)
                  | (Inl er, w1) \<Rightarrow>
                      spawn_walk osd_spawn name (adv_path a) (idx - 1) (if er \<noteq> ENOENT \<and> er \<noteq> ENOTDIR then er else e) w1)
               else spawn_walk osd_spawn name (adv_path a) (idx - 1) e w))"
  by pat_completeness auto
termination
proof (relation "measure (\<lambda>(f, name, path, idx, e, w). case path of None \<Rightarrow> 0 | Some s \<Rightarrow> Suc (length s))", goal_cases)
  case (2 osd_spawn name path idx e w s a x y er)
  then show ?case using padvance_shorter [of s name 1 a] by (cases "adv_path a") auto
next
  case (3 osd_spawn name path idx e w s a)
  then show ?case using padvance_shorter [of s name 1 a] by (cases "adv_path a") auto
qed simp

declare spawn_walk.simps [simp del]

definition spawn_status :: "errno + int \<Rightarrow> int" where
  "spawn_status r = (case r of Inr st \<Rightarrow> st | Inl e \<Rightarrow> if e = ENOENT \<or> e = ENOTDIR then 127 else 126)"

definition osd_spawn_command :: "(cstr \<Rightarrow> 'w \<Rightarrow> (errno + int) \<times> 'w) \<Rightarrow> cstr \<Rightarrow> cstr option \<Rightarrow> int \<Rightarrow> 'w \<Rightarrow> int \<times> 'w" where
  "osd_spawn_command osd_spawn name path idx w =
     apfst spawn_status
       (if CHR ''/'' \<in> set name then osd_spawn name w else spawn_walk osd_spawn name path idx ENOENT w)"

text \<open>A path without options is the list of its entries; an empty entry is the current directory.\<close>

definition candidate :: "cstr \<Rightarrow> cstr \<Rightarrow> cstr" where
  "candidate name dir = (if dir = [] then name else dir @ ''/'' @ name)"

lemma strcspn_append: "\<forall>c \<in> set a. c \<notin> set t \<Longrightarrow> strcspn (a @ b) t = length a + strcspn b t"
  by (induction a) (auto simp: strcspn_def)

lemma padvance_entry:
  assumes "CHR '':'' \<notin> set d" "CHR ''%'' \<notin> set d"
  shows "padvance_magic (Some (d @ CHR '':'' # r)) name m = Some \<lparr>adv_name = candidate name d, adv_path = Some r, adv_opt = None\<rparr>"
    and "padvance_magic (Some d) name m = Some \<lparr>adv_name = candidate name d, adv_path = None, adv_opt = None\<rparr>"
proof -
  have h: "char_at (d @ CHR '':'' # r) 0 \<noteq> CHR ''%''" "char_at d 0 \<noteq> CHR ''%''" using assms(2) by (cases d; auto)+
  have c: "strcspn (d @ CHR '':'' # r) ''%:'' = length d" "strcspn d ''%:'' = length d"
  proof -
    have "\<forall>c \<in> set d. c \<notin> set ''%:''" using assms by auto
    from strcspn_append [OF this] show "strcspn (d @ CHR '':'' # r) ''%:'' = length d" "strcspn d ''%:'' = length d"
      using strcspn_append [OF \<open>\<forall>c \<in> set d. c \<notin> set ''%:''\<close>, of "[]"] by (simp_all add: strcspn_def)
  qed
  show "padvance_magic (Some (d @ CHR '':'' # r)) name m = Some \<lparr>adv_name = candidate name d, adv_path = Some r, adv_opt = None\<rparr>"
    "padvance_magic (Some d) name m = Some \<lparr>adv_name = candidate name d, adv_path = None, adv_opt = None\<rparr>"
    using h c by (simp_all add: padvance_magic_def Let_def candidate_def)
qed

text \<open>The specification: the candidates are tried in order until one runs.\<close>

fun try_all :: "(cstr \<Rightarrow> 'w \<Rightarrow> (errno + int) \<times> 'w) \<Rightarrow> cstr list \<Rightarrow> errno \<Rightarrow> 'w \<Rightarrow> (errno + int) \<times> 'w" where
  "try_all f [] e w = (Inl e, w)"
| "try_all f (x # xs) e w =
     (case f x w of
        (Inr st, w1) \<Rightarrow> (Inr st, w1)
      | (Inl er, w1) \<Rightarrow> try_all f xs (if er = ENOENT \<or> er = ENOTDIR then e else er) w1)"

lemma split_on_nonempty [simp]: "split_on d s \<noteq> []"
  by (cases s) (auto split: list.split)

lemma spawn_walk_step:
  assumes "padvance_magic (Some path) name 1 = Some \<lparr>adv_name = x, adv_path = p, adv_opt = None\<rparr>"
  shows "spawn_walk f name (Some path) idx e w =
    (if idx \<le> 0 then (case f x w of (Inr st, w1) \<Rightarrow> (Inr st, w1)
        | (Inl er, w1) \<Rightarrow> spawn_walk f name p (idx - 1) (if er = ENOENT \<or> er = ENOTDIR then e else er) w1)
     else spawn_walk f name p (idx - 1) e w)"
  using assms by (subst spawn_walk.simps) (auto split: prod.split sum.split)

lemma spawn_walk_end: "spawn_walk f name None idx e w = (Inl e, w)"
  by (simp add: spawn_walk.simps)

lemma path_cases:
  obtains "CHR '':'' \<notin> set path" | d r where "path = d @ CHR '':'' # r" "CHR '':'' \<notin> set d"
  by (metis split_list_first)

lemma spawn_walk_tries:
  "CHR ''%'' \<notin> set path \<Longrightarrow> spawn_walk f name (Some path) idx e w
     = try_all f (drop (nat idx) (map (candidate name) (split_on (CHR '':'') path))) e w"
proof (induction "length path" arbitrary: path idx e w rule: less_induct)
  case less
  show ?case
  proof (cases path rule: path_cases)
    case 1
    then show ?thesis
      by (cases "idx \<le> 0") (simp_all add: spawn_walk_step [OF padvance_entry(2) [OF 1 less.prems]] split_on_none spawn_walk_end
        split: prod.split sum.split)
  next
    case (2 d r)
    then have r: "CHR ''%'' \<notin> set d" "CHR ''%'' \<notin> set r" "length r < length path" using less.prems by auto
    have n: "drop (nat idx) (x # xs) = (if idx \<le> 0 then x # xs else drop (nat (idx - 1)) xs)" for x and xs :: "cstr list"
    proof (cases "idx \<le> 0")
      case False
      then have "nat idx = Suc (nat (idx - 1))" by simp
      then show ?thesis using False by simp
    qed simp
    have "nat (idx - 1) = 0" if "idx \<le> 0" using that by simp
    then show ?thesis unfolding 2 spawn_walk_step [OF padvance_entry(1) [OF 2(2) r(1)]] less.hyps [OF r(3,2)]
      by (auto simp: 2 split_on_append n split: prod.split sum.split)
  qed
qed

text \<open>C19: a command name without a slash runs the first program that the host can run among the entries of PATH, in order and from
  the remembered index on (an empty entry is the current directory); when none can be run the status is
  127, or 126 when some entry failed for another reason than a missing file.\<close>

theorem spawn_follows_path:
  assumes "CHR ''/'' \<notin> set name" and "CHR ''%'' \<notin> set path"
  shows "osd_spawn_command osd_spawn name (Some path) idx w
     = apfst spawn_status (try_all osd_spawn (drop (nat idx) (map (candidate name) (split_on (CHR '':'') path))) ENOENT w)"
  using assms(1) by (simp add: osd_spawn_command_def spawn_walk_tries [OF assms(2)])

definition demo_spawn :: "cstr \<Rightarrow> cstr list \<Rightarrow> (errno + int) \<times> cstr list" where
  "demo_spawn p w = (if p = ''/bin/ls'' then Inr 0 else Inl ENOENT, p # w)"

theorem spawn_follows_path_witness:
  "osd_spawn_command demo_spawn ''ls'' (Some ''/x::/bin:/y'') 0 [] = (0, [''/bin/ls'', ''ls'', ''/x/ls''])"
proof -
  have "apfst spawn_status (try_all demo_spawn (drop (nat 0) (map (candidate ''ls'') (split_on (CHR '':'') ''/x::/bin:/y''))) ENOENT [])
      = (0, [''/bin/ls'', ''ls'', ''/x/ls''])" by code_simp
  then show ?thesis using spawn_follows_path [of "''ls''" "''/x::/bin:/y''" demo_spawn 0 "[]"] by simp
qed

section \<open>Logical directory names\<close>

text \<open>\<open>..\<close>: characters are taken off until the one before is a slash or the limit is reached.\<close>

function pop_comp :: "nat \<Rightarrow> cstr \<Rightarrow> cstr" where
  "pop_comp lim new =
     (if length new > lim then (let new' = butlast new in if new' \<noteq> [] \<and> last new' = SLASH then new' else pop_comp lim new') else new)"
  by auto
termination by (relation "measure (\<lambda>(lim, new). length new)") auto

declare pop_comp.simps [simp del]

fun cd_comp :: "nat \<Rightarrow> cstr \<Rightarrow> cstr \<Rightarrow> cstr" where
  "cd_comp lim p new =
     (if p = ''..'' then pop_comp lim new else if p = ''.'' then new else new @ p @ [SLASH])"

text \<open>\<open>strtok_r\<close> with slashes gives the components that are not empty.\<close>

definition slash_tokens :: "cstr \<Rightarrow> cstr list" where
  "slash_tokens s = filter (\<lambda>c. c \<noteq> []) (split_on SLASH s)"

definition updatepwd :: "cstr option \<Rightarrow> cstr \<Rightarrow> cstr option" where
  "updatepwd curdir dir =
     (let start =
        (if char_at dir 0 \<noteq> SLASH then
           (case curdir of
              None \<Rightarrow> None
            | Some c \<Rightarrow>
                (let new = (if last c \<noteq> SLASH then c @ [SLASH] else c);
                     lim = (if length new > 1 \<and> char_at new 1 = SLASH then 2 else 1)
                 in Some (new, lim, dir)))
         else if char_at dir 1 = SLASH \<and> char_at dir 2 \<noteq> SLASH then Some ([SLASH, SLASH], 2, drop 2 dir)
         else Some ([SLASH], 1, drop 1 dir))
      in map_option (\<lambda>(new0, lim, cdcomppath).
           let new = fold (cd_comp lim) (slash_tokens cdcomppath) new0
           in if length new > lim then butlast new else new) start)"

text \<open>A directory by its components: one or two slashes, and the components separated by slashes.\<close>

definition dir_name :: "cstr \<Rightarrow> cstr list \<Rightarrow> cstr" where
  "dir_name root cs = root @ tl (path_str cs)"

definition root_ok :: "cstr \<Rightarrow> bool" where
  "root_ok root \<longleftrightarrow> root = [SLASH] \<or> root = [SLASH, SLASH]"

text \<open>The string while it is built: every component is followed by a slash.\<close>

definition building :: "cstr \<Rightarrow> cstr list \<Rightarrow> cstr" where
  "building root cs = root @ concat (map (\<lambda>c. c @ [SLASH]) cs)"

lemma building_simps [simp]: "building root [] = root" "building root (cs @ [c]) = building root cs @ c @ [SLASH]"
  by (simp_all add: building_def)

lemma building_length: "length root \<le> length (building root cs)"
  by (simp add: building_def)

lemma building_last: "root_ok root \<Longrightarrow> last (building root cs) = SLASH \<and> building root cs \<noteq> []"
  by (cases cs rule: rev_cases) (auto simp: root_ok_def)

lemma building_butlast: "root_ok root \<Longrightarrow> length (building root cs) > length root \<Longrightarrow> butlast (building root cs) = dir_name root cs"
proof -
  assume "length (building root cs) > length root"
  then obtain c cs' where cs: "cs = c # cs'" by (cases cs) auto
  have "concat (map (\<lambda>c. c @ [SLASH]) (c # cs')) = c @ path_str cs' @ [SLASH]" for c cs'
    by (induction cs' arbitrary: c) auto
  then show ?thesis by (simp add: building_def dir_name_def cs butlast_append)
qed

lemma pop_inside:
  assumes "length base \<ge> lim" "SLASH \<notin> set c" "last base = SLASH" "base \<noteq> []" "c \<noteq> []"
  shows "pop_comp lim (base @ c) = base"
  using assms(2,5)
proof (induction c rule: rev_induct)
  case (snoc x c)
  show ?case
  proof (cases "c = []")
    case True
    then show ?thesis using assms by (subst pop_comp.simps) (simp add: butlast_append)
  next
    case False
    then have "last (base @ c) \<noteq> SLASH" using snoc.prems by (auto simp: in_set_conv_decomp) (metis append_butlast_last_id)
    then show ?thesis using snoc False assms(1) by (subst pop_comp.simps) (simp add: butlast_append Let_def)
  qed
qed simp

lemma pop_building:
  assumes "root_ok root" "SLASH \<notin> set c" "c \<noteq> []"
  shows "pop_comp (length root) (building root (cs @ [c])) = building root cs"
proof -
  have "last (building root cs @ c) \<noteq> SLASH" using assms(2,3) by (auto simp: last_append) (metis last_in_set)
  then have "pop_comp (length root) (building root (cs @ [c])) = pop_comp (length root) (building root cs @ c)"
    using building_length [of root cs] assms(3) by (subst pop_comp.simps) (auto simp: Let_def butlast_append)
  then show ?thesis using pop_inside [OF building_length assms(2)] building_last [OF assms(1)] assms(3) by simp
qed

lemma pop_root: "root_ok root \<Longrightarrow> pop_comp (length root) (building root []) = building root []"
  by (subst pop_comp.simps) simp

definition clean_path :: "cstr list \<Rightarrow> bool" where
  "clean_path cs \<longleftrightarrow> (\<forall>c \<in> set cs. clean_comp c)"

lemma step_clean: "SLASH \<notin> set p \<Longrightarrow> clean_path cs \<Longrightarrow> clean_path (step_comp p cs)"
  by (auto simp: step_comp_def clean_path_def clean_comp_def dest: in_set_butlastD)

lemma cd_comp_step:
  assumes "root_ok root" "clean_path cs" "SLASH \<notin> set p" "p \<noteq> []"
  shows "cd_comp (length root) p (building root cs) = building root (step_comp p cs)"
proof (cases "p = ''..''")
  case True
  then show ?thesis using assms pop_root [OF assms(1)] pop_building [OF assms(1)]
    by (cases cs rule: rev_cases) (auto simp: step_comp_def clean_path_def clean_comp_def)
qed (use assms in \<open>simp add: step_comp_def\<close>)

lemma fold_cd_comp:
  assumes "root_ok root"
  shows "\<forall>p \<in> set ps. SLASH \<notin> set p \<and> p \<noteq> [] \<Longrightarrow> clean_path cs \<Longrightarrow>
    fold (cd_comp (length root)) ps (building root cs) = building root (fold step_comp ps cs) \<and> clean_path (fold step_comp ps cs)"
proof (induction ps arbitrary: cs)
  case (Cons p ps)
  then show ?case using cd_comp_step [OF assms Cons.prems(2), of p] step_clean [of p cs] by (simp del: cd_comp.simps)
qed simp

lemma split_on_slash_free: "p \<in> set (split_on d s) \<Longrightarrow> d \<notin> set p"
  by (induction s arbitrary: p) (auto split: if_splits list.splits)

lemma fold_tokens: "fold step_comp (slash_tokens s) cs = fold step_comp (split_on SLASH s) cs"
proof -
  have "fold step_comp (filter (\<lambda>c. c \<noteq> []) ps) cs = fold step_comp ps cs" for ps
    by (induction ps arbitrary: cs) (auto simp: step_comp_def)
  then show ?thesis by (simp add: slash_tokens_def)
qed

lemma finish_building:
  assumes "root_ok root" "clean_path cs"
  shows "(if length (building root cs) > length root then butlast (building root cs) else building root cs) = dir_name root cs"
proof (cases cs)
  case (Cons c cs')
  then have "length (building root cs) > length root" by (simp add: building_def)
  then show ?thesis using building_butlast [OF assms(1)] by simp
qed (simp add: dir_name_def)

lemma building_done:
  assumes "root_ok root" "clean_path cs"
  shows "let new = fold (cd_comp (length root)) (slash_tokens s) (building root cs)
     in (if length new > length root then butlast new else new) = dir_name root (fold step_comp (split_on SLASH s) cs)"
proof -
  have "\<forall>p \<in> set (slash_tokens s). SLASH \<notin> set p \<and> p \<noteq> []" using split_on_slash_free by (auto simp: slash_tokens_def)
  from fold_cd_comp [OF assms(1) this assms(2)] show ?thesis
    using finish_building [OF assms(1)] by (simp add: fold_tokens)
qed

lemma start_relative:
  assumes "root_ok root" "clean_path cs"
  shows "(if last (dir_name root cs) \<noteq> SLASH then dir_name root cs @ [SLASH] else dir_name root cs) = building root cs"
    and "(if length (building root cs) > 1 \<and> char_at (building root cs) 1 = SLASH then 2 else 1) = length root"
proof -
  show "(if last (dir_name root cs) \<noteq> SLASH then dir_name root cs @ [SLASH] else dir_name root cs) = building root cs"
  proof (cases cs rule: rev_cases)
    case Nil
    then show ?thesis using assms(1) by (auto simp: root_ok_def dir_name_def)
  next
    case (snoc ds d)
    have d: "d \<noteq> []" "SLASH \<notin> set d" using assms(2) snoc by (auto simp: clean_path_def clean_comp_def)
    have "last (dir_name root cs) = last d" using snoc d by (cases ds) (auto simp: dir_name_def last_append)
    then have l: "last (dir_name root cs) \<noteq> SLASH" using d by (metis last_in_set)
    have "length (building root cs) > length root" using snoc d by (simp add: building_def)
    from building_butlast [OF assms(1) this] have "dir_name root cs @ [SLASH] = building root cs"
      using building_last [OF assms(1), of cs] by (metis append_butlast_last_id)
    then show ?thesis using l by simp
  qed
  show "(if length (building root cs) > 1 \<and> char_at (building root cs) 1 = SLASH then 2 else 1) = length root"
  proof (cases cs)
    case Nil
    then show ?thesis using assms(1) by (auto simp: root_ok_def)
  next
    case (Cons c cs')
    then obtain x c' where c: "c = x # c'" "x \<noteq> SLASH" using assms(2) by (cases c) (auto simp: clean_path_def clean_comp_def)
    then show ?thesis using assms(1) by (auto simp: root_ok_def building_def Cons)
  qed
qed

text \<open>The name that \<open>cd\<close> computes without looking at the file system.\<close>

lemma updatepwd_name:
  assumes "root_ok root" "clean_path cs"
  obtains root' where "root_ok root'"
    and "updatepwd (Some (dir_name root cs)) dir
       = Some (dir_name root' (fold step_comp (split_on SLASH dir) (if char_at dir 0 = SLASH then [] else cs)))"
proof (cases "char_at dir 0 = SLASH")
  case False
  have "updatepwd (Some (dir_name root cs)) dir = Some (dir_name root (fold step_comp (split_on SLASH dir) cs))"
    unfolding updatepwd_def Let_def option.case start_relative [OF assms]
    using False building_done [OF assms, of dir] by (simp add: Let_def)
  then show ?thesis using that [OF assms(1)] False by simp
next
  case True
  then obtain d where dir: "dir = SLASH # d" by (cases dir) auto
  show ?thesis
  proof (cases "char_at dir 1 = SLASH \<and> char_at dir 2 \<noteq> SLASH")
    case two: True
    then obtain d' where d': "d = SLASH # d'" using dir by (cases d) auto
    have "updatepwd (Some (dir_name root cs)) dir = Some (dir_name [SLASH, SLASH] (fold step_comp (split_on SLASH dir) []))"
      using two building_done [of "[SLASH, SLASH]" "[]" d'] by (simp add: updatepwd_def Let_def dir d' root_ok_def clean_path_def numeral_2_eq_2)
    then show ?thesis using that [of "[SLASH, SLASH]"] True by (simp add: root_ok_def)
  next
    case one: False
    have "updatepwd (Some (dir_name root cs)) dir = Some (dir_name [SLASH] (fold step_comp (split_on SLASH dir) []))"
      using one building_done [of "[SLASH]" "[]" d] by (auto simp: updatepwd_def Let_def dir root_ok_def clean_path_def)
    then show ?thesis using that [of "[SLASH]"] True by (simp add: root_ok_def)
  qed
qed

lemma resolve_dir_name:
  assumes "root_ok root" "clean_path cs"
  shows "resolve w (dir_name root cs) = cs"
proof -
  have f: "fold step_comp (split_on SLASH (tl (path_str cs))) [] = cs"
  proof (cases cs)
    case (Cons c cs')
    then have "split_on SLASH (tl (path_str cs)) = cs"
      using assms(2) split_on_path [of c cs'] by (auto simp: clean_path_def clean_comp_def)
    then show ?thesis using fold_step_comp [of cs "[]"] assms(2) by (simp add: clean_path_def)
  qed simp
  show ?thesis using assms(1) f by (auto simp: root_ok_def resolve_def dir_name_def)
qed

section \<open>cd and pwd\<close>

text \<open>Options of builtins: the rest of the current option word and the remaining arguments.\<close>

record getopt =
  optptr :: cstr
  argptr :: "cstr list"
  optionarg :: "cstr option"

datatype cd_error = IllegalOption char | NoArg char | CantCd cstr | VarError ash_error

text \<open>The search of an option character: whether it takes an argument.\<close>

fun opt_find :: "char \<Rightarrow> cstr \<Rightarrow> bool option" where
  "opt_find c [] = None"
| "opt_find c (q # qs) =
     (if q = c then Some (char_at qs 0 = CHR '':'') else opt_find c (if char_at qs 0 = CHR '':'' then tl qs else qs))"

definition nextopt :: "cstr \<Rightarrow> getopt \<Rightarrow> cd_error + char option \<times> getopt" where
  "nextopt optstring g =
     (let take_opt = (\<lambda>p g1.
            let c = char_at p 0; p1 = tl p
            in case opt_find c optstring of
                 None \<Rightarrow> Inl (IllegalOption c)
               | Some False \<Rightarrow> Inr (Some c, g1\<lparr>optptr := p1\<rparr>)
               | Some True \<Rightarrow>
                   (if p1 = [] then
                      (case argptr g1 of
                         [] \<Rightarrow> Inl (NoArg c)
                       | a # as \<Rightarrow> Inr (Some c, g1\<lparr>optptr := [], argptr := as, optionarg := Some a\<rparr>))
                    else Inr (Some c, g1\<lparr>optptr := [], optionarg := Some p1\<rparr>)))
      in if optptr g = [] then
           (case argptr g of
              [] \<Rightarrow> Inr (None, g)
            | a # as \<Rightarrow>
                if char_at a 0 \<noteq> CHR ''-'' \<or> tl a = [] then Inr (None, g)
                else if tl a = ''-'' then Inr (None, g\<lparr>argptr := as\<rparr>)
                else take_opt (tl a) (g\<lparr>argptr := as\<rparr>))
         else take_opt (optptr g) g)"

definition opt_size :: "getopt \<Rightarrow> nat" where
  "opt_size g = length (optptr g) + sum_list (map (\<lambda>a. Suc (length a)) (argptr g))"

lemma nextopt_shorter: "nextopt optstring g = Inr (Some c, g') \<Longrightarrow> opt_size g' < opt_size g"
  apply (auto simp: nextopt_def opt_size_def Let_def length_tl neq_Nil_conv split: if_splits option.splits bool.splits list.splits)
  subgoal for a as by (cases a) auto
  done

text \<open>\<open>cdopt\<close>: the last of the options L and P decides.\<close>

function cdopt_loop :: "bool \<Rightarrow> char \<Rightarrow> getopt \<Rightarrow> cd_error + bool \<times> getopt" where
  "cdopt_loop physical j g =
     (case nextopt ''LP'' g of
        Inl e \<Rightarrow> Inl e
      | Inr (None, g1) \<Rightarrow> Inr (physical, g1)
      | Inr (Some i, g1) \<Rightarrow> if i \<noteq> j then cdopt_loop (\<not> physical) i g1 else cdopt_loop physical j g1)"
  by pat_completeness auto
termination by (relation "measure (\<lambda>(p, j, g). opt_size g)") (auto dest: nextopt_shorter)

declare cdopt_loop.simps [simp del]

definition cdopt :: "cstr list \<Rightarrow> cd_error + bool \<times> getopt" where
  "cdopt args = cdopt_loop False (CHR ''L'') \<lparr>optptr = [], argptr = args, optionarg = None\<rparr>"

record cd_state =
  cd_w :: world
  curdir :: "cstr option"      \<comment> \<open>None is nullstr\<close>
  physdir :: "cstr option"
  cd_vars :: ash_vars

type_synonym 'a cd_result = "(cd_error + 'a) \<times> cd_state"

definition setpwd_var :: "cstr \<Rightarrow> cstr \<Rightarrow> cd_state \<Rightarrow> unit cd_result" where
  "setpwd_var name val st =
     (case set_var name (Some val) {VEXPORT} (cd_vars st) of
        Inl (e, vs) \<Rightarrow> (Inl (VarError e), st\<lparr>cd_vars := vs\<rparr>)
      | Inr vs \<Rightarrow> (Inr (), st\<lparr>cd_vars := vs\<rparr>))"

definition getpwd :: "cd_state \<Rightarrow> cstr" where
  "getpwd st = dir_name [SLASH] (cwd (cd_w st))"

text \<open>The first flag: the argument is the pointer \<open>curdir\<close> itself.\<close>

definition setpwd :: "bool \<Rightarrow> cstr option \<Rightarrow> bool \<Rightarrow> cd_state \<Rightarrow> unit cd_result" where
  "setpwd same val setold st =
     (let oldcur = curdir st
      in case (if setold then setpwd_var ''OLDPWD'' (case oldcur of None \<Rightarrow> [] | Some c \<Rightarrow> c) st else (Inr (), st)) of
           (Inl e, st1) \<Rightarrow> (Inl e, st1)
         | (Inr _, st1) \<Rightarrow>
             (let st2 = st1\<lparr>physdir := (if same \<or> val = None then Some (getpwd st1) else None),
                            curdir := (if val = None then Some (getpwd st1) else if same then oldcur else val)\<rparr>
              in setpwd_var ''PWD'' (case curdir st2 of None \<Rightarrow> [] | Some c \<Rightarrow> c) st2))"

definition docd :: "cstr \<Rightarrow> bool \<Rightarrow> cd_state \<Rightarrow> bool cd_result" where
  "docd dest physical st =
     (let dir = (if physical then None else updatepwd (curdir st) dest);
          dest' = (case dir of None \<Rightarrow> dest | Some d \<Rightarrow> d); w = cd_w st
      in if dest' = [] \<or> \<not> is_dir w dest' then (Inr False, st)
         else case setpwd False dir True (st\<lparr>cd_w := w\<lparr>cwd := resolve w dest'\<rparr>\<rparr>) of
                (Inl e, st1) \<Rightarrow> (Inl e, st1)
              | (Inr _, st1) \<Rightarrow> (Inr True, st1))"

text \<open>Names that are not searched in CDPATH.\<close>

definition is_direct :: "cstr \<Rightarrow> bool" where
  "is_direct dest \<longleftrightarrow> char_at dest 0 = SLASH \<or>
     char_at dest 0 = CHR ''.'' \<and> (char_at dest 1 \<in> {NUL, SLASH} \<or> char_at dest 1 = CHR ''.'' \<and> char_at dest 2 \<in> {NUL, SLASH})"

function cdpath_walk :: "world \<Rightarrow> cstr \<Rightarrow> cstr option \<Rightarrow> (cstr \<times> bool) option" where
  "cdpath_walk w dest path =
     (case path of
        None \<Rightarrow> None
      | Some s \<Rightarrow>
          (case padvance_magic (Some s) dest 1 of
             None \<Rightarrow> None
           | Some a \<Rightarrow>
               if is_dir w (adv_name a) then Some (adv_name a, char_at s 0 \<noteq> NUL \<and> char_at s 0 \<noteq> CHR '':'')
               else cdpath_walk w dest (adv_path a)))"
  by pat_completeness auto
termination
proof (relation "measure (\<lambda>(w, dest, path). case path of None \<Rightarrow> 0 | Some s \<Rightarrow> Suc (length s))", goal_cases)
  case (2 w dest path s a)
  then show ?case using padvance_shorter [of s dest 1 a] by (cases "adv_path a") auto
qed simp

declare cdpath_walk.simps [simp del]

definition bltinlookup :: "cstr \<Rightarrow> cd_state \<Rightarrow> cstr option \<times> cd_state" where
  "bltinlookup name st = (let (v, vs) = lookup_var name (cd_vars st) in (v, st\<lparr>cd_vars := vs\<rparr>))"

definition print_curdir :: "cstr option \<Rightarrow> cd_state \<Rightarrow> cd_state" where
  "print_curdir d st = st\<lparr>cd_w := (cd_w st)\<lparr>out := out (cd_w st) @ (case d of None \<Rightarrow> [] | Some c \<Rightarrow> c) @ [NL]\<rparr>\<rparr>"

definition cd_dest :: "cstr list \<Rightarrow> cd_state \<Rightarrow> cstr \<times> bool \<times> cd_state" where
  "cd_dest rest st =
     (let (dest0, pr, st1) =
        (case rest of
           [] \<Rightarrow> (let (v, s) = bltinlookup ''HOME'' st in (v, False, s))
         | d # _ \<Rightarrow> if d = ''-'' then (let (v, s) = bltinlookup ''OLDPWD'' st in (v, True, s)) else (Some d, False, st))
      in (case dest0 of None \<Rightarrow> [] | Some d \<Rightarrow> d, pr, st1))"

text \<open>The directory that is tried, whether it is printed, and the name in a message.\<close>

definition cd_target :: "cstr list \<Rightarrow> cd_state \<Rightarrow> cstr \<times> bool \<times> cstr \<times> cd_state" where
  "cd_target rest st =
     (let (dest, pr, st1) = cd_dest rest st
      in if is_direct dest then (dest, pr, dest, st1)
         else let dest' = (if dest = [] then ''.'' else dest); (cdpath, st2) = bltinlookup ''CDPATH'' st1
              in case cdpath_walk (cd_w st2) dest' cdpath of
                   Some (p, pr') \<Rightarrow> (p, pr \<or> pr', dest', st2)
                 | None \<Rightarrow> (dest', pr, dest', st2))"

definition cdcmd :: "cstr list \<Rightarrow> cd_state \<Rightarrow> int cd_result" where
  "cdcmd args st =
     (case cdopt args of
        Inl e \<Rightarrow> (Inl e, st)
      | Inr (physical, g) \<Rightarrow>
          (let (target, pr, dest, st1) = cd_target (argptr g) st
           in case docd target physical st1 of
                (Inl e, st2) \<Rightarrow> (Inl e, st2)
              | (Inr False, st2) \<Rightarrow> (Inl (CantCd dest), st2)
              | (Inr True, st2) \<Rightarrow> (Inr 0, if pr then print_curdir (curdir st2) st2 else st2)))"

definition pwdcmd :: "cstr list \<Rightarrow> cd_state \<Rightarrow> int cd_result" where
  "pwdcmd args st =
     (case cdopt args of
        Inl e \<Rightarrow> (Inl e, st)
      | Inr (False, g) \<Rightarrow> (Inr 0, print_curdir (curdir st) st)
      | Inr (True, g) \<Rightarrow>
          (case (if physdir st = None then setpwd True (curdir st) False st else (Inr (), st)) of
             (Inl e, st1) \<Rightarrow> (Inl e, st1)
           | (Inr _, st1) \<Rightarrow> (Inr 0, print_curdir (physdir st1) st1)))"

section \<open>The working directory and its names agree\<close>

definition cd_ok :: "cd_state \<Rightarrow> bool" where
  "cd_ok st \<longleftrightarrow> vars_ok (cd_vars st) \<and> clean_path (cwd (cd_w st)) \<and>
     (\<exists>root. root_ok root \<and> curdir st = Some (dir_name root (cwd (cd_w st))))"

abbreviation shell_var :: "cd_state \<Rightarrow> cstr \<Rightarrow> cstr option" where
  "shell_var st n \<equiv> var_value (cd_vars st) n"

lemma pwd_names: "var_name ''PWD''" "var_name ''OLDPWD''" "var_name ''HOME''" "var_name ''CDPATH''"
  by code_simp+

lemma set_export:
  assumes "vars_ok vs" "var_name n" "set_var n (Some v) {VEXPORT} vs = Inr vs'"
  shows "vars_ok vs'" "var_name m \<Longrightarrow> var_value vs' m = (if m = n then Some v else var_value vs m)"
    "var_name m \<Longrightarrow> m \<noteq> n \<Longrightarrow> readonly_var vs' m = readonly_var vs m"
proof -
  obtain e where e: "updates vs n e vs'" "entry_value vs e = Some v"
    using set_var_updates [OF assms(1,2) _ assms(3)] by auto
  then show "vars_ok vs'" by (simp add: updates_def)
  show "var_name m \<Longrightarrow> var_value vs' m = (if m = n then Some v else var_value vs m)" using updates_value [OF e(1)] e(2) by simp
  show "var_name m \<Longrightarrow> m \<noteq> n \<Longrightarrow> readonly_var vs' m = readonly_var vs m" using e(1) by (simp add: updates_def readonly_var_def)
qed

lemma setpwd_var_ok:
  assumes "vars_ok (cd_vars st)" "var_name n" "setpwd_var n v st = (Inr (), st')"
  shows "st' = st\<lparr>cd_vars := cd_vars st'\<rparr>" "vars_ok (cd_vars st')"
    and "var_name m \<Longrightarrow> shell_var st' m = (if m = n then Some v else shell_var st m)"
    and "var_name m \<Longrightarrow> m \<noteq> n \<Longrightarrow> readonly_var (cd_vars st') m = readonly_var (cd_vars st) m"
  using assms set_export [OF assms(1,2)] by (auto simp: setpwd_var_def split: sum.splits prod.splits)

text \<open>What a successful change of directory does.\<close>

definition moved_to :: "cstr list \<Rightarrow> cd_state \<Rightarrow> cd_state \<Rightarrow> bool" where
  "moved_to cs st st' \<longleftrightarrow> cd_ok st' \<and> cd_w st' = (cd_w st)\<lparr>cwd := cs\<rparr> \<and>
     shell_var st' ''PWD'' = curdir st' \<and> shell_var st' ''OLDPWD'' = curdir st"

lemma setpwd_moves:
  assumes "vars_ok (cd_vars st)" "curdir st = Some old" "clean_path cs" "cwd (cd_w st) = cs"
    and "val = None \<or> (\<exists>root. root_ok root \<and> val = Some (dir_name root cs))" "setpwd False val True st = (Inr (), st')"
  shows "cd_ok st' \<and> cd_w st' = cd_w st \<and> shell_var st' ''PWD'' = curdir st' \<and> shell_var st' ''OLDPWD'' = Some old"
proof -
  obtain st1 where s1: "setpwd_var ''OLDPWD'' old st = (Inr (), st1)"
    using assms(2,6) by (auto simp: setpwd_def Let_def split: sum.splits prod.splits)
  define d where "d = (if val = None then Some (getpwd st1) else val)"
  define st2 where "st2 = st1\<lparr>physdir := (if val = None then Some (getpwd st1) else None), curdir := d\<rparr>"
  note o1 = setpwd_var_ok [OF assms(1) pwd_names(2) s1]
  have w1: "cd_w st1 = cd_w st" by (subst o1(1)) simp
  obtain root where root: "root_ok root" "d = Some (dir_name root cs)"
    using assms(4,5) w1 by (cases val) (auto simp: d_def getpwd_def root_ok_def)
  have s2: "setpwd_var ''PWD'' (dir_name root cs) st2 = (Inr (), st')"
    using assms(2,6) s1 root(2) by (auto simp: setpwd_def Let_def st2_def d_def split: if_splits)
  have "vars_ok (cd_vars st2)" using o1(2) by (simp add: st2_def)
  note o2 = setpwd_var_ok [OF this pwd_names(1) s2]
  have f: "cd_w st' = cd_w st" "curdir st' = Some (dir_name root cs)"
    by (subst o2(1), simp add: st2_def w1 root(2))+
  have v: "shell_var st' ''PWD'' = Some (dir_name root cs)" "shell_var st' ''OLDPWD'' = Some old"
    using o2(3) [OF pwd_names(1)] o2(3) [OF pwd_names(2)] o1(3) [OF pwd_names(2)] by (simp_all add: st2_def)
  show ?thesis using f v root(1) o2(2) assms(3,4) by (auto simp: cd_ok_def)
qed

lemma resolve_clean: "clean_path (cwd w) \<Longrightarrow> clean_path (resolve w p)"
proof -
  have "clean_path (fold step_comp ps cs)" if "clean_path cs" "\<forall>p \<in> set ps. SLASH \<notin> set p" for ps cs
    using that by (induction ps arbitrary: cs) (auto intro: step_clean)
  moreover have "\<forall>q \<in> set (split_on SLASH p). SLASH \<notin> set q" using split_on_slash_free by blast
  moreover have "clean_path []" by (simp add: clean_path_def)
  ultimately show "clean_path (cwd w) \<Longrightarrow> clean_path (resolve w p)" unfolding resolve_def by presburger
qed

lemma docd_dest:
  assumes "cd_ok st" "dest \<noteq> []"
  obtains dir dest' where "dir = (if physical then None else updatepwd (curdir st) dest)" "dest' = (case dir of None \<Rightarrow> dest | Some d \<Rightarrow> d)"
    and "dest' \<noteq> []" "resolve (cd_w st) dest' = resolve (cd_w st) dest"
    and "dir = None \<or> (\<exists>root. root_ok root \<and> dir = Some (dir_name root (resolve (cd_w st) dest)))"
proof (cases physical)
  case True
  then show ?thesis using that [of None dest] assms(2) by simp
next
  case False
  obtain root where r: "root_ok root" "curdir st = Some (dir_name root (cwd (cd_w st)))" "clean_path (cwd (cd_w st))"
    using assms(1) by (auto simp: cd_ok_def)
  obtain root' where u: "root_ok root'" "updatepwd (curdir st) dest = Some (dir_name root' (resolve (cd_w st) dest))"
    using updatepwd_name [OF r(1,3), of dest] unfolding r(2) resolve_def by blast
  have "dir_name root' (resolve (cd_w st) dest) \<noteq> []" using u(1) by (auto simp: root_ok_def dir_name_def)
  moreover have "resolve (cd_w st) (dir_name root' (resolve (cd_w st) dest)) = resolve (cd_w st) dest"
    using resolve_dir_name [OF u(1) resolve_clean [OF r(3)]] .
  ultimately show ?thesis
    by (intro that [of "updatepwd (curdir st) dest" "dir_name root' (resolve (cd_w st) dest)"]) (use u False in auto)
qed

lemma docd_moves:
  assumes "cd_ok st" "dest \<noteq> []" "docd dest physical st = (Inr b, st')"
  shows "if b then is_dir (cd_w st) dest \<and> moved_to (resolve (cd_w st) dest) st st' else \<not> is_dir (cd_w st) dest \<and> st' = st"
proof -
  obtain dir dest' where d: "dir = (if physical then None else updatepwd (curdir st) dest)" "dest' = (case dir of None \<Rightarrow> dest | Some d \<Rightarrow> d)"
    and n: "dest' \<noteq> []" and r: "resolve (cd_w st) dest' = resolve (cd_w st) dest"
    and names: "dir = None \<or> (\<exists>root. root_ok root \<and> dir = Some (dir_name root (resolve (cd_w st) dest)))"
    using docd_dest [OF assms(1,2)] by metis
  have dir: "is_dir (cd_w st) dest' = is_dir (cd_w st) dest" using r by (simp add: is_dir_def)
  show ?thesis
  proof (cases "is_dir (cd_w st) dest")
    case False
    then show ?thesis using assms(3) n dir by (simp add: docd_def Let_def d [symmetric] split: if_splits)
  next
    case True
    let ?st = "st\<lparr>cd_w := (cd_w st)\<lparr>cwd := resolve (cd_w st) dest\<rparr>\<rparr>"
    obtain old where old: "curdir st = Some old" using assms(1) by (auto simp: cd_ok_def)
    have run: "setpwd False dir True ?st = (Inr (), st')" "b"
      using assms(3) n dir True r by (auto simp: docd_def Let_def d [symmetric] split: sum.splits prod.splits)
    have "cd_ok st' \<and> cd_w st' = cd_w ?st \<and> shell_var st' ''PWD'' = curdir st' \<and> shell_var st' ''OLDPWD'' = Some old"
      by (rule setpwd_moves [OF _ _ _ _ names run(1)]) (use assms(1) old resolve_clean in \<open>auto simp: cd_ok_def\<close>)
    then show ?thesis using run(2) True old by (simp add: moved_to_def)
  qed
qed

lemma lookup_plain:
  assumes "var_name n" "n \<noteq> ''LINENO''" "n \<noteq> ''FUNCNAME''"
  shows "bltinlookup n st = (shell_var st n, st)"
proof -
  have "v_text v \<noteq> LinenoVar \<and> v_text v \<noteq> FuncnameVar" if "findvar (cd_vars st) n = Some v" for v
    using findvar_key [OF that assms(1)] assms(2,3) by (auto simp: vkey_def)
  then have "snd (lookup_var n (cd_vars st)) = cd_vars st"
    by (auto simp: lookup_var_def Let_def split: option.split vtext.split)
  then show ?thesis by (cases "lookup_var n (cd_vars st)") (auto simp: bltinlookup_def var_value_def)
qed

lemmas cd_lookups = lookup_plain [OF pwd_names(2), simplified] lookup_plain [OF pwd_names(3), simplified] lookup_plain [OF pwd_names(4), simplified]

lemma adv_name_nonempty: "padvance_magic path name m = Some a \<Longrightarrow> name \<noteq> [] \<Longrightarrow> adv_name a \<noteq> []"
  by (auto simp: padvance_magic_def Let_def split: option.splits)

lemma cdpath_walk_nonempty: "cdpath_walk w dest path = Some (p, b) \<Longrightarrow> dest \<noteq> [] \<Longrightarrow> p \<noteq> []"
proof (induction w dest path rule: cdpath_walk.induct)
  case (1 w dest path)
  then show ?case using adv_name_nonempty
    by (subst (asm) (2) cdpath_walk.simps) (auto split: option.splits if_splits)
qed

lemma cd_dest_facts:
  "cd_dest [] st = (case shell_var st ''HOME'' of None \<Rightarrow> [] | Some d \<Rightarrow> d, False, st)"
  "cd_dest (d # ds) st = (if d = ''-'' then (case shell_var st ''OLDPWD'' of None \<Rightarrow> [] | Some d \<Rightarrow> d, True, st) else (d, False, st))"
  by (simp_all add: cd_dest_def cd_lookups)

lemma cd_target_facts:
  assumes "cd_target rest st = (target, pr, dest, st1)"
  shows "st1 = st" "target \<noteq> []"
proof -
  have "\<exists>d p. cd_dest rest st = (d, p, st)"
  proof (cases rest)
    case (Cons a l)
    then show ?thesis by (cases "a = ''-''") (auto simp: cd_dest_facts)
  qed (auto simp: cd_dest_facts)
  then obtain d p where d: "cd_dest rest st = (d, p, st)" by blast
  define D where "D = (if d = [] then ''.'' else d)"
  have D: "D \<noteq> []" and n: "is_direct d \<Longrightarrow> d \<noteq> []" by (auto simp: D_def is_direct_def)
  have e: "(target, pr, dest, st1) = (if is_direct d then (d, p, d, st)
      else case cdpath_walk (cd_w st) D (shell_var st ''CDPATH'') of Some (q, pr') \<Rightarrow> (q, p \<or> pr', D, st) | None \<Rightarrow> (D, p, D, st))"
    unfolding assms [symmetric] D_def by (simp only: cd_target_def d Let_def prod.case cd_lookups)
  show "st1 = st" "target \<noteq> []"
    using e D n cdpath_walk_nonempty [OF _ D] by (auto split: if_splits option.splits prod.splits)
qed

lemma print_curdir_simps [simp]:
  "curdir (print_curdir d st) = curdir st" "cd_vars (print_curdir d st) = cd_vars st" "cwd (cd_w (print_curdir d st)) = cwd (cd_w st)"
  "fs (cd_w (print_curdir d st)) = fs (cd_w st)" "out (cd_w (print_curdir d st)) = out (cd_w st) @ (case d of None \<Rightarrow> [] | Some c \<Rightarrow> c) @ [NL]"
  by (simp_all add: print_curdir_def)

lemma cd_ok_print [simp]: "cd_ok (print_curdir d st) = cd_ok st"
  by (simp add: cd_ok_def)

lemma setpwd_returns:
  assumes "vars_ok (cd_vars s)" "\<not> readonly_var (cd_vars s) ''PWD''" "\<not> readonly_var (cd_vars s) ''OLDPWD''"
  shows "\<exists>st2. setpwd False val True s = (Inr (), st2)"
proof -
  have set: "\<exists>st2. setpwd_var n v s = (Inr (), st2)" if "\<not> readonly_var (cd_vars s) n" "var_name n" for n v s
    using set_var_raises [OF that(2)] that(1) by (auto simp: setpwd_var_def split: sum.split prod.split) (metis surj_pair)
  obtain s1 where s1: "setpwd_var ''OLDPWD'' (case curdir s of None \<Rightarrow> [] | Some c \<Rightarrow> c) s = (Inr (), s1)"
    using set [OF assms(3) pwd_names(2)] by blast
  from setpwd_var_ok(4) [OF assms(1) pwd_names(2) s1 pwd_names(1)] have "\<not> readonly_var (cd_vars s1) ''PWD''" using assms(2) by simp
  then show ?thesis using set [of _ "''PWD''"] s1 pwd_names(1) by (simp add: setpwd_def Let_def)
qed

lemma docd_returns:
  assumes "cd_ok st" "\<not> readonly_var (cd_vars st) ''PWD''" "\<not> readonly_var (cd_vars st) ''OLDPWD''" "docd dest physical st = (x, st')"
  obtains b where "x = Inr b"
proof -
  let ?dir = "if physical then None else updatepwd (curdir st) dest"
  let ?dest = "case ?dir of None \<Rightarrow> dest | Some d \<Rightarrow> d"
  obtain st2 where "setpwd False ?dir True (st\<lparr>cd_w := (cd_w st)\<lparr>cwd := resolve (cd_w st) ?dest\<rparr>\<rparr>) = (Inr (), st2)"
    using setpwd_returns [of "st\<lparr>cd_w := (cd_w st)\<lparr>cwd := resolve (cd_w st) ?dest\<rparr>\<rparr>" ?dir] assms(1-3) by (auto simp: cd_ok_def)
  then show ?thesis using assms(4) that unfolding docd_def Let_def by (auto split: if_splits)
qed

text \<open>Only an assignment to PWD or OLDPWD raises an error inside \<open>docd\<close>.\<close>

lemma docd_raises: "docd dest physical st = (Inl e, st') \<Longrightarrow> \<exists>v. e = VarError v"
  by (auto simp: docd_def setpwd_def setpwd_var_def Let_def split: if_splits sum.splits prod.splits option.splits)

lemma cdopt_loop_raises: "cdopt_loop physical j g = Inl e \<Longrightarrow> e \<noteq> VarError v"
proof (induction physical j g rule: cdopt_loop.induct)
  case (1 physical j g)
  show ?case
  proof (cases "nextopt ''LP'' g")
    case (Inl e1)
    then show ?thesis using 1(3) by (auto simp: cdopt_loop.simps nextopt_def Let_def split: if_splits list.splits option.splits)
  next
    case (Inr a)
    then show ?thesis using 1 by (auto simp: cdopt_loop.simps split: option.splits prod.splits if_splits)
  qed
qed

lemma cdopt_raises: "cdopt args = Inl e \<Longrightarrow> e \<noteq> VarError v"
  by (auto simp: cdopt_def dest: cdopt_loop_raises)

lemma cd_step_cases:
  assumes "cd_ok st"
  shows "case cdcmd args st of
      (Inr r, st') \<Rightarrow> r = 0 \<and> cd_ok st' \<and> shell_var st' ''PWD'' = curdir st' \<and> shell_var st' ''OLDPWD'' = curdir st \<and>
        fs (cd_w st') = fs (cd_w st)
    | (Inl (VarError e), st') \<Rightarrow> readonly_var (cd_vars st) ''PWD'' \<or> readonly_var (cd_vars st) ''OLDPWD''
    | (Inl _, st') \<Rightarrow> st' = st"
proof (cases "cdopt args")
  case (Inr pg)
  obtain physical g where pg: "pg = (physical, g)" by fastforce
  obtain target pr dest st1 where t: "cd_target (argptr g) st = (target, pr, dest, st1)" by (metis prod_cases4)
  note f = cd_target_facts [OF t]
  obtain r st2 where d: "docd target physical st = (r, st2)" by fastforce
  show ?thesis
  proof (cases r)
    case (Inl e)
    then obtain v where "e = VarError v" using docd_raises d by blast
    moreover have "readonly_var (cd_vars st) ''PWD'' \<or> readonly_var (cd_vars st) ''OLDPWD''" using docd_returns [OF assms _ _ d] Inl by blast
    ultimately show ?thesis using Inr pg t f d Inl by (simp add: cdcmd_def)
  next
    case b: (Inr b)
    have m: "if b then is_dir (cd_w st) target \<and> moved_to (resolve (cd_w st) target) st st2 else \<not> is_dir (cd_w st) target \<and> st2 = st"
      using docd_moves [OF assms f(2)] d b by blast
    show ?thesis using Inr pg t f d b m by (cases b) (auto simp: cdcmd_def moved_to_def)
  qed
qed (auto simp: cdcmd_def dest: cdopt_raises split: cd_error.split)

lemma cd_step:
  assumes "cd_ok st" "cdcmd args st = (Inr r, st')"
  shows "r = 0" "cd_ok st'" "shell_var st' ''PWD'' = curdir st'" "shell_var st' ''OLDPWD'' = curdir st" "fs (cd_w st') = fs (cd_w st)"
  using cd_step_cases [OF assms(1), of args] assms(2) by simp_all

text \<open>C17: \<open>cd\<close> keeps the names of the working directory true.  Whenever it succeeds, with any options, through HOME,
  OLDPWD or CDPATH, the process is in the directory that \<open>curdir\<close> names, PWD holds that name, OLDPWD the
  name of the directory it came from, and no file changed.  When it fails because of its options or because it
  cannot change to the directory, everything is as before.  The only other failure is that PWD or OLDPWD is
  read-only: then the process may have moved already, and the names need not agree.\<close>

theorem cd_keeps_names:
  assumes "cd_ok st"
  shows "case cdcmd args st of
      (Inr r, st') \<Rightarrow> r = 0 \<and> cd_ok st' \<and> shell_var st' ''PWD'' = curdir st' \<and> shell_var st' ''OLDPWD'' = curdir st \<and>
        fs (cd_w st') = fs (cd_w st)
    | (Inl (VarError e), st') \<Rightarrow> readonly_var (cd_vars st) ''PWD'' \<or> readonly_var (cd_vars st) ''OLDPWD''
    | (Inl _, st') \<Rightarrow> st' = st"
  by (rule cd_step_cases [OF assms])

text \<open>A machine with the directory \<open>/tmp\<close>, at the start of the shell.\<close>

definition demo_cd :: cd_state where
  "demo_cd = \<lparr>cd_w = \<lparr>fs = (\<lambda>p. if p = [] \<or> p = [''tmp''] then Some Directory else None), cwd = [], out = [], diags = []\<rparr>,
     curdir = Some ''/'', physdir = None, cd_vars = initvar ash_empty\<rparr>"

lemma demo_cd_ok: "cd_ok demo_cd"
  using init_facts(1) by (auto simp: cd_ok_def demo_cd_def clean_path_def dir_name_def root_ok_def)

lemma demo_cd_runs: "fst (cdcmd [''./x/../tmp/''] demo_cd) = Inr 0" "curdir (snd (cdcmd [''./x/../tmp/''] demo_cd)) = Some ''/tmp''"
  by code_simp+

theorem cd_keeps_names_witness:
  "curdir (snd (cdcmd [''./x/../tmp/''] demo_cd)) = Some ''/tmp'' \<and> shell_var (snd (cdcmd [''./x/../tmp/''] demo_cd)) ''PWD'' = Some ''/tmp'' \<and>
   shell_var (snd (cdcmd [''./x/../tmp/''] demo_cd)) ''OLDPWD'' = Some ''/''"
proof -
  obtain st' where c: "cdcmd [''./x/../tmp/''] demo_cd = (Inr 0, st')" using demo_cd_runs(1) by (cases "cdcmd [''./x/../tmp/''] demo_cd") auto
  then show ?thesis using cd_keeps_names [OF demo_cd_ok, of "[''./x/../tmp/'']"] demo_cd_runs(2) by (simp add: demo_cd_def)
qed

text \<open>With a read-only PWD the process and \<open>curdir\<close> move before the error is raised.\<close>

lemma cd_readonly_pwd:
  "case set_var ''PWD'' (Some ''/'') {VREADONLY} (cd_vars demo_cd) of Inl _ \<Rightarrow> False
   | Inr vs \<Rightarrow> (case cdcmd [''/tmp''] (demo_cd\<lparr>cd_vars := vs\<rparr>) of
        (Inl (VarError e), st') \<Rightarrow> cwd (cd_w st') = [''tmp''] \<and> curdir st' = Some ''/tmp'' \<and> shell_var st' ''PWD'' = Some ''/''
      | _ \<Rightarrow> False)"
  by code_simp

lemma docd_absolute:
  assumes "cd_ok st" "root_ok root" "clean_path cs" "fs (cd_w st) cs = Some Directory"
    and "\<not> readonly_var (cd_vars st) ''PWD''" "\<not> readonly_var (cd_vars st) ''OLDPWD''"
  shows "\<exists>st'. docd (dir_name root cs) False st = (Inr True, st') \<and> moved_to cs st st'"
proof -
  have n: "dir_name root cs \<noteq> []" using assms(2) by (auto simp: root_ok_def dir_name_def)
  have r: "resolve (cd_w st) (dir_name root cs) = cs" by (rule resolve_dir_name [OF assms(2,3)])
  have dir: "is_dir (cd_w st) (dir_name root cs)" using r assms(4) by (simp add: is_dir_def)
  obtain x st' where x: "docd (dir_name root cs) False st = (x, st')" by fastforce
  obtain b where b: "x = Inr b" using docd_returns [OF assms(1,5,6) x] .
  then have "b" using docd_moves [OF assms(1) n, of False b st'] x dir by (cases b) auto
  then show ?thesis using docd_moves [OF assms(1) n, of False b st'] x b r by auto
qed

lemma cdopt_dash: "cdopt [''-''] = Inr (False, \<lparr>optptr = [], argptr = [''-''], optionarg = None\<rparr>)"
  by (simp add: cdopt_def cdopt_loop.simps nextopt_def)

lemma dir_name_direct: "root_ok root \<Longrightarrow> is_direct (dir_name root cs)"
  by (auto simp: root_ok_def dir_name_def is_direct_def)

text \<open>C11: \<open>cd -\<close> undoes \<open>cd\<close>: after any successful change of directory out of an existing directory, \<open>cd -\<close> succeeds (as long as PWD
  and OLDPWD can be assigned), is back in the directory the first one left, and prints its name.\<close>

theorem cd_dash_returns:
  assumes "cd_ok st" and "fs (cd_w st) (cwd (cd_w st)) = Some Directory" and "cdcmd args st = (Inr r, st1)"
    and "\<not> readonly_var (cd_vars st1) ''PWD''" and "\<not> readonly_var (cd_vars st1) ''OLDPWD''"
  shows "\<exists>st2. cdcmd [''-''] st1 = (Inr 0, st2) \<and> cwd (cd_w st2) = cwd (cd_w st) \<and> fs (cd_w st2) = fs (cd_w st) \<and>
     (\<exists>name. curdir st2 = Some name \<and> out (cd_w st2) = out (cd_w st1) @ name @ [NL])"
proof -
  have first: "cd_ok st1" "shell_var st1 ''OLDPWD'' = curdir st" "fs (cd_w st1) = fs (cd_w st)"
    using cd_step [OF assms(1,3)] by simp_all
  obtain root where root: "root_ok root" "curdir st = Some (dir_name root (cwd (cd_w st)))" "clean_path (cwd (cd_w st))"
    using assms(1) by (auto simp: cd_ok_def)
  have "fs (cd_w st1) (cwd (cd_w st)) = Some Directory" using assms(2) first(3) by simp
  from docd_absolute [OF first(1) root(1,3) this assms(4,5)]
  obtain st2 where d: "docd (dir_name root (cwd (cd_w st))) False st1 = (Inr True, st2)" "moved_to (cwd (cd_w st)) st1 st2" by blast
  have t: "cd_target [''-''] st1 = (dir_name root (cwd (cd_w st)), True, dir_name root (cwd (cd_w st)), st1)"
    by (simp add: cd_target_def cd_dest_facts first(2) root(2) dir_name_direct [OF root(1)])
  have "cdcmd [''-''] st1 = (Inr 0, print_curdir (curdir st2) st2)" using t d(1) by (simp add: cdcmd_def cdopt_dash)
  moreover obtain name where "curdir st2 = Some name" using d(2) by (auto simp: moved_to_def cd_ok_def)
  ultimately show ?thesis using d(2) first(3) by (auto simp: moved_to_def)
qed

lemma demo_cd_assignable:
  "\<not> readonly_var (cd_vars (snd (cdcmd [''./x/../tmp/''] demo_cd))) ''PWD''" "\<not> readonly_var (cd_vars (snd (cdcmd [''./x/../tmp/''] demo_cd))) ''OLDPWD''"
  by code_simp+

theorem cd_dash_returns_witness:
  "\<exists>st2. cdcmd [''-''] (snd (cdcmd [''./x/../tmp/''] demo_cd)) = (Inr 0, st2) \<and> cwd (cd_w st2) = []"
proof -
  obtain st' where c: "cdcmd [''./x/../tmp/''] demo_cd = (Inr 0, st')" using demo_cd_runs(1) by (cases "cdcmd [''./x/../tmp/''] demo_cd") auto
  have "fs (cd_w demo_cd) (cwd (cd_w demo_cd)) = Some Directory" "cwd (cd_w demo_cd) = []" by (simp_all add: demo_cd_def)
  then show ?thesis using cd_dash_returns [OF demo_cd_ok _ c] demo_cd_assignable c by auto
qed

end
