(* ===== verification/Ash_Io.thy ===== *)
theory Ash_Io
  imports Prelude
begin

text \<open>
  The state that the input and output of the shell work on, \<open>shell/ash.c\<close>, and the calls of the C
  library it uses: descriptors that share open file descriptions, files that outlive their name, and
  the buffers and end-of-file flag of stdin and stdout, which all commands of the shell share because
  there is no fork.

  \<open>creatable\<close> says for which paths the directory exists; a path of \<open>names\<close> is a regular file.  Running
  out of descriptors or of space is not modelled.  A file opened only for writing reads as empty, and
  writing to one opened only for reading changes nothing.
\<close>

section \<open>State\<close>

record open_file =
  of_node :: nat
  of_pos :: nat
  of_rd :: bool
  of_wr :: bool
  of_append :: bool

text \<open>The exceptions of the shell; \<open>OutOfFuel\<close> marks an evaluation that was given too little fuel.\<close>

datatype exn = EXINT | EXERROR | EXEND | EXEXIT | OutOfFuel

text \<open>A saved descriptor: the descriptor, and where it was moved (None is CLOSED).\<close>

type_synonym squirrel = "nat \<times> nat option"

record sh =
  fdtab :: "nat option list"
  ofiles :: "open_file list"
  inodes :: "bytes list"
  names :: "cstr \<Rightarrow> nat option"
  creatable :: "cstr \<Rightarrow> bool"
  stdin_buf :: bytes
  stdin_eof :: bool
  stdout_buf :: bytes
  redirlist :: "squirrel list list"
  pf_fds :: "nat list"           \<comment> \<open>descriptors of the script files being read\<close>
  preverrout_fd :: "nat option"
  Cflag :: bool
  osd_pipeseq :: nat
  bq_depth :: nat                \<comment> \<open>depth of osd_evalbackcmd_inproc\<close>
  osd_bq_status :: int
  back_exitstatus :: int
  evalskip :: int
  skipcount :: int
  loopnest :: int
  funcline :: int
  sh_exitstatus :: int
  savestatus :: int
  eflag :: bool

section \<open>Descriptors\<close>

definition fd :: "sh \<Rightarrow> nat \<Rightarrow> nat option" where
  "fd s n = (if n < length (fdtab s) then fdtab s ! n else None)"

definition set_fd :: "nat \<Rightarrow> nat option \<Rightarrow> sh \<Rightarrow> sh" where
  "set_fd n v s = s\<lparr>fdtab := (fdtab s @ replicate (Suc n - length (fdtab s)) None)[n := v]\<rparr>"

definition free_from :: "nat \<Rightarrow> sh \<Rightarrow> nat" where
  "free_from n s = hd (filter (\<lambda>m. fd s m = None) [n..<Suc (max n (length (fdtab s)))])"

definition sys_dup2 :: "nat \<Rightarrow> nat \<Rightarrow> sh \<Rightarrow> bool \<times> sh" where
  "sys_dup2 old new s = (case fd s old of None \<Rightarrow> (False, s) | Some k \<Rightarrow> (True, set_fd new (Some k) s))"

definition sys_dupfd :: "nat \<Rightarrow> nat \<Rightarrow> sh \<Rightarrow> nat option \<times> sh" where
  "sys_dupfd old minfd s =
     (case fd s old of
        None \<Rightarrow> (None, s)
      | Some k \<Rightarrow> let n = free_from minfd s in (Some n, set_fd n (Some k) s))"

definition sys_close :: "nat \<Rightarrow> sh \<Rightarrow> sh" where
  "sys_close n s = set_fd n None s"

section \<open>Files\<close>

datatype open_flags = RDONLY | WRONLY | RDWR_CREAT | RDWR_CREAT_TRUNC | WR_CREAT_EXCL | WR_CREAT_TRUNC | WR_CREAT_APPEND

definition new_ofile :: "nat \<Rightarrow> open_flags \<Rightarrow> open_file" where
  "new_ofile i fl = \<lparr>of_node = i, of_pos = 0,
     of_rd = (fl \<in> {RDONLY, RDWR_CREAT, RDWR_CREAT_TRUNC}), of_wr = (fl \<noteq> RDONLY), of_append = (fl = WR_CREAT_APPEND)\<rparr>"

text \<open>The lowest free descriptor gets a new open file description.\<close>

definition install :: "open_file \<Rightarrow> sh \<Rightarrow> nat \<times> sh" where
  "install f s =
     (let n = free_from 0 s in (n, set_fd n (Some (length (ofiles s))) (s\<lparr>ofiles := ofiles s @ [f]\<rparr>)))"

definition sys_open :: "cstr \<Rightarrow> open_flags \<Rightarrow> sh \<Rightarrow> nat option \<times> sh" where
  "sys_open p fl s =
     (case names s p of
        Some i \<Rightarrow>
          if fl = WR_CREAT_EXCL then (None, s)
          else let s1 = (if fl \<in> {RDWR_CREAT_TRUNC, WR_CREAT_TRUNC} then s\<lparr>inodes := (inodes s)[i := []]\<rparr> else s);
                   (n, s2) = install (new_ofile i fl) s1
               in (Some n, s2)
      | None \<Rightarrow>
          if fl = RDONLY \<or> fl = WRONLY \<or> \<not> creatable s p then (None, s)
          else let i = length (inodes s);
                   (n, s2) = install (new_ofile i fl) (s\<lparr>inodes := inodes s @ [[]], names := (names s)(p \<mapsto> i)\<rparr>)
               in (Some n, s2))"

definition sys_unlink :: "cstr \<Rightarrow> sh \<Rightarrow> sh" where
  "sys_unlink p s = s\<lparr>names := (names s)(p := None)\<rparr>"

definition put_at :: "nat \<Rightarrow> bytes \<Rightarrow> bytes \<Rightarrow> bytes" where
  "put_at pos b c = take pos c @ replicate (pos - length c) NUL @ b @ drop (pos + length b) c"

definition ofile_content :: "sh \<Rightarrow> nat \<Rightarrow> bytes" where
  "ofile_content s k = inodes s ! of_node (ofiles s ! k)"

definition sys_write :: "nat \<Rightarrow> bytes \<Rightarrow> sh \<Rightarrow> sh" where
  "sys_write n b s =
     (case fd s n of
        None \<Rightarrow> s
      | Some k \<Rightarrow>
          if b = [] \<or> \<not> of_wr (ofiles s ! k) then s
          else let f = ofiles s ! k; c = ofile_content s k; pos = (if of_append f then length c else of_pos f)
               in s\<lparr>inodes := (inodes s)[of_node f := put_at pos b c],
                    ofiles := (ofiles s)[k := f\<lparr>of_pos := pos + length b\<rparr>]\<rparr>)"

text \<open>Everything from the position of a descriptor to the end of its file.\<close>

definition pending :: "sh \<Rightarrow> nat \<Rightarrow> bytes" where
  "pending s n =
     (case fd s n of
        None \<Rightarrow> []
      | Some k \<Rightarrow> if of_rd (ofiles s ! k) then drop (of_pos (ofiles s ! k)) (ofile_content s k) else [])"

definition skip_to_end :: "nat \<Rightarrow> sh \<Rightarrow> sh" where
  "skip_to_end n s =
     (case fd s n of
        None \<Rightarrow> s
      | Some k \<Rightarrow>
          if of_rd (ofiles s ! k)
          then s\<lparr>ofiles := (ofiles s)[k := (ofiles s ! k)\<lparr>of_pos := max (of_pos (ofiles s ! k)) (length (ofile_content s k))\<rparr>]\<rparr>
          else s)"

section \<open>The shared streams\<close>

definition fflush_all :: "sh \<Rightarrow> sh" where
  "fflush_all s = (sys_write 1 (stdout_buf s) s)\<lparr>stdout_buf := []\<rparr>"

text \<open>\<open>clearerr(stdin)\<close> and \<open>fpurge(stdin)\<close>.\<close>

definition reset_stdin :: "sh \<Rightarrow> sh" where
  "reset_stdin s = s\<lparr>stdin_buf := [], stdin_eof := False\<rparr>"

text \<open>
  Reading stdin until end of file; once the flag is set the stream stays at its end.
\<close>

definition read_stdin :: "sh \<Rightarrow> bytes \<times> sh" where
  "read_stdin s =
     (if stdin_eof s then (stdin_buf s, s\<lparr>stdin_buf := []\<rparr>)
      else (stdin_buf s @ pending s 0, (skip_to_end 0 s)\<lparr>stdin_buf := [], stdin_eof := True\<rparr>))"

text \<open>What an applet that maps its input to its output does with the streams.\<close>

definition run_filter :: "(bytes \<Rightarrow> bytes) \<Rightarrow> int \<Rightarrow> sh \<Rightarrow> (exn + int) \<times> sh" where
  "run_filter f st s =
     (let (x, s1) = read_stdin s
      in (Inr st, s1\<lparr>stdout_buf := stdout_buf s1 @ f x, sh_exitstatus := st\<rparr>))"

section \<open>Lemmas\<close>

lemma fd_set_fd [simp]: "fd (set_fd n v s) m = (if m = n then v else fd s m)"
  by (auto simp: fd_def set_fd_def nth_append nth_list_update)

lemma free_from_props: "n \<le> free_from n s" "fd s (free_from n s) = None"
proof -
  let ?l = "filter (\<lambda>m. fd s m = None) [n..<Suc (max n (length (fdtab s)))]"
  have "max n (length (fdtab s)) \<in> set ?l" by (simp add: fd_def)
  then have "hd ?l \<in> set ?l" by (intro hd_in_set) auto
  then show "n \<le> free_from n s" "fd s (free_from n s) = None" by (auto simp: free_from_def)
qed

lemma free_from_neq: "fd s m = Some k \<Longrightarrow> free_from n s \<noteq> m"
  using free_from_props(2) [of s n] by auto

text \<open>Writing to a descriptor changes neither the other fields nor the other descriptors.\<close>

lemma set_fd_fields [simp]:
  "ofiles (set_fd n v s) = ofiles s"
  "inodes (set_fd n v s) = inodes s"
  "names (set_fd n v s) = names s"
  "creatable (set_fd n v s) = creatable s"
  "stdin_buf (set_fd n v s) = stdin_buf s"
  "stdin_eof (set_fd n v s) = stdin_eof s"
  "stdout_buf (set_fd n v s) = stdout_buf s"
  "redirlist (set_fd n v s) = redirlist s"
  "pf_fds (set_fd n v s) = pf_fds s"
  "preverrout_fd (set_fd n v s) = preverrout_fd s"
  "Cflag (set_fd n v s) = Cflag s"
  "osd_pipeseq (set_fd n v s) = osd_pipeseq s"
  "bq_depth (set_fd n v s) = bq_depth s"
  "osd_bq_status (set_fd n v s) = osd_bq_status s"
  "back_exitstatus (set_fd n v s) = back_exitstatus s"
  "evalskip (set_fd n v s) = evalskip s"
  "skipcount (set_fd n v s) = skipcount s"
  "loopnest (set_fd n v s) = loopnest s"
  "funcline (set_fd n v s) = funcline s"
  "sh_exitstatus (set_fd n v s) = sh_exitstatus s"
  "savestatus (set_fd n v s) = savestatus s"
  "eflag (set_fd n v s) = eflag s"
  by (simp_all add: set_fd_def)

lemma fd_fields [simp]:
  "fd (s\<lparr>ofiles := x0\<rparr>) = fd s"
  "fd (s\<lparr>inodes := x1\<rparr>) = fd s"
  "fd (s\<lparr>names := x2\<rparr>) = fd s"
  "fd (s\<lparr>creatable := x3\<rparr>) = fd s"
  "fd (s\<lparr>stdin_buf := x4\<rparr>) = fd s"
  "fd (s\<lparr>stdin_eof := x5\<rparr>) = fd s"
  "fd (s\<lparr>stdout_buf := x6\<rparr>) = fd s"
  "fd (s\<lparr>redirlist := x7\<rparr>) = fd s"
  "fd (s\<lparr>pf_fds := x8\<rparr>) = fd s"
  "fd (s\<lparr>preverrout_fd := x9\<rparr>) = fd s"
  "fd (s\<lparr>Cflag := x10\<rparr>) = fd s"
  "fd (s\<lparr>osd_pipeseq := x11\<rparr>) = fd s"
  "fd (s\<lparr>bq_depth := x12\<rparr>) = fd s"
  "fd (s\<lparr>osd_bq_status := x13\<rparr>) = fd s"
  "fd (s\<lparr>back_exitstatus := x14\<rparr>) = fd s"
  "fd (s\<lparr>evalskip := x15\<rparr>) = fd s"
  "fd (s\<lparr>skipcount := x16\<rparr>) = fd s"
  "fd (s\<lparr>loopnest := x17\<rparr>) = fd s"
  "fd (s\<lparr>funcline := x18\<rparr>) = fd s"
  "fd (s\<lparr>sh_exitstatus := x19\<rparr>) = fd s"
  "fd (s\<lparr>savestatus := x20\<rparr>) = fd s"
  "fd (s\<lparr>eflag := x21\<rparr>) = fd s"
  by (simp_all add: fd_def fun_eq_iff)

lemma fd_cong: "fdtab s = fdtab s' \<Longrightarrow> fd s = fd s'"
  by (simp add: fd_def fun_eq_iff)

end
