(* ===== verification/Ash_Redir.thy ===== *)
theory Ash_Redir
  imports Ash_Io
begin

text \<open>
  Redirections of the shell, \<open>shell/ash.c\<close>: opening the files of a redirection list, saving the
  descriptors it overwrites and putting them back.  The configuration is that of the build (no job
  control, no \<open>>&FILE\<close>).  A here-document needs a pipe, and \<open>pipe\<close> of the compatibility layer always
  fails, so it always raises an error.

  The slots of a \<open>redirtab\<close> are the list of those in use; its capacity is \<open>pair_count\<close>.
\<close>

section \<open>Definitions\<close>

datatype redir_type = NFROM | NFROMTO | NTO | NCLOBBER | NAPPEND

datatype redir = RedirFile redir_type nat cstr | RedirDup nat "nat option" | RedirHere nat bytes

fun redir_fd :: "redir \<Rightarrow> nat" where
  "redir_fd (RedirFile t n f) = n"
| "redir_fd (RedirDup n m) = n"
| "redir_fd (RedirHere n b) = n"

datatype redir_error = CantCreate cstr | CantOpen cstr | CantPipe | BadFd nat | Died

type_synonym 'a redir_result = "(redir_error + 'a) \<times> sh"

definition openhere :: "sh \<Rightarrow> nat redir_result" where
  "openhere s = (Inl CantPipe, s)"

definition opened :: "redir_error \<Rightarrow> nat option \<times> sh \<Rightarrow> nat redir_result" where
  "opened e r = (case r of (None, s) \<Rightarrow> (Inl e, s) | (Some n, s) \<Rightarrow> (Inr n, s))"

definition openredirect :: "redir_type \<Rightarrow> cstr \<Rightarrow> sh \<Rightarrow> nat redir_result" where
  "openredirect t fname s =
     (case t of
        NFROM \<Rightarrow> opened (CantOpen fname) (sys_open fname RDONLY s)
      | NFROMTO \<Rightarrow> opened (CantCreate fname) (sys_open fname RDWR_CREAT s)
      | NTO \<Rightarrow>
          if Cflag s then
            (if names s fname = None then opened (CantCreate fname) (sys_open fname WR_CREAT_EXCL s)
             else (Inl (CantCreate fname), s))
          else opened (CantCreate fname) (sys_open fname WR_CREAT_TRUNC s)
      | NCLOBBER \<Rightarrow> opened (CantCreate fname) (sys_open fname WR_CREAT_TRUNC s)
      | NAPPEND \<Rightarrow> opened (CantCreate fname) (sys_open fname WR_CREAT_APPEND s))"

definition set_top :: "squirrel list \<Rightarrow> sh \<Rightarrow> sh" where
  "set_top sq s = s\<lparr>redirlist := sq # tl (redirlist s)\<rparr>"

definition add_squirrel_closed :: "bool \<Rightarrow> nat \<Rightarrow> sh \<Rightarrow> sh" where
  "add_squirrel_closed push n s =
     (let sq = hd (redirlist s)
      in if \<not> push \<or> n \<in> fst ` set sq then s else set_top (sq @ [(n, None)]) s)"

text \<open>The first slot that holds the descriptor, and whether as the place of a moved one.\<close>

fun sq_find :: "nat \<Rightarrow> squirrel list \<Rightarrow> (nat \<times> bool) option" where
  "sq_find n [] = None"
| "sq_find n ((orig_fd, moved_to) # sq) =
     (if moved_to = Some n then Some (0, True)
      else if orig_fd = n then Some (0, False)
      else map_option (\<lambda>(i, b). (Suc i, b)) (sq_find n sq))"

fun replace_first :: "'a \<Rightarrow> 'a \<Rightarrow> 'a list \<Rightarrow> 'a list" where
  "replace_first x y [] = []"
| "replace_first x y (z # zs) = (if z = x then y # zs else z # replace_first x y zs)"

definition xdup_CLOEXEC_and_close :: "nat \<Rightarrow> nat \<Rightarrow> sh \<Rightarrow> nat \<times> sh" where
  "xdup_CLOEXEC_and_close n avoid_fd s =
     (case sys_dupfd n (avoid_fd + 1) s of
        (None, s1) \<Rightarrow> (n, s1)
      | (Some m, s1) \<Rightarrow> (m, sys_close n s1))"

definition save_fd_on_redirect :: "nat \<Rightarrow> nat option \<Rightarrow> bool \<Rightarrow> sh \<Rightarrow> bool redir_result" where
  "save_fd_on_redirect n newfd push s =
     (let avoid_fd = (case newfd of None \<Rightarrow> 9 | Some m \<Rightarrow> max 9 m); sq = hd (redirlist s)
      in if \<not> push then (Inr False, s)
         else if n \<noteq> 0 \<and> n \<in> set (pf_fds s) then
           (let (m, s1) = xdup_CLOEXEC_and_close n avoid_fd s
            in (Inr True, s1\<lparr>pf_fds := replace_first n m (pf_fds s1)\<rparr>))
         else case sq_find n sq of
           Some (i, True) \<Rightarrow>
             (case sys_dupfd n (avoid_fd + 1) s of
                (None, s1) \<Rightarrow> (Inl Died, s1)
              | (Some m, s1) \<Rightarrow> (Inr False, set_top (sq[i := (fst (sq ! i), Some m)]) s1))
         | Some (i, False) \<Rightarrow> (Inr False, s)
         | None \<Rightarrow>
             (let (new_fd, s1) = sys_dupfd n (avoid_fd + 1) s;
                  s2 = set_top (sq @ [(n, new_fd)]) s1
              in (Inr False, if preverrout_fd s2 = Some n then s2\<lparr>preverrout_fd := new_fd\<rparr> else s2)))"

definition internally_opened_fd :: "nat \<Rightarrow> bool \<Rightarrow> sh \<Rightarrow> bool" where
  "internally_opened_fd n push s \<longleftrightarrow>
     n \<noteq> 0 \<and> n \<in> set (pf_fds s) \<or> push \<and> Some n \<in> snd ` set (hd (redirlist s))"

text \<open>The part of the loop body behind the test for equal descriptors.\<close>

definition redirect_to :: "nat \<Rightarrow> nat option \<Rightarrow> nat option \<Rightarrow> bool \<Rightarrow> sh \<Rightarrow> unit redir_result" where
  "redirect_to n newfd close_fd push s =
     (case save_fd_on_redirect n newfd push s of
        (Inl e, s1) \<Rightarrow> (Inl e, s1)
      | (Inr closed, s1) \<Rightarrow>
          (case newfd of
             None \<Rightarrow> (Inr (), if closed then s1 else sys_close n s1)
           | Some m \<Rightarrow>
               if internally_opened_fd m push s1 then (Inl (BadFd m), s1)
               else (case sys_dup2 m n s1 of
                       (False, s2) \<Rightarrow> (Inl (BadFd m), s2)
                     | (True, s2) \<Rightarrow>
                         (let s3 = (if n = 0 then reset_stdin s2 else s2)
                          in (Inr (), case close_fd of None \<Rightarrow> s3 | Some c \<Rightarrow> sys_close c s3)))))"

fun redirect_one :: "bool \<Rightarrow> redir \<Rightarrow> sh \<Rightarrow> unit redir_result" where
  "redirect_one push (RedirDup n m) s = (if m = Some n then (Inr (), s) else redirect_to n m None push s)"
| "redirect_one push (RedirFile t n fname) s =
     (case openredirect t fname s of
        (Inl e, s1) \<Rightarrow> (Inl e, s1)
      | (Inr m, s1) \<Rightarrow>
          if m = n then (Inr (), add_squirrel_closed push n s1) else redirect_to n (Some m) (Some m) push s1)"
| "redirect_one push (RedirHere n b) s = (case openhere s of (Inl e, s1) \<Rightarrow> (Inl e, s1) | (Inr m, s1) \<Rightarrow> (Inr (), s1))"

fun redirect :: "bool \<Rightarrow> redir list \<Rightarrow> sh \<Rightarrow> unit redir_result" where
  "redirect push [] s = (Inr (), s)"
| "redirect push (r # rs) s =
     (case redirect_one push r s of (Inl e, s1) \<Rightarrow> (Inl e, s1) | (Inr _, s1) \<Rightarrow> redirect push rs s1)"

text \<open>
  An error of \<open>redirect\<close> raises EXERROR, which \<open>redirectsafe\<close> turns into the status 1; \<open>xfunc_die\<close> ends
  the shell.
\<close>

definition redirectsafe :: "redir list \<Rightarrow> sh \<Rightarrow> (exn + int) \<times> sh" where
  "redirectsafe rs s =
     (case redirect True rs s of
        (Inl Died, s1) \<Rightarrow> (Inl EXEND, s1)
      | (Inl e, s1) \<Rightarrow> (Inr 1, s1\<lparr>sh_exitstatus := 2\<rparr>)
      | (Inr _, s1) \<Rightarrow> (Inr 0, s1))"

definition pushredir :: "redir list \<Rightarrow> sh \<Rightarrow> sh" where
  "pushredir rs s = (if rs = [] then s else s\<lparr>redirlist := [] # redirlist s\<rparr>)"

fun pop_pairs :: "bool \<Rightarrow> squirrel list \<Rightarrow> sh \<Rightarrow> unit redir_result" where
  "pop_pairs drop_it [] s = (Inr (), s)"
| "pop_pairs drop_it ((n, None) # sq) s = pop_pairs drop_it sq (if drop_it then s else sys_close n s)"
| "pop_pairs drop_it ((n, Some copy) # sq) s =
     (if drop_it then pop_pairs drop_it sq (sys_close copy s)
      else case sys_dup2 copy n s of
             (False, s1) \<Rightarrow> (Inl (BadFd copy), s1)
           | (True, s1) \<Rightarrow> pop_pairs drop_it sq (sys_close copy s1))"

definition popredir :: "bool \<Rightarrow> sh \<Rightarrow> unit redir_result" where
  "popredir drop_it s =
     (case redirlist s of
        [] \<Rightarrow> (Inr (), s)
      | sq # rest \<Rightarrow>
          (case pop_pairs drop_it sq s of
             (Inl e, s1) \<Rightarrow> (Inl e, s1)
           | (Inr _, s1) \<Rightarrow> (Inr (), s1\<lparr>redirlist := rest\<rparr>)))"

lemma pop_pairs_redirlist: "redirlist (snd (pop_pairs d sq s)) = redirlist s"
proof (induction d sq s rule: pop_pairs.induct)
  case (3 d n copy sq s)
  then show ?case by (auto simp: sys_dup2_def sys_close_def split: option.splits)
qed (simp_all add: sys_close_def)

text \<open>\<open>unwindredir\<close>; the list to stop at is given by its length.\<close>

function unwindredir :: "nat \<Rightarrow> sh \<Rightarrow> unit redir_result" where
  "unwindredir stop s =
     (if length (redirlist s) \<le> stop then (Inr (), s)
      else case popredir False s of (Inl e, s1) \<Rightarrow> (Inl e, s1) | (Inr _, s1) \<Rightarrow> unwindredir stop s1)"
  by pat_completeness auto
termination
  by (relation "measure (\<lambda>(stop, s). length (redirlist s))")
    (auto simp: popredir_def split: list.splits prod.splits sum.splits)

declare unwindredir.simps [simp del]

text \<open>
  The case NREDIR of \<open>evaltree\<close>, with the evaluation of the command as a parameter.
\<close>

definition eval_nredir :: "(sh \<Rightarrow> (exn + int) \<times> sh) \<Rightarrow> redir list \<Rightarrow> sh \<Rightarrow> (exn + int) \<times> sh" where
  "eval_nredir body rs s =
     (case (case redirectsafe rs (pushredir rs s) of
              (Inl x, s1) \<Rightarrow> (Inl x, s1)
            | (Inr err, s1) \<Rightarrow> if err = 0 then body s1 else (Inr err, s1)) of
        (Inl x, s2) \<Rightarrow> (Inl x, s2)
      | (Inr status, s2) \<Rightarrow>
          if rs = [] then (Inr status, s2\<lparr>sh_exitstatus := status\<rparr>)
          else case popredir False s2 of
                 (Inl e, s3) \<Rightarrow> (Inl EXERROR, s3\<lparr>sh_exitstatus := 2\<rparr>)
               | (Inr _, s3) \<Rightarrow> (Inr status, s3\<lparr>sh_exitstatus := status\<rparr>))"

section \<open>Undoing redirections\<close>

text \<open>
  What the slots of a \<open>redirtab\<close> record of the descriptors as they were: every saved one is held by the
  descriptor it was moved to, all that appear in no slot are as they were.
\<close>

definition moved :: "squirrel list \<Rightarrow> nat list" where
  "moved sq = concat (map (\<lambda>(n, m). case m of None \<Rightarrow> [] | Some c \<Rightarrow> [c]) sq)"

definition undo_inv :: "(nat \<Rightarrow> nat option) \<Rightarrow> squirrel list \<Rightarrow> sh \<Rightarrow> bool" where
  "undo_inv orig sq s \<longleftrightarrow>
     distinct (map fst sq) \<and> distinct (moved sq) \<and>
     (\<forall>p\<in>set sq. fst p < 10) \<and> (\<forall>n. (n, None) \<in> set sq \<longrightarrow> orig n = None) \<and>
     (\<forall>n m. (n, Some m) \<in> set sq \<longrightarrow> 10 \<le> m \<and> orig m = None \<and> fd s m = orig n \<and> orig n \<noteq> None) \<and>
     (\<forall>n. n \<notin> fst ` set sq \<longrightarrow> n \<notin> set (moved sq) \<longrightarrow> fd s n = orig n)"

lemma moved_simps [simp]:
  "moved [] = []" "moved ((n, None) # sq) = moved sq" "moved ((n, Some m) # sq) = m # moved sq"
  "moved (sq @ sq') = moved sq @ moved sq'"
  by (simp_all add: moved_def)

lemma in_moved: "m \<in> set (moved sq) \<longleftrightarrow> (\<exists>n. (n, Some m) \<in> set sq)"
  by (induction sq) (auto simp: moved_def split: option.splits)

lemma undo_invD:
  assumes "undo_inv orig sq s"
  shows "distinct (map fst sq)" "distinct (moved sq)" "\<forall>p\<in>set sq. fst p < 10"
    and "(n, None) \<in> set sq \<Longrightarrow> orig n = None"
    and "(n, Some m) \<in> set sq \<Longrightarrow> 10 \<le> m \<and> orig m = None \<and> fd s m = orig n \<and> orig n \<noteq> None"
    and "n \<notin> fst ` set sq \<Longrightarrow> n \<notin> set (moved sq) \<Longrightarrow> fd s n = orig n"
  using assms unfolding undo_inv_def by blast+

lemma undo_moved: "undo_inv orig sq s \<Longrightarrow> m \<in> set (moved sq) \<Longrightarrow> 10 \<le> m \<and> orig m = None \<and> fd s m \<noteq> None"
  unfolding in_moved undo_inv_def by fastforce

lemma undo_inv_done: "undo_inv orig [] s \<longleftrightarrow> fd s = orig"
  by (auto simp: undo_inv_def fun_eq_iff)

text \<open>\<open>popredir\<close> undoes one slot after the other.\<close>

lemma undo_slot:
  assumes "undo_inv orig ((n, v) # sq) s"
    and "\<And>x. fd s' x = (if x = n then orig n else if v = Some x then None else fd s x)"
  shows "undo_inv orig sq s'"
proof -
  have i: "distinct (n # map fst sq)" "distinct (moved ((n, v) # sq))" "n < 10"
    "\<And>n' m. (n', Some m) \<in> set ((n, v) # sq) \<Longrightarrow> 10 \<le> m \<and> orig m = None \<and> fd s m = orig n' \<and> orig n' \<noteq> None"
    "\<And>n'. (n', None) \<in> set sq \<Longrightarrow> orig n' = None" "\<forall>p\<in>set sq. fst p < 10"
    "\<And>x. x \<notin> fst ` set ((n, v) # sq) \<Longrightarrow> x \<notin> set (moved ((n, v) # sq)) \<Longrightarrow> fd s x = orig x"
    using undo_invD [OF assms(1)] by auto
  have d: "distinct (moved sq)" using i(2) by (cases v) auto
  have m: "\<And>n' m. (n', Some m) \<in> set sq \<Longrightarrow> fd s' m = fd s m"
  proof -
    fix n' m assume a: "(n', Some m) \<in> set sq"
    then have "m \<in> set (moved sq)" by (auto simp: in_moved)
    then have "v \<noteq> Some m" using i(2) by auto
    moreover have "10 \<le> m" using i(4) [of n' m] a by simp
    then have "m \<noteq> n" using i(3) by simp
    ultimately show "fd s' m = fd s m" using assms(2) by simp
  qed
  have "fd s' x = orig x" if "x \<notin> fst ` set sq" "x \<notin> set (moved sq)" for x
  proof (cases "x = n \<or> v = Some x")
    case True
    then show ?thesis using assms(2) [of x] i(4) [of n x] by auto
  next
    case False
    then show ?thesis using assms(2) [of x] i(7) [of x] that by (cases v) auto
  qed
  moreover have "10 \<le> m \<and> orig m = None \<and> fd s' m = orig n' \<and> orig n' \<noteq> None" if "(n', Some m) \<in> set sq" for n' m
    using i(4) [of n' m] m [OF that] that by simp
  ultimately show ?thesis unfolding undo_inv_def using i(1,5,6) d by simp
qed

lemma pop_pairs_undo:
  assumes "undo_inv orig sq s"
  shows "\<exists>s'. pop_pairs False sq s = (Inr (), s') \<and> fd s' = orig \<and> redirlist s' = redirlist s \<and> pf_fds s' = pf_fds s"
  using assms
proof (induction sq arbitrary: s)
  case Nil
  then show ?case by (simp add: undo_inv_done)
next
  case (Cons p sq)
  obtain n v where p: "p = (n, v)" by (cases p)
  show ?case
  proof (cases v)
    case None
    have "orig n = None" using Cons.prems p None by (auto simp: undo_inv_def)
    then have "undo_inv orig sq (sys_close n s)"
      using undo_slot [of orig n v sq s "sys_close n s"] Cons.prems p None by (simp add: sys_close_def)
    from Cons.IH [OF this] show ?thesis using p None by (simp add: sys_close_def)
  next
    case (Some m)
    have m: "fd s m = orig n" "orig n \<noteq> None" "10 \<le> m" "n < 10" using Cons.prems p Some by (auto simp: undo_inv_def)
    then obtain k where k: "fd s m = Some k" by auto
    let ?s = "sys_close m (set_fd n (Some k) s)"
    have "undo_inv orig sq ?s"
      using undo_slot [of orig n v sq s ?s] Cons.prems p Some m k by (simp add: sys_close_def)
    from Cons.IH [OF this] show ?thesis using p Some k by (simp add: sys_close_def sys_dup2_def)
  qed
qed

text \<open>The descriptors of scripts are standard input or high, and open, as \<open>setinputfile\<close> leaves them.\<close>

definition scripts_ok :: "sh \<Rightarrow> bool" where
  "scripts_ok s \<longleftrightarrow> (\<forall>p\<in>set (pf_fds s). p = 0 \<or> 10 \<le> p \<and> fd s p \<noteq> None)"

definition redirecting :: "(nat \<Rightarrow> nat option) \<Rightarrow> squirrel list list \<Rightarrow> nat list \<Rightarrow> sh \<Rightarrow> bool" where
  "redirecting orig rest pfs s \<longleftrightarrow>
     (\<exists>sq. redirlist s = sq # rest \<and> undo_inv orig sq s) \<and> pf_fds s = pfs \<and>
     (\<forall>p\<in>set pfs. p = 0 \<or> 10 \<le> p \<and> orig p \<noteq> None)"

lemma sq_find_None: "sq_find n sq = None \<longleftrightarrow> n \<notin> fst ` set sq \<and> n \<notin> set (moved sq)"
proof (induction n sq rule: sq_find.induct)
  case (2 n orig_fd moved_to sq)
  then show ?case by (cases moved_to) auto
qed simp

lemma sq_find_low:
  assumes "undo_inv orig sq s" and "n < 10" and "sq_find n sq = Some (i, b)"
  shows "\<not> b"
proof -
  have "\<forall>m\<in>set (moved sq). 10 \<le> m" using undo_moved [OF assms(1)] by blast
  then show ?thesis using assms(2,3)
  proof (induction sq arbitrary: i)
    case (Cons p sq)
    obtain n' v where "p = (n', v)" by (cases p)
    then show ?case using Cons by (cases v) (auto split: if_splits)
  qed simp
qed

lemma undo_inv_cong: "fd s = fd s' \<Longrightarrow> undo_inv orig sq s \<longleftrightarrow> undo_inv orig sq s'"
  by (simp add: undo_inv_def)

text \<open>Saving a descriptor below 10 into the table, and then changing it.\<close>

lemma undo_save:
  assumes "undo_inv orig sq s" and "n < 10" and "n \<notin> fst ` set sq"
    and "case v of None \<Rightarrow> fd s n = None | Some m \<Rightarrow> 10 \<le> m \<and> fd s m = None \<and> fd s n \<noteq> None"
    and "\<And>x. x \<noteq> n \<Longrightarrow> fd s' x = (if v = Some x then fd s n else fd s x)"
  shows "undo_inv orig (sq @ [(n, v)]) s'"
proof -
  note i = undo_invD [OF assms(1)]
  have n: "n \<notin> set (moved sq)" using undo_moved [OF assms(1)] assms(2) by fastforce
  then have on: "fd s n = orig n" using i(6) assms(3) by blast
  have v: "m \<notin> set (moved sq)" "orig m = None" "m \<noteq> n" if "v = Some m" for m
  proof -
    have m: "10 \<le> m" "fd s m = None" using assms(4) that by auto
    then show "m \<notin> set (moved sq)" using undo_moved [OF assms(1), of m] by auto
    moreover have "m \<notin> fst ` set sq" using i(3) m(1) by force
    ultimately show "orig m = None" using i(6) [of m] m(2) by simp
    show "m \<noteq> n" using assms(2) m(1) by simp
  qed
  have "distinct (map fst (sq @ [(n, v)]))" using i(1) assms(3) by auto
  moreover have "distinct (moved (sq @ [(n, v)]))" using i(2) v(1) by (cases v) auto
  moreover have "\<forall>p\<in>set (sq @ [(n, v)]). fst p < 10" using i(3) assms(2) by simp
  moreover have "(n', None) \<in> set (sq @ [(n, v)]) \<longrightarrow> orig n' = None" for n'
    using i(4) [of n'] assms(4) on by (cases v) auto
  moreover have "10 \<le> m \<and> orig m = None \<and> fd s' m = orig n' \<and> orig n' \<noteq> None" if "(n', Some m) \<in> set (sq @ [(n, v)])" for n' m
  proof (cases "(n', Some m) \<in> set sq")
    case True
    then have "m \<in> set (moved sq)" by (auto simp: in_moved)
    then have "v \<noteq> Some m" "m \<noteq> n" using v(1) n by auto
    then show ?thesis using i(5) [OF True] assms(5) [of m] by simp
  next
    case False
    then have "n' = n" "v = Some m" using that by auto
    then show ?thesis using v(2,3) assms(4,5) on by auto
  qed
  moreover have "fd s' x = orig x" if "x \<notin> fst ` set (sq @ [(n, v)])" "x \<notin> set (moved (sq @ [(n, v)]))" for x
    using that assms(5) [of x] i(6) [of x] by (cases v) auto
  ultimately show ?thesis unfolding undo_inv_def by blast
qed

text \<open>Changing a descriptor that is already saved.\<close>

lemma undo_change:
  assumes "undo_inv orig sq s" and "n \<in> fst ` set sq" and "\<And>x. x \<noteq> n \<Longrightarrow> fd s' x = fd s x"
  shows "undo_inv orig sq s'"
proof -
  note i = undo_invD [OF assms(1)]
  have "n \<notin> set (moved sq)" using undo_moved [OF assms(1)] i(3) assms(2) by fastforce
  then have "fd s' m = fd s m" if "(n', Some m) \<in> set sq" for n' m
    using that assms(3) [of m] by (auto simp: in_moved)
  then have a: "10 \<le> m \<and> orig m = None \<and> fd s' m = orig n' \<and> orig n' \<noteq> None" if "(n', Some m) \<in> set sq" for n' m
    using i(5) [OF that] that by simp
  have "fd s' x = orig x" if "x \<notin> fst ` set sq" "x \<notin> set (moved sq)" for x
    using that assms(2) assms(3) [of x] i(6) [of x] by auto
  with a i(1-4) show ?thesis unfolding undo_inv_def by blast
qed

lemma save_fd_spec:
  assumes "redirlist t = sq # rest" and "n = 0 \<or> n \<notin> set (pf_fds t)" and "n \<notin> set (moved sq)"
  shows "n \<in> fst ` set sq \<Longrightarrow> save_fd_on_redirect n newfd True t = (Inr False, t)"
    and "n \<notin> fst ` set sq \<Longrightarrow> \<exists>v t1. save_fd_on_redirect n newfd True t = (Inr False, t1) \<and> pf_fds t1 = pf_fds t \<and>
      redirlist t1 = (sq @ [(n, v)]) # rest \<and> (\<forall>x. fd t1 x = (if v = Some x then fd t n else fd t x)) \<and>
      (case v of None \<Rightarrow> fd t n = None
       | Some m \<Rightarrow> 10 \<le> m \<and> (\<forall>a. newfd = Some a \<longrightarrow> a < m) \<and> fd t m = None \<and> fd t n \<noteq> None)"
proof -
  have b: "sq_find n sq = Some (i, b) \<Longrightarrow> \<not> b" for i b using assms(3)
  proof (induction sq arbitrary: i)
    case (Cons p sq)
    obtain n' v where "p = (n', v)" by (cases p)
    then show ?case using Cons by (cases v) (auto split: if_splits)
  qed simp
  show "save_fd_on_redirect n newfd True t = (Inr False, t)" if "n \<in> fst ` set sq"
  proof -
    have "sq_find n sq \<noteq> None" using that sq_find_None [of n sq] by blast
    then obtain i where "sq_find n sq = Some (i, False)" using b by (cases "sq_find n sq") auto
    then show ?thesis using assms(1,2) by (auto simp: save_fd_on_redirect_def)
  qed
  let ?a = "(case newfd of None \<Rightarrow> 9 | Some m \<Rightarrow> max 9 m) + 1"
  let ?m = "free_from ?a t"
  have m: "10 \<le> ?m" "\<forall>a. newfd = Some a \<longrightarrow> a < ?m" "fd t ?m = None"
    using free_from_props(1) [of ?a t] free_from_props(2) [of t ?a] by (auto split: option.splits)
  show "\<exists>v t1. save_fd_on_redirect n newfd True t = (Inr False, t1) \<and> pf_fds t1 = pf_fds t \<and>
      redirlist t1 = (sq @ [(n, v)]) # rest \<and> (\<forall>x. fd t1 x = (if v = Some x then fd t n else fd t x)) \<and>
      (case v of None \<Rightarrow> fd t n = None
       | Some m \<Rightarrow> 10 \<le> m \<and> (\<forall>a. newfd = Some a \<longrightarrow> a < m) \<and> fd t m = None \<and> fd t n \<noteq> None)" if "n \<notin> fst ` set sq"
  proof -
    have f: "sq_find n sq = None" using that assms(3) by (simp add: sq_find_None)
    show ?thesis
    proof (cases "fd t n")
      case None
      show ?thesis by (rule exI [of _ None]) (use None f assms(1,2) in \<open>auto simp: save_fd_on_redirect_def sys_dupfd_def set_top_def Let_def\<close>)
    next
      case (Some k)
      show ?thesis by (rule exI [of _ "Some ?m"])
          (use Some f m assms(1,2) in \<open>auto simp: save_fd_on_redirect_def sys_dupfd_def set_top_def Let_def\<close>)
    qed
  qed
qed

text \<open>One redirection changes one descriptor, saved before.\<close>

lemma redirecting_step:
  assumes "redirecting orig rest pfs s" and "redirlist s = sq # rest" and "n < 10" and "pf_fds s' = pfs"
    and "(n \<in> fst ` set sq \<and> redirlist s' = sq # rest \<and> (\<forall>x. x \<noteq> n \<longrightarrow> fd s' x = fd s x)) \<or>
      (\<exists>v. n \<notin> fst ` set sq \<and> redirlist s' = (sq @ [(n, v)]) # rest \<and>
         (case v of None \<Rightarrow> fd s n = None | Some m \<Rightarrow> 10 \<le> m \<and> fd s m = None \<and> fd s n \<noteq> None) \<and>
         (\<forall>x. x \<noteq> n \<longrightarrow> fd s' x = (if v = Some x then fd s n else fd s x)))"
  shows "redirecting orig rest pfs s'"
proof -
  have i: "undo_inv orig sq s" using assms(1,2) by (auto simp: redirecting_def)
  have "\<exists>sq'. redirlist s' = sq' # rest \<and> undo_inv orig sq' s'"
    using assms(5) undo_change [OF i] undo_save [OF i assms(3)] by blast
  then show ?thesis using assms(1,4) by (simp add: redirecting_def)
qed

lemma redirecting_facts:
  assumes "redirecting orig rest pfs s" and "redirlist s = sq # rest" and "n < 10"
  shows "n \<notin> set (moved sq)" and "n = 0 \<or> n \<notin> set (pf_fds s)"
    and "fd s m = None \<Longrightarrow> m \<notin> set (moved sq) \<and> (m = 0 \<or> m \<notin> set (pf_fds s))"
proof -
  have i: "undo_inv orig sq s" using assms(1,2) by (auto simp: redirecting_def)
  show "n \<notin> set (moved sq)" using undo_moved [OF i, of n] assms(3) by auto
  show "n = 0 \<or> n \<notin> set (pf_fds s)" using assms(1,3) by (auto simp: redirecting_def)
  assume m: "fd s m = None"
  then have mv: "m \<notin> set (moved sq)" using undo_moved [OF i, of m] by auto
  moreover have "m = 0 \<or> m \<notin> set (pf_fds s)"
  proof (rule ccontr)
    assume "\<not> (m = 0 \<or> m \<notin> set (pf_fds s))"
    then have o: "10 \<le> m" "orig m \<noteq> None" using assms(1) by (auto simp: redirecting_def)
    then have "m \<notin> fst ` set sq" using undo_invD(3) [OF i] by force
    then show False using undo_invD(6) [OF i _ mv] o(2) m by simp
  qed
  ultimately show "m \<notin> set (moved sq) \<and> (m = 0 \<or> m \<notin> set (pf_fds s))" by simp
qed

lemma redirect_dup_undo:
  assumes "redirecting orig rest pfs s" and "n < 10"
  shows "case redirect_to n newfd None True s of (r, s') \<Rightarrow> r \<noteq> Inl Died \<and> redirecting orig rest pfs s'"
proof -
  obtain sq where sq: "redirlist s = sq # rest" and pf: "pf_fds s = pfs" using assms(1) by (auto simp: redirecting_def)
  note f = redirecting_facts [OF assms(1) sq assms(2)]
  note save = save_fd_spec [OF sq f(2,1)]
  note step = redirecting_step [OF assms(1) sq assms(2)]
  have r: "fd (reset_stdin t) = fd t" "redirlist (reset_stdin t) = redirlist t" "pf_fds (reset_stdin t) = pf_fds t" for t
    by (simp_all add: reset_stdin_def)
  show ?thesis
  proof (cases "n \<in> fst ` set sq")
    case True
    have all: "redirecting orig rest pfs s'" if "pf_fds s' = pf_fds s" "redirlist s' = redirlist s" "\<forall>x. x \<noteq> n \<longrightarrow> fd s' x = fd s x" for s'
      using that step [of s'] pf sq True by simp
    show ?thesis using save(1) [OF True, of newfd]
      by (auto simp: redirect_to_def sys_close_def sys_dup2_def r split: option.splits intro!: all)
  next
    case False
    obtain v t1 where t: "save_fd_on_redirect n newfd True s = (Inr False, t1)" "pf_fds t1 = pf_fds s"
      "redirlist t1 = (sq @ [(n, v)]) # rest" "\<And>x. fd t1 x = (if v = Some x then fd s n else fd s x)"
      "case v of None \<Rightarrow> fd s n = None | Some m \<Rightarrow> 10 \<le> m \<and> (\<forall>a. newfd = Some a \<longrightarrow> a < m) \<and> fd s m = None \<and> fd s n \<noteq> None"
      using save(2) [OF False, of newfd] by auto
    have v: "case v of None \<Rightarrow> fd s n = None | Some m \<Rightarrow> 10 \<le> m \<and> fd s m = None \<and> fd s n \<noteq> None"
      using t(5) by (auto split: option.splits)
    have all: "redirecting orig rest pfs s'" if "pf_fds s' = pf_fds t1" "redirlist s' = redirlist t1" "\<forall>x. x \<noteq> n \<longrightarrow> fd s' x = fd t1 x" for s'
      using that step [of s'] t(2,3,4) pf False v by auto
    show ?thesis using t(1) by (auto simp: redirect_to_def sys_close_def sys_dup2_def r split: option.splits intro!: all)
  qed
qed

lemma redirect_open_undo:
  assumes "redirecting orig rest pfs s" and "n < 10" and "fd s a = None" and "a \<noteq> n"
    and "redirlist t = redirlist s" and "pf_fds t = pf_fds s" and "\<And>x. fd t x = (if x = a then Some k else fd s x)"
  shows "case redirect_to n (Some a) (Some a) True t of (r, s') \<Rightarrow> r = Inr () \<and> redirecting orig rest pfs s'"
proof -
  obtain sq where sq: "redirlist s = sq # rest" and pf: "pf_fds s = pfs" using assms(1) by (auto simp: redirecting_def)
  have sqt: "redirlist t = sq # rest" using sq assms(5) by simp
  note f = redirecting_facts [OF assms(1) sq assms(2)]
  note save = save_fd_spec [OF sqt f(2) [folded assms(6)] f(1)]
  note step = redirecting_step [OF assms(1) sq assms(2)]
  have r: "fd (reset_stdin t) = fd t" "redirlist (reset_stdin t) = redirlist t" "pf_fds (reset_stdin t) = pf_fds t" for t
    by (simp_all add: reset_stdin_def)
  have a: "a \<notin> set (moved sq)" "a = 0 \<or> a \<notin> set (pf_fds t)" using f(3) [OF assms(3)] assms(6) by simp_all
  have snd_moved: "Some m \<in> snd ` set q \<longleftrightarrow> m \<in> set (moved q)" for m q by (force simp: in_moved)
  show ?thesis
  proof (cases "n \<in> fst ` set sq")
    case True
    have "redirecting orig rest pfs (sys_close a (if n = 0 then reset_stdin (set_fd n (Some k) t) else set_fd n (Some k) t))"
      by (rule step) (use True sqt pf assms(3,6,7) in \<open>auto simp: sys_close_def r\<close>)
    then show ?thesis using save(1) [OF True, of "Some a"] a sqt assms(7)
      by (auto simp: redirect_to_def internally_opened_fd_def sys_dup2_def snd_moved)
  next
    case False
    obtain v t1 where t: "save_fd_on_redirect n (Some a) True t = (Inr False, t1)" "pf_fds t1 = pf_fds t"
      "redirlist t1 = (sq @ [(n, v)]) # rest" "\<And>x. fd t1 x = (if v = Some x then fd t n else fd t x)"
      "case v of None \<Rightarrow> fd t n = None | Some m \<Rightarrow> 10 \<le> m \<and> (\<forall>b. Some a = Some b \<longrightarrow> b < m) \<and> fd t m = None \<and> fd t n \<noteq> None"
      using save(2) [OF False, of "Some a"] by auto
    have va: "v \<noteq> Some a" using t(5) by (auto split: option.splits)
    have v: "case v of None \<Rightarrow> fd s n = None | Some m \<Rightarrow> 10 \<le> m \<and> fd s m = None \<and> fd s n \<noteq> None"
      using t(5) assms(4,7) by (auto split: option.splits if_splits)
    let ?s = "sys_close a (if n = 0 then reset_stdin (set_fd n (Some k) t1) else set_fd n (Some k) t1)"
    have "fd t1 a = Some k" using t(4) va assms(7) by simp
    have "redirecting orig rest pfs ?s"
    proof (rule step)
      show "pf_fds ?s = pfs" using t(2) pf assms(6) by (simp add: sys_close_def r)
      have "\<forall>x. x \<noteq> n \<longrightarrow> fd ?s x = (if v = Some x then fd s n else fd s x)"
        using t(4) va assms(3,4,7) by (auto simp: sys_close_def r)
      then show "(n \<in> fst ` set sq \<and> redirlist ?s = sq # rest \<and> (\<forall>x. x \<noteq> n \<longrightarrow> fd ?s x = fd s x)) \<or>
        (\<exists>v. n \<notin> fst ` set sq \<and> redirlist ?s = (sq @ [(n, v)]) # rest \<and>
         (case v of None \<Rightarrow> fd s n = None | Some m \<Rightarrow> 10 \<le> m \<and> fd s m = None \<and> fd s n \<noteq> None) \<and>
         (\<forall>x. x \<noteq> n \<longrightarrow> fd ?s x = (if v = Some x then fd s n else fd s x)))"
        using False v t(3) by (auto simp: sys_close_def r)
    qed
    moreover have "\<not> internally_opened_fd a True t1"
      using a va t(2,3) by (cases v) (auto simp: internally_opened_fd_def snd_moved)
    ultimately show ?thesis using t(1) \<open>fd t1 a = Some k\<close> by (simp add: redirect_to_def sys_dup2_def Let_def)
  qed
qed

lemma sys_open_spec:
  "sys_open p fl s = (None, s') \<Longrightarrow> s' = s"
  "sys_open p fl s = (Some a, s') \<Longrightarrow> fd s a = None \<and> (\<exists>k. \<forall>x. fd s' x = (if x = a then Some k else fd s x)) \<and>
     redirlist s' = redirlist s \<and> pf_fds s' = pf_fds s"
proof -
  have free: "fd t = fd s \<Longrightarrow> fd s (free_from 0 t) = None" for t using free_from_props(2) [of t 0] by simp
  show "sys_open p fl s = (None, s') \<Longrightarrow> s' = s"
    by (auto simp: sys_open_def install_def Let_def split: option.splits if_splits)
  show "fd s a = None \<and> (\<exists>k. \<forall>x. fd s' x = (if x = a then Some k else fd s x)) \<and>
     redirlist s' = redirlist s \<and> pf_fds s' = pf_fds s" if "sys_open p fl s = (Some a, s')"
    using that by (auto simp: sys_open_def install_def Let_def free split: option.splits if_splits)
qed

lemma openredirect_spec:
  "openredirect t p s = (Inl e, s') \<Longrightarrow> s' = s \<and> e \<noteq> Died"
  "openredirect t p s = (Inr a, s') \<Longrightarrow> fd s a = None \<and> (\<exists>k. \<forall>x. fd s' x = (if x = a then Some k else fd s x)) \<and>
     redirlist s' = redirlist s \<and> pf_fds s' = pf_fds s"
  by (auto simp: openredirect_def opened_def split: redir_type.splits prod.splits option.splits if_splits
      dest: sys_open_spec)

lemma redirect_one_undo:
  assumes "redirecting orig rest pfs s" and "redir_fd r < 10"
  shows "case redirect_one True r s of (x, s') \<Rightarrow> x \<noteq> Inl Died \<and> redirecting orig rest pfs s'"
proof (cases r)
  case (RedirFile t n p)
  show ?thesis
  proof (cases "openredirect t p s")
    case (Pair x s1)
    show ?thesis
    proof (cases x)
      case (Inl e)
      then show ?thesis using Pair RedirFile assms(1) openredirect_spec(1) [of t p s e s1] by auto
    next
      case (Inr a)
      then have "openredirect t p s = (Inr a, s1)" using Pair by simp
      from openredirect_spec(2) [OF this] obtain k where o: "fd s a = None" "\<forall>x. fd s1 x = (if x = a then Some k else fd s x)"
        "redirlist s1 = redirlist s" "pf_fds s1 = pf_fds s" by blast
      show ?thesis
      proof (cases "a = n")
        case True
        obtain sq where sq: "redirlist s = sq # rest" "pf_fds s = pfs" using assms(1) by (auto simp: redirecting_def)
        have "redirecting orig rest pfs (add_squirrel_closed True n s1)"
          by (rule redirecting_step [OF assms(1) sq(1), of n])
            (use True o sq assms(2) RedirFile in \<open>auto simp: add_squirrel_closed_def set_top_def Let_def\<close>)
        then show ?thesis using Pair Inr True RedirFile by simp
      next
        case False
        from redirect_open_undo [OF assms(1) _ o(1) False o(3,4), of k] o(2) assms(2) show ?thesis
          using Pair Inr False RedirFile by (auto split: prod.splits)
      qed
    qed
  qed
next
  case (RedirDup n m)
  then show ?thesis using redirect_dup_undo [OF assms(1), of n m] assms by auto
next
  case (RedirHere n b)
  then show ?thesis using assms(1) by (simp add: openhere_def)
qed

lemma redirect_undo:
  assumes "redirecting orig rest pfs s" and "\<forall>r\<in>set rs. redir_fd r < 10"
  shows "case redirect True rs s of (x, s') \<Rightarrow> x \<noteq> Inl Died \<and> redirecting orig rest pfs s'"
  using assms
proof (induction rs arbitrary: s)
  case (Cons r rs)
  then show ?case using redirect_one_undo [OF Cons.prems(1), of r] by (fastforce split: prod.splits sum.splits)
qed simp

section \<open>Commands with redirections\<close>

text \<open>
  A state from which the handler of an exception gets back to \<open>t\<close>: unwinding the saved descriptors
  restores every descriptor.
\<close>

definition unwinds :: "sh \<Rightarrow> sh \<Rightarrow> bool" where
  "unwinds t' t \<longleftrightarrow> (\<exists>u. unwindredir (length (redirlist t)) t' = (Inr (), u) \<and> fd u = fd t \<and> redirlist u = redirlist t \<and>
     pf_fds u = pf_fds t)"

definition balanced :: "(sh \<Rightarrow> (exn + int) \<times> sh) \<Rightarrow> bool" where
  "balanced body \<longleftrightarrow> (\<forall>t. scripts_ok t \<longrightarrow>
     (case body t of
        (Inl x, t') \<Rightarrow> unwinds t' t
      | (Inr st, t') \<Rightarrow> fd t' = fd t \<and> redirlist t' = redirlist t \<and> pf_fds t' = pf_fds t))"

lemma popredir_undo:
  assumes "redirlist u = sq # rest" and "undo_inv orig sq u"
  shows "\<exists>v. popredir False u = (Inr (), v) \<and> fd v = orig \<and> redirlist v = rest \<and> pf_fds v = pf_fds u"
  using pop_pairs_undo [OF assms(2)] assms(1) by (auto simp: popredir_def)

lemma unwind_more: "unwindredir m t = (Inr (), u) \<Longrightarrow> n \<le> m \<Longrightarrow> unwindredir n t = unwindredir n u"
proof (induction m t rule: unwindredir.induct)
  case (1 m t)
  show ?case
  proof (cases "length (redirlist t) \<le> m")
    case True
    then show ?thesis using 1(2) by (simp add: unwindredir.simps [of m])
  next
    case False
    then obtain t1 where "popredir False t = (Inr (), t1)" "unwindredir m t1 = (Inr (), u)"
      using 1(2) by (auto simp: unwindredir.simps [of m] split: prod.splits sum.splits)
    moreover from this have "unwindredir n t1 = unwindredir n u" using 1(1) [OF False] 1(3) by auto
    ultimately show ?thesis using False 1(3) by (simp add: unwindredir.simps [of n t])
  qed
qed

lemma redirecting_push:
  assumes "scripts_ok s" and "rs \<noteq> []"
  shows "redirecting (fd s) (redirlist s) (pf_fds s) (pushredir rs s)"
  using assms by (auto simp: redirecting_def pushredir_def scripts_ok_def undo_inv_done)

lemma redirecting_scripts_ok: "redirecting orig rest pfs s \<Longrightarrow> scripts_ok s"
proof -
  assume a: "redirecting orig rest pfs s"
  then obtain sq where sq: "redirlist s = sq # rest" by (auto simp: redirecting_def)
  have "p = 0 \<or> 10 \<le> p" if "p \<in> set (pf_fds s)" for p using a that by (auto simp: redirecting_def)
  moreover have "fd s p \<noteq> None" if "p \<in> set (pf_fds s)" "p \<noteq> 0" for p
    using redirecting_facts(3) [OF a sq, of 0 p] that by auto
  ultimately show ?thesis by (auto simp: scripts_ok_def)
qed

lemma redirecting_pop:
  assumes "redirecting (fd s) (redirlist s) (pf_fds s) t" and "fd u = fd t" and "redirlist u = redirlist t" and "pf_fds u = pf_fds t"
  shows "\<exists>v. popredir False u = (Inr (), v) \<and> fd v = fd s \<and> redirlist v = redirlist s \<and> pf_fds v = pf_fds s"
proof -
  obtain sq where "redirlist t = sq # redirlist s" "undo_inv (fd s) sq t" "pf_fds t = pf_fds s"
    using assms(1) by (auto simp: redirecting_def)
  then show ?thesis using popredir_undo [of u sq "redirlist s" "fd s"] undo_inv_cong [OF assms(2)] assms(3,4) by simp
qed

lemma redirecting_unwind:
  assumes "redirecting (fd s) (redirlist s) (pf_fds s) t" and "unwinds t' t"
  shows "unwinds t' s"
proof -
  obtain sq where len: "length (redirlist t) = Suc (length (redirlist s))" using assms(1) by (auto simp: redirecting_def)
  obtain u where u: "unwindredir (length (redirlist t)) t' = (Inr (), u)" "fd u = fd t" "redirlist u = redirlist t" "pf_fds u = pf_fds t"
    using assms(2) by (auto simp: unwinds_def)
  obtain v where v: "popredir False u = (Inr (), v)" "fd v = fd s" "redirlist v = redirlist s" "pf_fds v = pf_fds s"
    using redirecting_pop [OF assms(1) u(2-4)] by blast
  have "unwindredir (length (redirlist s)) u = (Inr (), v)"
    using v u(3) len by (simp add: unwindredir.simps [of _ u] unwindredir.simps [of _ v])
  then show ?thesis using unwind_more [OF u(1), of "length (redirlist s)"] len v by (simp add: unwinds_def)
qed

lemma unwinds_refl: "fd t' = fd t \<Longrightarrow> redirlist t' = redirlist t \<Longrightarrow> pf_fds t' = pf_fds t \<Longrightarrow> unwinds t' t"
  by (simp add: unwinds_def unwindredir.simps)

text \<open>C8: a command with redirections leaves every descriptor as it was, whether its redirections succeed or
  one of them fails, and when the command raises an exception the handler gets all descriptors back
  by unwinding the saved ones.  It holds for redirections of descriptors below 10 and for every
  command that itself behaves this way, so for nested redirections as well.\<close>

theorem redirections_undone:
  assumes "balanced body" and "\<forall>r\<in>set rs. redir_fd r < 10"
  shows "balanced (eval_nredir body rs)"
proof (cases "rs = []")
  case True
  then have "eval_nredir body rs s = (case body s of (Inl x, t) \<Rightarrow> (Inl x, t) | (Inr st, t) \<Rightarrow> (Inr st, t\<lparr>sh_exitstatus := st\<rparr>))" for s
    by (simp add: eval_nredir_def redirectsafe_def pushredir_def split: prod.splits sum.splits)
  then show ?thesis using assms(1) by (auto simp: balanced_def split: prod.splits sum.splits)
next
  case rs: False
  show ?thesis unfolding balanced_def
  proof (intro allI impI)
    fix s assume s: "scripts_ok s"
    obtain x s1 where r: "redirect True rs (pushredir rs s) = (x, s1)" by (cases "redirect True rs (pushredir rs s)")
    then have i: "x \<noteq> Inl Died" "redirecting (fd s) (redirlist s) (pf_fds s) s1"
      using redirect_undo [OF redirecting_push [OF s rs] assms(2)] by auto
    note pop = redirecting_pop [OF i(2)]
    show "case eval_nredir body rs s of (Inl x, t') \<Rightarrow> unwinds t' s
      | (Inr st, t') \<Rightarrow> fd t' = fd s \<and> redirlist t' = redirlist s \<and> pf_fds t' = pf_fds s"
    proof (cases x)
      case (Inl e)
      then have "redirectsafe rs (pushredir rs s) = (Inr 1, s1\<lparr>sh_exitstatus := 2\<rparr>)"
        using r i(1) by (cases e) (simp_all add: redirectsafe_def)
      moreover obtain v where "popredir False (s1\<lparr>sh_exitstatus := 2\<rparr>) = (Inr (), v)" "fd v = fd s" "redirlist v = redirlist s" "pf_fds v = pf_fds s"
        using pop [of "s1\<lparr>sh_exitstatus := 2\<rparr>"] by auto
      ultimately show ?thesis using rs by (simp add: eval_nredir_def)
    next
      case (Inr y)
      then have safe: "redirectsafe rs (pushredir rs s) = (Inr 0, s1)" using r by (simp add: redirectsafe_def)
      have b: "case body s1 of (Inl x, t') \<Rightarrow> unwinds t' s1
        | (Inr st, t') \<Rightarrow> fd t' = fd s1 \<and> redirlist t' = redirlist s1 \<and> pf_fds t' = pf_fds s1"
        using assms(1) redirecting_scripts_ok [OF i(2)] by (simp add: balanced_def)
      obtain res t' where body: "body s1 = (res, t')" by (cases "body s1")
      show ?thesis
      proof (cases res)
        case (Inl z)
        then show ?thesis using body b safe rs redirecting_unwind [OF i(2)] by (simp add: eval_nredir_def)
      next
        case (Inr st)
        then obtain v where "popredir False t' = (Inr (), v)" "fd v = fd s" "redirlist v = redirlist s" "pf_fds v = pf_fds s"
          using pop [of t'] body b by auto
        then show ?thesis using Inr body safe rs by (simp add: eval_nredir_def)
      qed
    qed
  qed
qed

theorem redirections_undone_witness:
  "balanced (eval_nredir (eval_nredir (\<lambda>s. (Inr 0, s)) [RedirDup 2 (Some 1)]) [RedirFile NTO 1 ''f'', RedirDup 0 None])"
proof -
  have "balanced (\<lambda>s. (Inr 0, s))" by (simp add: balanced_def)
  then have "balanced (eval_nredir (\<lambda>s. (Inr 0, s)) [RedirDup 2 (Some 1)])" by (rule redirections_undone) simp
  then show ?thesis by (rule redirections_undone) simp
qed

text \<open>A shell at its start: the terminal on the first three descriptors.\<close>

definition start_sh :: sh where
  "start_sh = \<lparr>fdtab = [Some 0, Some 0, Some 0],
     ofiles = [\<lparr>of_node = 0, of_pos = 0, of_rd = True, of_wr = True, of_append = True\<rparr>], inodes = [''typed''],
     names = (\<lambda>_. None), creatable = (\<lambda>_. True), stdin_buf = [], stdin_eof = False, stdout_buf = [],
     redirlist = [], pf_fds = [0], preverrout_fd = Some 2, Cflag = False, osd_pipeseq = 0, bq_depth = 0,
     osd_bq_status = 0, back_exitstatus = 0, evalskip = 0, skipcount = 0, loopnest = 0, funcline = 0,
     sh_exitstatus = 0, savestatus = - 1, eflag = False\<rparr>"

text \<open>
  The bound on the descriptors is needed: in \<open>cmd >a 10>b\<close> the first redirection parks descriptor 1 at
  10, the second one moves it on to 11 but records nothing for 10 itself, which stays open behind the
  command.
\<close>

lemma redirect_high_fd_stays_open:
  "let s' = snd (eval_nredir (\<lambda>s. (Inr 0, s)) [RedirFile NTO 1 ''a'', RedirFile NTO 10 ''b''] start_sh)
   in fd start_sh 10 = None \<and> fd s' 10 \<noteq> None \<and> fd s' 1 = fd start_sh 1"
  by code_simp

text \<open>
  Redirecting standard input resets the shared stream, restoring it does not: after a command has read
  its file to the end, the next command that reads the terminal through the stream gets nothing.
\<close>

lemma stdin_eof_sticks:
  "let s' = snd (eval_nredir (\<lambda>s. (Inr 0, snd (read_stdin s))) [RedirFile NFROMTO 0 ''a''] start_sh)
   in fd s' 0 = fd start_sh 0 \<and> fst (read_stdin start_sh) = ''typed'' \<and> pending s' 0 = ''typed'' \<and> fst (read_stdin s') = []"
  by code_simp

end
