(* ===== verification/Ash_Pipe.thy ===== *)
theory Ash_Pipe
  imports Ash_Redir Libbb_Text
begin

text \<open>
  Pipelines and command substitution without fork, \<open>shell/ash.c\<close>: \<open>evalpipe\<close> runs the stages one after
  the other and threads their output through temporary files, \<open>osd_evalbackcmd_inproc\<close> runs the command
  of a substitution in the shell itself and captures its output.  The evaluation of a command is a
  parameter; a contract says what a command that maps its input to its output does with the state,
  and a pipeline of such commands is shown to be one for the composed function.
\<close>

section \<open>Pipelines\<close>

definition pipe_tmp :: "nat \<Rightarrow> cstr" where
  "pipe_tmp n = ''/tmp/.osdp'' @ dec_of_nat n"

definition next_seq :: "sh \<Rightarrow> nat" where
  "next_seq s = (osd_pipeseq s + 1) mod 2 ^ 32"

lemma next_seq_code [code]: "next_seq s = nat ((int (osd_pipeseq s) + 1) mod 4294967296)"
  by (simp add: next_seq_def nat_mod_distrib nat_add_distrib)

text \<open>\<open>dup2(from, to); close(from);\<close>\<close>

definition move_fd :: "nat option \<Rightarrow> nat \<Rightarrow> sh \<Rightarrow> sh" where
  "move_fd from to s = (case from of None \<Rightarrow> s | Some n \<Rightarrow> sys_close n (snd (sys_dup2 n to s)))"

text \<open>
  One stage: the temporary file for its output (unless it is the last), the descriptors saved and set
  up, the evaluation, and the descriptors restored.  The result is the status and the descriptor that
  the next stage reads.  The temporary file of a stage is known by the counter at its start, because
  the name was written into a buffer before the command runs.
\<close>

definition pipe_open :: "bool \<Rightarrow> nat option \<Rightarrow> sh \<Rightarrow> (exn + nat option) \<times> sh" where
  "pipe_open piped prevfd s =
     (if \<not> piped then (Inr None, s)
      else let s1 = s\<lparr>osd_pipeseq := next_seq s\<rparr>
           in case sys_open (pipe_tmp (osd_pipeseq s1)) WR_CREAT_TRUNC s1 of
                (None, s2) \<Rightarrow> (Inl EXERROR, case prevfd of None \<Rightarrow> s2 | Some p \<Rightarrow> sys_close p s2)
              | (Some n, s2) \<Rightarrow> (Inr (Some n), s2))"

definition pipe_run :: "(sh \<Rightarrow> (exn + int) \<times> sh) \<Rightarrow> nat option \<Rightarrow> nat option \<Rightarrow> sh \<Rightarrow> (exn + int) \<times> sh" where
  "pipe_run eval prevfd outfd s =
     (let (save0, s2) = sys_dupfd 0 10 s;
          (save1, s3) = sys_dupfd 1 10 s2;
          s4 = move_fd outfd 1 (move_fd prevfd 0 s3)
      in case eval (reset_stdin s4) of
           (Inl x, s5) \<Rightarrow> (Inl x, s5)
         | (Inr _, s5) \<Rightarrow> (Inr (sh_exitstatus s5), move_fd save1 1 (move_fd save0 0 (fflush_all s5))))"

definition pipe_stage ::
    "(sh \<Rightarrow> (exn + int) \<times> sh) \<Rightarrow> bool \<Rightarrow> nat option \<Rightarrow> sh \<Rightarrow> (exn + int \<times> nat option) \<times> sh" where
  "pipe_stage eval piped prevfd s =
     (case pipe_open piped prevfd s of
        (Inl x, s1) \<Rightarrow> (Inl x, s1)
      | (Inr outfd, s1) \<Rightarrow>
          (case pipe_run eval prevfd outfd s1 of
             (Inl x, s2) \<Rightarrow> (Inl x, s2)
           | (Inr status, s2) \<Rightarrow>
               if \<not> piped then (Inr (status, None), s2)
               else let tmp = pipe_tmp (osd_pipeseq s1);
                        (next_fd, s3) = sys_open tmp RDONLY s2
                    in (Inr (status, next_fd), sys_unlink tmp s3)))"

fun pipe_loop :: "('n \<Rightarrow> sh \<Rightarrow> (exn + int) \<times> sh) \<Rightarrow> 'n list \<Rightarrow> nat option \<Rightarrow> int \<Rightarrow> sh \<Rightarrow> (exn + int) \<times> sh" where
  "pipe_loop evaltree [] prevfd status s = (Inr status, s)"
| "pipe_loop evaltree (n # ns) prevfd status s =
     (case pipe_stage (evaltree n) (ns \<noteq> []) prevfd s of
        (Inl x, s1) \<Rightarrow> (Inl x, s1)
      | (Inr (status', prevfd'), s1) \<Rightarrow> pipe_loop evaltree ns prevfd' status' s1)"

definition evalpipe :: "('n \<Rightarrow> sh \<Rightarrow> (exn + int) \<times> sh) \<Rightarrow> 'n list \<Rightarrow> sh \<Rightarrow> (exn + int) \<times> sh" where
  "evalpipe evaltree ns s = pipe_loop evaltree ns None 0 s"

section \<open>Command substitution\<close>

definition bq_tmp :: "nat \<Rightarrow> cstr" where
  "bq_tmp n = ''/tmp/.osdbq'' @ dec_of_nat n"

text \<open>
  The state of the evaluator that the nested command must not change (the stack of allocations and the
  state of the expansion are swapped in the same way and are not part of this state).
\<close>

definition bq_enter :: "sh \<Rightarrow> sh" where
  "bq_enter s = s\<lparr>evalskip := 0, skipcount := 0, loopnest := 0, funcline := 0, eflag := False\<rparr>"

definition bq_leave :: "sh \<Rightarrow> sh \<Rightarrow> sh" where
  "bq_leave sv s = s\<lparr>evalskip := evalskip sv, skipcount := skipcount sv, loopnest := loopnest sv, funcline := funcline sv,
     sh_exitstatus := sh_exitstatus sv, savestatus := savestatus sv, eflag := eflag sv\<rparr>"

text \<open>The status of the substitution: an exit takes the parked status, another exception gives 2.\<close>

definition bq_status :: "(exn + int) \<times> sh \<Rightarrow> int" where
  "bq_status r =
     (case r of
        (Inr _, s) \<Rightarrow> sh_exitstatus s
      | (Inl EXEXIT, s) \<Rightarrow> if savestatus s \<ge> 0 then savestatus s else sh_exitstatus s
      | (Inl _, s) \<Rightarrow> 2)"

definition osd_evalbackcmd_inproc :: "(sh \<Rightarrow> (exn + int) \<times> sh) \<Rightarrow> sh \<Rightarrow> (exn + nat) \<times> sh" where
  "osd_evalbackcmd_inproc eval s =
     (let tmppath = bq_tmp (bq_depth s);
          (saved1, s2) = sys_dupfd 1 10 (fflush_all s);
          (tmpfd, s3) = sys_open tmppath RDWR_CREAT_TRUNC s2
      in case (saved1, tmpfd) of
           (Some sv1, Some t) \<Rightarrow>
             (let s4 = snd (sys_dup2 t 1 (s3\<lparr>bq_depth := bq_depth s3 + 1\<rparr>));
                  r = eval (bq_enter s4);
                  s5 = bq_leave s4 ((snd r)\<lparr>osd_bq_status := bq_status r\<rparr>);
                  s6 = move_fd (Some sv1) 1 (fflush_all s5);
                  s7 = (case fd s6 t of None \<Rightarrow> s6
                        | Some k \<Rightarrow> s6\<lparr>ofiles := (ofiles s6)[k := (ofiles s6 ! k)\<lparr>of_pos := 0\<rparr>]\<rparr>)
              in (Inr t, (sys_unlink tmppath s7)\<lparr>bq_depth := bq_depth s7 - 1\<rparr>))
         | _ \<Rightarrow>
             (let s4 = (case saved1 of None \<Rightarrow> s3 | Some n \<Rightarrow> sys_close n s3);
                  s5 = (case tmpfd of None \<Rightarrow> s4 | Some n \<Rightarrow> sys_close n s4)
              in (Inl EXERROR, s5)))"

text \<open>\<open>expbackq\<close>: the captured text without NUL bytes and without the newlines at its end.\<close>

definition strip_newlines :: "bytes \<Rightarrow> bytes" where
  "strip_newlines b = rev (dropWhile (\<lambda>c. c = NL) (rev b))"

definition expbackq :: "(sh \<Rightarrow> (exn + int) \<times> sh) \<Rightarrow> sh \<Rightarrow> (exn + bytes) \<times> sh" where
  "expbackq eval s =
     (case osd_evalbackcmd_inproc eval s of
        (Inl x, s1) \<Rightarrow> (Inl x, s1)
      | (Inr t, s1) \<Rightarrow>
          (Inr (strip_newlines (filter (\<lambda>c. c \<noteq> NUL) (pending s1 t))),
           (sys_close t (skip_to_end t s1))\<lparr>back_exitstatus := osd_bq_status s1\<rparr>))"

section \<open>Growth of the state\<close>

definition io_ok :: "sh \<Rightarrow> bool" where
  "io_ok s \<longleftrightarrow> (\<forall>n k. fd s n = Some k \<longrightarrow> k < length (ofiles s)) \<and> (\<forall>k<length (ofiles s). of_node (ofiles s ! k) < length (inodes s)) \<and>
     (\<forall>p i. names s p = Some i \<longrightarrow> i < length (inodes s))"

lemma io_ok_fd:
  "io_ok s \<Longrightarrow> (\<And>n k. fd s' n = Some k \<Longrightarrow> k < length (ofiles s)) \<Longrightarrow> ofiles s' = ofiles s \<Longrightarrow> inodes s' = inodes s \<Longrightarrow>
    names s' = names s \<Longrightarrow> io_ok s'"
  by (simp add: io_ok_def)

text \<open>The state of the evaluator that a substitution saves.\<close>

definition same_eval :: "sh \<Rightarrow> sh \<Rightarrow> bool" where
  "same_eval s s' \<longleftrightarrow> evalskip s' = evalskip s \<and> skipcount s' = skipcount s \<and> loopnest s' = loopnest s \<and>
     funcline s' = funcline s \<and> sh_exitstatus s' = sh_exitstatus s \<and> savestatus s' = savestatus s \<and> eflag s' = eflag s"

definition at_end :: "sh \<Rightarrow> nat \<Rightarrow> bool" where
  "at_end s k \<longleftrightarrow> of_append (ofiles s ! k) \<or> of_pos (ofiles s ! k) = length (ofile_content s k)"

abbreviation kind_of :: "open_file \<Rightarrow> nat \<times> bool \<times> bool \<times> bool" where
  "kind_of f \<equiv> (of_node f, of_rd f, of_wr f, of_append f)"

text \<open>
  Files and open files only grow: outside \<open>B\<close> the old files keep their contents, the old open files their
  file and mode, and one that stood at the end of a file outside \<open>B\<close> still does.
\<close>

definition keeps :: "nat set \<Rightarrow> sh \<Rightarrow> sh \<Rightarrow> bool" where
  "keeps B s s' \<longleftrightarrow> length (inodes s) \<le> length (inodes s') \<and> length (ofiles s) \<le> length (ofiles s') \<and>
     (\<forall>i<length (inodes s). i \<notin> B \<longrightarrow> inodes s' ! i = inodes s ! i) \<and>
     (\<forall>k<length (ofiles s). kind_of (ofiles s' ! k) = kind_of (ofiles s ! k) \<and>
        (of_node (ofiles s ! k) \<notin> B \<longrightarrow> at_end s k \<longrightarrow> at_end s' k))"

lemma keeps_refl: "ofiles s' = ofiles s \<Longrightarrow> inodes s' = inodes s \<Longrightarrow> keeps B s s'"
  by (simp add: keeps_def at_end_def ofile_content_def)

lemma files_cong:
  assumes "ofiles a = ofiles a'" and "inodes a = inodes a'" and "ofiles b = ofiles b'" and "inodes b = inodes b'"
  shows "at_end a k \<longleftrightarrow> at_end a' k" and "keeps B a b \<longleftrightarrow> keeps B a' b'" and "ofile_content a k = ofile_content a' k"
  using assms by (simp_all add: keeps_def at_end_def ofile_content_def)

lemma keeps_trans:
  assumes "keeps A s s1" and "keeps B s1 s2" and "io_ok s" and "\<And>i. i < length (inodes s) \<Longrightarrow> i \<in> A \<union> B \<Longrightarrow> i \<in> C"
  shows "keeps C s s2"
proof -
  have k: "of_node (ofiles s1 ! k) = of_node (ofiles s ! k)" "of_node (ofiles s ! k) < length (inodes s)"
    if "k < length (ofiles s)" for k using assms(1,3) that by (auto simp: keeps_def io_ok_def)
  have "kind_of (ofiles s2 ! k) = kind_of (ofiles s ! k)" if "k < length (ofiles s)" for k
    using assms(1,2) that by (auto simp: keeps_def)
  moreover have "at_end s2 k" if "k < length (ofiles s)" "of_node (ofiles s ! k) \<notin> C" "at_end s k" for k
  proof -
    have n: "of_node (ofiles s ! k) \<notin> A" "of_node (ofiles s ! k) \<notin> B" using that(2) assms(4) k(2) [OF that(1)] by blast+
    then have "at_end s1 k" using assms(1) that by (auto simp: keeps_def)
    moreover have "k < length (ofiles s1)" using assms(1) that(1) by (simp add: keeps_def)
    ultimately show ?thesis using assms(2) n(2) k(1) [OF that(1)] by (auto simp: keeps_def)
  qed
  moreover have "inodes s2 ! i = inodes s ! i" if "i < length (inodes s)" "i \<notin> C" for i
  proof -
    have "i \<notin> A" "i \<notin> B" using that assms(4) by blast+
    then show ?thesis using assms(1,2) that(1) by (auto simp: keeps_def)
  qed
  ultimately show ?thesis using assms(1,2) by (auto simp: keeps_def)
qed

lemma keeps_content:
  assumes "keeps B s s'" and "io_ok s" and "k < length (ofiles s)" and "of_node (ofiles s ! k) \<notin> B"
  shows "ofile_content s' k = ofile_content s k"
  using assms by (auto simp: keeps_def io_ok_def ofile_content_def)

section \<open>Commands that map input to output\<close>

definition wrote :: "nat \<Rightarrow> bytes \<Rightarrow> sh \<Rightarrow> sh \<Rightarrow> bool" where
  "wrote k y s s' \<longleftrightarrow> keeps {of_node (ofiles s ! k)} s s' \<and> ofile_content s' k = ofile_content s k @ y \<and> at_end s' k"

lemma wrote_cong:
  assumes "ofiles a = ofiles a'" and "inodes a = inodes a'" and "ofiles b = ofiles b'" and "inodes b = inodes b'"
  shows "wrote k y a b \<longleftrightarrow> wrote k y a' b'"
  using files_cong [OF assms] files_cong [OF assms(3,4,3,4)] assms by (simp add: wrote_def)

lemma wrote_after_keeps:
  assumes "keeps {} s s1" and "wrote k y s1 s2" and "io_ok s" and "k < length (ofiles s)"
  shows "wrote k y s s2"
proof -
  have "of_node (ofiles s1 ! k) = of_node (ofiles s ! k)" using assms(1,4) by (auto simp: keeps_def)
  moreover have "ofile_content s1 k = ofile_content s k" using keeps_content [OF assms(1,3,4)] by simp
  moreover from calculation have "keeps {of_node (ofiles s ! k)} s s2"
    using keeps_trans [OF assms(1) _ assms(3)] assms(2) by (auto simp: wrote_def)
  ultimately show ?thesis using assms(2) by (simp add: wrote_def)
qed

lemma sys_write_wrote:
  assumes "io_ok s" and "fd s n = Some k" and "of_wr (ofiles s ! k)" and "at_end s k"
  shows "wrote k b s (sys_write n b s)" and "io_ok (sys_write n b s)"
proof -
  let ?f = "ofiles s ! k" let ?c = "ofile_content s k"
  let ?p = "if of_append ?f then length ?c else of_pos ?f"
  have k: "k < length (ofiles s)" and i: "of_node ?f < length (inodes s)" using assms(1,2) by (auto simp: io_ok_def)
  have p: "?p = length ?c" using assms(4) by (auto simp: at_end_def)
  then have c: "put_at ?p b ?c = ?c @ b" by (simp add: put_at_def)
  show "wrote k b s (sys_write n b s)"
  proof (cases "b = []")
    case True
    then show ?thesis using assms(2,4) keeps_refl [of s s] by (simp add: sys_write_def wrote_def)
  next
    case False
    have w: "sys_write n b s = s\<lparr>inodes := (inodes s)[of_node ?f := ?c @ b], ofiles := (ofiles s)[k := ?f\<lparr>of_pos := length ?c + length b\<rparr>]\<rparr>"
      using False assms(2,3) c p by (simp add: sys_write_def Let_def)
    have "at_end (sys_write n b s) j" if "at_end s j" "j < length (ofiles s)" "of_node (ofiles s ! j) \<noteq> of_node ?f" for j
      using that unfolding w by (cases "j = k") (auto simp: at_end_def ofile_content_def)
    then show ?thesis using k i unfolding w wrote_def keeps_def
      by (auto simp: nth_list_update ofile_content_def at_end_def)
  qed
  show "io_ok (sys_write n b s)"
    using assms(1,2) by (auto simp: io_ok_def sys_write_def Let_def nth_list_update)
qed

lemma skip_to_end_keeps:
  assumes "io_ok s"
  shows "keeps {} s (skip_to_end n s)" and "io_ok (skip_to_end n s)" and "fd (skip_to_end n s) = fd s"
    and "names (skip_to_end n s) = names s" and "creatable (skip_to_end n s) = creatable s"
    and "osd_pipeseq (skip_to_end n s) = osd_pipeseq s" and "stdout_buf (skip_to_end n s) = stdout_buf s"
  using assms by (auto simp: skip_to_end_def keeps_def io_ok_def at_end_def ofile_content_def nth_list_update split: option.splits)

text \<open>
  The names of the temporary files that the next \<open>b\<close> pipelines make are free, and the counter does not
  wrap; standard output stands at the end of its file.
\<close>

definition tmp_ok :: "nat \<Rightarrow> sh \<Rightarrow> bool" where
  "tmp_ok b s \<longleftrightarrow> osd_pipeseq s + b < 2 ^ 32 \<and>
     (\<forall>j>osd_pipeseq s. names s (pipe_tmp j) = None \<and> creatable s (pipe_tmp j))"

definition streams_ok :: "nat \<Rightarrow> sh \<Rightarrow> bool" where
  "streams_ok b s \<longleftrightarrow> io_ok s \<and> tmp_ok b s \<and> stdout_buf s = [] \<and> fd s 0 \<noteq> None \<and>
     (\<exists>k. fd s 1 = Some k \<and> of_wr (ofiles s ! k) \<and> at_end s k)"

definition ready :: "nat \<Rightarrow> sh \<Rightarrow> bool" where
  "ready b s \<longleftrightarrow> streams_ok b s \<and> stdin_buf s = [] \<and> \<not> stdin_eof s"

definition same_frame :: "nat \<Rightarrow> sh \<Rightarrow> sh \<Rightarrow> bool" where
  "same_frame b s s' \<longleftrightarrow> fd s' = fd s \<and> names s' = names s \<and> creatable s' = creatable s \<and>
     osd_pipeseq s \<le> osd_pipeseq s' \<and> osd_pipeseq s' \<le> osd_pipeseq s + b"

text \<open>
  The contract: from a state in which the streams are ready, the command returns, leaves the
  descriptors and names as they were, and once the buffers are flushed its whole effect is that \<open>f\<close> of
  the pending input stands behind the output.  It may run up to \<open>b\<close> stages of pipelines of its own.
\<close>

definition filters :: "nat \<Rightarrow> (sh \<Rightarrow> (exn + int) \<times> sh) \<Rightarrow> (bytes \<Rightarrow> bytes) \<Rightarrow> int \<Rightarrow> bool" where
  "filters b eval f st \<longleftrightarrow> (\<forall>s. ready b s \<longrightarrow>
     (\<exists>x s'. eval s = (Inr x, s') \<and> sh_exitstatus s' = st \<and> same_frame b s s' \<and> io_ok (fflush_all s') \<and>
        wrote (the (fd s 1)) (f (pending s 0)) s (fflush_all s')))"

lemma filtersD:
  "filters b eval f st \<Longrightarrow> ready b s \<Longrightarrow>
    \<exists>x s'. eval s = (Inr x, s') \<and> sh_exitstatus s' = st \<and> same_frame b s s' \<and> io_ok (fflush_all s') \<and>
      wrote (the (fd s 1)) (f (pending s 0)) s (fflush_all s')"
  by (simp add: filters_def)

lemma fflush_fields [simp]:
  "fd (fflush_all s) = fd s" "names (fflush_all s) = names s" "creatable (fflush_all s) = creatable s"
  "osd_pipeseq (fflush_all s) = osd_pipeseq s" "sh_exitstatus (fflush_all s) = sh_exitstatus s" "stdout_buf (fflush_all s) = []"
  by (auto simp: fflush_all_def sys_write_def Let_def split: option.splits)

text \<open>The output of a command that fits the streams of the C library satisfies the contract.\<close>

lemma run_filter_filters: "filters 0 (run_filter f st) f st"
  unfolding filters_def
proof (intro allI impI)
  fix s assume s: "ready 0 s"
  then obtain k where k: "fd s 1 = Some k" "of_wr (ofiles s ! k)" "at_end s k" and io: "io_ok s"
    by (auto simp: ready_def streams_ok_def)
  have kl: "k < length (ofiles s)" using io k(1) by (simp add: io_ok_def)
  let ?t = "skip_to_end 0 s" let ?y = "f (pending s 0)"
  note sk = skip_to_end_keeps [OF io, of 0]
  have t: "of_wr (ofiles ?t ! k)" "at_end ?t k" using sk(1) k(2,3) kl by (auto simp: keeps_def)
  let ?u = "?t\<lparr>stdin_buf := [], stdin_eof := True, stdout_buf := ?y, sh_exitstatus := st\<rparr>"
  have r: "run_filter f st s = (Inr st, ?u)"
    using s sk(7) by (simp add: run_filter_def read_stdin_def ready_def streams_ok_def)
  have u: "io_ok ?u" "fd ?u 1 = Some k" "of_wr (ofiles ?u ! k)" "at_end ?u k"
    using sk(2,3) t k(1) by (simp_all add: io_ok_def at_end_def ofile_content_def)
  note w = sys_write_wrote [OF u, of ?y]
  have fl: "fflush_all ?u = (sys_write 1 ?y ?u)\<lparr>stdout_buf := []\<rparr>" by (simp add: fflush_all_def)
  have "keeps {} s ?u" using sk(1) files_cong(2) [of s s ?t ?u "{}"] by simp
  moreover have "wrote k ?y ?u (fflush_all ?u)" using w(1) wrote_cong [of ?u ?u "sys_write 1 ?y ?u" "fflush_all ?u"] unfolding fl
    by simp
  ultimately have "wrote k ?y s (fflush_all ?u)" by (rule wrote_after_keeps [OF _ _ io kl])
  moreover have "io_ok (fflush_all ?u)" using w(2) unfolding fl by (simp add: io_ok_def)
  ultimately show "\<exists>x s'. run_filter f st s = (Inr x, s') \<and> sh_exitstatus s' = st \<and> same_frame 0 s s' \<and> io_ok (fflush_all s') \<and>
      wrote (the (fd s 1)) ?y s (fflush_all s')"
    unfolding r using sk(3-6) k(1) by (simp add: same_frame_def)
qed

section \<open>A stage\<close>

definition without :: "nat option \<Rightarrow> (nat \<Rightarrow> nat option) \<Rightarrow> nat \<Rightarrow> nat option" where
  "without p m = (case p of None \<Rightarrow> m | Some n \<Rightarrow> m(n := None))"

definition input_of :: "nat option \<Rightarrow> sh \<Rightarrow> bytes" where
  "input_of prevfd s = pending s (case prevfd of None \<Rightarrow> 0 | Some p \<Rightarrow> p)"

lemma move_fd_fields [simp]:
  "ofiles (move_fd p n s) = ofiles s" "inodes (move_fd p n s) = inodes s" "names (move_fd p n s) = names s"
  "creatable (move_fd p n s) = creatable s" "stdout_buf (move_fd p n s) = stdout_buf s" "osd_pipeseq (move_fd p n s) = osd_pipeseq s"
  "sh_exitstatus (move_fd p n s) = sh_exitstatus s"
  by (auto simp: move_fd_def sys_close_def sys_dup2_def split: option.splits)

lemma move_fd_fd: "fd s n = Some k \<Longrightarrow> n \<noteq> m \<Longrightarrow> fd (move_fd (Some n) m s) = (fd s)(m \<mapsto> k, n := None)"
  by (auto simp: move_fd_def sys_close_def sys_dup2_def)

lemma sys_dupfd_Some:
  "fd s n = Some k \<Longrightarrow> sys_dupfd n m s = (Some (free_from m s), set_fd (free_from m s) (Some k) s)"
  by (simp add: sys_dupfd_def Let_def)

lemma fd_set_fd_eq: "fd (set_fd n v s) = (fd s)(n := v)"
  by (rule ext) simp

lemma reset_stdin_fields [simp]:
  "fd (reset_stdin s) = fd s" "ofiles (reset_stdin s) = ofiles s" "inodes (reset_stdin s) = inodes s" "names (reset_stdin s) = names s"
  "creatable (reset_stdin s) = creatable s" "stdout_buf (reset_stdin s) = stdout_buf s" "osd_pipeseq (reset_stdin s) = osd_pipeseq s"
  "stdin_buf (reset_stdin s) = []" "stdin_eof (reset_stdin s) = False"
  by (simp_all add: reset_stdin_def)

lemma pipe_run_filters:
  assumes "filters b ev f st" and "io_ok s" and "tmp_ok b s" and "stdout_buf s = []" and "fd s 0 = Some k0" and "fd s 1 = Some k1"
    and "case prevfd of None \<Rightarrow> True | Some p \<Rightarrow> p \<notin> {0, 1} \<and> fd s p \<noteq> None"
    and "case outfd of None \<Rightarrow> kw = k1 | Some n \<Rightarrow> n \<notin> {0, 1} \<and> prevfd \<noteq> Some n \<and> fd s n = Some kw"
    and "of_wr (ofiles s ! kw)" and "at_end s kw"
  shows "\<exists>s'. pipe_run ev prevfd outfd s = (Inr st, s') \<and> sh_exitstatus s' = st \<and>
    fd s' = without outfd (without prevfd (fd s)) \<and> names s' = names s \<and>
    creatable s' = creatable s \<and> osd_pipeseq s \<le> osd_pipeseq s' \<and> osd_pipeseq s' \<le> osd_pipeseq s + b \<and> stdout_buf s' = [] \<and>
    io_ok s' \<and> wrote kw (f (input_of prevfd s)) s s'"
proof -
  let ?a = "free_from 10 s" let ?s2 = "set_fd ?a (Some k0) s"
  let ?c = "free_from 10 ?s2" let ?s3 = "set_fd ?c (Some k1) ?s2"
  let ?s4 = "move_fd outfd 1 (move_fd prevfd 0 ?s3)" let ?e = "reset_stdin ?s4"
  have a: "10 \<le> ?a" "fd s ?a = None" by (rule free_from_props)+
  have c: "10 \<le> ?c" "fd s ?c = None" "?c \<noteq> ?a" using free_from_props(1) [of 10 ?s2] free_from_props(2) [of ?s2 10]
    by (auto split: if_splits)
  have d: "sys_dupfd 0 10 s = (Some ?a, ?s2)" "sys_dupfd 1 10 ?s2 = (Some ?c, ?s3)"
    using assms(5,6) a by (auto intro!: sys_dupfd_Some)
  obtain kr where kr: "fd s (case prevfd of None \<Rightarrow> 0 | Some p \<Rightarrow> p) = Some kr" using assms(5,7) by (cases prevfd) auto
  let ?base = "(without outfd (without prevfd (fd s)))(0 \<mapsto> kr, 1 \<mapsto> kw, ?a \<mapsto> k0, ?c \<mapsto> k1)"
  have m1: "fd (move_fd prevfd 0 ?s3) = (without prevfd (fd s))(0 \<mapsto> kr, ?a \<mapsto> k0, ?c \<mapsto> k1)"
  proof (cases prevfd)
    case None
    then show ?thesis using kr a(1) c(1) by (auto simp: move_fd_def without_def fun_eq_iff)
  next
    case (Some p)
    then have "fd ?s3 p = Some kr" "p \<noteq> 0" "p \<noteq> ?a" "p \<noteq> ?c" using kr assms(7) a c by auto
    then show ?thesis using Some move_fd_fd [of ?s3 p kr 0] a(1) c(1) by (auto simp: without_def fun_eq_iff)
  qed
  have fe: "fd ?e = ?base"
  proof (cases outfd)
    case None
    then show ?thesis using m1 assms(6,7,8) a(1) c(1) by (auto simp: move_fd_def without_def fun_eq_iff split: option.splits)
  next
    case (Some n)
    then have n: "n \<noteq> 0" "n \<noteq> 1" "prevfd \<noteq> Some n" "fd s n = Some kw" "n \<noteq> ?a" "n \<noteq> ?c" using assms(8) a c by auto
    then have "fd (move_fd prevfd 0 ?s3) n = Some kw" unfolding m1 by (auto simp: without_def split: option.splits)
    from move_fd_fd [OF this, of 1] show ?thesis unfolding m1 using Some n a(1) c(1) by (auto simp: without_def fun_eq_iff)
  qed
  have oe: "ofiles ?e = ofiles s" "inodes ?e = inodes s" "names ?e = names s" "creatable ?e = creatable s" "osd_pipeseq ?e = osd_pipeseq s" by simp_all
  have idx: "kr < length (ofiles s)" "kw < length (ofiles s)" "k0 < length (ofiles s)" "k1 < length (ofiles s)"
    using assms(2,5,6,8) kr by (auto simp: io_ok_def split: option.splits)
  have "io_ok ?e" unfolding io_ok_def oe fe using assms(2) idx by (auto simp: io_ok_def without_def split: option.splits if_splits)
  moreover have "tmp_ok b ?e" using assms(3) unfolding tmp_ok_def oe .
  moreover have "at_end ?e kw" using assms(10) files_cong(1) [of ?e s] by simp
  ultimately have rdy: "ready b ?e" using assms(4,9) a(1) c(1) unfolding ready_def streams_ok_def fe by auto
  have pend: "pending ?e 0 = input_of prevfd s"
    using kr a(1) c(1) unfolding pending_def input_of_def fe by (simp add: ofile_content_def)
  have e1: "the (fd ?e 1) = kw" unfolding fe using a(1) c(1) by simp
  obtain x s5 where ev: "ev ?e = (Inr x, s5)" "sh_exitstatus s5 = st" "same_frame b ?e s5" "io_ok (fflush_all s5)"
    "wrote kw (f (input_of prevfd s)) ?e (fflush_all s5)"
    using filtersD [OF assms(1) rdy] unfolding e1 pend by (elim exE conjE)
  let ?s6 = "move_fd (Some ?c) 1 (move_fd (Some ?a) 0 (fflush_all s5))"
  have f5: "fd (fflush_all s5) = ?base" using ev(3) fe by (simp add: same_frame_def)
  have "fd (move_fd (Some ?a) 0 (fflush_all s5)) = ?base(0 \<mapsto> k0, ?a := None)"
    using move_fd_fd [of "fflush_all s5" ?a k0 0] a c unfolding f5 by auto
  then have f6: "fd ?s6 = ?base(0 \<mapsto> k0, ?a := None, 1 \<mapsto> k1, ?c := None)"
    using move_fd_fd [of "move_fd (Some ?a) 0 (fflush_all s5)" ?c k1 1] a c by auto
  have "fd ?s6 = without outfd (without prevfd (fd s))" unfolding f6
    using a c assms(5,6,7,8) by (auto simp: without_def fun_eq_iff split: option.splits)
  moreover have "pipe_run ev prevfd outfd s = (Inr st, ?s6)" unfolding pipe_run_def d using ev(1,2) d by simp
  moreover from calculation(1) have "io_ok ?s6"
  proof -
    assume f: "fd ?s6 = without outfd (without prevfd (fd s))"
    have "length (ofiles s) \<le> length (ofiles (fflush_all s5))" using ev(5) by (simp add: wrote_def keeps_def)
    moreover have "k < length (ofiles s)" if "fd ?s6 n = Some k" for n k
      using that assms(2) unfolding f by (auto simp: io_ok_def without_def split: option.splits if_splits)
    ultimately have "k < length (ofiles (fflush_all s5))" if "fd ?s6 n = Some k" for n k using that by fastforce
    then show ?thesis by (rule io_ok_fd [OF ev(4)]) simp_all
  qed
  moreover have "wrote kw (f (input_of prevfd s)) s ?s6" using ev(5) wrote_cong [of ?e s "fflush_all s5" ?s6] by simp
  ultimately show ?thesis using ev(2,3) oe by (simp add: same_frame_def)
qed

lemma dec_of_nat_inject: "dec_of_nat m = dec_of_nat n \<longleftrightarrow> m = n"
proof
  assume "dec_of_nat m = dec_of_nat n"
  then have "parse_digits 10 0 (dec_of_nat m @ []) = parse_digits 10 0 (dec_of_nat n @ [])" by (simp only:)
  then show "m = n" unfolding parse_digits_dec by simp
qed simp

lemma pipe_tmp_inject [simp]: "pipe_tmp m = pipe_tmp n \<longleftrightarrow> m = n"
  by (simp add: pipe_tmp_def dec_of_nat_inject)

lemma keeps_append:
  "ofiles s' = ofiles s @ fs \<Longrightarrow> inodes s' = inodes s @ is \<Longrightarrow> io_ok s \<Longrightarrow> keeps {} s s'"
  by (auto simp: keeps_def at_end_def ofile_content_def nth_append io_ok_def)

lemma install_facts:
  assumes "install f s = (n, s')"
  shows "fd s n = None" and "fd s' = (fd s)(n \<mapsto> length (ofiles s))" and "ofiles s' = ofiles s @ [f]" and "inodes s' = inodes s"
    and "names s' = names s" and "creatable s' = creatable s" and "stdout_buf s' = stdout_buf s" and "osd_pipeseq s' = osd_pipeseq s"
  using assms free_from_props(2) [of s 0] by (auto simp: install_def Let_def fun_eq_iff)

lemma open_new:
  assumes "fl \<in> {WR_CREAT_TRUNC, RDWR_CREAT_TRUNC}" and "names s p = None" and "creatable s p" and "io_ok s"
  shows "\<exists>n s'. sys_open p fl s = (Some n, s') \<and> fd s n = None \<and> fd s' = (fd s)(n \<mapsto> length (ofiles s)) \<and>
    ofiles s' = ofiles s @ [new_ofile (length (inodes s)) fl] \<and> inodes s' = inodes s @ [[]] \<and>
    names s' = (names s)(p \<mapsto> length (inodes s)) \<and> creatable s' = creatable s \<and> stdout_buf s' = stdout_buf s \<and>
    osd_pipeseq s' = osd_pipeseq s \<and> io_ok s' \<and> bq_depth s' = bq_depth s \<and> same_eval s s'"
proof -
  let ?i = "length (inodes s)"
  let ?s = "s\<lparr>inodes := inodes s @ [[]], names := (names s)(p \<mapsto> ?i)\<rparr>"
  obtain n s' where i: "install (new_ofile ?i fl) ?s = (n, s')" by (cases "install (new_ofile ?i fl) ?s")
  note f = install_facts [OF i]
  have "io_ok s'" using assms(4) f(2,3,4,5) unfolding io_ok_def by (auto simp: new_ofile_def nth_append less_Suc_eq split: if_splits)
  moreover have "bq_depth s' = bq_depth s" "same_eval s s'" using i by (auto simp: install_def Let_def same_eval_def)
  ultimately show ?thesis using i f assms(1-3) by (auto simp: sys_open_def)
qed

lemma reopen_tmp:
  assumes "names s p = Some i" and "io_ok s"
  shows "\<exists>n s'. sys_open p RDONLY s = (Some n, s') \<and> fd s n = None \<and> fd s' = (fd s)(n \<mapsto> length (ofiles s)) \<and>
    ofiles s' = ofiles s @ [new_ofile i RDONLY] \<and> inodes s' = inodes s \<and> names s' = names s \<and> creatable s' = creatable s \<and>
    stdout_buf s' = stdout_buf s \<and> osd_pipeseq s' = osd_pipeseq s \<and> io_ok s' \<and> pending s' n = inodes s ! i"
proof -
  obtain n s' where i: "install (new_ofile i RDONLY) s = (n, s')" by (cases "install (new_ofile i RDONLY) s")
  note f = install_facts [OF i]
  have "io_ok s'" using assms f(2,3,4,5) unfolding io_ok_def by (auto simp: new_ofile_def nth_append less_Suc_eq split: if_splits)
  moreover have "pending s' n = inodes s ! i" unfolding pending_def f(2,3) ofile_content_def by (simp add: new_ofile_def f(4))
  ultimately show ?thesis using i f assms(1) by (simp add: sys_open_def)
qed

lemma pending_unlink: "pending (sys_unlink p s) n = pending s n"
  by (simp add: pending_def ofile_content_def sys_unlink_def split: option.splits)

lemma pipe_stage_piped:
  assumes "filters b ev f st" and "streams_ok (b + 1) s"
    and "case prevfd of None \<Rightarrow> True | Some p \<Rightarrow> p \<notin> {0, 1} \<and> fd s p \<noteq> None"
  shows "\<exists>q k s'. pipe_stage ev True prevfd s = (Inr (st, Some q), s') \<and> without prevfd (fd s) q = None \<and> q \<notin> {0, 1} \<and>
    fd s' = (without prevfd (fd s))(q \<mapsto> k) \<and> names s' = names s \<and> creatable s' = creatable s \<and> io_ok s' \<and> stdout_buf s' = [] \<and>
    osd_pipeseq s < osd_pipeseq s' \<and> osd_pipeseq s' \<le> osd_pipeseq s + b + 1 \<and> keeps {} s s' \<and> pending s' q = f (input_of prevfd s)"
proof -
  let ?seq = "osd_pipeseq s + 1" let ?T = "pipe_tmp ?seq" let ?s0 = "s\<lparr>osd_pipeseq := ?seq\<rparr>" let ?i = "length (inodes s)" let ?k = "length (ofiles s)"
  obtain k0 k1 where k: "fd s 0 = Some k0" "fd s 1 = Some k1" "of_wr (ofiles s ! k1)" "at_end s k1" and io: "io_ok s" and
    t: "tmp_ok (b + 1) s" "stdout_buf s = []" using assms(2) by (auto simp: streams_ok_def)
  have T: "names ?s0 ?T = None" "creatable ?s0 ?T" using t(1) by (simp_all add: tmp_ok_def)
  have seq: "next_seq s = ?seq" using t(1) by (simp add: next_seq_def tmp_ok_def)
  have io0: "io_ok ?s0" using io by (simp add: io_ok_def)
  obtain n s1 where o: "sys_open ?T WR_CREAT_TRUNC ?s0 = (Some n, s1)" "fd s n = None" "fd s1 = (fd s)(n \<mapsto> ?k)"
    "ofiles s1 = ofiles s @ [new_ofile ?i WR_CREAT_TRUNC]" "inodes s1 = inodes s @ [[]]" "names s1 = (names s)(?T \<mapsto> ?i)"
    "creatable s1 = creatable s" "stdout_buf s1 = stdout_buf s" "osd_pipeseq s1 = ?seq" "io_ok s1"
    using open_new [OF _ T io0, of WR_CREAT_TRUNC] by auto
  have "tmp_ok b s1" unfolding tmp_ok_def o(6,7,9) using t(1) by (auto simp: tmp_ok_def)
  moreover have f1: "fd s1 0 = Some k0" "fd s1 1 = Some k1" using o(2,3) k by auto
  moreover have p1: "case prevfd of None \<Rightarrow> True | Some p \<Rightarrow> p \<notin> {0, 1} \<and> fd s1 p \<noteq> None"
    using assms(3) o(3) by (auto split: option.splits)
  moreover have "n \<noteq> 0" "n \<noteq> 1" "prevfd \<noteq> Some n" using o(2) k(1,2) assms(3) by (rule_tac [!] notI) simp_all
  then have "n \<notin> {0, 1}" "prevfd \<noteq> Some n" "fd s1 n = Some ?k" using o(3) by simp_all
  then have "case Some n of None \<Rightarrow> ?k = k1 | Some n \<Rightarrow> n \<notin> {0, 1} \<and> prevfd \<noteq> Some n \<and> fd s1 n = Some ?k" by simp
  moreover have "of_wr (ofiles s1 ! ?k)" "at_end s1 ?k" using o(4,5) by (simp_all add: new_ofile_def at_end_def ofile_content_def)
  ultimately obtain s2 where s2: "pipe_run ev prevfd (Some n) s1 = (Inr st, s2)" "fd s2 = without (Some n) (without prevfd (fd s1))"
    "names s2 = names s1" "creatable s2 = creatable s1" "osd_pipeseq s1 \<le> osd_pipeseq s2" "osd_pipeseq s2 \<le> osd_pipeseq s1 + b"
    "stdout_buf s2 = []" "io_ok s2" "wrote ?k (f (input_of prevfd s1)) s1 s2"
    using pipe_run_filters [OF assms(1) o(10), where prevfd = prevfd and outfd = "Some n" and kw = ?k and ?k0.0 = k0 and ?k1.0 = k1] o(8) t(2) by auto
  have inp: "input_of prevfd s1 = input_of prevfd s"
  proof -
    obtain kr where kr: "fd s (case prevfd of None \<Rightarrow> 0 | Some p \<Rightarrow> p) = Some kr" using k(1) assms(3) by (cases prevfd) auto
    moreover have "kr < length (ofiles s)" "of_node (ofiles s ! kr) < length (inodes s)" using io kr by (auto simp: io_ok_def)
    ultimately show ?thesis using o(2,3,4,5) by (auto simp: input_of_def pending_def ofile_content_def nth_append)
  qed
  have f2: "fd s2 = without prevfd (fd s)"
    unfolding s2(2) o(3) using o(2) \<open>prevfd \<noteq> Some n\<close> by (auto simp: without_def fun_eq_iff split: option.splits)
  have node: "of_node (ofiles s1 ! ?k) = ?i" using o(4) by (simp add: new_ofile_def)
  have "of_node (ofiles s2 ! ?k) = ?i" using s2(9) node o(4) by (auto simp: wrote_def keeps_def)
  then have cont: "inodes s2 ! ?i = f (input_of prevfd s)"
    using s2(9) node o(5) inp by (simp add: wrote_def ofile_content_def)
  obtain q s3 where r: "sys_open ?T RDONLY s2 = (Some q, s3)" "fd s2 q = None" "fd s3 = (fd s2)(q \<mapsto> length (ofiles s2))"
    "ofiles s3 = ofiles s2 @ [new_ofile ?i RDONLY]" "inodes s3 = inodes s2" "names s3 = names s2" "creatable s3 = creatable s2"
    "stdout_buf s3 = stdout_buf s2" "osd_pipeseq s3 = osd_pipeseq s2" "io_ok s3" "pending s3 q = inodes s2 ! ?i"
    using reopen_tmp [of s2 ?T ?i] s2(3,8) o(6) by auto
  let ?s = "sys_unlink ?T s3"
  have u: "fd ?s = fd s3" "ofiles ?s = ofiles s3" "inodes ?s = inodes s3" "creatable ?s = creatable s3" "stdout_buf ?s = stdout_buf s3"
    "osd_pipeseq ?s = osd_pipeseq s3" by (simp_all add: sys_unlink_def)
  have "names ?s = names s" using r(6) s2(3) o(6) T(1) by (auto simp: sys_unlink_def fun_eq_iff)
  moreover have "io_ok ?s" using r(10) by (auto simp: io_ok_def sys_unlink_def)
  moreover have "keeps {} s ?s"
  proof -
    have "keeps {} s s1" using keeps_append [OF o(4,5) io] .
    then have "keeps {} s s2" by (rule keeps_trans [OF _ _ io]) (use s2(9) node in \<open>auto simp: wrote_def\<close>)
    then have "keeps {} s s3" by (rule keeps_trans [OF _ keeps_append [OF r(4), of "[]"] io]) (use r(5) s2(8) in auto)
    then show ?thesis using files_cong(2) [of s s s3 ?s "{}"] u by simp
  qed
  moreover have "pending ?s q = f (input_of prevfd s)" using r(11) cont by (simp add: pending_unlink)
  moreover have "pipe_stage ev True prevfd s = (Inr (st, Some q), ?s)"
    using o(1,9) s2(1) r(1) seq by (simp add: pipe_stage_def pipe_open_def Let_def)
  moreover have "fd s2 0 = Some k0" "fd s2 1 = Some k1" unfolding f2 using k(1,2) assms(3)
    by (auto simp: without_def split: option.splits)
  then have "q \<noteq> 0" "q \<noteq> 1" using r(2) by (rule_tac [!] notI) simp_all
  then have "q \<notin> {0, 1}" by simp
  ultimately show ?thesis using r(2,3,7,8,9) f2 s2(4-7) o(7,9) u by (intro exI [of _ q] exI [of _ "length (ofiles s2)"] exI [of _ ?s]) simp
qed

lemma pipe_stage_last:
  assumes "filters b ev f st" and "streams_ok b s" and "case prevfd of None \<Rightarrow> True | Some p \<Rightarrow> p \<notin> {0, 1} \<and> fd s p \<noteq> None"
  shows "\<exists>s'. pipe_stage ev False prevfd s = (Inr (st, None), s') \<and> sh_exitstatus s' = st \<and> fd s' = without prevfd (fd s) \<and>
    names s' = names s \<and> creatable s' = creatable s \<and> osd_pipeseq s \<le> osd_pipeseq s' \<and> osd_pipeseq s' \<le> osd_pipeseq s + b \<and>
    stdout_buf s' = [] \<and> io_ok s' \<and> wrote (the (fd s 1)) (f (input_of prevfd s)) s s'"
proof -
  obtain k0 k1 where k: "fd s 0 = Some k0" "fd s 1 = Some k1" "of_wr (ofiles s ! k1)" "at_end s k1" and
    t: "io_ok s" "tmp_ok b s" "stdout_buf s = []" using assms(2) by (auto simp: streams_ok_def)
  have "case None of None \<Rightarrow> k1 = k1 | Some n \<Rightarrow> n \<notin> {0, 1} \<and> prevfd \<noteq> Some n \<and> fd s n = Some k1" by simp
  from pipe_run_filters [OF assms(1) t k(1,2) assms(3) this k(3,4)] show ?thesis
    using k(2) by (auto simp: pipe_stage_def pipe_open_def without_def [of None])
qed

section \<open>The pipeline\<close>

lemma streams_ok_less: "streams_ok b s \<Longrightarrow> b' \<le> b \<Longrightarrow> streams_ok b' s"
  by (auto simp: streams_ok_def tmp_ok_def)

lemma streams_ok_next:
  assumes "streams_ok b s" and "keeps {} s s'" and "io_ok s'" and "stdout_buf s' = []" and "names s' = names s" and "creatable s' = creatable s"
    and "osd_pipeseq s \<le> osd_pipeseq s'" and "osd_pipeseq s' + b' \<le> osd_pipeseq s + b" and "fd s' 0 = fd s 0" and "fd s' 1 = fd s 1"
  shows "streams_ok b' s'"
proof -
  obtain k where k: "fd s 1 = Some k" "of_wr (ofiles s ! k)" "at_end s k" "io_ok s" "fd s 0 \<noteq> None" "tmp_ok b s"
    using assms(1) by (auto simp: streams_ok_def)
  then have "k < length (ofiles s)" by (simp add: io_ok_def)
  then have "of_wr (ofiles s' ! k)" "at_end s' k" using assms(2) k(2,3) by (auto simp: keeps_def)
  moreover have "tmp_ok b' s'" using k(6) assms(5-8) by (auto simp: tmp_ok_def)
  ultimately show ?thesis using assms(3,4,9,10) k(1,5) by (simp add: streams_ok_def)
qed

lemma pipe_loop_filters:
  assumes "ns \<noteq> []" and "\<forall>n\<in>set ns. filters (cost n) (evaltree n) (F n) (St n)"
    and "streams_ok (sum_list (map cost ns) + length ns) s"
    and "case prevfd of None \<Rightarrow> True | Some p \<Rightarrow> p \<notin> {0, 1} \<and> fd s p \<noteq> None"
  shows "\<exists>s'. pipe_loop evaltree ns prevfd status s = (Inr (St (last ns)), s') \<and> sh_exitstatus s' = St (last ns) \<and>
    fd s' = without prevfd (fd s) \<and> names s' = names s \<and> creatable s' = creatable s \<and> osd_pipeseq s \<le> osd_pipeseq s' \<and>
    osd_pipeseq s' \<le> osd_pipeseq s + (sum_list (map cost ns) + length ns) \<and> stdout_buf s' = [] \<and> io_ok s' \<and>
    wrote (the (fd s 1)) (fold F ns (input_of prevfd s)) s s'"
  using assms
proof (induction ns arbitrary: prevfd status s)
  case (Cons n ns)
  have n: "filters (cost n) (evaltree n) (F n) (St n)" using Cons.prems(2) by simp
  show ?case
  proof (cases "ns = []")
    case True
    have "streams_ok (cost n) s" by (rule streams_ok_less [OF Cons.prems(3)]) (simp add: True)
    from pipe_stage_last [OF n this Cons.prems(4)] show ?thesis using True by fastforce
  next
    case False
    let ?b = "sum_list (map cost ns) + length ns"
    have "streams_ok (cost n + 1) s" by (rule streams_ok_less [OF Cons.prems(3)]) simp
    from pipe_stage_piped [OF n this Cons.prems(4)] obtain q k s1 where
      q: "pipe_stage (evaltree n) True prevfd s = (Inr (St n, Some q), s1)" "without prevfd (fd s) q = None" "q \<notin> {0, 1}"
        "fd s1 = (without prevfd (fd s))(q \<mapsto> k)" "names s1 = names s" "creatable s1 = creatable s" "io_ok s1" "stdout_buf s1 = []"
        "osd_pipeseq s < osd_pipeseq s1" "osd_pipeseq s1 \<le> osd_pipeseq s + cost n + 1" "keeps {} s s1"
        "pending s1 q = F n (input_of prevfd s)" by blast
    have f: "fd s1 0 = fd s 0" "fd s1 1 = fd s 1" using q(3,4) Cons.prems(4) by (auto simp: without_def split: option.splits)
    have pr: "\<forall>n\<in>set ns. filters (cost n) (evaltree n) (F n) (St n)"
      "case Some q of None \<Rightarrow> True | Some p \<Rightarrow> p \<notin> {0, 1} \<and> fd s1 p \<noteq> None" using Cons.prems(2) q(3,4) by simp_all
    have "streams_ok ?b s1"
      by (rule streams_ok_next [OF Cons.prems(3) q(11,7,8,5,6) _ _ f]) (use q(9,10) in simp_all)
    from Cons.IH [OF False pr(1) this pr(2), of "St n"] obtain s' where
      s': "pipe_loop evaltree ns (Some q) (St n) s1 = (Inr (St (last ns)), s')" "sh_exitstatus s' = St (last ns)"
        "fd s' = without (Some q) (fd s1)" "names s' = names s1" "creatable s' = creatable s1" "osd_pipeseq s1 \<le> osd_pipeseq s'"
        "osd_pipeseq s' \<le> osd_pipeseq s1 + ?b" "stdout_buf s' = []" "io_ok s'"
        "wrote (the (fd s1 1)) (fold F ns (input_of (Some q) s1)) s1 s'"
      by blast
    obtain k1 where k1: "fd s 1 = Some k1" "io_ok s" "k1 < length (ofiles s)"
      using Cons.prems(3) by (auto simp: streams_ok_def io_ok_def)
    have "wrote (the (fd s 1)) (fold F (n # ns) (input_of prevfd s)) s s'"
      using wrote_after_keeps [OF q(11) _ k1(2,3)] s'(10) k1(1) f(2) q(12) by (simp add: input_of_def [of "Some q"])
    moreover have "fd s' = without prevfd (fd s)" using s'(3) q(2,4) by (auto simp: without_def [of "Some q"] fun_eq_iff)
    moreover have "pipe_loop evaltree (n # ns) prevfd status s = (Inr (St (last (n # ns))), s')" using False q(1) s'(1) by simp
    ultimately show ?thesis using s' q(5,6,9,10) False by simp
  qed
qed simp

lemma evalpipe_filters:
  assumes "ns \<noteq> []" and "\<forall>n\<in>set ns. filters (cost n) (evaltree n) (F n) (St n)"
  shows "filters (sum_list (map cost ns) + length ns) (evalpipe evaltree ns) (fold F ns) (St (last ns))"
  unfolding filters_def
proof (intro allI impI)
  fix s assume "ready (sum_list (map cost ns) + length ns) s"
  then have "streams_ok (sum_list (map cost ns) + length ns) s" by (simp add: ready_def)
  from pipe_loop_filters [OF assms this, of None] obtain s' where
    s': "pipe_loop evaltree ns None 0 s = (Inr (St (last ns)), s')" "sh_exitstatus s' = St (last ns)" "fd s' = fd s"
      "names s' = names s" "creatable s' = creatable s" "osd_pipeseq s \<le> osd_pipeseq s'"
      "osd_pipeseq s' \<le> osd_pipeseq s + (sum_list (map cost ns) + length ns)" "stdout_buf s' = []" "io_ok s'"
      "wrote (the (fd s 1)) (fold F ns (pending s 0)) s s'"
    by (auto simp: without_def input_of_def)
  have fl: "fflush_all s' = s'" using s'(8) by (simp add: fflush_all_def sys_write_def split: option.splits)
  show "\<exists>x s'. evalpipe evaltree ns s = (Inr x, s') \<and> sh_exitstatus s' = St (last ns) \<and>
      same_frame (sum_list (map cost ns) + length ns) s s' \<and> io_ok (fflush_all s') \<and>
      wrote (the (fd s 1)) (fold F ns (pending s 0)) s (fflush_all s')"
    unfolding evalpipe_def s'(1) using s' fl by (auto simp: same_frame_def)
qed

lemma evalpipe_runs:
  assumes "ns \<noteq> []" and "\<forall>n\<in>set ns. filters (cost n) (evaltree n) (F n) (St n)"
    and "ready (sum_list (map cost ns) + length ns) s" and "fd s 1 = Some k"
  shows "\<exists>s'. evalpipe evaltree ns s = (Inr (St (last ns)), s') \<and> fd s' = fd s \<and> names s' = names s \<and> stdout_buf s' = [] \<and>
    ofile_content s' k = ofile_content s k @ fold F ns (pending s 0) \<and>
    (\<forall>i<length (inodes s). i \<noteq> of_node (ofiles s ! k) \<longrightarrow> inodes s' ! i = inodes s ! i)"
proof -
  have "streams_ok (sum_list (map cost ns) + length ns) s" using assms(3) by (simp add: ready_def)
  from pipe_loop_filters [OF assms(1,2) this, of None 0] show ?thesis
    using assms(4) by (auto simp: evalpipe_def without_def input_of_def wrote_def keeps_def)
qed

lemma start_ready: "b < 1000 \<Longrightarrow> ready b start_sh"
  by (auto simp: ready_def streams_ok_def io_ok_def tmp_ok_def at_end_def start_sh_def fd_def ofile_content_def less_Suc_eq
      split: if_splits)

text \<open>C7: a pipeline of commands that map their input to their output prints what the composition of their
  functions makes of the pending input, behind what stands in the output; it returns the status of
  the last command, and it leaves every descriptor, every file name (so no temporary file) and every
  other file as they were.  The contract of the commands is the one of a pipeline, so it also holds
  for pipelines in pipelines.\<close>

theorem pipeline_composes:
  assumes "ns \<noteq> []" and "\<forall>n\<in>set ns. filters (cost n) (evaltree n) (F n) (St n)"
    and "ready (sum_list (map cost ns) + length ns) s" and "fd s 1 = Some k"
  shows "\<exists>s'. evalpipe evaltree ns s = (Inr (St (last ns)), s') \<and> fd s' = fd s \<and> names s' = names s \<and> stdout_buf s' = [] \<and>
    ofile_content s' k = ofile_content s k @ fold F ns (pending s 0) \<and>
    (\<forall>i<length (inodes s). i \<noteq> of_node (ofiles s ! k) \<longrightarrow> inodes s' ! i = inodes s ! i)"
  by (rule evalpipe_runs [OF assms])

theorem pipeline_composes_witness:
  "\<exists>s'. evalpipe (\<lambda>n. run_filter (if n = (0 :: nat) then rev else tl) (int n)) [0, 1, 1] start_sh = (Inr 1, s') \<and>
     fd s' = fd start_sh \<and> ofile_content s' 0 = ''typedpyt''"
proof -
  have c: "\<forall>n\<in>set [0, 1, 1]. filters 0 (run_filter (if n = (0 :: nat) then rev else tl) (int n)) (if n = 0 then rev else tl) (int n)"
    using run_filter_filters by blast
  have f: "fd start_sh 1 = Some 0" and e: "ofile_content start_sh 0 = ''typed''" "pending start_sh 0 = ''typed''" by code_simp+
  have r: "ready (sum_list (map (\<lambda>_. 0) [0, 1, 1 :: nat]) + length [0, 1, 1 :: nat]) start_sh" by (simp add: start_ready)
  show ?thesis using pipeline_composes [of "[0, 1, 1]" "\<lambda>_. 0", OF _ c r f] e by auto
qed

text \<open>
  An exception that passes through a pipeline leaves the descriptors redirected: when the second stage
  exits, standard input stays the temporary file, the saved descriptors stay open, and nothing is
  recorded that \<open>unwindredir\<close> could undo.
\<close>

lemma pipeline_exception_keeps_redirection:
  "let (r, s') = evalpipe (\<lambda>b. if b then run_filter id 0 else (\<lambda>s. (Inl EXEXIT, s))) [True, False] start_sh
   in r = Inl EXEXIT \<and> fd s' 0 \<noteq> fd start_sh 0 \<and> fd s' 0 \<noteq> None \<and> fd s' 10 = Some 0 \<and> redirlist s' = redirlist start_sh"
  by code_simp

section \<open>Command substitution captures the output\<close>

lemmas call_defs = fd_def set_fd_def free_from_def sys_dup2_def sys_dupfd_def sys_close_def new_ofile_def install_def sys_open_def sys_unlink_def
  ofile_content_def sys_write_def pending_def skip_to_end_def fflush_all_def move_fd_def
  eval_nredir_def redirectsafe_def pushredir_def openredirect_def opened_def redirect_to_def save_fd_on_redirect_def set_top_def
  add_squirrel_closed_def xdup_CLOEXEC_and_close_def internally_opened_fd_def popredir_def

text \<open>The state inside a substitution at the start of the shell, with the temporary file open.\<close>

definition captured_sh :: sh where
  "captured_sh = start_sh\<lparr>fdtab := [Some 0, Some 1, Some 0, Some 1, None, None, None, None, None, None, Some 0],
     ofiles := ofiles start_sh @ [new_ofile 1 RDWR_CREAT_TRUNC], inodes := [''typed'', []], names := [bq_tmp 0 \<mapsto> 1], bq_depth := 1\<rparr>"

lemma captured_start:
  "osd_evalbackcmd_inproc eval start_sh =
     (let r = eval (bq_enter captured_sh);
          s6 = move_fd (Some 10) 1 (fflush_all (bq_leave captured_sh ((snd r)\<lparr>osd_bq_status := bq_status r\<rparr>)));
          s7 = (case fd s6 3 of None \<Rightarrow> s6 | Some k \<Rightarrow> s6\<lparr>ofiles := (ofiles s6)[k := (ofiles s6 ! k)\<lparr>of_pos := 0\<rparr>]\<rparr>)
      in (Inr 3, (sys_unlink (bq_tmp 0) s7)\<lparr>bq_depth := bq_depth s7 - 1\<rparr>))"
proof -
  let ?s2 = "start_sh\<lparr>fdtab := [Some 0, Some 0, Some 0, None, None, None, None, None, None, None, Some 0]\<rparr>"
  let ?s3 = "start_sh\<lparr>fdtab := [Some 0, Some 0, Some 0, Some 1, None, None, None, None, None, None, Some 0],
     ofiles := ofiles start_sh @ [new_ofile 1 RDWR_CREAT_TRUNC], inodes := [''typed'', []], names := [bq_tmp 0 \<mapsto> 1]\<rparr>"
  have 1: "sys_dupfd 1 10 (fflush_all start_sh) = (Some 10, ?s2)"
    by (simp add: call_defs start_sh_def upt_rec numeral_eq_Suc)
  have 2: "sys_open (bq_tmp 0) RDWR_CREAT_TRUNC ?s2 = (Some 3, ?s3)"
    by (simp add: call_defs start_sh_def upt_rec numeral_eq_Suc)
  have 3: "snd (sys_dup2 3 1 (?s3\<lparr>bq_depth := 0 + 1\<rparr>)) = captured_sh"
    by (simp add: call_defs start_sh_def captured_sh_def upt_rec numeral_eq_Suc)
  have 4: "bq_depth start_sh = 0" "bq_depth ?s3 = 0" by (simp_all add: start_sh_def)
  show ?thesis unfolding osd_evalbackcmd_inproc_def 4(1) 1 Let_def prod.case 2 option.case 4(2) 3 ..
qed

definition exit_redirected :: "sh \<Rightarrow> (exn + int) \<times> sh" where
  "exit_redirected = eval_nredir (\<lambda>s. (Inl EXEXIT, s\<lparr>savestatus := 3\<rparr>)) [RedirFile NTO 2 ''a'']"

definition exited_sh :: sh where
  "exited_sh = start_sh\<lparr>fdtab := [Some 0, Some 1, Some 2, Some 1, None, None, None, None, None, None, Some 0, Some 0],
     ofiles := ofiles start_sh @ [new_ofile 1 RDWR_CREAT_TRUNC, new_ofile 2 WR_CREAT_TRUNC], inodes := [''typed'', [], []],
     names := [bq_tmp 0 \<mapsto> 1, ''a'' \<mapsto> 2], bq_depth := 1, redirlist := [[(2, Some 11)]], preverrout_fd := Some 11, savestatus := 3\<rparr>"

lemma exit_redirected_run: "exit_redirected (bq_enter captured_sh) = (Inl EXEXIT, exited_sh)"
proof -
  have t: "bq_tmp 0 = ''/tmp/.osdbq0''" by code_simp
  show ?thesis
    by (simp add: exit_redirected_def call_defs start_sh_def captured_sh_def exited_sh_def bq_enter_def t upt_rec numeral_eq_Suc Let_def)
qed

text \<open>
  The handler of a substitution does not unwind redirections: when a command exits while it has standard error
  redirected, as in \<open>$({ exit 3; } 2>a)\<close>, the shell goes on with the redirected descriptor.
\<close>

lemma substitution_exit_keeps_redirection:
  "let s' = snd (expbackq exit_redirected start_sh)
   in back_exitstatus s' = 3 \<and> fd start_sh 2 = Some 0 \<and> fd s' 2 = Some 2 \<and> redirlist s' = [[(2, Some 11)]]"
proof -
  define u where "u = move_fd (Some 10) 1 (fflush_all (bq_leave captured_sh (exited_sh\<lparr>osd_bq_status := bq_status (Inl EXEXIT, exited_sh)\<rparr>)))"
  have u: "fd u 2 = Some 2" "fd u 3 = Some 1" "redirlist u = [[(2, Some 11)]]" "osd_bq_status u = 3"
    by (simp_all add: u_def call_defs start_sh_def captured_sh_def exited_sh_def bq_leave_def bq_status_def numeral_eq_Suc)
  have "fd (sys_close 3 v) 2 = fd v 2" for v by (simp add: sys_close_def fd_set_fd_eq)
  moreover have "redirlist (skip_to_end 3 v) = redirlist v" "redirlist (sys_close 3 v) = redirlist v" "fd (skip_to_end 3 v) = fd v" for v
    by (auto simp: skip_to_end_def sys_close_def set_fd_def fun_eq_iff fd_def split: option.split)
  moreover have "fd start_sh 2 = Some 0" by code_simp
  ultimately show ?thesis using u
    by (simp only: expbackq_def captured_start exit_redirected_run u_def [symmetric] snd_conv Let_def)
      (simp add: sys_unlink_def)
qed

text \<open>
  What a command in a substitution is to do: print \<open>y\<close> and leave the descriptors and names alone; it may
  return, exit or raise an error, and change the state of the evaluator as it likes.
\<close>

definition emits :: "nat \<Rightarrow> (sh \<Rightarrow> (exn + int) \<times> sh) \<Rightarrow> bytes \<Rightarrow> int \<Rightarrow> bool" where
  "emits b eval y st \<longleftrightarrow> (\<forall>s. streams_ok b s \<longrightarrow>
     (case eval s of (r, s') \<Rightarrow> bq_status (r, s') = st \<and> same_frame b s s' \<and> bq_depth s' = bq_depth s \<and>
        io_ok (fflush_all s') \<and> wrote (the (fd s 1)) y s (fflush_all s')))"

lemma bq_fields [simp]:
  "fd (bq_enter s) = fd s" "ofiles (bq_enter s) = ofiles s" "inodes (bq_enter s) = inodes s" "names (bq_enter s) = names s"
  "creatable (bq_enter s) = creatable s" "stdout_buf (bq_enter s) = stdout_buf s" "osd_pipeseq (bq_enter s) = osd_pipeseq s"
  "bq_depth (bq_enter s) = bq_depth s"
  "fd (bq_leave sv s) = fd s" "ofiles (bq_leave sv s) = ofiles s" "inodes (bq_leave sv s) = inodes s" "names (bq_leave sv s) = names s"
  "creatable (bq_leave sv s) = creatable s" "stdout_buf (bq_leave sv s) = stdout_buf s" "osd_pipeseq (bq_leave sv s) = osd_pipeseq s"
  "bq_depth (bq_leave sv s) = bq_depth s" "osd_bq_status (bq_leave sv s) = osd_bq_status s"
  by (simp_all add: bq_enter_def bq_leave_def)

lemma bq_leave_eval: "same_eval sv (bq_leave sv s)"
  by (simp add: same_eval_def bq_leave_def)

lemma fflush_cong:
  assumes "fd s = fd t" and "ofiles s = ofiles t" and "inodes s = inodes t" and "stdout_buf s = stdout_buf t"
  shows "ofiles (fflush_all s) = ofiles (fflush_all t)" and "inodes (fflush_all s) = inodes (fflush_all t)"
  using assms by (auto simp: fflush_all_def sys_write_def ofile_content_def Let_def split: option.splits)

lemma fflush_eval [simp]: "bq_depth (fflush_all s) = bq_depth s" "osd_bq_status (fflush_all s) = osd_bq_status s" "same_eval x (fflush_all s) \<longleftrightarrow> same_eval x s"
  by (auto simp: fflush_all_def sys_write_def same_eval_def Let_def split: option.splits)

lemma move_fd_eval [simp]: "bq_depth (move_fd p n s) = bq_depth s" "osd_bq_status (move_fd p n s) = osd_bq_status s" "same_eval x (move_fd p n s) \<longleftrightarrow> same_eval x s"
  by (auto simp: move_fd_def sys_close_def sys_dup2_def same_eval_def split: option.splits)

lemma keeps_later:
  assumes "keeps {} s t" and "ofiles t' = (ofiles t)[k := f]" and "inodes t' = inodes t" and "length (ofiles s) \<le> k"
  shows "keeps {} s t'"
  using assms by (auto simp: keeps_def at_end_def ofile_content_def nth_list_update)

lemma of_node_rewind: "k < length fs \<Longrightarrow> of_node (fs[j := (fs ! j)\<lparr>of_pos := p\<rparr>] ! k) = of_node (fs ! k)"
  by (cases "k = j") simp_all

lemma same_eval_trans: "same_eval s t \<Longrightarrow> same_eval t u \<Longrightarrow> same_eval s u"
  by (simp add: same_eval_def)

lemma evalbackcmd_captures:
  assumes "emits b eval y st" and "streams_ok b s" and "names s (bq_tmp (bq_depth s)) = None" and "creatable s (bq_tmp (bq_depth s))"
  shows "\<exists>n k s'. osd_evalbackcmd_inproc eval s = (Inr n, s') \<and> fd s n = None \<and> fd s' = (fd s)(n \<mapsto> k) \<and> length (ofiles s) \<le> k \<and>
    pending s' n = y \<and> osd_bq_status s' = st \<and> bq_depth s' = bq_depth s \<and> names s' = names s \<and> same_eval s s' \<and> io_ok s' \<and> keeps {} s s'"
proof -
  let ?d = "bq_depth s" let ?T = "bq_tmp ?d" let ?i = "length (inodes s)" let ?K = "length (ofiles s)"
  obtain k0 k1 where k: "fd s 0 = Some k0" "fd s 1 = Some k1" and io: "io_ok s" and t: "tmp_ok b s" "stdout_buf s = []"
    using assms(2) by (auto simp: streams_ok_def)
  have fl: "fflush_all s = s" using t(2) by (simp add: fflush_all_def sys_write_def split: option.splits)
  let ?a = "free_from 10 s" let ?s2 = "set_fd ?a (Some k1) s"
  have a: "10 \<le> ?a" "fd s ?a = None" by (rule free_from_props)+
  have dup: "sys_dupfd 1 10 s = (Some ?a, ?s2)" by (rule sys_dupfd_Some [OF k(2)])
  have k1: "k1 < length (ofiles s)" using io k(2) by (simp add: io_ok_def)
  have "io_ok ?s2" by (rule io_ok_fd [OF io]) (use io k1 in \<open>auto simp: io_ok_def split: if_splits\<close>)
  then obtain n s3 where o: "sys_open ?T RDWR_CREAT_TRUNC ?s2 = (Some n, s3)" "fd ?s2 n = None" "fd s3 = (fd ?s2)(n \<mapsto> ?K)"
    "ofiles s3 = ofiles s @ [new_ofile ?i RDWR_CREAT_TRUNC]" "inodes s3 = inodes s @ [[]]" "names s3 = (names s)(?T \<mapsto> ?i)"
    "creatable s3 = creatable s" "stdout_buf s3 = []" "osd_pipeseq s3 = osd_pipeseq s" "io_ok s3" "bq_depth s3 = ?d" "same_eval ?s2 s3"
    using open_new [of RDWR_CREAT_TRUNC ?s2 ?T] assms(3,4) t(2) by auto
  have n: "fd s n = None" "n \<noteq> ?a" using o(2) by (auto split: if_splits)
  then have n01: "n \<noteq> 0" "n \<noteq> 1" using k by (rule_tac [!] notI) simp_all
  let ?s4 = "set_fd 1 (Some ?K) (s3\<lparr>bq_depth := ?d + 1\<rparr>)" let ?e = "bq_enter ?s4"
  have s4: "snd (sys_dup2 n 1 (s3\<lparr>bq_depth := bq_depth s3 + 1\<rparr>)) = ?s4" using o(3,11) by (simp add: sys_dup2_def)
  have fe: "fd ?e = (fd s)(?a \<mapsto> k1, n \<mapsto> ?K, 1 \<mapsto> ?K)" unfolding bq_fields(1) fd_set_fd_eq fd_fields o(3) ..
  have e: "ofiles ?e = ofiles s3" "inodes ?e = inodes s3" "names ?e = names s3" "creatable ?e = creatable s" "osd_pipeseq ?e = osd_pipeseq s"
    "stdout_buf ?e = []" "bq_depth ?e = ?d + 1" using o by simp_all
  have ioe: "io_ok ?e"
    by (rule io_ok_fd [OF o(10)]) (use o(4,10) in \<open>auto simp: io_ok_def split: if_splits\<close>)
  have "pipe_tmp j \<noteq> ?T" for j by (simp add: pipe_tmp_def bq_tmp_def)
  then have "tmp_ok b ?e" using t(1) unfolding tmp_ok_def e o(6) by auto
  moreover have "of_wr (ofiles ?e ! ?K)" "at_end ?e ?K" unfolding at_end_def ofile_content_def e o(4,5) by (simp_all add: new_ofile_def)
  ultimately have so: "streams_ok b ?e" using ioe e(6) k(1) n01 a(1) unfolding streams_ok_def fe by simp
  obtain r u where ev: "eval ?e = (r, u)" by (cases "eval ?e")
  have e1: "the (fd ?e 1) = ?K" unfolding fe by simp
  have u: "bq_status (r, u) = st" "same_frame b ?e u" "bq_depth u = ?d + 1" "io_ok (fflush_all u)" "wrote ?K y ?e (fflush_all u)"
    using assms(1) [unfolded emits_def, rule_format, OF so] e(7) unfolding ev e1 by simp_all
  let ?u = "u\<lparr>osd_bq_status := st\<rparr>" let ?s5 = "bq_leave ?s4 ?u" let ?s6 = "move_fd (Some ?a) 1 (fflush_all ?s5)"
  have f6: "fd ?s6 = (fd s)(n \<mapsto> ?K)"
  proof -
    have f5: "fd (fflush_all ?s5) = fd ?e" using u(2) by (simp add: same_frame_def)
    have "fd (fflush_all ?s5) ?a = Some k1" unfolding f5 fe using a(1) n(2) by simp
    from move_fd_fd [OF this, of 1] show ?thesis unfolding f5 fe using a k(2) n by (auto simp: fun_eq_iff)
  qed
  have files6: "ofiles ?s6 = ofiles (fflush_all u)" "inodes ?s6 = inodes (fflush_all u)"
    using fflush_cong [of ?s5 u] by simp_all
  have wK: "of_node (ofiles ?e ! ?K) = ?i" "of_rd (ofiles ?e ! ?K)" "?K < length (ofiles ?e)" "inodes ?e ! ?i = []"
    unfolding e o(4,5) by (simp_all add: new_ofile_def)
  have K6: "?K < length (ofiles ?s6)" "of_node (ofiles ?s6 ! ?K) = ?i" "of_rd (ofiles ?s6 ! ?K)" "inodes ?s6 ! ?i = y"
    using u(5) wK unfolding files6 wrote_def keeps_def ofile_content_def by auto
  let ?s7 = "?s6\<lparr>ofiles := (ofiles ?s6)[?K := (ofiles ?s6 ! ?K)\<lparr>of_pos := 0\<rparr>]\<rparr>"
  let ?w = "(sys_unlink ?T ?s7)\<lparr>bq_depth := bq_depth ?s7 - 1\<rparr>"
  have run: "osd_evalbackcmd_inproc eval s = (Inr n, ?w)"
    unfolding osd_evalbackcmd_inproc_def Let_def fl dup by (simp only: o(1) s4 ev u(1) f6 snd_conv prod.case option.case fun_upd_same)
  have "keeps {} s ?e" by (rule keeps_append [OF _ _ io]) (simp_all add: e o(4,5))
  then have "keeps {} s (fflush_all u)" by (rule keeps_trans [OF _ _ io]) (use u(5) wK(1) in \<open>auto simp: wrote_def\<close>)
  then have "keeps {} s ?s6" using files_cong(2) [of s s "fflush_all u" ?s6] files6 by simp
  then have "keeps {} s ?w" by (rule keeps_later [where k = ?K]) (simp_all add: sys_unlink_def)
  moreover have "names ?w = names s" using u(2) e(3) o(6) assms(3) by (auto simp: sys_unlink_def same_frame_def fun_eq_iff)
  moreover have "fd ?w = (fd s)(n \<mapsto> ?K)" using f6 by (simp add: sys_unlink_def)
  moreover from this have "pending ?w n = y" using K6 by (simp add: pending_def ofile_content_def sys_unlink_def)
  moreover have "bq_depth ?w = ?d" "osd_bq_status ?w = st" using u(3) by (simp_all add: sys_unlink_def)
  moreover have "same_eval s ?w"
  proof -
    have "same_eval s ?s4" using o(12) by (simp add: same_eval_def)
    moreover have "same_eval ?s4 ?s6" by (simp add: bq_leave_eval)
    then have "same_eval ?s4 ?w" by (simp add: same_eval_def sys_unlink_def)
    ultimately show ?thesis by (rule same_eval_trans)
  qed
  moreover have "io_ok ?w"
  proof -
    have "k \<le> ?K" if "fd ?w m = Some k" for m k
      using that io unfolding \<open>fd ?w = (fd s)(n \<mapsto> ?K)\<close> by (auto simp: io_ok_def less_imp_le split: if_splits)
    moreover have "?K < length (ofiles ?w)" using K6(1) by (simp add: sys_unlink_def)
    ultimately have "\<And>m k. fd ?w m = Some k \<Longrightarrow> k < length (ofiles ?w)" by (rule le_less_trans)
    moreover have "inodes ?w = inodes (fflush_all u)" using files6 by (simp add: sys_unlink_def)
    moreover have "of_node (ofiles ?w ! k) = of_node (ofiles (fflush_all u) ! k)" if "k < length (ofiles ?w)" for k
      using that files6 by (simp add: sys_unlink_def of_node_rewind)
    moreover have "length (ofiles ?w) = length (ofiles (fflush_all u))" using files6 by (simp add: sys_unlink_def)
    moreover have "i < length (inodes ?w)" if "names ?w p = Some i" for p i
    proof -
      have "i < length (inodes s)" using that io \<open>names ?w = names s\<close> by (auto simp: io_ok_def)
      then show ?thesis using \<open>keeps {} s ?w\<close> by (simp add: keeps_def)
    qed
    ultimately show ?thesis using u(4) unfolding io_ok_def by simp
  qed
  ultimately show ?thesis using run n(1) by (intro exI [of _ n] exI [of _ ?K] exI [of _ ?w]) simp
qed

text \<open>C9: the substitution of a command that only prints, and itself leaves descriptors, file names and the
  contents of files as it found them (\<open>emits\<close>), gives the output of the command without NUL bytes and trailing
  newlines, whether such a command returns, exits or raises an error; its status goes to \<open>back_exitstatus\<close>,
  while the status of the shell, a pending break or continue, the loop nesting and \<open>set -e\<close> are as before,
  and so are the descriptors, the file names and the contents of all files: nothing is left of the
  temporary file and of the saved descriptors.  Nothing is said of a command that exits while it has
  descriptors redirected.\<close>

theorem substitution_captures:
  assumes "emits b eval y st" and "streams_ok b s" and "names s (bq_tmp (bq_depth s)) = None" and "creatable s (bq_tmp (bq_depth s))"
  shows "\<exists>s'. expbackq eval s = (Inr (strip_newlines (filter (\<lambda>c. c \<noteq> NUL) y)), s') \<and> back_exitstatus s' = st \<and>
    same_eval s s' \<and> fd s' = fd s \<and> names s' = names s \<and> bq_depth s' = bq_depth s \<and>
    (\<forall>i<length (inodes s). inodes s' ! i = inodes s ! i)"
proof -
  obtain n k w where w: "osd_evalbackcmd_inproc eval s = (Inr n, w)" "fd s n = None" "fd w = (fd s)(n \<mapsto> k)" "length (ofiles s) \<le> k"
    "pending w n = y" "osd_bq_status w = st" "bq_depth w = bq_depth s" "names w = names s" "same_eval s w" "io_ok w" "keeps {} s w"
    using evalbackcmd_captures [OF assms] by blast
  let ?z = "(sys_close n (skip_to_end n w))\<lparr>back_exitstatus := osd_bq_status w\<rparr>"
  have sk: "fd (skip_to_end n w) = fd w" "inodes (skip_to_end n w) = inodes w" "names (skip_to_end n w) = names w"
    "bq_depth (skip_to_end n w) = bq_depth w" "same_eval s (skip_to_end n w)"
    using w(9) by (auto simp: skip_to_end_def same_eval_def split: option.splits)
  have "fd ?z = fd s" using w(2,3) sk(1) by (auto simp: sys_close_def fd_set_fd_eq)
  moreover have "same_eval s ?z" using sk(5) by (simp add: same_eval_def sys_close_def)
  moreover have "\<forall>i<length (inodes s). inodes ?z ! i = inodes s ! i" using w(11) sk(2) by (simp add: keeps_def sys_close_def)
  ultimately show ?thesis using w sk(3,4) by (simp add: expbackq_def sys_close_def)
qed

text \<open>\<open>printf y; exit n\<close>, with a break pending on top.\<close>

definition print_and_exit :: "bytes \<Rightarrow> int \<Rightarrow> sh \<Rightarrow> (exn + int) \<times> sh" where
  "print_and_exit y n s = (Inl EXEXIT, s\<lparr>stdout_buf := stdout_buf s @ y, savestatus := n, evalskip := 1\<rparr>)"

lemma print_and_exit_emits:
  assumes "0 \<le> n"
  shows "emits 0 (print_and_exit y n) y n"
  unfolding emits_def
proof (intro allI impI)
  fix s assume s: "streams_ok 0 s"
  then obtain k where k: "fd s 1 = Some k" "of_wr (ofiles s ! k)" "at_end s k" and io: "io_ok s" "stdout_buf s = []"
    by (auto simp: streams_ok_def)
  let ?u = "s\<lparr>stdout_buf := y, savestatus := n, evalskip := 1\<rparr>"
  have u: "io_ok ?u" "fd ?u 1 = Some k" "of_wr (ofiles ?u ! k)" "at_end ?u k"
    using io(1) k by (simp_all add: io_ok_def at_end_def ofile_content_def)
  note w = sys_write_wrote [OF u, of y]
  have fl: "fflush_all ?u = (sys_write 1 y ?u)\<lparr>stdout_buf := []\<rparr>" by (simp add: fflush_all_def)
  have "wrote k y s (fflush_all ?u)" using w(1) wrote_cong [of s ?u "fflush_all ?u" "sys_write 1 y ?u"] unfolding fl by simp
  moreover have "io_ok (fflush_all ?u)" using w(2) unfolding fl by (simp add: io_ok_def)
  moreover have "print_and_exit y n s = (Inl EXEXIT, ?u)" using io(2) by (simp add: print_and_exit_def)
  ultimately show "case print_and_exit y n s of (r, s') \<Rightarrow> bq_status (r, s') = n \<and> same_frame 0 s s' \<and> bq_depth s' = bq_depth s \<and>
      io_ok (fflush_all s') \<and> wrote (the (fd s 1)) y s (fflush_all s')"
    using assms k(1) by (simp add: bq_status_def same_frame_def)
qed

theorem substitution_captures_witness:
  "\<exists>s'. expbackq (print_and_exit (''ab'' @ [NL, NL]) 3) start_sh = (Inr ''ab'', s') \<and> back_exitstatus s' = 3 \<and>
     sh_exitstatus s' = 0 \<and> evalskip s' = 0 \<and> fd s' = fd start_sh"
proof -
  have s: "streams_ok 0 start_sh" using start_ready [of 0] by (simp add: ready_def)
  have f: "names start_sh (bq_tmp (bq_depth start_sh)) = None" "creatable start_sh (bq_tmp (bq_depth start_sh))"
    by (simp_all add: start_sh_def)
  have e: "emits 0 (print_and_exit (''ab'' @ [NL, NL]) 3) (''ab'' @ [NL, NL]) 3" by (rule print_and_exit_emits) simp
  have y: "strip_newlines (filter (\<lambda>c. c \<noteq> NUL) (''ab'' @ [NL, NL])) = ''ab''" by code_simp
  have i: "sh_exitstatus start_sh = 0" "evalskip start_sh = 0" by code_simp+
  show ?thesis using substitution_captures [OF e s f] unfolding y same_eval_def i by blast
qed

end
