(* ===== verification/Ash_Eval.thy ===== *)
theory Ash_Eval
  imports Ash_Pipe
begin

text \<open>
  The evaluator of the shell, \<open>shell/ash.c\<close>: \<open>evaltree\<close> with its loops, \<open>break\<close>, \<open>continue\<close>, \<open>return\<close> and
  \<open>exit\<close>, function calls and \<open>set -e\<close>.  Control leaves a construct by the flags \<open>evalskip\<close>, \<open>skipcount\<close> and
  \<open>loopnest\<close>, which every construct tests.  A structured semantics, where the way a command completes is
  a value, serves as the specification, and the evaluator is shown to implement it.

  Simple commands, the expansion of words, matching and the assignment of a for loop are parameters.
  Signals, traps and the line numbers are not modelled.  Every level of the tree and every round of a
  loop takes one unit of fuel.
\<close>

section \<open>Parse trees\<close>

datatype ('c, 'w) node =
    NCMD "('c, 'w) command"
  | NNOT "('c, 'w) node"
  | NREDIR "redir list" "('c, 'w) node"
  | NSEMI "('c, 'w) node" "('c, 'w) node"
  | NAND "('c, 'w) node" "('c, 'w) node"
  | NOR "('c, 'w) node" "('c, 'w) node"
  | NIF "('c, 'w) node" "('c, 'w) node" "('c, 'w) node option"
  | NWHILE "('c, 'w) node" "('c, 'w) node"
  | NUNTIL "('c, 'w) node" "('c, 'w) node"
  | NFOR cstr "'w list" "('c, 'w) node"
  | NCASE 'w "('w list \<times> ('c, 'w) node option) list"
  | NPIPE "('c, 'w) node list"
and ('c, 'w) command =
    Simple 'c
  | BreakCmd bool "cstr option"      \<comment> \<open>True for continue\<close>
  | ReturnCmd "cstr option"
  | ExitCmd "cstr option"
  | Function "('c, 'w) node"         \<comment> \<open>a call of a function with this body\<close>

record ('c, 'w) shell_ops =
  run :: "'c \<Rightarrow> sh \<Rightarrow> (exn + int) \<times> sh"
  expandarg :: "'w \<Rightarrow> sh \<Rightarrow> (exn + cstr list) \<times> sh"
  casematch :: "'w \<Rightarrow> cstr \<Rightarrow> sh \<Rightarrow> (exn + bool) \<times> sh"
  assign :: "cstr \<Rightarrow> cstr \<Rightarrow> sh \<Rightarrow> (exn + unit) \<times> sh"

abbreviation SKIPBREAK :: int where "SKIPBREAK \<equiv> 1"
abbreviation SKIPCONT :: int where "SKIPCONT \<equiv> 2"
abbreviation SKIPFUNC :: int where "SKIPFUNC \<equiv> 4"
abbreviation SKIPFUNCDEF :: int where "SKIPFUNCDEF \<equiv> 8"

text \<open>A result is an exception or a value, with the state; exceptions pass through.\<close>

definition bind :: "(exn + 'a) \<times> sh \<Rightarrow> ('a \<Rightarrow> sh \<Rightarrow> (exn + 'b) \<times> sh) \<Rightarrow> (exn + 'b) \<times> sh" where
  "bind r f = (case r of (Inl x, s) \<Rightarrow> (Inl x, s) | (Inr a, s) \<Rightarrow> f a s)"

definition setstatus :: "int \<Rightarrow> sh \<Rightarrow> sh" where
  "setstatus st s = s\<lparr>sh_exitstatus := st\<rparr>"

section \<open>Builtins\<close>

definition is_number :: "cstr \<Rightarrow> bool" where
  "is_number p \<longleftrightarrow> p \<noteq> [] \<and> list_all isdigit p"

definition raise_sh :: "sh \<Rightarrow> (exn + 'a) \<times> sh" where
  "raise_sh s = (Inl EXERROR, setstatus 2 s)"

definition number :: "cstr \<Rightarrow> sh \<Rightarrow> (exn + int) \<times> sh" where
  "number a s = (if is_number a then (Inr (atoi a), s) else raise_sh s)"

definition breakcmd :: "bool \<Rightarrow> cstr option \<Rightarrow> sh \<Rightarrow> (exn + int) \<times> sh" where
  "breakcmd is_continue arg s =
     bind (case arg of None \<Rightarrow> (Inr 1, s) | Some a \<Rightarrow> number a s) (\<lambda>n s1.
       if n \<le> 0 then raise_sh s1
       else let n' = (if n > loopnest s1 then loopnest s1 else n)
            in (Inr 0, if n' > 0 then s1\<lparr>evalskip := if is_continue then SKIPCONT else SKIPBREAK, skipcount := n'\<rparr> else s1))"

definition returncmd :: "cstr option \<Rightarrow> sh \<Rightarrow> (exn + int) \<times> sh" where
  "returncmd arg s =
     (case arg of
        Some a \<Rightarrow> bind (number a s) (\<lambda>n s1. (Inr n, s1\<lparr>evalskip := SKIPFUNC\<rparr>))
      | None \<Rightarrow> (Inr (sh_exitstatus s), s\<lparr>evalskip := SKIPFUNCDEF\<rparr>))"

definition exitcmd :: "cstr option \<Rightarrow> sh \<Rightarrow> (exn + int) \<times> sh" where
  "exitcmd arg s =
     (case arg of
        Some a \<Rightarrow> bind (number a s) (\<lambda>n s1. (Inl EXEXIT, s1\<lparr>savestatus := n\<rparr>))
      | None \<Rightarrow> (Inl EXEXIT, s))"

section \<open>The evaluator\<close>

definition skiploop :: "sh \<Rightarrow> int \<times> sh" where
  "skiploop s =
     (if evalskip s = SKIPBREAK \<or> evalskip s = SKIPCONT then
        (let s1 = s\<lparr>skipcount := skipcount s - 1\<rparr>
         in if skipcount s1 \<le> 0 then (evalskip s, s1\<lparr>evalskip := 0\<rparr>) else (SKIPBREAK, s1))
      else (evalskip s, s))"

text \<open>\<open>skip & ~SKIPCONT\<close> is not zero.\<close>

definition leaves_loop :: "int \<Rightarrow> bool" where
  "leaves_loop skip \<longleftrightarrow> skip \<noteq> 0 \<and> skip \<noteq> SKIPCONT"

text \<open>An evaluator: flag EV_TESTED, flag EV_EXIT, node.\<close>

type_synonym ('c, 'w) evaluator = "bool \<Rightarrow> bool \<Rightarrow> ('c, 'w) node \<Rightarrow> sh \<Rightarrow> (exn + int) \<times> sh"

fun evalloop :: "nat \<Rightarrow> ('c, 'w) evaluator \<Rightarrow> bool \<Rightarrow> bool \<Rightarrow> ('c, 'w) node \<Rightarrow> ('c, 'w) node \<Rightarrow> int \<Rightarrow> sh \<Rightarrow> (exn + int) \<times> sh" where
  "evalloop 0 ev tst until test body status s = (Inl OutOfFuel, s)"
| "evalloop (Suc k) ev tst until test body status s =
     bind (ev True False test s) (\<lambda>i s1.
       let (skip, s2) = skiploop s1; status1 = (if skip = SKIPFUNC then i else status)
       in if skip \<noteq> 0 then (if leaves_loop skip then (Inr status1, s2) else evalloop k ev tst until test body status1 s2)
          else if (if until then i = 0 else i \<noteq> 0) then (Inr status1, s2)
          else bind (ev tst False body s2) (\<lambda>st s3.
            let (skip', s4) = skiploop s3
            in if leaves_loop skip' then (Inr st, s4) else evalloop k ev tst until test body st s4))"

fun evalfor_loop :: "('c, 'w) evaluator \<Rightarrow> (cstr \<Rightarrow> cstr \<Rightarrow> sh \<Rightarrow> (exn + unit) \<times> sh) \<Rightarrow> bool \<Rightarrow> cstr \<Rightarrow> cstr list \<Rightarrow> ('c, 'w) node \<Rightarrow> int \<Rightarrow> sh
    \<Rightarrow> (exn + int) \<times> sh" where
  "evalfor_loop ev asg tst v [] body status s = (Inr status, s)"
| "evalfor_loop ev asg tst v (x # xs) body status s =
     bind (asg v x s) (\<lambda>_ s1. bind (ev tst False body s1) (\<lambda>st s2.
       let (skip, s3) = skiploop s2
       in if leaves_loop skip then (Inr st, s3) else evalfor_loop ev asg tst v xs body st s3))"

fun expand_all :: "('w \<Rightarrow> sh \<Rightarrow> (exn + cstr list) \<times> sh) \<Rightarrow> 'w list \<Rightarrow> sh \<Rightarrow> (exn + cstr list) \<times> sh" where
  "expand_all ex [] s = (Inr [], s)"
| "expand_all ex (w # ws) s = bind (ex w s) (\<lambda>xs s1. bind (expand_all ex ws s1) (\<lambda>ys s2. (Inr (xs @ ys), s2)))"

definition in_loop :: "(sh \<Rightarrow> (exn + int) \<times> sh) \<Rightarrow> sh \<Rightarrow> (exn + int) \<times> sh" where
  "in_loop f s = bind (f (s\<lparr>loopnest := loopnest s + 1\<rparr>)) (\<lambda>st s1. (Inr st, s1\<lparr>loopnest := loopnest s1 - 1\<rparr>))"

fun any_match :: "('w \<Rightarrow> cstr \<Rightarrow> sh \<Rightarrow> (exn + bool) \<times> sh) \<Rightarrow> 'w list \<Rightarrow> cstr \<Rightarrow> sh \<Rightarrow> (exn + bool) \<times> sh" where
  "any_match cm [] x s = (Inr False, s)"
| "any_match cm (p # ps) x s = bind (cm p x s) (\<lambda>b s1. if b then (Inr True, s1) else any_match cm ps x s1)"

fun find_case :: "('w \<Rightarrow> cstr \<Rightarrow> sh \<Rightarrow> (exn + bool) \<times> sh) \<Rightarrow> ('w list \<times> 'b option) list \<Rightarrow> cstr \<Rightarrow> sh
    \<Rightarrow> (exn + 'b option) \<times> sh" where
  "find_case cm [] x s = (Inr None, s)"
| "find_case cm ((ps, body) # cs) x s =
     (if evalskip s \<noteq> 0 then (Inr None, s)
      else bind (any_match cm ps x s) (\<lambda>b s1.
        if b then (Inr (if evalskip s1 = 0 then body else None), s1) else find_case cm cs x s1))"

definition evalcommand :: "('c, 'w) evaluator \<Rightarrow> ('c, 'w) shell_ops \<Rightarrow> bool \<Rightarrow> ('c, 'w) command \<Rightarrow> sh \<Rightarrow> (exn + int) \<times> sh" where
  "evalcommand ev ops tst c s =
     (case c of
        Simple x \<Rightarrow> run ops x s
      | BreakCmd cont a \<Rightarrow> breakcmd cont a s
      | ReturnCmd a \<Rightarrow> returncmd a s
      | ExitCmd a \<Rightarrow> exitcmd a s
      | Function body \<Rightarrow>
          (let (r, s1) = ev tst False body s
           in (case r of Inl x \<Rightarrow> Inl x | Inr _ \<Rightarrow> Inr (sh_exitstatus s1),
               if evalskip s1 \<in> {SKIPFUNC, SKIPFUNCDEF} then s1\<lparr>evalskip := 0\<rparr> else s1)))"

text \<open>The end of \<open>evaltree\<close>: \<open>set -e\<close> and EV_EXIT.\<close>

definition eval_end :: "bool \<Rightarrow> bool \<Rightarrow> int \<Rightarrow> sh \<Rightarrow> (exn + int) \<times> sh" where
  "eval_end checkexit exflag status s =
     (if checkexit \<and> status \<noteq> 0 \<and> eflag s \<or> exflag then (Inl EXEND, s) else (Inr (sh_exitstatus s), s))"

text \<open>The switch; the result is the local status with the state, whose exit status is set unless the \<open>break\<close> skips it.\<close>

definition eval_node :: "nat \<Rightarrow> ('c, 'w) evaluator \<Rightarrow> ('c, 'w) shell_ops \<Rightarrow> bool \<Rightarrow> bool \<Rightarrow> ('c, 'w) node \<Rightarrow> sh \<Rightarrow> (exn + int) \<times> sh" where
  "eval_node k ev ops tst exflag n s =
     (let set_it = (\<lambda>r. bind r (\<lambda>st s1. (Inr st, setstatus st s1)));
          binary = (\<lambda>tst1 stop a b.
            bind (ev tst1 False a s) (\<lambda>st s1.
              if stop st \<or> evalskip s1 \<noteq> 0 then (Inr st, s1) else set_it (ev tst exflag b s1)))
      in case n of
           NCMD c \<Rightarrow> set_it (evalcommand ev ops tst c s)
         | NNOT a \<Rightarrow> set_it (bind (ev True False a s) (\<lambda>st s1. (Inr (if st = 0 then 1 else 0), s1)))
         | NREDIR rs a \<Rightarrow> eval_nredir (ev tst False a) rs s
         | NSEMI a b \<Rightarrow> binary tst (\<lambda>_. False) a b
         | NAND a b \<Rightarrow> binary True (\<lambda>st. st \<noteq> 0) a b
         | NOR a b \<Rightarrow> binary True (\<lambda>st. st = 0) a b
         | NIF t a e \<Rightarrow>
             bind (ev True False t s) (\<lambda>st s1.
               if evalskip s1 \<noteq> 0 then (Inr st, s1)
               else if st = 0 then set_it (ev tst exflag a s1)
               else case e of Some b \<Rightarrow> set_it (ev tst exflag b s1) | None \<Rightarrow> (Inr 0, setstatus 0 s1))
         | NWHILE t b \<Rightarrow> set_it (in_loop (evalloop k ev tst False t b 0) s)
         | NUNTIL t b \<Rightarrow> set_it (in_loop (evalloop k ev tst True t b 0) s)
         | NFOR v ws b \<Rightarrow>
             set_it (bind (expand_all (expandarg ops) ws s) (\<lambda>xs s1. in_loop (evalfor_loop ev (assign ops) tst v xs b 0) s1))
         | NCASE w cs \<Rightarrow>
             set_it (bind (expandarg ops w s) (\<lambda>xs s1.
               bind (find_case (casematch ops) cs (concat xs) s1) (\<lambda>body s2.
                 case body of Some b \<Rightarrow> ev tst exflag b s2 | None \<Rightarrow> (Inr 0, s2))))
         | NPIPE ns \<Rightarrow> set_it (evalpipe (ev tst False) ns s))"

fun checks_exit :: "('c, 'w) node \<Rightarrow> bool" where
  "checks_exit (NCMD c) = True"
| "checks_exit (NPIPE ns) = True"
| "checks_exit _ = False"

primrec evaltree :: "nat \<Rightarrow> ('c, 'w) shell_ops \<Rightarrow> ('c, 'w) evaluator" where
  "evaltree 0 ops tst exflag n s = (Inl OutOfFuel, s)"
| "evaltree (Suc k) ops tst exflag n s =
     bind (eval_node k (evaltree k ops) ops tst exflag n s) (\<lambda>st s1. eval_end (checks_exit n \<and> \<not> tst) exflag st s1)"

section \<open>Structured semantics\<close>

text \<open>
  The specification: a command completes in one of four ways, and the way is a value.  No flag is kept
  in the state; the number of enclosing loops is an argument.
\<close>

datatype completion = Normal | Break int | Continue int | Return bool

text \<open>What a loop makes of the completion of its body: None asks for the next round.\<close>

fun peel :: "completion \<Rightarrow> completion option" where
  "peel Normal = None"
| "peel (Break n) = Some (if n \<le> 1 then Normal else Break (n - 1))"
| "peel (Continue n) = (if n \<le> 1 then None else Some (Continue (n - 1)))"
| "peel (Return b) = Some (Return b)"

type_synonym 'a res = "(exn + 'a) \<times> sh"
type_synonym ('c, 'w) meaning = "int \<Rightarrow> bool \<Rightarrow> ('c, 'w) node \<Rightarrow> sh \<Rightarrow> (completion \<times> int) res"

definition done_with :: "completion \<Rightarrow> int \<Rightarrow> sh \<Rightarrow> (completion \<times> int) res" where
  "done_with c st s = (Inr (c, st), setstatus st s)"

definition and_then :: "(completion \<times> int) res \<Rightarrow> (int \<Rightarrow> sh \<Rightarrow> (completion \<times> int) res) \<Rightarrow> (completion \<times> int) res" where
  "and_then r f = bind r (\<lambda>(c, st) s. if c = Normal then f st s else (Inr (c, st), s))"

definition sem_break :: "int \<Rightarrow> bool \<Rightarrow> cstr option \<Rightarrow> sh \<Rightarrow> (completion \<times> int) res" where
  "sem_break d cont arg s =
     bind (case arg of None \<Rightarrow> (Inr 1, s) | Some a \<Rightarrow> number a s) (\<lambda>n s1.
       if n \<le> 0 then raise_sh s1
       else (Inr (if d \<le> 0 then Normal else if cont then Continue (min n d) else Break (min n d), 0), s1))"

fun sem_return :: "cstr option \<Rightarrow> sh \<Rightarrow> (completion \<times> int) res" where
  "sem_return (Some a) s = bind (number a s) (\<lambda>n s1. (Inr (Return True, n), s1))"
| "sem_return None s = (Inr (Return False, sh_exitstatus s), s)"

fun sem_loop :: "nat \<Rightarrow> ('c, 'w) meaning \<Rightarrow> int \<Rightarrow> bool \<Rightarrow> bool \<Rightarrow> ('c, 'w) node \<Rightarrow> ('c, 'w) node \<Rightarrow> int \<Rightarrow> sh
    \<Rightarrow> (completion \<times> int) res" where
  "sem_loop 0 sm d tst until test body status s = (Inl OutOfFuel, s)"
| "sem_loop (Suc k) sm d tst until test body status s =
     bind (sm d True test s) (\<lambda>(c, i) s1.
       if c = Normal then
         (if (i = 0) = until then (Inr (Normal, status), s1)
          else bind (sm d tst body s1) (\<lambda>(c', st) s2.
            case peel c' of Some c'' \<Rightarrow> (Inr (c'', st), s2) | None \<Rightarrow> sem_loop k sm d tst until test body st s2))
       else (let status1 = (if c = Return True then i else status)
             in case peel c of Some c'' \<Rightarrow> (Inr (c'', status1), s1) | None \<Rightarrow> sem_loop k sm d tst until test body status1 s1))"

fun sem_for :: "('c, 'w) meaning \<Rightarrow> (cstr \<Rightarrow> cstr \<Rightarrow> sh \<Rightarrow> unit res) \<Rightarrow> int \<Rightarrow> bool \<Rightarrow> cstr \<Rightarrow> cstr list \<Rightarrow> ('c, 'w) node \<Rightarrow> int \<Rightarrow> sh
    \<Rightarrow> (completion \<times> int) res" where
  "sem_for sm asg d tst v [] body status s = (Inr (Normal, status), s)"
| "sem_for sm asg d tst v (x # xs) body status s =
     bind (asg v x s) (\<lambda>_ s1. bind (sm d tst body s1) (\<lambda>(c, st) s2.
       case peel c of Some c' \<Rightarrow> (Inr (c', st), s2) | None \<Rightarrow> sem_for sm asg d tst v xs body st s2))"

fun sem_case :: "('w \<Rightarrow> cstr \<Rightarrow> sh \<Rightarrow> bool res) \<Rightarrow> ('w list \<times> 'b option) list \<Rightarrow> cstr \<Rightarrow> sh \<Rightarrow> 'b option res" where
  "sem_case cm [] x s = (Inr None, s)"
| "sem_case cm ((ps, body) # cs) x s =
     bind (any_match cm ps x s) (\<lambda>b s1. if b then (Inr body, s1) else sem_case cm cs x s1)"

definition sem_command :: "('c, 'w) meaning \<Rightarrow> ('c, 'w) shell_ops \<Rightarrow> int \<Rightarrow> bool \<Rightarrow> ('c, 'w) command \<Rightarrow> sh \<Rightarrow> (completion \<times> int) res" where
  "sem_command sm ops d tst c s =
     (case c of
        Simple x \<Rightarrow> bind (run ops x s) (\<lambda>st s1. (Inr (Normal, st), s1))
      | BreakCmd cont a \<Rightarrow> sem_break d cont a s
      | ReturnCmd a \<Rightarrow> sem_return a s
      | ExitCmd a \<Rightarrow> bind (exitcmd a s) (\<lambda>st s1. (Inr (Normal, st), s1))
      | Function body \<Rightarrow>
          bind (sm d tst body s) (\<lambda>(c, st) s1. (Inr (case c of Return _ \<Rightarrow> Normal | _ \<Rightarrow> c, st), s1)))"

definition sem_node :: "nat \<Rightarrow> ('c, 'w) meaning \<Rightarrow> ('c, 'w) shell_ops \<Rightarrow> ('c, 'w) meaning" where
  "sem_node k sm ops d tst n s =
     (let settle = (\<lambda>r. bind r (\<lambda>(c, st) s1. done_with c st s1))
      in case n of
           NCMD c \<Rightarrow>
             bind (sem_command sm ops d tst c s) (\<lambda>(c', st) s1.
               if \<not> tst \<and> st \<noteq> 0 \<and> eflag s1 then (Inl EXEND, setstatus st s1) else done_with c' st s1)
         | NNOT a \<Rightarrow> bind (sm d True a s) (\<lambda>(c, st) s1. done_with c (if st = 0 then 1 else 0) s1)
         | NSEMI a b \<Rightarrow> and_then (sm d tst a s) (\<lambda>_ s1. sm d tst b s1)
         | NAND a b \<Rightarrow> and_then (sm d True a s) (\<lambda>st s1. if st \<noteq> 0 then done_with Normal st s1 else sm d tst b s1)
         | NOR a b \<Rightarrow> and_then (sm d True a s) (\<lambda>st s1. if st = 0 then done_with Normal st s1 else sm d tst b s1)
         | NIF t a e \<Rightarrow>
             and_then (sm d True t s) (\<lambda>st s1.
               if st = 0 then sm d tst a s1
               else case e of Some b \<Rightarrow> sm d tst b s1 | None \<Rightarrow> done_with Normal 0 s1)
         | NWHILE t b \<Rightarrow> settle (sem_loop k sm (d + 1) tst False t b 0 s)
         | NUNTIL t b \<Rightarrow> settle (sem_loop k sm (d + 1) tst True t b 0 s)
         | NFOR v ws b \<Rightarrow>
             settle (bind (expand_all (expandarg ops) ws s) (\<lambda>xs s1. sem_for sm (assign ops) (d + 1) tst v xs b 0 s1))
         | NCASE w cs \<Rightarrow>
             settle (bind (expandarg ops w s) (\<lambda>xs s1.
               bind (sem_case (casematch ops) cs (concat xs) s1) (\<lambda>body s2.
                 case body of Some b \<Rightarrow> sm d tst b s2 | None \<Rightarrow> (Inr (Normal, 0), s2))))
         | _ \<Rightarrow> (Inl OutOfFuel, s))"

primrec sem :: "nat \<Rightarrow> ('c, 'w) shell_ops \<Rightarrow> ('c, 'w) meaning" where
  "sem 0 ops d tst n s = (Inl OutOfFuel, s)"
| "sem (Suc k) ops d tst n s = sem_node k (sem k ops) ops d tst n s"

text \<open>Trees without redirections and pipelines of their own, which the semantics covers.\<close>

primrec plain :: "('c, 'w) node \<Rightarrow> bool" and plain_command :: "('c, 'w) command \<Rightarrow> bool" where
  "plain (NCMD c) = plain_command c"
| "plain (NNOT a) = plain a"
| "plain (NREDIR rs a) = False"
| "plain (NSEMI a b) = (plain a \<and> plain b)"
| "plain (NAND a b) = (plain a \<and> plain b)"
| "plain (NOR a b) = (plain a \<and> plain b)"
| "plain (NIF t a e) = (plain t \<and> plain a \<and> (case map_option plain e of None \<Rightarrow> True | Some p \<Rightarrow> p))"
| "plain (NWHILE t b) = (plain t \<and> plain b)"
| "plain (NUNTIL t b) = (plain t \<and> plain b)"
| "plain (NFOR v ws b) = plain b"
| "plain (NCASE w cs) = list_all (\<lambda>p. snd p \<noteq> Some False) (map (map_prod id (map_option plain)) cs)"
| "plain (NPIPE ns) = False"
| "plain_command (Simple x) = True"
| "plain_command (BreakCmd c a) = True"
| "plain_command (ReturnCmd a) = True"
| "plain_command (ExitCmd a) = True"
| "plain_command (Function b) = plain b"

section \<open>The evaluator implements the semantics\<close>

text \<open>The state with the control flags set.\<close>

definition with_skip :: "int \<Rightarrow> int \<Rightarrow> int \<Rightarrow> sh \<Rightarrow> sh" where
  "with_skip e k l s = s\<lparr>evalskip := e, skipcount := k, loopnest := l\<rparr>"

definition skip_free :: "(sh \<Rightarrow> 'a res) \<Rightarrow> bool" where
  "skip_free f \<longleftrightarrow> (\<forall>e k l s. f (with_skip e k l s) = apsnd (with_skip e k l) (f s))"

text \<open>Simple commands, expansion, matching and assignment leave the control flags alone.\<close>

definition control_free :: "('c, 'w) shell_ops \<Rightarrow> bool" where
  "control_free ops \<longleftrightarrow> (\<forall>c. skip_free (run ops c)) \<and> (\<forall>w. skip_free (expandarg ops w)) \<and>
     (\<forall>w x. skip_free (casematch ops w x)) \<and> (\<forall>v x. skip_free (assign ops v x))"

fun skip_code :: "completion \<Rightarrow> int" where
  "skip_code Normal = 0"
| "skip_code (Break n) = SKIPBREAK"
| "skip_code (Continue n) = SKIPCONT"
| "skip_code (Return b) = (if b then SKIPFUNC else SKIPFUNCDEF)"

fun skip_count :: "completion \<Rightarrow> int \<Rightarrow> bool" where
  "skip_count (Break n) k \<longleftrightarrow> k = n"
| "skip_count (Continue n) k \<longleftrightarrow> k = n"
| "skip_count _ k \<longleftrightarrow> True"

text \<open>What the flags say of a result of the semantics at the given nesting of loops.\<close>

definition outcome :: "int \<Rightarrow> (completion \<times> int) res \<Rightarrow> int res \<Rightarrow> bool" where
  "outcome d r r' \<longleftrightarrow>
     (case r of
        (Inl x, t) \<Rightarrow> \<exists>e k l. r' = (Inl x, with_skip e k l t)
      | (Inr (c, st), t) \<Rightarrow> \<exists>k. skip_count c k \<and> r' = (Inr st, with_skip (skip_code c) k d t))"

lemma with_skip_fields [simp]:
  "evalskip (with_skip e k l s) = e" "skipcount (with_skip e k l s) = k" "loopnest (with_skip e k l s) = l"
  "sh_exitstatus (with_skip e k l s) = sh_exitstatus s" "eflag (with_skip e k l s) = eflag s"
  by (simp_all add: with_skip_def)

lemma with_skip_upd [simp]:
  "with_skip e k l s\<lparr>evalskip := e'\<rparr> = with_skip e' k l s" "with_skip e k l s\<lparr>skipcount := k'\<rparr> = with_skip e k' l s"
  "with_skip e k l s\<lparr>loopnest := l'\<rparr> = with_skip e k l' s"
  "with_skip e k l s\<lparr>savestatus := n\<rparr> = with_skip e k l (s\<lparr>savestatus := n\<rparr>)"
  "with_skip e k l (with_skip e' k' l' s) = with_skip e k l s"
  "setstatus st (with_skip e k l s) = with_skip e k l (setstatus st s)"
  by (simp_all add: with_skip_def setstatus_def)

lemma with_skip_ex [simp, intro]:
  "\<exists>k'. with_skip e k l s = with_skip e k' l s" "\<exists>e' k' l'. with_skip e k l s = with_skip e' k' l' s"
  by blast+

lemma setstatus_same [simp]: "sh_exitstatus s = st \<Longrightarrow> setstatus st s = s"
  by (auto simp: setstatus_def)

lemma setstatus_field [simp]: "sh_exitstatus (setstatus st s) = st" "eflag (setstatus st s) = eflag s"
  by (simp_all add: setstatus_def)

lemma bind_simps [simp]:
  "bind (Inl x, s) f = (Inl x, s)" "bind (Inr a, s) f = f a s"
  by (simp_all add: bind_def)

lemma outcome_simps [simp]:
  "outcome d (Inl x, t) r' \<longleftrightarrow> (\<exists>e k l. r' = (Inl x, with_skip e k l t))"
  "outcome d (Inr (c, st), t) r' \<longleftrightarrow> (\<exists>k. skip_count c k \<and> r' = (Inr st, with_skip (skip_code c) k d t))"
  by (simp_all add: outcome_def)

lemma outcome_bind:
  assumes "outcome d r r'"
    and "\<And>c st t k. r = (Inr (c, st), t) \<Longrightarrow> skip_count c k \<Longrightarrow> outcome d' (f (c, st) t) (g st (with_skip (skip_code c) k d t))"
  shows "outcome d' (bind r f) (bind r' g)"
proof (cases r)
  case (Pair a t)
  then show ?thesis using assms by (cases a) auto
qed

lemma op_bind:
  assumes "skip_free f" and "\<And>a t. f s = (Inr a, t) \<Longrightarrow> outcome d (g a t) (h a (with_skip e k l t))"
  shows "outcome d (bind (f s) g) (bind (f (with_skip e k l s)) h)"
proof (cases "f s")
  case (Pair a t)
  then show ?thesis using assms by (cases a) (auto simp: skip_free_def)
qed

lemma skip_free_bind:
  assumes "skip_free f" and "\<And>a. skip_free (g a)"
  shows "skip_free (\<lambda>s. bind (f s) g)"
  unfolding skip_free_def
proof (intro allI)
  fix e k l s
  obtain a t where "f s = (a, t)" by fastforce
  then show "bind (f (with_skip e k l s)) g = apsnd (with_skip e k l) (bind (f s) g)"
    using assms by (cases a) (auto simp: skip_free_def)
qed

lemma skip_free_return [simp]: "skip_free (\<lambda>s. (r, s))" "skip_free (Pair r)"
  by (simp_all add: skip_free_def)

lemma skip_free_raise [simp]: "skip_free raise_sh"
  by (simp add: skip_free_def raise_sh_def)

lemma skip_free_number [simp]: "skip_free (number a)"
  by (simp add: skip_free_def number_def raise_sh_def)

lemma skip_free_expand_all:
  assumes "\<And>w. skip_free (ex w)"
  shows "skip_free (expand_all ex ws)"
proof (induction ws)
  case (Cons w ws)
  have "expand_all ex (w # ws) = (\<lambda>s. bind (ex w s) (\<lambda>xs s1. bind (expand_all ex ws s1) (\<lambda>ys s2. (Inr (xs @ ys), s2))))"
    by (rule ext) simp
  then show ?case using assms Cons by (auto intro!: skip_free_bind)
qed (simp add: skip_free_def)

lemma skip_free_any_match:
  assumes "\<And>w x. skip_free (cm w x)"
  shows "skip_free (any_match cm ps x)"
proof (induction ps)
  case (Cons p ps)
  have "any_match cm (p # ps) x = (\<lambda>s. bind (cm p x s) (\<lambda>b. if b then Pair (Inr True) else any_match cm ps x))"
    by (rule ext, simp, rule arg_cong [where f = "bind _"]) (auto simp: fun_eq_iff)
  then show ?case using assms Cons by (auto intro!: skip_free_bind)
qed (simp add: skip_free_def)

text \<open>The search of a case branch runs with \<open>evalskip\<close> zero, where its tests of the flag do nothing.\<close>

lemma find_case_sem:
  assumes "\<And>w x. skip_free (cm w x)"
  shows "find_case cm cs x (with_skip 0 k l s) = apsnd (with_skip 0 k l) (sem_case cm cs x s)"
proof (induction cs arbitrary: s)
  case (Cons c cs)
  obtain ps body where c: "c = (ps, body)" by fastforce
  obtain b t where m: "any_match cm ps x s = (b, t)" by fastforce
  have "any_match cm ps x (with_skip 0 k l s) = (b, with_skip 0 k l t)"
    using skip_free_any_match [of cm ps x] assms m by (simp add: skip_free_def)
  then show ?case using Cons m c by (cases b) auto
qed simp

text \<open>One level of the evaluator, with the levels below it assumed.\<close>

definition simulates :: "('c, 'w) meaning \<Rightarrow> ('c, 'w) evaluator \<Rightarrow> bool" where
  "simulates sm ev \<longleftrightarrow>
     (\<forall>d tst n s k. plain n \<longrightarrow> 0 \<le> d \<longrightarrow>
        outcome d (sm d tst n s) (ev tst False n (with_skip 0 k d s)) \<and>
        (\<forall>c st t. sm d tst n s = (Inr (c, st), t) \<longrightarrow> sh_exitstatus t = st))"

lemma simulatesD:
  assumes "simulates sm ev" "plain n" "0 \<le> d"
  shows "outcome d (sm d tst n s) (ev tst False n (with_skip 0 k d s))"
    and "sm d tst n s = (Inr (c, st), t) \<Longrightarrow> sh_exitstatus t = st"
  using assms by (auto simp: simulates_def)

text \<open>\<open>skiploop\<close> and \<open>peel\<close> agree.\<close>

lemma skiploop_peel:
  assumes "skip_count c k"
  obtains skip k' where "skiploop (with_skip (skip_code c) k d t) = (skip, with_skip (skip_code (case peel c of None \<Rightarrow> Normal | Some c' \<Rightarrow> c')) k' d t)"
    and "leaves_loop skip \<longleftrightarrow> peel c \<noteq> None" and "skip = 0 \<longleftrightarrow> c = Normal" and "skip = SKIPFUNC \<longleftrightarrow> c = Return True"
    and "\<And>c'. peel c = Some c' \<Longrightarrow> skip_count c' k'"
proof (cases c)
  case Normal
  then show ?thesis using that [of 0 k] by (simp add: skiploop_def leaves_loop_def)
next
  case (Break n)
  then show ?thesis using that [of SKIPBREAK "k - 1"] assms by (simp add: skiploop_def leaves_loop_def split: if_splits)
next
  case (Continue n)
  then show ?thesis using that [of "if k \<le> 1 then SKIPCONT else SKIPBREAK" "k - 1"] assms
    by (cases "n \<le> 1") (simp_all add: skiploop_def leaves_loop_def)
next
  case (Return b)
  then show ?thesis using that [of "skip_code c" k] by (simp add: skiploop_def leaves_loop_def)
qed

lemma round_sim:
  assumes "skip_count c k" and nxt: "\<And>k'. outcome d X (Y (with_skip 0 k' d t))"
  shows "outcome d (case peel c of Some c' \<Rightarrow> (Inr (c', st), t) | None \<Rightarrow> X)
      (let (skip, u) = skiploop (with_skip (skip_code c) k d t) in if leaves_loop skip then (Inr st, u) else Y u)"
proof -
  obtain skip k' where "skiploop (with_skip (skip_code c) k d t)
        = (skip, with_skip (skip_code (case peel c of None \<Rightarrow> Normal | Some c' \<Rightarrow> c')) k' d t)"
      and "leaves_loop skip \<longleftrightarrow> peel c \<noteq> None" and "\<And>c'. peel c = Some c' \<Longrightarrow> skip_count c' k'"
    using skiploop_peel [OF assms(1)] by metis
  then show ?thesis using nxt by (cases "peel c") auto
qed

lemma evalfor_sim:
  assumes sim: "simulates sm ev" and p: "plain body" and d: "0 \<le> d" and a: "\<And>v x. skip_free (asg v x)"
  shows "outcome d (sem_for sm asg d tst v xs body status s) (evalfor_loop ev asg tst v xs body status (with_skip 0 k d s))"
proof (induction xs arbitrary: status s k)
  case (Cons x xs)
  show ?case unfolding sem_for.simps evalfor_loop.simps
    by (rule op_bind [OF a], rule outcome_bind [OF simulatesD(1) [OF sim p d]])
       (use round_sim Cons.IH in fastforce)
qed simp

text \<open>The test of a loop: with a completion other than Normal the \<open>continue\<close> of the source goes to the loop condition.\<close>

lemma test_round:
  assumes "skip_count c k" "c \<noteq> Normal"
  shows "(let (skip, u) = skiploop (with_skip (skip_code c) k d t); status1 = (if skip = SKIPFUNC then i else status)
          in if skip \<noteq> 0 then (if leaves_loop skip then (Inr status1, u) else Y status1 u) else Z status1 u)
       = (let (skip, u) = skiploop (with_skip (skip_code c) k d t); status1 = (if c = Return True then i else status)
          in if leaves_loop skip then (Inr status1, u) else Y status1 u)"
proof -
  obtain skip u where "skiploop (with_skip (skip_code c) k d t) = (skip, u)"
      and "skip = 0 \<longleftrightarrow> c = Normal" and "skip = SKIPFUNC \<longleftrightarrow> c = Return True"
    using skiploop_peel [OF assms(1)] by metis
  then show ?thesis using assms(2) by simp
qed

lemma evalloop_sim:
  assumes sim: "simulates sm ev" and p: "plain test" "plain body" and d: "0 \<le> d"
  shows "outcome d (sem_loop j sm d tst until test body status s) (evalloop j ev tst until test body status (with_skip 0 k d s))"
proof (induction j arbitrary: status s k)
  case (Suc j)
  show ?case unfolding sem_loop.simps evalloop.simps
  proof (rule outcome_bind [OF simulatesD(1) [OF sim p(1) d]], goal_cases)
    case (1 c i t k1)
    show ?case
    proof (cases "c = Normal")
      case True
      have "outcome d (bind (sm d tst body t) (\<lambda>(c', st) s2. case peel c' of Some c'' \<Rightarrow> (Inr (c'', st), s2) | None \<Rightarrow> sem_loop j sm d tst until test body st s2))
          (bind (ev tst False body (with_skip 0 k1 d t)) (\<lambda>st s3. let (skip', s4) = skiploop s3
            in if leaves_loop skip' then (Inr st, s4) else evalloop j ev tst until test body st s4))"
        by (rule outcome_bind [OF simulatesD(1) [OF sim p(2) d]]) (use round_sim Suc.IH in fastforce)
      then show ?thesis using True by (auto simp: skiploop_def)
    next
      case False
      show ?thesis unfolding test_round [OF 1(2) False]
        using False round_sim [OF 1(2), of d _ "evalloop j ev tst until test body (if c = Return True then i else status)"] Suc.IH
        by (simp add: Let_def)
    qed
  qed
qed simp

lemma outcome_in_loop:
  assumes "\<And>k. outcome (d + 1) r (f (with_skip 0 k (d + 1) s))"
  shows "outcome d r (in_loop f (with_skip 0 k d s))"
proof (cases r)
  case (Pair a t)
  then show ?thesis using assms [of k] by (cases a) (fastforce simp: in_loop_def)+
qed

text \<open>Each node.\<close>

lemma breakcmd_sim:
  assumes "0 \<le> d"
  shows "outcome d (sem_break d cont arg s) (breakcmd cont arg (with_skip 0 k d s))"
proof -
  have r: "outcome d (if n \<le> 0 then raise_sh t else (Inr (if d \<le> 0 then Normal else if cont then Continue (min n d) else Break (min n d), 0), t))
     (if n \<le> 0 then raise_sh (with_skip 0 k d t)
       else let n' = (if n > loopnest (with_skip 0 k d t) then loopnest (with_skip 0 k d t) else n)
            in (Inr 0, if n' > 0 then with_skip 0 k d t\<lparr>evalskip := if cont then SKIPCONT else SKIPBREAK, skipcount := n'\<rparr> else with_skip 0 k d t))"
    for n t using assms by (auto simp: raise_sh_def Let_def min_def)
  show ?thesis
  proof (cases arg)
    case None
    then show ?thesis using r [of 1 s] by (simp add: sem_break_def breakcmd_def)
  next
    case (Some a)
    then show ?thesis unfolding sem_break_def breakcmd_def
      by (simp only: option.case) (rule op_bind [OF skip_free_number], rule r)
  qed
qed

lemma returncmd_sim: "outcome d (sem_return arg s) (returncmd arg (with_skip 0 k d s))"
proof (cases arg)
  case (Some a)
  then show ?thesis unfolding returncmd_def by (simp only: sem_return.simps option.case) (rule op_bind; simp)
qed (simp add: returncmd_def)

lemma exitcmd_sim: "outcome d (bind (exitcmd arg s) (\<lambda>st s1. (Inr (Normal, st), s1))) (exitcmd arg (with_skip 0 k d s))"
  by (cases arg) (auto simp: exitcmd_def number_def raise_sh_def)

lemma bind_return [simp]: "bind r (\<lambda>a s. (Inr a, s)) = r"
  by (auto simp: bind_def split: prod.splits sum.splits)

lemma function_sim:
  assumes "outcome d r r'" and "\<And>c st t. r = (Inr (c, st), t) \<Longrightarrow> sh_exitstatus t = st"
  shows "outcome d (bind r (\<lambda>(c, st) s1. (Inr (case c of Return _ \<Rightarrow> Normal | _ \<Rightarrow> c, st), s1)))
      (let (x, s1) = r' in (case x of Inl e \<Rightarrow> Inl e | Inr _ \<Rightarrow> Inr (sh_exitstatus s1),
               if evalskip s1 \<in> {SKIPFUNC, SKIPFUNCDEF} then s1\<lparr>evalskip := 0\<rparr> else s1))"
proof (cases r)
  case (Pair a t)
  show ?thesis
  proof (cases a)
    case (Inr p)
    obtain c st where "p = (c, st)" by fastforce
    then show ?thesis using assms Pair Inr by (cases c) auto
  qed (use assms Pair in auto)
qed

lemma evalcommand_sim:
  assumes sim: "simulates sm ev" and ops: "control_free ops" and p: "plain_command c" and d: "0 \<le> d"
  shows "outcome d (sem_command sm ops d tst c s) (evalcommand ev ops tst c (with_skip 0 k d s))"
proof (cases c)
  case (Simple x)
  have "outcome d (bind (run ops x s) (\<lambda>st s1. (Inr (Normal, st), s1))) (bind (run ops x (with_skip 0 k d s)) (\<lambda>a s. (Inr a, s)))"
    using ops by (intro op_bind) (auto simp: control_free_def)
  then show ?thesis by (simp add: Simple sem_command_def evalcommand_def)
next
  case (Function body)
  then have "plain body" using p by simp
  from function_sim [OF simulatesD [OF sim this d]] show ?thesis by (simp add: Function sem_command_def evalcommand_def)
qed (simp_all add: sem_command_def evalcommand_def breakcmd_sim [OF d] returncmd_sim exitcmd_sim)

text \<open>The parts of the switch: the status is stored again where the source jumps to \<open>setstatus\<close>.\<close>

abbreviation "store_status r \<equiv> bind r (\<lambda>st s. (Inr st, setstatus st s))"
abbreviation "settle r \<equiv> bind r (\<lambda>(c, st) s. done_with c st s)"

lemma settle_sim: "outcome d r r' \<Longrightarrow> outcome d (settle r) (store_status r')"
  by (rule outcome_bind) (auto simp: done_with_def)

definition settled :: "(completion \<times> int) res \<Rightarrow> bool" where
  "settled r \<longleftrightarrow> (\<forall>c st t. r = (Inr (c, st), t) \<longrightarrow> sh_exitstatus t = st)"

lemma settled_same: "settled r \<Longrightarrow> settle r = r"
  by (auto simp: settled_def done_with_def bind_def split: prod.splits sum.splits)

lemma settled_settle [simp]: "settled (settle r)" "settled (done_with c st s)"
  by (auto simp: settled_def done_with_def bind_def split: prod.splits sum.splits)

lemma settled_and_then: "settled r \<Longrightarrow> (\<And>st s. settled (f st s)) \<Longrightarrow> settled (and_then r f)"
  by (auto simp: settled_def and_then_def bind_def split: prod.splits sum.splits if_splits)

lemma settled_bind: "(\<And>a s. settled (f a s)) \<Longrightarrow> settled (bind r f)"
  by (auto simp: settled_def bind_def split: prod.splits sum.splits)

lemma settled_sim:
  assumes "outcome d r r'" "settled r"
  shows "outcome d r (store_status r')"
  using settle_sim [OF assms(1)] settled_same [OF assms(2)] by simp

lemma and_then_sim:
  assumes "outcome d r r'" and "settled r"
    and "\<And>st t k. sh_exitstatus t = st \<Longrightarrow> outcome d (f st t) (g st (with_skip 0 k d t))"
  shows "outcome d (and_then r f) (bind r' (\<lambda>st s1. if evalskip s1 \<noteq> 0 then (Inr st, s1) else g st s1))"
  unfolding and_then_def
proof (rule outcome_bind [OF assms(1)])
  fix c st t k
  assume r: "r = (Inr (c, st), t)" and k: "skip_count c k"
  show "outcome d ((case (c, st) of (c, st) \<Rightarrow> \<lambda>s. if c = Normal then f st s else (Inr (c, st), s)) t)
          (if evalskip (with_skip (skip_code c) k d t) \<noteq> 0 then (Inr st, with_skip (skip_code c) k d t) else g st (with_skip (skip_code c) k d t))"
    using r k assms(2,3) by (cases c) (auto simp: settled_def)
qed

lemma simulates_settled: "simulates sm ev \<Longrightarrow> plain n \<Longrightarrow> 0 \<le> d \<Longrightarrow> settled (sm d tst n s)"
  by (auto simp: simulates_def settled_def)

lemma branch_sim:
  assumes "simulates sm ev" "plain n" "0 \<le> d"
  shows "outcome d (sm d tst n s) (store_status (ev tst False n (with_skip 0 k d s)))"
  using assms by (intro settled_sim simulatesD simulates_settled)

lemma if_or: "(if P \<or> Q then a else b) = (if Q then a else if P then a else b)"
  by simp

lemma binary_sim:
  assumes "simulates sm ev" "plain a" "plain b" "0 \<le> d"
  shows "outcome d (and_then (sm d tst1 a s) (\<lambda>st s1. if stop st then done_with Normal st s1 else sm d tst b s1))
     (bind (ev tst1 False a (with_skip 0 k d s)) (\<lambda>st s1.
        if stop st \<or> evalskip s1 \<noteq> 0 then (Inr st, s1) else store_status (ev tst False b s1)))"
  unfolding if_or
proof (rule and_then_sim [OF simulatesD(1) [OF assms(1,2,4)] simulates_settled [OF assms(1,2,4)]])
  fix st k and t :: sh
  assume "sh_exitstatus t = st"
  then show "outcome d (if stop st then done_with Normal st t else sm d tst b t)
      (if stop st then (Inr st, with_skip 0 k d t) else store_status (ev tst False b (with_skip 0 k d t)))"
    using branch_sim [OF assms(1,3,4)] by (auto simp: done_with_def)
qed

lemma case_sim:
  assumes sim: "simulates sm ev" and ops: "control_free ops" and p: "plain (NCASE w cs)" and d: "0 \<le> d"
  shows "outcome d
      (bind (expandarg ops w s) (\<lambda>xs s1. bind (sem_case (casematch ops) cs (concat xs) s1) (\<lambda>body s2.
         case body of Some b \<Rightarrow> sm d tst b s2 | None \<Rightarrow> (Inr (Normal, 0), s2))))
      (bind (expandarg ops w (with_skip 0 k d s)) (\<lambda>xs s1. bind (find_case (casematch ops) cs (concat xs) s1) (\<lambda>body s2.
         case body of Some b \<Rightarrow> ev tst False b s2 | None \<Rightarrow> (Inr 0, s2))))"
proof (rule op_bind)
  fix xs t
  obtain r u where r: "sem_case (casematch ops) cs (concat xs) t = (r, u)" by fastforce
  have f: "find_case (casematch ops) cs (concat xs) (with_skip 0 k d t) = (r, with_skip 0 k d u)"
    using find_case_sem [of "casematch ops" cs "concat xs"] ops r by (simp add: control_free_def)
  have member: "\<exists>ps. (ps, Some b) \<in> set cs" if "sem_case cm cs x t = (Inr (Some b), u)" for cm x t u b
    using that by (induction cs arbitrary: t) (auto simp: bind_def split: prod.splits sum.splits if_splits, blast+)
  show "outcome d
      (bind (sem_case (casematch ops) cs (concat xs) t) (\<lambda>body s2. case body of None \<Rightarrow> (Inr (Normal, 0), s2) | Some b \<Rightarrow> sm d tst b s2))
      (bind (find_case (casematch ops) cs (concat xs) (with_skip 0 k d t)) (\<lambda>body s2. case body of None \<Rightarrow> (Inr 0, s2) | Some b \<Rightarrow> ev tst False b s2))"
  proof (cases r)
    case (Inr body)
    have "plain b" if "body = Some b" for b
      using member [of "casematch ops"] r p that Inr by (fastforce simp: list_all_iff)
    then show ?thesis using f r simulatesD(1) [OF sim _ d] Inr by (cases body) auto
  qed (use f r in auto)
qed (use ops in \<open>auto simp: control_free_def\<close>)

lemma for_sim:
  assumes sim: "simulates sm ev" and ops: "control_free ops" and p: "plain b" and d: "0 \<le> d"
  shows "outcome d
      (bind (expand_all (expandarg ops) ws s) (\<lambda>xs s1. sem_for sm (assign ops) (d + 1) tst v xs b 0 s1))
      (bind (expand_all (expandarg ops) ws (with_skip 0 k d s)) (\<lambda>xs s1. in_loop (evalfor_loop ev (assign ops) tst v xs b 0) s1))"
proof (rule op_bind)
  show "skip_free (expand_all (expandarg ops) ws)"
    using ops by (intro skip_free_expand_all) (auto simp: control_free_def)
next
  fix xs t
  show "outcome d (sem_for sm (assign ops) (d + 1) tst v xs b 0 t) (in_loop (evalfor_loop ev (assign ops) tst v xs b 0) (with_skip 0 k d t))"
    using ops d p by (intro outcome_in_loop evalfor_sim [OF sim]) (auto simp: control_free_def)
qed

lemma not_sim:
  assumes "outcome d r r'"
  shows "outcome d (bind r (\<lambda>(c, st) s1. done_with c (if st = 0 then 1 else 0) s1))
      (store_status (bind r' (\<lambda>st s1. (Inr (if st = 0 then 1 else 0), s1))))"
proof -
  have "outcome d (bind r (\<lambda>(c, st) s. (Inr (c, if st = 0 then 1 else 0), s))) (bind r' (\<lambda>st s1. (Inr (if st = 0 then 1 else 0), s1)))"
    by (rule outcome_bind [OF assms]) auto
  from settle_sim [OF this] show ?thesis
    by (rule back_subst [where P = "\<lambda>x. outcome d x _"]) (auto simp: bind_def split: prod.splits sum.splits)
qed

lemma if_sim:
  assumes sim: "simulates sm ev" and p: "plain t" "plain a" "\<And>b. e = Some b \<Longrightarrow> plain b" and d: "0 \<le> d"
  shows "outcome d
     (and_then (sm d True t s) (\<lambda>st s1. if st = 0 then sm d tst a s1 else case e of Some b \<Rightarrow> sm d tst b s1 | None \<Rightarrow> done_with Normal 0 s1))
     (bind (ev True False t (with_skip 0 k d s)) (\<lambda>st s1. if evalskip s1 \<noteq> 0 then (Inr st, s1)
        else if st = 0 then store_status (ev tst False a s1)
        else case e of Some b \<Rightarrow> store_status (ev tst False b s1) | None \<Rightarrow> (Inr 0, setstatus 0 s1)))"
proof (rule and_then_sim [OF simulatesD(1) [OF sim p(1) d] simulates_settled [OF sim p(1) d]])
  fix st k and u :: sh
  show "outcome d (if st = 0 then sm d tst a u else case e of Some b \<Rightarrow> sm d tst b u | None \<Rightarrow> done_with Normal 0 u)
     (if st = 0 then store_status (ev tst False a (with_skip 0 k d u))
        else case e of Some b \<Rightarrow> store_status (ev tst False b (with_skip 0 k d u)) | None \<Rightarrow> (Inr 0, setstatus 0 (with_skip 0 k d u)))"
    using branch_sim [OF sim _ d] p(2,3) by (auto simp: done_with_def split: option.splits)
qed

lemma node_sim:
  assumes sim: "simulates sm ev" and ops: "control_free ops" and p: "plain n" and d: "0 \<le> d" and c: "\<not> checks_exit n"
  shows "outcome d (sem_node j sm ops d tst n s) (eval_node j ev ops tst False n (with_skip 0 k d s))"
    and "settled (sem_node j sm ops d tst n s)"
proof -
  note one = simulatesD(1) [OF sim _ d] and set1 = simulates_settled [OF sim _ d]
  have "outcome d (sem_node j sm ops d tst n s) (eval_node j ev ops tst False n (with_skip 0 k d s)) \<and> settled (sem_node j sm ops d tst n s)"
  proof (cases n)
    case (NNOT a)
    then show ?thesis using not_sim [OF one] p by (auto simp: sem_node_def eval_node_def intro!: settled_bind)
  next
    case (NSEMI a b)
    then show ?thesis using binary_sim [OF sim, of a b d tst s "\<lambda>_. False"] p d
      by (auto simp: sem_node_def eval_node_def intro!: settled_and_then set1)
  next
    case (NAND a b)
    then show ?thesis using binary_sim [OF sim, of a b d True s "\<lambda>st. st \<noteq> 0"] p d
      by (auto simp: sem_node_def eval_node_def intro!: settled_and_then set1)
  next
    case (NOR a b)
    then show ?thesis using binary_sim [OF sim, of a b d True s "\<lambda>st. st = 0"] p d
      by (auto simp: sem_node_def eval_node_def intro!: settled_and_then set1)
  next
    case (NIF t a e)
    then show ?thesis using if_sim [OF sim, of t a e d] p d
      by (auto simp: sem_node_def eval_node_def intro!: settled_and_then set1 split: option.splits)
  next
    case (NUNTIL t b)
    then show ?thesis using p d evalloop_sim [OF sim, of t b "d + 1"]
      by (auto simp: sem_node_def eval_node_def intro!: settle_sim outcome_in_loop)
  next
    case (NFOR v ws b)
    then show ?thesis using settle_sim [OF for_sim [OF sim ops _ d, of b]] p by (simp add: sem_node_def eval_node_def)
  next
    case (NWHILE t b)
    then show ?thesis using p d evalloop_sim [OF sim, of t b "d + 1"]
      by (auto simp: sem_node_def eval_node_def intro!: settle_sim outcome_in_loop)
  next
    case (NCASE w cs)
    then show ?thesis using settle_sim [OF case_sim [OF sim ops _ d, of w cs]] p by (simp add: sem_node_def eval_node_def)
  qed (use c p in auto)
  then show "outcome d (sem_node j sm ops d tst n s) (eval_node j ev ops tst False n (with_skip 0 k d s))"
    and "settled (sem_node j sm ops d tst n s)" by blast+
qed

lemma command_sim:
  assumes sim: "simulates sm ev" and ops: "control_free ops" and p: "plain_command c" and d: "0 \<le> d"
  shows "outcome d (sem_node j sm ops d tst (NCMD c) s)
      (bind (eval_node j ev ops tst False (NCMD c) (with_skip 0 k d s)) (\<lambda>st s1. eval_end (\<not> tst) False st s1))"
    and "settled (sem_node j sm ops d tst (NCMD c) s)"
proof -
  obtain r t where "sem_command sm ops d tst c s = (r, t)" by fastforce
  then show "outcome d (sem_node j sm ops d tst (NCMD c) s)
      (bind (eval_node j ev ops tst False (NCMD c) (with_skip 0 k d s)) (\<lambda>st s1. eval_end (\<not> tst) False st s1))"
    using evalcommand_sim [OF sim ops p d, of tst s k]
    by (cases r) (fastforce simp: sem_node_def eval_node_def eval_end_def done_with_def)+
  show "settled (sem_node j sm ops d tst (NCMD c) s)"
    by (auto simp: sem_node_def settled_def done_with_def bind_def split: prod.splits sum.splits if_splits)
qed

lemma end_sim:
  assumes "outcome d r r'" "settled r"
  shows "outcome d r (bind r' (\<lambda>st s1. eval_end False False st s1))"
proof (cases r)
  case (Pair a t)
  then show ?thesis using assms by (cases a) (fastforce simp: eval_end_def settled_def)+
qed

lemma level_sim:
  assumes "simulates sm ev" "control_free ops" "plain n" "0 \<le> d"
  shows "outcome d (sem_node j sm ops d tst n s)
      (bind (eval_node j ev ops tst False n (with_skip 0 k d s)) (\<lambda>st s1. eval_end (checks_exit n \<and> \<not> tst) False st s1))
    \<and> settled (sem_node j sm ops d tst n s)"
proof (cases "checks_exit n")
  case True
  then obtain c where "n = NCMD c" using assms(3) by (cases n) auto
  then show ?thesis using command_sim [OF assms(1,2) _ assms(4), of c] assms(3) by simp
next
  case False
  then show ?thesis using end_sim node_sim [OF assms False] by simp
qed

lemma evaltree_simulates:
  assumes "control_free ops"
  shows "simulates (sem fuel ops) (evaltree fuel ops)"
proof (induction fuel)
  case 0
  show ?case by (auto simp: simulates_def)
next
  case (Suc fuel)
  show ?case using level_sim [OF Suc assms] by (simp add: simulates_def settled_def)
qed

text \<open>C6: the evaluator implements the structured semantics.  For every tree of commands, lists, conditionals,
  loops, case and function calls, \<open>evaltree\<close> gives the status, the exception and the state of the
  specification, whose loops peel the counts of \<open>break\<close> and \<open>continue\<close>, and leaves \<open>evalskip\<close>,
  \<open>skipcount\<close> and \<open>loopnest\<close> as the completion says: all zero levels left means no flag, \<open>break n\<close> leaves
  the flag with the levels still to leave, \<open>return\<close> leaves its flag until a function call takes it, and the
  nesting of loops is what it was.\<close>

theorem evaltree_refines:
  assumes "control_free ops" and "plain n" and "evalskip s = 0" and "0 \<le> loopnest s"
  shows "outcome (loopnest s) (sem fuel ops (loopnest s) tst n s) (evaltree fuel ops tst False n s)"
proof -
  have "s = with_skip 0 (skipcount s) (loopnest s) s" using assms(3) by (simp add: with_skip_def)
  then show ?thesis using simulatesD(1) [OF evaltree_simulates [OF assms(1)] assms(2,4)] by metis
qed

text \<open>Two nested endless loops around \<open>break 2\<close>, then a command.  Simple commands return their number.\<close>

definition demo_ops :: "(int, cstr) shell_ops" where
  "demo_ops = \<lparr>run = (\<lambda>c s. (Inr c, s)), expandarg = (\<lambda>w s. (Inr [w], s)), casematch = (\<lambda>w x s. (Inr (w = x), s)),
     assign = (\<lambda>v x s. (Inr (), s))\<rparr>"

definition demo_tree :: "(int, cstr) node" where
  "demo_tree = NSEMI (NWHILE (NCMD (Simple 0)) (NWHILE (NCMD (Simple 0)) (NCMD (BreakCmd False (Some ''2''))))) (NCMD (Simple 7))"

theorem evaltree_refines_witness:
  "fst (sem 6 demo_ops (loopnest start_sh) False demo_tree start_sh) = Inr (Normal, 7) \<and>
   outcome (loopnest start_sh) (sem 6 demo_ops (loopnest start_sh) False demo_tree start_sh) (evaltree 6 demo_ops False False demo_tree start_sh)"
proof
  show "fst (sem 6 demo_ops (loopnest start_sh) False demo_tree start_sh) = Inr (Normal, 7)" by code_simp
  have "control_free demo_ops" by (simp add: control_free_def demo_ops_def skip_free_def)
  moreover have "plain demo_tree" by (simp add: demo_tree_def)
  ultimately show "outcome (loopnest start_sh) (sem 6 demo_ops (loopnest start_sh) False demo_tree start_sh)
      (evaltree 6 demo_ops False False demo_tree start_sh)"
    by (rule evaltree_refines) code_simp+
qed

end
