(* ===== verification/Text_Lines.thy ===== *)
theory Text_Lines
  imports Libbb_Text
begin

text \<open>
  Line input, \<open>libbb/get_line_from_file.c\<close>: one chunk up to a newline or a NUL byte, the line without
  its newline, and the list of lines that the reading loops of sort, uniq and cut see.
\<close>

section \<open>Definitions\<close>

text \<open>
  \<open>bb_get_chunk_from_file(file, end)\<close>: the bytes read, the terminator included, and the rest of the
  file; \<open>to_nl\<close> says that \<open>end\<close> is not NULL, so that a newline ends the chunk as well.
\<close>

fun bb_get_chunk_from_file :: "bool \<Rightarrow> bytes \<Rightarrow> bytes \<times> bytes" where
  "bb_get_chunk_from_file to_nl [] = ([], [])"
| "bb_get_chunk_from_file to_nl (c # cs) =
     (if c = NUL \<or> to_nl \<and> c = NL then ([c], cs)
      else let (chunk, rest) = bb_get_chunk_from_file to_nl cs in (c # chunk, rest))"

text \<open>The C string in a buffer: what lies before the first NUL.\<close>

definition c_string :: "bytes \<Rightarrow> cstr" where
  "c_string buf = takeWhile (\<lambda>c. c \<noteq> NUL) buf"

definition xmalloc_fgetline :: "bytes \<Rightarrow> (cstr \<times> bytes) option" where
  "xmalloc_fgetline file =
     (let (c, rest) = bb_get_chunk_from_file True file
      in if c = [] then None
         else Some (c_string (if last c = NL then butlast c else c), rest))"

lemma chunk_append: "bb_get_chunk_from_file to_nl f = (c, rest) \<Longrightarrow> f = c @ rest"
  by (induction to_nl f arbitrary: c rule: bb_get_chunk_from_file.induct) (auto split: if_splits prod.splits)

lemma chunk_progress: "bb_get_chunk_from_file to_nl f = (c, rest) \<Longrightarrow> c = [] \<longleftrightarrow> f = []"
  by (cases f) (auto split: if_splits prod.splits)

lemma xmalloc_fgetline_rest: "xmalloc_fgetline f = Some (l, rest) \<Longrightarrow> length rest < length f"
  using chunk_append [of True f] by (fastforce simp: xmalloc_fgetline_def split: prod.splits if_splits)

text \<open>The lines that \<open>while ((line = xmalloc_fgetline(fp)) != NULL)\<close> sees.\<close>

function file_lines :: "bytes \<Rightarrow> cstr list" where
  "file_lines f = (case xmalloc_fgetline f of None \<Rightarrow> [] | Some (l, rest) \<Rightarrow> l # file_lines rest)"
  by pat_completeness auto
termination
  by (relation "measure length") (auto dest: xmalloc_fgetline_rest)

declare file_lines.simps [simp del]

section \<open>Lines of a text\<close>

lemma chunk_line:
  assumes "NL \<notin> set l" and "NUL \<notin> set l"
  shows "bb_get_chunk_from_file True (l @ NL # r) = (l @ [NL], r)"
  using assms by (induction l) auto

lemma file_lines_Nil [simp]: "file_lines [] = []"
  by (subst file_lines.simps) (simp add: xmalloc_fgetline_def)

lemma c_string_clean: "NUL \<notin> set l \<Longrightarrow> c_string l = l"
  by (auto simp: c_string_def takeWhile_eq_all_conv)

lemma file_lines_Cons:
  assumes "NL \<notin> set l" and "NUL \<notin> set l"
  shows "file_lines (l @ NL # r) = l # file_lines r"
  by (subst file_lines.simps) (simp add: xmalloc_fgetline_def chunk_line [OF assms] c_string_clean [OF assms(2)])

definition text_lines :: "cstr list \<Rightarrow> bool" where
  "text_lines ls \<longleftrightarrow> list_all (\<lambda>l. NL \<notin> set l \<and> NUL \<notin> set l) ls"

text \<open>Reading is the inverse of printing every line with a newline behind it.\<close>

lemma file_lines_unlines: "text_lines ls \<Longrightarrow> file_lines (unlines ls) = ls"
  by (induction ls) (simp_all add: text_lines_def unlines_def file_lines_Cons)

text \<open>No line that is read contains a newline or a NUL byte.\<close>

lemma chunk_inner:
  "bb_get_chunk_from_file True f = (c, rest) \<Longrightarrow> NUL \<notin> set (butlast c) \<and> NL \<notin> set (butlast c)"
proof (induction "True" f arbitrary: c rule: bb_get_chunk_from_file.induct)
  case (2 x cs)
  obtain d r where d: "bb_get_chunk_from_file True cs = (d, r)" by force
  show ?case
  proof (cases "x = NUL \<or> x = NL")
    case True
    then show ?thesis using 2(2) by auto
  next
    case False
    then have "c = x # d" "NUL \<notin> set (butlast d) \<and> NL \<notin> set (butlast d)" using 2 d by auto
    then show ?thesis using False by (cases "d = []") auto
  qed
qed simp

lemma fgetline_clean:
  assumes "xmalloc_fgetline f = Some (l, rest)"
  shows "NL \<notin> set l \<and> NUL \<notin> set l"
proof -
  obtain c r where c: "bb_get_chunk_from_file True f = (c, r)" by force
  have ne: "c \<noteq> []" and l: "l = c_string (if last c = NL then butlast c else c)"
    using assms c by (auto simp: xmalloc_fgetline_def split: if_splits)
  have b: "NUL \<notin> set (butlast c)" "NL \<notin> set (butlast c)" using chunk_inner [OF c] by auto
  have "set c = set (butlast c @ [last c])" using ne by simp
  then have "set c \<subseteq> insert (last c) (set (butlast c))" by simp
  then have "NL \<notin> set (if last c = NL then butlast c else c)" using b by auto
  then show ?thesis unfolding l c_string_def by (auto dest: set_takeWhileD)
qed

lemma file_lines_clean: "text_lines (file_lines f)"
proof (induction f rule: file_lines.induct)
  case (1 f)
  show ?case
  proof (cases "xmalloc_fgetline f")
    case None
    then show ?thesis by (subst file_lines.simps) (simp add: text_lines_def)
  next
    case (Some p)
    obtain l r where p: "p = (l, r)" by force
    have "text_lines (file_lines r)" using 1 [OF Some p [symmetric]] .
    then show ?thesis using fgetline_clean [of f l r] Some p
      by (subst file_lines.simps) (simp add: text_lines_def)
  qed
qed

end
