(* ===== verification/Sort.thy ===== *)
theory Sort
  imports Text_Lines "HOL-Library.Multiset"
begin

text \<open>
  The sort applet, \<open>coreutils/sort.c\<close>, in the configuration of the build (FEATURE_SORT_BIG and
  FEATURE_SORT_OPTIMIZE_MEMORY are off): comparison by text, by version or by integer value, the tie
  break, -r, -s, -u and -z.  \<open>qsort\<close> and \<open>strverscmp\<close> of the C library are parameters.
\<close>

section \<open>Definitions\<close>

record sort_opts =
  so_n :: bool
  so_g :: bool
  so_h :: bool
  so_M :: bool
  so_V :: bool
  so_u :: bool
  so_s :: bool
  so_z :: bool
  so_r :: bool

text \<open>The switch over the type flags; \<open>Unknown_Type\<close> is its default label.\<close>

datatype sort_type = Ascii | Version | Numeric | Unknown_Type

definition sort_type_of :: "sort_opts \<Rightarrow> sort_type" where
  "sort_type_of opts =
     (if so_g opts \<or> so_h opts \<or> so_M opts then Unknown_Type
      else if so_V opts then (if so_n opts then Unknown_Type else Version)
      else if so_n opts then Numeric
      else Ascii)"

definition cmp_values :: "(cstr \<Rightarrow> cstr \<Rightarrow> int) \<Rightarrow> sort_type \<Rightarrow> cstr \<Rightarrow> cstr \<Rightarrow> int" where
  "cmp_values verscmp ty x y =
     (case ty of Version \<Rightarrow> verscmp x y | Numeric \<Rightarrow> atoi x - atoi y | _ \<Rightarrow> strcmp x y)"

text \<open>
  A line and the position that -s stores behind its terminating NUL (0 without -s, never read).
\<close>

type_synonym entry = "cstr \<times> nat"

text \<open>\<open>compare_keys\<close>; \<open>no_tie\<close> is FLAG_no_tie_break.\<close>

definition compare_keys :: "(cstr \<Rightarrow> cstr \<Rightarrow> int) \<Rightarrow> sort_opts \<Rightarrow> bool \<Rightarrow> entry \<Rightarrow> entry \<Rightarrow> int" where
  "compare_keys cmp opts no_tie = (\<lambda>(x, x32) (y, y32).
     let retval = cmp x y
     in if retval = 0 \<and> so_s opts then (if x32 > y32 then 1 else - 1)
        else let retval = (if retval = 0 \<and> \<not> no_tie then strcmp x y else retval)
             in if so_r opts then - retval else retval)"

text \<open>The int arithmetic of -n: a value or a difference outside int is undefined behaviour.\<close>

definition fits_int :: "int \<Rightarrow> bool" where
  "fits_int i \<longleftrightarrow> - 2147483648 \<le> i \<and> i \<le> 2147483647"

definition num_ok :: "cstr list \<Rightarrow> bool" where
  "num_ok ls \<longleftrightarrow> list_all (\<lambda>x. fits_int (atoi x) \<and> list_all (\<lambda>y. fits_int (atoi x - atoi y)) ls) ls"

definition with_positions :: "sort_opts \<Rightarrow> cstr list \<Rightarrow> entry list" where
  "with_positions opts ls = (if so_s opts then zip ls [0..<length ls] else map (\<lambda>l. (l, 0)) ls)"

text \<open>The loop of -u: a line equal to the last line kept is freed.\<close>

fun drop_same :: "('a \<Rightarrow> 'a \<Rightarrow> int) \<Rightarrow> 'a \<Rightarrow> 'a list \<Rightarrow> 'a list" where
  "drop_same cmp kept [] = []"
| "drop_same cmp kept (x # xs) =
     (if cmp kept x = 0 then drop_same cmp kept xs else x # drop_same cmp x xs)"

definition unique_pass :: "('a \<Rightarrow> 'a \<Rightarrow> int) \<Rightarrow> 'a list \<Rightarrow> 'a list" where
  "unique_pass cmp xs = (case xs of [] \<Rightarrow> [] | x # r \<Rightarrow> x # drop_same cmp x r)"

definition print_lines :: "char \<Rightarrow> cstr list \<Rightarrow> bytes" where
  "print_lines eol ls = concat (map (\<lambda>l. l @ [eol]) ls)"

definition sort_eol :: "sort_opts \<Rightarrow> char" where
  "sort_eol opts = (if so_z opts then NUL else NL)"

text \<open>The files are the contents of the input files in order; the result is the text printed.\<close>

definition sort_main ::
    "((entry \<Rightarrow> entry \<Rightarrow> int) \<Rightarrow> entry list \<Rightarrow> entry list) \<Rightarrow> (cstr \<Rightarrow> cstr \<Rightarrow> int) \<Rightarrow> sort_opts \<Rightarrow> bytes list \<Rightarrow> bytes outcome" where
  "sort_main qsort verscmp opts files =
     (let ls = concat (map file_lines files);
          ty = sort_type_of opts;
          cmp = cmp_values verscmp ty
      in if ty = Unknown_Type \<and> 2 \<le> length ls then Exits 2
         else if ty = Numeric \<and> 2 \<le> length ls \<and> \<not> num_ok ls then Undefined
         else let sorted = qsort (compare_keys cmp opts False) (with_positions opts ls);
                  kept = (if so_u opts then unique_pass (compare_keys cmp (opts\<lparr>so_s := False\<rparr>) True) sorted
                          else sorted)
              in Returns (print_lines (sort_eol opts) (map fst kept)))"

section \<open>Contracts\<close>

text \<open>A comparison whose sign is that of a total preorder.\<close>

definition cmp_ordering :: "('a \<Rightarrow> 'a \<Rightarrow> int) \<Rightarrow> bool" where
  "cmp_ordering f \<longleftrightarrow> (\<forall>x y. f x y < 0 \<longleftrightarrow> 0 < f y x) \<and> (\<forall>x y z. f x y \<le> 0 \<longrightarrow> f y z \<le> 0 \<longrightarrow> f x z \<le> 0)"

text \<open>
  What \<open>qsort\<close> promises: a permutation, sorted whenever the comparison is consistent on the elements
  (the sign of two different elements flips with their order, and the order is transitive).
\<close>

definition consistent :: "('a \<Rightarrow> 'a \<Rightarrow> int) \<Rightarrow> 'a set \<Rightarrow> bool" where
  "consistent cmp S \<longleftrightarrow>
     (\<forall>x\<in>S. cmp x x \<le> 0) \<and>
     (\<forall>x\<in>S. \<forall>y\<in>S. x \<noteq> y \<longrightarrow> (cmp x y < 0 \<longleftrightarrow> 0 < cmp y x)) \<and>
     (\<forall>x\<in>S. \<forall>y\<in>S. \<forall>z\<in>S. cmp x y \<le> 0 \<longrightarrow> cmp y z \<le> 0 \<longrightarrow> cmp x z \<le> 0)"

definition qsort_contract :: "(('a \<Rightarrow> 'a \<Rightarrow> int) \<Rightarrow> 'a list \<Rightarrow> 'a list) \<Rightarrow> bool" where
  "qsort_contract qsort \<longleftrightarrow>
     (\<forall>cmp xs. mset (qsort cmp xs) = mset xs \<and>
        (consistent cmp (set xs) \<longrightarrow> sorted_wrt (\<lambda>x y. cmp x y \<le> 0) (qsort cmp xs)))"

text \<open>The order that the printed lines are in: by value, ties (without -s) by text, both reversed by -r.\<close>

definition directed :: "sort_opts \<Rightarrow> int \<Rightarrow> int" where
  "directed opts i = (if so_r opts then - i else i)"

definition line_le :: "(cstr \<Rightarrow> cstr \<Rightarrow> int) \<Rightarrow> sort_opts \<Rightarrow> cstr \<Rightarrow> cstr \<Rightarrow> bool" where
  "line_le cmp opts x y \<longleftrightarrow>
     directed opts (cmp x y) < 0 \<or> cmp x y = 0 \<and> (so_s opts \<or> directed opts (strcmp x y) \<le> 0)"

locale line_order =
  fixes cmp :: "cstr \<Rightarrow> cstr \<Rightarrow> int"
  assumes swap: "cmp x y < 0 \<longleftrightarrow> 0 < cmp y x"
    and trans: "cmp x y \<le> 0 \<Longrightarrow> cmp y z \<le> 0 \<Longrightarrow> cmp x z \<le> 0"
begin

lemma self: "cmp x x = 0"
  using swap [of x x] by linarith

lemma zero_sym: "cmp x y = 0 \<Longrightarrow> cmp y x = 0"
  using swap [of x y] swap [of y x] by linarith

lemma zero_left: "cmp x y = 0 \<Longrightarrow> (cmp x z \<le> 0 \<longleftrightarrow> cmp y z \<le> 0)"
  using trans [of x y z] trans [of y x z] zero_sym [of x y] by auto

lemma zero_trans: "cmp x y = 0 \<Longrightarrow> cmp y z = 0 \<Longrightarrow> cmp x z = 0"
  using trans [of x y z] trans [of z y x] zero_sym [of x y] zero_sym [of y z] swap [of x z] swap [of z x] by linarith

lemma less_trans:
  assumes "cmp x y \<le> 0" and "cmp y z \<le> 0" and "cmp x y < 0 \<or> cmp y z < 0"
  shows "cmp x z < 0"
proof (rule ccontr)
  assume "\<not> cmp x z < 0"
  then have "cmp z x \<le> 0" using swap [of z x] swap [of x z] by linarith
  then have "cmp y x \<le> 0" "cmp z y \<le> 0" using trans [OF assms(2)] trans [of z x y] assms(1) by auto
  then show False using assms(3) swap [of x y] swap [of y z] by linarith
qed

text \<open>The order of one pair of entries, spelt out.\<close>

lemma compare_keys_le:
  "compare_keys cmp opts False (x, i) (y, j) \<le> 0 \<longleftrightarrow>
     directed opts (cmp x y) < 0 \<or> cmp x y = 0 \<and> (if so_s opts then i \<le> j else directed opts (strcmp x y) \<le> 0)"
  by (auto simp: compare_keys_def directed_def Let_def)

lemma compare_keys_line_le:
  "compare_keys cmp opts False (x, i) (y, j) \<le> 0 \<Longrightarrow> line_le cmp opts x y"
  unfolding compare_keys_le line_le_def by (auto split: if_splits)

lemma directed_less_trans:
  "directed opts (cmp x y) \<le> 0 \<Longrightarrow> directed opts (cmp y z) \<le> 0 \<Longrightarrow>
   directed opts (cmp x y) < 0 \<or> directed opts (cmp y z) < 0 \<Longrightarrow> directed opts (cmp x z) < 0"
  using less_trans [of x y z] less_trans [of z y x] swap [of x y] swap [of y x] swap [of y z] swap [of z y] swap [of x z] swap [of z x]
  unfolding directed_def by (cases "so_r opts") auto

lemma compare_keys_trans:
  assumes "compare_keys cmp opts False a b \<le> 0" and "compare_keys cmp opts False b c \<le> 0"
  shows "compare_keys cmp opts False a c \<le> 0"
proof -
  obtain x i y j z k where e: "a = (x, i)" "b = (y, j)" "c = (z, k)" by (cases a, cases b, cases c) auto
  have d0: "directed opts (cmp u v) \<le> 0" if "directed opts (cmp u v) < 0 \<or> cmp u v = 0" for u v
    using that by (auto simp: directed_def)
  note ab = assms(1) [unfolded e compare_keys_le] and bc = assms(2) [unfolded e compare_keys_le]
  show ?thesis
  proof (cases "directed opts (cmp x y) < 0 \<or> directed opts (cmp y z) < 0")
    case True
    then have "directed opts (cmp x z) < 0"
      using directed_less_trans [of opts x y z] d0 [of x y] d0 [of y z] ab bc by blast
    then show ?thesis unfolding e compare_keys_le by simp
  next
    case False
    then have z: "cmp x y = 0" "cmp y z = 0" using ab bc by auto
    have "so_s opts \<Longrightarrow> i \<le> k" using False ab bc by auto
    moreover have "directed opts (strcmp x z) \<le> 0" if "\<not> so_s opts"
      using False ab bc that strcmp_trans [of x y z] strcmp_trans [of z y x] strcmp_swap [of x y] strcmp_swap [of y z] strcmp_swap [of x z]
      unfolding directed_def by (auto split: if_splits)
    ultimately show ?thesis unfolding e compare_keys_le using zero_trans [OF z] by simp
  qed
qed

lemma compare_keys_swap:
  assumes "so_s opts \<Longrightarrow> i \<noteq> j"
  shows "compare_keys cmp opts False (x, i) (y, j) < 0 \<longleftrightarrow> 0 < compare_keys cmp opts False (y, j) (x, i)"
  using swap [of x y] swap [of y x] zero_sym [of x y] zero_sym [of y x] strcmp_swap [of x y] assms
  by (auto simp: compare_keys_def Let_def)

lemma compare_keys_consistent:
  assumes "so_s opts \<Longrightarrow> inj_on snd S"
  shows "consistent (compare_keys cmp opts False) S"
  unfolding consistent_def
proof (intro conjI ballI impI)
  fix a b assume "a \<in> S" "b \<in> S" "a \<noteq> b"
  then have "so_s opts \<Longrightarrow> snd a \<noteq> snd b" using assms by (meson inj_onD)
  then show "compare_keys cmp opts False a b < 0 \<longleftrightarrow> 0 < compare_keys cmp opts False b a"
    using compare_keys_swap [of opts "snd a" "snd b" "fst a" "fst b"] by simp
next
  fix a assume "a \<in> S"
  show "compare_keys cmp opts False a a \<le> 0"
    using compare_keys_le [of opts "fst a" "snd a" "fst a" "snd a"] self by (simp add: directed_def)
qed (rule compare_keys_trans)

end

interpretation ascii: line_order strcmp
proof unfold_locales
  show "strcmp x y < 0 \<longleftrightarrow> 0 < strcmp y x" for x y using strcmp_swap [of x y] by simp
qed (rule strcmp_trans)

interpretation numeric: line_order "\<lambda>x y. atoi x - atoi y"
  by unfold_locales auto

lemma cmp_values_order:
  assumes "cmp_ordering verscmp"
  shows "line_order (cmp_values verscmp ty)"
proof (cases ty)
  case Version
  have v: "verscmp x y < 0 \<longleftrightarrow> 0 < verscmp y x" "verscmp x y \<le> 0 \<Longrightarrow> verscmp y z \<le> 0 \<Longrightarrow> verscmp x z \<le> 0" for x y z
    using assms unfolding cmp_ordering_def by blast+
  have "cmp_values verscmp ty = verscmp" by (simp add: fun_eq_iff cmp_values_def Version)
  then show ?thesis using v by (simp add: line_order_def)
next
  case Numeric
  then have "cmp_values verscmp ty = (\<lambda>x y. atoi x - atoi y)" by (simp add: fun_eq_iff cmp_values_def)
  then show ?thesis using numeric.line_order_axioms by simp
next
  case Ascii
  then have "cmp_values verscmp ty = strcmp" by (simp add: fun_eq_iff cmp_values_def)
  then show ?thesis using ascii.line_order_axioms by simp
next
  case Unknown_Type
  then have "cmp_values verscmp ty = strcmp" by (simp add: fun_eq_iff cmp_values_def)
  then show ?thesis using ascii.line_order_axioms by simp
qed

section \<open>The sorted entries\<close>

lemma map_fst_with_positions [simp]: "map fst (with_positions opts ls) = ls"
  by (simp add: with_positions_def comp_def)

lemma inj_with_positions: "so_s opts \<Longrightarrow> inj_on snd (set (with_positions opts ls))"
  by (auto simp: with_positions_def inj_on_def set_zip)

lemma sorted_with_positions: "so_s opts \<Longrightarrow> sorted (map snd (with_positions opts ls))"
  by (simp add: with_positions_def)

lemma qsort_entries:
  fixes opts :: sort_opts and ls :: "cstr list"
  assumes "qsort_contract qsort" and "line_order cmp"
  defines "out \<equiv> qsort (compare_keys cmp opts False) (with_positions opts ls)"
  shows "mset out = mset (with_positions opts ls)"
    and "sorted_wrt (\<lambda>a b. compare_keys cmp opts False a b \<le> 0) out"
    and "mset (map fst out) = mset ls"
    and "sorted_wrt (line_le cmp opts) (map fst out)"
proof -
  have "consistent (compare_keys cmp opts False) (set (with_positions opts ls))"
    by (rule line_order.compare_keys_consistent [OF assms(2) inj_with_positions])
  then show m: "mset out = mset (with_positions opts ls)"
    and s: "sorted_wrt (\<lambda>a b. compare_keys cmp opts False a b \<le> 0) out"
    using assms(1) unfolding out_def qsort_contract_def by blast+
  have "mset (map fst out) = image_mset fst (mset out)" by simp
  also have "\<dots> = mset (map fst (with_positions opts ls))" unfolding m by (rule mset_map [symmetric])
  finally show "mset (map fst out) = mset ls" by simp
  show "sorted_wrt (line_le cmp opts) (map fst out)"
    unfolding sorted_wrt_map
    by (rule sorted_wrt_mono_rel [OF _ s]) (metis line_order.compare_keys_line_le [OF assms(2)] prod.collapse)
qed

text \<open>With -s the lines of one value keep their order: the positions in it are sorted.\<close>

lemma stable_class:
  assumes "so_s opts" and "line_order cmp" and "mset out = mset (with_positions opts ls)"
    and "sorted_wrt (\<lambda>a b. compare_keys cmp opts False a b \<le> 0) out"
  shows "filter (\<lambda>y. cmp v y = 0) (map fst out) = filter (\<lambda>y. cmp v y = 0) ls"
proof -
  let ?P = "\<lambda>e :: entry. cmp v (fst e) = 0"
  let ?A = "filter ?P out" and ?B = "filter ?P (with_positions opts ls)"
  have "sorted_wrt (\<lambda>a b. compare_keys cmp opts False a b \<le> 0) ?A" by (rule sorted_wrt_filter [OF assms(4)])
  then have "sorted_wrt (\<lambda>a b. snd a \<le> snd b) ?A"
  proof (rule sorted_wrt_mono_rel [rotated])
    fix a b assume ab: "a \<in> set ?A" "b \<in> set ?A" and le: "compare_keys cmp opts False a b \<le> 0"
    have "cmp (fst a) (fst b) = 0"
      using line_order.zero_trans [OF assms(2) line_order.zero_sym [OF assms(2)]] ab by simp blast
    then show "snd a \<le> snd b"
      using le line_order.compare_keys_le [OF assms(2), of opts "fst a" "snd a" "fst b" "snd b"] assms(1)
      by (simp add: directed_def split: if_splits)
  qed
  then have a: "sorted (map snd ?A)" by (simp add: sorted_wrt_map)
  have b: "sorted (map snd ?B)"
    using sorted_with_positions [OF assms(1), of ls] unfolding sorted_wrt_map by (rule sorted_wrt_filter)
  have m: "mset ?A = mset ?B" using assms(3) by simp
  have "set out = set (with_positions opts ls)" using assms(3) by (metis set_mset_mset)
  then have i: "inj_on snd (set ?A)" using inj_with_positions [OF assms(1), of ls] by (auto intro: inj_on_subset)
  have "?A = ?B"
    using sort_key_inj_key_eq [OF refl i a] sort_key_inj_key_eq [OF m i b] by simp
  then have "map fst ?A = map fst ?B" by simp
  moreover have "filter (\<lambda>y. cmp v y = 0) (map fst es) = map fst (filter ?P es)" for es :: "entry list"
    by (simp add: filter_map comp_def)
  ultimately show ?thesis using map_fst_with_positions [of opts ls] by metis
qed

section \<open>Properties\<close>


section \<open>Unique lines\<close>

lemma directed_order:
  assumes "line_order cmp"
  shows "line_order (\<lambda>x y. directed opts (cmp x y))"
proof
  note sw = line_order.swap [OF assms] and tr = line_order.trans [OF assms]
  show "directed opts (cmp x y) < 0 \<longleftrightarrow> 0 < directed opts (cmp y x)" for x y
    using sw [of x y] sw [of y x] by (simp add: directed_def)
  show "directed opts (cmp x z) \<le> 0" if "directed opts (cmp x y) \<le> 0" "directed opts (cmp y z) \<le> 0" for x y z
  proof -
    have le: "0 \<le> cmp u v \<longleftrightarrow> cmp v u \<le> 0" for u v using sw [of u v] by linarith
    show ?thesis using that tr [of x y z] tr [of z y x] by (cases "so_r opts") (simp_all add: directed_def le)
  qed
qed

text \<open>Dropping the repetitions of a sorted list leaves one line of every value, in strict order.\<close>

lemma drop_same_spec:
  assumes "line_order c" and "\<And>a b. eq a b = 0 \<longleftrightarrow> c (f a) (f b) = 0"
  shows "sorted_wrt (\<lambda>a b. c (f a) (f b) \<le> 0) (k # xs) \<Longrightarrow>
    sorted_wrt (\<lambda>a b. c (f a) (f b) < 0) (k # drop_same eq k xs) \<and>
    set (drop_same eq k xs) \<subseteq> set xs \<and>
    (\<forall>a\<in>set xs. \<exists>b\<in>set (k # drop_same eq k xs). c (f a) (f b) = 0)"
proof (induction xs arbitrary: k)
  case (Cons x xs)
  show ?case
  proof (cases "eq k x = 0")
    case True
    then have "c (f x) (f k) = 0" using assms(2) line_order.zero_sym [OF assms(1)] by blast
    then show ?thesis using Cons.IH [of k] Cons.prems True by auto
  next
    case False
    then have kx: "c (f k) (f x) < 0" using Cons.prems assms(2) [of k x] by fastforce
    have IH: "sorted_wrt (\<lambda>a b. c (f a) (f b) < 0) (x # drop_same eq x xs)" "set (drop_same eq x xs) \<subseteq> set xs"
      "\<forall>a\<in>set xs. \<exists>b\<in>set (x # drop_same eq x xs). c (f a) (f b) = 0"
      using Cons.IH [of x] Cons.prems by simp_all
    have "c (f k) (f b) < 0" if "b \<in> set (drop_same eq x xs)" for b
    proof (rule line_order.less_trans [OF assms(1), of _ "f x"])
      show "c (f x) (f b) \<le> 0" using that IH(2) Cons.prems by auto
    qed (use kx in simp_all)
    then show ?thesis using IH kx False line_order.self [OF assms(1)] by auto
  qed
qed simp

text \<open>C36: sort -u prints, in strict order of the values, exactly one line of every value of the input.\<close>

theorem sort_unique:
  fixes opts :: sort_opts and files :: "bytes list"
  defines "ls \<equiv> concat (map file_lines files)"
  assumes "qsort_contract qsort" and "cmp_ordering verscmp"
    and "sort_type_of opts \<noteq> Unknown_Type" and "sort_type_of opts = Numeric \<Longrightarrow> num_ok ls" and "so_u opts"
  shows "\<exists>out. sort_main qsort verscmp opts files = Returns (print_lines (sort_eol opts) out) \<and>
    set out \<subseteq> set ls \<and>
    sorted_wrt (\<lambda>x y. directed opts (cmp_values verscmp (sort_type_of opts) x y) < 0) out \<and>
    (\<forall>x\<in>set ls. \<exists>y\<in>set out. cmp_values verscmp (sort_type_of opts) x y = 0)"
proof -
  let ?cmp = "cmp_values verscmp (sort_type_of opts)"
  let ?eq = "compare_keys ?cmp (opts\<lparr>so_s := False\<rparr>) True"
  note lo = cmp_values_order [OF assms(3), of "sort_type_of opts"]
  let ?c = "\<lambda>x y. directed opts (?cmp x y)"
  let ?es = "qsort (compare_keys ?cmp opts False) (with_positions opts ls)"
  note q = qsort_entries [OF assms(2) lo, of opts ls]
  have r: "sort_main qsort verscmp opts files = Returns (print_lines (sort_eol opts) (map fst (unique_pass ?eq ?es)))"
    using assms(4-6) by (auto simp: sort_main_def Let_def ls_def)
  have "set (map fst ?es) = set ls" using q(3) by (metis set_mset_mset)
  then have se: "set ls = fst ` set ?es" by simp
  have z: "?eq a b = 0 \<longleftrightarrow> ?c (fst a) (fst b) = 0" for a b
    by (simp add: compare_keys_def directed_def Let_def split: prod.splits)
  have so: "sorted_wrt (\<lambda>a b. ?c (fst a) (fst b) \<le> 0) ?es"
    using q(4) unfolding sorted_wrt_map
    by (rule sorted_wrt_mono_rel [rotated]) (auto simp: line_le_def directed_def split: if_splits)
  have "sorted_wrt (\<lambda>a b. ?c (fst a) (fst b) < 0) (unique_pass ?eq ?es) \<and> set (unique_pass ?eq ?es) \<subseteq> set ?es \<and>
     (\<forall>a\<in>set ?es. \<exists>b\<in>set (unique_pass ?eq ?es). ?c (fst a) (fst b) = 0)"
  proof (cases ?es)
    case (Cons e es)
    note d = drop_same_spec [of ?c ?eq fst, OF directed_order [OF lo] z, of e es]
    show ?thesis using d so line_order.self [OF lo, of "fst e"] unfolding Cons by (auto simp: unique_pass_def directed_def)
  qed (simp add: unique_pass_def)
  then show ?thesis using r unfolding se
    by (intro exI [of _ "map fst (unique_pass ?eq ?es)"]) (auto simp: sorted_wrt_map directed_def split: if_splits)
qed

section \<open>Concrete runs\<close>

fun qinsert :: "('a \<Rightarrow> 'a \<Rightarrow> int) \<Rightarrow> 'a \<Rightarrow> 'a list \<Rightarrow> 'a list" where
  "qinsert cmp x [] = [x]"
| "qinsert cmp x (y # ys) = (if cmp x y \<le> 0 then x # y # ys else y # qinsert cmp x ys)"

definition insertion_qsort :: "('a \<Rightarrow> 'a \<Rightarrow> int) \<Rightarrow> 'a list \<Rightarrow> 'a list" where
  "insertion_qsort cmp xs = foldr (qinsert cmp) xs []"

lemma mset_qinsert: "mset (qinsert cmp x xs) = add_mset x (mset xs)"
  by (induction xs) auto

lemma sorted_qinsert:
  assumes "consistent cmp S" and "x \<in> S" and "set ys \<subseteq> S" and "sorted_wrt (\<lambda>a b. cmp a b \<le> 0) ys"
  shows "sorted_wrt (\<lambda>a b. cmp a b \<le> 0) (qinsert cmp x ys)"
  using assms(3,4)
proof (induction ys)
  case (Cons y ys)
  have set: "set (qinsert cmp x ys) = insert x (set ys)" using mset_qinsert [of cmp x ys] by (metis set_mset_add_mset_insert set_mset_mset)
  have tr: "cmp a c \<le> 0" if "cmp a b \<le> 0" "cmp b c \<le> 0" "a \<in> S" "b \<in> S" "c \<in> S" for a b c
    using assms(1) that unfolding consistent_def by meson
  have "y \<in> S" using Cons.prems by simp
  have tot: "cmp y x \<le> 0" if "\<not> cmp x y \<le> 0"
  proof -
    have c: "\<forall>a\<in>S. cmp a a \<le> 0" "\<forall>a\<in>S. \<forall>b\<in>S. a \<noteq> b \<longrightarrow> (cmp a b < 0 \<longleftrightarrow> 0 < cmp b a)"
      using assms(1) unfolding consistent_def by blast+
    have "x \<noteq> y" using that c(1) assms(2) by blast
    then have "cmp y x < 0 \<longleftrightarrow> 0 < cmp x y" using c(2) [rule_format, OF \<open>y \<in> S\<close> assms(2)] by blast
    then show ?thesis using that by linarith
  qed
  show ?case
  proof (cases "cmp x y \<le> 0")
    case True
    have "\<forall>b\<in>set ys. cmp x b \<le> 0" using True Cons.prems assms(2) tr [OF True] by auto
    then show ?thesis using True Cons.prems by simp
  next
    case False
    then show ?thesis using Cons tot by (auto simp: set)
  qed
qed simp

lemma insertion_qsort_contract: "qsort_contract insertion_qsort"
  unfolding qsort_contract_def
proof (intro allI conjI impI)
  fix cmp :: "'a \<Rightarrow> 'a \<Rightarrow> int" and xs :: "'a list"
  have m: "mset (foldr (qinsert cmp) ys []) = mset ys" for ys by (induction ys) (simp_all add: mset_qinsert)
  then show "mset (insertion_qsort cmp xs) = mset xs" by (simp add: insertion_qsort_def)
  assume c: "consistent cmp (set xs)"
  have "sorted_wrt (\<lambda>a b. cmp a b \<le> 0) (foldr (qinsert cmp) ys [])" if "set ys \<subseteq> set xs" for ys
    using that
  proof (induction ys)
    case (Cons y ys)
    have "set (foldr (qinsert cmp) ys []) = set ys" using m [of ys] by (metis set_mset_mset)
    then show ?case using sorted_qinsert [OF c, of y "foldr (qinsert cmp) ys []"] Cons by simp
  qed simp
  then show "sorted_wrt (\<lambda>a b. cmp a b \<le> 0) (insertion_qsort cmp xs)" by (simp add: insertion_qsort_def)
qed

definition plain_sort :: sort_opts where
  "plain_sort = \<lparr>so_n = False, so_g = False, so_h = False, so_M = False, so_V = False, so_u = False, so_s = False,
     so_z = False, so_r = False\<rparr>"

lemma strcmp_ordering: "cmp_ordering strcmp"
  using ascii.swap ascii.trans unfolding cmp_ordering_def by blast

text \<open>Numbers whose difference does not fit into an int make the comparison of -n undefined.\<close>

lemma sort_n_overflow:
  "sort_main insertion_qsort strcmp (plain_sort\<lparr>so_n := True\<rparr>) [''2147483647'' @ [NL] @ ''-1'' @ [NL]] = Undefined"
  by code_simp


theorem sort_unique_witness:
  "\<exists>out. sort_main insertion_qsort strcmp (plain_sort\<lparr>so_u := True\<rparr>)
       [''b'' @ [NL] @ ''a'' @ [NL] @ ''b'' @ [NL]] = Returns (print_lines NL out) \<and>
     sorted_wrt (\<lambda>x y. strcmp x y < 0) out \<and> set out \<subseteq> {''a'', ''b''}"
proof -
  let ?o = "plain_sort\<lparr>so_u := True\<rparr>"
  let ?f = "[''b'' @ [NL] @ ''a'' @ [NL] @ ''b'' @ [NL]]"
  have f: "concat (map file_lines ?f) = [''b'', ''a'', ''b'']" by code_simp
  have t: "sort_type_of ?o = Ascii" "so_u ?o" "\<not> so_r ?o" "sort_eol ?o = NL" by code_simp+
  have c: "cmp_values strcmp Ascii = strcmp" by (simp add: fun_eq_iff cmp_values_def)
  from sort_unique [OF insertion_qsort_contract strcmp_ordering, of ?o ?f, unfolded f t(1) c] t
  show ?thesis by (auto simp: directed_def insert_commute)
qed

end
