(* ===== verification/Uniq.thy ===== *)
theory Uniq
  imports Sort
begin

text \<open>
  The uniq applet, \<open>coreutils/uniq.c\<close>: the compared part of a line, the loop over the input, and its
  agreement with the grouping of equal neighbours; together with sort it gives what sort -u prints.
\<close>

section \<open>Definitions\<close>

record uniq_opts =
  uo_c :: bool
  uo_d :: bool
  uo_u :: bool
  uo_i :: bool
  uo_z :: bool
  skip_fields :: nat
  skip_chars :: nat
  max_chars :: nat

text \<open>\<open>cur_compare\<close>: the text behind the skipped fields and characters.\<close>

fun skip_n_fields :: "nat \<Rightarrow> cstr \<Rightarrow> cstr" where
  "skip_n_fields 0 s = s"
| "skip_n_fields (Suc n) s = skip_n_fields n (skip_non_whitespace (skip_whitespace s))"

definition cur_compare :: "uniq_opts \<Rightarrow> cstr \<Rightarrow> cstr" where
  "cur_compare opts l = drop (skip_chars opts) (skip_n_fields (skip_fields opts) l)"

definition tolower :: "char \<Rightarrow> char" where
  "tolower c = (if isupper c then char_of (ch c + 32) else c)"

text \<open>\<open>strncmp\<close> and \<open>strncasecmp\<close> of at most \<open>max_chars\<close> characters give 0.\<close>

definition uniq_same :: "uniq_opts \<Rightarrow> cstr \<Rightarrow> cstr \<Rightarrow> bool" where
  "uniq_same opts a b \<longleftrightarrow>
     (if uo_i opts then map tolower (take (max_chars opts) a) = map tolower (take (max_chars opts) b)
      else take (max_chars opts) a = take (max_chars opts) b)"

text \<open>
  The inner loop: the number of lines that compare equal to \<open>old_compare\<close>, the line that ended the loop
  (None at the end of the input) and the rest of the input.
\<close>

fun uniq_inner :: "uniq_opts \<Rightarrow> cstr option \<Rightarrow> cstr list \<Rightarrow> nat \<Rightarrow> nat \<times> cstr option \<times> cstr list" where
  "uniq_inner opts old [] dups = (dups, None, [])"
| "uniq_inner opts old (l # ls) dups =
     (case old of
        None \<Rightarrow> (dups, Some l, ls)
      | Some old_compare \<Rightarrow>
          if uniq_same opts old_compare (cur_compare opts l) then uniq_inner opts old ls (dups + 1)
          else (dups, Some l, ls))"

text \<open>\<open>%7lu\<close>: decimal, at least seven columns wide.\<close>

definition pad_left :: "nat \<Rightarrow> cstr \<Rightarrow> cstr" where
  "pad_left w s = replicate (w - length s) SP @ s"

definition uniq_print :: "uniq_opts \<Rightarrow> cstr option \<Rightarrow> nat \<Rightarrow> bytes" where
  "uniq_print opts old dups =
     (case old of
        None \<Rightarrow> []
      | Some l \<Rightarrow>
          if (if dups = 0 then uo_d opts else uo_u opts) then []
          else (if uo_c opts then pad_left 7 (dec_of_nat (dups + 1)) @ [SP] else []) @
               l @ [if uo_z opts then NUL else NL])"

lemma uniq_inner_rest:
  "uniq_inner opts old ls dups = (d, Some l, rest) \<Longrightarrow> length rest < length ls"
  by (induction opts old ls dups rule: uniq_inner.induct) (auto split: option.splits if_splits)

function uniq_loop :: "uniq_opts \<Rightarrow> cstr option \<Rightarrow> cstr list \<Rightarrow> bytes" where
  "uniq_loop opts old ls =
     (case uniq_inner opts (map_option (cur_compare opts) old) ls 0 of
        (dups, None, rest) \<Rightarrow> uniq_print opts old dups
      | (dups, Some l, rest) \<Rightarrow> uniq_print opts old dups @ uniq_loop opts (Some l) rest)"
  by pat_completeness auto
termination
  by (relation "measure (\<lambda>(opts, old, ls). length ls)") (auto dest: uniq_inner_rest [OF sym])

declare uniq_loop.simps [simp del]

definition uniq_main :: "uniq_opts \<Rightarrow> bytes \<Rightarrow> bytes" where
  "uniq_main opts file = uniq_loop opts None (file_lines file)"

section \<open>Groups of equal neighbours\<close>

text \<open>Reference: the maximal runs of lines whose compared parts agree with the first line of the run.\<close>

definition same_key :: "uniq_opts \<Rightarrow> cstr \<Rightarrow> cstr \<Rightarrow> bool" where
  "same_key opts a b \<longleftrightarrow> uniq_same opts (cur_compare opts a) (cur_compare opts b)"

function runs :: "('a \<Rightarrow> 'a \<Rightarrow> bool) \<Rightarrow> 'a list \<Rightarrow> 'a list list" where
  "runs same [] = []"
| "runs same (l # ls) = (l # takeWhile (same l) ls) # runs same (dropWhile (same l) ls)"
  by pat_completeness auto
termination
  by (relation "measure (\<lambda>(same, ls). length ls)") (auto simp: le_imp_less_Suc length_dropWhile_le)

text \<open>What the options ask for: -d keeps the runs of several lines, -u the single lines, -c puts the number of lines,
  seven columns wide or more, and a blank in front.\<close>

definition selected :: "uniq_opts \<Rightarrow> cstr list \<Rightarrow> bool" where
  "selected opts run \<longleftrightarrow> (uo_d opts \<longrightarrow> 2 \<le> length run) \<and> (uo_u opts \<longrightarrow> length run = 1)"

definition count_column :: "nat \<Rightarrow> cstr" where
  "count_column n = (let d = dec_of_nat n in (if length d < 7 then replicate (7 - length d) SP else []) @ d @ [SP])"

definition show_run :: "uniq_opts \<Rightarrow> cstr list \<Rightarrow> bytes" where
  "show_run opts run =
     (if uo_c opts then count_column (length run) else []) @ hd run @ (if uo_z opts then [NUL] else [NL])"

definition show_runs :: "uniq_opts \<Rightarrow> cstr list list \<Rightarrow> bytes" where
  "show_runs opts rs = concat (map (show_run opts) (filter (selected opts) rs))"

lemma uniq_print_run:
  "uniq_print opts (Some l) (length ls) = show_runs opts [l # ls]"
  by (cases ls) (auto simp: uniq_print_def show_runs_def selected_def show_run_def count_column_def pad_left_def Let_def)

lemma show_runs_simps [simp]: "show_runs opts [] = []" "show_runs opts (a @ b) = show_runs opts a @ show_runs opts b"
  by (simp_all add: show_runs_def)

lemma show_runs_Cons: "show_runs opts (r # rs) = show_runs opts [r] @ show_runs opts rs"
  using show_runs_simps(2) [of opts "[r]" rs] by simp

lemma uniq_inner_runs:
  "uniq_inner opts (Some (cur_compare opts l)) ls n =
     (n + length (takeWhile (same_key opts l) ls),
      (case dropWhile (same_key opts l) ls of [] \<Rightarrow> None | x # _ \<Rightarrow> Some x),
      tl (dropWhile (same_key opts l) ls))"
  by (induction ls arbitrary: n) (auto simp: same_key_def)

lemma uniq_loop_runs: "uniq_loop opts (Some l) ls = show_runs opts (runs (same_key opts) (l # ls))"
proof (induction "length ls" arbitrary: l ls rule: less_induct)
  case less
  let ?d = "dropWhile (same_key opts l) ls"
  show ?case
  proof (cases ?d)
    case Nil
    then show ?thesis by (subst uniq_loop.simps) (simp add: uniq_inner_runs uniq_print_run show_runs_Cons [of _ _ "runs _ _"] del: dropWhile_eq_Nil_conv)
  next
    case (Cons x xs)
    have "length ?d \<le> length ls" by (rule length_dropWhile_le)
    then have "length xs < length ls" using Cons by simp
    from less [OF this, of x] Cons show ?thesis
      by (subst uniq_loop.simps) (simp add: uniq_inner_runs uniq_print_run show_runs_Cons [of _ _ "_ # _"])
  qed
qed

lemma uniq_output_runs:
  "uniq_main opts file = show_runs opts (runs (same_key opts) (file_lines file))"
proof (cases "file_lines file")
  case Nil
  then show ?thesis by (subst uniq_main_def, subst uniq_loop.simps) (simp add: uniq_print_def)
next
  case (Cons l ls)
  then show ?thesis using uniq_loop_runs [of opts l ls]
    by (subst uniq_main_def, subst uniq_loop.simps) (simp add: uniq_print_def)
qed

text \<open>C37: uniq prints one line for every maximal run of lines that compare equal, the first line of the
  run, with the length of the run in front under -c, only runs of several lines under -d and only
  single lines under -u.\<close>

theorem uniq_output:
  "uniq_main opts file =
     concat (map (show_run opts) (filter (selected opts) (runs (same_key opts) (file_lines file))))"
  using uniq_output_runs by (simp add: show_runs_def)

definition default_uniq :: uniq_opts where
  "default_uniq = \<lparr>uo_c = False, uo_d = False, uo_u = False, uo_i = False, uo_z = False,
     skip_fields = 0, skip_chars = 0, max_chars = 2147483647\<rparr>"

text \<open>Repeated lines, counted, with one field skipped and three characters compared.\<close>

theorem uniq_output_witness:
  "uniq_main \<lparr>uo_c = True, uo_d = True, uo_u = False, uo_i = False, uo_z = False, skip_fields = 1, skip_chars = 0, max_chars = 3\<rparr>
     (''1 a'' @ [NL] @ ''2 a'' @ [NL] @ ''3 b'' @ [NL] @ ''4 a'') = ''      2 1 a'' @ [NL]"
  unfolding uniq_output by code_simp

section \<open>sort and uniq together\<close>

lemma hd_runs_drop_same:
  assumes "\<And>a b. eq a b = 0 \<longleftrightarrow> fst a = fst b"
  shows "map fst (drop_same eq k es) = map hd (runs (=) (dropWhile ((=) (fst k)) (map fst es)))"
  by (induction es arbitrary: k) (simp_all add: assms)

lemma hd_runs_unique_pass:
  assumes "\<And>a b. eq a b = 0 \<longleftrightarrow> fst a = fst b"
  shows "map fst (unique_pass eq es) = map hd (runs (=) (map fst es))"
  using hd_runs_drop_same [OF assms] by (cases es) (simp_all add: unique_pass_def)

lemma runs_cong:
  "(\<And>a b. a \<in> set ls \<Longrightarrow> b \<in> set ls \<Longrightarrow> r a b = s a b) \<Longrightarrow> runs r ls = runs s ls"
proof (induction r ls rule: runs.induct)
  case (2 r l ls)
  have "takeWhile (r l) ls = takeWhile (s l) ls" "dropWhile (r l) ls = dropWhile (s l) ls"
    using 2(2) by (auto intro: takeWhile_cong dropWhile_cong)
  moreover have "runs r (dropWhile (r l) ls) = runs s (dropWhile (r l) ls)"
    using 2(1) 2(2) by (meson list.set_intros(2) set_dropWhileD)
  ultimately show ?case by simp
qed simp

lemma same_key_default:
  "length a \<le> 2147483647 \<Longrightarrow> length b \<le> 2147483647 \<Longrightarrow> same_key default_uniq a b \<longleftrightarrow> a = b"
  by (simp add: same_key_def uniq_same_def cur_compare_def default_uniq_def)

lemma uniq_default_lines:
  assumes "text_lines ls" and "\<forall>l\<in>set ls. length l \<le> 2147483647"
  shows "uniq_main default_uniq (print_lines NL ls) = print_lines NL (map hd (runs (=) ls))"
proof -
  have "print_lines NL ls = unlines ls" by (simp add: print_lines_def unlines_def)
  then have "file_lines (print_lines NL ls) = ls" using file_lines_unlines [OF assms(1)] by simp
  moreover have "runs (same_key default_uniq) ls = runs (=) ls"
    by (rule runs_cong) (use assms(2) in \<open>simp add: same_key_default\<close>)
  moreover have "show_run default_uniq = (\<lambda>r. hd r @ [NL])" "selected default_uniq = (\<lambda>_. True)"
    by (simp_all add: fun_eq_iff show_run_def selected_def default_uniq_def)
  ultimately show ?thesis by (simp add: uniq_output_runs show_runs_def print_lines_def comp_def)
qed

text \<open>Piping the output of sort through uniq prints what sort -u prints, for the comparison by
  text, with any of -r and -s.\<close>

lemma sort_then_uniq:
  assumes "qsort_contract qsort" and "sort_type_of opts = Ascii" and "\<not> so_u opts" and "\<not> so_z opts"
    and "\<forall>l\<in>set (concat (map file_lines files)). length l \<le> 2147483647"
  shows "\<exists>out. sort_main qsort verscmp opts files = Returns out \<and>
    sort_main qsort verscmp (opts\<lparr>so_u := True\<rparr>) files = Returns (uniq_main default_uniq out)"
proof -
  let ?ls = "concat (map file_lines files)"
  let ?eq = "compare_keys strcmp (opts\<lparr>so_s := False\<rparr>) True"
  let ?es = "qsort (compare_keys strcmp opts False) (with_positions opts ?ls)"
  have c: "cmp_values verscmp Ascii = strcmp" by (simp add: fun_eq_iff cmp_values_def)
  have u: "compare_keys strcmp (opts\<lparr>so_u := True\<rparr>) = compare_keys strcmp opts"
    "compare_keys strcmp (opts\<lparr>so_u := True, so_s := False\<rparr>) = compare_keys strcmp (opts\<lparr>so_s := False\<rparr>)"
    "with_positions (opts\<lparr>so_u := True\<rparr>) = with_positions opts" "sort_type_of (opts\<lparr>so_u := True\<rparr>) = Ascii"
    using assms(2) by (simp_all add: compare_keys_def Let_def with_positions_def sort_type_of_def fun_eq_iff split: if_splits)
  have s1: "sort_main qsort verscmp opts files = Returns (print_lines NL (map fst ?es))"
    using assms(2-4) by (simp add: sort_main_def Let_def c sort_eol_def)
  have s2: "sort_main qsort verscmp (opts\<lparr>so_u := True\<rparr>) files = Returns (print_lines NL (map fst (unique_pass ?eq ?es)))"
    using assms(4) by (simp add: sort_main_def Let_def c u sort_eol_def)
  have z: "?eq a b = 0 \<longleftrightarrow> fst a = fst b" for a b
    by (simp add: compare_keys_def strcmp_eq_0 Let_def split: prod.splits)
  have "mset (map fst ?es) = mset ?ls" by (rule qsort_entries(3) [OF assms(1) ascii.line_order_axioms])
  then have se: "set (map fst ?es) = set ?ls" by (metis set_mset_mset)
  have "text_lines ?ls" using file_lines_clean by (auto simp: text_lines_def list_all_iff)
  then have "text_lines (map fst ?es)" using se unfolding text_lines_def list_all_iff by metis
  then have "uniq_main default_uniq (print_lines NL (map fst ?es)) = print_lines NL (map hd (runs (=) (map fst ?es)))"
    by (rule uniq_default_lines) (use assms(5) se in blast)
  with s1 s2 show ?thesis by (simp add: hd_runs_unique_pass [OF z])
qed

end
