(* ===== verification/Shell_Applets.thy ===== *)
theory Shell_Applets
  imports Ash_Eval Uniq
begin

text \<open>
  The shell runs applets: the evaluator, the pipelines and the applets together.  In the configured
  build a command such as sort is called inside the shell's own process and reads and writes the shared
  stdin and stdout; a pipeline of such commands runs through the temporary files of \<open>evalpipe\<close>.
\<close>

text \<open>A command of the shell that is an applet: it turns its input into its output and succeeds.\<close>

datatype applet = SortApplet sort_opts | UniqApplet uniq_opts

definition applet_output :: "((entry \<Rightarrow> entry \<Rightarrow> int) \<Rightarrow> entry list \<Rightarrow> entry list) \<Rightarrow> (cstr \<Rightarrow> cstr \<Rightarrow> int) \<Rightarrow> applet \<Rightarrow> bytes \<Rightarrow> bytes" where
  "applet_output qsort verscmp a input =
     (case a of
        SortApplet opts \<Rightarrow> (case sort_main qsort verscmp opts [input] of Returns res \<Rightarrow> res | _ \<Rightarrow> [])
      | UniqApplet opts \<Rightarrow> uniq_main opts input)"

text \<open>What the rest of the shell offers: only the simple commands matter here.\<close>

definition runs_applets ::
    "((entry \<Rightarrow> entry \<Rightarrow> int) \<Rightarrow> entry list \<Rightarrow> entry list) \<Rightarrow> (cstr \<Rightarrow> cstr \<Rightarrow> int) \<Rightarrow> (applet, 'w) shell_ops \<Rightarrow> bool" where
  "runs_applets qsort verscmp ops \<longleftrightarrow> (\<forall>a. run ops a = run_filter (applet_output qsort verscmp a) 0)"

lemma run_filter_status: "run_filter f st s = (r, t) \<Longrightarrow> r = Inr st \<and> sh_exitstatus t = st"
  by (auto simp: run_filter_def Let_def split: prod.splits)

lemma evaltree_applet:
  assumes "runs_applets qsort verscmp ops"
  shows "evaltree (Suc k) ops tst False (NCMD (Simple a)) = run_filter (applet_output qsort verscmp a) 0"
proof
  fix s
  obtain r t where r: "run_filter (applet_output qsort verscmp a) 0 s = (r, t)" by fastforce
  then show "evaltree (Suc k) ops tst False (NCMD (Simple a)) s = run_filter (applet_output qsort verscmp a) 0 s"
    using run_filter_status [OF r] assms by (simp add: eval_node_def evalcommand_def runs_applets_def eval_end_def)
qed

lemma evaltree_pipe:
  assumes "evalpipe (evaltree k ops tst False) ns s = (Inr 0, t)"
  shows "evaltree (Suc k) ops tst False (NPIPE ns) s = (Inr 0, setstatus 0 t)"
  using assms by (simp add: eval_node_def eval_end_def)

lemma setstatus_io [simp]:
  "fd (setstatus st s) = fd s" "names (setstatus st s) = names s" "ofile_content (setstatus st s) k = ofile_content s k"
  "inodes (setstatus st s) = inodes s"
  by (simp_all add: setstatus_def fd_def fun_eq_iff ofile_content_def)

text \<open>C18: the shell command \<open>sort | uniq\<close>, run by the evaluator through a temporary file, appends to the file behind standard output exactly
  what \<open>sort -u\<close> prints for the shell's input, succeeds, and leaves the descriptors, the names in the
  file system and every other file as they were.\<close>

theorem shell_sort_uniq:
  assumes "runs_applets qsort verscmp ops" and "qsort_contract qsort" and "sort_type_of opts = Ascii" and "\<not> so_u opts" and "\<not> so_z opts"
    and "ready 2 s" and "fd s 1 = Some k" and "\<forall>l\<in>set (file_lines (pending s 0)). length l \<le> 2147483647"
  shows "\<exists>s' res. evaltree (Suc (Suc n)) ops tst False (NPIPE [NCMD (Simple (SortApplet opts)), NCMD (Simple (UniqApplet default_uniq))]) s = (Inr 0, s') \<and>
     sort_main qsort verscmp (opts\<lparr>so_u := True\<rparr>) [pending s 0] = Returns res \<and>
     ofile_content s' k = ofile_content s k @ res \<and> fd s' = fd s \<and> names s' = names s \<and>
     (\<forall>i<length (inodes s). i \<noteq> of_node (ofiles s ! k) \<longrightarrow> inodes s' ! i = inodes s ! i)"
proof -
  let ?ns = "[NCMD (Simple (SortApplet opts)), NCMD (Simple (UniqApplet default_uniq))]"
  define F where "F n = (case n of NCMD (Simple a) \<Rightarrow> applet_output qsort verscmp a | _ \<Rightarrow> id)" for n :: "(applet, 'a) node"
  have fl: "\<forall>m\<in>set ?ns. filters 0 (evaltree (Suc n) ops tst False m) (F m) 0"
    using run_filter_filters evaltree_applet [OF assms(1)] by (simp add: F_def)
  have "sum_list (map (\<lambda>_. 0 :: nat) ?ns) + length ?ns = 2" by simp
  then have rd: "ready (sum_list (map (\<lambda>_. 0 :: nat) ?ns) + length ?ns) s" using assms(6) by (simp add: numeral_2_eq_2)
  obtain s' where p: "evalpipe (evaltree (Suc n) ops tst False) ?ns s = (Inr 0, s')" "fd s' = fd s" "names s' = names s"
      "ofile_content s' k = ofile_content s k @ fold F ?ns (pending s 0)"
      "\<forall>i<length (inodes s). i \<noteq> of_node (ofiles s ! k) \<longrightarrow> inodes s' ! i = inodes s ! i"
    using evalpipe_runs [OF _ fl rd assms(7)] by auto
  have "\<forall>l\<in>set (concat (map file_lines [pending s 0])). length l \<le> 2147483647" using assms(8) by simp
  from sort_then_uniq [OF assms(2-5) this] obtain out where
    o: "sort_main qsort verscmp opts [pending s 0] = Returns out"
       "sort_main qsort verscmp (opts\<lparr>so_u := True\<rparr>) [pending s 0] = Returns (uniq_main default_uniq out)" by blast
  have "fold F ?ns (pending s 0) = uniq_main default_uniq out" by (simp add: F_def applet_output_def o(1))
  then show ?thesis using evaltree_pipe [OF p(1)] p(2-5) o(2) by auto
qed

definition demo_applets :: "(applet, cstr) shell_ops" where
  "demo_applets = \<lparr>run = (\<lambda>a. run_filter (applet_output insertion_qsort strcmp a) 0), expandarg = (\<lambda>w s. (Inr [w], s)),
     casematch = (\<lambda>w x s. (Inr (w = x), s)), assign = (\<lambda>v x s. (Inr (), s))\<rparr>"

theorem shell_sort_uniq_witness:
  "\<exists>s'. evaltree 2 demo_applets False False (NPIPE [NCMD (Simple (SortApplet plain_sort)), NCMD (Simple (UniqApplet default_uniq))]) start_sh = (Inr 0, s') \<and>
     ofile_content s' 0 = ''typedtyped'' @ [NL]"
proof -
  have a: "runs_applets insertion_qsort strcmp demo_applets" by (simp add: runs_applets_def demo_applets_def)
  have o: "sort_type_of plain_sort = Ascii" "\<not> so_u plain_sort" "\<not> so_z plain_sort" by code_simp+
  have r: "ready 2 start_sh" by (rule start_ready) simp
  have f: "fd start_sh 1 = Some 0" "pending start_sh 0 = ''typed''" "ofile_content start_sh 0 = ''typed''" "file_lines ''typed'' = [''typed'']"
    "sort_main insertion_qsort strcmp (plain_sort\<lparr>so_u := True\<rparr>) [''typed''] = Returns (''typed'' @ [NL])" by code_simp+
  have l: "\<forall>l\<in>set (file_lines (pending start_sh 0)). length l \<le> 2147483647" by (simp add: f)
  show ?thesis using shell_sort_uniq [OF a insertion_qsort_contract o r f(1) l, of 0 False] f by (auto simp: numeral_2_eq_2)
qed

end
