(* ===== verification/Ash_Grammar.thy ===== *)
theory Ash_Grammar
  imports Ash_Lex
begin

text \<open>
  Tokens as a specification of the lexer: the text of every token, with a blank behind it, is read back by
  \<open>readtoken\<close>, and what the state holds before and behind a token.
\<close>

section \<open>Texts of tokens\<close>

datatype item = Op token | Kw token | Wd "wpart list" | Rd rtype nat

definition op_text :: "token \<Rightarrow> cstr" where
  "op_text t = the (map_of
     [(TSEMI, '';''), (TBACKGND, ''&''), (TPIPE, ''|''), (TLP, ''(''), (TRP, '')''), (TAND, ''&&''), (TOR, ''||''), (TENDCASE, '';;'')] t)"

definition kw_text :: "token \<Rightarrow> cstr" where
  "kw_text t = the (map_of
     [(TNOT, ''!''), (TCASE, ''case''), (TDO, ''do''), (TDONE, ''done''), (TELIF, ''elif''), (TELSE, ''else''),
      (TESAC, ''esac''), (TFI, ''fi''), (TFOR, ''for''), (TIF, ''if''), (TIN, ''in''), (TTHEN, ''then''),
      (TUNTIL, ''until''), (TWHILE, ''while''), (TBEGIN, ''{''), (TEND, ''}'')] t)"

definition rd_text :: "rtype \<Rightarrow> cstr" where
  "rd_text ty = the (map_of
     [(NTO, ''>''), (NAPPEND, ''>>''), (NCLOBBER, ''>|''), (NTOFD, ''>&''), (NFROM, ''<''), (NFROMTO, ''<>''), (NFROMFD, ''<&'')] ty)"

fun itext :: "item \<Rightarrow> cstr" where
  "itext (Op t) = op_text t"
| "itext (Kw t) = kw_text t"
| "itext (Wd w) = wsrc w"
| "itext (Rd ty fd) = dec_of_nat fd @ rd_text ty"

definition ops :: "token set" where
  "ops = {TSEMI, TBACKGND, TPIPE, TLP, TRP, TAND, TOR, TENDCASE}"

definition kws :: "token set" where
  "kws = {TNOT, TCASE, TDO, TDONE, TELIF, TELSE, TESAC, TFI, TFOR, TIF, TIN, TTHEN, TUNTIL, TWHILE, TBEGIN, TEND}"

fun item_ok :: "item \<Rightarrow> bool" where
  "item_ok (Op t) = (t \<in> ops)"
| "item_ok (Kw t) = (t \<in> kws)"
| "item_ok (Wd w) = word_ok w"
| "item_ok (Rd ty fd) = (ty \<notin> {NHERE, NXHERE} \<and> length (dec_of_nat fd) \<le> 9)"

definition spell :: "item list \<Rightarrow> cstr" where
  "spell xs = concat (map (\<lambda>x. itext x @ [SP]) xs)"

fun tok :: "item \<Rightarrow> token" where
  "tok (Op t) = t"
| "tok (Kw t) = t"
| "tok (Wd w) = TWORD"
| "tok (Rd ty fd) = TREDIR"

lemma spell_simps [simp]: "spell [] = []" "spell (x # xs) = itext x @ SP # spell xs" "spell (xs @ ys) = spell xs @ spell ys"
  by (simp_all add: spell_def)

section \<open>The parser before and behind a token\<close>

text \<open>What the state says about the token that was read last.\<close>

fun current :: "item \<Rightarrow> pstate \<Rightarrow> bool" where
  "current (Wd w) st = (lasttoken st = TWORD \<and> wordtext st = wlexed w \<and> quoteflag st = wquoted w \<and> backquotelist st = [])"
| "current (Rd ty fd) st = (lasttoken st = TREDIR \<and> redirnode st = \<lparr>rn_type = ty, rn_fd = int fd, rn_here = 0\<rparr>)"
| "current x st = (lasttoken st = tok x)"

definition rest :: "item list \<Rightarrow> parsefile \<Rightarrow> bool" where
  "rest xs pf \<longleftrightarrow> feeds pf (spell xs) \<or> feeds pf (SP # spell xs)"

definition tokhd :: "item list \<Rightarrow> token" where
  "tokhd xs = (case xs of [] \<Rightarrow> TEOF | x # _ \<Rightarrow> tok x)"

text \<open>The first token of the list has been read; the list is still to be read.\<close>

definition behind :: "item list \<Rightarrow> pstate \<Rightarrow> bool" where
  "behind xs st \<longleftrightarrow> heredoclist st = [] \<and> (\<forall>x\<in>set xs. item_ok x) \<and>
     (case xs of [] \<Rightarrow> lasttoken st = TEOF \<and> rest [] (g_parsefile st) | x # ys \<Rightarrow> current x st \<and> rest ys (g_parsefile st))"

definition before :: "item list \<Rightarrow> pstate \<Rightarrow> bool" where
  "before xs st \<longleftrightarrow> CHKEOFMARK \<notin> checkkwd st \<and>
     (if tokpushback st then behind xs st else heredoclist st = [] \<and> (\<forall>x\<in>set xs. item_ok x) \<and> rest xs (g_parsefile st))"

lemma current_frame [simp]:
  "current x (st\<lparr>tokpushback := b\<rparr>) = current x st" "current x (st\<lparr>checkkwd := s\<rparr>) = current x st"
  by (cases x; simp)+

lemma behind_frame [simp]:
  "behind xs (st\<lparr>tokpushback := b\<rparr>) = behind xs st" "behind xs (st\<lparr>checkkwd := s\<rparr>) = behind xs st"
  by (auto simp: behind_def split: list.split)

lemma behind_before:
  assumes "behind xs st" "CHKEOFMARK \<notin> checkkwd st"
  shows "before xs (st\<lparr>tokpushback := True\<rparr>)" "\<not> tokpushback st \<Longrightarrow> xs = x # ys \<Longrightarrow> before ys st"
  using assms by (simp_all add: before_def) (simp add: behind_def)

lemma before_chk [simp]: "CHKEOFMARK \<notin> s \<Longrightarrow> CHKEOFMARK \<notin> checkkwd st \<Longrightarrow> before xs (st\<lparr>checkkwd := s\<rparr>) = before xs st"
  by (simp add: before_def)

section \<open>Reading a token\<close>

lemma kw_word:
  assumes "t \<in> kws"
  shows "word_ok [Plain (kw_text t)]" "findkwd (kw_text t) = Some t"
proof -
  have "list_all (\<lambda>t. word_ok [Plain (kw_text t)] \<and> findkwd (kw_text t) = Some t)
      [TNOT, TCASE, TDO, TDONE, TELIF, TELSE, TESAC, TFI, TFOR, TIF, TIN, TTHEN, TUNTIL, TWHILE, TBEGIN, TEND]" by code_simp
  then show "word_ok [Plain (kw_text t)]" "findkwd (kw_text t) = Some t" using assms by (auto simp: kws_def)
qed

lemma ends_word_SP [simp]: "ends_word SP"
  by code_simp

lemma digits_plain: "c \<in> set (dec_of_nat n) \<Longrightarrow> plain_char c"
proof -
  have "list_all (\<lambda>c. isdigit c \<longrightarrow> column BASESYNTAX (S_I_T ! spec_index c) = CWORD) Enum.enum" by code_simp
  then have "\<forall>c. isdigit c \<longrightarrow> sit (Some c) BASESYNTAX = CWORD" unfolding sit_spec list_all_iff enum_UNIV by blast
  then show "c \<in> set (dec_of_nat n) \<Longrightarrow> plain_char c" using dec_of_nat_digits by (auto simp: plain_char_def)
qed

text \<open>A keyword is read as a word first.\<close>

fun raw :: "item \<Rightarrow> item" where
  "raw (Kw t) = Wd [Plain (kw_text t)]"
| "raw x = x"

text \<open>What reading a token leaves alone.\<close>

definition same_frame :: "pstate \<Rightarrow> pstate \<Rightarrow> bool" where
  "same_frame st st' \<longleftrightarrow> tokpushback st' = tokpushback st \<and> heredoclist st' = heredoclist st \<and> checkkwd st' = checkkwd st"

lemma xxreadtoken_wd:
  assumes "word_ok w" "rest (Wd w # xs) (g_parsefile st)" "\<not> tokpushback st" "CHKEOFMARK \<notin> checkkwd st" "length (wsrc w) < k"
  shows "\<exists>st'. xxreadtoken k G st = Inr (TWORD, st') \<and> current (Wd w) st' \<and> rest xs (g_parsefile st') \<and> same_frame st st'"
proof -
  have "feeds (g_parsefile st) (wsrc w @ SP # spell xs) \<or> feeds (g_parsefile st) (SP # wsrc w @ SP # spell xs)"
    using assms(2) by (simp add: rest_def)
  from xxreadtoken_word [OF assms(1) this assms(3) _ assms(4,5), of G] obtain pf where
    "feeds pf (SP # spell xs)" "xxreadtoken k G st = Inr (TWORD, word_read w pf st)" by auto
  then show ?thesis by (auto simp: word_read_def rest_def same_frame_def)
qed

lemma token_start_rest:
  assumes "feeds pf (c # s) \<or> feeds pf (SP # c # s)" "c \<noteq> SP" "c \<noteq> TAB" "c \<noteq> CHR ''#''" "c \<noteq> BSL"
  obtains pf' where "token_start pf = (Some c, pf')" "feeds pf' s" "feeds (pungetc pf') (c # s)"
  using assms(1)
proof
  assume f: "feeds pf (c # s)"
  show thesis by (rule that [OF token_start_char [OF f assms(2-5)] pgetc_feeds(2,3) [OF f]])
next
  assume f: "feeds pf (SP # c # s)"
  note f1 = pgetc_feeds(2) [OF f]
  show thesis
    by (rule that [OF token_start_blank [OF f, unfolded token_start_char [OF f1 assms(2-5)]] pgetc_feeds(2,3) [OF f1]])
qed

lemma op_table:
  assumes "t \<in> ops"
  shows "op_text t \<noteq> []" "hd (op_text t) \<noteq> SP" "hd (op_text t) \<noteq> TAB" "hd (op_text t) \<noteq> CHR ''#''" "hd (op_text t) \<noteq> BSL"
    "single_token (hd (op_text t)) \<noteq> None"
    "if double_token (hd (op_text t)) = None then op_text t = [hd (op_text t)] \<and> single_token (hd (op_text t)) = Some t
     else op_text t = [hd (op_text t)] \<and> single_token (hd (op_text t)) = Some t \<or>
          op_text t = [hd (op_text t), hd (op_text t)] \<and> double_token (hd (op_text t)) = Some t"
proof -
  have t: "t \<in> set [TSEMI, TBACKGND, TPIPE, TLP, TRP, TAND, TOR, TENDCASE]" using assms by (simp add: ops_def)
  have "list_all (\<lambda>t. op_text t \<noteq> [] \<and> hd (op_text t) \<noteq> SP \<and> hd (op_text t) \<noteq> TAB \<and> hd (op_text t) \<noteq> CHR ''#'' \<and> hd (op_text t) \<noteq> BSL \<and>
      single_token (hd (op_text t)) \<noteq> None \<and>
      (if double_token (hd (op_text t)) = None then op_text t = [hd (op_text t)] \<and> single_token (hd (op_text t)) = Some t
       else op_text t = [hd (op_text t)] \<and> single_token (hd (op_text t)) = Some t \<or>
            op_text t = [hd (op_text t), hd (op_text t)] \<and> double_token (hd (op_text t)) = Some t))
      [TSEMI, TBACKGND, TPIPE, TLP, TRP, TAND, TOR, TENDCASE]" by code_simp
  from bspec [OF this [unfolded list_all_iff] t] show "op_text t \<noteq> []" "hd (op_text t) \<noteq> SP" "hd (op_text t) \<noteq> TAB" "hd (op_text t) \<noteq> CHR ''#''"
    "hd (op_text t) \<noteq> BSL" "single_token (hd (op_text t)) \<noteq> None"
    "if double_token (hd (op_text t)) = None then op_text t = [hd (op_text t)] \<and> single_token (hd (op_text t)) = Some t
     else op_text t = [hd (op_text t)] \<and> single_token (hd (op_text t)) = Some t \<or>
          op_text t = [hd (op_text t), hd (op_text t)] \<and> double_token (hd (op_text t)) = Some t" by iprover+
qed

lemma xxreadtoken_op:
  assumes "t \<in> ops" "rest (Op t # xs) (g_parsefile st)" "\<not> tokpushback st"
  shows "\<exists>st'. xxreadtoken k G st = Inr (t, st') \<and> current (Op t) st' \<and> rest xs (g_parsefile st') \<and> same_frame st st'"
proof -
  define c where "c = hd (op_text t)"
  note o = op_table [OF assms(1), folded c_def]
  obtain r where r: "op_text t = c # r" using o(1) by (cases "op_text t") (auto simp: c_def)
  obtain pf where pf: "token_start (g_parsefile st) = (Some c, pf)" "feeds pf (r @ SP # spell xs)"
    using token_start_rest [OF _ o(2-5), of "g_parsefile st" "r @ SP # spell xs"] assms(2) r by (auto simp: rest_def)
  have done_with: "set_token t' st1 = Inr (t', st1\<lparr>lasttoken := t'\<rparr>)" for t' st1 by (simp add: set_token_def monad_simps pset_def)
  obtain t1 where t1: "single_token c = Some t1" using o(6) by auto
  show ?thesis
  proof (cases "double_token c")
    case None
    then have "xxreadtoken k G st = Inr (t, (set_file pf st)\<lparr>lasttoken := t\<rparr>)" "r = []"
      using assms(3) o(7) pf r by (simp_all add: xxreadtoken_def monad_simps on_file_eq done_with)
    then show ?thesis using pf(2) by (auto simp: rest_def same_frame_def set_file_def)
  next
    case (Some t2)
    from o(7) consider "op_text t = [c]" "t1 = t" | "op_text t = [c, c]" "t2 = t" using Some t1 by auto
    then show ?thesis
    proof cases
      case 1
      then have f: "feeds pf (SP # spell xs)" "c \<noteq> SP" using pf(2) r o(2) by auto
      have "xxreadtoken k G st = Inr (t, (set_file (pungetc (nxt pf)) st)\<lparr>lasttoken := t\<rparr>)"
        using assms(3) pf t1 Some 1 f by (simp add: xxreadtoken_def monad_simps on_file_eq eatbnl_feeds done_with unread_def pset_def set_file_def)
      then show ?thesis using pgetc_feeds(3) [OF f(1)] by (auto simp: rest_def same_frame_def set_file_def)
    next
      case 2
      then have f: "feeds pf (c # SP # spell xs)" using pf(2) r by auto
      have "xxreadtoken k G st = Inr (t, (set_file (nxt pf) st)\<lparr>lasttoken := t\<rparr>)"
        using assms(3) pf t1 Some 2 eatbnl_feeds [OF f o(5)] by (simp add: xxreadtoken_def monad_simps on_file_eq done_with)
      then show ?thesis using pgetc_feeds(2) [OF f] by (auto simp: rest_def same_frame_def set_file_def)
    qed
  qed
qed

lemma redir_operator_text:
  assumes "ty \<notin> {NHERE, NXHERE}" "rd_text ty = d # r" "feeds pf (r @ SP # s)"
  shows "\<exists>pf'. redir_operator (Some d) pf = ((ty, False), pf') \<and> feeds pf' (SP # s)"
proof (cases "r = []")
  case True
  then have f: "feeds pf (SP # s)" using assms(3) by simp
  have "redir_operator (Some d) pf = ((ty, False), pungetc (nxt pf))" using True assms(1,2) eatbnl_feeds [OF f]
    by (cases ty) (auto simp: redir_operator_def rd_text_def)
  then show ?thesis using pgetc_feeds(3) [OF f] by blast
next
  case False
  then obtain e where e: "r = [e]" "e \<in> set ''>|&''" using assms(1,2) by (cases ty) (auto simp: rd_text_def)
  then have f: "feeds pf (e # SP # s)" "e \<noteq> BSL" using assms(3) by auto
  have "redir_operator (Some d) pf = ((ty, False), nxt pf)" using e(1) assms(1,2) eatbnl_feeds [OF f]
    by (cases ty) (auto simp: redir_operator_def rd_text_def)
  then show ?thesis using pgetc_feeds(2) [OF f(1)] by blast
qed

lemma rd_first: "ty \<notin> {NHERE, NXHERE} \<Longrightarrow> \<exists>d r. rd_text ty = d # r \<and> (d = CHR ''<'' \<or> d = CHR ''>'')"
  by (cases ty) (auto simp: rd_text_def)

lemma digits_word: "word_ok [Plain (dec_of_nat fd)]" "wlexed [Plain (dec_of_nat fd)] = dec_of_nat fd" "wsrc [Plain (dec_of_nat fd)] = dec_of_nat fd"
proof -
  have "isdigit (hd (dec_of_nat fd))" using dec_of_nat_digits [of "hd (dec_of_nat fd)" fd] by simp
  moreover have "\<not> isdigit (CHR ''#'')" by code_simp
  ultimately have "hd (dec_of_nat fd) \<noteq> CHR ''#''" by metis
  then show "word_ok [Plain (dec_of_nat fd)]" using digits_plain by (simp add: word_ok_def wsrc_def)
qed (simp_all add: wlexed_def wsrc_def)

lemma readtoken1_rd:
  assumes "item_ok (Rd ty fd)" "itext (Rd ty fd) @ SP # s = c # r" "feeds (g_parsefile st) r" "feeds (pungetc (g_parsefile st)) (c # r)"
    "CHKEOFMARK \<notin> checkkwd st" "length (dec_of_nat fd) < k"
  shows "\<exists>pf. feeds pf (SP # s) \<and> readtoken1 k G (Some c) BASESYNTAX NoMark False st
     = Inr (TREDIR, st\<lparr>g_parsefile := pf, redirnode := \<lparr>rn_type = ty, rn_fd = int fd, rn_here = 0\<rparr>, lasttoken := TREDIR\<rparr>)"
proof -
  let ?w = "[Plain (dec_of_nat fd)]"
  obtain d r1 where d: "rd_text ty = d # r1" "d = CHR ''<'' \<or> d = CHR ''>''" using rd_first [of ty] assms(1) by auto
  have c: "wsrc ?w @ d # r1 @ SP # s = c # r" using assms(2) d(1) by (simp add: wsrc_def)
  have db: "d \<noteq> BSL" "\<forall>p\<in>set ?w. part_ok p" using d(2) digits_word(1) by (auto simp: word_ok_def)
  obtain k1 where k1: "k = sum_list (map steps ?w) + Suc k1" using assms(6) less_iff_Suc_add by auto
  have "between False [] (Some c) (rt1_start BASESYNTAX (Some c))" by (simp add: between_def rt1_start_def new_syntax_def)
  from rt1_word [OF db(2) c this assms(3,4) db(1) assms(5), of "Suc k1" G False] obtain l1 pf where
    l1: "feeds pf (r1 @ SP # s)" "between (False \<or> wquoted ?w) ([] @ wlexed ?w) (Some d) l1"
      "rt1_loop k G NoMark False (rt1_start BASESYNTAX (Some c)) st = rt1_loop (Suc k1) G NoMark False l1 (set_file pf st)"
    unfolding k1 by blast
  have b: "r_c l1 = Some d" "r_out l1 = dec_of_nat fd" "\<not> r_quotef l1" "r_syn l1 = new_syntax BASESYNTAX"
    using l1(2) by (simp_all add: between_def digits_word wquoted_def)
  have "sit (Some d) BASESYNTAX = CSPCL" using d(2) sit_special_chars(10,11) by auto
  then have "rt1_step G NoMark l1 (set_file pf st) = Inr ((EndWord, l1), set_file pf st)"
    by (simp add: rt1_step_def b new_syntax_def pret_def Let_def)
  then have "rt1_loop k G NoMark False (rt1_start BASESYNTAX (Some c)) st = Inr (l1, set_file pf st)"
    unfolding l1(3) by (simp add: rt1_loop.simps monad_simps)
  then have "readtoken1 k G (Some c) BASESYNTAX NoMark False st = rt1_end NoMark l1 (set_file pf st)"
    by (simp add: readtoken1_def monad_simps on_file_eq checkend_def)
  moreover obtain pf' where pf': "redir_operator (Some d) pf = ((ty, False), pf')" "feeds pf' (SP # s)"
    using redir_operator_text [OF _ d(1) l1(1)] assms(1) by auto
  moreover have "isdigit_str9 (dec_of_nat fd)" using assms(1) dec_of_nat_digits by (auto simp: isdigit_str9_def)
  moreover have "fst (parse_digits 10 0 (dec_of_nat fd)) = int fd" using parse_digits_dec [of 0 fd "[]"] by simp
  ultimately show ?thesis using d(2) assms(1)
    by (intro exI [of _ pf']) (auto simp: rt1_end_def Let_def b new_syntax_def parseredir_def monad_simps on_file_eq pset_def set_file_def)
qed

lemma xxreadtoken_rd:
  assumes "item_ok (Rd ty fd)" "rest (Rd ty fd # xs) (g_parsefile st)" "\<not> tokpushback st" "CHKEOFMARK \<notin> checkkwd st" "length (itext (Rd ty fd)) < k"
  shows "\<exists>st'. xxreadtoken k G st = Inr (TREDIR, st') \<and> current (Rd ty fd) st' \<and> rest xs (g_parsefile st') \<and> same_frame st st'"
proof -
  obtain c r where c: "itext (Rd ty fd) @ SP # spell xs = c # r" by (cases "dec_of_nat fd") auto
  have "wsrc [Plain (dec_of_nat fd)] @ SP # spell xs = c # tl (dec_of_nat fd) @ SP # spell xs"
    using c by (cases "dec_of_nat fd") (auto simp: wsrc_def)
  note ws = word_start [OF digits_word(1) this]
  have "feeds (g_parsefile st) (c # r) \<or> feeds (g_parsefile st) (SP # c # r)" using assms(2) c by (auto simp: rest_def)
  then obtain pf0 where pf0: "token_start (g_parsefile st) = (Some c, pf0)" "feeds pf0 r" "feeds (pungetc pf0) (c # r)"
    by (rule token_start_rest [OF _ ws(2-5)])
  have f: "feeds (g_parsefile (set_file pf0 st)) r" "feeds (pungetc (g_parsefile (set_file pf0 st))) (c # r)"
    "CHKEOFMARK \<notin> checkkwd (set_file pf0 st)" "length (dec_of_nat fd) < k" using pf0 assms(4,5) by simp_all
  from readtoken1_rd [OF assms(1) c f, of G] obtain pf where "feeds pf (SP # spell xs)" "readtoken1 k G (Some c) BASESYNTAX NoMark False (set_file pf0 st)
     = Inr (TREDIR, (set_file pf0 st)\<lparr>g_parsefile := pf, redirnode := \<lparr>rn_type = ty, rn_fd = int fd, rn_here = 0\<rparr>, lasttoken := TREDIR\<rparr>)" by blast
  then show ?thesis using assms(3) pf0(1) ws(1)
    by (auto simp: xxreadtoken_def monad_simps on_file_eq rest_def same_frame_def set_file_def)
qed

lemma xxreadtoken_eof:
  assumes "rest [] (g_parsefile st)" "\<not> tokpushback st"
  shows "\<exists>st'. xxreadtoken k G st = Inr (TEOF, st') \<and> lasttoken st' = TEOF \<and> rest [] (g_parsefile st') \<and> same_frame st st'"
proof -
  obtain pf where "token_start (g_parsefile st) = (None, pf)" "feeds pf []"
    using assms(1) token_start_end token_start_blank pgetc_feeds(2) pgetc_feeds_end(2) unfolding rest_def spell_simps by metis
  then show ?thesis using assms(2) by (auto simp: xxreadtoken_def monad_simps on_file_eq set_token_def pset_def rest_def same_frame_def set_file_def)
qed

definition is_kwd :: "wpart list \<Rightarrow> bool" where
  "is_kwd w \<longleftrightarrow> \<not> wquoted w \<and> findkwd (wlexed w) \<noteq> None"

text \<open>Keywords are read where the parser looks for them, other words are not keywords there.\<close>

definition fine :: "pstate \<Rightarrow> item list \<Rightarrow> bool" where
  "fine st xs \<longleftrightarrow> (case xs of Kw t # _ \<Rightarrow> tokpushback st \<or> CHKKWD \<in> checkkwd st | Wd w # _ \<Rightarrow> CHKKWD \<in> checkkwd st \<longrightarrow> \<not> is_kwd w | _ \<Rightarrow> True)"

definition ready :: "item list \<Rightarrow> pstate \<Rightarrow> bool" where
  "ready xs st \<longleftrightarrow> behind xs st \<and> \<not> tokpushback st \<and> checkkwd st = {}"

definition pushed :: "item list \<Rightarrow> pstate \<Rightarrow> bool" where
  "pushed xs st \<longleftrightarrow> before xs st \<and> tokpushback st \<and> checkkwd st = {}"

lemma ready_pushback: "ready xs st \<Longrightarrow> pushed xs (st\<lparr>tokpushback := True\<rparr>)"
  by (simp add: ready_def pushed_def behind_before)

lemma ready_before: "ready (x # xs) st \<Longrightarrow> before xs st"
  using behind_before(2) [of "x # xs" st x xs] by (simp add: ready_def)

lemma pushed_before: "pushed xs st \<Longrightarrow> before xs st"
  by (simp add: pushed_def)

lemma kw_lexed [simp]: "wlexed [Plain s] = s" "\<not> wquoted [Plain s]" "wsrc [Plain s] = s"
  by (simp_all add: wlexed_def wquoted_def wsrc_def)

lemma tok_not_word: "item_ok x \<Longrightarrow> tok x = TWORD \<Longrightarrow> \<exists>w. x = Wd w"
  by (cases x) (auto simp: ops_def kws_def)

lemma tokhd_not_nl: "\<forall>x\<in>set xs. item_ok x \<Longrightarrow> tokhd xs \<noteq> TNL"
  by (cases xs; cases "hd xs") (auto simp: tokhd_def ops_def kws_def)

lemma xxreadtoken_item:
  assumes "item_ok x" "rest (x # xs) (g_parsefile st)" "\<not> tokpushback st" "CHKEOFMARK \<notin> checkkwd st" "length (itext x) < k"
  shows "\<exists>st'. xxreadtoken k G st = Inr (tok (raw x), st') \<and> current (raw x) st' \<and> rest xs (g_parsefile st') \<and> same_frame st st'"
proof (cases x)
  case (Op t)
  then show ?thesis using xxreadtoken_op [of t xs st k G] assms by simp
next
  case (Kw t)
  have "rest (Wd [Plain (kw_text t)] # xs) (g_parsefile st)" using assms(2) Kw by (simp add: rest_def)
  from xxreadtoken_wd [OF kw_word(1) this assms(3,4), of k G] show ?thesis using assms(1,5) Kw by simp
next
  case (Wd w)
  then show ?thesis using xxreadtoken_wd [of w xs st k G] assms by simp
next
  case (Rd ty fd)
  then show ?thesis using xxreadtoken_rd [of ty fd xs st k G] assms by simp
qed

lemma xxreadtoken_pushed:
  assumes "behind xs st" "tokpushback st"
  shows "xxreadtoken k G st = Inr (tokhd xs, st\<lparr>tokpushback := False\<rparr>)"
proof -
  have "lasttoken st = tokhd xs" using assms(1) by (cases xs; cases "hd xs") (auto simp: behind_def tokhd_def)
  then show ?thesis using assms(2) by (simp add: xxreadtoken_def monad_simps pset_def)
qed

text \<open>Behind the raw token: newlines are not read, a keyword is recognised.\<close>

lemma readtoken_raw:
  assumes "xxreadtoken k G st = Inr (t, st1)" "t \<noteq> TNL" "0 < k" "checkkwd st1 = checkkwd st"
  shows "readtoken k G st = (if t = TWORD \<and> \<not> quoteflag st1 \<and> CHKKWD \<in> checkkwd st then
     (case findkwd (wordtext st1) of None \<Rightarrow> Inr (t, st1\<lparr>checkkwd := {}\<rparr>) | Some kw \<Rightarrow> Inr (kw, st1\<lparr>checkkwd := {}, lasttoken := kw\<rparr>))
     else Inr (t, st1\<lparr>checkkwd := {}\<rparr>))"
proof -
  have "eat_newlines k k G h t st1 = Inr (t, st1)" for h using assms(2,3) by (cases k) (simp_all add: pret_def)
  then show ?thesis using assms(1,4)
    by (auto simp: readtoken_def monad_simps pset_def set_token_def split: option.split)
qed

lemma readtoken_item:
  assumes "before xs st" "fine st xs" "length (spell xs) < k"
  shows "\<exists>st'. readtoken k G st = Inr (tokhd xs, st') \<and> ready xs st'"
proof (cases "tokpushback st")
  case True
  then have b: "behind xs st" using assms(1) by (simp add: before_def)
  note x = xxreadtoken_pushed [OF b True, of k G]
  have ok: "\<forall>x\<in>set xs. item_ok x" using b by (simp add: behind_def)
  have "readtoken k G st = Inr (tokhd xs, st\<lparr>tokpushback := False, checkkwd := {}\<rparr>)"
  proof (cases "tokhd xs = TWORD")
    case word: True
    then obtain w ys where w: "xs = Wd w # ys" using tok_not_word ok by (cases xs) (auto simp: tokhd_def)
    then have "wordtext st = wlexed w" "quoteflag st = wquoted w" using b by (simp_all add: behind_def)
    then show ?thesis using readtoken_raw [OF x tokhd_not_nl [OF ok]] assms(2,3) w by (auto simp: fine_def is_kwd_def split: option.split)
  qed (use readtoken_raw [OF x tokhd_not_nl [OF ok]] assms(3) in simp)
  then show ?thesis using b by (simp add: ready_def)
next
  case False
  then have r: "rest xs (g_parsefile st)" "\<forall>x\<in>set xs. item_ok x" "heredoclist st = []" "CHKEOFMARK \<notin> checkkwd st"
    using assms(1) by (simp_all add: before_def)
  show ?thesis
  proof (cases xs)
    case Nil
    from xxreadtoken_eof [OF r(1) [unfolded Nil] False, of k G] obtain st' where
      "xxreadtoken k G st = Inr (TEOF, st')" "lasttoken st' = TEOF" "rest [] (g_parsefile st')" "same_frame st st'" by blast
    then show ?thesis using readtoken_raw [of k G st TEOF st'] False r(3) assms(3) Nil
      by (auto simp: same_frame_def ready_def behind_def tokhd_def)
  next
    case (Cons x ys)
    from xxreadtoken_item [of x ys st k G] obtain st' where st': "xxreadtoken k G st = Inr (tok (raw x), st')" "current (raw x) st'"
      "rest ys (g_parsefile st')" "same_frame st st'" using r False assms(3) Cons by auto
    have nl: "tok (raw x) \<noteq> TNL" using tokhd_not_nl [OF r(2)] Cons by (cases x) (auto simp: tokhd_def)
    have "readtoken k G st = Inr (tok x, st'\<lparr>checkkwd := {}, lasttoken := tok x\<rparr>)"
    proof (cases x)
      case (Kw t)
      then show ?thesis using readtoken_raw [OF st'(1) nl] st'(2,4) assms(2,3) Cons False kw_word(2) [of t] r(2)
        by (simp add: same_frame_def fine_def)
    next
      case (Wd w)
      then show ?thesis using readtoken_raw [OF st'(1) nl] st'(2,4) assms(2,3) Cons
        by (auto simp: same_frame_def fine_def is_kwd_def split: option.split)
    qed (use readtoken_raw [OF st'(1) nl] st'(2,4) assms(3) Cons r(2) in \<open>auto simp: same_frame_def ops_def\<close>)
    moreover have "current x (st'\<lparr>checkkwd := {}, lasttoken := tok x\<rparr>)" using st'(2) by (cases x) auto
    ultimately show ?thesis using Cons st'(3,4) r False by (auto simp: ready_def behind_def tokhd_def same_frame_def)
  qed
qed

end
