(* ===== verification/Ash_Tree.thy ===== *)
theory Ash_Tree
  imports Ash_Grammar
begin

text \<open>
  The commands of the shell as abstract syntax, the tokens and the parse tree of each, and which are well formed.
\<close>

section \<open>Abstract syntax\<close>

type_synonym sword = "wpart list"

datatype sredir = SFile rtype nat sword | SDup rtype nat nat

datatype scmd =
    SSimple "sword list" "sword list" "sredir list"       \<comment> \<open>assignments, words, redirections\<close>
  | SIf slist slist selse "sredir list"
  | SWhile bool slist slist "sredir list"                 \<comment> \<open>True for until\<close>
  | SFor cstr "sword list option" slist "sredir list"
  | SCase sword scases "sredir list"
  | SGroup slist "sredir list"
  | SSub slist "sredir list"
  | SFunc cstr scmd
and slist = LOne sandor bool | LMore slist sandor bool    \<comment> \<open>True: in the background\<close>
and sandor = AOne spipe | AMore sandor bool spipe         \<comment> \<open>True: and\<close>
and spipe = SPipe bool scmds                              \<comment> \<open>True: negated\<close>
and scmds = COne scmd | CMore scmds scmd
and selse = ENone | EElse slist | EElif slist slist selse
and scases = KNil | KCons sword "sword list" sbody scases
and sbody = BNone | BList slist

section \<open>Tokens\<close>

fun k_redir :: "sredir \<Rightarrow> item list" where
  "k_redir (SFile ty fd w) = [Rd ty fd, Wd w]"
| "k_redir (SDup ty fd n) = [Rd ty fd, Wd [Plain (dec_of_nat n)]]"

definition k_redirs :: "sredir list \<Rightarrow> item list" where
  "k_redirs rs = concat (map k_redir rs)"

primrec k_cmd :: "scmd \<Rightarrow> item list" and k_list :: "slist \<Rightarrow> item list" and k_andor :: "sandor \<Rightarrow> item list" and k_pipe :: "spipe \<Rightarrow> item list"
  and k_cmds :: "scmds \<Rightarrow> item list" and k_else :: "selse \<Rightarrow> item list" and k_cases :: "scases \<Rightarrow> item list" and k_body :: "sbody \<Rightarrow> item list" where
  "k_cmd (SSimple vs ws rs) = map Wd vs @ map Wd ws @ k_redirs rs"
| "k_cmd (SIf a b e rs) = Kw TIF # k_list a @ Kw TTHEN # k_list b @ k_else e @ Kw TFI # k_redirs rs"
| "k_cmd (SWhile u a b rs) = Kw (if u then TUNTIL else TWHILE) # k_list a @ Kw TDO # k_list b @ Kw TDONE # k_redirs rs"
| "k_cmd (SFor v ws b rs) = Kw TFOR # Wd [Plain v] # (case ws of None \<Rightarrow> [] | Some us \<Rightarrow> Kw TIN # map Wd us @ [Op TSEMI]) @ Kw TDO # k_list b @ Kw TDONE # k_redirs rs"
| "k_cmd (SCase w cs rs) = Kw TCASE # Wd w # Kw TIN # k_cases cs @ Kw TESAC # k_redirs rs"
| "k_cmd (SGroup l rs) = Kw TBEGIN # k_list l @ Kw TEND # k_redirs rs"
| "k_cmd (SSub l rs) = Op TLP # k_list l @ Op TRP # k_redirs rs"
| "k_cmd (SFunc v c) = Wd [Plain v] # Op TLP # Op TRP # k_cmd c"
| "k_list (LOne a bg) = k_andor a @ [Op (if bg then TBACKGND else TSEMI)]"
| "k_list (LMore l a bg) = k_list l @ k_andor a @ [Op (if bg then TBACKGND else TSEMI)]"
| "k_andor (AOne p) = k_pipe p"
| "k_andor (AMore a b p) = k_andor a @ Op (if b then TAND else TOR) # k_pipe p"
| "k_pipe (SPipe neg cs) = (if neg then [Kw TNOT] else []) @ k_cmds cs"
| "k_cmds (COne c) = k_cmd c"
| "k_cmds (CMore cs c) = k_cmds cs @ Op TPIPE # k_cmd c"
| "k_else ENone = []"
| "k_else (EElse l) = Kw TELSE # k_list l"
| "k_else (EElif a b e) = Kw TELIF # k_list a @ Kw TTHEN # k_list b @ k_else e"
| "k_cases KNil = []"
| "k_cases (KCons p ps b cs) = Wd p # concat (map (\<lambda>q. [Op TPIPE, Wd q]) ps) @ Op TRP # k_body b @ Op TENDCASE # k_cases cs"
| "k_body BNone = []"
| "k_body (BList l) = k_list l"

section \<open>Trees\<close>

definition t_word :: "sword \<Rightarrow> pword" where
  "t_word w = Narg (wlexed w) []"

fun t_redir :: "sredir \<Rightarrow> predir" where
  "t_redir (SFile ty fd w) = Nfile ty (int fd) (t_word w)"
| "t_redir (SDup ty fd n) = Ndup ty (int fd) (int n) None"

text \<open>
  A command with redirections is wrapped, a command in the background is marked: a pipeline in its own node, a
  command with redirections together with them, anything else by a node of its own.  A loop without words runs
  over the quoted list of parameters.
\<close>

definition t_redirs :: "sredir list \<Rightarrow> pnode \<Rightarrow> pnode" where
  "t_redirs rs n = (if rs = [] then n else Nredir n (map t_redir rs))"

fun detached :: "pnode \<Rightarrow> pnode" where
  "detached (Npipe bg ns) = Npipe True ns"
| "detached (Nredir n rs) = Nbackgnd n rs"
| "detached n = Nbackgnd n []"

definition all_params :: pword where
  "all_params = Narg [CTLQUOTEMARK, CTLVAR, char_of VSNORMAL, CHR ''@'', CHR ''='', CTLQUOTEMARK] []"

fun is_subshell :: "pnode \<Rightarrow> bool" where
  "is_subshell (Nsubshell n rs) = True"
| "is_subshell n = False"

primrec t_cmd :: "scmd \<Rightarrow> pnode" and t_list :: "slist \<Rightarrow> pnode" and t_andor :: "sandor \<Rightarrow> pnode" and t_pipe :: "spipe \<Rightarrow> pnode"
  and t_cmds :: "scmds \<Rightarrow> pnode list" and t_else :: "selse \<Rightarrow> pnode option" and t_cases :: "scases \<Rightarrow> (pword list \<times> pnode option) list"
  and t_body :: "sbody \<Rightarrow> pnode option" where
  "t_cmd (SSimple vs ws rs) = Ncmd (map t_word vs) (map t_word ws) (map t_redir rs)"
| "t_cmd (SIf a b e rs) = t_redirs rs (Nif (t_list a) (t_list b) (t_else e))"
| "t_cmd (SWhile u a b rs) = t_redirs rs ((if u then Nuntil else Nwhile) (t_list a) (t_list b))"
| "t_cmd (SFor v ws b rs) = t_redirs rs (Nfor v (case ws of None \<Rightarrow> [all_params] | Some us \<Rightarrow> map t_word us) (t_list b))"
| "t_cmd (SCase w cs rs) = t_redirs rs (Ncase (t_word w) (t_cases cs))"
| "t_cmd (SGroup l rs) = t_redirs rs (t_list l)"
| "t_cmd (SSub l rs) = Nsubshell (t_list l) (map t_redir rs)"
| "t_cmd (SFunc v c) = Ndefun v (t_cmd c)"
| "t_list (LOne a bg) = (if bg then detached (t_andor a) else t_andor a)"
| "t_list (LMore l a bg) = Nsemi (t_list l) (if bg then detached (t_andor a) else t_andor a)"
| "t_andor (AOne p) = t_pipe p"
| "t_andor (AMore a b p) = (if b then Nand else Nor) (t_andor a) (t_pipe p)"
| "t_pipe (SPipe neg cs) = (let n = (case t_cmds cs of [c] \<Rightarrow> c | ns \<Rightarrow> Npipe False ns) in if neg then Nnot n else n)"
| "t_cmds (COne c) = [t_cmd c]"
| "t_cmds (CMore cs c) = t_cmds cs @ [t_cmd c]"
| "t_else ENone = None"
| "t_else (EElse l) = Some (t_list l)"
| "t_else (EElif a b e) = Some (Nif (t_list a) (t_list b) (t_else e))"
| "t_cases KNil = []"
| "t_cases (KCons p ps b cs) = (map t_word (p # ps), t_body b) # t_cases cs"
| "t_body BNone = None"
| "t_body (BList l) = Some (t_list l)"

section \<open>Well-formed commands\<close>

fun ok_redir :: "sredir \<Rightarrow> bool" where
  "ok_redir (SFile ty fd w) = (ty \<in> {NTO, NCLOBBER, NAPPEND, NFROM, NFROMTO} \<and> length (dec_of_nat fd) \<le> 9 \<and> word_ok w)"
| "ok_redir (SDup ty fd n) = (ty \<in> {NTOFD, NFROMFD} \<and> length (dec_of_nat fd) \<le> 9 \<and> n < 2147483648)"

text \<open>
  The first word of a command is not a keyword and the first word behind the assignments is not an assignment;
  the name of a function is a name and not that of a special builtin; the first pattern of a case is not a keyword.
  A group with redirections is not just a subshell (its redirections would be lost, see \<open>Ash_Parse_Whole\<close>).
\<close>

definition ok_simple :: "sword list \<Rightarrow> sword list \<Rightarrow> sredir list \<Rightarrow> bool" where
  "ok_simple vs ws rs \<longleftrightarrow> (\<forall>w\<in>set (vs @ ws). word_ok w) \<and> (\<forall>v\<in>set vs. isassignment (wlexed v)) \<and>
     (vs @ ws \<noteq> [] \<longrightarrow> \<not> is_kwd (hd (vs @ ws))) \<and> (ws \<noteq> [] \<longrightarrow> \<not> isassignment (wlexed (hd ws))) \<and> (vs @ ws \<noteq> [] \<or> rs \<noteq> []) \<and> list_all ok_redir rs"

primrec ok_cmd :: "scmd \<Rightarrow> bool" and ok_list :: "slist \<Rightarrow> bool" and ok_andor :: "sandor \<Rightarrow> bool" and ok_pipe :: "spipe \<Rightarrow> bool"
  and ok_cmds :: "scmds \<Rightarrow> bool" and ok_else :: "selse \<Rightarrow> bool" and ok_cases :: "scases \<Rightarrow> bool" and ok_body :: "sbody \<Rightarrow> bool" where
  "ok_cmd (SSimple vs ws rs) = ok_simple vs ws rs"
| "ok_cmd (SIf a b e rs) = (ok_list a \<and> ok_list b \<and> ok_else e \<and> list_all ok_redir rs)"
| "ok_cmd (SWhile u a b rs) = (ok_list a \<and> ok_list b \<and> list_all ok_redir rs)"
| "ok_cmd (SFor v ws b rs) = (var_name v \<and> (case ws of None \<Rightarrow> True | Some us \<Rightarrow> list_all word_ok us) \<and> ok_list b \<and> list_all ok_redir rs)"
| "ok_cmd (SCase w cs rs) = (word_ok w \<and> ok_cases cs \<and> list_all ok_redir rs)"
| "ok_cmd (SGroup l rs) = (ok_list l \<and> list_all ok_redir rs \<and> (rs = [] \<or> \<not> is_subshell (t_list l)))"
| "ok_cmd (SSub l rs) = (ok_list l \<and> list_all ok_redir rs)"
| "ok_cmd (SFunc v c) = (var_name v \<and> v \<notin> set special_builtins \<and> findkwd v = None \<and> ok_cmd c)"
| "ok_list (LOne a bg) = ok_andor a"
| "ok_list (LMore l a bg) = (ok_list l \<and> ok_andor a)"
| "ok_andor (AOne p) = ok_pipe p"
| "ok_andor (AMore a b p) = (ok_andor a \<and> ok_pipe p)"
| "ok_pipe (SPipe neg cs) = ok_cmds cs"
| "ok_cmds (COne c) = ok_cmd c"
| "ok_cmds (CMore cs c) = (ok_cmds cs \<and> ok_cmd c)"
| "ok_else ENone = True"
| "ok_else (EElse l) = ok_list l"
| "ok_else (EElif a b e) = (ok_list a \<and> ok_list b \<and> ok_else e)"
| "ok_cases KNil = True"
| "ok_cases (KCons p ps b cs) = (list_all word_ok (p # ps) \<and> \<not> is_kwd p \<and> ok_body b \<and> ok_cases cs)"
| "ok_body BNone = True"
| "ok_body (BList l) = ok_list l"

end
