(* ===== verification/Ash_Parse_Tree.thy ===== *)
theory Ash_Parse_Tree
  imports Ash_Tree
begin

text \<open>
  The parser on the tokens of each construct.  One lemma per function of the grammar: it reads the tokens of its
  construct, gives the tree, and leaves the token behind it pushed back.  The bound of every loop and of the nesting
  is the length of the text that is left.  Theory \<open>Ash_Parse_Whole\<close> puts the constructs together.
\<close>

section \<open>Steps of the parser\<close>

lemma pbind_Inr: "m st = Inr (x, st1) \<Longrightarrow> pbind m f st = f x st1"
  by (simp add: pbind_def)

lemma set_chk_eq: "set_chk s st = Inr ((), st\<lparr>checkkwd := s\<rparr>)"
  by (simp add: set_chk_def pset_def)

lemma pushback_eq: "pushback st = Inr ((), st\<lparr>tokpushback := True\<rparr>)"
  by (simp add: pushback_def pset_def)

lemma step_simps:
  "pbind (set_chk s) f st = f () (st\<lparr>checkkwd := s\<rparr>)" "pbind pushback f st = f () (st\<lparr>tokpushback := True\<rparr>)"
  "pbind (pread g) h st = h (g st) st" "pbind (pret x) i st = i x st" "pret y st = Inr (y, st)"
  by (simp_all add: pbind_def set_chk_eq pushback_eq pread_def pret_def)

definition unpushed :: "item list \<Rightarrow> pstate \<Rightarrow> bool" where
  "unpushed xs st \<longleftrightarrow> before xs st \<and> \<not> tokpushback st \<and> checkkwd st = {}"

lemma ready_unpushed: "ready (x # xs) st \<Longrightarrow> unpushed xs st"
  using ready_before by (auto simp: unpushed_def ready_def)

lemma unpushed_before: "unpushed xs st \<Longrightarrow> before xs st"
  by (simp add: unpushed_def)

lemma before_set_chk: "before xs st \<Longrightarrow> CHKEOFMARK \<notin> s \<Longrightarrow> before xs (st\<lparr>checkkwd := s\<rparr>)"
  by (simp add: before_def)

lemma pushed_fine: "pushed xs st \<Longrightarrow> fine st xs"
  by (auto simp: pushed_def fine_def split: list.split item.split)

lemma unpushed_fine: "unpushed xs st \<Longrightarrow> \<forall>t ys. xs \<noteq> Kw t # ys \<Longrightarrow> fine st xs"
  by (auto simp: unpushed_def fine_def split: list.split item.split)

lemma fine_simps [simp]:
  "fine st (Op t # xs)" "fine st (Rd ty fd # xs)" "CHKKWD \<in> checkkwd st \<Longrightarrow> fine st (Kw t # xs)" "\<not> is_kwd w \<Longrightarrow> fine st (Wd w # xs)" "fine st []"
  by (simp_all add: fine_def)

lemma read_tok:
  assumes "before xs st" "fine st xs" "length (spell xs) < k"
  obtains st' where "readtoken k G st = Inr (tokhd xs, st')" "ready xs st'"
  using readtoken_item [OF assms, of G] by blast

lemma tokhd_Cons [simp]: "tokhd (x # xs) = tok x" "tokhd [] = TEOF"
  by (simp_all add: tokhd_def)

lemma expect_bind:
  assumes "before (x # xs) st" "fine st (x # xs)" "length (spell (x # xs)) < k" "tok x = t"
  shows "\<exists>st'. pbind (expect k G t) f st = f () st' \<and> unpushed xs st'"
proof -
  obtain st' where "readtoken k G st = Inr (tok x, st')" "ready (x # xs) st'" using readtoken_item [OF assms(1-3), of G] by auto
  then show ?thesis using assms(4) ready_unpushed by (intro exI [of _ st']) (simp add: expect_def pbind_def pret_def)
qed

lemma makename_bind: "ready (Wd w # xs) st \<Longrightarrow> pbind makename f st = f (t_word w) st"
  by (simp add: makename_def step_simps ready_def behind_def t_word_def)

lemma makename_Inr: "ready (Wd w # xs) st \<Longrightarrow> makename st = Inr (t_word w, st)"
  by (simp add: makename_def pread_def ready_def behind_def t_word_def)

lemma expect_Inr: "readtoken k G st = Inr (t, st1) \<Longrightarrow> expect k G t st = Inr ((), st1)"
  by (simp add: expect_def pbind_Inr step_simps)

section \<open>Redirections\<close>

lemma strtoul_dec: "n < 2147483648 \<Longrightarrow> bb_strtoul (dec_of_nat n) 10 = ((int n, NumOk), [])"
proof -
  assume "n < 2147483648"
  moreover have "isalnum (char_at (dec_of_nat n) 0)" using dec_of_nat_digits [of "hd (dec_of_nat n)" n]
    by (cases "dec_of_nat n") (auto simp: char_at_def isalnum_def)
  ultimately show ?thesis by (simp add: bb_strtoul_def strtou_errno_def strtou_dec handle_errors_def)
qed

lemma parsefname_bind:
  assumes "ready (k_redir r @ ys) st" "ok_redir r" "length (spell (k_redir r @ ys)) < k"
  shows "\<exists>st'. pbind (pread redirnode) (\<lambda>n. pbind (parsefname k G n) f) st = f (t_redir r) st' \<and> unpushed ys st'"
proof -
  obtain ty fd w where r: "k_redir r = [Rd ty fd, Wd w]" by (cases r) auto
  have n: "redirnode st = \<lparr>rn_type = ty, rn_fd = int fd, rn_here = 0\<rparr>" using assms(1) r by (simp add: ready_def behind_def)
  have ty: "ty \<noteq> NHERE" using assms(2) r by (cases r) auto
  have "unpushed (Wd w # ys) st" using assms(1) r ready_unpushed by simp
  moreover have "fine st (Wd w # ys)" using calculation by (intro unpushed_fine) auto
  ultimately obtain st' where st': "readtoken k G st = Inr (TWORD, st')" "ready (Wd w # ys) st'"
    using readtoken_item [of "Wd w # ys" st k G] assms(3) r unpushed_before by fastforce
  have w: "wordtext st' = wlexed w" "backquotelist st' = []" using st'(2) by (simp_all add: ready_def behind_def)
  have "parsefname k G (redirnode st) st = Inr (t_redir r, st')"
  proof (cases r)
    case (SDup ty' fd' m)
    then have "bb_strtoul (wordtext st') 10 = ((int m, NumOk), [])" using assms(2) r w by (auto intro: strtoul_dec)
    then show ?thesis using assms(2) r st'(1) w SDup by (auto simp: n parsefname_def pbind_def pret_def pread_def fixredir_def)
  qed (use assms(2) r st'(1) w in \<open>auto simp: n parsefname_def pbind_def pret_def pread_def makename_def t_word_def\<close>)
  then show ?thesis using ready_unpushed [OF st'(2)] by (intro exI [of _ st']) (simp add: step_simps(3) pbind_Inr)
qed

definition follow :: "item list \<Rightarrow> bool" where
  "follow ys \<longleftrightarrow> (\<exists>t zs. ys = Op t # zs \<and> t \<in> {TSEMI, TBACKGND, TAND, TOR, TPIPE})"

lemma redirs_fine: "follow ys \<Longrightarrow> fine st (k_redirs rs @ ys)"
proof (cases rs)
  case (Cons r rs')
  then show ?thesis by (cases r) (simp_all add: k_redirs_def)
qed (auto simp: follow_def k_redirs_def)

lemma redir_loop_reads:
  assumes "before (k_redirs rs @ ys) st" "follow ys" "list_all ok_redir rs" "length (spell (k_redirs rs @ ys)) < k" "length (spell (k_redirs rs @ ys)) < n"
  shows "\<exists>st'. redir_loop n k G acc st = Inr (acc @ map t_redir rs, st') \<and> pushed ys st'"
  using assms
proof (induction rs arbitrary: n acc st)
  case Nil
  then obtain n' where n: "n = Suc n'" by (cases n) auto
  obtain st' where "readtoken k G st = Inr (tokhd ys, st')" "ready ys st'"
    using read_tok [OF Nil(1) redirs_fine [OF Nil(2)] Nil(4), of G] by (auto simp: k_redirs_def)
  then show ?case using Nil(2) ready_pushback [of ys st'] by (auto simp: n follow_def pbind_Inr step_simps)
next
  case (Cons r rs)
  then obtain n' where n: "n = Suc n'" by (cases n) auto
  have k: "k_redirs (r # rs) @ ys = k_redir r @ k_redirs rs @ ys" by (simp add: k_redirs_def)
  obtain ty fd w where r: "k_redir r = [Rd ty fd, Wd w]" by (cases r) auto
  obtain st1 where "readtoken k G st = Inr (TREDIR, st1)" and rd: "ready (k_redir r @ k_redirs rs @ ys) st1"
    using read_tok [OF Cons.prems(1) redirs_fine [OF Cons.prems(2)] Cons.prems(4), of G] r by (auto simp: k)
  then have st1: "redir_loop n k G acc st = pbind (pread redirnode) (\<lambda>r. pbind (parsefname k G r) (\<lambda>r1. redir_loop n' k G (acc @ [r1]))) st1"
    by (simp add: n pbind_Inr)
  from parsefname_bind [OF rd, where k = k and G = G and f = "\<lambda>r1. redir_loop n' k G (acc @ [r1])"] obtain st2 where
    st2: "redir_loop n k G acc st = redir_loop n' k G (acc @ [t_redir r]) st2" "unpushed (k_redirs rs @ ys) st2"
    using st1 Cons.prems(3,4) k by auto
  from Cons.IH [OF unpushed_before [OF st2(2)] Cons.prems(2), of n' "acc @ [t_redir r]"] Cons.prems(3-5) show ?case
    using st2(1) by (auto simp: k_redirs_def n r)
qed

section \<open>Simple commands\<close>

lemma plain_fine: "CHKKWD \<notin> s \<Longrightarrow> \<forall>t ys. xs \<noteq> Kw t # ys \<Longrightarrow> fine (st\<lparr>checkkwd := s\<rparr>) xs"
  by (auto simp: fine_def split: list.split item.split)

lemma read_plain:
  assumes "before xs st" "CHKKWD \<notin> s" "CHKEOFMARK \<notin> s" "\<forall>t ys. xs \<noteq> Kw t # ys" "length (spell xs) < k"
  obtains st' where "readtoken k G (st\<lparr>checkkwd := s\<rparr>) = Inr (tokhd xs, st')" "ready xs st'"
  using read_tok [OF before_set_chk [OF assms(1,3)] plain_fine [OF assms(2,4)] assms(5), of G] by blast

lemma simple_step:
  assumes "before xs st" "\<forall>t ys. xs \<noteq> Kw t # ys" "length (spell xs) < k"
  obtains st' where "ready xs st'" "simple_loop (Suc n) k G a vs ws rs st =
     (if tokhd xs = TWORD then
         pbind makename (\<lambda>w. pbind (pread wordtext) (\<lambda>text.
           if a \<and> isassignment text then simple_loop n k G a (vs @ [w]) ws rs else simple_loop n k G False vs (ws @ [w]) rs)) st'
       else if tokhd xs = TREDIR then
         pbind (pread redirnode) (\<lambda>r. pbind (parsefname k G r) (\<lambda>r1. simple_loop n k G a vs ws (rs @ [r1]))) st'
       else (case (tokhd xs = TLP, ws, vs, rs) of
              (True, [Narg name bq], [], []) \<Rightarrow> func_def k G name
            | _ \<Rightarrow> pbind pushback (\<lambda>_. pret (Ncmd vs ws rs))) st')"
proof -
  have c: "CHKKWD \<notin> (if a then {CHKALIAS} else {})" "CHKEOFMARK \<notin> (if a then {CHKALIAS} else {})" by simp_all
  obtain st' where st': "readtoken k G (st\<lparr>checkkwd := if a then {CHKALIAS} else {}\<rparr>) = Inr (tokhd xs, st')" "ready xs st'"
    by (rule read_plain [OF assms(1) c assms(2,3)])
  have e: "pbind (readtoken k G) f (st\<lparr>checkkwd := if a then {CHKALIAS} else {}\<rparr>) = f (tokhd xs) st'" for f :: "token \<Rightarrow> pnode parser" using st'(1) by (simp add: pbind_def)
  show ?thesis by (rule that [OF st'(2)]) (simp only: simple_loop.simps step_simps(1) e if_distribR)
qed

lemma simple_redirs:
  assumes "before (k_redirs rs @ ys) st" "follow ys" "list_all ok_redir rs" "length (spell (k_redirs rs @ ys)) < k" "length (spell (k_redirs rs @ ys)) < n"
  shows "\<exists>st'. simple_loop n k G a vs ws acc st = Inr (Ncmd vs ws (acc @ map t_redir rs), st') \<and> pushed ys st'"
  using assms
proof (induction rs arbitrary: n acc st)
  case Nil
  then obtain n' where n: "n = Suc n'" by (cases n) auto
  obtain t zs where t: "ys = Op t # zs" "t \<in> {TSEMI, TBACKGND, TAND, TOR, TPIPE}" using Nil(2) by (auto simp: follow_def)
  have kw: "\<forall>t ys'. k_redirs [] @ ys \<noteq> Kw t # ys'" by (simp add: k_redirs_def t)
  obtain st' where "ready (k_redirs [] @ ys) st'" "simple_loop n k G a vs ws acc st = pbind pushback (\<lambda>_. pret (Ncmd vs ws acc)) st'"
    by (rule simple_step [OF Nil(1) kw Nil(4), of n' G a vs ws acc]) (use t in \<open>auto simp: k_redirs_def n\<close>)
  then have "ready ys st'" "simple_loop n k G a vs ws acc st = Inr (Ncmd vs ws acc, st'\<lparr>tokpushback := True\<rparr>)"
    by (simp_all add: step_simps k_redirs_def)
  then show ?case using ready_pushback by simp
next
  case (Cons r rs)
  then obtain n' where n: "n = Suc n'" by (cases n) auto
  have k: "k_redirs (r # rs) @ ys = k_redir r @ k_redirs rs @ ys" by (simp add: k_redirs_def)
  obtain ty fd w where r: "k_redir r = [Rd ty fd, Wd w]" by (cases r) auto
  have kw: "\<forall>t ys'. k_redirs (r # rs) @ ys \<noteq> Kw t # ys'" by (simp add: k r)
  obtain st1 where st1: "ready (k_redir r @ k_redirs rs @ ys) st1"
      "simple_loop n k G a vs ws acc st = pbind (pread redirnode) (\<lambda>r. pbind (parsefname k G r) (\<lambda>r1. simple_loop n' k G a vs ws (acc @ [r1]))) st1"
    by (rule simple_step [OF Cons.prems(1) kw Cons.prems(4), of n' G a vs ws acc]) (simp add: n k r)
  obtain st2 where st2: "simple_loop n k G a vs ws acc st = simple_loop n' k G a vs ws (acc @ [t_redir r]) st2" "unpushed (k_redirs rs @ ys) st2"
    using parsefname_bind [OF st1(1), where k = k and G = G and f = "\<lambda>r1. simple_loop n' k G a vs ws (acc @ [r1])"] st1(2) Cons.prems(3,4) k by auto
  from Cons.IH [OF unpushed_before [OF st2(2)] Cons.prems(2), of n' "acc @ [t_redir r]"] Cons.prems(3-5) show ?case
    using st2(1) by (auto simp: k_redirs_def n r)
qed

text \<open>Words are taken over until another token comes; the flag says whether assignments are still taken.\<close>

lemma simple_word:
  assumes "before (Wd w # zs) st" "length (spell (Wd w # zs)) < k"
  obtains st' where "unpushed zs st'" "simple_loop (Suc n) k G a vs ws rs st =
     (if a \<and> isassignment (wlexed w) then simple_loop n k G a (vs @ [t_word w]) ws rs st' else simple_loop n k G False vs (ws @ [t_word w]) rs st')"
proof -
  have "\<forall>t ys. Wd w # zs \<noteq> Kw t # ys" by simp
  then obtain st' where st': "ready (Wd w # zs) st'"
    "simple_loop (Suc n) k G a vs ws rs st = pbind makename (\<lambda>w. pbind (pread wordtext) (\<lambda>text.
           if a \<and> isassignment text then simple_loop n k G a (vs @ [w]) ws rs else simple_loop n k G False vs (ws @ [w]) rs)) st'"
    using simple_step [OF assms(1) _ assms(2), of n G a vs ws rs thesis] by (simp del: simple_loop.simps)
  moreover have "wordtext st' = wlexed w" using st'(1) by (simp add: ready_def behind_def)
  ultimately show ?thesis using that [of st'] ready_unpushed [OF st'(1)] by (simp add: makename_bind [OF st'(1)] step_simps(3))
qed

lemma simple_words:
  assumes "before (map Wd us @ zs) st" "length (spell (map Wd us @ zs)) < k" "length (spell (map Wd us @ zs)) < n"
  shows "\<exists>n' st'. simple_loop n k G False vs ws rs st = simple_loop n' k G False vs (ws @ map t_word us) rs st' \<and> before zs st' \<and> length (spell zs) < n'"
  using assms
proof (induction us arbitrary: n ws st)
  case (Cons u us)
  then obtain n' where n: "n = Suc n'" by (cases n) auto
  have b: "before (Wd u # map Wd us @ zs) st" "length (spell (Wd u # map Wd us @ zs)) < k" using Cons.prems by simp_all
  obtain st' where "unpushed (map Wd us @ zs) st'" "simple_loop n k G False vs ws rs st = simple_loop n' k G False vs (ws @ [t_word u]) rs st'"
    using simple_word [OF b, of n' G False vs ws rs] n by auto
  then show ?case using Cons.IH [of st' n' "ws @ [t_word u]"] Cons.prems n by (auto dest: unpushed_before)
qed auto

lemma simple_assigns:
  assumes "before (map Wd us @ zs) st" "length (spell (map Wd us @ zs)) < k" "length (spell (map Wd us @ zs)) < n" "\<forall>u\<in>set us. isassignment (wlexed u)"
  shows "\<exists>n' st'. simple_loop n k G True vs ws rs st = simple_loop n' k G True (vs @ map t_word us) ws rs st' \<and> before zs st' \<and> length (spell zs) < n'"
  using assms
proof (induction us arbitrary: n vs st)
  case (Cons u us)
  then obtain n' where n: "n = Suc n'" by (cases n) auto
  have b: "before (Wd u # map Wd us @ zs) st" "length (spell (Wd u # map Wd us @ zs)) < k" using Cons.prems by simp_all
  obtain st' where "unpushed (map Wd us @ zs) st'" "simple_loop n k G True vs ws rs st = simple_loop n' k G True (vs @ [t_word u]) ws rs st'"
    using simple_word [OF b, of n' G True vs ws rs] n Cons.prems(4) by auto
  then show ?case using Cons.IH [of st' n' "vs @ [t_word u]"] Cons.prems n by (auto dest: unpushed_before)
qed auto

lemma simplecmd_reads:
  assumes "before (map Wd vs @ map Wd ws @ k_redirs rs @ ys) st" "ok_simple vs ws rs" "follow ys" "length (spell (map Wd vs @ map Wd ws @ k_redirs rs @ ys)) < k"
  shows "\<exists>st'. simplecmd k G st = Inr (Ncmd (map t_word vs) (map t_word ws) (map t_redir rs), st') \<and> pushed ys st'"
proof -
  have ok: "list_all ok_redir rs" "\<forall>v\<in>set vs. isassignment (wlexed v)" using assms(2) by (simp_all add: ok_simple_def)
  let ?zs = "k_redirs rs @ ys"
  from simple_assigns [OF assms(1,4,4) ok(2), of G "[]" "[]" "[]"] obtain n1 st1 where
    1: "simplecmd k G st = simple_loop n1 k G True (map t_word vs) [] [] st1" "before (map Wd ws @ ?zs) st1" "length (spell (map Wd ws @ ?zs)) < n1"
    unfolding simplecmd_def by auto
  have "\<exists>a n2 st2. simplecmd k G st = simple_loop n2 k G a (map t_word vs) (map t_word ws) [] st2 \<and> before ?zs st2 \<and> length (spell ?zs) < n2"
  proof (cases ws)
    case Nil
    then show ?thesis using 1 by fastforce
  next
    case (Cons u us)
    then obtain n2 where n1: "n1 = Suc n2" using 1(3) by (cases n1) auto
    have b: "before (Wd u # map Wd us @ ?zs) st1" "length (spell (Wd u # map Wd us @ ?zs)) < k" using 1(2) assms(4) Cons by simp_all
    obtain st2 where st2: "unpushed (map Wd us @ ?zs) st2" "simplecmd k G st = simple_loop n2 k G False (map t_word vs) [t_word u] [] st2"
      using simple_word [OF b, of n2 G True "map t_word vs" "[]" "[]"] 1(1) n1 assms(2) Cons by (auto simp: ok_simple_def)
    from simple_words [OF unpushed_before [OF st2(1)], of k n2 G "map t_word vs" "[t_word u]" "[]"] show ?thesis
      using st2(2) 1(3) n1 assms(4) Cons by fastforce
  qed
  then obtain a n2 st2 where 2: "simplecmd k G st = simple_loop n2 k G a (map t_word vs) (map t_word ws) [] st2" "before ?zs st2" "length (spell ?zs) < n2" by blast
  show ?thesis using simple_redirs [OF 2(2) assms(3) ok(1) _ 2(3), of k G a "map t_word vs" "map t_word ws" "[]"] 2(1) assms(4) by simp
qed

section \<open>The parts of a compound command\<close>

text \<open>A position at which keywords are recognised.\<close>

definition cmdpos :: "pstate \<Rightarrow> bool" where
  "cmdpos st \<longleftrightarrow> tokpushback st \<or> CHKKWD \<in> checkkwd st"

lemma pushed_cmdpos: "pushed xs st \<Longrightarrow> cmdpos st"
  by (simp add: pushed_def cmdpos_def)

lemma pushed_chk: "pushed xs st \<Longrightarrow> CHKEOFMARK \<notin> s \<Longrightarrow> before xs (st\<lparr>checkkwd := s\<rparr>)"
  by (simp add: pushed_def before_def)

lemma fine_kw [simp]: "cmdpos st \<Longrightarrow> fine st (Kw t # xs)"
  by (auto simp: cmdpos_def fine_def)

text \<open>The token that ends the list inside a command.\<close>

definition closer :: "item list \<Rightarrow> bool" where
  "closer ys \<longleftrightarrow> (\<exists>x zs. ys = x # zs \<and> tok x \<in> tokendlist \<and> (x = Op TRP \<or> x = Op TENDCASE \<or> (\<exists>t. x = Kw t)))"

lemma closer_simps [simp]:
  "closer (Op TRP # xs)" "closer (Op TENDCASE # xs)" "t \<in> {TTHEN, TELIF, TELSE, TFI, TDO, TDONE, TEND, TESAC} \<Longrightarrow> closer (Kw t # xs)"
  by (auto simp: closer_def tokendlist_def)

lemma closer_fine: "closer xs \<Longrightarrow> cmdpos st \<Longrightarrow> fine st xs"
  by (auto simp: closer_def)

definition reads_list :: "slist \<Rightarrow> bool" where
  "reads_list l \<longleftrightarrow> (\<forall>k nl ys st. nl \<in> {0, 2} \<longrightarrow> closer ys \<longrightarrow> before (k_list l @ ys) st \<longrightarrow> Suc (length (spell (k_list l @ ys))) < k \<longrightarrow>
     (\<exists>st'. list_at k nl st = Inr (Some (t_list l), st') \<and> pushed ys st'))"

lemma grammar_at_simps [simp]:
  "g_list (grammar_at k) = list_at k" "g_command (grammar_at k) = command_at k"
  by (simp_all add: grammar_at_def)

lemma list_bind:
  assumes "reads_list l" "before (k_list l @ ys) st" "closer ys" "Suc (length (spell (k_list l @ ys))) < k" "nl \<in> {0, 2}"
  shows "\<exists>st'. pbind (list_at k nl) f st = f (Some (t_list l)) st' \<and> pushed ys st'"
  using assms unfolding reads_list_def by (metis pbind_Inr)

lemma with_redir_tree [simp]:
  "\<not> is_subshell n \<or> rs = [] \<Longrightarrow> with_redir n (map t_redir rs) = t_redirs rs n" "with_redir (Nsubshell n []) (map t_redir rs) = Nsubshell n (map t_redir rs)"
  by (cases n; simp add: with_redir_def t_redirs_def) (simp add: with_redir_def)

lemma with_redir_none [simp]: "with_redir n [] = n" "t_redirs [] n = n"
  by (simp_all add: with_redir_def t_redirs_def)

lemma background_tree: "background n = detached n"
  by (cases n) (simp_all add: background_def)

lemma dolatstr_params [simp]: "Narg dolatstr [] = all_params"
  by (simp add: dolatstr_def all_params_def)

lemma finish_reads:
  assumes "before (x # k_redirs rs @ ys) st" "cmdpos st" "closer (x # k_redirs rs @ ys)" "follow ys" "list_all ok_redir rs" "length (spell (x # k_redirs rs @ ys)) < k" "t = tok x"
  shows "\<exists>st'. finish_command k G (Some t) (Some n) st = Inr (with_redir n (map t_redir rs), st') \<and> pushed ys st'"
proof -
  let ?f = "\<lambda>_. pbind (set_chk {CHKKWD, CHKALIAS}) (\<lambda>_. pbind (redir_loop k k G []) (\<lambda>rs. pret (with_redir n rs)))"
  obtain st1 where st1: "pbind (expect k G t) ?f st = ?f () st1" "unpushed (k_redirs rs @ ys) st1"
    using expect_bind [OF assms(1) closer_fine [OF assms(3,2)] assms(6) assms(7) [symmetric], of G ?f] by blast
  have "before (k_redirs rs @ ys) (st1\<lparr>checkkwd := {CHKKWD, CHKALIAS}\<rparr>)" using st1(2) by (auto simp: unpushed_def intro: before_set_chk)
  from redir_loop_reads [OF this assms(4,5), of k k G "[]"] assms(6) obtain st2 where
    "redir_loop k k G [] (st1\<lparr>checkkwd := {CHKKWD, CHKALIAS}\<rparr>) = Inr (map t_redir rs, st2)" "pushed ys st2" by auto
  then show ?thesis using st1(1) by (auto simp: finish_command_def step_simps pbind_Inr)
qed

lemma while_reads:
  assumes "reads_list a" "reads_list b" "before (k_list a @ Kw TDO # k_list b @ Kw TDONE # ys) st" "Suc (length (spell (k_list a @ Kw TDO # k_list b @ Kw TDONE # ys))) < k"
  shows "\<exists>st'. parse_while k (grammar_at k) mk st = Inr (Some (mk (t_list a) (t_list b)), st') \<and> pushed (Kw TDONE # ys) st'"
proof -
  let ?h = "\<lambda>test body. pret (case (test, body) of (Some a, Some b) \<Rightarrow> Some (mk a b) | _ \<Rightarrow> None)"
  let ?g = "\<lambda>test. pbind (expect k (grammar_at k) TDO) (\<lambda>_. pbind (list_at k 0) (?h test))"
  obtain st1 where st1: "pbind (list_at k 0) ?g st = ?g (Some (t_list a)) st1" "pushed (Kw TDO # k_list b @ Kw TDONE # ys) st1"
    using list_bind [OF assms(1,3) _ assms(4), of 0 ?g] by auto
  obtain st2 where st2: "?g (Some (t_list a)) st1 = pbind (list_at k 0) (?h (Some (t_list a))) st2" "unpushed (k_list b @ Kw TDONE # ys) st2"
    using expect_bind [OF pushed_before [OF st1(2)] pushed_fine [OF st1(2)], of k TDO "grammar_at k"] assms(4) by fastforce
  from list_bind [OF assms(2) unpushed_before [OF st2(2)], of k 0 "?h (Some (t_list a))"] obtain st3 where
    "pbind (list_at k 0) (?h (Some (t_list a))) st2 = ?h (Some (t_list a)) (Some (t_list b)) st3" "pushed (Kw TDONE # ys) st3" using assms(4) by auto
  then show ?thesis using st1(1) st2(1) by (auto simp: parse_while_def step_simps)
qed

section \<open>Conditionals\<close>

definition else_part :: "nat \<Rightarrow> nat \<Rightarrow> grammar \<Rightarrow> token \<Rightarrow> pnode option parser" where
  "else_part n k G t = (if t = TELIF then parse_if n k G else if t = TELSE then g_list G 0 else pbind pushback (\<lambda>_. pret None))"

definition reads_else :: "selse \<Rightarrow> bool" where
  "reads_else e \<longleftrightarrow> (\<forall>k n ys st. pushed (k_else e @ Kw TFI # ys) st \<longrightarrow> Suc (length (spell (k_else e @ Kw TFI # ys))) < k \<longrightarrow>
     length (spell (k_else e @ Kw TFI # ys)) < n \<longrightarrow>
     (\<exists>t st1 st2. readtoken k (grammar_at k) st = Inr (t, st1) \<and> else_part n k (grammar_at k) t st1 = Inr (t_else e, st2) \<and>
        (t = TELIF \<longrightarrow> t_else e \<noteq> None) \<and> pushed (Kw TFI # ys) st2))"

lemma else_closer: "closer (k_else e @ Kw TFI # ys)"
  by (cases e) simp_all

lemma if_reads:
  assumes "reads_list a" "reads_list b" "reads_else e" "before (k_list a @ Kw TTHEN # k_list b @ k_else e @ Kw TFI # ys) st"
    "Suc (length (spell (k_list a @ Kw TTHEN # k_list b @ k_else e @ Kw TFI # ys))) < k" "length (spell (k_list a @ Kw TTHEN # k_list b @ k_else e @ Kw TFI # ys)) < n"
  shows "\<exists>st'. parse_if n k (grammar_at k) st = Inr (Some (Nif (t_list a) (t_list b) (t_else e)), st') \<and> pushed (Kw TFI # ys) st'"
proof -
  obtain m where n: "n = Suc m" using assms(6) by (cases n) auto
  let ?i = "\<lambda>test ifpart t elsepart. pret (case (test, ifpart) of (Some a, Some b) \<Rightarrow> if t = TELIF \<and> elsepart = None then None else Some (Nif a b elsepart) | _ \<Rightarrow> None)"
  let ?h = "\<lambda>test ifpart. pbind (readtoken k (grammar_at k)) (\<lambda>t. pbind (else_part m k (grammar_at k) t) (?i test ifpart t))"
  let ?g = "\<lambda>test. pbind (expect k (grammar_at k) TTHEN) (\<lambda>_. pbind (list_at k 0) (?h test))"
  have eq: "parse_if n k (grammar_at k) st = pbind (list_at k 0) ?g st" by (simp add: n else_part_def)
  obtain st1 where st1: "pbind (list_at k 0) ?g st = ?g (Some (t_list a)) st1" "pushed (Kw TTHEN # k_list b @ k_else e @ Kw TFI # ys) st1"
    using list_bind [OF assms(1,4) _ assms(5), of 0 ?g] by auto
  obtain st2 where st2: "?g (Some (t_list a)) st1 = pbind (list_at k 0) (?h (Some (t_list a))) st2" "unpushed (k_list b @ k_else e @ Kw TFI # ys) st2"
    using expect_bind [OF pushed_before [OF st1(2)] pushed_fine [OF st1(2)], of k TTHEN "grammar_at k"] assms(5) by fastforce
  from list_bind [OF assms(2) unpushed_before [OF st2(2)] else_closer, of k 0 "?h (Some (t_list a))"] obtain st3 where
    st3: "pbind (list_at k 0) (?h (Some (t_list a))) st2 = ?h (Some (t_list a)) (Some (t_list b)) st3" "pushed (k_else e @ Kw TFI # ys) st3" using assms(5) by auto
  from assms(3) [unfolded reads_else_def, rule_format, OF st3(2), of k m] obtain t st4 st5 where
    "readtoken k (grammar_at k) st3 = Inr (t, st4)" "else_part m k (grammar_at k) t st4 = Inr (t_else e, st5)" "t = TELIF \<longrightarrow> t_else e \<noteq> None" "pushed (Kw TFI # ys) st5"
    using assms(5,6) n by auto
  then show ?thesis unfolding eq st1(1) st2(1) st3(1) by (auto simp: pbind_Inr step_simps)
qed

lemma else_reads:
  "reads_else ENone" "reads_list l \<Longrightarrow> reads_else (EElse l)" "reads_list a \<Longrightarrow> reads_list b \<Longrightarrow> reads_else e \<Longrightarrow> reads_else (EElif a b e)"
proof -
  show "reads_else ENone" unfolding reads_else_def
  proof (intro allI impI)
    fix k n ys st assume a: "pushed (k_else ENone @ Kw TFI # ys) st" "Suc (length (spell (k_else ENone @ Kw TFI # ys))) < k"
    have "length (spell (k_else ENone @ Kw TFI # ys)) < k" using a(2) by simp
    from read_tok [OF pushed_before [OF a(1)] pushed_fine [OF a(1)] this, of "grammar_at k"] obtain st1 where
      "readtoken k (grammar_at k) st = Inr (TFI, st1)" "ready (Kw TFI # ys) st1" by auto
    then show "\<exists>t st1 st2. readtoken k (grammar_at k) st = Inr (t, st1) \<and> else_part n k (grammar_at k) t st1 = Inr (t_else ENone, st2) \<and>
        (t = TELIF \<longrightarrow> t_else ENone \<noteq> None) \<and> pushed (Kw TFI # ys) st2"
      using ready_pushback by (auto simp: else_part_def step_simps)
  qed
  show "reads_else (EElse l)" if l: "reads_list l" unfolding reads_else_def
  proof (intro allI impI)
    fix k n ys st assume a: "pushed (k_else (EElse l) @ Kw TFI # ys) st" "Suc (length (spell (k_else (EElse l) @ Kw TFI # ys))) < k"
    have "length (spell (k_else (EElse l) @ Kw TFI # ys)) < k" using a(2) by simp
    from read_tok [OF pushed_before [OF a(1)] pushed_fine [OF a(1)] this, of "grammar_at k"] obtain st1 where
      1: "readtoken k (grammar_at k) st = Inr (TELSE, st1)" "ready (Kw TELSE # k_list l @ Kw TFI # ys) st1" by auto
    from l [unfolded reads_list_def, rule_format, of 0 "Kw TFI # ys" st1 k] ready_before [OF 1(2)] a(2) obtain st2 where
      "list_at k 0 st1 = Inr (Some (t_list l), st2)" "pushed (Kw TFI # ys) st2" by auto
    then show "\<exists>t st1 st2. readtoken k (grammar_at k) st = Inr (t, st1) \<and> else_part n k (grammar_at k) t st1 = Inr (t_else (EElse l), st2) \<and>
        (t = TELIF \<longrightarrow> t_else (EElse l) \<noteq> None) \<and> pushed (Kw TFI # ys) st2"
      using 1(1) by (auto simp: else_part_def)
  qed
  show "reads_else (EElif a b e)" if l: "reads_list a" "reads_list b" "reads_else e" unfolding reads_else_def
  proof (intro allI impI)
    fix k n ys st assume as: "pushed (k_else (EElif a b e) @ Kw TFI # ys) st" "Suc (length (spell (k_else (EElif a b e) @ Kw TFI # ys))) < k"
      "length (spell (k_else (EElif a b e) @ Kw TFI # ys)) < n"
    have "length (spell (k_else (EElif a b e) @ Kw TFI # ys)) < k" using as(2) by simp
    from read_tok [OF pushed_before [OF as(1)] pushed_fine [OF as(1)] this, of "grammar_at k"] obtain st1 where
      1: "readtoken k (grammar_at k) st = Inr (TELIF, st1)" "ready (Kw TELIF # k_list a @ Kw TTHEN # k_list b @ k_else e @ Kw TFI # ys) st1" by auto
    from if_reads [OF l ready_before [OF 1(2)], of k n] as(2,3) obtain st2 where
      "parse_if n k (grammar_at k) st1 = Inr (Some (Nif (t_list a) (t_list b) (t_else e)), st2)" "pushed (Kw TFI # ys) st2" by auto
    then show "\<exists>t st1 st2. readtoken k (grammar_at k) st = Inr (t, st1) \<and> else_part n k (grammar_at k) t st1 = Inr (t_else (EElif a b e), st2) \<and>
        (t = TELIF \<longrightarrow> t_else (EElif a b e) \<noteq> None) \<and> pushed (Kw TFI # ys) st2"
      using 1(1) by (auto simp: else_part_def)
  qed
qed

section \<open>For loops\<close>

lemma for_words_reads:
  assumes "before (map Wd us @ Op TSEMI # ys) st" "\<not> tokpushback st" "checkkwd st = {}" "length (spell (map Wd us @ Op TSEMI # ys)) < k" "length (spell (map Wd us @ Op TSEMI # ys)) < n"
  shows "\<exists>st'. for_words n k G acc st = Inr (acc @ map t_word us, st') \<and> unpushed ys st'"
  using assms
proof (induction us arbitrary: n acc st)
  case Nil
  then obtain m where n: "n = Suc m" by (cases n) auto
  have b: "before (Op TSEMI # ys) st" "length (spell (Op TSEMI # ys)) < k" using Nil by simp_all
  from read_tok [OF b(1) fine_simps(1) b(2), of G] obtain st' where "readtoken k G st = Inr (TSEMI, st')" "ready (Op TSEMI # ys) st'" by auto
  then show ?case using ready_unpushed by (auto simp: n pbind_Inr step_simps)
next
  case (Cons u us)
  then obtain m where n: "n = Suc m" by (cases n) auto
  have b: "before (Wd u # map Wd us @ Op TSEMI # ys) st" "fine st (Wd u # map Wd us @ Op TSEMI # ys)" "length (spell (Wd u # map Wd us @ Op TSEMI # ys)) < k"
    using Cons.prems by (simp_all add: fine_def)
  from read_tok [OF b, of G] obtain st' where st': "readtoken k G st = Inr (TWORD, st')" "ready (Wd u # map Wd us @ Op TSEMI # ys) st'" by auto
  then have "for_words n k G acc st = for_words m k G (acc @ [t_word u]) st'" "unpushed (map Wd us @ Op TSEMI # ys) st'"
    using makename_bind ready_unpushed by (simp_all add: n pbind_Inr)
  with Cons.IH [of st' m "acc @ [t_word u]"] show ?case using Cons.prems n by (auto simp: unpushed_def)
qed

lemma var_goodname: "var_name v \<Longrightarrow> goodname v"
  by (cases v) (simp_all add: var_name_def goodname_def)

definition for_list :: "sword list option \<Rightarrow> item list" where
  "for_list ws = (case ws of None \<Rightarrow> [] | Some us \<Rightarrow> Kw TIN # map Wd us @ [Op TSEMI])"

definition t_for_list :: "sword list option \<Rightarrow> pword list" where
  "t_for_list ws = (case ws of None \<Rightarrow> [all_params] | Some us \<Rightarrow> map t_word us)"

text \<open>The words of the loop, up to the keyword of its body.\<close>

lemma for_list_reads:
  assumes "before (for_list ws @ Kw TDO # ys) st" "cmdpos st" "length (spell (for_list ws @ Kw TDO # ys)) < k"
  shows "\<exists>t st1 st2. readtoken k G st = Inr (t, st1) \<and>
     (if t = TIN then for_words k k G [] else pbind (if t \<noteq> TSEMI then pushback else pret ()) (\<lambda>_. pret [Narg dolatstr []])) st1 = Inr (t_for_list ws, st2) \<and>
     before (Kw TDO # ys) st2"
proof (cases ws)
  case None
  then have b: "before (Kw TDO # ys) st" "length (spell (Kw TDO # ys)) < k" using assms(1,3) by (simp_all add: for_list_def)
  from read_tok [OF b(1) fine_kw [OF assms(2)] b(2), of G] obtain st1 where "readtoken k G st = Inr (TDO, st1)" "ready (Kw TDO # ys) st1" by auto
  then show ?thesis using ready_pushback pushed_before None by (auto simp: step_simps t_for_list_def)
next
  case (Some us)
  then have b: "before (Kw TIN # map Wd us @ Op TSEMI # Kw TDO # ys) st" "length (spell (Kw TIN # map Wd us @ Op TSEMI # Kw TDO # ys)) < k"
    using assms(1,3) by (simp_all add: for_list_def)
  from read_tok [OF b(1) fine_kw [OF assms(2)] b(2), of G] obtain st1 where
    st1: "readtoken k G st = Inr (TIN, st1)" "unpushed (map Wd us @ Op TSEMI # Kw TDO # ys) st1" using ready_unpushed by (metis tokhd_Cons(1) tok.simps(2))
  from for_words_reads [of us "Kw TDO # ys" st1 k k G "[]"] st1(2) b(2) obtain st2 where
    "for_words k k G [] st1 = Inr (map t_word us, st2)" "before (Kw TDO # ys) st2" by (auto simp: unpushed_def)
  then show ?thesis using st1(1) Some by (auto simp: t_for_list_def)
qed

lemma for_reads:
  assumes "var_name v" "reads_list b" "unpushed (Wd [Plain v] # for_list ws @ Kw TDO # k_list b @ Kw TDONE # ys) st"
    "Suc (length (spell (Wd [Plain v] # for_list ws @ Kw TDO # k_list b @ Kw TDONE # ys))) < k"
  shows "\<exists>st'. parse_for k (grammar_at k) st = Inr (Some (Nfor v (t_for_list ws) (t_list b)), st') \<and> pushed (Kw TDONE # ys) st'"
proof -
  let ?G = "grammar_at k" let ?c = "{CHKNL, CHKKWD, CHKALIAS}"
  let ?zs = "Kw TDO # k_list b @ Kw TDONE # ys"
  have "fine st (Wd [Plain v] # for_list ws @ ?zs)" using assms(3) by (intro unpushed_fine) auto
  from read_tok [OF unpushed_before [OF assms(3)] this, of k ?G] assms(4) obtain st1 where
    st1: "readtoken k ?G st = Inr (TWORD, st1)" "ready (Wd [Plain v] # for_list ws @ ?zs) st1" by auto
  have v: "quoteflag st1 = False" "wordtext st1 = v" using st1(2) by (simp_all add: ready_def behind_def)
  have b1: "before (for_list ws @ ?zs) (st1\<lparr>checkkwd := ?c\<rparr>)" using ready_before [OF st1(2)] by (intro before_set_chk) auto
  have k1: "length (spell (for_list ws @ ?zs)) < k" using assms(4) by simp
  obtain t st2 st3 where st3: "readtoken k ?G (st1\<lparr>checkkwd := ?c\<rparr>) = Inr (t, st2)"
    "(if t = TIN then for_words k k ?G [] else pbind (if t \<noteq> TSEMI then pushback else pret ()) (\<lambda>_. pret [Narg dolatstr []])) st2 = Inr (t_for_list ws, st3)"
    "before ?zs st3" using for_list_reads [OF b1 _ k1, of ?G] by (auto simp: cmdpos_def)
  have b3: "before ?zs (st3\<lparr>checkkwd := ?c\<rparr>)" using st3(3) by (intro before_set_chk) auto
  let ?f = "\<lambda>_. pbind (list_at k 0) (\<lambda>body. pret (map_option (Nfor v (t_for_list ws)) body))"
  have "length (spell ?zs) < k" using k1 by simp
  from expect_bind [OF b3 _ this, of TDO ?G ?f] obtain st4 where st4: "pbind (expect k ?G TDO) ?f (st3\<lparr>checkkwd := ?c\<rparr>) = ?f () st4" "unpushed (k_list b @ Kw TDONE # ys) st4"
    by (auto simp: cmdpos_def)
  from list_bind [OF assms(2) unpushed_before [OF st4(2)], of k 0 "\<lambda>body. pret (map_option (Nfor v (t_for_list ws)) body)"] assms(4) obtain st5 where
    "?f () st4 = pret (Some (Nfor v (t_for_list ws) (t_list b))) st5" "pushed (Kw TDONE # ys) st5" by auto
  then have "pbind (expect k ?G TDO) ?f (st3\<lparr>checkkwd := ?c\<rparr>) = Inr (Some (Nfor v (t_for_list ws) (t_list b)), st5)" using st4(1) by (simp add: step_simps)
  moreover have "parse_for k ?G st = pbind (expect k ?G TDO) ?f (st3\<lparr>checkkwd := ?c\<rparr>)"
    using st1(1) st3(1,2) v var_goodname [OF assms(1)] by (simp add: parse_for_def pbind_Inr step_simps)
  ultimately show ?thesis using \<open>pushed (Kw TDONE # ys) st5\<close> by auto
qed

section \<open>Case commands\<close>

definition reads_body :: "sbody \<Rightarrow> bool" where
  "reads_body b \<longleftrightarrow> (\<forall>k ys st. before (k_body b @ Op TENDCASE # ys) st \<longrightarrow> Suc (length (spell (k_body b @ Op TENDCASE # ys))) < k \<longrightarrow>
     (\<exists>st'. list_at k 2 st = Inr (t_body b, st') \<and> pushed (Op TENDCASE # ys) st'))"

definition reads_cases :: "scases \<Rightarrow> bool" where
  "reads_cases cs \<longleftrightarrow> (\<forall>n k acc ys st. before (k_cases cs @ Kw TESAC # ys) st \<longrightarrow> Suc (length (spell (k_cases cs @ Kw TESAC # ys))) < k \<longrightarrow>
     length (spell (k_cases cs @ Kw TESAC # ys)) < n \<longrightarrow>
     (\<exists>st'. parse_cases n k (grammar_at k) acc st = Inr (acc @ t_cases cs, st') \<and> unpushed ys st'))"

lemma patterns_read:
  assumes "ready (Wd p # concat (map (\<lambda>q. [Op TPIPE, Wd q]) ps) @ Op TRP # ys) st" "length (spell (Wd p # concat (map (\<lambda>q. [Op TPIPE, Wd q]) ps) @ Op TRP # ys)) < k"
    "length (spell (Wd p # concat (map (\<lambda>q. [Op TPIPE, Wd q]) ps) @ Op TRP # ys)) < n"
  shows "\<exists>st'. case_patterns n k G acc st = Inr (acc @ map t_word (p # ps), st') \<and> unpushed ys st'"
  using assms
proof (induction ps arbitrary: p n acc st)
  case Nil
  then obtain m where n: "n = Suc m" by (cases n) auto
  have "before (Op TRP # ys) st" "length (spell (Op TRP # ys)) < k" using ready_before [OF Nil(1)] Nil(2) by simp_all
  from read_tok [OF this(1) fine_simps(1) this(2), of G] obtain st' where "readtoken k G st = Inr (TRP, st')" "unpushed ys st'"
    using ready_unpushed by (metis tokhd_Cons(1) tok.simps(1))
  then show ?case using makename_Inr [OF Nil(1)] by (auto simp: n pbind_Inr step_simps)
next
  case (Cons q qs)
  then obtain m where n: "n = Suc m" by (cases n) auto
  let ?zs = "Wd q # concat (map (\<lambda>q. [Op TPIPE, Wd q]) qs) @ Op TRP # ys"
  have "before (Op TPIPE # ?zs) st" "length (spell (Op TPIPE # ?zs)) < k" using ready_before [OF Cons.prems(1)] Cons.prems(2) by simp_all
  from read_tok [OF this(1) fine_simps(1) this(2), of G] obtain st1 where st1: "readtoken k G st = Inr (TPIPE, st1)" "unpushed ?zs st1"
    using ready_unpushed by (metis tokhd_Cons(1) tok.simps(1))
  have "fine st1 ?zs" "length (spell ?zs) < k" using unpushed_fine [OF st1(2)] Cons.prems(2) by simp_all
  from read_tok [OF unpushed_before [OF st1(2)] this, of G] obtain st2 where st2: "readtoken k G st1 = Inr (TWORD, st2)" "ready ?zs st2" by auto
  from Cons.IH [OF st2(2), of m "acc @ [t_word p]"] Cons.prems(2,3) show ?case
    using makename_Inr [OF Cons.prems(1)] st1(1) st2(1) by (auto simp: n pbind_Inr)
qed

lemma cases_nil: "reads_cases KNil"
  unfolding reads_cases_def
proof (intro allI impI)
  fix n k acc ys st assume a: "before (k_cases KNil @ Kw TESAC # ys) st" "Suc (length (spell (k_cases KNil @ Kw TESAC # ys))) < k" "length (spell (k_cases KNil @ Kw TESAC # ys)) < n"
  let ?s = "st\<lparr>checkkwd := {CHKNL, CHKKWD}\<rparr>"
  obtain m where n: "n = Suc m" using a(3) by (cases n) auto
  have "before (Kw TESAC # ys) ?s" "fine ?s (Kw TESAC # ys)" "length (spell (Kw TESAC # ys)) < k" using a by (auto intro: before_set_chk simp: cmdpos_def)
  from read_tok [OF this, of "grammar_at k"] obtain st' where "readtoken k (grammar_at k) ?s = Inr (TESAC, st')" "unpushed ys st'"
    using ready_unpushed by (metis tokhd_Cons(1) tok.simps(2))
  then show "\<exists>st'. parse_cases n k (grammar_at k) acc st = Inr (acc @ t_cases KNil, st') \<and> unpushed ys st'" by (auto simp: n pbind_Inr step_simps)
qed

lemma cases_cons:
  assumes "reads_body b" "reads_cases cs" "\<not> is_kwd p"
  shows "reads_cases (KCons p ps b cs)"
  unfolding reads_cases_def
proof (intro allI impI)
  fix n k acc ys st
  let ?es = "k_cases cs @ Kw TESAC # ys"
  let ?ds = "k_body b @ Op TENDCASE # ?es"
  let ?ws = "Wd p # concat (map (\<lambda>q. [Op TPIPE, Wd q]) ps) @ Op TRP # ?ds"
  let ?G = "grammar_at k" let ?c = "{CHKNL, CHKKWD}"
  assume "before (k_cases (KCons p ps b cs) @ Kw TESAC # ys) st" "Suc (length (spell (k_cases (KCons p ps b cs) @ Kw TESAC # ys))) < k"
    "length (spell (k_cases (KCons p ps b cs) @ Kw TESAC # ys)) < n"
  then have a: "before ?ws st" "Suc (length (spell ?ws)) < k" "length (spell ?ws) < n" by simp_all
  obtain m where n: "n = Suc m" using a(3) by (cases n) auto
  have "before ?ws (st\<lparr>checkkwd := ?c\<rparr>)" "length (spell ?ws) < k" using a by (auto intro: before_set_chk)
  from read_tok [OF this(1) fine_simps(4) [OF assms(3)] this(2), of ?G] obtain st1 where
    st1: "readtoken k ?G (st\<lparr>checkkwd := ?c\<rparr>) = Inr (TWORD, st1)" "ready ?ws st1" by auto
  from patterns_read [OF st1(2), of k k ?G "[]"] a(2) obtain st2 where st2: "case_patterns k k ?G [] st1 = Inr (map t_word (p # ps), st2)" "unpushed ?ds st2" by auto
  from assms(1) [unfolded reads_body_def, rule_format, OF unpushed_before [OF st2(2)], of k] a(2) obtain st3 where
    st3: "list_at k 2 st2 = Inr (t_body b, st3)" "pushed (Op TENDCASE # ?es) st3" by auto
  have "before (Op TENDCASE # ?es) (st3\<lparr>checkkwd := ?c\<rparr>)" "length (spell (Op TENDCASE # ?es)) < k" using pushed_chk [OF st3(2)] a(2) by simp_all
  from read_tok [OF this(1) fine_simps(1) this(2), of ?G] obtain st4 where st4: "readtoken k ?G (st3\<lparr>checkkwd := ?c\<rparr>) = Inr (TENDCASE, st4)" "unpushed ?es st4"
    using ready_unpushed by (metis tokhd_Cons(1) tok.simps(1))
  have "parse_cases n k ?G acc st = parse_cases m k ?G (acc @ [(map t_word (p # ps), t_body b)]) st4"
    using st1(1) st2(1) st3(1) st4(1) by (simp add: n pbind_Inr step_simps)
  with assms(2) [unfolded reads_cases_def, rule_format, OF unpushed_before [OF st4(2)], of k m "acc @ [(map t_word (p # ps), t_body b)]"] a(2,3) n
  show "\<exists>st'. parse_cases n k ?G acc st = Inr (acc @ t_cases (KCons p ps b cs), st') \<and> unpushed ys st'" by auto
qed

lemma case_reads:
  assumes "reads_cases cs" "unpushed (Wd w # Kw TIN # k_cases cs @ Kw TESAC # ys) st" "Suc (length (spell (Wd w # Kw TIN # k_cases cs @ Kw TESAC # ys))) < k"
  shows "\<exists>st'. parse_case k (grammar_at k) st = Inr (Some (Ncase (t_word w) (t_cases cs)), st') \<and> unpushed ys st'"
proof -
  let ?G = "grammar_at k" let ?es = "k_cases cs @ Kw TESAC # ys" let ?c = "{CHKNL, CHKKWD, CHKALIAS}"
  have k: "length (spell (Wd w # Kw TIN # ?es)) < k" "length (spell (Kw TIN # ?es)) < k" using assms(3) by simp_all
  have "fine st (Wd w # Kw TIN # ?es)" using unpushed_fine [OF assms(2)] by simp
  from read_tok [OF unpushed_before [OF assms(2)] this k(1), of ?G] obtain st1 where st1: "readtoken k ?G st = Inr (TWORD, st1)" "ready (Wd w # Kw TIN # ?es) st1" by auto
  have b: "before (Kw TIN # ?es) (st1\<lparr>checkkwd := ?c\<rparr>)" "fine (st1\<lparr>checkkwd := ?c\<rparr>) (Kw TIN # ?es)"
    using ready_before [OF st1(2)] by (auto intro: before_set_chk simp: cmdpos_def)
  let ?f = "\<lambda>_. pbind (parse_cases k k ?G []) (\<lambda>cs. pret (Some (Ncase (t_word w) cs)))"
  from expect_bind [OF b k(2), of TIN ?G ?f] obtain st2 where st2: "pbind (expect k ?G TIN) ?f (st1\<lparr>checkkwd := ?c\<rparr>) = ?f () st2" "unpushed ?es st2" by auto
  from assms(1) [unfolded reads_cases_def, rule_format, OF unpushed_before [OF st2(2)], of k k "[]"] assms(3) obtain st3 where
    st3: "parse_cases k k ?G [] st2 = Inr (t_cases cs, st3)" "unpushed ys st3" by auto
  have "parse_case k ?G st = pbind (expect k ?G TIN) ?f (st1\<lparr>checkkwd := ?c\<rparr>)"
    using makename_Inr [OF st1(2)] expect_Inr [OF st1(1)] by (simp add: parse_case_def pbind_Inr step_simps)
  then show ?thesis using st2(1) st3 by (auto simp: pbind_Inr step_simps)
qed

end
