(* ===== verification/Ash_Parse_Whole.thy ===== *)
theory Ash_Parse_Whole
  imports Ash_Parse_Tree
begin

text \<open>
  The parser finds the tree of every well-formed command: commands, pipelines and lists from the constructs of
  theory \<open>Ash_Parse_Tree\<close>, the induction over the abstract syntax, and the theorem for \<open>parsecmd\<close> on the text.
\<close>

section \<open>Commands\<close>

lemma name_not_kwd: "findkwd v = None \<Longrightarrow> \<not> is_kwd [Plain v]"
  by (simp add: is_kwd_def)

lemma redirs_head: "k_redirs (r # rs) = (case r of SFile ty fd w \<Rightarrow> [Rd ty fd, Wd w] | SDup ty fd n \<Rightarrow> [Rd ty fd, Wd [Plain (dec_of_nat n)]]) @ k_redirs rs"
  by (cases r) (simp_all add: k_redirs_def)

text \<open>The first token of a command: it does not end a list and is read as it is meant.\<close>

definition starts :: "item \<Rightarrow> bool" where
  "starts x \<longleftrightarrow> (case x of Op t \<Rightarrow> t = TLP | Kw t \<Rightarrow> t \<in> {TIF, TWHILE, TUNTIL, TFOR, TCASE, TBEGIN, TNOT} | Wd w \<Rightarrow> \<not> is_kwd w | Rd _ _ \<Rightarrow> True)"

lemma cmd_starts: "ok_cmd c \<Longrightarrow> \<exists>x xs. k_cmd c = x # xs \<and> starts x \<and> x \<noteq> Kw TNOT"
proof (cases c)
  case (SSimple vs ws rs)
  assume "ok_cmd c"
  then have o: "ok_simple vs ws rs" using SSimple by simp
  show ?thesis
  proof (cases "vs @ ws")
    case Nil
    then obtain r rs' where "rs = r # rs'" using o by (cases rs) (auto simp: ok_simple_def)
    then show ?thesis using Nil SSimple by (cases r) (auto simp: redirs_head starts_def)
  next
    case (Cons w us)
    then have "\<not> is_kwd w" using o by (auto simp: ok_simple_def)
    moreover have "map Wd vs @ map Wd ws = Wd w # map Wd us" using Cons by (metis list.simps(9) map_append)
    ultimately show ?thesis using SSimple by (auto simp: starts_def append_assoc [symmetric] simp del: append_assoc)
  qed
qed (auto simp: starts_def name_not_kwd)

lemma starts_fine: "starts x \<Longrightarrow> cmdpos st \<Longrightarrow> fine st (x # xs)"
  by (auto simp: starts_def cmdpos_def fine_def split: item.splits)

lemma starts_tok: "starts x \<Longrightarrow> tok x \<notin> tokendlist \<and> tok x \<noteq> TNL \<and> tok x \<noteq> TEOF"
  by (auto simp: starts_def tokendlist_def split: item.splits)

definition reads_cmd :: "scmd \<Rightarrow> bool" where
  "reads_cmd c \<longleftrightarrow> (\<forall>k ys st. follow ys \<longrightarrow> before (k_cmd c @ ys) st \<longrightarrow> cmdpos st \<longrightarrow> length (spell (k_cmd c @ ys)) < k \<longrightarrow>
     (\<exists>st'. parse_command k (grammar_at k) st = Inr (t_cmd c, st') \<and> pushed ys st'))"

lemma command_at_Suc: "command_at (Suc k) st = parse_command k (grammar_at k) st" "list_at (Suc k) nl st = map_sum id (map_prod fst id) (plist k (grammar_at k) nl st)"
  by (simp_all add: grammar_at_def)

lemma command_tok:
  assumes "ok_cmd c" "before (k_cmd c @ ys) st" "cmdpos st" "length (spell (k_cmd c @ ys)) < k"
  shows "\<exists>st'. readtoken k G st = Inr (tok (hd (k_cmd c)), st') \<and> ready (k_cmd c @ ys) st'"
proof -
  obtain x xs where x: "k_cmd c = x # xs" "starts x" using cmd_starts [OF assms(1)] by blast
  then have "fine st (k_cmd c @ ys)" using starts_fine assms(3) by simp
  from read_tok [OF assms(2) this assms(4), of G] show ?thesis using x(1) by auto
qed

lemma simple_reads:
  assumes "ok_simple vs ws rs"
  shows "reads_cmd (SSimple vs ws rs)"
  unfolding reads_cmd_def
proof (intro allI impI)
  fix k ys st
  let ?c = "SSimple vs ws rs" let ?G = "grammar_at k"
  assume a: "follow ys" "before (k_cmd ?c @ ys) st" "cmdpos st" "length (spell (k_cmd ?c @ ys)) < k"
  obtain st1 where st1: "readtoken k ?G st = Inr (tok (hd (k_cmd ?c)), st1)" "ready (k_cmd ?c @ ys) st1" using command_tok [OF _ a(2-4), of ?G] assms by auto
  have "tok (hd (k_cmd ?c)) = TWORD \<or> tok (hd (k_cmd ?c)) = TREDIR"
  proof (cases "vs @ ws")
    case Nil
    then obtain r rs' where "rs = r # rs'" using assms by (cases rs) (auto simp: ok_simple_def)
    then show ?thesis using Nil by (cases r) (auto simp: redirs_head)
  next
    case (Cons w us)
    then have "map Wd vs @ map Wd ws = Wd w # map Wd us" by (metis list.simps(9) map_append)
    then show ?thesis by (simp add: append_assoc [symmetric] del: append_assoc)
  qed
  then have e: "parse_command k ?G st = simplecmd k ?G (st1\<lparr>tokpushback := True\<rparr>)" using st1(1) by (auto simp: parse_command_def pbind_Inr step_simps)
  from pushed_before [OF ready_pushback [OF st1(2)]] simplecmd_reads [of vs ws rs ys "st1\<lparr>tokpushback := True\<rparr>" k ?G] assms a(1,4)
  show "\<exists>st'. parse_command k ?G st = Inr (t_cmd ?c, st') \<and> pushed ys st'" unfolding e by simp
qed

lemma command_start:
  assumes "ok_cmd c" "before (k_cmd c @ ys) st" "cmdpos st" "length (spell (k_cmd c @ ys)) < k" "k_cmd c = x # zs" "itext x \<noteq> []"
  obtains st' where "readtoken k G st = Inr (tok x, st')" "unpushed (zs @ ys) st'" "Suc (length (spell (zs @ ys))) < k"
proof -
  obtain st' where "readtoken k G st = Inr (tok x, st')" "unpushed (zs @ ys) st'" using command_tok [OF assms(1-4), of G] ready_unpushed assms(5) by auto
  moreover have "Suc (length (spell (zs @ ys))) < k" using assms(4-6) by (cases "itext x") auto
  ultimately show ?thesis using that by blast
qed

lemma finished:
  assumes "parse_command k G st = finish_command k G (Some t) (Some n) st2" "pushed (x # k_redirs rs @ ys) st2" "closer (x # k_redirs rs @ ys)" "t = tok x"
    "follow ys" "list_all ok_redir rs" "length (spell (x # k_redirs rs @ ys)) < k"
  shows "\<exists>st'. parse_command k G st = Inr (with_redir n (map t_redir rs), st') \<and> pushed ys st'"
  using finish_reads [OF pushed_before [OF assms(2)] pushed_cmdpos [OF assms(2)] assms(3,5,6,7,4), of G n] assms(1) by simp

lemma kw_text_simps [simp]: "t \<in> kws \<Longrightarrow> kw_text t \<noteq> []" "op_text TLP \<noteq> []"
proof -
  show "kw_text t \<noteq> []" if "t \<in> kws" using kw_word(2) [OF that] by (auto simp: findkwd_def)
qed (simp add: op_text_def)

lemma kws_simps [simp]: "TIF \<in> kws" "TWHILE \<in> kws" "TUNTIL \<in> kws" "TFOR \<in> kws" "TCASE \<in> kws" "TBEGIN \<in> kws"
  by (simp_all add: kws_def)

lemma while_cmd:
  assumes "reads_list a" "reads_list b" "ok_cmd (SWhile u a b rs)"
  shows "reads_cmd (SWhile u a b rs)"
  unfolding reads_cmd_def
proof (intro allI impI)
  fix k ys st
  let ?c = "SWhile u a b rs" let ?G = "grammar_at k" let ?mk = "if u then Nuntil else Nwhile"
  let ?zs = "k_list a @ Kw TDO # k_list b @ Kw TDONE # k_redirs rs"
  assume as: "follow ys" "before (k_cmd ?c @ ys) st" "cmdpos st" "length (spell (k_cmd ?c @ ys)) < k"
  obtain st1 where st1: "readtoken k ?G st = Inr (if u then TUNTIL else TWHILE, st1)" "unpushed (?zs @ ys) st1" "Suc (length (spell (?zs @ ys))) < k"
    by (rule command_start [OF assms(3) as(2-4), of "Kw (if u then TUNTIL else TWHILE)" ?zs ?G]) simp_all
  obtain st2 where st2: "parse_while k ?G ?mk st1 = Inr (Some (?mk (t_list a) (t_list b)), st2)" "pushed (Kw TDONE # k_redirs rs @ ys) st2"
    using while_reads [OF assms(1,2), of "k_redirs rs @ ys" st1 k ?mk] unpushed_before [OF st1(2)] st1(3) by auto
  have "parse_command k ?G st = finish_command k ?G (Some TDONE) (Some (?mk (t_list a) (t_list b))) st2"
    using st1(1) st2(1) by (cases u) (simp_all add: parse_command_def pbind_Inr)
  from finished [OF this st2(2) _ _ as(1)] assms(3) st1(3) show "\<exists>st'. parse_command k ?G st = Inr (t_cmd ?c, st') \<and> pushed ys st'" by auto
qed

lemma if_cmd:
  assumes "reads_list a" "reads_list b" "reads_else e" "ok_cmd (SIf a b e rs)"
  shows "reads_cmd (SIf a b e rs)"
  unfolding reads_cmd_def
proof (intro allI impI)
  fix k ys st
  let ?c = "SIf a b e rs" let ?G = "grammar_at k"
  let ?zs = "k_list a @ Kw TTHEN # k_list b @ k_else e @ Kw TFI # k_redirs rs"
  assume as: "follow ys" "before (k_cmd ?c @ ys) st" "cmdpos st" "length (spell (k_cmd ?c @ ys)) < k"
  obtain st1 where st1: "readtoken k ?G st = Inr (TIF, st1)" "unpushed (?zs @ ys) st1" "Suc (length (spell (?zs @ ys))) < k"
    by (rule command_start [OF assms(4) as(2-4), of "Kw TIF" ?zs ?G]) simp_all
  obtain st2 where st2: "parse_if k k ?G st1 = Inr (Some (Nif (t_list a) (t_list b) (t_else e)), st2)" "pushed (Kw TFI # k_redirs rs @ ys) st2"
    using if_reads [OF assms(1-3), of "k_redirs rs @ ys" st1 k k] unpushed_before [OF st1(2)] st1(3) by auto
  have "parse_command k ?G st = finish_command k ?G (Some TFI) (Some (Nif (t_list a) (t_list b) (t_else e))) st2"
    using st1(1) st2(1) by (simp add: parse_command_def pbind_Inr)
  from finished [OF this st2(2) _ _ as(1)] assms(4) st1(3) show "\<exists>st'. parse_command k ?G st = Inr (t_cmd ?c, st') \<and> pushed ys st'" by auto
qed

lemma for_cmd:
  assumes "reads_list b" "ok_cmd (SFor v ws b rs)"
  shows "reads_cmd (SFor v ws b rs)"
  unfolding reads_cmd_def
proof (intro allI impI)
  fix k ys st
  let ?c = "SFor v ws b rs" let ?G = "grammar_at k"
  let ?zs = "Wd [Plain v] # for_list ws @ Kw TDO # k_list b @ Kw TDONE # k_redirs rs"
  assume as: "follow ys" "before (k_cmd ?c @ ys) st" "cmdpos st" "length (spell (k_cmd ?c @ ys)) < k"
  obtain st1 where st1: "readtoken k ?G st = Inr (TFOR, st1)" "unpushed (?zs @ ys) st1" "Suc (length (spell (?zs @ ys))) < k"
    by (rule command_start [OF assms(2) as(2-4), of "Kw TFOR" ?zs ?G]) (simp_all add: for_list_def)
  obtain st2 where st2: "parse_for k ?G st1 = Inr (Some (Nfor v (t_for_list ws) (t_list b)), st2)" "pushed (Kw TDONE # k_redirs rs @ ys) st2"
    using for_reads [OF _ assms(1), of v ws "k_redirs rs @ ys" st1 k] st1(2,3) assms(2) by auto
  have "parse_command k ?G st = finish_command k ?G (Some TDONE) (Some (Nfor v (t_for_list ws) (t_list b))) st2"
    using st1(1) st2(1) by (simp add: parse_command_def pbind_Inr)
  from finished [OF this st2(2) _ _ as(1)] assms(2) st1(3) show "\<exists>st'. parse_command k ?G st = Inr (t_cmd ?c, st') \<and> pushed ys st'"
    by (auto simp: t_for_list_def)
qed

lemma group_cmd:
  assumes "reads_list l" "ok_list l" "list_all ok_redir rs"
  shows "rs = [] \<or> \<not> is_subshell (t_list l) \<Longrightarrow> reads_cmd (SGroup l rs)" "reads_cmd (SSub l rs)"
proof -
  show "reads_cmd (SGroup l rs)" if g: "rs = [] \<or> \<not> is_subshell (t_list l)" unfolding reads_cmd_def
  proof (intro allI impI)
    fix k ys st
    let ?c = "SGroup l rs" let ?G = "grammar_at k" let ?zs = "k_list l @ Kw TEND # k_redirs rs"
    assume as: "follow ys" "before (k_cmd ?c @ ys) st" "cmdpos st" "length (spell (k_cmd ?c @ ys)) < k"
    obtain st1 where st1: "readtoken k ?G st = Inr (TBEGIN, st1)" "unpushed (?zs @ ys) st1" "Suc (length (spell (?zs @ ys))) < k"
      by (rule command_start [OF _ as(2-4), of "Kw TBEGIN" ?zs ?G]) (simp_all add: assms g)
    obtain st2 where st2: "list_at k 0 st1 = Inr (Some (t_list l), st2)" "pushed (Kw TEND # k_redirs rs @ ys) st2"
      using assms(1) [unfolded reads_list_def, rule_format, of 0 "Kw TEND # k_redirs rs @ ys" st1 k] unpushed_before [OF st1(2)] st1(3) by auto
    have "parse_command k ?G st = finish_command k ?G (Some TEND) (Some (t_list l)) st2"
      using st1(1) st2(1) by (simp add: parse_command_def pbind_Inr)
    from finished [OF this st2(2) _ _ as(1) assms(3)] st1(3) g show "\<exists>st'. parse_command k ?G st = Inr (t_cmd ?c, st') \<and> pushed ys st'" by auto
  qed
  show "reads_cmd (SSub l rs)" unfolding reads_cmd_def
  proof (intro allI impI)
    fix k ys st
    let ?c = "SSub l rs" let ?G = "grammar_at k" let ?zs = "k_list l @ Op TRP # k_redirs rs"
    assume as: "follow ys" "before (k_cmd ?c @ ys) st" "cmdpos st" "length (spell (k_cmd ?c @ ys)) < k"
    obtain st1 where st1: "readtoken k ?G st = Inr (TLP, st1)" "unpushed (?zs @ ys) st1" "Suc (length (spell (?zs @ ys))) < k"
      by (rule command_start [OF _ as(2-4), of "Op TLP" ?zs ?G]) (simp_all add: assms)
    obtain st2 where st2: "list_at k 0 st1 = Inr (Some (t_list l), st2)" "pushed (Op TRP # k_redirs rs @ ys) st2"
      using assms(1) [unfolded reads_list_def, rule_format, of 0 "Op TRP # k_redirs rs @ ys" st1 k] unpushed_before [OF st1(2)] st1(3) by auto
    have "parse_command k ?G st = finish_command k ?G (Some TRP) (Some (Nsubshell (t_list l) [])) st2"
      using st1(1) st2(1) by (simp add: parse_command_def pbind_Inr)
    from finished [OF this st2(2) _ _ as(1) assms(3)] st1(3) show "\<exists>st'. parse_command k ?G st = Inr (t_cmd ?c, st') \<and> pushed ys st'" by auto
  qed
qed

lemma case_cmd:
  assumes "reads_cases cs" "ok_cmd (SCase w cs rs)"
  shows "reads_cmd (SCase w cs rs)"
  unfolding reads_cmd_def
proof (intro allI impI)
  fix k ys st
  let ?c = "SCase w cs rs" let ?G = "grammar_at k" let ?n = "Ncase (t_word w) (t_cases cs)"
  let ?zs = "Wd w # Kw TIN # k_cases cs @ Kw TESAC # k_redirs rs"
  assume as: "follow ys" "before (k_cmd ?c @ ys) st" "cmdpos st" "length (spell (k_cmd ?c @ ys)) < k"
  obtain st1 where st1: "readtoken k ?G st = Inr (TCASE, st1)" "unpushed (?zs @ ys) st1" "Suc (length (spell (?zs @ ys))) < k"
    by (rule command_start [OF assms(2) as(2-4), of "Kw TCASE" ?zs ?G]) simp_all
  obtain st2 where st2: "parse_case k ?G st1 = Inr (Some ?n, st2)" "unpushed (k_redirs rs @ ys) st2"
    using case_reads [OF assms(1), of w "k_redirs rs @ ys" st1 k] st1(2,3) by auto
  have "before (k_redirs rs @ ys) (st2\<lparr>checkkwd := {CHKKWD, CHKALIAS}\<rparr>)" using unpushed_before [OF st2(2)] by (auto intro: before_set_chk)
  from redir_loop_reads [OF this as(1), of k k ?G "[]"] st1(3) assms(2) obtain st3 where
    "redir_loop k k ?G [] (st2\<lparr>checkkwd := {CHKKWD, CHKALIAS}\<rparr>) = Inr (map t_redir rs, st3)" "pushed ys st3" by auto
  then show "\<exists>st'. parse_command k ?G st = Inr (t_cmd ?c, st') \<and> pushed ys st'"
    using st1(1) st2(1) by (simp add: parse_command_def finish_command_def pbind_Inr step_simps)
qed

lemma var_not_assignment: "var_name v \<Longrightarrow> \<not> isassignment v"
  using var_goodname [of v] by (simp add: isassignment_def goodname_def char_at_def)

lemma func_def_reads:
  assumes "reads_cmd c" "var_name v" "v \<notin> set special_builtins" "unpushed (Op TRP # k_cmd c @ ys) st" "follow ys" "length (spell (Op TRP # k_cmd c @ ys)) < k"
  shows "\<exists>st'. func_def k (grammar_at k) v st = Inr (Ndefun v (t_cmd c), st') \<and> pushed ys st'"
proof -
  let ?G = "grammar_at k"
  from read_tok [OF unpushed_before [OF assms(4)] fine_simps(1) assms(6), of ?G] obtain st1 where
    st1: "expect k ?G TRP st = Inr ((), st1)" "unpushed (k_cmd c @ ys) st1" using expect_Inr ready_unpushed by (metis tok.simps(1) tokhd_Cons(1))
  let ?s = "st1\<lparr>checkkwd := {CHKNL, CHKKWD, CHKALIAS}\<rparr>"
  obtain m where m: "k = Suc m" using assms(6) by (cases k) auto
  have "before (k_cmd c @ ys) ?s" "cmdpos ?s" using st1(2) by (auto simp: cmdpos_def intro: before_set_chk dest: unpushed_before)
  from assms(1) [unfolded reads_cmd_def, rule_format, OF assms(5) this, of m] assms(6) obtain st2 where
    "command_at k ?s = Inr (t_cmd c, st2)" "pushed ys st2" using m command_at_Suc(1) by auto
  then show ?thesis using st1(1) var_goodname [OF assms(2)] assms(3) by (simp add: func_def_def pbind_Inr step_simps)
qed

lemma func_cmd:
  assumes "reads_cmd c" "ok_cmd (SFunc v c)"
  shows "reads_cmd (SFunc v c)"
  unfolding reads_cmd_def
proof (intro allI impI)
  fix k ys st
  let ?c = "SFunc v c" let ?G = "grammar_at k" let ?zs = "Op TLP # Op TRP # k_cmd c @ ys"
  assume as: "follow ys" "before (k_cmd ?c @ ys) st" "cmdpos st" "length (spell (k_cmd ?c @ ys)) < k"
  have v: "var_name v" "v \<notin> set special_builtins" using assms(2) by simp_all
  have sp: "length (spell (Wd [Plain v] # ?zs)) < k" using as(4) by simp
  obtain k1 k2 where k: "k = Suc k1" "k1 = Suc k2" using sp by (cases k; cases "k - 1") auto
  obtain st1 where st1: "readtoken k ?G st = Inr (TWORD, st1)" "ready (Wd [Plain v] # ?zs) st1" using command_tok [OF assms(2) as(2-4), of ?G] by auto
  have e: "parse_command k ?G st = simple_loop k k ?G True [] [] [] (st1\<lparr>tokpushback := True\<rparr>)"
    using st1(1) by (simp add: parse_command_def simplecmd_def pbind_Inr step_simps del: simple_loop.simps)
  obtain st2 where st2: "unpushed ?zs st2"
    "simple_loop k k ?G True [] [] [] (st1\<lparr>tokpushback := True\<rparr>) = simple_loop k1 k ?G False [] [t_word [Plain v]] [] st2"
    by (rule simple_word [OF pushed_before [OF ready_pushback [OF st1(2)]] sp, of k1 ?G True "[]" "[]" "[]"])
      (simp add: k var_not_assignment [OF v(1)] del: simple_loop.simps)
  have kw: "\<forall>t ys. ?zs \<noteq> Kw t # ys" "length (spell ?zs) < k" using sp by simp_all
  obtain st3 where st3: "ready ?zs st3" "simple_loop k1 k ?G False [] [t_word [Plain v]] [] st2 = func_def k ?G v st3"
    by (rule simple_step [OF unpushed_before [OF st2(1)] kw, of k2 ?G False "[]" "[t_word [Plain v]]" "[]"])
      (simp add: k t_word_def del: simple_loop.simps)
  from func_def_reads [OF assms(1) v ready_unpushed [OF st3(1)] as(1), of k] sp obtain st4 where
    "func_def k ?G v st3 = Inr (Ndefun v (t_cmd c), st4)" "pushed ys st4" by auto
  then show "\<exists>st'. parse_command k ?G st = Inr (t_cmd ?c, st') \<and> pushed ys st'" using e st2(2) st3(2) by simp
qed

section \<open>Pipelines\<close>

lemma follow_simps [simp]: "t \<in> {TSEMI, TBACKGND, TAND, TOR, TPIPE} \<Longrightarrow> follow (Op t # xs)"
  by (auto simp: follow_def)

lemma follow_fine: "follow ys \<Longrightarrow> fine st ys"
  by (auto simp: follow_def)

text \<open>The commands of a pipeline are collected one behind the other.\<close>

definition reads_cmds :: "scmds \<Rightarrow> bool" where
  "reads_cmds cs \<longleftrightarrow> (\<forall>k ys st. follow ys \<longrightarrow> before (k_cmds cs @ ys) st \<longrightarrow> cmdpos st \<longrightarrow> length (spell (k_cmds cs @ ys)) < k \<longrightarrow>
     (\<exists>st1 st2 n. parse_command k (grammar_at k) st = Inr (hd (t_cmds cs), st1) \<and>
        pipeline_loop k k (grammar_at k) [hd (t_cmds cs)] st1 = pipeline_loop n k (grammar_at k) (t_cmds cs) st2 \<and> pushed ys st2 \<and> length (spell ys) < n))"

lemma t_cmds_nonempty [simp]: "t_cmds cs \<noteq> []"
  by (cases cs) simp_all

lemma cmds_one: "reads_cmd c \<Longrightarrow> reads_cmds (COne c)"
  unfolding reads_cmds_def reads_cmd_def by fastforce

lemma cmds_more:
  assumes "reads_cmds cs" "reads_cmd c"
  shows "reads_cmds (CMore cs c)"
  unfolding reads_cmds_def
proof (intro allI impI)
  fix k ys st
  let ?G = "grammar_at k" let ?zs = "Op TPIPE # k_cmd c @ ys" let ?c = "{CHKNL, CHKKWD, CHKALIAS}"
  assume as: "follow ys" "before (k_cmds (CMore cs c) @ ys) st" "cmdpos st" "length (spell (k_cmds (CMore cs c) @ ys)) < k"
  then obtain st1 st2 n where st2: "parse_command k ?G st = Inr (hd (t_cmds cs), st1)" "pushed ?zs st2" "length (spell ?zs) < n"
    "pipeline_loop k k ?G [hd (t_cmds cs)] st1 = pipeline_loop n k ?G (t_cmds cs) st2"
    using assms(1) [unfolded reads_cmds_def, rule_format, of ?zs st k] by auto
  obtain m where n: "n = Suc m" using st2(3) by (cases n) auto
  have "length (spell ?zs) < k" using as(4) by simp
  from read_tok [OF pushed_before [OF st2(2)] fine_simps(1) this, of ?G] obtain st3 where st3: "readtoken k ?G st2 = Inr (TPIPE, st3)" "ready ?zs st3" by auto
  have "before (k_cmd c @ ys) (st3\<lparr>checkkwd := ?c\<rparr>)" "cmdpos (st3\<lparr>checkkwd := ?c\<rparr>)"
    using ready_before [OF st3(2)] by (auto simp: cmdpos_def intro: before_set_chk)
  from assms(2) [unfolded reads_cmd_def, rule_format, OF as(1) this, of k] as(4) obtain st4 where
    st4: "parse_command k ?G (st3\<lparr>checkkwd := ?c\<rparr>) = Inr (t_cmd c, st4)" "pushed ys st4" by auto
  have "pipeline_loop n k ?G (t_cmds cs) st2 = pipeline_loop m k ?G (t_cmds (CMore cs c)) st4"
    using st3(1) st4(1) by (simp add: n pbind_Inr step_simps)
  moreover have "length (spell ys) < m" using st2(3) n by simp
  ultimately show "\<exists>st1 st2 n. parse_command k ?G st = Inr (hd (t_cmds (CMore cs c)), st1) \<and>
      pipeline_loop k k ?G [hd (t_cmds (CMore cs c))] st1 = pipeline_loop n k ?G (t_cmds (CMore cs c)) st2 \<and> pushed ys st2 \<and> length (spell ys) < n"
    using st2(1,4) st4(2) by auto
qed

definition after_pipe :: "item list \<Rightarrow> bool" where
  "after_pipe ys \<longleftrightarrow> (\<exists>t zs. ys = Op t # zs \<and> t \<in> {TSEMI, TBACKGND, TAND, TOR})"

lemma after_pipe_follow: "after_pipe ys \<Longrightarrow> follow ys"
  by (auto simp: after_pipe_def follow_def)

lemma pipe_ends:
  assumes "pushed ys st" "after_pipe ys" "length (spell ys) < n" "length (spell ys) < k"
  shows "\<exists>st'. pipeline_loop n k G ns st = Inr (ns, st') \<and> pushed ys st'"
proof -
  obtain m where n: "n = Suc m" using assms(3) by (cases n) auto
  from read_tok [OF pushed_before [OF assms(1)] pushed_fine [OF assms(1)] assms(4), of G] obtain st' where "readtoken k G st = Inr (tokhd ys, st')" "ready ys st'" by blast
  then show ?thesis using assms(2) ready_pushback by (auto simp: n after_pipe_def pbind_Inr step_simps)
qed

definition reads_pipe :: "spipe \<Rightarrow> bool" where
  "reads_pipe p \<longleftrightarrow> (\<forall>k ys st. after_pipe ys \<longrightarrow> before (k_pipe p @ ys) st \<longrightarrow> cmdpos st \<longrightarrow> length (spell (k_pipe p @ ys)) < k \<longrightarrow>
     (\<exists>st'. pipeline k (grammar_at k) st = Inr (t_pipe p, st') \<and> pushed ys st'))"

lemma cmds_starts: "ok_cmds cs \<Longrightarrow> \<exists>x xs. k_cmds cs = x # xs \<and> starts x \<and> x \<noteq> Kw TNOT"
proof (induction cs rule: measure_induct_rule [of size])
  case (less cs)
  show ?case
  proof (cases cs)
    case (COne c)
    then show ?thesis using less.prems cmd_starts [of c] by simp
  next
    case (CMore cs1 c)
    then have "\<exists>x xs. k_cmds cs1 = x # xs \<and> starts x \<and> x \<noteq> Kw TNOT" using less.prems by (intro less.IH) simp_all
    then show ?thesis using CMore by auto
  qed
qed

lemma pipe_reads:
  assumes "reads_cmds cs" "ok_cmds cs"
  shows "reads_pipe (SPipe neg cs)"
  unfolding reads_pipe_def
proof (intro allI impI)
  fix k ys st
  let ?G = "grammar_at k"
  assume as: "after_pipe ys" "before (k_pipe (SPipe neg cs) @ ys) st" "cmdpos st" "length (spell (k_pipe (SPipe neg cs) @ ys)) < k"
  obtain x xs where x: "k_cmds cs = x # xs" "starts x" "x \<noteq> Kw TNOT" using cmds_starts [OF assms(2)] by blast
  have sp: "length (spell (k_cmds cs @ ys)) < k" "length (spell ys) < k" using as(4) by (simp_all split: if_splits)
  have "\<exists>t st1 st2. readtoken k ?G st = Inr (t, st1) \<and> (t = TNOT) = neg \<and>
     (if t = TNOT then set_chk {CHKKWD, CHKALIAS} else pushback) st1 = Inr ((), st2) \<and> before (k_cmds cs @ ys) st2 \<and> cmdpos st2"
  proof (cases neg)
    case True
    then have "before (Kw TNOT # k_cmds cs @ ys) st" "length (spell (Kw TNOT # k_cmds cs @ ys)) < k" using as(2,4) by simp_all
    from read_tok [OF this(1) fine_kw [OF as(3)] this(2), of ?G] obtain st1 where "readtoken k ?G st = Inr (TNOT, st1)" "ready (Kw TNOT # k_cmds cs @ ys) st1" by auto
    then show ?thesis using True ready_before by (auto simp: set_chk_eq cmdpos_def intro: before_set_chk)
  next
    case False
    then have b: "before (k_cmds cs @ ys) st" "fine st (k_cmds cs @ ys)" using as(2) x starts_fine [OF x(2) as(3)] by simp_all
    from read_tok [OF b sp(1), of ?G] obtain st1 where "readtoken k ?G st = Inr (tok x, st1)" "ready (k_cmds cs @ ys) st1" using x(1) by auto
    moreover have "tok x \<noteq> TNOT" using x(2,3) by (auto simp: starts_def split: item.splits)
    ultimately show ?thesis using False pushed_before [OF ready_pushback] by (auto simp: pushback_eq cmdpos_def)
  qed
  then obtain t st1 st2 where st2: "readtoken k ?G st = Inr (t, st1)" "(t = TNOT) = neg"
    "(if t = TNOT then set_chk {CHKKWD, CHKALIAS} else pushback) st1 = Inr ((), st2)" "before (k_cmds cs @ ys) st2" "cmdpos st2" by blast
  from assms(1) [unfolded reads_cmds_def, rule_format, OF after_pipe_follow [OF as(1)] st2(4,5) sp(1)] obtain st3 st4 n where
    st4: "parse_command k ?G st2 = Inr (hd (t_cmds cs), st3)" "pipeline_loop k k ?G [hd (t_cmds cs)] st3 = pipeline_loop n k ?G (t_cmds cs) st4"
      "pushed ys st4" "length (spell ys) < n" by blast
  obtain st5 where st5: "pipeline_loop n k ?G (t_cmds cs) st4 = Inr (t_cmds cs, st5)" "pushed ys st5" using pipe_ends [OF st4(3) as(1) st4(4) sp(2)] by blast
  have "t_pipe (SPipe neg cs) = (let n1 = (if length (t_cmds cs) = 1 then hd (t_cmds cs) else Npipe False (t_cmds cs)) in if neg then Nnot n1 else n1)"
    by (cases "t_cmds cs"; cases "tl (t_cmds cs)") (auto dest: arg_cong [of _ _ "\<lambda>x. x = []"])
  then have "pipeline k ?G st = Inr (t_pipe (SPipe neg cs), st5)" using st2(1-3) st4(1,2) st5(1) by (simp add: pipeline_def pbind_Inr step_simps Let_def del: t_pipe.simps)
  then show "\<exists>st'. pipeline k ?G st = Inr (t_pipe (SPipe neg cs), st') \<and> pushed ys st'" using st5(2) by blast
qed

section \<open>Lists\<close>

definition reads_andor :: "sandor \<Rightarrow> bool" where
  "reads_andor a \<longleftrightarrow> (\<forall>k ys st. after_pipe ys \<longrightarrow> before (k_andor a @ ys) st \<longrightarrow> cmdpos st \<longrightarrow> length (spell (k_andor a @ ys)) < k \<longrightarrow>
     (\<exists>n st'. andor k (grammar_at k) st = andor_loop n k (grammar_at k) (t_andor a) st' \<and> pushed ys st' \<and> length (spell ys) < n))"

lemma andor_one: "reads_pipe p \<Longrightarrow> reads_andor (AOne p)"
  unfolding reads_andor_def reads_pipe_def andor_def by (fastforce simp: pbind_Inr)

lemma andor_more:
  assumes "reads_andor a" "reads_pipe p"
  shows "reads_andor (AMore a b p)"
  unfolding reads_andor_def
proof (intro allI impI)
  fix k ys st
  let ?G = "grammar_at k" let ?t = "if b then TAND else TOR" let ?zs = "Op ?t # k_pipe p @ ys" let ?c = "{CHKNL, CHKKWD, CHKALIAS}"
  assume as: "after_pipe ys" "before (k_andor (AMore a b p) @ ys) st" "cmdpos st" "length (spell (k_andor (AMore a b p) @ ys)) < k"
  have "after_pipe ?zs" by (simp add: after_pipe_def)
  with assms(1) [unfolded reads_andor_def, rule_format, of ?zs st k] as(2-4) obtain n st1 where
    st1: "andor k ?G st = andor_loop n k ?G (t_andor a) st1" "pushed ?zs st1" "length (spell ?zs) < n" by auto
  obtain m where n: "n = Suc m" using st1(3) by (cases n) auto
  have "length (spell ?zs) < k" using as(4) by simp
  from read_tok [OF pushed_before [OF st1(2)] pushed_fine [OF st1(2)] this, of ?G] obtain st2 where st2: "readtoken k ?G st1 = Inr (?t, st2)" "ready ?zs st2" by auto
  have "before (k_pipe p @ ys) (st2\<lparr>checkkwd := ?c\<rparr>)" "cmdpos (st2\<lparr>checkkwd := ?c\<rparr>)"
    using ready_before [OF st2(2)] by (auto simp: cmdpos_def intro: before_set_chk)
  from assms(2) [unfolded reads_pipe_def, rule_format, OF as(1) this, of k] as(4) obtain st3 where
    st3: "pipeline k ?G (st2\<lparr>checkkwd := ?c\<rparr>) = Inr (t_pipe p, st3)" "pushed ys st3" by auto
  have "andor_loop n k ?G (t_andor a) st1 = andor_loop m k ?G (t_andor (AMore a b p)) st3" using st2(1) st3(1) by (simp add: n pbind_Inr step_simps)
  moreover have "length (spell ys) < m" using st1(3) n by simp
  ultimately show "\<exists>n st'. andor k ?G st = andor_loop n k ?G (t_andor (AMore a b p)) st' \<and> pushed ys st' \<and> length (spell ys) < n"
    using st1(1) st3(2) by metis
qed

definition sep :: "bool \<Rightarrow> token" where
  "sep bg = (if bg then TBACKGND else TSEMI)"

lemma andor_ends:
  assumes "reads_andor a" "before (k_andor a @ Op (sep bg) # ys) st" "cmdpos st" "length (spell (k_andor a @ Op (sep bg) # ys)) < k"
  shows "\<exists>st'. andor k (grammar_at k) st = Inr (t_andor a, st') \<and> pushed (Op (sep bg) # ys) st'"
proof -
  let ?G = "grammar_at k" let ?zs = "Op (sep bg) # ys"
  have "after_pipe ?zs" by (simp add: after_pipe_def sep_def)
  with assms(1) [unfolded reads_andor_def, rule_format, of ?zs st k] assms(2-4) obtain n st1 where
    st1: "andor k ?G st = andor_loop n k ?G (t_andor a) st1" "pushed ?zs st1" "length (spell ?zs) < n" by auto
  obtain m where n: "n = Suc m" using st1(3) by (cases n) auto
  have "length (spell ?zs) < k" using assms(4) by simp
  from read_tok [OF pushed_before [OF st1(2)] pushed_fine [OF st1(2)] this, of ?G] obtain st2 where "readtoken k ?G st1 = Inr (sep bg, st2)" "ready ?zs st2" by auto
  then show ?thesis unfolding st1(1) using ready_pushback by (auto simp: n pbind_Inr step_simps sep_def)
qed

lemma andor_starts: "ok_andor a \<Longrightarrow> \<exists>x xs. k_andor a = x # xs \<and> starts x"
proof (induction a rule: measure_induct_rule [of size])
  case (less a)
  show ?case
  proof (cases a)
    case (AOne p)
    obtain neg cs where p: "p = SPipe neg cs" by (cases p)
    then have "\<exists>x xs. k_cmds cs = x # xs \<and> starts x \<and> x \<noteq> Kw TNOT" using less.prems AOne by (intro cmds_starts) simp
    then show ?thesis using p AOne by (auto simp: starts_def)
  next
    case (AMore a1 b p)
    then have "\<exists>x xs. k_andor a1 = x # xs \<and> starts x" using less.prems by (intro less.IH) simp_all
    then show ?thesis using AMore by auto
  qed
qed

definition t_item :: "sandor \<Rightarrow> bool \<Rightarrow> pnode" where
  "t_item a bg = (if bg then detached (t_andor a) else t_andor a)"

text \<open>One command of a list and what ends it.\<close>

lemma list_step:
  assumes "reads_andor a" "ok_andor a" "before (k_andor a @ Op (sep bg) # ys) st" "length (spell (k_andor a @ Op (sep bg) # ys)) < k"
  shows "\<exists>st'. list_loop (Suc n) k (grammar_at k) c stop n1 st = list_loop n k (grammar_at k) c c (Some (join_semi n1 (t_item a bg))) st' \<and> before ys st'"
proof -
  let ?G = "grammar_at k" let ?s = "st\<lparr>checkkwd := (if c then {CHKNL} else {}) \<union> {CHKKWD, CHKALIAS}\<rparr>" let ?zs = "k_andor a @ Op (sep bg) # ys"
  obtain x xs where x: "k_andor a = x # xs" "starts x" using andor_starts [OF assms(2)] by blast
  have "before ?zs ?s" "cmdpos ?s" using assms(3) by (auto simp: cmdpos_def intro: before_set_chk)
  moreover have "fine ?s ?zs" using starts_fine [OF x(2) calculation(2)] x(1) by simp
  ultimately obtain st1 where st1: "readtoken k ?G ?s = Inr (tok x, st1)" "ready ?zs st1" using readtoken_item [of ?zs ?s k ?G] assms(4) x(1) by auto
  from andor_ends [OF assms(1) pushed_before [OF ready_pushback [OF st1(2)]] pushed_cmdpos [OF ready_pushback [OF st1(2)]] assms(4)] obtain st2 where
    st2: "andor k ?G (st1\<lparr>tokpushback := True\<rparr>) = Inr (t_andor a, st2)" "pushed (Op (sep bg) # ys) st2" by blast
  have "length (spell (Op (sep bg) # ys)) < k" using assms(4) by simp
  from read_tok [OF pushed_before [OF st2(2)] pushed_fine [OF st2(2)] this, of ?G] obtain st3 where st3: "readtoken k ?G st2 = Inr (sep bg, st3)" "before ys st3"
    using ready_before by (metis tok.simps(1) tokhd_Cons(1))
  have "list_loop (Suc n) k ?G c stop n1 st = list_loop n k ?G c c (Some (join_semi n1 (t_item a bg))) st3"
    using st1(1) st2(1) st3(1) starts_tok [OF x(2)] by (auto simp: pbind_Inr step_simps sep_def t_item_def background_tree)
  then show ?thesis using st3(2) by blast
qed

definition runs_list :: "slist \<Rightarrow> bool" where
  "runs_list l \<longleftrightarrow> (\<forall>n k c stop ys st. before (k_list l @ ys) st \<longrightarrow> length (spell (k_list l @ ys)) < k \<longrightarrow> length (spell (k_list l @ ys)) < n \<longrightarrow>
     (\<exists>n' st'. list_loop n k (grammar_at k) c stop None st = list_loop n' k (grammar_at k) c c (Some (t_list l)) st' \<and> before ys st' \<and> length (spell ys) < n'))"

lemma list_one: "reads_andor a \<Longrightarrow> ok_andor a \<Longrightarrow> runs_list (LOne a bg)"
  unfolding runs_list_def
proof (intro allI impI)
  fix n k c stop ys st
  assume a: "reads_andor a" "ok_andor a" and b: "before (k_list (LOne a bg) @ ys) st" "length (spell (k_list (LOne a bg) @ ys)) < k" "length (spell (k_list (LOne a bg) @ ys)) < n"
  obtain m where n: "n = Suc m" using b(3) by (cases n) auto
  have "before (k_andor a @ Op (sep bg) # ys) st" "length (spell (k_andor a @ Op (sep bg) # ys)) < k" using b by (simp_all add: sep_def)
  from list_step [OF a this, of m c stop None] b(3)
  show "\<exists>n' st'. list_loop n k (grammar_at k) c stop None st = list_loop n' k (grammar_at k) c c (Some (t_list (LOne a bg))) st' \<and> before ys st' \<and> length (spell ys) < n'"
    unfolding n by (auto simp: join_semi_def t_item_def simp del: list_loop.simps intro!: exI [of _ m])
qed

lemma list_more: "runs_list l \<Longrightarrow> reads_andor a \<Longrightarrow> ok_andor a \<Longrightarrow> runs_list (LMore l a bg)"
  unfolding runs_list_def
proof (intro allI impI)
  fix n k c stop ys st
  assume l: "\<forall>n k c stop ys st. before (k_list l @ ys) st \<longrightarrow> length (spell (k_list l @ ys)) < k \<longrightarrow> length (spell (k_list l @ ys)) < n \<longrightarrow>
     (\<exists>n' st'. list_loop n k (grammar_at k) c stop None st = list_loop n' k (grammar_at k) c c (Some (t_list l)) st' \<and> before ys st' \<and> length (spell ys) < n')"
    and a: "reads_andor a" "ok_andor a"
    and b: "before (k_list (LMore l a bg) @ ys) st" "length (spell (k_list (LMore l a bg) @ ys)) < k" "length (spell (k_list (LMore l a bg) @ ys)) < n"
  let ?zs = "k_andor a @ Op (sep bg) # ys"
  have b': "before (k_list l @ ?zs) st" "length (spell (k_list l @ ?zs)) < k" "length (spell (k_list l @ ?zs)) < n" using b by (simp_all add: sep_def)
  obtain n1 st1 where st1: "list_loop n k (grammar_at k) c stop None st = list_loop n1 k (grammar_at k) c c (Some (t_list l)) st1" "before ?zs st1" "length (spell ?zs) < n1"
    using l [rule_format, OF b'] by blast
  obtain m where n: "n1 = Suc m" using st1(3) by (cases n1) auto
  have "length (spell ?zs) < k" "length (spell ys) < m" using b'(2) st1(3) n by simp_all
  with list_step [OF a st1(2) this(1), of m c c "Some (t_list l)"]
  show "\<exists>n' st'. list_loop n k (grammar_at k) c stop None st = list_loop n' k (grammar_at k) c c (Some (t_list (LMore l a bg))) st' \<and> before ys st' \<and> length (spell ys) < n'"
    unfolding st1(1) n by (auto simp: join_semi_def t_item_def simp del: list_loop.simps intro!: exI [of _ m])
qed

lemma list_closes:
  assumes "before ys st" "closer ys" "length (spell ys) < n" "length (spell ys) < k"
  shows "\<exists>st'. list_loop n k G True True r st = Inr ((r, False), st') \<and> pushed ys st'"
proof -
  let ?s = "st\<lparr>checkkwd := (if True then {CHKNL} else {}) \<union> {CHKKWD, CHKALIAS}\<rparr>"
  obtain m where n: "n = Suc m" using assms(3) by (cases n) auto
  have "before ys ?s" "fine ?s ys" using assms(1,2) closer_fine by (auto simp: cmdpos_def intro: before_set_chk)
  from read_tok [OF this assms(4), of G] obtain st1 where "readtoken k G ?s = Inr (tokhd ys, st1)" "ready ys st1" by blast
  moreover have "tokhd ys \<in> tokendlist" "tokhd ys \<noteq> TNL" "tokhd ys \<noteq> TEOF" using assms(2) tokhd_not_nl [of ys] calculation(2)
    by (auto simp: closer_def ready_def behind_def kws_def)
  ultimately show ?thesis using ready_pushback by (auto simp: n pbind_Inr step_simps)
qed

lemma runs_reads:
  assumes "runs_list l"
  shows "reads_list l"
  unfolding reads_list_def
proof (intro allI impI)
  fix k nl ys st
  assume a: "nl \<in> {0, 2::nat}" "closer ys" "before (k_list l @ ys) st" "Suc (length (spell (k_list l @ ys))) < k"
  obtain m where k: "k = Suc m" using a(4) by (cases k) auto
  have "length (spell (k_list l @ ys)) < m" using a(4) k by simp
  with assms [unfolded runs_list_def, rule_format, OF a(3) this this, of True "nl = 2"] obtain n st1 where
    st1: "plist m (grammar_at m) nl st = list_loop n m (grammar_at m) True True (Some (t_list l)) st1" "before ys st1" "length (spell ys) < n"
    using a(1) by (auto simp: plist_def)
  have "length (spell ys) < m" using a(4) k by simp
  from list_closes [OF st1(2) a(2) st1(3) this, of "grammar_at m" "Some (t_list l)"] show "\<exists>st'. list_at k nl st = Inr (Some (t_list l), st') \<and> pushed ys st'"
    unfolding k command_at_Suc(2) st1(1) by auto
qed

lemma body_reads: "reads_list l \<Longrightarrow> reads_body (BList l)" "reads_body BNone"
proof -
  show "reads_list l \<Longrightarrow> reads_body (BList l)" by (simp add: reads_body_def reads_list_def)
  show "reads_body BNone" unfolding reads_body_def
  proof (intro allI impI)
    fix k ys st
    assume a: "before (k_body BNone @ Op TENDCASE # ys) st" "Suc (length (spell (k_body BNone @ Op TENDCASE # ys))) < k"
    obtain m where k: "k = Suc m" using a(2) by (cases k) auto
    have "before (Op TENDCASE # ys) st" "length (spell (Op TENDCASE # ys)) < m" using a k by simp_all
    from list_closes [OF this(1) _ this(2) this(2), of "grammar_at m" None]
    show "\<exists>st'. list_at k 2 st = Inr (t_body BNone, st') \<and> pushed (Op TENDCASE # ys) st'" unfolding k command_at_Suc(2) by (auto simp: plist_def)
  qed
qed

section \<open>Every command\<close>

lemma tree_induct:
  "ok_cmd c \<longrightarrow> reads_cmd c" "ok_list l \<longrightarrow> runs_list l" "ok_andor a \<longrightarrow> reads_andor a" "ok_pipe p \<longrightarrow> reads_pipe p"
  "ok_cmds cs \<longrightarrow> reads_cmds cs" "ok_else e \<longrightarrow> reads_else e" "ok_cases ks \<longrightarrow> reads_cases ks" "ok_body b \<longrightarrow> reads_body b"
proof (induction c and l and a and p and cs and e and ks and b)
  case (SSimple vs ws rs)
  then show ?case using simple_reads by simp
next
  case (SIf a b e rs)
  then show ?case using if_cmd runs_reads by simp
next
  case (SWhile u a b rs)
  then show ?case using while_cmd runs_reads by simp
next
  case (SFor v ws b rs)
  then show ?case using for_cmd runs_reads by simp
next
  case (SCase w ks rs)
  then show ?case using case_cmd by simp
next
  case (SGroup l rs)
  then show ?case using group_cmd(1) runs_reads by simp
next
  case (SSub l rs)
  then show ?case using group_cmd(2) runs_reads by simp
next
  case (SFunc v c)
  then show ?case using func_cmd by simp
next
  case (LOne a bg)
  then show ?case using list_one by simp
next
  case (LMore l a bg)
  then show ?case using list_more by simp
next
  case (AOne p)
  then show ?case using andor_one by simp
next
  case (AMore a b p)
  then show ?case using andor_more by simp
next
  case (SPipe neg cs)
  then show ?case using pipe_reads by simp
next
  case (COne c)
  then show ?case using cmds_one by simp
next
  case (CMore cs c)
  then show ?case using cmds_more by simp
next
  case ENone
  then show ?case using else_reads(1) by simp
next
  case (EElse l)
  then show ?case using else_reads(2) runs_reads by simp
next
  case (EElif a b e)
  then show ?case using else_reads(3) runs_reads by simp
next
  case KNil
  then show ?case using cases_nil by simp
next
  case (KCons p ps b ks)
  then show ?case using cases_cons by simp
next
  case BNone
  then show ?case using body_reads(2) by simp
next
  case (BList l)
  then show ?case using body_reads(1) runs_reads by simp
qed

lemma redirs_items: "list_all ok_redir rs \<Longrightarrow> x \<in> set (k_redirs rs) \<Longrightarrow> item_ok x"
proof -
  have "item_ok x" if "ok_redir r" "x \<in> set (k_redir r)" for r using that digits_word(1) by (cases r) auto
  then show "list_all ok_redir rs \<Longrightarrow> x \<in> set (k_redirs rs) \<Longrightarrow> item_ok x" by (auto simp: k_redirs_def list_all_iff)
qed

lemma name_word: "var_name v \<Longrightarrow> word_ok [Plain v]"
proof -
  have "list_all (\<lambda>c. is_in_name c \<longrightarrow> c \<noteq> CHR ''#'' \<and> column BASESYNTAX (S_I_T ! spec_index c) = CWORD) Enum.enum" by code_simp
  then have t: "\<forall>c. is_in_name c \<longrightarrow> c \<noteq> CHR ''#'' \<and> sit (Some c) BASESYNTAX = CWORD" unfolding sit_spec list_all_iff enum_UNIV by blast
  assume v: "var_name v"
  have "is_in_name c" if "is_name c" for c using that by (auto simp: is_name_def is_in_name_def isalnum_def)
  then have "\<forall>c\<in>set v. is_in_name c" using v by (cases v) (auto simp: var_name_def)
  then show ?thesis using t v by (auto simp: word_ok_def wsrc_def plain_char_def var_name_def)
qed

lemma items_ok:
  "ok_cmd c \<longrightarrow> (\<forall>x\<in>set (k_cmd c). item_ok x)" "ok_list l \<longrightarrow> (\<forall>x\<in>set (k_list l). item_ok x)" "ok_andor a \<longrightarrow> (\<forall>x\<in>set (k_andor a). item_ok x)"
  "ok_pipe p \<longrightarrow> (\<forall>x\<in>set (k_pipe p). item_ok x)" "ok_cmds cs \<longrightarrow> (\<forall>x\<in>set (k_cmds cs). item_ok x)" "ok_else e \<longrightarrow> (\<forall>x\<in>set (k_else e). item_ok x)"
  "ok_cases ks \<longrightarrow> (\<forall>x\<in>set (k_cases ks). item_ok x)" "ok_body b \<longrightarrow> (\<forall>x\<in>set (k_body b). item_ok x)"
proof (induction c and l and a and p and cs and e and ks and b)
qed (auto simp: ok_simple_def ops_def kws_def list_all_iff name_word intro: redirs_items [unfolded list_all_iff] split: option.splits)

section \<open>The whole input\<close>

lemma list_eof_plain:
  assumes "heredoclist st = []"
  shows "list_eof k G t e st = Inr ((t, e), st\<lparr>heredoclist := [], tokpushback := True, lasttoken := TEOF\<rparr>)"
  using assms by (simp add: list_eof_def parseheredoc_def pread_def pret_def pset_def pbind_def)

text \<open>At the end of the input.\<close>

definition at_end :: "pstate \<Rightarrow> bool" where
  "at_end st \<longleftrightarrow> tokpushback st \<and> lasttoken st = TEOF \<and> rest [] (g_parsefile st)"

lemma list_eof_reads:
  assumes "before [] st" "0 < n" "0 < k"
  shows "\<exists>st'. list_loop n k G c c t st = Inr ((t, t = None \<and> \<not> c), st') \<and> at_end st'"
proof -
  let ?s = "st\<lparr>checkkwd := (if c then {CHKNL} else {}) \<union> {CHKKWD, CHKALIAS}\<rparr>"
  obtain m where n: "n = Suc m" using assms(2) by (cases n) auto
  have "before [] ?s" "length (spell []) < k" using assms(1,3) by (auto intro: before_set_chk)
  from read_tok [OF this(1) fine_simps(5) this(2), of G] obtain st1 where
    st1: "readtoken k G ?s = Inr (TEOF, st1)" "heredoclist st1 = []" "rest [] (g_parsefile st1)" by (auto simp: ready_def behind_def)
  then have "list_loop n k G c c t st = Inr ((t, t = None \<and> \<not> c), st1\<lparr>heredoclist := [], tokpushback := True, lasttoken := TEOF\<rparr>)"
    using list_eof_plain [OF st1(2), of k G t] by (simp add: n pbind_Inr step_simps)
  then show ?thesis using st1(3) by (simp add: at_end_def)
qed

lemma parsecmd_loop: "parsecmd k st = list_loop k k (grammar_at k) False False None (st\<lparr>tokpushback := False, checkkwd := {}, heredoclist := []\<rparr>)"
  by (simp add: parsecmd_def pset_def pbind_def plist_def)

lemma parsecmd_tree:
  assumes "ok_list l" "length (spell (k_list l)) < k" "feeds (g_parsefile st) (spell (k_list l))"
  shows "\<exists>st'. parsecmd k st = Inr ((Some (t_list l), False), st') \<and> at_end st'"
proof -
  have "before (k_list l @ []) (st\<lparr>tokpushback := False, checkkwd := {}, heredoclist := []\<rparr>)"
    using items_ok(2) [rule_format, OF assms(1)] assms(3) by (simp add: before_def rest_def)
  from tree_induct(2) [rule_format, OF assms(1), unfolded runs_list_def, rule_format, OF this, of k k False False] assms(2)
  obtain n st1 where st1: "parsecmd k st = list_loop n k (grammar_at k) False False (Some (t_list l)) st1" "before [] st1" "0 < n"
    unfolding parsecmd_loop by auto
  then show ?thesis using list_eof_reads [OF st1(2,3), of k "grammar_at k" False "Some (t_list l)"] assms(2) by auto
qed

lemma parsecmd_eof:
  assumes "rest [] (g_parsefile st)" "0 < k"
  shows "\<exists>st'. parsecmd k st = Inr ((None, True), st') \<and> at_end st'"
proof -
  have "before [] (st\<lparr>tokpushback := False, checkkwd := {}, heredoclist := []\<rparr>)" using assms(1) by (simp add: before_def)
  from list_eof_reads [OF this assms(2,2), of "grammar_at k" False None] show ?thesis by (simp add: parsecmd_loop)
qed

lemma string_feeds: "feeds (g_parsefile (string_state s)) s"
  by (simp add: string_state_def feeds_def)

text \<open>C2: The parser finds the tree of every well-formed command list from its text: words with single and double
  quotes and parameters, assignments, redirections, pipelines, negation, and and or lists, background commands,
  conditionals, loops, case commands, groups, subshells and functions, nested to any depth.  A bound on the
  nesting and the loops above the length of the text is enough.\<close>

theorem parse_finds_tree:
  assumes "ok_list l" and "length (spell (k_list l)) < k"
  shows "\<exists>st. parsecmd k (string_state (spell (k_list l))) = Inr ((Some (t_list l), False), st)"
  using parsecmd_tree [OF assms string_feeds] by blast

text \<open>A loop over two words with a quoted command and a redirection.\<close>

definition sample_list :: slist where
  "sample_list =
     LOne (AMore (AOne (SPipe True (COne (SFor ''i'' (Some [[Plain ''a''], [Plain ''b'']])
       (LOne (AOne (SPipe False (COne (SSimple [] [[Plain ''echo''], [Double ''x y'', Param ''i'']] [])))) True) [SFile NTO 1 [Plain ''out'']]))))
       True (SPipe False (CMore (COne (SSimple [[Plain ''v=1'']] [[Plain ''cat'']] [])) (SSub (LOne (AOne (SPipe False (COne (SSimple [] [[Plain ''wc'']] [])))) False) [])))) False"

theorem parse_finds_tree_witness:
  "\<exists>st. parsecmd 200 (string_state (spell (k_list sample_list))) =
     Inr ((Some (Nand (Nnot (Nredir (Nfor ''i'' [Narg ''a'' [], Narg ''b'' []] (Nbackgnd (Ncmd [] [Narg ''echo'' [], Narg (CTLQUOTEMARK # ''x y'' @ [CTLQUOTEMARK] @ [CTLVAR, char_of VSNORMAL] @ ''i='') []] []) []))
       [Nfile NTO 1 (Narg ''out'' [])])) (Npipe False [Ncmd [Narg ''v=1'' []] [Narg ''cat'' []] [], Nsubshell (Ncmd [] [Narg ''wc'' []] []) []])), False), st)"
proof -
  have "ok_list sample_list" by code_simp
  moreover have "length (spell (k_list sample_list)) < 200" by code_simp
  ultimately have "\<exists>st. parsecmd 200 (string_state (spell (k_list sample_list))) = Inr ((Some (t_list sample_list), False), st)" by (rule parse_finds_tree)
  moreover have "t_list sample_list = Nand (Nnot (Nredir (Nfor ''i'' [Narg ''a'' [], Narg ''b'' []] (Nbackgnd (Ncmd [] [Narg ''echo'' [], Narg (CTLQUOTEMARK # ''x y'' @ [CTLQUOTEMARK] @ [CTLVAR, char_of VSNORMAL] @ ''i='') []] []) []))
       [Nfile NTO 1 (Narg ''out'' [])])) (Npipe False [Ncmd [Narg ''v=1'' []] [Narg ''cat'' []] [], Nsubshell (Ncmd [] [Narg ''wc'' []] []) []])" by code_simp
  ultimately show ?thesis by simp
qed

section \<open>Deviations\<close>

text \<open>The redirections of a subshell that is the only command of a group are lost when the group has a redirection.\<close>

lemma group_loses_redirection:
  "map_sum id fst (parsecmd 40 (string_state ''{ ( x ; ) >a ; } >b ;'')) =
     Inr (Some (Nsubshell (Ncmd [] [Narg ''x'' []] []) [Nfile NTO 1 (Narg ''b'' [])]), False)"
  by code_simp

text \<open>A token that is no word is taken as a pattern of a case: the pattern is the word that was read last.\<close>

lemma case_without_pattern:
  "map_sum id fst (parsecmd 30 (string_state ''case x in ; ) y ;; esac'')) =
     Inr (Some (Ncase (Narg ''x'' []) [([Narg ''in'' []], Some (Ncmd [] [Narg ''y'' []] []))]), False)"
  by code_simp

text \<open>
  In a line of a here-document that begins like the mark, a character behind the compared part may be read twice
  and the one before it lost: the line reads E, dollar, backslash, x.
\<close>

lemma heredoc_repeats_character:
  "map_sum id (\<lambda>(r, st). here_docs st) (parsecmd 30 (string_state
       (''cat <<E$F'' @ [NL] @ ''E$'' @ [BSL] @ ''x'' @ [NL] @ ''E$F'' @ [NL]))) = Inr [(0, Narg (''E$xx'' @ [NL]) [])]"
  by code_simp

end
