(* ===== verification/Ash_Input_Left.thy ===== *)
theory Ash_Input_Left
  imports Ash_Lex
begin

text \<open>
  How many characters of the input are left: the ones pushed back, the current text and the texts under the
  pushed strings; the end of the input, which may be pushed back too, counts nothing.  Every function that
  reads for the lexer takes away what it returns, and at most two characters are pushed back at any time.
\<close>

section \<open>Characters left\<close>

definition one :: "char option \<Rightarrow> nat" where
  "one c = (if c = None then 0 else 1)"

definition backs :: "nat \<Rightarrow> char option \<times> char option \<Rightarrow> nat" where
  "backs n lc = (if n = 0 then 0 else one (fst lc) + (n - 1) * one (snd lc))"

definition left_in :: "parsefile \<Rightarrow> nat" where
  "left_in pf = backs (unget pf) (lastc pf) + length (next_to_pgetc pf) +
     sum_list (map (\<lambda>sp. backs (sp_unget sp) (sp_lastc sp) + length (prev_string sp)) (strpush pf))"

text \<open>At most so many characters are pushed back, and at most one under every pushed string.\<close>

definition pushes :: "nat \<Rightarrow> parsefile \<Rightarrow> bool" where
  "pushes u pf \<longleftrightarrow> unget pf \<le> u \<and> (\<forall>sp\<in>set (strpush pf). sp_unget sp \<le> 1)"

text \<open>Pushing back the end of the input that was just read adds no character.\<close>

definition at_eof :: "parsefile \<Rightarrow> bool" where
  "at_eof pf \<longleftrightarrow> (unget pf = 0 \<and> fst (lastc pf) = None) \<or> (unget pf = 1 \<and> snd (lastc pf) = None)"

lemma one_simps [simp]: "one None = 0" "one (Some c) = 1" "one d \<le> 1"
  by (simp_all add: one_def)

lemma backs_simps [simp]: "backs 0 lc = 0" "backs (Suc 0) lc = one (fst lc)" "backs (Suc (Suc n)) lc = one (fst lc) + Suc n * one (snd lc)"
  by (simp_all add: backs_def)

lemma pushes_mono: "pushes u pf \<Longrightarrow> u \<le> v \<Longrightarrow> pushes v pf"
  by (auto simp: pushes_def)

lemma pushes_unget: "pushes u pf \<Longrightarrow> pushes (Suc u) (pungetc pf)"
  by (simp add: pushes_def pungetc_def)

lemma left_unget: "left_in (pungetc pf) \<le> Suc (left_in pf)"
proof (cases "unget pf")
  case (Suc n)
  then show ?thesis by (cases n) (auto simp: left_in_def pungetc_def one_def)
qed (auto simp: left_in_def pungetc_def one_def)

lemma left_unget_eof: "at_eof pf \<Longrightarrow> left_in (pungetc pf) = left_in pf"
  by (auto simp: left_in_def pungetc_def at_eof_def numeral_2_eq_2)

lemma left_shift: "unget pf = 0 \<Longrightarrow> left_in (shift_lastc c pf) = left_in pf" "pushes u (shift_lastc c pf) = pushes u pf"
  by (simp_all add: left_in_def shift_lastc_def pushes_def)

lemma pgetc_left:
  assumes "pgetc pf = (c, pf')" "pushes u pf" "u \<le> 2"
  shows "left_in pf' + one c \<le> left_in pf \<and> pushes (u - 1) pf' \<and> (c = None \<longrightarrow> at_eof pf')"
  using assms
proof (induction pf arbitrary: c pf' u rule: pgetc.induct)
  case (1 pf)
  have u: "unget pf \<le> u" using 1(3) by (simp add: pushes_def)
  consider "unget pf = 1" | "unget pf = 2" | d s where "unget pf = 0" "next_to_pgetc pf = d # s" | "unget pf = 0" "next_to_pgetc pf = []" "strpush pf = []"
    | sp sps where "unget pf = 0" "next_to_pgetc pf = []" "strpush pf = sp # sps"
    using u 1(4) by (cases "next_to_pgetc pf"; cases "strpush pf"; cases "unget pf"; cases "unget pf - 1"; simp)
  then show ?case
  proof cases
    case 1
    then have "c = fst (lastc pf)" "pf' = pf\<lparr>unget := 0\<rparr>" using 1 \<open>pgetc pf = (c, pf')\<close> by (subst (asm) pgetc.simps, simp)+
    then show ?thesis using 1 \<open>pushes u pf\<close> by (auto simp: left_in_def pushes_def at_eof_def)
  next
    case 2
    then have "c = snd (lastc pf)" "pf' = pf\<lparr>unget := 1\<rparr>" using \<open>pgetc pf = (c, pf')\<close> by (subst (asm) pgetc.simps, simp)+
    then show ?thesis using 2 \<open>pushes u pf\<close> by (auto simp: left_in_def pushes_def at_eof_def numeral_2_eq_2)
  next
    case (3 d s)
    then have "c = Some d" "pf' = shift_lastc c (pf\<lparr>next_to_pgetc := s\<rparr>)" using \<open>pgetc pf = (c, pf')\<close> by (subst (asm) pgetc.simps, simp)+
    then show ?thesis using 3 \<open>pushes u pf\<close> by (auto simp: left_in_def pushes_def shift_lastc_def)
  next
    case 4
    then have "c = None" "pf' = shift_lastc None pf" using \<open>pgetc pf = (c, pf')\<close> by (subst (asm) pgetc.simps, simp)+
    then show ?thesis using 4 \<open>pushes u pf\<close> by (auto simp: left_in_def pushes_def shift_lastc_def at_eof_def)
  next
    case (5 sp sps)
    obtain d pf1 where d: "pgetc (popstring sp sps pf) = (d, pf1)" by fastforce
    have e: "c = d" "pf' = shift_lastc d pf1" using 1(2) 5 d by (subst (asm) pgetc.simps, simp)+
    have "pushes 1 (popstring sp sps pf)" using 1(3) 5 by (simp add: pushes_def popstring_def)
    from 1(1) [OF _ _ 5(2,3) d this] have IH: "left_in pf1 + one d \<le> left_in (popstring sp sps pf)" "pushes 0 pf1" using 5(1) by simp_all
    have "left_in (popstring sp sps pf) = left_in pf" using 5 by (simp add: left_in_def popstring_def)
    moreover have "unget pf1 = 0" using IH(2) by (simp add: pushes_def)
    ultimately show ?thesis using IH pushes_mono [OF IH(2)] unfolding e by (auto simp: left_shift) (simp add: shift_lastc_def at_eof_def)
  qed
qed


section \<open>Reading functions\<close>

definition got :: "char option \<Rightarrow> parsefile \<Rightarrow> bool" where
  "got c pf \<longleftrightarrow> pushes 1 pf \<and> (c = None \<longrightarrow> at_eof pf)"

text \<open>A function that reads a character, with at most two pushed back before.\<close>

definition reads :: "(parsefile \<Rightarrow> char option \<times> parsefile) \<Rightarrow> bool" where
  "reads f \<longleftrightarrow> (\<forall>pf c pf'. f pf = (c, pf') \<longrightarrow> pushes 2 pf \<longrightarrow> left_in pf' + one c \<le> left_in pf \<and> got c pf')"

lemma readsD: "reads f \<Longrightarrow> f pf = (c, pf') \<Longrightarrow> pushes 2 pf \<Longrightarrow> left_in pf' + one c \<le> left_in pf \<and> got c pf'"
  by (auto simp: reads_def)

lemma got_unread: "got c pf \<Longrightarrow> left_in (pungetc pf) \<le> left_in pf + one c \<and> pushes 2 (pungetc pf)"
  using left_unget [of pf] left_unget_eof [of pf] pushes_unget [of 1 pf] by (cases c) (auto simp: got_def numeral_2_eq_2)

lemma got_pushes: "got c pf \<Longrightarrow> pushes 2 pf"
  by (auto simp: got_def intro: pushes_mono)

lemma pgetc_reads: "reads pgetc"
  using pgetc_left [of _ _ _ 2] by (auto simp: reads_def got_def)

lemma eatbnl_reads: "reads pgetc_eatbnl"
  unfolding reads_def
proof (intro allI impI)
  fix pf c pf' assume "pgetc_eatbnl pf = (c, pf')" "pushes 2 pf"
  then show "left_in pf' + one c \<le> left_in pf \<and> got c pf'"
  proof (induction pf arbitrary: c pf' rule: pgetc_eatbnl.induct)
    case (1 pf)
    obtain d pf1 where d: "pgetc pf = (d, pf1)" by fastforce
    have l: "left_in pf1 + one d \<le> left_in pf" "got d pf1" using readsD [OF pgetc_reads d 1(3)] by simp_all
    show ?case
    proof (cases "d = Some BSL")
      case True
      obtain e pf2 where e: "pgetc pf1 = (e, pf2)" by fastforce
      have le: "left_in pf2 + one e \<le> left_in pf1" "got e pf2" using readsD [OF pgetc_reads e got_pushes [OF l(2)]] by simp_all
      show ?thesis
      proof (cases "e = Some NL")
        case nl: True
        then have "pgetc_eatbnl pf2 = (c, pf')" using 1(2) d e True by (subst (asm) pgetc_eatbnl.simps) simp
        from 1(1) [OF d [symmetric] True e [symmetric] nl this got_pushes [OF le(2)]] show ?thesis using l le by auto
      next
        case False
        then have eq: "c = Some BSL" "pf' = pungetc pf2" using 1(2) d e True by (subst (asm) pgetc_eatbnl.simps, simp)+
        have "pushes 0 pf2" using pgetc_left [OF e, of 1] l(2) by (simp add: got_def)
        then have "pushes 1 pf'" using pushes_unget [of 0 pf2] eq(2) by simp
        then show ?thesis using got_unread [OF le(2)] le(1) l(1) eq True by (simp add: got_def)
      qed
    next
      case False
      then have "c = d" "pf' = pf1" using 1(2) d by (subst (asm) pgetc_eatbnl.simps, simp)+
      then show ?thesis using l by simp
    qed
  qed
qed

lemma pgetc_top_reads: "reads (pgetc_top s)"
  using pgetc_reads eatbnl_reads by (simp add: pgetc_top_def)

lemma skip_comment_reads: "reads skip_comment"
  unfolding reads_def
proof (intro allI impI)
  fix pf c pf' assume "skip_comment pf = (c, pf')" "pushes 2 pf"
  then show "left_in pf' + one c \<le> left_in pf \<and> got c pf'"
  proof (induction pf arbitrary: c pf' rule: skip_comment.induct)
    case (1 pf)
    obtain d pf1 where d: "pgetc pf = (d, pf1)" by fastforce
    have l: "left_in pf1 + one d \<le> left_in pf" "got d pf1" using readsD [OF pgetc_reads d 1(3)] by simp_all
    show ?case
    proof (cases "d = Some NL \<or> d = None")
      case True
      then have "c = d" "pf' = pf1" using 1(2) d by (subst (asm) skip_comment.simps, auto)+
      then show ?thesis using l by simp
    next
      case False
      then have "skip_comment pf1 = (c, pf')" using 1(2) d by (subst (asm) skip_comment.simps) auto
      from 1(1) [OF d [symmetric] False this got_pushes [OF l(2)]] show ?thesis using l(1) by auto
    qed
  qed
qed

lemma token_start_reads: "reads token_start"
  unfolding reads_def
proof (intro allI impI)
  fix pf c pf' assume "token_start pf = (c, pf')" "pushes 2 pf"
  then show "left_in pf' + one c \<le> left_in pf \<and> got c pf'"
  proof (induction pf arbitrary: c pf' rule: token_start.induct)
    case (1 pf)
    obtain d pf1 where d: "pgetc_eatbnl pf = (d, pf1)" by fastforce
    have l: "left_in pf1 + one d \<le> left_in pf" "got d pf1" using readsD [OF eatbnl_reads d 1(4)] by simp_all
    obtain e pf2 where e: "skip_comment pf1 = (e, pf2)" by fastforce
    have le: "left_in pf2 + one e \<le> left_in pf1" "got e pf2" using readsD [OF skip_comment_reads e got_pushes [OF l(2)]] by simp_all
    have u: "left_in (pungetc pf2) \<le> left_in pf1" "pushes 2 (pungetc pf2)" using got_unread [OF le(2)] le(1) by simp_all
    consider "d = Some SP \<or> d = Some TAB" | "d = Some (CHR ''#'')" "e = None" | "d = Some (CHR ''#'')" "e \<noteq> None"
      | "d \<noteq> Some SP" "d \<noteq> Some TAB" "d \<noteq> Some (CHR ''#'')" by blast
    then show ?case
    proof cases
      case b: 1
      then have "token_start pf1 = (c, pf')" using 1(3) d by (subst (asm) token_start.simps) auto
      from 1(1) [OF d [symmetric] b this got_pushes [OF l(2)]] show ?thesis using l(1) by auto
    next
      case b: 2
      then have "pgetc_eatbnl (pungetc pf2) = (c, pf')" using 1(3) d e by (subst (asm) token_start.simps) auto
      from readsD [OF eatbnl_reads this u(2)] show ?thesis using l(1) u(1) by auto
    next
      case b: 3
      then have "token_start (pungetc pf2) = (c, pf')" using 1(3) d e by (subst (asm) token_start.simps) auto
      from 1(2) [OF d [symmetric] _ b(1) e [symmetric] b(2) this u(2)] show ?thesis using l(1) u(1) b(1) by auto
    next
      case b: 4
      then have "c = d" "pf' = pf1" using 1(3) d by (subst (asm) token_start.simps, simp)+
      then show ?thesis using l by simp
    qed
  qed
qed

lemma read_name_left:
  assumes "read_name P pf = (s, c, pf')" "pushes 2 pf"
  shows "left_in pf' + one c \<le> left_in pf \<and> got c pf'"
  using assms
proof (induction P pf arbitrary: s c pf' rule: read_name.induct)
  case (1 P pf)
  obtain d pf1 where d: "pgetc_eatbnl pf = (d, pf1)" by fastforce
  have l: "left_in pf1 + one d \<le> left_in pf" "got d pf1" using readsD [OF eatbnl_reads d 1(3)] by simp_all
  show ?case
  proof (cases "\<exists>x. d = Some x \<and> P x \<and> x \<noteq> BSL")
    case True
    then obtain x where x: "d = Some x" "P x \<and> x \<noteq> BSL" by blast
    obtain s1 where "read_name P pf1 = (s1, c, pf')" using 1(2) d x by (subst (asm) read_name.simps) (auto split: prod.splits)
    from 1(1) [OF d [symmetric] x this got_pushes [OF l(2)]] show ?thesis using l(1) by auto
  next
    case False
    then have "c = d \<and> pf' = pf1" using 1(2) d by (subst (asm) read_name.simps) (auto split: option.splits if_splits)
    then show ?thesis using l by simp
  qed
qed

lemma varname_plain_left:
  assumes "varname_plain sub x pf = ((name, sub', d, bad), pf')" "pushes 2 pf"
  shows "left_in pf' + one d \<le> left_in pf" "got d pf'"
  using assms read_name_left [of "if is_name x then is_in_name else var_digits sub" pf] by (auto simp: varname_plain_def split: prod.splits)

lemma varname_special_facts:
  assumes "varname_special sub cc c pf = ((name, sub', d, bad), pf')"
  shows "d = c" "pf' = pf" "sub = 0 \<Longrightarrow> sub' = 0" "cc = Some (CHR ''#'') \<Longrightarrow> \<not> bad"
  using assms by (auto simp: varname_special_def is_special_def split: option.splits if_splits)

lemma varname_left:
  assumes "varname sub c pf = ((name, sub', d, bad), pf')" "got c pf"
  shows "left_in pf' + one d \<le> left_in pf + one c \<and> pushes 2 pf' \<and> (bad \<or> sub' \<noteq> 0 \<longrightarrow> got d pf')"
proof -
  have p: "pushes 2 pf" using got_pushes [OF assms(2)] .
  obtain e pf1 where e: "pgetc_eatbnl pf = (e, pf1)" by fastforce
  have le: "left_in pf1 + one e \<le> left_in pf" "got e pf1" using readsD [OF eatbnl_reads e p] by simp_all
  obtain g pf2 where g: "pgetc_eatbnl pf1 = (g, pf2)" by fastforce
  have lg: "left_in pf2 + one g \<le> left_in pf1" "got g pf2" using readsD [OF eatbnl_reads g got_pushes [OF le(2)]] by simp_all
  consider (name) "c_is (\<lambda>x. is_name x \<or> isdigit x) c" | (close) "\<not> c_is (\<lambda>x. is_name x \<or> isdigit x) c" "c = Some (CHR ''}'')"
    | (len) "\<not> c_is (\<lambda>x. is_name x \<or> isdigit x) c" "c \<noteq> Some (CHR ''}'')" "sub = 0 \<and> c = Some (CHR ''#'')"
    | (special) "\<not> c_is (\<lambda>x. is_name x \<or> isdigit x) c" "c \<noteq> Some (CHR ''}'')" "\<not> (sub = 0 \<and> c = Some (CHR ''#''))" by blast
  then show ?thesis
  proof cases
    case name
    then have "varname_plain sub (the c) pf = ((name, sub', d, bad), pf')" using assms(1) by (simp add: varname_def)
    from varname_plain_left [OF this p] show ?thesis using got_pushes by auto
  next
    case close
    then have "d = c" "pf' = pf" using assms(1) by (simp_all add: varname_def)
    then show ?thesis using assms(2) p by simp
  next
    case len
    show ?thesis
    proof (cases "c_is is_in_name e")
      case True
      then have "varname_plain VSLENGTH (the e) pf1 = ((name, sub', d, bad), pf')" using assms(1) len e by (simp add: varname_def)
      from varname_plain_left [OF this got_pushes [OF le(2)]] show ?thesis using le(1) got_pushes by auto
    next
      case False
      show ?thesis
      proof (cases "e = Some (CHR ''}'') \<or> g \<noteq> Some (CHR ''}'')")
        case t: True
        then have v: "varname_special 0 (Some (CHR ''#'')) e (pungetc pf2) = ((name, sub', d, bad), pf')" using assms(1) len e g False by (simp add: varname_def)
        then show ?thesis using varname_special_facts [OF v] got_unread [OF lg(2)] lg(1) le(1) by auto
      next
        case f: False
        then have v: "varname_special VSLENGTH e g pf2 = ((name, sub', d, bad), pf')" using assms(1) len e g False by (simp add: varname_def)
        then show ?thesis using varname_special_facts [OF v] got_pushes [OF lg(2)] lg le(1) by auto
      qed
    qed
  next
    case special
    then have v: "varname_special sub c e pf1 = ((name, sub', d, bad), pf')" using assms(1) e by (auto simp: varname_def)
    then show ?thesis using varname_special_facts [OF v] got_pushes [OF le(2)] le by auto
  qed
qed

lemma var_operator_left:
  assumes "var_operator c pf = (r, pf')" "pushes 2 pf"
  shows "left_in pf' \<le> left_in pf \<and> pushes 2 pf'"
proof -
  obtain e pf1 where e: "pgetc_eatbnl pf = (e, pf1)" by fastforce
  have le: "left_in pf1 + one e \<le> left_in pf" "got e pf1" using readsD [OF eatbnl_reads e assms(2)] by simp_all
  have "pf' \<in> {pf, pf1, pungetc pf1}" using assms(1) e by (auto simp: var_operator_def Let_def split: if_splits)
  then show ?thesis using le got_unread [OF le(2)] got_pushes [OF le(2)] assms(2) by auto
qed

lemma var_sub_left:
  assumes "var_sub brace c pf = (r, pf')" "got c pf"
  shows "left_in pf' \<le> left_in pf + one c \<and> pushes 2 pf'"
proof -
  obtain c1 pf1 where c1: "(if brace then pgetc_eatbnl pf else (c, pf)) = (c1, pf1)" by fastforce
  have l1: "left_in pf1 + one c1 \<le> left_in pf + one c" "got c1 pf1"
    using c1 assms(2) readsD [OF eatbnl_reads, of pf c1 pf1] got_pushes by (auto split: if_splits)
  obtain name sub d bad pf2 where v: "varname (if brace then 0 else VSNORMAL) c1 pf1 = ((name, sub, d, bad), pf2)" by (metis prod.exhaust)
  note l2 = varname_left [OF v l1(2)]
  obtain q pf3 where o: "var_operator d pf2 = (q, pf3)" by fastforce
  note l3 = var_operator_left [OF o]
  have "pf' = pf3 \<or> (bad \<or> sub \<noteq> 0) \<and> pf' = pungetc pf2" using assms(1) c1 v o by (auto simp: var_sub_def split: if_splits prod.splits)
  then show ?thesis using l1 l2 l3 got_unread [of d pf2] by auto
qed

lemma read_backq_left:
  assumes "read_backq dq pf = Some (s, pf')" "pushes 2 pf"
  shows "left_in pf' + length s < left_in pf \<and> pushes 2 pf'"
  using assms
proof (induction dq pf arbitrary: s pf' rule: read_backq.induct)
  case (1 dq pf)
  obtain c pf1 where c: "pgetc_eatbnl pf = (c, pf1)" by fastforce
  have l: "left_in pf1 + one c \<le> left_in pf" "got c pf1" using readsD [OF eatbnl_reads c 1(4)] by simp_all
  obtain x where x: "c = Some x" using 1(3) c by (subst (asm) read_backq.simps) (auto split: option.splits)
  obtain d pf2 where d: "pgetc pf1 = (d, pf2)" by fastforce
  have ld: "left_in pf2 + one d \<le> left_in pf1" "got d pf2" using readsD [OF pgetc_reads d got_pushes [OF l(2)]] by simp_all
  consider "x = BQ" | "x \<noteq> BQ" "x = BSL" | "x \<noteq> BQ" "x \<noteq> BSL" by blast
  then show ?case
  proof cases
    case b: 1
    then show ?thesis using 1(3) c x l got_pushes [OF l(2)] by (subst (asm) read_backq.simps) auto
  next
    case b: 2
    obtain y s1 where y: "d = Some y" "read_backq dq pf2 = Some (s1, pf')" "length s \<le> length s1 + 2"
      using 1(3) c x b d by (subst (asm) read_backq.simps) (auto split: option.splits)
    from 1(1) [OF c [symmetric] x b d [symmetric] y(1,2) got_pushes [OF ld(2)]] show ?thesis using l(1) ld(1) x y(1,3) by auto
  next
    case b: 3
    obtain s1 where s1: "read_backq dq pf1 = Some (s1, pf')" "s = x # s1" using 1(3) c x b by (subst (asm) read_backq.simps) auto
    from 1(2) [OF c [symmetric] x b s1(1) got_pushes [OF l(2)]] show ?thesis using l(1) x s1(2) by auto
  qed
qed

lemma skip_tabs_left:
  assumes "skip_tabs c pf = (c', pf')" "pushes 2 pf"
  shows "left_in pf' + one c' \<le> left_in pf + one c \<and> pushes 2 pf'"
  using assms
proof (induction c pf arbitrary: c' pf' rule: skip_tabs.induct)
  case (1 c pf)
  obtain d pf1 where d: "pgetc pf = (d, pf1)" by fastforce
  have l: "left_in pf1 + one d \<le> left_in pf" "got d pf1" using readsD [OF pgetc_reads d 1(3)] by simp_all
  consider "c \<noteq> Some TAB" | "c = Some TAB" "d = None" | x where "c = Some TAB" "d = Some x" by (cases d) auto
  then show ?case
  proof cases
    case b: (3 x)
    then have "skip_tabs (Some x) pf1 = (c', pf')" using 1(2) d by (subst (asm) skip_tabs.simps) simp
    from 1(1) [OF b(1) d [symmetric] b(2) this got_pushes [OF l(2)]] show ?thesis using l(1) b by auto
  qed (use 1(2,3) d l got_pushes [OF l(2)] in \<open>subst (asm) skip_tabs.simps, auto\<close>)+
qed

lemma match_mark_length: "match_mark ms c put pf = (m, put', c', pf') \<Longrightarrow> length put < length put'"
  by (induction ms arbitrary: c put pf) (fastforce split: if_splits prod.splits)+

lemma match_mark_left:
  assumes "match_mark ms c put pf = (m, put', c', pf')" "pushes 2 pf"
  shows "\<exists>cs. put' = put @ c # cs \<and> left_in pf' + one c + sum_list (map one cs) \<le> left_in pf + one c \<and> pushes 2 pf' \<and>
     left_in pf' + one c' \<le> left_in pf + one c \<and> (cs \<noteq> [] \<longrightarrow> pushes 1 pf')"
  using assms
proof (induction ms arbitrary: c put pf)
  case (Cons x ms)
  obtain d pf1 where d: "pgetc pf = (d, pf1)" by fastforce
  have l: "left_in pf1 + one d \<le> left_in pf" "got d pf1" using readsD [OF pgetc_reads d Cons.prems(2)] by simp_all
  show ?case
  proof (cases "c = Some x")
    case True
    then have "match_mark ms d (put @ [c]) pf1 = (m, put', c', pf')" using Cons.prems(1) d by simp
    from Cons.IH [OF this got_pushes [OF l(2)]] obtain cs where cs: "put' = (put @ [c]) @ d # cs" "left_in pf' + one d + sum_list (map one cs) \<le> left_in pf1 + one d"
      "pushes 2 pf'" "left_in pf' + one c' \<le> left_in pf1 + one d" "cs \<noteq> [] \<longrightarrow> pushes 1 pf'" by blast
    moreover have "pushes 1 pf'" if "cs = []"
    proof -
      have "(c', pf') = (d, pf1)" using that cs(1) \<open>match_mark ms d (put @ [c]) pf1 = (m, put', c', pf')\<close>
        by (cases ms) (auto split: if_splits prod.splits dest!: match_mark_length)
      then show ?thesis using l(2) by (simp add: got_def)
    qed
    ultimately show ?thesis using l(1) by (intro exI [of _ "d # cs"]) auto
  qed (use Cons.prems in auto)
qed auto

lemma map_filter_id: "length (List.map_filter id cs) = sum_list (map one cs)"
  by (induction cs) (auto simp: map_filter_simps one_def)

lemma left_pushstring: "left_in (pushstring s pf) = length s + left_in pf" "pushes 1 pf \<Longrightarrow> pushes 2 (pushstring s pf)"
  by (simp_all add: left_in_def pushes_def pushstring_def)

lemma checkend_left:
  assumes "checkend mark strip c pf = (c', pf')" "pushes 2 pf"
  shows "left_in pf' + one c' \<le> left_in pf + one c \<and> pushes 2 pf'"
proof (cases mark)
  case (Mark m)
  obtain c1 pf1 where c1: "(if strip then skip_tabs c pf else (c, pf)) = (c1, pf1)" by fastforce
  have l1: "left_in pf1 + one c1 \<le> left_in pf + one c" "pushes 2 pf1" using skip_tabs_left [of c pf c1 pf1] c1 assms(2) by (auto split: if_splits)
  obtain b put c2 pf2 where m: "match_mark m c1 [] pf1 = (b, put, c2, pf2)" by (metis prod.exhaust)
  from match_mark_left [OF m l1(2)] obtain cs where cs: "put = c1 # cs" "left_in pf2 + sum_list (map one cs) \<le> left_in pf1"
    "pushes 2 pf2" "left_in pf2 + one c2 \<le> left_in pf1 + one c1" "cs \<noteq> [] \<longrightarrow> pushes 1 pf2" by auto
  define s where "s = List.map_filter id cs"
  have s: "length s = sum_list (map one cs)" using map_filter_id by (simp add: s_def)
  have "(c', pf') = (None, pf2) \<or> (c', pf') = (c2, pf2) \<or> cs \<noteq> [] \<and> c' = c1 \<and> pf' = (if s = [] then pf2 else pushstring s pf2)"
    using assms(1) Mark c1 m cs(1) unfolding checkend_def by (auto simp: s_def Let_def split: if_splits)
  then show ?thesis using l1 cs s left_pushstring [where s = s and pf = pf2] by (auto split: if_splits)
qed (use assms in \<open>simp_all add: checkend_def\<close>)

lemma redir_operator_left:
  assumes "redir_operator c pf = (r, pf')" "pushes 2 pf"
  shows "left_in pf' \<le> left_in pf \<and> pushes 2 pf'"
proof -
  obtain d pf1 where d: "pgetc_eatbnl pf = (d, pf1)" by fastforce
  have l: "left_in pf1 + one d \<le> left_in pf" "got d pf1" using readsD [OF eatbnl_reads d assms(2)] by simp_all
  obtain e pf2 where e: "pgetc_eatbnl pf1 = (e, pf2)" by fastforce
  have le: "left_in pf2 + one e \<le> left_in pf1" "got e pf2" using readsD [OF eatbnl_reads e got_pushes [OF l(2)]] by simp_all
  have "pf' \<in> {pf1, pungetc pf1, pf2, pungetc pf2}" using assms(1) d e by (auto simp: redir_operator_def split: if_splits)
  then show ?thesis using l le got_unread [OF l(2)] got_unread [OF le(2)] got_pushes [OF l(2)] got_pushes [OF le(2)] by auto
qed

end
