(* ===== verification/Ash_Lex_Ends.thy ===== *)
theory Ash_Lex_Ends
  imports Ash_Input_Left
begin

text \<open>
  The lexer of the shell ends on every input.  A calculus of parsers that end (\<open>ends\<close>) follows the lexer; the
  measure is the number of characters left in the input, with a pushed back token counted as one.  What the
  lexer needs of the grammar it calls back is the locale \<open>grammar_contract\<close>.
\<close>

section \<open>Parsers that end\<close>

text \<open>The parser ends, with an error of the input or with a result and a state that satisfy the predicate.\<close>

definition ends :: "'a parser \<Rightarrow> ('a \<Rightarrow> pstate \<Rightarrow> bool) \<Rightarrow> pstate \<Rightarrow> bool" where
  "ends m Q st \<longleftrightarrow> (case m st of Inl e \<Rightarrow> e \<noteq> ParserFuel \<and> e \<noteq> NullNode | Inr (x, st') \<Rightarrow> Q x st')"

lemma ends_simps [simp]:
  "ends (pbind m f) Q = ends m (\<lambda>x. ends (f x) Q)" "ends (pret y) R = R y" "ends (pread g) S = (\<lambda>st. S (g st) st)"
  "ends (pset h) T = (\<lambda>st. T () (h st))" "ends (pfail e) U = (\<lambda>st. e \<noteq> ParserFuel \<and> e \<noteq> NullNode)" "ends (raise_error_unexpected_syntax t) V = (\<lambda>st. True)"
  by (auto simp: fun_eq_iff ends_def pbind_def pret_def pread_def pset_def pfail_def raise_error_unexpected_syntax_def split: sum.splits)

lemma ends_on_file [simp]: "ends (on_file f) Q = (\<lambda>st. case f (g_parsefile st) of (x, pf) \<Rightarrow> Q x (st\<lparr>g_parsefile := pf\<rparr>))"
  by (simp add: fun_eq_iff ends_def on_file_def split: prod.splits)

lemma ends_unread [simp]: "ends unread Q = (\<lambda>st. Q () (st\<lparr>g_parsefile := pungetc (g_parsefile st)\<rparr>))"
  by (simp add: unread_def)

lemma ends_weaken: "ends m P st \<Longrightarrow> (\<And>x st'. P x st' \<Longrightarrow> Q x st') \<Longrightarrow> ends m Q st"
  by (auto simp: ends_def split: sum.splits)

lemma bind_ends: "ends m (\<lambda>x. ends (f x) Q) st \<Longrightarrow> ends (pbind m f) Q st"
  by simp

lemma ends_set_token [simp]: "ends (set_token t) Q = (\<lambda>st. Q t (st\<lparr>lasttoken := t\<rparr>))"
  by (simp add: set_token_def)

text \<open>Room in the input, a pushed back token included; the input files below are the given ones.\<close>

definition tokw :: "pstate \<Rightarrow> nat" where
  "tokw st = (if tokpushback st \<and> lasttoken st \<noteq> TEOF then 1 else 0)"

definition room :: "nat \<Rightarrow> parsefile list \<Rightarrow> pstate \<Rightarrow> bool" where
  "room n fs st \<longleftrightarrow> pushes 2 (g_parsefile st) \<and> prev_files st = fs \<and> left_in (g_parsefile st) + tokw st \<le> n"

definition taken :: "nat \<Rightarrow> parsefile list \<Rightarrow> token \<Rightarrow> pstate \<Rightarrow> bool" where
  "taken n fs t st \<longleftrightarrow> lasttoken st = t \<and> \<not> tokpushback st \<and> pushes 2 (g_parsefile st) \<and> prev_files st = fs \<and>
     left_in (g_parsefile st) + (if t = TEOF then 0 else 1) \<le> n"

definition eof_pending :: "pstate \<Rightarrow> bool" where
  "eof_pending st \<longleftrightarrow> tokpushback st \<and> lasttoken st = TEOF"

locale grammar_contract =
  fixes G :: grammar and k :: nat
  assumes list_ends: "room n fs st \<Longrightarrow> n + 1 < k \<Longrightarrow> nl \<in> {0, 2} \<Longrightarrow>
      ends (g_list G nl) (\<lambda>r st'. room n fs st' \<and> (r = None \<and> nl = 0 \<longrightarrow> eof_pending st')) st"
    and command_ends: "room n fs st \<Longrightarrow> n + 1 < k \<Longrightarrow> ends (g_command G) (\<lambda>_. room n fs) st"
    and token_ends: "room n fs st \<Longrightarrow> n + 1 < k \<Longrightarrow> ends (g_readtoken G) (taken n fs) st"
    and heredoc_ends: "room n fs st \<Longrightarrow> n + 1 < k \<Longrightarrow>
      ends (g_parseheredoc G) (\<lambda>_ st'. room n fs st' \<and> (\<not> tokpushback st \<longrightarrow> \<not> tokpushback st')) st"

section \<open>Words\<close>

text \<open>Only the bottom of the stack of syntaxes is not entered by a substitution.\<close>

definition base_syntax :: "synstack \<Rightarrow> bool" where
  "base_syntax s \<longleftrightarrow> \<not> varpushed s \<and> sy_syntax s \<noteq> ARISYNTAX"

definition stack_ok :: "rt1 \<Rightarrow> bool" where
  "stack_ok l \<longleftrightarrow> base_syntax (last (r_syn l # r_syns l))"

text \<open>Inside a word: the current character is read but counted.  At the end of a word it can be pushed back.\<close>

definition inside :: "nat \<Rightarrow> parsefile list \<Rightarrow> rt1 \<Rightarrow> pstate \<Rightarrow> bool" where
  "inside n fs l st \<longleftrightarrow> pushes 2 (g_parsefile st) \<and> prev_files st = fs \<and> \<not> tokpushback st \<and> left_in (g_parsefile st) \<le> n \<and> stack_ok l"

definition word_at :: "eof_mark \<Rightarrow> nat \<Rightarrow> parsefile list \<Rightarrow> rt1 \<Rightarrow> pstate \<Rightarrow> bool" where
  "word_at mark n fs l st \<longleftrightarrow> pushes 2 (g_parsefile st) \<and> prev_files st = fs \<and> \<not> tokpushback st \<and>
     left_in (g_parsefile st) + one (r_c l) \<le> n \<and> stack_ok l \<and> (mark = NoMark \<longrightarrow> got (r_c l) (g_parsefile st))"

lemma emit_simps [simp]:
  "stack_ok (emit s l) = stack_ok l" "stack_ok (emit_c l) = stack_ok l" "stack_ok (l\<lparr>r_quotef := q\<rparr>) = stack_ok l" "stack_ok (l\<lparr>r_bqlist := b\<rparr>) = stack_ok l"
  "stack_ok (l\<lparr>r_c := c\<rparr>) = stack_ok l" "stack_ok (quotemark mark l) = stack_ok l"
  by (simp_all add: stack_ok_def emit_def emit_c_def quotemark_def split: option.split)

lemma on_syn_stack: "stack_ok l \<Longrightarrow> (\<And>s. base_syntax s \<Longrightarrow> base_syntax (f s)) \<Longrightarrow> stack_ok (on_syn f l)"
  by (cases "r_syns l = []") (auto simp: stack_ok_def on_syn_def)

lemma toggledq_stack [simp]: "stack_ok l \<Longrightarrow> stack_ok (toggledq mark l)"
  by (auto simp: toggledq_def intro!: on_syn_stack) (simp add: base_syntax_def)

lemma push_stack [simp]: "stack_ok (synstack_push s l) = stack_ok l"
  by (simp add: stack_ok_def synstack_push_def)

lemma pop_stack: "stack_ok l \<Longrightarrow> \<not> base_syntax (r_syn l) \<Longrightarrow> ends (synstack_pop l) (\<lambda>l1 st'. stack_ok l1 \<and> st' = st) st"
  by (cases "r_syns l") (simp_all add: stack_ok_def synstack_pop_def split: if_splits)

lemma enter_var_stack [simp]: "stack_ok l \<Longrightarrow> stack_ok (enter_var sub base l)"
  by (auto simp: enter_var_def Let_def intro!: on_syn_stack) (simp_all add: base_syntax_def)

lemma endquote_stack [simp]: "stack_ok l \<Longrightarrow> stack_ok (rt1_endquote mark l)"
  by (auto simp: rt1_endquote_def Let_def intro!: toggledq_stack on_syn_stack) (simp_all add: base_syntax_def)

lemma sit_eof: "sit None syn = CENDFILE"
proof -
  have "list_all (\<lambda>syn. sit None syn = CENDFILE) [BASESYNTAX, DQSYNTAX, SQSYNTAX, ARISYNTAX]" by code_simp
  then show ?thesis by (cases syn) simp_all
qed

lemma sit_rparen: "sit c syn = CRP \<Longrightarrow> syn = ARISYNTAX"
proof -
  have "list_all (\<lambda>c. list_all (\<lambda>syn. column syn (S_I_T ! spec_index c) \<noteq> CRP) [BASESYNTAX, DQSYNTAX, SQSYNTAX]) Enum.enum" by code_simp
  then have "\<forall>c. sit (Some c) BASESYNTAX \<noteq> CRP \<and> sit (Some c) DQSYNTAX \<noteq> CRP \<and> sit (Some c) SQSYNTAX \<noteq> CRP"
    unfolding sit_spec list_all_iff enum_UNIV by simp
  then show "sit c syn = CRP \<Longrightarrow> syn = ARISYNTAX" by (cases c; cases syn) (auto simp: sit_eof)
qed

lemma inside_simps [simp]:
  "inside n fs (emit s l) = inside n fs l" "inside n fs (emit_c l) = inside n fs l" "inside n fs (l\<lparr>r_quotef := q\<rparr>) = inside n fs l"
  "inside n fs (l\<lparr>r_bqlist := b\<rparr>) = inside n fs l" "inside n fs (quotemark mark l) = inside n fs l"
  by (simp_all add: inside_def fun_eq_iff)

lemma inside_stack: "inside n fs l st \<Longrightarrow> stack_ok l1 \<Longrightarrow> inside n fs l1 st" "inside n fs l st \<Longrightarrow> stack_ok l"
  by (simp_all add: inside_def)

lemma pop_stack_inside: "inside n fs l st \<Longrightarrow> \<not> base_syntax (r_syn l) \<Longrightarrow> ends (synstack_pop l) (inside n fs) st"
  by (rule ends_weaken [OF pop_stack [of l st]]) (auto simp: inside_def)

lemma next_char_ends:
  assumes "inside n fs l st"
  shows "ends (next_char w l) (\<lambda>(w1, l1) st'. w1 = w \<and> word_at mark n fs l1 st') st"
proof -
  obtain c pf where c: "pgetc_top (r_syn l) (g_parsefile st) = (c, pf)" by fastforce
  from readsD [OF pgetc_top_reads c] assms have "left_in pf + one c \<le> n" "got c pf" by (auto simp: inside_def)
  then show ?thesis using assms c got_pushes by (auto simp: next_char_def word_at_def inside_def)
qed

lemma rt1_back_ends:
  assumes "inside n fs l st"
  shows "ends (rt1_back mark l) (\<lambda>l1. inside n fs l1) st"
proof -
  obtain c pf where c: "pgetc (g_parsefile st) = (c, pf)" by fastforce
  from readsD [OF pgetc_reads c] assms have l: "left_in pf + one c \<le> n" "got c pf" by (auto simp: inside_def)
  then show ?thesis using assms c got_unread [OF l(2)] got_pushes [OF l(2)] by (cases c) (auto simp: rt1_back_def inside_def Let_def)
qed

lemma rt1_endvar_ends:
  assumes "inside n fs l st"
  shows "ends (rt1_endvar l) (inside n fs) st"
proof -
  let ?f = "\<lambda>s. s\<lparr>varnest := varnest s - 1, dqvarnest := dqvarnest s - 1\<rparr>"
  have "stack_ok (on_syn ?f l)" using inside_stack(2) [OF assms] by (rule on_syn_stack) (simp add: base_syntax_def)
  then show ?thesis using assms pop_stack_inside [OF assms] inside_stack(1) [OF assms] by (simp add: rt1_endvar_def Let_def base_syntax_def)
qed

lemma rt1_rparen_ends:
  assumes "inside n fs l st" "sy_syntax (r_syn l) = ARISYNTAX"
  shows "ends (rt1_rparen l) (inside n fs) st"
proof -
  let ?f = "\<lambda>s. s\<lparr>parenlevel := parenlevel s - 1\<rparr>"
  have f: "stack_ok (on_syn ?f l)" using inside_stack(2) [OF assms(1)] by (rule on_syn_stack) (simp add: base_syntax_def)
  obtain c pf where c: "pgetc_eatbnl (g_parsefile st) = (c, pf)" by fastforce
  from readsD [OF eatbnl_reads c] assms have l: "left_in pf + one c \<le> n" "got c pf" by (auto simp: inside_def)
  have i: "inside n fs l (st\<lparr>g_parsefile := pf\<rparr>)" "inside n fs l (st\<lparr>g_parsefile := pungetc pf\<rparr>)"
    using assms(1) l got_pushes [OF l(2)] got_unread [OF l(2)] by (simp_all add: inside_def)
  then show ?thesis using c inside_stack(1) [OF assms(1) f] pop_stack_inside [OF i(1)] assms(2) by (simp add: rt1_rparen_def base_syntax_def)
qed

text \<open>What one step leaves: the word has ended at the current character, or the next character is read.\<close>

definition stepped :: "eof_mark \<Rightarrow> nat \<Rightarrow> parsefile list \<Rightarrow> rt1 \<Rightarrow> pstate \<Rightarrow> rt1_next \<times> rt1 \<Rightarrow> pstate \<Rightarrow> bool" where
  "stepped mark n fs l st wl st' \<longleftrightarrow>
     (if fst wl = EndWord then snd wl = l \<and> st' = st \<and> sit (r_c l) (sy_syntax (r_syn l)) \<in> {CNL, CENDFILE, CSPCL}
      else 0 < n \<and> word_at mark (n - 1) fs (snd wl) st')"

context grammar_contract
begin

lemma backq_old:
  assumes "inside n fs l st" "n + 1 < k"
  shows "ends (parsebackq G True l) (\<lambda>l1. inside n fs l1) st"
proof (cases "read_backq (dblquote (r_syn l)) (g_parsefile st)")
  case None
  then show ?thesis by (simp add: parsebackq_def)
next
  case (Some a)
  obtain s pf1 where a: "a = (s, pf1)" by fastforce
  have b: "left_in pf1 + length s < left_in (g_parsefile st)" "pushes 2 pf1" using read_backq_left [OF Some [unfolded a]] assms(1) by (auto simp: inside_def)
  define st1 where "st1 = st\<lparr>prev_files := pf1 # prev_files st, g_parsefile := \<lparr>next_to_pgetc = s, unget = 0, lastc = (Some NUL, Some NUL), strpush = []\<rparr>, heredoclist := []\<rparr>"
  have r: "room (length s) (pf1 # fs) st1" "length s + 1 < k"
    using assms b(1) by (auto simp: st1_def room_def pushes_def left_in_def tokw_def inside_def)
  show ?thesis using Some a
    by (simp add: parsebackq_def setinputstring_def popfile_def st1_def [symmetric])
      (rule ends_weaken [OF list_ends [OF r]], simp,
       rule ends_weaken [OF heredoc_ends [OF _ r(2)]], blast,
       use assms(1) b in \<open>simp add: room_def inside_def\<close>)
qed

lemma backq_new:
  assumes "inside n fs l st" "n + 1 < k"
  shows "ends (parsebackq G False l) (\<lambda>l1. inside n fs l1) st"
proof -
  have r: "room n fs (st\<lparr>heredoclist := []\<rparr>)" using assms by (auto simp: room_def tokw_def inside_def)
  define nullfile :: parsefile where "nullfile = \<lparr>next_to_pgetc = [], unget = 0, lastc = (Some NUL, Some NUL), strpush = []\<rparr>"
  have z: "left_in nullfile = 0" "pushes 2 nullfile" by (simp_all add: nullfile_def left_in_def pushes_def)
  have fin: "ends (g_parseheredoc G) (\<lambda>_ st3. inside n fs (emit [CTLBACKQ] (l\<lparr>r_bqlist := q\<rparr>)) (case prev_files st3 of [] \<Rightarrow> st3\<lparr>heredoclist := h\<rparr>
        | pf # pfs \<Rightarrow> st3\<lparr>heredoclist := h, g_parsefile := pf, prev_files := pfs\<rparr>)) (st2\<lparr>prev_files := g_parsefile st2 # prev_files st2, g_parsefile := nullfile\<rparr>)"
    if t: "taken n fs t st2" for q h st2 t
  proof -
    have "room 0 (g_parsefile st2 # fs) (st2\<lparr>prev_files := g_parsefile st2 # prev_files st2, g_parsefile := nullfile\<rparr>)"
      using t z by (simp add: room_def tokw_def taken_def)
    moreover have "0 + 1 < k" using assms(2) by simp
    ultimately show ?thesis
      by (rule ends_weaken [OF heredoc_ends]) (use t assms(1) in \<open>auto simp: room_def inside_def taken_def split: if_splits\<close>)
  qed
  show ?thesis
    by (simp add: parsebackq_def setinputstring_def popfile_def nullfile_def [symmetric])
      (rule ends_weaken [OF list_ends [OF r assms(2)]], simp,
       rule ends_weaken [OF token_ends [OF _ assms(2)]], blast, simp add: setinputstring_def nullfile_def [symmetric] fin [simplified])
qed


lemma parsesub_ends:
  assumes "inside n fs l st" "n + 1 < k"
  shows "ends (parsesub G l) (inside n fs) st"
proof -
  obtain c pf where c: "pgetc_eatbnl (g_parsefile st) = (c, pf)" by fastforce
  from readsD [OF eatbnl_reads c] assms(1) have l: "left_in pf + one c \<le> n" "got c pf" by (auto simp: inside_def)
  obtain d pf1 where d: "pgetc_eatbnl pf = (d, pf1)" by fastforce
  from readsD [OF eatbnl_reads d got_pushes [OF l(2)]] have ld: "left_in pf1 + one d \<le> left_in pf" "got d pf1" by auto
  let ?s = "\<lambda>pf. st\<lparr>g_parsefile := pf\<rparr>"
  have i: "inside n fs l (?s (pungetc pf))" "inside n fs l (?s pf1)" "inside n fs l (?s (pungetc pf1))"
    using assms(1) l ld got_unread [OF l(2)] got_pushes [OF ld(2)] got_unread [OF ld(2)] by (simp_all add: inside_def)
  obtain name sub base pf2 where v: "var_sub (c = Some (CHR ''{'')) c pf = ((name, sub, base), pf2)" by (metis prod.exhaust)
  have "inside n fs l (?s pf2)" using var_sub_left [OF v l(2)] assms(1) l(1) by (simp add: inside_def)
  then have e: "inside n fs (enter_var sub base (emit (CTLVAR # char_of sub # name) l)) (?s pf2)"
    using inside_stack [of n fs l "?s pf2"] enter_var_stack by auto
  have a: "inside n fs (parsearith l) (?s pf1)" using inside_stack [OF i(2)] by (simp add: parsearith_def)
  show ?thesis using c d v i(1) a e backq_new [OF i(3) assms(2)] by (simp add: parsesub_def)
qed

lemma rt1_backq_ends: "inside n fs l st \<Longrightarrow> n + 1 < k \<Longrightarrow> ends (rt1_backq G l) (inside n fs) st"
  using backq_old by (simp add: rt1_backq_def)

lemma step_ends:
  assumes "word_at mark n fs l st" "n < k"
  shows "ends (rt1_step G mark l) (stepped mark n fs l st) st"
proof (cases "r_c l")
  case None
  then show ?thesis using sit_eof by (simp add: rt1_step_def stepped_def)
next
  case (Some x)
  then have n: "0 < n" "n - 1 + 1 < k" and i: "inside (n - 1) fs l st" using assms by (auto simp: word_at_def inside_def)
  have goes: "ends (next_char w l1) (stepped mark n fs l st) st1" if "inside (n - 1) fs l1 st1" "w \<noteq> EndWord" for w l1 st1
    by (rule ends_weaken [OF next_char_ends [OF that(1), of w mark]]) (use that(2) n(1) in \<open>auto simp: stepped_def\<close>)
  have sub: "ends m (\<lambda>l1. ends (next_char NextChar l1) (stepped mark n fs l st)) st" if "ends m (inside (n - 1) fs) st" for m
    by (rule ends_weaken [OF that]) (rule goes, simp_all)
  have syn: "inside (n - 1) fs (on_syn f l) st" if "\<And>s. base_syntax s \<Longrightarrow> base_syntax (f s)" for f
    by (rule inside_stack(1) [OF i on_syn_stack [OF inside_stack(2) [OF i] that]])
  have dq: "inside (n - 1) fs (toggledq mark (on_syn (\<lambda>s. s\<lparr>sy_syntax := DQSYNTAX, dblquote := True\<rparr>) l)) st"
    by (rule inside_stack(1) [OF i]) (rule toggledq_stack, rule on_syn_stack [OF inside_stack(2) [OF i]], simp add: base_syntax_def)
  have eq: "inside (n - 1) fs (rt1_endquote mark l) st" by (rule inside_stack(1) [OF i endquote_stack [OF inside_stack(2) [OF i]]])
  show ?thesis
  proof (cases "sit (r_c l) (sy_syntax (r_syn l))")
    case CRP
    then show ?thesis using sub [OF rt1_rparen_ends [OF i sit_rparen [OF CRP]]] by (simp add: rt1_step_def)
  next
    case CNL
    then show ?thesis using goes [of "emit_c l" st NextLine] i by (auto simp: rt1_step_def stepped_def Let_def)
  next
    case CSPCL
    then show ?thesis using goes [of "emit_c l" st NextChar] i by (simp add: rt1_step_def stepped_def Let_def)
  next
    case CENDFILE
    then show ?thesis by (simp add: rt1_step_def stepped_def)
  next
    case CCTL
    then show ?thesis using goes [of _ st NextChar] i by (simp add: rt1_step_def Let_def)
  qed (use i syn dq eq goes sub [OF rt1_back_ends [OF i]] sub [OF parsesub_ends [OF i n(2)]] sub [OF rt1_endvar_ends [OF i]] sub [OF rt1_backq_ends [OF i n(2)]]
      in \<open>simp_all add: rt1_step_def base_syntax_def\<close>)
qed

end

lemma word_at_mono: "word_at mark n fs l st \<Longrightarrow> n \<le> m \<Longrightarrow> word_at mark m fs l st"
  by (auto simp: word_at_def)

lemma room_mono: "room n fs st \<Longrightarrow> n \<le> m \<Longrightarrow> room m fs st"
  by (auto simp: room_def)

lemma room_frame [simp]:
  "room n fs (st\<lparr>here_docs := d\<rparr>) = room n fs st" "room n fs (st\<lparr>checkkwd := s\<rparr>) = room n fs st" "room n fs (st\<lparr>heredoclist := h\<rparr>) = room n fs st"
  "taken n fs t (st\<lparr>checkkwd := s\<rparr>) = taken n fs t st"
  by (simp_all add: room_def tokw_def taken_def)

lemma taken_room: "taken n fs t st \<Longrightarrow> t \<noteq> TEOF \<Longrightarrow> 0 < n \<and> room (n - 1) fs st" "taken n fs t st \<Longrightarrow> room n fs st" "taken n fs t st \<Longrightarrow> room n fs (st\<lparr>tokpushback := True\<rparr>)"
  by (auto simp: taken_def room_def tokw_def)

text \<open>The word ended at its first character, or characters were taken.\<close>

definition word_done :: "eof_mark \<Rightarrow> nat \<Rightarrow> parsefile list \<Rightarrow> rt1 \<Rightarrow> pstate \<Rightarrow> rt1 \<Rightarrow> pstate \<Rightarrow> bool" where
  "word_done mark n fs l st l1 st' \<longleftrightarrow> l1 = l \<and> st' = st \<and> sit (r_c l) (sy_syntax (r_syn l)) \<in> {CNL, CENDFILE, CSPCL} \<or> 0 < n \<and> word_at mark (n - 1) fs l1 st'"

lemma checkend_ends:
  assumes "word_at mark n fs l st"
  shows "ends (on_file (checkend mark strip (r_c l))) (\<lambda>c. word_at mark n fs (l\<lparr>r_c := c\<rparr>)) st"
proof -
  obtain c pf where c: "checkend mark strip (r_c l) (g_parsefile st) = (c, pf)" by fastforce
  have "pushes 2 (g_parsefile st)" using assms by (simp add: word_at_def)
  from checkend_left [OF c this] assms c show ?thesis by (auto simp: word_at_def checkend_def)
qed

lemma token_start_nonblank: "token_start pf = (Some x, pf') \<Longrightarrow> pushes 2 pf \<Longrightarrow> x \<noteq> SP \<and> x \<noteq> TAB"
proof (induction pf arbitrary: x pf' rule: token_start.induct)
  case (1 pf)
  obtain d pf1 where d: "pgetc_eatbnl pf = (d, pf1)" by fastforce
  have l: "got d pf1" using readsD [OF eatbnl_reads d 1(4)] by simp_all
  obtain e pf2 where e: "skip_comment pf1 = (e, pf2)" by fastforce
  have le: "got e pf2" using readsD [OF skip_comment_reads e got_pushes [OF l]] by simp_all
  have u: "pushes 2 (pungetc pf2)" using got_unread [OF le] by simp_all
  consider "d = Some SP \<or> d = Some TAB" | "d = Some (CHR ''#'')" "e = None" | "d = Some (CHR ''#'')" "e \<noteq> None"
    | "d \<noteq> Some SP" "d \<noteq> Some TAB" "d \<noteq> Some (CHR ''#'')" by blast
  then show ?case
  proof cases
    case b: 1
    then have "token_start pf1 = (Some x, pf')" using 1(3) d by (subst (asm) token_start.simps) auto
    from 1(1) [OF d [symmetric] b this got_pushes [OF l]] show ?thesis .
  next
    case b: 2
    then have "pgetc_eatbnl (pungetc pf2) = (Some x, pf')" using 1(3) d e by (subst (asm) token_start.simps) auto
    moreover have "\<exists>pf3. pgetc (pungetc pf2) = (None, pf3)" using le b(2) by (subst pgetc.simps) (auto simp: got_def at_eof_def pungetc_def)
    ultimately show ?thesis by (subst (asm) pgetc_eatbnl.simps) auto
  next
    case b: 3
    then have "token_start (pungetc pf2) = (Some x, pf')" using 1(3) d e by (subst (asm) token_start.simps) auto
    from 1(2) [OF d [symmetric] _ b(1) e [symmetric] b(2) this u] show ?thesis using b(1) by auto
  next
    case b: 4
    then have "Some x = d" using 1(3) d by (subst (asm) token_start.simps, simp)
    then show ?thesis using b by auto
  qed
qed

text \<open>A word that ends at its first character is a redirection.\<close>

lemma first_char:
  assumes "sit (Some x) BASESYNTAX \<in> {CNL, CENDFILE, CSPCL}" "single_token x = None" "x \<noteq> SP" "x \<noteq> TAB"
  shows "x = CHR ''<'' \<or> x = CHR ''>''"
proof -
  have "list_all (\<lambda>x. column BASESYNTAX (S_I_T ! spec_index x) \<notin> {CNL, CENDFILE, CSPCL} \<or> single_token x \<noteq> None \<or> x = SP \<or> x = TAB \<or> x = CHR ''<'' \<or> x = CHR ''>'') Enum.enum"
    by code_simp
  then show ?thesis using assms unfolding sit_spec list_all_iff enum_UNIV by blast
qed

lemma end_of_word:
  assumes "word_at NoMark n fs l st"
  shows "ends (rt1_end NoMark l) (\<lambda>t. taken (n + 1) fs t) st"
    "r_c l = Some (CHR ''<'') \<or> r_c l = Some (CHR ''>'') \<Longrightarrow> r_out l = [] \<Longrightarrow> \<not> r_quotef l \<Longrightarrow> ends (rt1_end NoMark l) (\<lambda>t. taken n fs t) st"
proof -
  have g: "got (r_c l) (g_parsefile st)" "pushes 2 (g_parsefile st)" using assms by (simp_all add: word_at_def)
  have u: "left_in (pungetc (g_parsefile st)) \<le> n" "pushes 2 (pungetc (g_parsefile st))" using got_unread [OF g(1)] assms by (simp_all add: word_at_def)
  have redir: "ends (parseredir ds c) (\<lambda>_ st'. pushes 2 (g_parsefile st') \<and> prev_files st' = fs \<and> \<not> tokpushback st' \<and> left_in (g_parsefile st') + one (r_c l) \<le> n) st" for ds c
  proof -
    obtain ty strip pf where r: "redir_operator c (g_parsefile st) = ((ty, strip), pf)" by (metis prod.exhaust)
    from redir_operator_left [OF r g(2)] r assms show ?thesis by (auto simp: parseredir_def word_at_def Let_def)
  qed
  show "ends (rt1_end NoMark l) (\<lambda>t. taken (n + 1) fs t) st"
    using assms u ends_weaken [OF redir] by (auto simp: rt1_end_def Let_def taken_def word_at_def intro!: ends_weaken [OF redir])
  show "r_c l = Some (CHR ''<'') \<or> r_c l = Some (CHR ''>'') \<Longrightarrow> r_out l = [] \<Longrightarrow> \<not> r_quotef l \<Longrightarrow> ends (rt1_end NoMark l) (\<lambda>t. taken n fs t) st"
    by (auto simp: rt1_end_def Let_def taken_def isdigit_str9_def intro!: ends_weaken [OF redir])
qed

lemma end_of_document:
  assumes "word_at (Mark m) n fs l st"
  shows "ends (rt1_end (Mark m) l) (\<lambda>t st'. room n fs st' \<and> \<not> tokpushback st') st"
  using assms by (auto simp: rt1_end_def Let_def word_at_def room_def tokw_def)

lemma findkwd_tokens: "findkwd s = Some t \<Longrightarrow> t \<noteq> TEOF \<and> t \<noteq> TNL"
  by (auto simp: findkwd_def split: if_splits)

definition token_read :: "nat \<Rightarrow> parsefile list \<Rightarrow> pstate \<Rightarrow> token \<Rightarrow> pstate \<Rightarrow> bool" where
  "token_read n fs st t st' \<longleftrightarrow> taken n fs t st' \<and> (CHKNL \<in> checkkwd st \<longrightarrow> t \<noteq> TNL) \<and>
     (tokpushback st \<and> lasttoken st \<noteq> TNL \<and> (lasttoken st \<noteq> TWORD \<or> CHKKWD \<notin> checkkwd st) \<longrightarrow> t = lasttoken st)"

lemma keyword_ends:
  assumes "taken n fs t st1" "CHKNL \<in> checkkwd st \<longrightarrow> t \<noteq> TNL" "tokpushback st \<and> lasttoken st \<noteq> TNL \<longrightarrow> t = lasttoken st \<and> checkkwd st1 = checkkwd st"
  shows "ends (if t \<noteq> TWORD \<or> quoteflag st1 \<or> CHKKWD \<notin> checkkwd st \<union> checkkwd st1 then pret t
      else case findkwd (wordtext st1) of None \<Rightarrow> pret t | Some kw \<Rightarrow> set_token kw) (token_read n fs st) (st1\<lparr>checkkwd := {}\<rparr>)"
proof (cases "t \<noteq> TWORD \<or> quoteflag st1 \<or> CHKKWD \<notin> checkkwd st \<union> checkkwd st1")
  case True
  then show ?thesis using assms by (simp add: token_read_def)
next
  case False
  show ?thesis
  proof (cases "findkwd (wordtext st1)")
    case None
    then show ?thesis using False assms by (simp add: token_read_def)
  next
    case (Some kw)
    have "taken n fs kw (st1\<lparr>checkkwd := {}, lasttoken := kw\<rparr>)" using assms(1) False by (simp add: taken_def)
    then show ?thesis using False Some findkwd_tokens [OF Some] assms(3) by (auto simp: token_read_def)
  qed
qed

context grammar_contract
begin

lemma loop_ends:
  assumes "word_at mark n fs l st" "n < k" "n < j"
  shows "ends (rt1_loop j G mark strip l) (word_done mark n fs l st) st"
  using assms
proof (induction j arbitrary: n l st)
  case (Suc j)
  have more: "ends (rt1_loop j G mark strip l1) (word_done mark n fs l st) st1" if "0 < n" "word_at mark (n - 1) fs l1 st1" for l1 st1
  proof -
    have "n - 1 < k" "n - 1 < j" using that(1) Suc.prems(2,3) by auto
    from Suc.IH [OF that(2) this] show ?thesis
      by (rule ends_weaken) (use that in \<open>auto simp: word_done_def intro: word_at_mono\<close>)
  qed
  show ?case unfolding rt1_loop.simps ends_simps(1)
  proof (rule ends_weaken [OF step_ends [OF Suc.prems(1,2)]])
    fix wl st1 assume s: "stepped mark n fs l st wl st1"
    obtain w l1 where wl: "wl = (w, l1)" by fastforce
    show "ends (case wl of (w, l1) \<Rightarrow> case w of EndWord \<Rightarrow> pret l1 | NextChar \<Rightarrow> rt1_loop j G mark strip l1
        | NextLine \<Rightarrow> pbind (on_file (checkend mark strip (r_c l1))) (\<lambda>c. rt1_loop j G mark strip (l1\<lparr>r_c := c\<rparr>))) (word_done mark n fs l st) st1"
    proof (cases w)
      case NextLine
      then have "0 < n" "word_at mark (n - 1) fs l1 st1" using s wl by (simp_all add: stepped_def)
      then have "ends (on_file (checkend mark strip (r_c l1))) (\<lambda>c. ends (rt1_loop j G mark strip (l1\<lparr>r_c := c\<rparr>)) (word_done mark n fs l st)) st1"
        by (intro ends_weaken [OF checkend_ends] more)
      then show ?thesis using wl NextLine by (simp del: ends_on_file)
    qed (use s wl in \<open>simp_all add: stepped_def word_done_def more\<close>)
  qed
qed simp


lemma word_ends:
  assumes "word_at NoMark n fs (rt1_start BASESYNTAX (Some x)) st" "n < k" "single_token x = None" "x \<noteq> SP" "x \<noteq> TAB"
  shows "ends (readtoken1 k G (Some x) BASESYNTAX NoMark False) (taken n fs) st"
proof -
  let ?l = "rt1_start BASESYNTAX (Some x)"
  have "ends (rt1_end NoMark l1) (taken n fs) st1" if d: "word_done NoMark n fs ?l st l1 st1" for l1 st1
  proof (cases "0 < n \<and> word_at NoMark (n - 1) fs l1 st1")
    case True
    then show ?thesis using end_of_word(1) [of "n - 1" fs l1 st1] by simp
  next
    case False
    then have l: "l1 = ?l" "st1 = st" "sit (Some x) BASESYNTAX \<in> {CNL, CENDFILE, CSPCL}" using d by (auto simp: word_done_def rt1_start_def new_syntax_def)
    show ?thesis using end_of_word(2) [OF assms(1)] first_char [OF l(3) assms(3-5)] unfolding l(1,2) by (auto simp: rt1_start_def)
  qed
  then have "ends (rt1_loop k G NoMark False ?l) (\<lambda>l1. ends (rt1_end NoMark l1) (taken n fs)) st"
    by (rule ends_weaken [OF loop_ends [OF assms(1,2,2)]])
  then show ?thesis by (simp add: readtoken1_def checkend_def)
qed

lemma document_ends:
  assumes "room n fs st" "\<not> tokpushback st" "n < k" "reads f" "syn \<noteq> ARISYNTAX"
  shows "ends (pbind (on_file f) (\<lambda>c. readtoken1 k G c syn (Mark m) strip)) (\<lambda>t st'. room n fs st' \<and> \<not> tokpushback st') st"
proof -
  obtain c pf where c: "f (g_parsefile st) = (c, pf)" by fastforce
  from readsD [OF assms(4) c] assms(1) have "left_in pf + one c \<le> left_in (g_parsefile st)" "pushes 2 pf" using got_pushes by (auto simp: room_def)
  then have w: "word_at (Mark m) n fs (rt1_start syn c) (st\<lparr>g_parsefile := pf\<rparr>)"
    using assms(1,2,5) by (auto simp: word_at_def room_def rt1_start_def stack_ok_def base_syntax_def new_syntax_def)
  have "ends (rt1_loop k G (Mark m) strip l) (\<lambda>l1. ends (rt1_end (Mark m) l1) (\<lambda>t st'. room n fs st' \<and> \<not> tokpushback st')) st1"
    if "word_at (Mark m) n fs l st1" for l st1
    by (rule ends_weaken [OF loop_ends [OF that assms(3,3)]], rule end_of_document)
      (use that in \<open>auto simp: word_done_def intro: word_at_mono\<close>)
  then have "ends (on_file (checkend (Mark m) strip (r_c (rt1_start syn c)))) (\<lambda>c1. ends (rt1_loop k G (Mark m) strip (rt1_start syn c1)) (\<lambda>l1. ends (rt1_end (Mark m) l1) (\<lambda>t st'. room n fs st' \<and> \<not> tokpushback st')))
      (st\<lparr>g_parsefile := pf\<rparr>)" by (rule ends_weaken [OF checkend_ends [OF w]]) (simp add: rt1_start_def)
  then show ?thesis using c by (simp add: readtoken1_def rt1_start_def)
qed

lemma heredoc_one:
  assumes "room n fs st" "n < k"
  shows "ends (read_heredoc k G h) (\<lambda>_ st'. room n fs st' \<and> \<not> tokpushback st') st"
proof -
  have r: "room n fs (st\<lparr>tokpushback := False\<rparr>)" "\<not> tokpushback (st\<lparr>tokpushback := False\<rparr>)" using assms(1) by (auto simp: room_def tokw_def)
  show ?thesis using document_ends [OF r assms(2) pgetc_reads, of SQSYNTAX "eofmark h" "striptabs h"] document_ends [OF r assms(2) eatbnl_reads, of DQSYNTAX "eofmark h" "striptabs h"]
    unfolding read_heredoc_def ends_simps by (cases "here_type h = NHERE") (auto elim!: ends_weaken simp del: ends_simps(1) ends_on_file simp: ends_simps(1) [symmetric])
qed


lemma heredocs_end:
  assumes "room n fs st" "n < k"
  shows "ends (read_heredocs k G hs) (\<lambda>_ st'. room n fs st' \<and> (\<not> tokpushback st \<longrightarrow> \<not> tokpushback st')) st"
  using assms(1)
proof (induction hs arbitrary: st)
  case (Cons h hs)
  show ?case unfolding read_heredocs.simps ends_simps(1)
    by (rule ends_weaken [OF heredoc_one [OF Cons.prems assms(2)]]) (auto elim!: ends_weaken [OF Cons.IH])
qed simp

lemma parseheredoc_ends:
  assumes "room n fs st" "n < k"
  shows "ends (parseheredoc k G) (\<lambda>_ st'. room n fs st' \<and> (\<not> tokpushback st \<longrightarrow> \<not> tokpushback st')) st"
  using heredocs_end [of n fs "st\<lparr>heredoclist := []\<rparr>" "heredoclist st"] assms by (simp add: parseheredoc_def)

lemma xxreadtoken_ends:
  assumes "room n fs st" "n < k"
  shows "ends (xxreadtoken k G) (\<lambda>t st'. taken n fs t st' \<and> (tokpushback st \<longrightarrow> t = lasttoken st \<and> checkkwd st' = checkkwd st)) st"
proof (cases "tokpushback st")
  case True
  then show ?thesis using assms(1) by (auto simp: xxreadtoken_def taken_def room_def tokw_def)
next
  case False
  obtain c pf where c: "token_start (g_parsefile st) = (c, pf)" by fastforce
  have p: "pushes 2 (g_parsefile st)" using assms(1) by (simp add: room_def)
  from readsD [OF token_start_reads c p] have l: "left_in pf + one c \<le> n" "got c pf" using assms(1) by (auto simp: room_def)
  have fs: "prev_files st = fs" using assms(1) by (simp add: room_def)
  show ?thesis
  proof (cases c)
    case None
    then show ?thesis using c False l(1) fs got_pushes [OF l(2)] by (simp add: xxreadtoken_def taken_def)
  next
    case (Some x)
    show ?thesis
    proof (cases "single_token x")
      case None
      have x: "x \<noteq> SP" "x \<noteq> TAB" using token_start_nonblank [of "g_parsefile st" x pf] c Some p by auto
      have "word_at NoMark n fs (rt1_start BASESYNTAX (Some x)) (st\<lparr>g_parsefile := pf\<rparr>)"
        using l Some fs False got_pushes [OF l(2)] by (simp add: word_at_def rt1_start_def stack_ok_def base_syntax_def new_syntax_def)
      from word_ends [OF this assms(2) None x] show ?thesis using c Some None False by (simp add: xxreadtoken_def)
    next
      case t: (Some t)
      have tt: "t \<noteq> TEOF" "\<And>t2. double_token x = Some t2 \<Longrightarrow> t2 \<noteq> TEOF" using t by (auto simp: single_token_def double_token_def split: if_splits)
      obtain d pf1 where d: "pgetc_eatbnl pf = (d, pf1)" by fastforce
      from readsD [OF eatbnl_reads d got_pushes [OF l(2)]] have ld: "left_in pf1 + one d \<le> left_in pf" "got d pf1" by auto
      show ?thesis using c Some t tt d False fs l got_pushes [OF l(2)] ld got_pushes [OF ld(2)] got_unread [OF ld(2)]
        by (cases "double_token x") (auto simp: xxreadtoken_def taken_def)
    qed
  qed
qed

lemma newlines_end:
  assumes "taken n fs t st" "n < k" "n < j"
  shows "ends (eat_newlines j k G (parseheredoc k G) t) (\<lambda>t1 st1. taken n fs t1 st1 \<and> t1 \<noteq> TNL \<and> (t \<noteq> TNL \<longrightarrow> t1 = t \<and> st1 = st)) st"
  using assms
proof (induction j arbitrary: n t st)
  case (Suc j)
  show ?case
  proof (cases "t = TNL")
    case True
    have r: "0 < n" "room (n - 1) fs st" using taken_room(1) [OF Suc.prems(1)] True by simp_all
    have k: "n - 1 < k" "n - 1 < j" using r(1) Suc.prems(2,3) by auto
    have again: "ends (eat_newlines j k G (parseheredoc k G) t1) (\<lambda>t1 st1. taken n fs t1 st1 \<and> t1 \<noteq> TNL) st1" if "taken (n - 1) fs t1 st1" for t1 st1
      by (rule ends_weaken [OF Suc.IH [OF that k]]) (auto simp: taken_def)
    have "ends (xxreadtoken k G) (\<lambda>t1. ends (eat_newlines j k G (parseheredoc k G) t1) (\<lambda>t1 st1. taken n fs t1 st1 \<and> t1 \<noteq> TNL)) (st1\<lparr>checkkwd := {}\<rparr>)"
      if "room (n - 1) fs st1" for st1 by (rule ends_weaken [OF xxreadtoken_ends [OF _ k(1)]]) (use that again in auto)
    then have "ends (parseheredoc k G) (\<lambda>_ st1. ends (xxreadtoken k G) (\<lambda>t1. ends (eat_newlines j k G (parseheredoc k G) t1) (\<lambda>t1 st1. taken n fs t1 st1 \<and> t1 \<noteq> TNL)) (st1\<lparr>checkkwd := {}\<rparr>)) st"
      by (intro ends_weaken [OF parseheredoc_ends [OF r(2) k(1)]]) simp
    then show ?thesis using True by simp
  qed (use Suc.prems in simp)
qed simp

lemma readtoken_ends:
  assumes "room n fs st" "n < k"
  shows "ends (readtoken k G) (token_read n fs st) st"
proof -
  let ?P = "\<lambda>t st'. taken n fs t st' \<and> (CHKNL \<in> checkkwd st \<longrightarrow> t \<noteq> TNL) \<and>
     (tokpushback st \<and> lasttoken st \<noteq> TNL \<longrightarrow> t = lasttoken st \<and> checkkwd st' = checkkwd st)"
  let ?nl = "\<lambda>t0. if CHKNL \<in> checkkwd st then eat_newlines k k G (parseheredoc k G) t0 else pret t0"
  have nl: "ends (?nl t0) ?P st1" if t0: "taken n fs t0 st1 \<and> (tokpushback st \<longrightarrow> t0 = lasttoken st \<and> checkkwd st1 = checkkwd st)" for t0 st1
  proof (cases "CHKNL \<in> checkkwd st")
    case True
    have "ends (eat_newlines k k G (parseheredoc k G) t0) ?P st1"
      by (rule ends_weaken [OF newlines_end [OF _ assms(2,2)]]) (use t0 in auto)
    then show ?thesis using True by simp
  qed (use t0 in auto)
  have "ends (xxreadtoken k G) (\<lambda>t0. ends (?nl t0) ?P) st" by (rule ends_weaken [OF xxreadtoken_ends [OF assms]]) (rule nl)
  then have "ends (xxreadtoken k G) (\<lambda>t0. ends (?nl t0) (\<lambda>t st'. ends (if t \<noteq> TWORD \<or> quoteflag st' \<or> CHKKWD \<notin> checkkwd st \<union> checkkwd st' then pret t
      else case findkwd (wordtext st') of None \<Rightarrow> pret t | Some kw \<Rightarrow> set_token kw) (token_read n fs st) (st'\<lparr>checkkwd := {}\<rparr>))) st"
    by (rule ends_weaken) (erule ends_weaken, rule keyword_ends, blast+)
  then show ?thesis by (simp add: readtoken_def)
qed

end

end
