(* ===== verification/Ash_Parse_Ends.thy ===== *)
theory Ash_Parse_Ends
  imports Ash_Lex_Ends
begin

text \<open>
  The grammar of the shell ends on every input: every loop and every nested call is preceded by a token that takes
  characters away.  Inside the contract, the functions of the grammar at one level keep the contract of the
  next, so \<open>grammar_at\<close> fulfils it at every level.
\<close>

section \<open>Tokens for the grammar\<close>

lemma ends_set_chk [simp]: "ends (set_chk s) Q = (\<lambda>st. Q () (st\<lparr>checkkwd := s\<rparr>))"
  by (simp add: set_chk_def)

lemma ends_pushback [simp]: "ends pushback Q = (\<lambda>st. Q () (st\<lparr>tokpushback := True\<rparr>))"
  by (simp add: pushback_def)

lemma ends_makename [simp]: "ends makename Q = (\<lambda>st. Q (Narg (wordtext st) (backquotelist st)) st)"
  by (simp add: makename_def)

lemma token_room:
  assumes "token_read n fs st0 t st"
  shows "t \<noteq> TEOF \<Longrightarrow> 0 < n" "t \<noteq> TEOF \<Longrightarrow> room (n - 1) fs st" "room n fs st" "room n fs (st\<lparr>tokpushback := True\<rparr>)" "\<not> tokpushback st" "lasttoken st = t"
  using assms taken_room [of n fs t st] by (auto simp: token_read_def) (simp_all add: taken_def)

lemma eof_sticks: "token_read n fs st0 t st \<Longrightarrow> eof_pending st0 \<Longrightarrow> t = TEOF"
  by (simp add: token_read_def eof_pending_def)

lemma eof_again: "token_read n fs st0 TEOF st \<Longrightarrow> eof_pending (st\<lparr>tokpushback := True\<rparr>)"
  by (simp add: eof_pending_def token_read_def taken_def)

lemma ends_fixredir: "room n fs st \<Longrightarrow> ends (fixredir ty fd makename) (\<lambda>_. room n fs) st"
  by (auto simp: fixredir_def split: prod.splits)

context grammar_contract
begin

lemma read_then:
  assumes "room n fs st" "n < k" "\<And>t st1. token_read n fs st t st1 \<Longrightarrow> ends (f t) Q st1"
  shows "ends (pbind (readtoken k G) f) Q st"
  unfolding ends_simps(1) by (rule ends_weaken [OF readtoken_ends [OF assms(1,2)]]) (rule assms(3))

lemma expect_then:
  assumes "room n fs st" "n < k" "t \<noteq> TEOF" "\<And>st1. \<not> eof_pending st \<Longrightarrow> 0 < n \<Longrightarrow> room (n - 1) fs st1 \<Longrightarrow> ends (f ()) Q st1"
  shows "ends (pbind (expect k G t) f) Q st"
proof -
  have "ends (readtoken k G) (\<lambda>t1. ends (if t1 \<noteq> t then raise_error_unexpected_syntax (Some t) else pret ()) (\<lambda>x. ends (f x) Q)) st"
  proof (rule ends_weaken [OF readtoken_ends [OF assms(1,2)]])
    fix t1 st1 assume r: "token_read n fs st t1 st1"
    show "ends (if t1 \<noteq> t then raise_error_unexpected_syntax (Some t) else pret ()) (\<lambda>x. ends (f x) Q) st1"
      using assms(3,4) token_room [OF r] eof_sticks [OF r] by auto
  qed
  then show ?thesis by (simp add: expect_def)
qed

lemma list_then:
  assumes "room n fs st" "n + 1 < k" "nl \<in> {0, 2}" "\<And>r st1. room n fs st1 \<Longrightarrow> (r = None \<and> nl = 0 \<longrightarrow> eof_pending st1) \<Longrightarrow> ends (f r) Q st1"
  shows "ends (pbind (g_list G nl) f) Q st"
  unfolding ends_simps(1) by (rule ends_weaken [OF list_ends [OF assms(1-3)]]) (blast intro: assms(4))

lemma parsefname_ends:
  assumes "room n fs st" "n < k"
  shows "ends (parsefname k G r) (\<lambda>_. room n fs) st"
proof -
  have "ends (pbind (readtoken k G) (\<lambda>t.
       if t \<noteq> TWORD then raise_error_unexpected_syntax None
       else if rn_type r = NHERE then
         pbind (pread quoteflag) (\<lambda>quoted.
           let ty = (if quoted then NHERE else NXHERE)
           in pbind (pset (\<lambda>st. st\<lparr>heredoclist := heredoclist st @
                [(heredoc_new st)\<lparr>eofmark := rmescapes False (wordtext st), here_type := ty\<rparr>]\<rparr>)) (\<lambda>_.
              pret (Nhere ty (rn_fd r) (rn_here r))))
       else if rn_type r = NTOFD \<or> rn_type r = NFROMFD then fixredir (rn_type r) (rn_fd r) makename
       else pbind makename (\<lambda>w. pret (Nfile (rn_type r) (rn_fd r) w)))) (\<lambda>_. room n fs) st1" if "room n fs st1" for st1
    by (rule read_then [OF that assms(2)]) (use token_room(3) ends_fixredir in \<open>auto simp: Let_def\<close>)
  then show ?thesis using assms(1) by (simp add: parsefname_def)
qed

lemma func_def_ends:
  assumes "room n fs st" "n + 1 < k"
  shows "ends (func_def k G name) (\<lambda>_. room n fs) st"
  unfolding func_def_def
proof (rule expect_then [OF assms(1)])
  fix st1 assume "room (n - 1) fs st1"
  then have "room n fs (st1\<lparr>checkkwd := s\<rparr>)" for s using room_mono [of "n - 1" fs st1 n] by simp
  then show "ends (if \<not> goodname name \<or> name \<in> set special_builtins then pfail BadFunctionName
      else pbind (set_chk {CHKNL, CHKKWD, CHKALIAS}) (\<lambda>_. pbind (g_command G) (\<lambda>body. pret (Ndefun name body)))) (\<lambda>_. room n fs) st1"
    using command_ends assms(2) by auto
qed (use assms(2) in auto)

lemma simple_ends:
  assumes "room n fs st" "n < k" "n < j"
  shows "ends (simple_loop j k G a vs ws rs) (\<lambda>_ st'. room n fs st' \<and> (tokpushback st \<and> lasttoken st \<in> {TWORD, TREDIR} \<longrightarrow> room (n - 1) fs st')) st"
  using assms
proof (induction j arbitrary: n a vs ws rs st)
  case (Suc j)
  let ?Q = "\<lambda>_ st'. room n fs st' \<and> (tokpushback st \<and> lasttoken st \<in> {TWORD, TREDIR} \<longrightarrow> room (n - 1) fs st')"
  let ?s = "st\<lparr>checkkwd := if a then {CHKALIAS} else {}\<rparr>"
  have loop: "ends (simple_loop j k G a1 vs1 ws1 rs1) ?Q st1" if "room (n - 1) fs st1" "0 < n" for a1 vs1 ws1 rs1 st1
    by (rule ends_weaken [OF Suc.IH [OF that(1)]]) (use that(2) Suc.prems(2,3) in \<open>auto intro: room_mono\<close>)
  have "ends (pbind (readtoken k G) (\<lambda>t.
       if t = TWORD then pbind makename (\<lambda>w. pbind (pread wordtext) (\<lambda>text.
           if a \<and> isassignment text then simple_loop j k G a (vs @ [w]) ws rs else simple_loop j k G False vs (ws @ [w]) rs))
       else if t = TREDIR then pbind (pread redirnode) (\<lambda>r. pbind (parsefname k G r) (\<lambda>r1. simple_loop j k G a vs ws (rs @ [r1])))
       else case (t = TLP, ws, vs, rs) of
              (True, [Narg name bq], [], []) \<Rightarrow> func_def k G name
            | _ \<Rightarrow> pbind pushback (\<lambda>_. pret (Ncmd vs ws rs)))) ?Q ?s"
  proof (rule read_then [OF _ Suc.prems(2)])
    fix t st1 assume r: "token_read n fs ?s t st1"
    note tr = token_room [OF r]
    have old: "tokpushback st \<and> lasttoken st \<in> {TWORD, TREDIR} \<longrightarrow> t = lasttoken st" using r by (auto simp: token_read_def split: if_splits)
    consider "t = TWORD" | "t = TREDIR" | "t \<noteq> TWORD" "t \<noteq> TREDIR" by blast
    then show "ends (if t = TWORD then pbind makename (\<lambda>w. pbind (pread wordtext) (\<lambda>text.
           if a \<and> isassignment text then simple_loop j k G a (vs @ [w]) ws rs else simple_loop j k G False vs (ws @ [w]) rs))
       else if t = TREDIR then pbind (pread redirnode) (\<lambda>r. pbind (parsefname k G r) (\<lambda>r1. simple_loop j k G a vs ws (rs @ [r1])))
       else case (t = TLP, ws, vs, rs) of
              (True, [Narg name bq], [], []) \<Rightarrow> func_def k G name
            | _ \<Rightarrow> pbind pushback (\<lambda>_. pret (Ncmd vs ws rs))) ?Q st1"
    proof cases
      case 1
      then show ?thesis using loop tr by simp
    next
      case 2
      have "ends (parsefname k G (redirnode st1)) (\<lambda>r1. ends (simple_loop j k G a vs ws (rs @ [r1])) ?Q) st1"
        by (rule ends_weaken [OF parsefname_ends [of "n - 1" fs]]) (use 2 tr loop Suc.prems(2) in auto)
      then show ?thesis using 2 by simp
    next
      case 3
      have q: "?Q x st2 = room n fs st2" for x st2 using old 3 by auto
      have "ends (func_def k G name) (\<lambda>_. room n fs) st1" if "t = TLP" for name
        by (rule ends_weaken [OF func_def_ends [of "n - 1" fs]]) (use that tr Suc.prems(2) in \<open>auto intro: room_mono\<close>)
      then show ?thesis using 3 tr unfolding q by (auto split: list.split pword.split bool.split)
    qed
  qed (use Suc.prems(1) in simp)
  then show ?case by simp
qed simp


lemma redir_ends:
  assumes "room n fs st" "n < k" "n < j"
  shows "ends (redir_loop j k G rs) (\<lambda>_. room n fs) st"
  using assms
proof (induction j arbitrary: n rs st)
  case (Suc j)
  show ?case unfolding redir_loop.simps
  proof (rule read_then [OF Suc.prems(1,2)])
    fix t st1 assume r: "token_read n fs st t st1"
    note tr = token_room [OF r]
    show "ends (if t = TREDIR then pbind (pread redirnode) (\<lambda>r. pbind (parsefname k G r) (\<lambda>r1. redir_loop j k G (rs @ [r1])))
       else pbind pushback (\<lambda>_. pret rs)) (\<lambda>_. room n fs) st1"
    proof (cases "t = TREDIR")
      case True
      have loop: "ends (redir_loop j k G rs1) (\<lambda>_. room n fs) st2" if "room (n - 1) fs st2" for rs1 st2
        by (rule ends_weaken [OF Suc.IH [OF that]]) (use tr(1) True Suc.prems(2,3) in \<open>auto intro: room_mono\<close>)
      have "ends (parsefname k G (redirnode st1)) (\<lambda>r1. ends (redir_loop j k G (rs @ [r1])) (\<lambda>_. room n fs)) st1"
        by (rule ends_weaken [OF parsefname_ends [of "n - 1" fs]]) (use True tr loop Suc.prems(2) in auto)
      then show ?thesis using True by simp
    qed (use tr in simp)
  qed
qed simp

text \<open>The end of a compound command; without a node the input is at its end and the closing token is missing.\<close>

lemma finish_ends:
  assumes "room n fs st" "n < k" "case t of None \<Rightarrow> m \<noteq> None | Some t1 \<Rightarrow> t1 \<noteq> TEOF \<and> (m = None \<longrightarrow> eof_pending st)"
  shows "ends (finish_command k G t m) (\<lambda>_. room n fs) st"
proof -
  have redirs: "ends (pbind (set_chk {CHKKWD, CHKALIAS}) (\<lambda>_. pbind (redir_loop k k G []) (\<lambda>rs. case m of None \<Rightarrow> pfail NullNode | Some n1 \<Rightarrow> pret (with_redir n1 rs)))) (\<lambda>_. room n fs) st1"
    if "room n fs st1" "m \<noteq> None" for st1
    unfolding ends_simps ends_set_chk by (rule ends_weaken [OF redir_ends [OF _ assms(2,2)]]) (use that in auto)
  show ?thesis
  proof (cases t)
    case None
    then show ?thesis using redirs [OF assms(1)] assms(3) by (simp add: finish_command_def)
  next
    case (Some t1)
    have "ends (pbind (expect k G t1) (\<lambda>_. pbind (set_chk {CHKKWD, CHKALIAS}) (\<lambda>_. pbind (redir_loop k k G []) (\<lambda>rs. case m of None \<Rightarrow> pfail NullNode | Some n1 \<Rightarrow> pret (with_redir n1 rs))))) (\<lambda>_. room n fs) st"
    proof (rule expect_then [OF assms(1,2)])
      fix st1 assume "\<not> eof_pending st" "room (n - 1) fs st1"
      then show "ends (pbind (set_chk {CHKKWD, CHKALIAS}) (\<lambda>_. pbind (redir_loop k k G []) (\<lambda>rs. case m of None \<Rightarrow> pfail NullNode | Some n1 \<Rightarrow> pret (with_redir n1 rs)))) (\<lambda>_. room n fs) st1"
        using assms(3) Some by (intro redirs) (auto intro: room_mono)
    qed (use assms(3) Some in simp)
    then show ?thesis using Some by (simp add: finish_command_def)
  qed
qed

lemma if_ends:
  assumes "room n fs st" "n + 1 < k" "n < j"
  shows "ends (parse_if j k G) (\<lambda>r st'. room n fs st' \<and> (r = None \<longrightarrow> eof_pending st')) st"
  using assms
proof (induction j arbitrary: n st)
  case (Suc j)
  let ?Q = "\<lambda>r st'. room n fs st' \<and> (r = None \<longrightarrow> eof_pending st')"
  let ?e = "\<lambda>test ifpart t. pbind (if t = TELIF then parse_if j k G else if t = TELSE then g_list G 0 else pbind pushback (\<lambda>_. pret None)) (\<lambda>elsepart.
     pret (case (test, ifpart) of (Some a, Some b) \<Rightarrow> if t = TELIF \<and> elsepart = None then None else Some (Nif a b elsepart) | _ \<Rightarrow> None))"
  show ?case unfolding parse_if.simps
  proof (rule list_then [OF Suc.prems(1,2)], simp)
    fix test :: "pnode option" and st1 assume t: "room n fs st1" "test = None \<and> (0::nat) = 0 \<longrightarrow> eof_pending st1"
    show "ends (pbind (expect k G TTHEN) (\<lambda>_. pbind (g_list G 0) (\<lambda>ifpart. pbind (readtoken k G) (?e test ifpart)))) ?Q st1"
    proof (rule expect_then [OF t(1)])
      fix st2 assume p: "\<not> eof_pending st1" "0 < n" "room (n - 1) fs st2"
      then obtain a where a: "test = Some a" using t(2) by (cases test) auto
      show "ends (pbind (g_list G 0) (\<lambda>ifpart. pbind (readtoken k G) (?e test ifpart))) ?Q st2"
      proof (rule list_then [OF p(3)])
        fix ifpart :: "pnode option" and st3 assume i: "room (n - 1) fs st3" "ifpart = None \<and> (0::nat) = 0 \<longrightarrow> eof_pending st3"
        show "ends (pbind (readtoken k G) (?e test ifpart)) ?Q st3"
        proof (rule read_then [OF i(1)])
          fix t st4 assume r: "token_read (n - 1) fs st3 t st4"
          note tr = token_room [OF r]
          have none: "t = TEOF" if "ifpart = None" using i(2) that eof_sticks [OF r] by simp
          consider "t = TELIF" | "t = TELSE" | "t \<noteq> TELIF" "t \<noteq> TELSE" by blast
          then show "ends (?e test ifpart t) ?Q st4"
          proof cases
            case 1
            then obtain b where b: "ifpart = Some b" using none by (cases ifpart) auto
            have "ends (parse_if j k G) (\<lambda>r st'. room (n - 1) fs st' \<and> (r = None \<longrightarrow> eof_pending st')) st4"
              by (rule Suc.IH) (use tr 1 Suc.prems in auto)
            then show ?thesis using 1 a b by (auto elim!: ends_weaken intro: room_mono)
          next
            case 2
            then obtain b where b: "ifpart = Some b" using none by (cases ifpart) auto
            have "ends (g_list G 0) (\<lambda>r st'. room (n - 1) fs st' \<and> (r = None \<and> (0::nat) = 0 \<longrightarrow> eof_pending st')) st4"
              by (rule list_ends) (use tr(3) Suc.prems in auto)
            then show ?thesis using 2 a b by (auto elim!: ends_weaken intro: room_mono)
          next
            case 3
            then show ?thesis using a none tr(4) eof_again [of "n - 1" fs st3 st4] r by (cases ifpart) (auto intro: room_mono)
          qed
        qed (use Suc.prems(2) in auto)
      qed (use Suc.prems(2) in auto)
    qed (use Suc.prems(2) in auto)
  qed
qed simp

lemma while_ends:
  assumes "room n fs st" "n + 1 < k"
  shows "ends (parse_while k G mk) (\<lambda>r st'. room n fs st' \<and> (r = None \<longrightarrow> eof_pending st')) st"
  unfolding parse_while_def
proof (rule list_then [OF assms], simp)
  fix test :: "pnode option" and st1 assume t: "room n fs st1" "test = None \<and> (0::nat) = 0 \<longrightarrow> eof_pending st1"
  show "ends (pbind (expect k G TDO) (\<lambda>_. pbind (g_list G 0) (\<lambda>body. pret (case (test, body) of (Some a, Some b) \<Rightarrow> Some (mk a b) | _ \<Rightarrow> None))))
      (\<lambda>r st'. room n fs st' \<and> (r = None \<longrightarrow> eof_pending st')) st1"
  proof (rule expect_then [OF t(1)])
    fix st2 assume p: "\<not> eof_pending st1" "0 < n" "room (n - 1) fs st2"
    then obtain a where a: "test = Some a" using t(2) by (cases test) auto
    show "ends (pbind (g_list G 0) (\<lambda>body. pret (case (test, body) of (Some a, Some b) \<Rightarrow> Some (mk a b) | _ \<Rightarrow> None)))
      (\<lambda>r st'. room n fs st' \<and> (r = None \<longrightarrow> eof_pending st')) st2"
      by (rule list_then [OF p(3)]) (use a assms(2) in \<open>auto intro: room_mono split: option.splits\<close>)
  qed (use assms(2) in auto)
qed

end

text \<open>A list that is read up to a token that ends it has no node only at the end of the input.\<close>

definition listed :: "nat \<Rightarrow> parsefile list \<Rightarrow> bool \<Rightarrow> bool \<Rightarrow> pnode option \<Rightarrow> pnode option \<times> bool \<Rightarrow> pstate \<Rightarrow> bool" where
  "listed n fs chknl stop n1 r st \<longleftrightarrow> room n fs st \<and> (n1 \<noteq> None \<longrightarrow> fst r \<noteq> None) \<and> (fst r = None \<and> chknl \<and> \<not> stop \<longrightarrow> eof_pending st)"

context grammar_contract
begin

lemma for_words_end:
  assumes "room n fs st" "n < k" "n < j"
  shows "ends (for_words j k G ws) (\<lambda>_. room n fs) st"
  using assms
proof (induction j arbitrary: n ws st)
  case (Suc j)
  show ?case unfolding for_words.simps
  proof (rule read_then [OF Suc.prems(1,2)])
    fix t st1 assume r: "token_read n fs st t st1"
    note tr = token_room [OF r]
    have "ends (for_words j k G ws1) (\<lambda>_. room n fs) st1" if "t = TWORD" for ws1
      by (rule ends_weaken [OF Suc.IH [of "n - 1"]]) (use that tr Suc.prems(2,3) in \<open>auto intro: room_mono\<close>)
    then show "ends (if t = TWORD then pbind makename (\<lambda>w. for_words j k G (ws @ [w])) else if t \<noteq> TNL \<and> t \<noteq> TSEMI then raise_error_unexpected_syntax None else pret ws) (\<lambda>_. room n fs) st1"
      using tr by simp
  qed
qed simp

lemma for_ends:
  assumes "room n fs st" "n + 1 < k"
  shows "ends (parse_for k G) (\<lambda>r st'. room n fs st' \<and> (r = None \<longrightarrow> eof_pending st')) st"
proof -
  let ?Q = "\<lambda>r st'. room n fs st' \<and> (r = None \<longrightarrow> eof_pending st')"
  have nk: "n < k" "n - 1 + 1 < k" using assms(2) by simp_all
  define body where "body var ws = pbind (set_chk {CHKNL, CHKKWD, CHKALIAS}) (\<lambda>_. pbind (expect k G TDO) (\<lambda>_.
      pbind (g_list G 0) (\<lambda>body. pret (map_option (Nfor var ws) body))))" for var ws
  have body: "ends (body var ws) ?Q st1" if "room n fs st1" for var ws st1
    unfolding body_def ends_simps(1) [of "set_chk _"] ends_set_chk
  proof (rule expect_then [OF _ nk(1)])
    fix st2 assume "room (n - 1) fs st2"
    then show "ends (pbind (g_list G 0) (\<lambda>body. pret (map_option (Nfor var ws) body))) ?Q st2"
      by (rule list_then [OF _ nk(2)]) (auto intro: room_mono)
  qed (use that in auto)
  have words: "ends (if t1 = TIN then for_words k k G [] else pbind (if t1 \<noteq> TSEMI then pushback else pret ()) (\<lambda>_. pret [Narg dolatstr []])) (\<lambda>ws. ends (body var ws) ?Q) st2"
    if "token_read n fs st1 t1 st2" for t1 var st1 st2
  proof (cases "t1 = TIN")
    case True
    then show ?thesis using token_room(3) [OF that] by (auto intro!: ends_weaken [OF for_words_end [OF _ nk(1,1)]] body)
  qed (use token_room(3,4) [OF that] body in auto)
  have inner: "ends (pbind (set_chk {CHKNL, CHKKWD, CHKALIAS}) (\<lambda>_. pbind (readtoken k G) (\<lambda>t1.
            pbind (if t1 = TIN then for_words k k G []
                   else pbind (if t1 \<noteq> TSEMI then pushback else pret ()) (\<lambda>_. pret [Narg dolatstr []])) (body var)))) ?Q st1" if "room n fs st1" for var st1
    unfolding ends_simps(1) [of "set_chk _"] ends_set_chk
    by (rule read_then [OF _ nk(1)]) (use that in \<open>simp del: ends_simps\<close>, rule bind_ends, rule words)
  show ?thesis unfolding parse_for_def body_def [symmetric]
  proof (rule read_then [OF assms(1) nk(1)])
    fix t st1 assume "token_read n fs st t st1"
    then have "room n fs st1" by (rule token_room)
    then show "ends (pbind (pread (\<lambda>st. (quoteflag st, wordtext st))) (\<lambda>(quoted, var). if t \<noteq> TWORD \<or> quoted \<or> \<not> goodname var then pfail BadForVariable
        else pbind (set_chk {CHKNL, CHKKWD, CHKALIAS}) (\<lambda>_. pbind (readtoken k G) (\<lambda>t1.
            pbind (if t1 = TIN then for_words k k G []
                   else pbind (if t1 \<noteq> TSEMI then pushback else pret ()) (\<lambda>_. pret [Narg dolatstr []])) (body var))))) ?Q st1"
      using inner [of st1 "wordtext st1"] unfolding ends_simps(1) [of "pread _"] ends_simps(3) by (auto simp del: ends_simps(1))
  qed
qed

lemma patterns_end:
  assumes "room n fs st" "n < k" "n < j"
  shows "ends (case_patterns j k G ws) (\<lambda>_. room n fs) st"
  using assms
proof (induction j arbitrary: n ws st)
  case (Suc j)
  show ?case unfolding case_patterns.simps ends_simps(1) [of makename] ends_makename
  proof (rule read_then [OF Suc.prems(1,2)])
    fix t st1 assume r: "token_read n fs st t st1"
    note tr = token_room [OF r]
    let ?w = "Narg (wordtext st) (backquotelist st)"
    have "ends (pbind (readtoken k G) (\<lambda>_. case_patterns j k G (ws @ [?w]))) (\<lambda>_. room n fs) st1" if "t = TPIPE"
    proof (rule read_then [of "n - 1" fs])
      fix t2 st2 assume "token_read (n - 1) fs st1 t2 st2"
      then have "room (n - 1) fs st2" by (rule token_room)
      then show "ends (case_patterns j k G (ws @ [?w])) (\<lambda>_. room n fs) st2"
        by (intro ends_weaken [OF Suc.IH [of "n - 1"]]) (use that tr Suc.prems(2,3) in \<open>auto intro: room_mono\<close>)
    qed (use that tr Suc.prems(2) in auto)
    then show "ends (if t = TPIPE then pbind (readtoken k G) (\<lambda>_. case_patterns j k G (ws @ [?w])) else if t \<noteq> TRP then raise_error_unexpected_syntax (Some TRP)
        else pret (ws @ [?w])) (\<lambda>_. room n fs) st1" using tr(3) by (auto simp del: ends_simps(1))
  qed
qed simp

lemma cases_end:
  assumes "room n fs st" "n + 1 < k" "n < j"
  shows "ends (parse_cases j k G cs) (\<lambda>_. room n fs) st"
  using assms
proof (induction j arbitrary: n cs st)
  case (Suc j)
  have nk: "n < k" using Suc.prems(2) by simp
  define next_case where "next_case ws body = pbind (set_chk {CHKNL, CHKKWD}) (\<lambda>_. pbind (readtoken k G) (\<lambda>t1.
      if t1 = TESAC then pret (cs @ [(ws, body)]) else if t1 \<noteq> TENDCASE then raise_error_unexpected_syntax (Some TENDCASE)
      else parse_cases j k G (cs @ [(ws, body)])))" for ws body
  have n1: "ends (next_case ws body) (\<lambda>_. room n fs) st1" if "room n fs st1" for ws body st1
    unfolding next_case_def ends_simps(1) [of "set_chk _"] ends_set_chk
  proof (rule read_then [OF _ nk])
    fix t st2 assume r: "token_read n fs (st1\<lparr>checkkwd := {CHKNL, CHKKWD}\<rparr>) t st2"
    note tr = token_room [OF r]
    have "ends (parse_cases j k G cs1) (\<lambda>_. room n fs) st2" if "t = TENDCASE" for cs1
      by (rule ends_weaken [OF Suc.IH [of "n - 1"]]) (use that tr Suc.prems in \<open>auto intro: room_mono\<close>)
    then show "ends (if t = TESAC then pret (cs @ [(ws, body)]) else if t \<noteq> TENDCASE then raise_error_unexpected_syntax (Some TENDCASE)
      else parse_cases j k G (cs @ [(ws, body)])) (\<lambda>_. room n fs) st2" using tr(3) by auto
  qed (use that in simp)
  have n2: "ends (pbind (case_patterns k k G []) (\<lambda>ws. pbind (g_list G 2) (next_case ws))) (\<lambda>_. room n fs) st1" if "room n fs st1" for st1
    unfolding ends_simps(1) [of "case_patterns _ _ _ _"]
  proof (rule ends_weaken [OF patterns_end [OF that nk nk]])
    fix ws st2 assume "room n fs st2"
    then show "ends (pbind (g_list G 2) (next_case ws)) (\<lambda>_. room n fs) st2" by (rule list_then [OF _ Suc.prems(2)]) (auto intro: n1)
  qed
  show ?case unfolding parse_cases.simps next_case_def [symmetric] ends_simps(1) [of "set_chk _"] ends_set_chk
  proof (rule read_then [OF _ nk])
    fix t st1 assume r: "token_read n fs (st\<lparr>checkkwd := {CHKNL, CHKKWD}\<rparr>) t st1"
    note tr = token_room [OF r]
    have "ends (readtoken k G) (\<lambda>_. room n fs) st1" by (rule ends_weaken [OF readtoken_ends [OF tr(3) nk]]) (rule token_room(3))
    then have "ends (if t = TLP then readtoken k G else pret t) (\<lambda>_. room n fs) st1" using tr(3) by simp
    then have "ends (if t = TLP then readtoken k G else pret t) (\<lambda>_. ends (pbind (case_patterns k k G []) (\<lambda>ws. pbind (g_list G 2) (next_case ws))) (\<lambda>_. room n fs)) st1"
      by (rule ends_weaken) (rule n2)
    then show "ends (if t = TESAC then pret cs else pbind (if t = TLP then readtoken k G else pret t) (\<lambda>_. pbind (case_patterns k k G []) (\<lambda>ws. pbind (g_list G 2) (next_case ws))))
        (\<lambda>_. room n fs) st1" using tr(3) by (simp add: ends_simps(1) del: ends_simps(3-))
  qed (use Suc.prems(1) in simp)
qed simp

lemma case_ends:
  assumes "room n fs st" "n + 1 < k"
  shows "ends (parse_case k G) (\<lambda>r st'. room n fs st' \<and> r \<noteq> None) st"
proof -
  have nk: "n < k" "n - 1 < k" "n - 1 + 1 < k" "n - 1 - 1 + 1 < k" "n - 1 - 1 < k" using assms(2) by simp_all
  show ?thesis unfolding parse_case_def
  proof (rule expect_then [OF assms(1) nk(1)], simp)
    fix st1 assume st1: "room (n - 1) fs st1"
    show "ends (pbind makename (\<lambda>w. pbind (set_chk {CHKNL, CHKKWD, CHKALIAS}) (\<lambda>_. pbind (expect k G TIN) (\<lambda>_. pbind (parse_cases k k G []) (\<lambda>cs. pret (Some (Ncase w cs)))))))
        (\<lambda>r st'. room n fs st' \<and> r \<noteq> None) st1"
      unfolding ends_simps(1) [of makename] ends_makename ends_simps(1) [of "set_chk _"] ends_set_chk
    proof (rule expect_then [OF _ nk(2)])
      fix st2 assume "room (n - 1 - 1) fs st2"
      from cases_end [OF this nk(4,5), of "[]"] show "ends (pbind (parse_cases k k G []) (\<lambda>cs. pret (Some (Ncase (Narg (wordtext st1) (backquotelist st1)) cs)))) (\<lambda>r st'. room n fs st' \<and> r \<noteq> None) st2"
        by (auto elim!: ends_weaken intro: room_mono)
    qed (use st1 in auto)
  qed
qed


section \<open>Commands and lists\<close>

lemma simplecmd_ends:
  assumes "token_read n fs st0 t st" "t \<in> {TWORD, TREDIR}" "n < k"
  shows "ends (pbind pushback (\<lambda>_. simplecmd k G)) (\<lambda>_. room (n - 1) fs) st"
proof -
  have r: "room n fs (st\<lparr>tokpushback := True\<rparr>)" "lasttoken st \<in> {TWORD, TREDIR}" using token_room(4,6) [OF assms(1)] assms(2) by simp_all
  have "ends (simple_loop k k G True [] [] []) (\<lambda>_. room (n - 1) fs) (st\<lparr>tokpushback := True\<rparr>)"
    by (rule ends_weaken [OF simple_ends [OF r(1) assms(3,3)]]) (use r(2) in auto)
  then show ?thesis by (simp add: simplecmd_def)
qed

lemma command_step:
  assumes "room n fs st" "n < k"
  shows "ends (parse_command k G) (\<lambda>_ st'. 0 < n \<and> room (n - 1) fs st') st"
  unfolding parse_command_def
proof (rule read_then [OF assms])
  fix t st1 assume r: "token_read n fs st t st1"
  note tr = token_room [OF r]
  let ?Q = "\<lambda>_ st'. 0 < n \<and> room (n - 1) fs st'"
  have fin: "ends (pbind m (finish_command k G (Some t1))) ?Q st1" if "t \<noteq> TEOF" "t1 \<noteq> TEOF" "ends m (\<lambda>r st'. room (n - 1) fs st' \<and> (r = None \<longrightarrow> eof_pending st')) st1" for m t1
  proof (rule bind_ends, rule ends_weaken [OF that(3)])
    fix x :: "pnode option" and st2 assume a: "room (n - 1) fs st2 \<and> (x = None \<longrightarrow> eof_pending st2)"
    have "ends (finish_command k G (Some t1) x) (\<lambda>_. room (n - 1) fs) st2" by (rule finish_ends) (use a that(2) tr(1) assms(2) in auto)
    then show "ends (finish_command k G (Some t1) x) ?Q st2" using tr(1) that(1) by (auto elim: ends_weaken)
  qed
  have pre: "room (n - 1) fs st1" "n - 1 + 1 < k" "n - 1 < k" if "t \<noteq> TEOF" using tr that assms(2) by auto
  show "ends (case t of
         TIF \<Rightarrow> pbind (parse_if k k G) (finish_command k G (Some TFI))
       | TWHILE \<Rightarrow> pbind (parse_while k G Nwhile) (finish_command k G (Some TDONE))
       | TUNTIL \<Rightarrow> pbind (parse_while k G Nuntil) (finish_command k G (Some TDONE))
       | TFOR \<Rightarrow> pbind (parse_for k G) (finish_command k G (Some TDONE))
       | TCASE \<Rightarrow> pbind (parse_case k G) (finish_command k G None)
       | TLP \<Rightarrow> pbind (g_list G 0) (\<lambda>n. finish_command k G (Some TRP) (map_option (\<lambda>m. Nsubshell m []) n))
       | TBEGIN \<Rightarrow> pbind (g_list G 0) (finish_command k G (Some TEND))
       | TWORD \<Rightarrow> pbind pushback (\<lambda>_. simplecmd k G)
       | TREDIR \<Rightarrow> pbind pushback (\<lambda>_. simplecmd k G)
       | _ \<Rightarrow> raise_error_unexpected_syntax None) ?Q st1"
  proof (cases t)
    case TIF
    then show ?thesis using fin [OF _ _ if_ends [OF pre]] by simp
  next
    case TWHILE
    then show ?thesis using fin [OF _ _ while_ends [OF pre(1,2)]] by simp
  next
    case TUNTIL
    then show ?thesis using fin [OF _ _ while_ends [OF pre(1,2)]] by simp
  next
    case TFOR
    then show ?thesis using fin [OF _ _ for_ends [OF pre(1,2)]] by simp
  next
    case TCASE
    have "ends (pbind (parse_case k G) (finish_command k G None)) ?Q st1"
    proof (rule bind_ends, rule ends_weaken [OF case_ends [OF pre(1,2)]])
      fix x :: "pnode option" and st2 assume a: "room (n - 1) fs st2 \<and> x \<noteq> None"
      have "ends (finish_command k G None x) (\<lambda>_. room (n - 1) fs) st2" by (rule finish_ends) (use a pre(3) TCASE in auto)
      then show "ends (finish_command k G None x) ?Q st2" using tr(1) TCASE by (auto elim: ends_weaken)
    qed (use TCASE in simp_all)
    then show ?thesis using TCASE by simp
  next
    case TLP
    have "ends (g_list G 0) (\<lambda>r st'. room (n - 1) fs st' \<and> (r = None \<longrightarrow> eof_pending st')) st1" using list_ends [OF pre(1,2), of 0] TLP by simp
    then have "ends (pbind (g_list G 0) (\<lambda>r. pret (map_option (\<lambda>m. Nsubshell m []) r))) (\<lambda>r st'. room (n - 1) fs st' \<and> (r = None \<longrightarrow> eof_pending st')) st1" by simp
    from fin [OF _ _ this, of TRP] show ?thesis using TLP by simp
  next
    case TBEGIN
    have "ends (g_list G 0) (\<lambda>r st'. room (n - 1) fs st' \<and> (r = None \<longrightarrow> eof_pending st')) st1" using list_ends [OF pre(1,2), of 0] TBEGIN by simp
    from fin [OF _ _ this, of TEND] show ?thesis using TBEGIN by simp
  next
    case TWORD
    then show ?thesis using simplecmd_ends [OF r _ assms(2)] tr(1) by (auto elim: ends_weaken)
  next
    case TREDIR
    then show ?thesis using simplecmd_ends [OF r _ assms(2)] tr(1) by (auto elim: ends_weaken)
  qed (simp_all)
qed

lemma pipes_end:
  assumes "room n fs st" "n < k" "n < j"
  shows "ends (pipeline_loop j k G ns) (\<lambda>_. room n fs) st"
  using assms
proof (induction j arbitrary: n ns st)
  case (Suc j)
  show ?case unfolding pipeline_loop.simps
  proof (rule read_then [OF Suc.prems(1,2)])
    fix t st1 assume r: "token_read n fs st t st1"
    note tr = token_room [OF r]
    have "ends (pbind (parse_command k G) (\<lambda>c. pipeline_loop j k G (ns @ [c]))) (\<lambda>_. room n fs) (st1\<lparr>checkkwd := s\<rparr>)" if "t = TPIPE" for s
    proof (rule bind_ends, rule ends_weaken [OF command_step [of "n - 1" fs]])
      fix c st2 assume a: "0 < n - 1 \<and> room (n - 1 - 1) fs st2"
      show "ends (pipeline_loop j k G (ns @ [c])) (\<lambda>_. room n fs) st2"
        by (rule ends_weaken [OF Suc.IH [of "n - 1 - 1"]]) (use a Suc.prems(2,3) in \<open>auto intro: room_mono\<close>)
    qed (use that tr Suc.prems(2) in auto)
    then show "ends (if t = TPIPE then pbind (set_chk {CHKNL, CHKKWD, CHKALIAS}) (\<lambda>_. pbind (parse_command k G) (\<lambda>c. pipeline_loop j k G (ns @ [c]))) else pbind pushback (\<lambda>_. pret ns)) (\<lambda>_. room n fs) st1"
      using tr(4) by simp
  qed
qed simp

lemma pipeline_ends:
  assumes "room n fs st" "n < k"
  shows "ends (pipeline k G) (\<lambda>_ st'. 0 < n \<and> room (n - 1) fs st') st"
  unfolding pipeline_def
proof (rule read_then [OF assms])
  fix t st1 assume r: "token_read n fs st t st1"
  note tr = token_room [OF r]
  let ?Q = "\<lambda>_ st'. 0 < n \<and> room (n - 1) fs st'"
  define rest where "rest c = pbind (pipeline_loop k k G [c]) (\<lambda>ns. let n1 = (if length ns = 1 then c else Npipe False ns) in pret (if t = TNOT then Nnot n1 else n1))" for c
  have "ends (rest c) ?Q st2" if "0 < n \<and> room (n - 1) fs st2" for c st2
    unfolding rest_def by (rule bind_ends, rule ends_weaken [OF pipes_end [of "n - 1" fs]]) (use that assms(2) in \<open>auto simp: Let_def\<close>)
  then have "ends (pbind (parse_command k G) rest) ?Q st2" if "room n fs st2" for st2
    by (intro bind_ends ends_weaken [OF command_step [OF that assms(2)]])
  then show "ends (pbind (if t = TNOT then set_chk {CHKKWD, CHKALIAS} else pushback) (\<lambda>_. pbind (parse_command k G) (\<lambda>c. pbind (pipeline_loop k k G [c]) (\<lambda>ns.
      let n1 = (if length ns = 1 then c else Npipe False ns) in pret (if t = TNOT then Nnot n1 else n1))))) ?Q st1"
    using tr unfolding rest_def [symmetric] by (auto simp del: ends_simps(1) intro!: bind_ends)
qed


lemma andor_loop_ends:
  assumes "room n fs st" "n < k" "n < j"
  shows "ends (andor_loop j k G n1) (\<lambda>_. room n fs) st"
  using assms
proof (induction j arbitrary: n n1 st)
  case (Suc j)
  show ?case unfolding andor_loop.simps
  proof (rule read_then [OF Suc.prems(1,2)])
    fix t st1 assume r: "token_read n fs st t st1"
    note tr = token_room [OF r]
    have "ends (pbind (pipeline k G) (\<lambda>n2. andor_loop j k G (if t = TAND then Nand n1 n2 else Nor n1 n2))) (\<lambda>_. room n fs) (st1\<lparr>checkkwd := s\<rparr>)" if "t = TAND \<or> t = TOR" for s
    proof (rule bind_ends, rule ends_weaken [OF pipeline_ends [of "n - 1" fs]])
      fix n2 st2 assume a: "0 < n - 1 \<and> room (n - 1 - 1) fs st2"
      show "ends (andor_loop j k G (if t = TAND then Nand n1 n2 else Nor n1 n2)) (\<lambda>_. room n fs) st2"
        by (rule ends_weaken [OF Suc.IH [of "n - 1 - 1"]]) (use a Suc.prems(2,3) in \<open>auto intro: room_mono\<close>)
    qed (use that tr Suc.prems(2) in auto)
    then show "ends (if t = TAND \<or> t = TOR then pbind (set_chk {CHKNL, CHKKWD, CHKALIAS}) (\<lambda>_. pbind (pipeline k G) (\<lambda>n2. andor_loop j k G (if t = TAND then Nand n1 n2 else Nor n1 n2)))
        else pbind pushback (\<lambda>_. pret n1)) (\<lambda>_. room n fs) st1"
      using tr(4) by simp
  qed
qed simp

lemma andor_list_ends:
  assumes "room n fs st" "n < k"
  shows "ends (andor k G) (\<lambda>_ st'. 0 < n \<and> room (n - 1) fs st') st"
  unfolding andor_def
proof (rule bind_ends, rule ends_weaken [OF pipeline_ends [OF assms]])
  fix n1 st1 assume a: "0 < n \<and> room (n - 1) fs st1"
  have "ends (andor_loop k k G n1) (\<lambda>_. room (n - 1) fs) st1" by (rule andor_loop_ends) (use a assms(2) in auto)
  then show "ends (andor_loop k k G n1) (\<lambda>_ st'. 0 < n \<and> room (n - 1) fs st') st1" by (rule ends_weaken) (use a in auto)
qed

lemma list_eof_ends:
  assumes "room n fs st" "n < k"
  shows "ends (list_eof k G n1 e) (\<lambda>(r, _) st'. r = n1 \<and> room n fs st' \<and> eof_pending st') st"
  unfolding list_eof_def
  by (rule bind_ends, rule ends_weaken [OF parseheredoc_ends [OF assms]]) (auto simp: room_def tokw_def eof_pending_def)

lemma list_loop_ends:
  assumes "room n fs st" "n < k" "n < j"
  shows "ends (list_loop j k G chknl stop n1) (listed n fs chknl stop n1) st"
  using assms
proof (induction j arbitrary: n stop n1 st)
  case (Suc j)
  let ?s = "st\<lparr>checkkwd := (if chknl then {CHKNL} else {}) \<union> {CHKKWD, CHKALIAS}\<rparr>"
  let ?Q = "listed n fs chknl stop n1"
  have eof: "ends (list_eof k G r e) ?Q st1" if "room n fs st1" "n1 \<noteq> None \<longrightarrow> r \<noteq> None" for r e st1
    by (rule ends_weaken [OF list_eof_ends [OF that(1) Suc.prems(2)]]) (use that(2) in \<open>auto simp: listed_def\<close>)
  define more where "more = pbind (andor k G) (\<lambda>n2. pbind (readtoken k G) (\<lambda>tok1.
             let n3 = Some (join_semi n1 (if tok1 = TBACKGND then background n2 else n2))
             in if tok1 = TEOF then list_eof k G n3 False
                else if tok1 = TNL then pbind pushback (\<lambda>_. list_loop j k G chknl chknl n3)
                else if tok1 = TBACKGND \<or> tok1 = TSEMI then list_loop j k G chknl chknl n3
                else if \<not> chknl then raise_error_unexpected_syntax None
                else pbind pushback (\<lambda>_. pret (n3, False))))"
  have more: "ends more ?Q st1" if "room n fs st1" for st1
    unfolding more_def
  proof (rule bind_ends, rule ends_weaken [OF andor_list_ends [OF that Suc.prems(2)]])
    fix n2 st2 assume a: "0 < n \<and> room (n - 1) fs st2"
    have loop: "ends (list_loop j k G chknl chknl (Some n3)) ?Q st3" if "room (n - 1) fs st3" for n3 st3
      by (rule ends_weaken [OF Suc.IH [OF that]]) (use a Suc.prems(2,3) in \<open>auto simp: listed_def intro: room_mono\<close>)
    show "ends (pbind (readtoken k G) (\<lambda>tok1. let n3 = Some (join_semi n1 (if tok1 = TBACKGND then background n2 else n2))
             in if tok1 = TEOF then list_eof k G n3 False
                else if tok1 = TNL then pbind pushback (\<lambda>_. list_loop j k G chknl chknl n3)
                else if tok1 = TBACKGND \<or> tok1 = TSEMI then list_loop j k G chknl chknl n3
                else if \<not> chknl then raise_error_unexpected_syntax None
                else pbind pushback (\<lambda>_. pret (n3, False)))) ?Q st2"
    proof (rule read_then [of "n - 1" fs])
      fix t st3 assume r: "token_read (n - 1) fs st2 t st3"
      note tr = token_room [OF r]
      have r3: "room n fs st3" "room n fs (st3\<lparr>tokpushback := True\<rparr>)" using tr(3,4) by (auto intro: room_mono)
      show "ends (let n3 = Some (join_semi n1 (if t = TBACKGND then background n2 else n2))
             in if t = TEOF then list_eof k G n3 False
                else if t = TNL then pbind pushback (\<lambda>_. list_loop j k G chknl chknl n3)
                else if t = TBACKGND \<or> t = TSEMI then list_loop j k G chknl chknl n3
                else if \<not> chknl then raise_error_unexpected_syntax None
                else pbind pushback (\<lambda>_. pret (n3, False))) ?Q st3"
        using eof [OF r3(1)] loop [OF tr(3)] loop [OF tr(4)] r3(2) by (simp add: Let_def listed_def [of _ _ _ _ _ _ "st3\<lparr>tokpushback := True\<rparr>"])
    qed (use a Suc.prems(2) in auto)
  qed
  have "ends (pbind (readtoken k G) (\<lambda>tok. if tok = TNL then pbind (parseheredoc k G) (\<lambda>_. pret (n1, False))
       else if tok = TEOF then list_eof k G n1 (n1 = None \<and> \<not> chknl)
       else pbind pushback (\<lambda>_. if stop \<and> tok \<in> tokendlist then pret (n1, False) else more))) ?Q ?s"
  proof (rule read_then [OF _ Suc.prems(2)])
    fix t st1 assume r: "token_read n fs ?s t st1"
    note tr = token_room [OF r]
    have "ends (parseheredoc k G) (\<lambda>_. ?Q (n1, False)) st1" if "t = TNL"
    proof (rule ends_weaken [OF parseheredoc_ends [OF tr(3) Suc.prems(2)]])
      have "\<not> chknl" using r that by (auto simp: token_read_def)
      then show "?Q (n1, False) st2" if "room n fs st2 \<and> (\<not> tokpushback st1 \<longrightarrow> \<not> tokpushback st2)" for st2 using that by (simp add: listed_def)
    qed
    then show "ends (if t = TNL then pbind (parseheredoc k G) (\<lambda>_. pret (n1, False))
       else if t = TEOF then list_eof k G n1 (n1 = None \<and> \<not> chknl)
       else pbind pushback (\<lambda>_. if stop \<and> t \<in> tokendlist then pret (n1, False) else more)) ?Q st1"
      using eof [OF tr(3)] more [OF tr(4)] tr(4) by (simp add: listed_def [of _ _ _ _ _ _ "st1\<lparr>tokpushback := True\<rparr>"])
  qed (use Suc.prems(1) in simp)
  then show ?case unfolding list_loop.simps more_def ends_simps(1) [of "set_chk _"] ends_set_chk .
qed simp

lemma plist_ends:
  assumes "room n fs st" "n < k"
  shows "ends (plist k G nl) (\<lambda>r st'. room n fs st' \<and> (fst r = None \<and> nl = 0 \<longrightarrow> eof_pending st')) st"
  unfolding plist_def by (rule ends_weaken [OF list_loop_ends [OF assms assms(2)]]) (auto simp: listed_def)

end

section \<open>The shell's own grammar\<close>

lemma ends_map: "ends m Q st \<Longrightarrow> (\<And>x st'. Q x st' \<Longrightarrow> R (f x) st') \<Longrightarrow> ends (\<lambda>st. map_sum id (map_prod f id) (m st)) R st"
  by (auto simp: ends_def split: sum.splits)

lemma grammar_at_Suc:
  "g_list (grammar_at (Suc k)) nl = (\<lambda>st. map_sum id (map_prod fst id) (plist k (grammar_at k) nl st))"
  "g_command (grammar_at (Suc k)) = parse_command k (grammar_at k)"
  "g_readtoken (grammar_at (Suc k)) = readtoken k (grammar_at k)"
  "g_parseheredoc (grammar_at (Suc k)) = parseheredoc k (grammar_at k)"
  by (simp_all add: grammar_at_def fun_eq_iff)

lemma grammar_at_contract: "grammar_contract (grammar_at k) k"
proof (induction k)
  case 0
  show ?case by unfold_locales simp_all
next
  case (Suc k)
  show ?case
  proof (unfold_locales, goal_cases)
    case (1 n fs st nl)
    then show ?case unfolding grammar_at_Suc by (intro ends_map [OF grammar_contract.plist_ends [OF Suc]]) auto
  next
    case (2 n fs st)
    then show ?case unfolding grammar_at_Suc by (intro ends_weaken [OF grammar_contract.command_step [OF Suc]]) (auto intro: room_mono)
  next
    case (3 n fs st)
    then show ?case unfolding grammar_at_Suc by (intro ends_weaken [OF grammar_contract.readtoken_ends [OF Suc]]) (auto simp: token_read_def)
  next
    case (4 n fs st)
    then show ?case unfolding grammar_at_Suc by (intro grammar_contract.parseheredoc_ends [OF Suc]) auto
  qed
qed

interpretation shell: grammar_contract "grammar_at k" k for k
  by (rule grammar_at_contract)

text \<open>C3: The parser ends on every text, with or without a here-document, a substitution or an error in it: a bound above the
  length of the text is enough for its loops and its recursion.  It never follows a null pointer for a missing
  command and never takes the stack of syntaxes below its bottom, it leaves at most the two characters pushed back
  that the input remembers, and it has closed every string that it opened as an input.\<close>

theorem parser_ends:
  assumes "length s < k"
  shows "case parsecmd k (string_state s) of Inl e \<Rightarrow> e \<noteq> ParserFuel \<and> e \<noteq> NullNode
     | Inr (r, st) \<Rightarrow> unget (g_parsefile st) \<le> 2 \<and> prev_files st = []"
proof -
  let ?st = "(string_state s)\<lparr>tokpushback := False, checkkwd := {}, heredoclist := []\<rparr>"
  have "room (length s) [] ?st" by (simp add: room_def tokw_def string_state_def left_in_def pushes_def)
  then have "ends (parsecmd k) (\<lambda>r st. room (length s) [] st) (string_state s)"
    unfolding parsecmd_def ends_simps by (rule ends_weaken [OF shell.plist_ends [OF _ assms]]) simp
  then show ?thesis by (auto simp: ends_def room_def pushes_def split: sum.splits)
qed

text \<open>A subshell with an arithmetic expansion, a here-document whose text is cut off, and a loop without an end.\<close>

theorem parser_ends_witness:
  "case parsecmd 40 (string_state (''( while cat <<E$((1'' @ [NL] @ ''do `x`'')) of Inl e \<Rightarrow> e \<noteq> ParserFuel \<and> e \<noteq> NullNode
     | Inr (r, st) \<Rightarrow> unget (g_parsefile st) \<le> 2 \<and> prev_files st = []"
  by (rule parser_ends) simp

end
