(* ===== verification/Ash_Evalstring.thy ===== *)
theory Ash_Evalstring
  imports Ash_Parse_Whole Ash_Parse_Ends
begin

text \<open>
  Running a string, \<open>shell/ash.c\<close>: \<open>evalstring\<close>, which the builtin \<open>eval\<close>, traps and the option \<open>-c\<close> use, reads command
  after command from the string and evaluates each.  The evaluator is an argument: it gets the tree and whether
  it may end the process (\<open>EV_EXIT\<close>), and returns the status and whether \<open>evalskip\<close> is set, or raises an
  exception.  It keeps its hands off the string that is being read.  An exception of a command is caught
  (\<open>setjmp\<close>), the string is closed and the exception goes on, so that it is returned together with the input
  it leaves; an error of the parser carries no input, and nothing is said of the input behind one.
\<close>

section \<open>The loop\<close>

definition parser_eof :: "pstate \<Rightarrow> bool" where
  "parser_eof st \<longleftrightarrow> tokpushback st \<and> lasttoken st = TEOF"

type_synonym ('x, 's) tree_eval = "pnode option \<Rightarrow> bool \<Rightarrow> 's \<Rightarrow> ('x + int \<times> bool) \<times> 's"

primrec evalstring_loop :: "nat \<Rightarrow> nat \<Rightarrow> ('x, 's) tree_eval \<Rightarrow> bool \<Rightarrow> int \<Rightarrow> pstate \<Rightarrow> 's \<Rightarrow> ((perror + 'x \<times> pstate) + int \<times> pstate) \<times> 's" where
  "evalstring_loop 0 k ev may_exit status ps s = (Inl (Inl ParserFuel), s)"
| "evalstring_loop (Suc j) k ev may_exit status ps s =
     (case parsecmd k ps of
        Inl e \<Rightarrow> (Inl (Inl e), s)
      | Inr ((n, eof), ps1) \<Rightarrow>
          if eof then (Inr (status, ps1), s)
          else
            (case ev n (may_exit \<and> parser_eof ps1) s of
               (Inl x, s1) \<Rightarrow> (Inl (Inr (x, ps1)), s1)
             | (Inr (i, evalskip), s1) \<Rightarrow>
                 (let status1 = (if n = None then status else i)
                  in if evalskip then (Inr (status1, ps1), s1) else evalstring_loop j k ev may_exit status1 ps1 s1)))"

text \<open>The string becomes the input and is closed behind the loop, also when an exception ends it (label \<open>out\<close>).\<close>

definition push_string :: "cstr \<Rightarrow> pstate \<Rightarrow> pstate" where
  "push_string s ps = (case setinputstring s ps of Inr (_, ps1) \<Rightarrow> ps1)"

definition pop_file :: "pstate \<Rightarrow> pstate" where
  "pop_file ps = (case popfile ps of Inr (_, ps1) \<Rightarrow> ps1)"

definition evalstring :: "nat \<Rightarrow> ('x, 's) tree_eval \<Rightarrow> bool \<Rightarrow> cstr \<Rightarrow> pstate \<Rightarrow> 's \<Rightarrow> ((perror + 'x \<times> pstate) + int \<times> pstate) \<times> 's" where
  "evalstring k ev may_exit str ps s =
     map_prod (map_sum (map_sum id (map_prod id pop_file)) (map_prod id pop_file)) id (evalstring_loop k k ev may_exit 0 (push_string str ps) s)"

lemma push_string_simps [simp]:
  "g_parsefile (push_string s ps) = \<lparr>next_to_pgetc = s, unget = 0, lastc = (Some NUL, Some NUL), strpush = []\<rparr>"
  "prev_files (push_string s ps) = g_parsefile ps # prev_files ps"
  by (simp_all add: push_string_def setinputstring_def pset_def)

lemma pop_file_simps: "prev_files ps = pf # pfs \<Longrightarrow> g_parsefile (pop_file ps) = pf \<and> prev_files (pop_file ps) = pfs"
  by (simp add: pop_file_def popfile_def pset_def)

section \<open>Every command takes characters away\<close>

text \<open>A command of the input: its end, or a line or command that was taken.\<close>

definition advanced :: "nat \<Rightarrow> parsefile list \<Rightarrow> pnode option \<times> bool \<Rightarrow> pstate \<Rightarrow> bool" where
  "advanced n fs r st \<longleftrightarrow> room n fs st \<and> (snd r \<or> 0 < n \<and> room (n - 1) fs st)"

lemma advanced_room: "0 < n \<Longrightarrow> room (n - 1) fs st \<Longrightarrow> advanced n fs r st"
  by (auto simp: advanced_def intro: room_mono)

context grammar_contract
begin

lemma command_takes:
  assumes "room n fs st" "n < k" "k = Suc j"
  shows "ends (list_loop (Suc j) k G False False None) (advanced n fs) st"
  unfolding list_loop.simps ends_simps(1) [of "set_chk _"] ends_set_chk
proof (rule read_then [OF _ assms(2)])
  let ?s = "st\<lparr>checkkwd := (if False then {CHKNL} else {}) \<union> {CHKKWD, CHKALIAS}\<rparr>"
  fix t st1 assume r: "token_read n fs ?s t st1"
  note tr = token_room [OF r]
  define after where "after n2 t1 = (let n3 = Some (join_semi None (if t1 = TBACKGND then background n2 else n2))
             in if t1 = TEOF then list_eof k G n3 False
                else if t1 = TNL then pbind pushback (\<lambda>_. list_loop j k G False False n3)
                else if t1 = TBACKGND \<or> t1 = TSEMI then list_loop j k G False False n3
                else if \<not> False then raise_error_unexpected_syntax None
                else pbind pushback (\<lambda>_. pret (n3, False)))" for n2 t1
  have after: "ends (after n2 t1) (advanced n fs) st3" if "0 < n" "token_read (n - 1) fs st2 t1 st3" for n2 t1 st2 st3
  proof -
    have k: "n - 1 < k" "n - 1 < j" using that(1) assms(2,3) by auto
    have "ends (list_loop j k G False False n3) (advanced n fs) st4" if "room (n - 1) fs st4" for n3 st4
      by (rule ends_weaken [OF list_loop_ends [OF that k]]) (use \<open>0 < n\<close> in \<open>simp add: listed_def advanced_room\<close>)
    moreover have "ends (list_eof k G n3 False) (advanced n fs) st3" for n3
      by (rule ends_weaken [OF list_eof_ends [OF token_room(3) [OF that(2)] k(1)]]) (use that(1) in \<open>auto simp: advanced_room\<close>)
    ultimately show ?thesis using token_room(3,4) [OF that(2)] by (simp add: after_def Let_def)
  qed
  have more: "ends (pbind (andor k G) (\<lambda>n2. pbind (readtoken k G) (after n2))) (advanced n fs) (st1\<lparr>tokpushback := True\<rparr>)"
  proof (rule bind_ends, rule ends_weaken [OF andor_list_ends [OF tr(4) assms(2)]])
    fix n2 st2 assume a: "0 < n \<and> room (n - 1) fs st2"
    then show "ends (pbind (readtoken k G) (after n2)) (advanced n fs) st2"
      by (intro read_then [of "n - 1" fs]) (use assms(2) in \<open>auto intro: after\<close>)
  qed
  have nl: "ends (pbind (parseheredoc k G) (\<lambda>_. pret (None, False))) (advanced n fs) st1" if "t = TNL"
    by (rule bind_ends, rule ends_weaken [OF parseheredoc_ends [of "n - 1" fs]]) (use that tr assms(2) in \<open>auto simp: advanced_room\<close>)
  have eof: "ends (list_eof k G None True) (advanced n fs) st1"
    by (simp add: list_eof_def, rule ends_weaken [OF parseheredoc_ends [OF tr(3) assms(2)]]) (auto simp: advanced_def room_def tokw_def)
  show "ends (if t = TNL then pbind (parseheredoc k G) (\<lambda>_. pret (None, False))
       else if t = TEOF then list_eof k G None (None = None \<and> \<not> False)
       else pbind pushback (\<lambda>_. if False \<and> t \<in> tokendlist then pret (None, False)
         else pbind (andor k G) (\<lambda>n2. pbind (readtoken k G) (\<lambda>tok1. let n3 = Some (join_semi None (if tok1 = TBACKGND then background n2 else n2))
             in if tok1 = TEOF then list_eof k G n3 False
                else if tok1 = TNL then pbind pushback (\<lambda>_. list_loop j k G False False n3)
                else if tok1 = TBACKGND \<or> tok1 = TSEMI then list_loop j k G False False n3
                else if \<not> False then raise_error_unexpected_syntax None
                else pbind pushback (\<lambda>_. pret (n3, False)))))) (advanced n fs) st1"
    unfolding after_def [symmetric] using nl eof more by (simp del: ends_simps(1) add: ends_simps(1) [of pushback])
qed (use assms(1) in simp)

end

lemma parsecmd_takes:
  assumes "pushes 2 (g_parsefile ps)" "prev_files ps = fs" "left_in (g_parsefile ps) \<le> n" "n < k"
  shows "ends (parsecmd k) (advanced n fs) ps"
proof -
  obtain j where j: "k = Suc j" using assms(4) by (cases k) auto
  have "room n fs (ps\<lparr>tokpushback := False, checkkwd := {}, heredoclist := []\<rparr>)" using assms(1-3) by (simp add: room_def tokw_def)
  from shell.command_takes [OF this assms(4) j] show ?thesis unfolding ends_def parsecmd_loop j [symmetric] .
qed

lemma evalstring_loop_ends:
  assumes "pushes 2 (g_parsefile ps)" "prev_files ps = fs" "left_in (g_parsefile ps) \<le> n" "n < k" "n < j"
  shows "case fst (evalstring_loop j k ev may_exit status ps s) of
       Inl (Inl e) \<Rightarrow> e \<noteq> ParserFuel \<and> e \<noteq> NullNode | Inl (Inr (x, ps1)) \<Rightarrow> prev_files ps1 = fs | Inr (i, ps1) \<Rightarrow> prev_files ps1 = fs"
  using assms
proof (induction j arbitrary: n status ps s)
  case (Suc j)
  have p: "ends (parsecmd k) (advanced n fs) ps" by (rule parsecmd_takes [OF Suc.prems(1-4)])
  show ?case
  proof (cases "parsecmd k ps")
    case (Inl e)
    then show ?thesis using p by (simp add: ends_def)
  next
    case (Inr a)
    obtain n1 eof ps1 where a: "a = ((n1, eof), ps1)" by (metis prod.exhaust)
    have adv: "advanced n fs (n1, eof) ps1" using p Inr a by (simp add: ends_def)
    show ?thesis
    proof (cases "eof")
      case True
      then show ?thesis using Inr a adv by (simp add: advanced_def room_def)
    next
      case False
      then have r: "0 < n" "room (n - 1) fs ps1" using adv by (simp_all add: advanced_def)
      then have again: "case fst (evalstring_loop j k ev may_exit st1 ps1 s1) of
         Inl (Inl e) \<Rightarrow> e \<noteq> ParserFuel \<and> e \<noteq> NullNode | Inl (Inr (x, ps1)) \<Rightarrow> prev_files ps1 = fs | Inr (i, ps1) \<Rightarrow> prev_files ps1 = fs" for st1 s1
        using Suc.prems(4,5) by (intro Suc.IH [of ps1 "n - 1"]) (auto simp: room_def)
      obtain res s1 where e: "ev n1 (may_exit \<and> parser_eof ps1) s = (res, s1)" by fastforce
      show ?thesis using Inr a False e again r(2) by (cases res) (auto simp: Let_def room_def)
    qed
  qed
qed simp



section \<open>A string that is one command list\<close>

lemma push_feeds: "feeds (g_parsefile (push_string str ps)) str"
  by (simp add: feeds_def)

lemma at_end_eof: "at_end st \<Longrightarrow> parser_eof st \<and> rest [] (g_parsefile st)"
  by (simp add: at_end_def parser_eof_def)

lemma evalstring_loop_tree:
  assumes "ok_list l" "length (spell (k_list l)) < k" "feeds (g_parsefile ps) (spell (k_list l))"
  shows "map_prod (map_sum (map_sum id fst) fst) id (evalstring_loop (Suc (Suc j)) k ev may_exit status ps s) =
     map_prod (map_sum Inr fst) id (ev (Some (t_list l)) may_exit s)"
proof -
  obtain ps1 where p1: "parsecmd k ps = Inr ((Some (t_list l), False), ps1)" "at_end ps1" using parsecmd_tree [OF assms] by blast
  obtain ps2 where p2: "parsecmd k ps1 = Inr ((None, True), ps2)" using parsecmd_eof [of ps1 k] at_end_eof [OF p1(2)] assms(2) by auto
  show ?thesis using p1 p2 at_end_eof [OF p1(2)] by (cases "ev (Some (t_list l)) may_exit s") (auto split: sum.splits simp: Let_def)
qed

text \<open>C4: Running the text of a well-formed command list runs its tree, once: with the right to end the process exactly
  when the caller gave it, since nothing follows; the status, or the exception, is the one of the command.\<close>

theorem evalstring_runs_tree:
  assumes "ok_list l" and "length (spell (k_list l)) + 1 < k"
  shows "map_prod (map_sum (map_sum id fst) fst) id (evalstring k ev may_exit (spell (k_list l)) ps s) =
     map_prod (map_sum Inr fst) id (ev (Some (t_list l)) may_exit s)"
proof -
  obtain j where j: "k = Suc (Suc j)" using less_imp_Suc_add [of 1 k] assms(2) by auto
  have "map_prod (map_sum (map_sum id fst) fst) id (evalstring k ev may_exit str ps s) = map_prod (map_sum (map_sum id fst) fst) id (evalstring_loop k k ev may_exit 0 (push_string str ps) s)" for str
    by (cases "evalstring_loop k k ev may_exit 0 (push_string str ps) s") (auto simp: evalstring_def sum.map_comp map_sum_def split: sum.splits)
  then show ?thesis using evalstring_loop_tree [OF assms(1) _ push_feeds, of k j] assms(2) j by simp
qed

theorem evalstring_runs_tree_witness:
  "map_prod (map_sum (map_sum id fst) fst) id (evalstring 201 (\<lambda>n e c. (if e then Inl n else Inr (3, False), Suc c)) False (spell (k_list sample_list)) (string_state ''exit 1'') (0 :: nat))
     = (Inr 3, 1)"
proof -
  have "ok_list sample_list" by code_simp
  moreover have "length (spell (k_list sample_list)) + 1 < 201" by code_simp
  ultimately have "map_prod (map_sum (map_sum id fst) fst) id (evalstring 201 (\<lambda>n e c. (if e then Inl n else Inr (3, False), Suc c)) False (spell (k_list sample_list)) (string_state ''exit 1'') (0 :: nat))
     = map_prod (map_sum Inr fst) id ((\<lambda>n e c. (if e then Inl n else Inr (3, False), Suc c)) (Some (t_list sample_list)) False 0)" by (rule evalstring_runs_tree)
  then show ?thesis by simp
qed

end
