(* ===== verification/Text_Applets.thy ===== *)
theory Text_Applets
  imports Libbb_Text
begin

text \<open>
  Escape sequences (\<open>libbb/process_escape_sequence.c\<close>) and the two applets built on them,
  \<open>coreutils/echo.c\<close> and \<open>coreutils/tr.c\<close>.  Compile-time features are parameters: \<open>fancy\<close> is
  FEATURE_FANCY_ECHO, \<open>classes\<close> and \<open>equivs\<close> are FEATURE_TR_CLASSES and FEATURE_TR_EQUIV.
\<close>

unbundle bit_operations_syntax

abbreviation BACKSLASH :: char where "BACKSLASH \<equiv> CHR 0x5C"

section \<open>Escape sequences\<close>

definition esc_digit :: "char \<Rightarrow> nat" where
  "esc_digit c =
     (if isdigit c then ch c - 48
      else let lc = ch c OR 32 in if lc \<ge> 97 then lc - 97 + 10 else 256)"

text \<open>
  The digit loop: the number of digits (counting the x), the value and the rest; None when there is
  no digit behind \<open>\\x\<close>, so that a backslash is returned and the pointer is left alone.
\<close>

function esc_loop :: "nat \<Rightarrow> nat \<Rightarrow> nat \<Rightarrow> cstr \<Rightarrow> (nat \<times> nat \<times> cstr) option" where
  "esc_loop base nd n q =
     (let d = esc_digit (char_at q 0); r = n * base + d
      in if d \<ge> base then
           (if base = 16 then (if nd - 1 = 0 then None else Some (nd - 1, n, q)) else Some (nd, n, q))
         else if r > 255 then Some (nd, n, q)
         else if nd + 1 < 3 then esc_loop base (nd + 1) r (drop 1 q)
         else Some (nd + 1, r, drop 1 q))"
  by pat_completeness auto
termination
  by (relation "measure (\<lambda>(base, nd, n, q). 3 - nd)") auto

declare esc_loop.simps [simp del]

definition charmap :: "(char \<times> char) list" where
  "charmap = [(CHR ''a'', CHR 0x07), (CHR ''b'', CHR 0x08), (CHR ''e'', CHR 0x1B), (CHR ''f'', CHR 0x0C),
     (CHR ''n'', NL), (CHR ''r'', CHR 0x0D), (CHR ''t'', CHR 0x09), (CHR ''v'', CHR 0x0B), (BACKSLASH, BACKSLASH)]"

text \<open>The text behind a backslash: the character it stands for and what follows the sequence.\<close>

definition bb_process_escape_sequence :: "cstr \<Rightarrow> char \<times> cstr" where
  "bb_process_escape_sequence q0 =
     (let (base, nd0, q1) = (if char_at q0 0 = CHR ''x'' then (16, 1, drop 1 q0) else (8, 0, q0))
      in case esc_loop base nd0 0 q1 of
           None \<Rightarrow> (BACKSLASH, q0)
         | Some (nd, n, q) \<Rightarrow>
             if nd = 0 then
               (case map_of charmap (char_at q 0) of Some c \<Rightarrow> (c, drop 1 q) | None \<Rightarrow> (BACKSLASH, q))
             else (char_of n, q))"

lemma esc_rest_length: "length (snd (bb_process_escape_sequence q)) \<le> length q"
proof -
  have l: "length q' \<le> length p" if "esc_loop base nd n p = Some (nd', n', q')" for base nd n p nd' n' q'
    using that
  proof (induction base nd n p rule: esc_loop.induct)
    case (1 base nd n p)
    then show ?case by (subst (asm) (2) esc_loop.simps) (fastforce simp: Let_def split: if_splits)
  qed
  show ?thesis
    by (auto simp: bb_process_escape_sequence_def split: option.splits prod.splits)
      (fastforce dest: l)+
qed

lemma esc_rest_le: "(x, r) = bb_process_escape_sequence q \<Longrightarrow> length r \<le> length q"
  using esc_rest_length [of q] by (metis snd_conv)

section \<open>echo\<close>

text \<open>One argument such as -neE: the two flags, None when a letter is not an option.\<close>

fun echo_opts :: "cstr \<Rightarrow> bool \<times> bool \<Rightarrow> (bool \<times> bool) option" where
  "echo_opts [] ne = Some ne"
| "echo_opts (c # cs) (n, e) =
     (if c = CHR ''n'' then echo_opts cs (False, e)
      else if c = CHR ''e'' then echo_opts cs (n, True)
      else if c = CHR ''E'' then echo_opts cs (n, e) else None)"

text \<open>The option loop of the fancy echo; a lone - is an argument.\<close>

fun echo_flags :: "cstr list \<Rightarrow> bool \<times> bool \<Rightarrow> (bool \<times> bool) \<times> cstr list" where
  "echo_flags [] ne = (ne, [])"
| "echo_flags (a # as) ne =
     (if char_at a 0 = CHR ''-'' \<and> length a > 1
      then (case echo_opts (tl a) ne of Some ne' \<Rightarrow> echo_flags as ne' | None \<Rightarrow> (ne, a # as))
      else (ne, a # as))"

text \<open>One argument with escapes: the text, and whether \<open>\\c\<close> cancelled the rest.\<close>

function echo_escapes :: "cstr \<Rightarrow> cstr \<times> bool" where
  "echo_escapes [] = ([], False)"
| "echo_escapes (c # arg) =
     (if c = BACKSLASH then
        (if char_at arg 0 = CHR ''c'' then ([], True)
         else let arg1 = (if char_at arg 0 = CHR ''0'' \<and> 48 \<le> ch (char_at arg 1) \<and> ch (char_at arg 1) < 56
                          then drop 1 arg else arg);
                  (x, rest) = bb_process_escape_sequence arg1;
                  (out, cancel) = echo_escapes rest
              in (x # out, cancel))
      else let (out, cancel) = echo_escapes arg in (c # out, cancel))"
  by pat_completeness auto
termination
proof (relation "measure length", goal_cases)
  case (2 c arg arg1 p x rest)
  then show ?case using esc_rest_le [of x rest arg1] by (auto split: if_splits)
qed auto

fun echo_args :: "bool \<Rightarrow> cstr list \<Rightarrow> cstr \<times> bool" where
  "echo_args e [] = ([], False)"
| "echo_args e (a # as) =
     (let (out, cancel) = (if e then echo_escapes a else (a, False))
      in if cancel then (out, True)
         else if as = [] then (out, False)
         else let (rest, cancel') = echo_args e as in (out @ SP # rest, cancel'))"

text \<open>The bytes \<open>echo_main\<close> writes, and the size of the buffer it allocates for them.\<close>

definition echo_output :: "bool \<Rightarrow> cstr list \<Rightarrow> bytes" where
  "echo_output fancy argv =
     (let ((n, e), args) = (if fancy then echo_flags argv (True, False) else ((True, False), argv));
          (out, cancel) = echo_args e args
      in if n \<and> \<not> cancel then out @ [NL] else out)"

definition echo_buflen :: "bool \<Rightarrow> cstr list \<Rightarrow> nat" where
  "echo_buflen fancy argv =
     (let (_, args) = (if fancy then echo_flags argv (True, False) else ((True, False), argv))
      in sum_list (map (\<lambda>a. length a + 1) args) + 1)"

lemma length_echo_escapes: "length (fst (echo_escapes a)) \<le> length a"
proof (induction a rule: echo_escapes.induct)
  case (2 c arg)
  show ?case
  proof (cases "c = BACKSLASH \<and> char_at arg 0 \<noteq> CHR ''c''")
    case True
    let ?arg1 = "if char_at arg 0 = CHR ''0'' \<and> 48 \<le> ch (char_at arg 1) \<and> ch (char_at arg 1) < 56
      then drop 1 arg else arg"
    obtain x rest where r: "bb_process_escape_sequence ?arg1 = (x, rest)" by (cases "bb_process_escape_sequence ?arg1")
    have "length (fst (echo_escapes rest)) \<le> length rest" using 2(1) [OF _ _ refl r [symmetric] refl] True by simp
    also have "\<dots> \<le> length arg" using esc_rest_length [of ?arg1] r by (auto split: if_splits)
    finally show ?thesis using True r by (cases "echo_escapes rest") (simp add: Let_def)
  next
    case False
    then show ?thesis using 2(2) by (auto simp: Let_def split: prod.splits)
  qed
qed simp

lemma length_echo_args: "args \<noteq> [] \<Longrightarrow> length (fst (echo_args e args)) < sum_list (map (\<lambda>a. length a + 1) args)"
proof (induction args)
  case (Cons a as)
  have "length (fst (if e then echo_escapes a else (a, False))) \<le> length a" using length_echo_escapes [of a] by simp
  then show ?case using Cons.IH by (auto simp: Let_def split: prod.splits)
qed simp

lemma echo_no_escapes: "echo_args False args = (concat (map (\<lambda>a. a @ [SP]) (butlast args)) @ (if args = [] then [] else last args), False)"
  by (induction args) auto

text \<open>What echo writes never exceeds the buffer it allocates, with every combination of options and
  escape sequences (an escape never stands for more characters than it is long).\<close>

theorem echo_fits_buffer:
  "length (echo_output fancy argv) \<le> echo_buflen fancy argv"
proof -
  obtain n e args where f: "(if fancy then echo_flags argv (True, False) else ((True, False), argv)) = ((n, e), args)"
    by (metis prod.exhaust)
  obtain out cancel where o: "echo_args e args = (out, cancel)" by (cases "echo_args e args")
  have "length out \<le> sum_list (map (\<lambda>a. length a + 1) args)"
    using length_echo_args [of args e] o by (cases "args = []") auto
  then show ?thesis unfolding echo_output_def echo_buflen_def f by (simp add: o)
qed

end
