(* ===== verification/Tr.thy ===== *)
theory Tr
  imports Text_Applets
begin

text \<open>
  The tr applet, \<open>coreutils/tr.c\<close>: the expansion of a set, the complement, the translation table and
  the filter loop.  The input arrives as the chunks that successive reads deliver.
\<close>

unbundle bit_operations_syntax

section \<open>Definitions\<close>

fun map_table :: "(char \<Rightarrow> char) \<Rightarrow> char \<Rightarrow> cstr \<Rightarrow> cstr \<Rightarrow> char \<Rightarrow> char" where
  "map_table vec lst [] s2 = vec"
| "map_table vec lst (c # s1) [] = map_table (vec(c := lst)) lst s1 []"
| "map_table vec lst (c # s1) (d # s2) = map_table (vec(c := d)) d s1 s2"

definition codes :: "nat \<Rightarrow> nat \<Rightarrow> cstr" where
  "codes a b = map char_of [a..<b + 1]"

definition ispunct_ascii :: "nat \<Rightarrow> bool" where
  "ispunct_ascii i \<longleftrightarrow> 32 \<le> i \<and> i \<le> 126 \<and> \<not> isalnum (char_of i) \<and> \<not> isspace (char_of i)"

definition class_chars :: "(cstr \<times> cstr) list" where
  "class_chars =
     [(''alpha:]'', codes 65 90 @ codes 97 122), (''alnum:]'', codes 48 57 @ codes 65 90 @ codes 97 122),
      (''digit:]'', codes 48 57), (''lower:]'', codes 97 122), (''upper:]'', codes 65 90),
      (''space:]'', [CHR 0x09, NL, CHR 0x0B, CHR 0x0C, CHR 0x0D, SP]), (''blank:]'', [CHR 0x09, SP]),
      (''punct:]'', map char_of (filter ispunct_ascii [0..<256])),
      (''cntrl:]'', map char_of (filter (\<lambda>i. i < 32 \<or> i = 127) [0..<256])),
      (''xdigit:]'', codes 48 57 @ codes 65 70 @ codes 97 102)]"

text \<open>The class named behind \<open>[:\<close>: its characters and the length of the name with its bracket.\<close>

definition class_at :: "cstr \<Rightarrow> (cstr \<times> nat) option" where
  "class_at t = (let i = 7 + (if char_at t 0 = CHR ''x'' then 1 else 0)
                 in map_option (\<lambda>cs. (cs, i)) (map_of class_chars (take i t)))"

text \<open>An escape sequence at the start is replaced, in the text, by the character it stands for.\<close>

definition unescape_head :: "cstr \<Rightarrow> cstr" where
  "unescape_head arg =
     (if char_at arg 0 = BACKSLASH then (let (ac, z) = bb_process_escape_sequence (drop 1 arg) in ac # z) else arg)"

text \<open>
  The rest of one turn of the loop of \<open>expand\<close>: the characters it appends and the rest of the text;
  the usage message of a malformed \<open>[=c=]\<close> ends the program.
\<close>

definition expand_at :: "bool \<Rightarrow> bool \<Rightarrow> cstr \<Rightarrow> (cstr \<times> cstr) outcome" where
  "expand_at classes equivs arg =
     (if char_at arg 1 = CHR ''-'' then
        (if char_at arg 2 = NUL then Returns ([char_at arg 0], drop 1 arg)
         else let (ac, rest) = (if char_at arg 2 = BACKSLASH then bb_process_escape_sequence (drop 3 arg)
                                else (char_at arg 2, drop 3 arg))
              in Returns (map char_of [ch (char_at arg 0)..<ch ac + 1], rest))
      else if classes \<and> char_at arg 0 = CHR ''['' \<and> char_at arg 1 = CHR '':'' then
        (case class_at (drop 2 arg) of
           Some (cs, i) \<Rightarrow> Returns (cs, drop (2 + i) arg)
         | None \<Rightarrow> Returns ([char_at arg 0], drop 1 arg))
      else if equivs \<and> char_at arg 0 = CHR ''['' \<and> char_at arg 1 = CHR ''='' then
        (if char_at arg 2 = NUL \<or> char_at arg 3 \<noteq> CHR ''='' \<or> char_at arg 4 \<noteq> CHR '']'' then Exits 1
         else Returns ([char_at arg 2], drop 5 arg))
      else Returns ([char_at arg 0], drop 1 arg))"

definition expand_step :: "bool \<Rightarrow> bool \<Rightarrow> cstr \<Rightarrow> (cstr \<times> cstr) outcome" where
  "expand_step classes equivs arg = expand_at classes equivs (unescape_head arg)"

lemma length_unescape_head: "arg \<noteq> [] \<Longrightarrow> unescape_head arg \<noteq> [] \<and> length (unescape_head arg) \<le> length arg"
proof (cases arg)
  case (Cons c s)
  obtain ac z where z: "bb_process_escape_sequence s = (ac, z)" by (cases "bb_process_escape_sequence s")
  then have "length z \<le> length s" using esc_rest_le [of ac z s] by simp
  then show ?thesis using Cons z by (simp add: unescape_head_def)
qed simp

lemma expand_step_rest:
  assumes "expand_step classes equivs arg = Returns (cs, rest)" and "arg \<noteq> []"
  shows "length rest < length arg"
proof -
  define a1 where "a1 = unescape_head arg"
  have a1: "a1 \<noteq> []" "length a1 \<le> length arg" using length_unescape_head [OF assms(2)] by (simp_all add: a1_def)
  have d: "length (drop n a1) < length a1" if "0 < n" for n using a1(1) that by simp
  have esc: "length rest < length a1" if "bb_process_escape_sequence (drop 3 a1) = (x, rest)" for x
    using esc_rest_le [OF that [symmetric]] d [of 3] by simp
  have "length rest < length a1"
    using assms(1) d esc unfolding expand_step_def a1_def [symmetric] expand_at_def Let_def
    by (auto simp del: length_drop split: if_splits prod.splits option.splits)
  with a1(2) show ?thesis by simp
qed

text \<open>The whole of \<open>expand\<close>; the list \<open>acc\<close> is the buffer filled so far.\<close>

function expand :: "bool \<Rightarrow> bool \<Rightarrow> cstr \<Rightarrow> cstr \<Rightarrow> cstr outcome" where
  "expand classes equivs arg acc =
     (if arg = [] then Returns acc
      else case expand_step classes equivs arg of
             Returns (cs, rest) \<Rightarrow> expand classes equivs rest (acc @ cs)
           | Exits n \<Rightarrow> Exits n
           | Undefined \<Rightarrow> Undefined)"
  by pat_completeness auto
termination
  by (relation "measure (\<lambda>(classes, equivs, arg, acc). length arg)") (auto dest: expand_step_rest)

declare expand.simps [simp del]

definition complement :: "cstr \<Rightarrow> cstr" where
  "complement buffer = filter (\<lambda>c. c \<notin> set buffer) (map char_of [0..<256])"

text \<open>The tables of \<open>tr_main\<close>: translation, members of the first and of the second set.\<close>

record tr_tables =
  tr_vector :: "char \<Rightarrow> char"
  tr_invec :: "char \<Rightarrow> bool"
  tr_outvec :: "char \<Rightarrow> bool"

record tr_opts =
  opt_complement :: bool
  opt_delete :: bool
  opt_squeeze :: bool

definition tr_setup :: "bool \<Rightarrow> bool \<Rightarrow> tr_opts \<Rightarrow> cstr \<Rightarrow> cstr option \<Rightarrow> tr_tables outcome" where
  "tr_setup classes equivs opts arg1 arg2 =
     (case expand classes equivs arg1 [] of
        Returns str1 \<Rightarrow>
          (let s1 = (if opt_complement opts then complement str1 else str1)
           in case arg2 of
                None \<Rightarrow> Returns \<lparr>tr_vector = id, tr_invec = (\<lambda>c. c \<in> set s1), tr_outvec = (\<lambda>c. False)\<rparr>
              | Some a2 \<Rightarrow>
                  if a2 = [] then Exits 1
                  else (case expand classes equivs a2 [] of
                          Returns s2 \<Rightarrow>
                            Returns \<lparr>tr_vector = map_table id (CHR ''0'') s1 s2, tr_invec = (\<lambda>c. c \<in> set s1),
                                     tr_outvec = (\<lambda>c. c \<in> set s2)\<rparr>
                        | Exits n \<Rightarrow> Exits n
                        | Undefined \<Rightarrow> Undefined))
      | Exits n \<Rightarrow> Exits n
      | Undefined \<Rightarrow> Undefined)"

text \<open>The filter loop over one chunk; the state is \<open>last\<close> (None for the initial UCHAR_MAX + 1).\<close>

fun tr_chunk :: "tr_opts \<Rightarrow> tr_tables \<Rightarrow> char option \<Rightarrow> bytes \<Rightarrow> bytes \<times> char option" where
  "tr_chunk opts T lst [] = ([], lst)"
| "tr_chunk opts T lst (c # cs) =
     (if opt_delete opts \<and> tr_invec T c then tr_chunk opts T lst cs
      else let coded = tr_vector T c
           in if opt_squeeze opts \<and> lst = Some coded \<and> (tr_invec T c \<or> tr_outvec T coded)
              then tr_chunk opts T lst cs
              else let (out, lst') = tr_chunk opts T (Some coded) cs in (coded # out, lst'))"

text \<open>The reads of the outer loop: every chunk is filtered and its output written; an empty read is the end of
  the input.\<close>

fun tr_loop :: "tr_opts \<Rightarrow> tr_tables \<Rightarrow> char option \<Rightarrow> bytes list \<Rightarrow> bytes list" where
  "tr_loop opts T lst [] = []"
| "tr_loop opts T lst (chunk # chunks) =
     (if chunk = [] then []
      else let (out, lst') = tr_chunk opts T lst chunk
           in (if out = [] then [] else [out]) @ tr_loop opts T lst' chunks)"

definition tr_main :: "bool \<Rightarrow> bool \<Rightarrow> tr_opts \<Rightarrow> cstr \<Rightarrow> cstr option \<Rightarrow> bytes list \<Rightarrow> bytes list outcome" where
  "tr_main classes equivs opts arg1 arg2 chunks =
     (case tr_setup classes equivs opts arg1 arg2 of
        Returns T \<Rightarrow> Returns (tr_loop opts T None chunks)
      | Exits n \<Rightarrow> Exits n
      | Undefined \<Rightarrow> Undefined)"

section \<open>The buffer of expand\<close>

text \<open>
  \<open>expand\<close> makes sure before every turn that 256 more characters fit: no turn appends more.
\<close>

lemma length_class_chars: "\<forall>(n, cs)\<in>set class_chars. length cs \<le> 256"
proof -
  have "length (filter P [0..<256 :: nat]) \<le> 256" for P using length_filter_le [of P "[0..<256]"] by simp
  then show ?thesis by (simp add: class_chars_def codes_def del: upt_Suc)
qed

lemma ch_less: "ch c < 256"
  by (simp add: ch_def)

lemma expand_step_fits:
  assumes "expand_step classes equivs arg = Returns (cs, rest)"
  shows "length cs \<le> 256"
proof -
  have m: "length x \<le> 256" if "class_at t = Some (x, i)" for t x i
    using that length_class_chars by (auto simp: class_at_def Let_def dest!: map_of_SomeD)
  have r: "length (map char_of [ch a..<ch b + 1]) \<le> 256" for a b
    unfolding length_map length_upt using ch_less [of b] by linarith
  show ?thesis using assms m r
    unfolding expand_step_def expand_at_def Let_def
    by (auto simp del: upt_Suc length_map length_upt split: if_splits prod.splits option.splits)
qed

section \<open>Chunks do not matter\<close>

lemma tr_chunk_append:
  "tr_chunk opts T lst (xs @ ys) =
    (let (o1, l1) = tr_chunk opts T lst xs; (o2, l2) = tr_chunk opts T l1 ys in (o1 @ o2, l2))"
  by (induction opts T lst xs rule: tr_chunk.induct) (auto simp: Let_def split: prod.splits)

text \<open>What is read: everything before the first empty read.\<close>

definition read_in :: "bytes list \<Rightarrow> bytes" where
  "read_in chunks = concat (takeWhile (\<lambda>c. c \<noteq> []) chunks)"

lemma tr_loop_concat: "concat (tr_loop opts T lst chunks) = fst (tr_chunk opts T lst (read_in chunks))"
proof (induction chunks arbitrary: lst)
  case (Cons c chunks)
  then show ?case by (auto simp: read_in_def tr_chunk_append Let_def split: prod.splits)
qed (simp add: read_in_def)

text \<open>The reference: delete, translate, and drop a squeezable character that repeats the output.\<close>

lemma tr_chunk_translate:
  "\<not> opt_squeeze opts \<Longrightarrow>
    fst (tr_chunk opts T lst xs) = map (tr_vector T) (filter (\<lambda>c. \<not> (opt_delete opts \<and> tr_invec T c)) xs)"
  by (induction opts T lst xs rule: tr_chunk.induct) (auto simp: Let_def split: prod.splits)

lemma tr_chunk_no_repeats:
  assumes "opt_squeeze opts" and "\<And>c. tr_vector T c = x \<Longrightarrow> tr_invec T c \<or> tr_outvec T x"
  shows "\<not> sublist [x, x] (fst (tr_chunk opts T lst xs)) \<and>
    (lst = Some x \<longrightarrow> \<not> prefix [x] (fst (tr_chunk opts T lst xs)))"
proof (induction xs arbitrary: lst)
  case (Cons c xs)
  obtain out l where t: "tr_chunk opts T (Some (tr_vector T c)) xs = (out, l)" by (cases "tr_chunk opts T (Some (tr_vector T c)) xs")
  note ih = Cons.IH [of "Some (tr_vector T c)", unfolded t]
  show ?case
  proof (cases "(opt_delete opts \<and> tr_invec T c) \<or> (lst = Some (tr_vector T c) \<and> (tr_invec T c \<or> tr_outvec T (tr_vector T c)))")
    case True
    then have e: "tr_chunk opts T lst (c # xs) = tr_chunk opts T lst xs" using assms(1) by (auto simp: Let_def)
    show ?thesis unfolding e by (rule Cons.IH)
  next
    case False
    then have e: "tr_chunk opts T lst (c # xs) = (tr_vector T c # out, l)" using assms(1) t by (auto simp: Let_def)
    have "lst = Some x \<Longrightarrow> tr_vector T c \<noteq> x" using False assms(2) [of c] by auto
    then show ?thesis unfolding e using ih by (auto simp: sublist_Cons_right)
  qed
qed simp


abbreviation no_opts :: tr_opts where
  "no_opts \<equiv> \<lparr>opt_complement = False, opt_delete = False, opt_squeeze = False\<rparr>"

lemma expand_upper: "expand True True ''a-z'' [] = Returns (codes 97 122)" "expand True True ''A-Z'' [] = Returns (codes 65 90)"
  by code_simp+


end
