(* ===== verification/Cut.thy ===== *)
theory Cut
  imports Libbb_Num Sort
begin

text \<open>
  The cut applet, \<open>coreutils/cut.c\<close>, without FEATURE_CUT_REGEX as in the build: the list of positions,
  the cut by characters, by lines and by fields.  Positions are ints as in the code.
\<close>

section \<open>Definitions\<close>

record cut_list =
  startpos :: int
  endpos :: int

definition cmpfunc :: "cut_list \<Rightarrow> cut_list \<Rightarrow> int" where
  "cmpfunc a b = startpos a - startpos b"

text \<open>Cut by characters: \<open>printed\<close> is the set of the positions marked so far.\<close>

function cut_range :: "cstr \<Rightarrow> int \<Rightarrow> int \<Rightarrow> nat set \<Rightarrow> bytes \<times> nat set" where
  "cut_range line spos ep printed =
     (if spos < int (length line) then
        (let out = (if nat spos \<in> printed then [] else [line ! nat spos]);
             printed' = insert (nat spos) printed
         in if spos + 1 > ep then (out, printed')
            else let (out', p') = cut_range line (spos + 1) ep printed' in (out @ out', p'))
      else ([], printed))"
  by pat_completeness auto
termination
  by (relation "measure (\<lambda>(line, spos, ep, printed). nat (int (length line) - spos))") auto

declare cut_range.simps [simp del]

fun cut_chars :: "cstr \<Rightarrow> cut_list list \<Rightarrow> nat set \<Rightarrow> bytes" where
  "cut_chars line [] printed = []"
| "cut_chars line (cl # cls) printed =
     (let (out, printed') = cut_range line (startpos cl) (endpos cl) printed
      in out @ cut_chars line cls printed')"

text \<open>Cut by lines: is line number \<open>linenum\<close> printed?  \<open>spos\<close> and the lists are the loop variables.\<close>

function cut_line_loop :: "int \<Rightarrow> int \<Rightarrow> cut_list \<Rightarrow> cut_list list \<Rightarrow> bool" where
  "cut_line_loop linenum spos cl cls =
     (if spos < linenum then
        (if spos + 1 > endpos cl then
           (case cls of
              [] \<Rightarrow> False
            | cl' # cls' \<Rightarrow> if linenum < startpos cl' then False else cut_line_loop linenum (startpos cl') cl' cls')
         else cut_line_loop linenum (spos + 1) cl cls)
      else True)"
  by pat_completeness auto
termination
  by (relation "measures [\<lambda>(linenum, spos, cl, cls). length cls, \<lambda>(linenum, spos, cl, cls). nat (linenum - spos)]") auto

declare cut_line_loop.simps [simp del]

definition cut_by_line :: "cut_list list \<Rightarrow> int \<Rightarrow> cstr \<Rightarrow> bytes" where
  "cut_by_line cls linenum line =
     (case cls of
        [] \<Rightarrow> []
      | cl # cls' \<Rightarrow>
          if linenum < startpos cl then []
          else if cut_line_loop linenum (startpos cl) cl cls' then line @ [NL] else [])"

text \<open>
  Cut by fields.  The loop variables: \<open>uu\<close> the next byte, the field under way from \<open>start\<close> to \<open>end\<close>, the
  number of delimiters passed, whether a field was printed, and the current list.
\<close>

record cf_state =
  cf_uu :: nat
  cf_start :: nat
  cf_end :: nat
  cf_dcount :: int
  cf_out :: bool
  cf_pos :: nat

definition cf_init :: cf_state where
  "cf_init = \<lparr>cf_uu = 0, cf_start = 0, cf_end = 0, cf_dcount = 0, cf_out = False, cf_pos = 0\<rparr>"

record cut_opts =
  co_nosort :: bool
  co_suppress :: bool
  co_delim :: char
  co_odelim :: cstr

text \<open>The test for the end of the current range; None is the break of the last list.\<close>

definition cf_next_list :: "cut_opts \<Rightarrow> cut_list list \<Rightarrow> cstr \<Rightarrow> cf_state \<Rightarrow> cf_state option" where
  "cf_next_list opts cls line st =
     (if cf_end st = length line \<or> cf_dcount st > endpos (cls ! cf_pos st) then
        (if cf_pos st + 1 \<ge> length cls then None
         else let st1 = st\<lparr>cf_pos := cf_pos st + 1, cf_end := 0\<rparr>
              in Some (if co_nosort opts then st1\<lparr>cf_start := 0, cf_dcount := 0, cf_uu := 0\<rparr> else st1))
      else Some st)"

datatype cf_step = CfContinue cf_state | CfPrint cf_state | CfSuppress

text \<open>The search for the next delimiter: go on, print the field found, or skip the line.\<close>

definition cf_search :: "cut_opts \<Rightarrow> cut_list list \<Rightarrow> cstr \<Rightarrow> cf_state \<Rightarrow> cf_step" where
  "cf_search opts cls line st =
     (if cf_uu st = length line then
        (if cf_pos st = 0 \<and> cf_dcount st = 0 then
           (if co_suppress opts then CfSuppress else CfPrint (st\<lparr>cf_end := length line\<rparr>))
         else if cf_dcount st < startpos (cls ! cf_pos st)
              then CfPrint (st\<lparr>cf_start := length line, cf_end := length line\<rparr>)
              else CfPrint (st\<lparr>cf_end := length line\<rparr>))
      else let st1 = st\<lparr>cf_end := cf_uu st, cf_uu := cf_uu st + 1\<rparr>
           in if line ! cf_uu st \<noteq> co_delim opts then CfContinue st1
              else if cf_dcount st < startpos (cls ! cf_pos st)
                   then CfContinue (st1\<lparr>cf_dcount := cf_dcount st + 1, cf_start := cf_uu st + 1\<rparr>)
                   else CfPrint (st1\<lparr>cf_dcount := cf_dcount st + 1\<rparr>))"

definition cf_field :: "cut_opts \<Rightarrow> cstr \<Rightarrow> cf_state \<Rightarrow> bytes" where
  "cf_field opts line st =
     (if cf_out st then co_odelim opts else []) @ take (cf_end st - cf_start st) (drop (cf_start st) line)"

definition cf_after :: "cf_state \<Rightarrow> cf_state" where
  "cf_after st = st\<lparr>cf_out := True, cf_start := cf_uu st\<rparr>"

text \<open>
  The loop; the flag says whether the newline behind the line is printed (not after \<open>goto next_line\<close>).
  \<open>uu\<close> never passes the length of the line; the first test only makes the recursion well founded.
\<close>

lemma cf_next_list_facts:
  "cf_next_list opts cls line st = Some st1 \<Longrightarrow>
    (st1 = st \<and> cf_end st \<noteq> length line) \<or> (cf_pos st1 = cf_pos st + 1 \<and> cf_pos st1 < length cls \<and> cf_uu st1 \<le> cf_uu st)"
  by (auto simp: cf_next_list_def Let_def split: if_splits)

definition cf_measure :: "cut_list list \<Rightarrow> cstr \<Rightarrow> cf_state \<Rightarrow> (nat \<times> nat \<times> nat)" where
  "cf_measure cls line st =
     (length cls - cf_pos st, length line - cf_uu st, if cf_end st = length line then 0 else 1)"

lemma cf_search_facts:
  assumes "cf_search opts cls line st1 = CfContinue st2 \<or> cf_search opts cls line st1 = CfPrint st2"
    and "cf_uu st1 \<le> length line"
  shows "cf_pos st2 = cf_pos st1 \<and> (cf_uu st1 < length line \<and> cf_uu st2 = cf_uu st1 + 1 \<or>
    cf_uu st1 = length line \<and> cf_uu st2 = length line \<and> cf_end st2 = length line)"
  using assms by (auto simp: cf_search_def Let_def split: if_splits)

function cut_fields :: "cut_opts \<Rightarrow> cut_list list \<Rightarrow> cstr \<Rightarrow> cf_state \<Rightarrow> bytes \<times> bool" where
  "cut_fields opts cls line st =
     (if length line < cf_uu st then ([], True) else
      case cf_next_list opts cls line st of
        None \<Rightarrow> ([], True)
      | Some st1 \<Rightarrow>
          (case cf_search opts cls line st1 of
             CfSuppress \<Rightarrow> ([], False)
           | CfContinue st2 \<Rightarrow> cut_fields opts cls line st2
           | CfPrint st2 \<Rightarrow>
               if cf_dcount st2 = 0 then (cf_field opts line st2, True)
               else let (out, nl) = cut_fields opts cls line (cf_after st2)
                    in (cf_field opts line st2 @ out, nl)))"
  by pat_completeness auto
termination
proof (relation "inv_image (less_than <*lex*> less_than <*lex*> less_than) (\<lambda>(opts, cls, line, st). cf_measure cls line st)", goal_cases)
  case (2 opts cls line st st1 st2)
  show ?case
    using cf_next_list_facts [of opts cls line st st1] cf_search_facts [of opts cls line st1 st2] 2
    by (auto simp: cf_measure_def)
next
  case (3 opts cls line st st1 st2)
  show ?case
    using cf_next_list_facts [of opts cls line st st1] cf_search_facts [of opts cls line st1 st2] 3
    by (auto simp: cf_measure_def cf_after_def)
qed auto

declare cut_fields.simps [simp del]

text \<open>One line of \<open>cut_file\<close>; \<open>bychar\<close> says that -b or -c was given.\<close>

definition cut_one_line :: "bool \<Rightarrow> cut_opts \<Rightarrow> cut_list list \<Rightarrow> int \<Rightarrow> cstr \<Rightarrow> bytes" where
  "cut_one_line bychar opts cls linenum line =
     (if bychar then cut_chars line cls {} @ [NL]
      else if co_delim opts = NL then cut_by_line cls linenum line
      else let (out, nl) = cut_fields opts cls line cf_init in out @ (if nl then [NL] else []))"

fun cut_lines :: "bool \<Rightarrow> cut_opts \<Rightarrow> cut_list list \<Rightarrow> int \<Rightarrow> cstr list \<Rightarrow> bytes" where
  "cut_lines bychar opts cls linenum [] = []"
| "cut_lines bychar opts cls linenum (l # ls) =
     cut_one_line bychar opts cls linenum l @ cut_lines bychar opts cls (linenum + 1) ls"

definition cut_file :: "bool \<Rightarrow> cut_opts \<Rightarrow> cut_list list \<Rightarrow> bytes \<Rightarrow> bytes" where
  "cut_file bychar opts cls file = cut_lines bychar opts cls 0 (file_lines file)"

section \<open>The list of positions\<close>

text \<open>The pieces that \<open>strsep\<close> with one separator hands out.\<close>

fun strsep_all :: "char \<Rightarrow> cstr \<Rightarrow> cstr list" where
  "strsep_all c [] = [[]]"
| "strsep_all c (x # s) =
     (if x = c then [] # strsep_all c s
      else (case strsep_all c s of [] \<Rightarrow> [[x]] | p # ps \<Rightarrow> (x # p) # ps))"

definition cut_start :: "cstr \<Rightarrow> int outcome" where
  "cut_start ntok =
     (if ntok = [] then Returns 0
      else case xatoi_positive ntok of Returns s \<Rightarrow> Returns (if s \<noteq> 0 then s - 1 else s) | e \<Rightarrow> e)"

definition cut_end :: "int \<Rightarrow> cstr option \<Rightarrow> int outcome" where
  "cut_end s ltok =
     (case ltok of
        None \<Rightarrow> Returns s
      | Some [] \<Rightarrow> Returns INT_MAX
      | Some t \<Rightarrow> (case xatoi_positive t of Returns e \<Rightarrow> if e < s then Exits 1 else Returns (e - 1) | err \<Rightarrow> err))"

definition cut_piece :: "cstr \<Rightarrow> cut_list outcome" where
  "cut_piece tok =
     (let ntok = takeWhile (\<lambda>c. c \<noteq> CHR ''-'') tok;
          ltok = map_option tl (strchr tok (CHR ''-''))
      in case cut_start ntok of
           Returns s \<Rightarrow>
             (case cut_end s ltok of Returns e \<Rightarrow> Returns \<lparr>startpos = s, endpos = e\<rparr> | Exits n \<Rightarrow> Exits n | Undefined \<Rightarrow> Undefined)
         | Exits n \<Rightarrow> Exits n | Undefined \<Rightarrow> Undefined)"

fun cut_pieces :: "cstr list \<Rightarrow> cut_list list outcome" where
  "cut_pieces [] = Returns []"
| "cut_pieces (tok # toks) =
     (if tok = [] then cut_pieces toks
      else case cut_piece tok of
             Returns cl \<Rightarrow> (case cut_pieces toks of Returns cls \<Rightarrow> Returns (cl # cls) | Exits n \<Rightarrow> Exits n | Undefined \<Rightarrow> Undefined)
           | Exits n \<Rightarrow> Exits n | Undefined \<Rightarrow> Undefined)"

text \<open>
  \<open>cut_main\<close> for the options given: \<open>bychar\<close> for -b and -c, else -f; \<open>delim\<close> and \<open>odelim\<close> are the
  arguments of -d and -O.
\<close>

definition cut_main ::
    "((cut_list \<Rightarrow> cut_list \<Rightarrow> int) \<Rightarrow> cut_list list \<Rightarrow> cut_list list) \<Rightarrow>
     bool \<Rightarrow> bool \<Rightarrow> bool \<Rightarrow> cstr option \<Rightarrow> cstr option \<Rightarrow> cstr \<Rightarrow> bytes list \<Rightarrow> bytes outcome" where
  "cut_main qsort bychar nosort suppress delim odelim sopt files =
     (let dstr = (case delim of Some (c # cs) \<Rightarrow> c # cs | _ \<Rightarrow> [CHR 0x09]);
          od = (case odelim of Some o1 \<Rightarrow> o1 | None \<Rightarrow> dstr);
          opts = \<lparr>co_nosort = nosort, co_suppress = suppress, co_delim = hd dstr, co_odelim = od\<rparr>
      in if bychar \<and> (suppress \<or> delim \<noteq> None) then Exits 1
         else case cut_pieces (strsep_all (CHR '','') sopt) of
                Returns cls \<Rightarrow>
                  if cls = [] then Exits 1
                  else (let sorted_cls = (if nosort then cls else qsort cmpfunc cls)
                        in Returns (concat (map (cut_file bychar opts sorted_cls) files)))
              | Exits n \<Rightarrow> Exits n | Undefined \<Rightarrow> Undefined)"

section \<open>Cut by characters\<close>

text \<open>The positions that one list covers: an end before the start still covers the start.\<close>

definition range_end :: "cut_list \<Rightarrow> cstr \<Rightarrow> nat" where
  "range_end cl line = min (length line) (nat (max (startpos cl) (endpos cl)) + 1)"

lemma cut_range_spec:
  "0 \<le> spos \<Longrightarrow> cut_range line spos ep printed =
    (map ((!) line) (filter (\<lambda>i. i \<notin> printed) [nat spos..<min (length line) (nat (max spos ep) + 1)]),
     printed \<union> {nat spos..<min (length line) (nat (max spos ep) + 1)})"
proof (induction line spos ep printed rule: cut_range.induct)
  case (1 line spos ep printed)
  show ?case
  proof (cases "spos < int (length line)")
    case False
    then show ?thesis using 1(2) by (subst cut_range.simps) auto
  next
    case True
    let ?hi = "min (length line) (nat (max spos ep) + 1)"
    have lt: "nat spos < ?hi" using True 1(2) by auto
    have up: "[nat spos..<?hi] = nat spos # [nat spos + 1..<?hi]" using upt_conv_Cons [OF lt] by simp
    have iv: "{nat spos..<?hi} = insert (nat spos) {nat spos + 1..<?hi}" using lt by auto
    show ?thesis
    proof (cases "spos + 1 > ep")
      case stop: True
      then have "?hi = nat spos + 1" using True 1(2) by auto
      then show ?thesis using True stop unfolding up iv by (subst cut_range.simps) (auto simp: Let_def)
    next
      case False
      have hi: "min (length line) (nat (max (spos + 1) ep) + 1) = ?hi" using False by auto
      have n1: "nat (spos + 1) = nat spos + 1" using 1(2) by auto
      have f: "filter (\<lambda>i. i \<notin> insert (nat spos) printed) [nat spos + 1..<?hi] = filter (\<lambda>i. i \<notin> printed) [nat spos + 1..<?hi]"
        by (auto intro: filter_cong)
      note IH = 1(1) [OF True refl refl False, unfolded hi n1 f]
      show ?thesis using True False IH 1(2) unfolding up iv
        by (subst cut_range.simps) (auto simp: Let_def)
    qed
  qed
qed

definition cut_covers :: "cut_list list \<Rightarrow> nat \<Rightarrow> bool" where
  "cut_covers cls i \<longleftrightarrow> list_ex (\<lambda>cl. startpos cl \<le> int i \<and> int i \<le> max (startpos cl) (endpos cl)) cls"

lemma cut_covers_Cons:
  assumes "0 \<le> startpos cl" and "i < length line"
  shows "cut_covers (cl # cls) i \<longleftrightarrow> nat (startpos cl) \<le> i \<and> i < range_end cl line \<or> cut_covers cls i"
  using assms by (auto simp: cut_covers_def range_end_def)

lemma filter_split_at:
  assumes "h \<le> n" and "\<And>i. i < h \<Longrightarrow> P i \<longleftrightarrow> a \<le> i \<and> P1 i" and "\<And>i. h \<le> i \<Longrightarrow> i < n \<Longrightarrow> P i \<longleftrightarrow> P2 i"
    and "\<And>i. P2 i \<Longrightarrow> h \<le> i"
  shows "filter P [0..<n] = filter P1 [a..<h] @ filter P2 [0..<n]"
proof -
  have u: "[0..<n] = [0..<h] @ [h..<n]" using assms(1) by (metis le_add_diff_inverse upt_add_eq_append zero_le)
  have "filter P [0..<h] = filter P1 [a..<h]"
  proof (cases "a \<le> h")
    case True
    have "[0..<h] = [0..<a] @ [a..<h]" using True by (metis le_add_diff_inverse upt_add_eq_append zero_le)
    moreover have "filter P [0..<a] = []" "filter P [a..<h] = filter P1 [a..<h]"
      using assms(2) True by (auto simp: filter_empty_conv intro!: filter_cong)
    ultimately show ?thesis by simp
  next
    case False
    then show ?thesis using assms(2) by (auto simp: filter_empty_conv)
  qed
  moreover have "filter P [h..<n] = filter P2 [h..<n]" using assms(3) by (auto intro: filter_cong)
  moreover have "filter P2 [0..<h] = []" using assms(4) by (force simp: filter_empty_conv)
  ultimately show ?thesis unfolding u by simp
qed

lemma cut_chars_spec:
  assumes "sorted_wrt (\<lambda>a b. startpos a \<le> startpos b) cls" and "\<forall>cl\<in>set cls. 0 \<le> startpos cl"
  shows "cut_chars line cls printed = map ((!) line) (filter (\<lambda>i. cut_covers cls i \<and> i \<notin> printed) [0..<length line])"
  using assms
proof (induction cls arbitrary: printed)
  case Nil
  then show ?case by (simp add: cut_covers_def)
next
  case (Cons cl cls)
  let ?a = "nat (startpos cl)" and ?h = "range_end cl line"
  let ?p = "printed \<union> {?a..<?h}"
  have r: "cut_range line (startpos cl) (endpos cl) printed =
      (map ((!) line) (filter (\<lambda>i. i \<notin> printed) [?a..<?h]), ?p)"
    using cut_range_spec [of "startpos cl" line "endpos cl" printed] Cons.prems(2) by (simp add: range_end_def)
  have later: "?a \<le> i" if "cut_covers cls i" for i
    using that Cons.prems by (fastforce simp: cut_covers_def list_ex_iff)
  have "filter (\<lambda>i. cut_covers (cl # cls) i \<and> i \<notin> printed) [0..<length line] =
      filter (\<lambda>i. i \<notin> printed) [?a..<?h] @ filter (\<lambda>i. cut_covers cls i \<and> i \<notin> ?p) [0..<length line]"
  proof (rule filter_split_at)
    show h: "?h \<le> length line" by (simp add: range_end_def)
    show "cut_covers (cl # cls) i \<and> i \<notin> printed \<longleftrightarrow> ?a \<le> i \<and> i \<notin> printed" if "i < ?h" for i
      using that h later [of i] cut_covers_Cons [of cl i line cls] Cons.prems(2) by auto
    show "cut_covers (cl # cls) i \<and> i \<notin> printed \<longleftrightarrow> cut_covers cls i \<and> i \<notin> ?p" if "?h \<le> i" "i < length line" for i
      using that cut_covers_Cons [of cl i line cls] Cons.prems(2) by auto
    show "?h \<le> i" if "cut_covers cls i \<and> i \<notin> ?p" for i using that later [of i] by auto
  qed
  then show ?case using r Cons by simp
qed

lemma cut_piece_startpos: "cut_piece tok = Returns cl \<Longrightarrow> 0 \<le> startpos cl"
proof -
  have "0 \<le> v" if "cut_start t = Returns v" for t v
    using that xstrtou_range [of UINT_MAX t 10 0 INT_MAX "[]"]
    by (auto simp: cut_start_def xatoi_positive_def xatou_range_def split: if_splits outcome.splits)
  then show "cut_piece tok = Returns cl \<Longrightarrow> 0 \<le> startpos cl"
    by (auto simp: cut_piece_def Let_def split: outcome.splits)
qed

lemma cut_pieces_startpos: "cut_pieces toks = Returns cls \<Longrightarrow> cl \<in> set cls \<Longrightarrow> 0 \<le> startpos cl"
  by (induction toks arbitrary: cls) (auto split: if_splits outcome.splits dest: cut_piece_startpos)

lemma qsort_cut_lists:
  assumes "qsort_contract qsort"
  shows "sorted_wrt (\<lambda>a b. startpos a \<le> startpos b) (qsort cmpfunc cls)" and "set (qsort cmpfunc cls) = set cls"
proof -
  have "consistent cmpfunc (set cls)" by (auto simp: consistent_def cmpfunc_def)
  then have q: "mset (qsort cmpfunc cls) = mset cls" "sorted_wrt (\<lambda>x y. cmpfunc x y \<le> 0) (qsort cmpfunc cls)"
    using assms unfolding qsort_contract_def by blast+
  show "set (qsort cmpfunc cls) = set cls" using q(1) by (metis set_mset_mset)
  show "sorted_wrt (\<lambda>a b. startpos a \<le> startpos b) (qsort cmpfunc cls)"
    using q(2) by (rule sorted_wrt_mono_rel [rotated]) (simp add: cmpfunc_def)
qed

lemma cut_covers_set: "set a = set b \<Longrightarrow> cut_covers a = cut_covers b"
  by (simp add: cut_covers_def fun_eq_iff list_ex_iff)

lemma cut_lines_chars: "cut_lines True opts cls n ls = concat (map (\<lambda>l. cut_chars l cls {} @ [NL]) ls)"
  by (induction ls arbitrary: n) (simp_all add: cut_one_line_def)

text \<open>The characters of a line at the positions that one of the lists covers.\<close>

definition picked :: "cut_list list \<Rightarrow> cstr \<Rightarrow> cstr" where
  "picked cls l = map ((!) l) (filter (cut_covers cls) [0..<length l])"

text \<open>C39: cut -c (and -b) prints of every line the characters at the positions that the list covers, each
  once and in the order of the line, whatever the order and the overlaps of the ranges.\<close>

theorem cut_chars_output:
  assumes "qsort_contract qsort" and "cut_pieces (strsep_all (CHR '','') sopt) = Returns cls" and "cls \<noteq> []"
  shows "cut_main qsort True False False None odelim sopt files =
    Returns (concat (map (\<lambda>f. concat (map (\<lambda>l. picked cls l @ [NL]) (file_lines f))) files))"
proof -
  let ?q = "qsort cmpfunc cls"
  note q = qsort_cut_lists [OF assms(1), of cls]
  have "cut_chars l ?q {} = picked cls l" for l
    using cut_chars_spec [OF q(1), of l "{}"] q(2) cut_pieces_startpos [OF assms(2)] cut_covers_set [OF q(2)]
    by (simp add: picked_def)
  then show ?thesis using assms(2,3) by (simp add: cut_main_def Let_def cut_file_def cut_lines_chars cong: map_cong)
qed

theorem cut_chars_output_witness:
  "cut_main insertion_qsort True False False None None ''4-,2'' [''abcdef'' @ [NL]] = Returns (''bdef'' @ [NL])"
proof -
  let ?cls = "[\<lparr>startpos = 3, endpos = INT_MAX\<rparr>, \<lparr>startpos = 1, endpos = 1\<rparr>]"
  have p: "cut_pieces (strsep_all (CHR '','') ''4-,2'') = Returns ?cls" by code_simp
  have l: "file_lines (''abcdef'' @ [NL]) = [''abcdef'']" by code_simp
  have k: "picked ?cls ''abcdef'' = ''bdef''" by code_simp
  from cut_chars_output [OF insertion_qsort_contract p] show ?thesis using l k by simp
qed

section \<open>Cut by fields\<close>

fun join :: "cstr \<Rightarrow> cstr list \<Rightarrow> cstr" where
  "join d [] = []"
| "join d [f] = f"
| "join d (f # fs) = f @ d @ join d fs"

fun later_fields :: "cstr \<Rightarrow> bool \<Rightarrow> cstr list \<Rightarrow> cstr" where
  "later_fields od b [] = []"
| "later_fields od b (g # gs) = (if b then od else []) @ g @ later_fields od True gs"

lemma later_fields_True: "later_fields od True gs = (if gs = [] then [] else od @ join od gs)"
  by (induction od gs rule: join.induct) auto

lemma later_fields_join: "later_fields od False gs = join od gs"
proof (cases gs)
  case (Cons g hs)
  then show ?thesis using later_fields_True [of od hs] by (cases hs) simp_all
qed simp

text \<open>The search runs over the characters of a field without changing anything but \<open>uu\<close> and \<open>end\<close>.\<close>

lemma cut_fields_scan:
  assumes "co_delim opts \<notin> set f" and "cf_dcount st \<le> endpos cl" and "cf_pos st = 0"
  shows "line = pre @ f @ rest \<Longrightarrow> cf_uu st = length pre \<Longrightarrow> cf_end st \<noteq> length line \<Longrightarrow>
    \<exists>e. e \<noteq> length line \<and>
      cut_fields opts [cl] line st = cut_fields opts [cl] line (st\<lparr>cf_uu := length pre + length f, cf_end := e\<rparr>)"
  using assms
proof (induction f arbitrary: pre st)
  case Nil
  have "st\<lparr>cf_uu := length pre + length [], cf_end := cf_end st\<rparr> = st" using Nil(2) by (cases st) simp
  then show ?case using Nil(3) by (intro exI [of _ "cf_end st"]) simp
next
  case (Cons c f)
  let ?st = "st\<lparr>cf_end := length pre, cf_uu := length pre + 1\<rparr>"
  have s: "cf_next_list opts [cl] line st = Some st" using Cons.prems by (simp add: cf_next_list_def)
  have "cf_search opts [cl] line st = CfContinue ?st"
    using Cons.prems by (auto simp: cf_search_def Let_def nth_append)
  then have st: "cut_fields opts [cl] line st = cut_fields opts [cl] line ?st"
    using Cons.prems s by (subst cut_fields.simps) simp
  obtain e where "e \<noteq> length line"
    "cut_fields opts [cl] line ?st = cut_fields opts [cl] line (?st\<lparr>cf_uu := length (pre @ [c]) + length f, cf_end := e\<rparr>)"
    using Cons.IH [of "pre @ [c]" ?st] Cons.prems by auto
  then show ?case using st by (intro exI [of _ e]) simp
qed

text \<open>The fields from the one under way on: skipped before the range, printed within it.\<close>

lemma cut_fields_run:
  assumes "0 \<le> startpos cl" and "startpos cl \<le> endpos cl"
  shows "\<lbrakk>\<forall>g\<in>set (f # fs). co_delim opts \<notin> set g; line = pre @ join [co_delim opts] (f # fs);
      cf_uu st = length pre; cf_start st = length pre; cf_end st \<noteq> length line; cf_pos st = 0;
      0 \<le> cf_dcount st; cf_dcount st \<le> endpos cl; 0 < cf_dcount st \<or> fs \<noteq> [];
      cf_out st \<longrightarrow> startpos cl < cf_dcount st\<rbrakk> \<Longrightarrow>
    cut_fields opts [cl] line st =
      (later_fields (co_odelim opts) (cf_out st)
         (take (nat (endpos cl - max (startpos cl) (cf_dcount st) + 1))
               (drop (nat (startpos cl - cf_dcount st)) (f # fs))), True)"
proof (induction fs arbitrary: f pre st)
  case Nil
  let ?k = "cf_dcount st" and ?s = "startpos cl"
  obtain e where e: "e \<noteq> length line"
    "cut_fields opts [cl] line st = cut_fields opts [cl] line (st\<lparr>cf_uu := length line, cf_end := e\<rparr>)"
    using cut_fields_scan [of opts f st cl line pre "[]"] Nil.prems by auto
  let ?st = "st\<lparr>cf_uu := length line, cf_end := e\<rparr>"
  have n: "cf_next_list opts [cl] line ?st = Some ?st" using e(1) Nil.prems by (simp add: cf_next_list_def)
  define st2 where "st2 = (if ?k < ?s then ?st\<lparr>cf_start := length line, cf_end := length line\<rparr> else ?st\<lparr>cf_end := length line\<rparr>)"
  have sr: "cf_search opts [cl] line ?st = CfPrint st2" using Nil.prems by (simp add: cf_search_def st2_def)
  have stop: "cut_fields opts [cl] line (cf_after st2) = ([], True)"
    using Nil.prems by (subst cut_fields.simps) (simp add: cf_next_list_def cf_after_def st2_def)
  have "cut_fields opts [cl] line st = (cf_field opts line st2, True)"
    unfolding e(2) using n sr stop Nil.prems by (subst cut_fields.simps) (auto simp: st2_def)
  moreover have "cf_field opts line st2 =
      later_fields (co_odelim opts) (cf_out st) (take (nat (endpos cl - max ?s ?k + 1)) (drop (nat (?s - ?k)) [f]))"
    using Nil.prems assms by (auto simp: st2_def cf_field_def)
  ultimately show ?case by simp
next
  case (Cons g fs)
  let ?k = "cf_dcount st" and ?s = "startpos cl" and ?d = "co_delim opts"
  let ?rest = "?d # join [?d] (g # fs)"
  have line: "line = pre @ f @ ?rest" using Cons.prems(2) by simp
  obtain e where e: "e \<noteq> length line"
    "cut_fields opts [cl] line st = cut_fields opts [cl] line (st\<lparr>cf_uu := length pre + length f, cf_end := e\<rparr>)"
    using cut_fields_scan [of opts f st cl line pre ?rest] Cons.prems line by auto
  let ?st = "st\<lparr>cf_uu := length pre + length f, cf_end := e\<rparr>"
  let ?u = "length pre + length f"
  have n: "cf_next_list opts [cl] line ?st = Some ?st" using e(1) Cons.prems by (simp add: cf_next_list_def)
  have at: "line ! ?u = ?d" "?u < length line" unfolding line by (simp_all add: nth_append)
  let ?next = "?st\<lparr>cf_end := ?u, cf_uu := ?u + 1, cf_dcount := ?k + 1\<rparr>"
  have line': "line = (pre @ f @ [?d]) @ join [?d] (g # fs)" using line by simp
  have skip: "drop (nat (?s - ?k)) (f # g # fs) = drop (nat (?s - (?k + 1))) (g # fs)" if "?k < ?s"
  proof -
    have "nat (?s - ?k) = Suc (nat (?s - (?k + 1)))" using that by linarith
    then show ?thesis by simp
  qed
  show ?case
  proof (cases "?k < ?s")
    case True
    then have "cf_search opts [cl] line ?st = CfContinue (?next\<lparr>cf_start := ?u + 1\<rparr>)"
      using at Cons.prems by (simp add: cf_search_def Let_def)
    then have "cut_fields opts [cl] line st = cut_fields opts [cl] line (?next\<lparr>cf_start := ?u + 1\<rparr>)"
      unfolding e(2) using n at by (subst cut_fields.simps) simp
    also have "\<dots> = (later_fields (co_odelim opts) (cf_out st)
         (take (nat (endpos cl - max ?s (?k + 1) + 1)) (drop (nat (?s - (?k + 1))) (g # fs))), True)"
      using Cons.IH [of g "pre @ f @ [?d]" "?next\<lparr>cf_start := ?u + 1\<rparr>"] Cons.prems line' at assms True by simp
    also have "max ?s (?k + 1) = max ?s ?k" using True by simp
    finally show ?thesis using skip [OF True] by simp
  next
    case False
    then have sr: "cf_search opts [cl] line ?st = CfPrint ?next"
      using at Cons.prems by (simp add: cf_search_def Let_def)
    have fld: "cf_field opts line ?next = (if cf_out st then co_odelim opts else []) @ f"
      using Cons.prems line by (simp add: cf_field_def)
    have step: "cut_fields opts [cl] line st =
        (let (out, nl) = cut_fields opts [cl] line (cf_after ?next) in (cf_field opts line ?next @ out, nl))"
      unfolding e(2) using n at sr Cons.prems by (subst cut_fields.simps) simp
    show ?thesis
    proof (cases "?k + 1 > endpos cl")
      case True
      then have "cut_fields opts [cl] line (cf_after ?next) = ([], True)"
        using at Cons.prems by (subst cut_fields.simps) (simp add: cf_next_list_def cf_after_def)
      moreover have "nat (endpos cl - max ?s ?k + 1) = 1" using True False Cons.prems assms by auto
      ultimately show ?thesis using step fld False by simp
    next
      case more: False
      have "cut_fields opts [cl] line (cf_after ?next) =
          (later_fields (co_odelim opts) True (take (nat (endpos cl - (?k + 1) + 1)) (g # fs)), True)"
        using Cons.IH [of g "pre @ f @ [?d]" "cf_after ?next"] Cons.prems line' at assms False more
        by (simp add: cf_after_def)
      moreover have "nat (endpos cl - max ?s ?k + 1) = Suc (nat (endpos cl - (?k + 1) + 1))"
        using False more by (simp add: max_def nat_eq_iff)
      ultimately show ?thesis using step fld False by simp
    qed
  qed
qed

text \<open>C40: cut -f with one range prints the fields of the range, joined by the output delimiter, for every
  line with at least one delimiter; fields behind the end of the line print nothing.\<close>

theorem cut_fields_output:
  assumes "2 \<le> length fs" and "\<forall>f\<in>set fs. co_delim opts \<notin> set f" and "co_delim opts \<noteq> NL"
    and "0 \<le> startpos cl" and "startpos cl \<le> endpos cl"
  shows "cut_one_line False opts [cl] n (join [co_delim opts] fs) =
    join (co_odelim opts) (take (nat (endpos cl - startpos cl + 1)) (drop (nat (startpos cl)) fs)) @ [NL]"
proof -
  obtain f g hs where fs: "fs = f # g # hs" using assms(1) by (cases fs; cases "tl fs") auto
  have "cut_fields opts [cl] (join [co_delim opts] fs) cf_init =
      (later_fields (co_odelim opts) False
         (take (nat (endpos cl - max (startpos cl) 0 + 1)) (drop (nat (startpos cl - 0)) fs)), True)"
    using cut_fields_run [OF assms(4,5), of f "g # hs" opts "join [co_delim opts] fs" "[]" cf_init] assms(2,4,5) fs
    by (simp add: cf_init_def)
  then show ?thesis using assms(3,4) by (simp add: cut_one_line_def later_fields_join max_def)
qed

theorem cut_fields_output_witness:
  "cut_one_line False \<lparr>co_nosort = False, co_suppress = False, co_delim = CHR '':'', co_odelim = ''-''\<rparr>
     [\<lparr>startpos = 1, endpos = 2\<rparr>] 0 ''a:b::d'' = ''b-'' @ [NL]"
  using cut_fields_output [of "[''a'', ''b'', '''', ''d'']"
      "\<lparr>co_nosort = False, co_suppress = False, co_delim = CHR '':'', co_odelim = ''-''\<rparr>" "\<lparr>startpos = 1, endpos = 2\<rparr>" 0]
  by simp

text \<open>An empty line is printed even under -s, although it has no delimiter.\<close>

lemma cut_empty_line_not_suppressed:
  "cut_one_line False \<lparr>co_nosort = False, co_suppress = True, co_delim = CHR '':'', co_odelim = '':''\<rparr>
     [\<lparr>startpos = 0, endpos = 0\<rparr>] 0 [] = [NL]"
  by code_simp

text \<open>An end position 0 does not mean the end of the line: the range 1-0 prints the first character.\<close>

lemma cut_end_zero:
  "cut_main insertion_qsort True False False None None ''1-0'' [''abc'' @ [NL]] = Returns (''a'' @ [NL])"
  by code_simp

end
