(* ===== verification/Spec2Isabelle.thy ===== *)
theory Spec2Isabelle
  imports Apk_Commands Doom_Video Ash_Arith Ash_Locals Ash_Word_Fields Ash_Cd Shell_Applets Ash_Evalstring Tr Test_Applet Cut
begin

text \<open>
  \<^bold>\<open>The system.\<close>  The repository builds a small operating system that runs inside a web page: a BusyBox userland
  compiled to WebAssembly (\<open>guest/busybox\<close>), with the ash shell at its centre, a package manager of its own
  (\<open>apk\<close>), a compatibility layer for the parts of POSIX that the WebAssembly C library lacks (\<open>wasi-compat.c\<close>),
  and packages such as DOOM, which is drawn on the terminal of the page (\<open>guest/pkgs/doom\<close>).  There is no
  fork, no pipe and no signal: the shell runs the stages of a pipeline one after the other through temporary
  files, runs a command substitution in its own process, and starts other programs through calls of the page.
  The development models the code that the repository adds or changes and the upstream code of the shell and of
  the text applets that it leans on, in the configuration of the build.

  \<^bold>\<open>How the parts interact.\<close>  A line of text goes through the lexer and the grammar (\<open>parsecmd\<close>), which give a tree;
  \<open>evalstring\<close> hands the trees of a string to \<open>evaltree\<close>; that evaluates lists, loops and functions, redirects
  descriptors, runs pipelines and substitutions, sets variables and computes arithmetic; simple commands are
  builtins (\<open>cd\<close>, \<open>test\<close>, \<open>echo\<close>, \<open>let\<close>), applets called in the same process (\<open>sort\<close>, \<open>uniq\<close>, \<open>cut\<close>, \<open>tr\<close>, \<open>apk\<close>) or
  programs that the page starts along PATH.  Applets read lines and numbers with the helpers of libbb.

  \<^bold>\<open>Theories and sources\<close> (paths below \<open>src/\<close>, BusyBox paths below \<open>guest/busybox/upstream/\<close>).
  \<^item> \<open>Prelude\<close>: C strings, scanners, outcomes, shared lemmas.
  \<^item> \<open>Host_FS\<close>: the file system and the world of a process; \<open>libbb/make_directory.c\<close>.  \<open>Wasi_Compat\<close>:
    \<open>guest/busybox/wasi-compat/wasi-compat.c\<close>, the page's functions being a parameter.
  \<^item> \<open>Apk_Text\<close>, \<open>Apk_Tar\<close>, \<open>Apk_Db\<close>, \<open>Apk\<close>, \<open>Apk_Commands\<close>: \<open>miscutils/apk.c\<close>, from its text scanners and the ustar
    reader to \<open>apk_main\<close>.
  \<^item> \<open>Doom_Input\<close>, \<open>Doom_Video\<close>: \<open>guest/pkgs/doom/doomgeneric_osmoap.c\<close>, the keyboard and the renderer.
  \<^item> \<open>Libbb_Text\<close>, \<open>Libbb_Num\<close>, \<open>Text_Lines\<close>: the text, number and line helpers of \<open>libbb\<close>.  \<open>Text_Applets\<close>, \<open>Tr\<close>, \<open>Sort\<close>,
    \<open>Uniq\<close>, \<open>Cut\<close>, \<open>Test_Applet\<close>: \<open>echo.c\<close>, \<open>tr.c\<close>, \<open>sort.c\<close>, \<open>uniq.c\<close>, \<open>cut.c\<close> and \<open>test.c\<close> of \<open>coreutils\<close>.
  \<^item> \<open>Ash_Math\<close>, \<open>Ash_Math_Safe\<close>, \<open>Ash_Math_Expr\<close>: \<open>shell/math.c\<close>.  All further theories are about \<open>shell/ash.c\<close>.
  \<^item> \<open>Ash_Vars\<close>, \<open>Ash_Locals\<close>, \<open>Ash_Arith\<close>: the table of variables, local variables of functions, arithmetic on them.
  \<^item> \<open>Ash_Io\<close>, \<open>Ash_Redir\<close>, \<open>Ash_Pipe\<close>, \<open>Ash_Eval\<close>, \<open>Shell_Applets\<close>: descriptors and buffers, redirections, pipelines and
    substitutions, \<open>evaltree\<close>, and an applet pipeline run by the shell.
  \<^item> \<open>Ash_Syntax\<close>, \<open>Ash_Expand\<close>, \<open>Ash_Glob\<close>, \<open>Ash_Words\<close>: character classes, quoting marks, field splitting, prefix and
    suffix removal, pathname expansion, and the walk over a word that puts them together (\<open>argstr\<close>, \<open>evalvar\<close>,
    \<open>expandarg\<close>).  \<open>Ash_Words_End\<close>: the walk ends.  \<open>Ash_Word_Walk\<close>, \<open>Ash_Word_Fields\<close>: the fields of a word.
  \<^item> \<open>Ash_Cd\<close>: the walk over PATH and CDPATH, \<open>cd\<close> and \<open>pwd\<close>.
  \<^item> \<open>Ash_Input\<close>, \<open>Ash_Token\<close>, \<open>Ash_Parser\<close>: input with pushback, lexer and grammar.  \<open>Ash_Lex\<close>, \<open>Ash_Grammar\<close>, \<open>Ash_Tree\<close>,
    \<open>Ash_Parse_Tree\<close>, \<open>Ash_Parse_Whole\<close>: the abstract syntax of commands and that the parser finds its tree.
    \<open>Ash_Input_Left\<close>, \<open>Ash_Lex_Ends\<close>, \<open>Ash_Parse_Ends\<close>: that the parser ends on every text.  \<open>Ash_Evalstring\<close>:
    running a string.

  \<^bold>\<open>State and operations.\<close>  Structures of the sources are records with the names of their fields, enumerations are
  datatypes, one definition stands for one function or for one loop of it.  Pointers into strings are suffixes or
  offsets; integers are words where their width matters.  \<open>exit\<close>, \<open>longjmp\<close> and undefined behaviour are values of
  outcome types, so every early return and every raised error is a branch.  Code outside the repository
  (\<open>qsort\<close>, \<open>fnmatch\<close>, the page's functions, the key codes of DOOM) is a parameter, and so are, where a theory is
  about their callers, the evaluator of commands, directory listings and the user database.

  \<^bold>\<open>What the theorems show.\<close>
  \<^item> Package manager: installing and then deleting gives the database and the files back; each of the two does
    exactly what it reports, world file included; extraction writes the entries of an archive.
  \<^item> Parser: it implements the grammar (the tree of every well-formed command list is found from its text, one blank
    behind each token, to any depth; redirections on a group that is only a subshell are left out, where the
    parser loses some), it ends on every text without following a null pointer, \<open>single_quote\<close> reads back as the
    string.  Running the text of a command runs its tree once; running any string ends when its commands do, and
    unless it ends in a syntax error the shell then reads on where it was.
  \<^item> Evaluator: the flags of \<open>break\<close>, \<open>continue\<close> and \<open>return\<close> implement structured control flow; pipelines compose
    the functions of their stages, substitutions of commands that leave the descriptors alone capture the output,
    redirections of descriptors below 10 are undone.
  \<^item> Variables: the hash table refines a map, locals are restored, \<open>cd\<close> keeps its names of a directory in agreement
    unless PWD or OLDPWD is read-only and \<open>cd -\<close> undoes it; PATH is searched in order.
  \<^item> Expansion: it ends on every word; a quoted word is one field with exactly its text and values; of other words
    exactly the unquoted values are split, as the rules of IFS say when no two of them touch; trimming cuts at
    the shortest or longest match; a pattern is replaced by the names it matches, in order.
  \<^item> Arithmetic: the value of the expression is computed, with precedences, associativity and operators specified
    apart from the code, the operator stack is safe (the number stack is not, and a write past it stays a
    value of its own), the recursion through variables
    ends, an assignment reads back.
  \<^item> Applets: \<open>sort\<close>, \<open>uniq\<close>, \<open>cut\<close>, \<open>tr\<close> and \<open>test\<close> compute what their specifications say; \<open>sort | uniq\<close> run by the shell
    prints what \<open>sort -u\<close> prints.
  \<^item> Terminal and DOOM: the page's line discipline agrees with the flags, key events alternate and every key is
    released, a frame shows its averages and fits its buffer.

  \<^bold>\<open>Interfaces.\<close>  \<open>line_walk\<close> (walks over the lines of a text, interpreted on three scanners of \<open>apk\<close>), \<open>text_file\<close> (a file
  kept as a text: database and world file), \<open>var_store\<close> (what arithmetic needs of a table of variables),
  \<open>bounded_queue\<close> (the ring of key presses), \<open>line_order\<close> (the comparisons of \<open>sort\<close>) and \<open>grammar_contract\<close> (what the
  lexer needs of the grammar it calls back) are locales, interpreted on the definitions of the code.

  \<^bold>\<open>Bounds.\<close>  Where a recursion of the code is not structural and no measure is at hand, a definition carries a bound and
  running out of it is a value of its own; theorems say how much is enough: for the parser any number above the
  length of the text (\<open>parser_ends\<close>), for the walk over a word any number above the length of its text
  (\<open>expandarg_ends\<close>), for the recursion of arithmetic two more than the number of variables (\<open>letcmd_ends\<close>), for \<open>test\<close> a multiple of the number of arguments (\<open>test_parsers_finish\<close>).  The evaluator
  \<open>evaltree\<close> may run forever, as shell loops may: its refinement theorem relates it, round by round, to the
  specification with the same bound.

  \<^bold>\<open>Not modelled.\<close>  Job control, signals and traps (the host has none); the command hash, \<open>evalcommand\<close> and most builtins;
  removing a prefix or suffix from a list of parameters; the input behind a syntax error; reading scripts from descriptors, prompts, line
  numbers and the line editor; memory exhaustion.  The applets not named above are upstream code used
  unchanged; \<open>hush\<close> is not configured; the host side of the page is not written in C.
\<close>

end
